(* ===== verification/Rl_Prelude.thy ===== *)
theory Rl_Prelude
  imports Main "HOL-Library.Word" "HOL-Library.Multiset"
begin

text \<open>
  Shared ground of the development: the machine types, the error values and the result
  type of the Rust code, panicking accesses to slices and panicking subtraction, counted
  \<^verbatim>\<open>for\<close> loops over a fallible body, and the generic facts on lists and words that the
  component theories use.

  \<^item> \<^verbatim>\<open>usize\<close> is \<^typ>\<open>nat\<close>; a subtraction that would go below zero is the panic it is
    with overflow checks (\<open>usub\<close>). A slice never holds more than \<^verbatim>\<open>isize::MAX\<close> bytes,
    so sums of indices and lengths do not overflow.
  \<^item> \<^verbatim>\<open>u8\<close>, \<^verbatim>\<open>i16\<close>, \<^verbatim>\<open>i32\<close>/\<^verbatim>\<open>u32\<close> and \<^verbatim>\<open>i64\<close>/\<^verbatim>\<open>u64\<close> are words of their width;
    \<^const>\<open>sint\<close> reads the signed ones. The arithmetic shift of a signed value is
    \<^const>\<open>signed_drop_bit\<close>, the logical one \<^const>\<open>drop_bit\<close>.
  \<^item> \<^verbatim>\<open>Result<T>\<close> is a sum with the error on the left. A panic (an index out of range, a
    failed \<^verbatim>\<open>debug_assert!\<close> or \<^verbatim>\<open>assert!\<close>, an arithmetic overflow) is the error value
    \<open>Panic\<close>: the model is that of a build with debug assertions and overflow checks
    (the profile of \<^verbatim>\<open>cargo test\<close>). Error messages are dropped.
\<close>

unbundle bit_operations_syntax

section \<open>Types, errors and results\<close>

type_synonym u8 = "8 word"
type_synonym i16 = "16 word"
type_synonym i32 = "32 word"
type_synonym i64 = "64 word"

datatype io_error_kind = NotFound | AlreadyExists | PermissionDenied

datatype lucene_error =
    IllegalArgument
  | IllegalState
  | UnsupportedOperation
  | NumberOverflow
  | ArrayIndexOutOfBounds
  | NotImplemented
  | AlreadyClosed
  | Eof
  | Io io_error_kind
  | IoWithPath io_error_kind
  | Panic

type_synonym 'a res = "lucene_error + 'a"

text \<open>\<^verbatim>\<open>NO_MORE_DOCS\<close>, \<^verbatim>\<open>i32::MAX\<close>, read as a \<^verbatim>\<open>usize\<close>.\<close>

definition NO_MORE_DOCS :: nat where
  "NO_MORE_DOCS = 2 ^ 31 - 1"

named_theorems res_simps \<open>unfolding of the result operations\<close>

definition rbind :: "'a res \<Rightarrow> ('a \<Rightarrow> 'b res) \<Rightarrow> 'b res" where
  "rbind m f = (case m of Inl e \<Rightarrow> Inl e | Inr x \<Rightarrow> f x)"

lemma rbind_simps [simp]:
  "rbind (Inl e) f = Inl e"
  "rbind (Inr x) f = f x"
  by (simp_all add: rbind_def)

lemma rbind_eq_Inr [res_simps]:
  "rbind m f = Inr y \<longleftrightarrow> (\<exists>x. m = Inr x \<and> f x = Inr y)"
  by (cases m) auto

lemma rbind_eq_Inl [res_simps]:
  "rbind m f = Inl e \<longleftrightarrow> m = Inl e \<or> (\<exists>x. m = Inr x \<and> f x = Inl e)"
  by (cases m) auto

lemma rbind_assoc: "rbind (rbind m f) g = rbind m (\<lambda>x. rbind (f x) g)"
  by (cases m) auto

lemma rbind_cong [fundef_cong]:
  "m = m' \<Longrightarrow> (\<And>x. m' = Inr x \<Longrightarrow> f x = g x) \<Longrightarrow> rbind m f = rbind m' g"
  by (cases m') auto

definition dassert :: "bool \<Rightarrow> 'a res \<Rightarrow> 'a res" where
  "dassert c k = (if c then k else Inl Panic)"

lemma dassert_simps [simp]:
  "dassert True k = k"
  "dassert False k = Inl Panic"
  by (simp_all add: dassert_def)

lemma dassert_eq_Inr [res_simps]: "dassert c k = Inr y \<longleftrightarrow> c \<and> k = Inr y"
  by (simp add: dassert_def)

lemma dassert_cong [fundef_cong]:
  "c = c' \<Longrightarrow> (c' \<Longrightarrow> k = k') \<Longrightarrow> dassert c k = dassert c' k'"
  by (simp add: dassert_def)

definition idx :: "'a list \<Rightarrow> nat \<Rightarrow> 'a res" where
  "idx xs i = (if i < length xs then Inr (xs ! i) else Inl Panic)"

definition upd :: "'a list \<Rightarrow> nat \<Rightarrow> 'a \<Rightarrow> 'a list res" where
  "upd xs i v = (if i < length xs then Inr (xs[i := v]) else Inl Panic)"

definition usub :: "nat \<Rightarrow> nat \<Rightarrow> nat res" where
  "usub a b = (if b \<le> a then Inr (a - b) else Inl Panic)"

lemma idx_ok [simp]: "i < length xs \<Longrightarrow> idx xs i = Inr (xs ! i)"
  by (simp add: idx_def)

lemma upd_ok [simp]: "i < length xs \<Longrightarrow> upd xs i v = Inr (xs[i := v])"
  by (simp add: upd_def)

lemma usub_ok [simp]: "b \<le> a \<Longrightarrow> usub a b = Inr (a - b)"
  by (simp add: usub_def)

lemma idx_eq_Inr [res_simps]: "idx xs i = Inr v \<longleftrightarrow> i < length xs \<and> v = xs ! i"
  by (auto simp: idx_def)

lemma upd_eq_Inr [res_simps]: "upd xs i v = Inr ys \<longleftrightarrow> i < length xs \<and> ys = xs[i := v]"
  by (auto simp: upd_def)

lemma usub_eq_Inr [res_simps]: "usub a b = Inr c \<longleftrightarrow> b \<le> a \<and> c = a - b"
  by (auto simp: usub_def)

text \<open>Addition on \<^verbatim>\<open>u32\<close>, read as naturals: the overflow is a panic.\<close>

definition u32_add :: "nat \<Rightarrow> nat \<Rightarrow> nat res" where
  "u32_add a b = (if a + b < 2 ^ 32 then Inr (a + b) else Inl Panic)"

lemma u32_add_ok [simp]: "a + b < 2 ^ 32 \<Longrightarrow> u32_add a b = Inr (a + b)"
  by (simp add: u32_add_def)

text \<open>\<^verbatim>\<open>&b[offset..offset+len]\<close>, and writing a run of bytes into a slice.\<close>

definition slice :: "'a list \<Rightarrow> nat \<Rightarrow> nat \<Rightarrow> 'a list res" where
  "slice xs off len =
     (if off + len \<le> length xs then Inr (take len (drop off xs)) else Inl Panic)"

definition splice :: "'a list \<Rightarrow> nat \<Rightarrow> 'a list \<Rightarrow> 'a list res" where
  "splice xs off ys =
     (if off + length ys \<le> length xs
      then Inr (take off xs @ ys @ drop (off + length ys) xs) else Inl Panic)"

lemma slice_ok [simp]: "off + len \<le> length xs \<Longrightarrow> slice xs off len = Inr (take len (drop off xs))"
  by (simp add: slice_def)

lemma splice_ok [simp]:
  "off + length ys \<le> length xs \<Longrightarrow>
   splice xs off ys = Inr (take off xs @ ys @ drop (off + length ys) xs)"
  by (simp add: splice_def)

section \<open>Counted loops over a fallible body\<close>

fun for_each :: "'i list \<Rightarrow> ('i \<Rightarrow> 's \<Rightarrow> 's res) \<Rightarrow> 's \<Rightarrow> 's res" where
  "for_each [] f s = Inr s"
| "for_each (i # is) f s = rbind (f i s) (for_each is f)"

lemma for_each_append: "for_each (xs @ ys) f s = rbind (for_each xs f s) (for_each ys f)"
  by (induction xs arbitrary: s) (simp_all add: rbind_assoc fun_eq_iff rbind_def split: sum.split)

lemma for_each_cong [fundef_cong]:
  "xs = ys \<Longrightarrow> s = t \<Longrightarrow> (\<And>i s. i \<in> set ys \<Longrightarrow> f i s = g i s) \<Longrightarrow> for_each xs f s = for_each ys g t"
  by (induction ys arbitrary: xs s t) (auto intro: rbind_cong)

text \<open>The loop rule: an invariant indexed by the loop counter.\<close>

lemma for_each_upt_rule:
  assumes "lo \<le> hi" and "P lo s"
    and "\<And>i s. lo \<le> i \<Longrightarrow> i < hi \<Longrightarrow> P i s \<Longrightarrow> \<exists>s'. f i s = Inr s' \<and> P (Suc i) s'"
  shows "\<exists>s'. for_each [lo..<hi] f s = Inr s' \<and> P hi s'"
  using assms
proof (induction "hi - lo" arbitrary: lo s)
  case 0
  then show ?case by simp
next
  case (Suc n)
  then have "lo < hi" by simp
  with Suc.prems obtain s1 where s1: "f lo s = Inr s1" "P (Suc lo) s1" by blast
  from Suc.hyps(2) \<open>lo < hi\<close> have "\<exists>s'. for_each [Suc lo..<hi] f s1 = Inr s' \<and> P hi s'"
    by (intro Suc.hyps(1)) (use s1(2) Suc.prems(3) in auto)
  with s1(1) \<open>lo < hi\<close> show ?case by (simp add: upt_conv_Cons)
qed

text \<open>The same for a loop that counts down, \<^verbatim>\<open>for i in (lo..hi).rev()\<close>.\<close>

lemma for_each_downto_rule:
  assumes "lo \<le> hi" and "P hi s"
    and "\<And>i s. lo \<le> i \<Longrightarrow> i < hi \<Longrightarrow> P (Suc i) s \<Longrightarrow> \<exists>s'. f i s = Inr s' \<and> P i s'"
  shows "\<exists>s'. for_each (rev [lo..<hi]) f s = Inr s' \<and> P lo s'"
  using assms
proof (induction "hi - lo" arbitrary: hi s)
  case 0
  then show ?case by simp
next
  case (Suc n)
  then obtain h where h: "hi = Suc h" "lo \<le> h" by (cases hi) auto
  with Suc.prems obtain s1 where s1: "f h s = Inr s1" "P h s1" by (metis lessI)
  from Suc.hyps(2) h have "\<exists>s'. for_each (rev [lo..<h]) f s1 = Inr s' \<and> P lo s'"
    by (intro Suc.hyps(1)) (use s1(2) Suc.prems(3) h in auto)
  with s1(1) h show ?case by simp
qed

section \<open>Element-wise loops over a range of a list\<close>

text \<open>
  \<open>wmap lo hi F xs\<close> rewrites the elements at positions \<open>lo..<hi\<close>. A counted loop
  whose body rewrites element \<open>i + off\<close> from its old value is such a map, in either
  direction of the count.
\<close>

definition wmap :: "nat \<Rightarrow> nat \<Rightarrow> (nat \<Rightarrow> 'a \<Rightarrow> 'a) \<Rightarrow> 'a list \<Rightarrow> 'a list" where
  "wmap lo hi F xs = map (\<lambda>k. if lo \<le> k \<and> k < hi then F k (xs ! k) else xs ! k) [0..<length xs]"

lemma length_wmap [simp]: "length (wmap lo hi F xs) = length xs"
  by (simp add: wmap_def)

lemma nth_wmap:
  "k < length xs \<Longrightarrow> wmap lo hi F xs ! k = (if lo \<le> k \<and> k < hi then F k (xs ! k) else xs ! k)"
  by (simp add: wmap_def)

lemma wmap_empty: "hi \<le> lo \<Longrightarrow> wmap lo hi F xs = xs"
  by (rule nth_equalityI) (auto simp: nth_wmap)

lemma wmap_extend_up:
  "lo \<le> m \<Longrightarrow> m < length xs \<Longrightarrow>
   (wmap lo m F xs)[m := F m (wmap lo m F xs ! m)] = wmap lo (Suc m) F xs"
  by (rule nth_equalityI) (auto simp: nth_wmap nth_list_update less_Suc_eq)

lemma wmap_extend_down:
  "m < hi \<Longrightarrow> m < length xs \<Longrightarrow>
   (wmap (Suc m) hi F xs)[m := F m (wmap (Suc m) hi F xs ! m)] = wmap m hi F xs"
  by (rule nth_equalityI) (auto simp: nth_wmap nth_list_update less_Suc_eq le_eq_less_or_eq)

lemma for_each_wmap_up:
  assumes "lo \<le> hi" "hi + off \<le> length xs"
    and "\<And>i ys. lo \<le> i \<Longrightarrow> i < hi \<Longrightarrow> length ys = length xs \<Longrightarrow>
           body i ys = Inr (ys[i + off := F (i + off) (ys ! (i + off))])"
  shows "for_each [lo..<hi] body xs = Inr (wmap (lo + off) (hi + off) F xs)"
proof -
  have "\<exists>s'. for_each [lo..<hi] body xs = Inr s' \<and> s' = wmap (lo + off) (hi + off) F xs"
    by (rule for_each_upt_rule [where P = "\<lambda>i ys. ys = wmap (lo + off) (i + off) F xs"])
      (use assms in \<open>auto simp: wmap_empty wmap_extend_up\<close>)
  then show ?thesis by simp
qed

lemma for_each_wmap_down:
  assumes "lo \<le> hi" "hi + off \<le> length xs"
    and "\<And>i ys. lo \<le> i \<Longrightarrow> i < hi \<Longrightarrow> length ys = length xs \<Longrightarrow>
           body i ys = Inr (ys[i + off := F (i + off) (ys ! (i + off))])"
  shows "for_each (rev [lo..<hi]) body xs = Inr (wmap (lo + off) (hi + off) F xs)"
proof -
  have "\<exists>s'. for_each (rev [lo..<hi]) body xs = Inr s' \<and> s' = wmap (lo + off) (hi + off) F xs"
    by (rule for_each_downto_rule [where P = "\<lambda>i ys. ys = wmap (i + off) (hi + off) F xs"])
      (use assms in \<open>auto simp: wmap_empty wmap_extend_down\<close>)
  then show ?thesis by simp
qed

section \<open>The next and the previous element of a set of documents\<close>

text \<open>
  What the bit sets and the document iterators promise of their searches: the least
  element at or after a position, the greatest at or before one.
\<close>

definition next_from :: "nat set \<Rightarrow> nat \<Rightarrow> nat option" where
  "next_from S a = (if \<exists>j\<in>S. a \<le> j then Some (LEAST j. j \<in> S \<and> a \<le> j) else None)"

definition prev_upto :: "nat set \<Rightarrow> nat \<Rightarrow> nat option" where
  "prev_upto S a = (if \<exists>j\<in>S. j \<le> a then Some (GREATEST j. j \<in> S \<and> j \<le> a) else None)"

definition doc_from :: "nat set \<Rightarrow> nat \<Rightarrow> nat" where
  "doc_from S a = (case next_from S a of None \<Rightarrow> NO_MORE_DOCS | Some r \<Rightarrow> r)"

lemma next_from_None: "next_from S a = None \<longleftrightarrow> (\<forall>j\<in>S. j < a)"
  by (simp add: next_from_def) (meson not_le)

lemma next_from_Some:
  "next_from S a = Some r \<longleftrightarrow> r \<in> S \<and> a \<le> r \<and> (\<forall>j. a \<le> j \<longrightarrow> j < r \<longrightarrow> j \<notin> S)"
proof
  assume "next_from S a = Some r"
  then have "\<exists>j. j \<in> S \<and> a \<le> j" and r: "r = (LEAST j. j \<in> S \<and> a \<le> j)"
    by (auto simp: next_from_def split: if_splits)
  then show "r \<in> S \<and> a \<le> r \<and> (\<forall>j. a \<le> j \<longrightarrow> j < r \<longrightarrow> j \<notin> S)"
    using LeastI_ex [of "\<lambda>j. j \<in> S \<and> a \<le> j"] not_less_Least [of _ "\<lambda>j. j \<in> S \<and> a \<le> j"] by blast
next
  assume r: "r \<in> S \<and> a \<le> r \<and> (\<forall>j. a \<le> j \<longrightarrow> j < r \<longrightarrow> j \<notin> S)"
  then have "(LEAST j. j \<in> S \<and> a \<le> j) = r"
    by (intro Least_equality) (auto simp: not_less [symmetric])
  with r show "next_from S a = Some r" by (auto simp: next_from_def)
qed

lemma prev_upto_None: "prev_upto S a = None \<longleftrightarrow> (\<forall>j\<in>S. a < j)"
  by (simp add: prev_upto_def) (meson not_le)

lemma prev_upto_Some:
  "prev_upto S a = Some r \<longleftrightarrow> r \<in> S \<and> r \<le> a \<and> (\<forall>j. j \<le> a \<longrightarrow> r < j \<longrightarrow> j \<notin> S)"
proof
  assume "prev_upto S a = Some r"
  then obtain k where k: "k \<in> S \<and> k \<le> a" and r: "r = (GREATEST j. j \<in> S \<and> j \<le> a)"
    by (auto simp: prev_upto_def split: if_splits)
  have "r \<in> S \<and> r \<le> a" unfolding r by (rule GreatestI_nat [of _ k a]) (use k in auto)
  moreover have "j \<le> r" if "j \<in> S" "j \<le> a" for j
    unfolding r by (rule Greatest_le_nat [of _ j a]) (use that in auto)
  ultimately show "r \<in> S \<and> r \<le> a \<and> (\<forall>j. j \<le> a \<longrightarrow> r < j \<longrightarrow> j \<notin> S)" by fastforce
next
  assume r: "r \<in> S \<and> r \<le> a \<and> (\<forall>j. j \<le> a \<longrightarrow> r < j \<longrightarrow> j \<notin> S)"
  then have "(GREATEST j. j \<in> S \<and> j \<le> a) = r"
    by (intro Greatest_equality) (auto simp: not_less [symmetric])
  with r show "prev_upto S a = Some r" by (auto simp: prev_upto_def)
qed

section \<open>Values of type \<^verbatim>\<open>i32\<close> as integers\<close>

text \<open>A sum, difference or product that leaves the range of \<^verbatim>\<open>i32\<close> is a panic.\<close>

definition i32_checked :: "int \<Rightarrow> int res" where
  "i32_checked x = (if - (2 ^ 31) \<le> x \<and> x < 2 ^ 31 then Inr x else Inl Panic)"

definition i32_add :: "int \<Rightarrow> int \<Rightarrow> int res" where
  "i32_add a b = (if - (2 ^ 31) \<le> a + b \<and> a + b < 2 ^ 31 then Inr (a + b) else Inl Panic)"

text \<open>\<^verbatim>\<open>try_convert\<close> between \<^verbatim>\<open>usize\<close> and \<^verbatim>\<open>i32\<close>.\<close>

definition usize_of_i32 :: "int \<Rightarrow> nat res" where
  "usize_of_i32 x = (if 0 \<le> x then Inr (nat x) else Inl IllegalState)"

definition i32_of_usize :: "nat \<Rightarrow> int res" where
  "i32_of_usize n = (if n < 2 ^ 31 then Inr (int n) else Inl IllegalState)"

text \<open>\<^verbatim>\<open>as i32\<close>, which wraps.\<close>

definition as_i32 :: "nat \<Rightarrow> int" where
  "as_i32 n = signed_take_bit 31 (int n)"

abbreviation NO_MORE :: int where
  "NO_MORE \<equiv> int NO_MORE_DOCS"

lemma i32_add_one [simp]: "-1 \<le> d \<Longrightarrow> d < NO_MORE \<Longrightarrow> i32_add d 1 = Inr (d + 1)"
  by (simp add: i32_add_def NO_MORE_DOCS_def)

lemma as_i32_small [simp]: "n \<le> NO_MORE_DOCS \<Longrightarrow> as_i32 n = int n"
  by (simp add: as_i32_def NO_MORE_DOCS_def signed_take_bit_int_eq_self)

lemma sint_small: "uint v < 2 ^ (LENGTH('a) - 1) \<Longrightarrow> sint v = uint v" for v :: "'a::len word"
proof -
  assume a: "uint v < 2 ^ (LENGTH('a) - 1)"
  have "- (2 ^ (LENGTH('a) - 1)) \<le> uint v"
    using uint_ge_0 [of v] zero_le_power [of "2::int" "LENGTH('a) - 1"] by linarith
  with a show ?thesis unfolding sint_uint by (intro signed_take_bit_int_eq_self) simp_all
qed

end
