(* ===== verification/Word_Bits.thy ===== *)
theory Word_Bits
  imports Rl_Prelude
begin

text \<open>
  Bit counting on words (\<^verbatim>\<open>count_ones\<close>, \<^verbatim>\<open>trailing_zeros\<close>, \<^verbatim>\<open>leading_zeros\<close> of the Rust
  standard library) and the reading of a list of 64-bit words as a set of bit positions,
  \<open>wbit\<close> and \<open>bits_of\<close>, which the bit sets of \<^verbatim>\<open>core/util\<close> share. A collection
  \<open>wbit_simps\<close> holds the facts that push \<open>wbit\<close> through updates and masks.
\<close>

named_theorems wbit_simps \<open>single bits of updated word lists\<close>

section \<open>Counting bits\<close>

definition count_ones :: "'a::len word \<Rightarrow> nat" where
  "count_ones w = length (filter (bit w) [0..<LENGTH('a)])"

definition trailing_zeros :: "'a::len word \<Rightarrow> nat" where
  "trailing_zeros w = length (takeWhile (\<lambda>i. \<not> bit w i) [0..<LENGTH('a)])"

definition leading_zeros :: "'a::len word \<Rightarrow> nat" where
  "leading_zeros w = length (takeWhile (\<lambda>i. \<not> bit w i) (rev [0..<LENGTH('a)]))"

lemma bit_lt_length: "bit w i \<Longrightarrow> i < LENGTH('a)" for w :: "'a::len word"
  using bit_imp_le_length by blast

lemma bit_lt_64: "bit w i \<Longrightarrow> i < 64" for w :: i64
  using bit_lt_length [of w i] by simp

lemma count_ones_card: "count_ones w = card {i. bit w i}" for w :: "'a::len word"
proof -
  have "{i. bit w i} = set (filter (bit w) [0..<LENGTH('a)])"
    by (auto dest: bit_lt_length)
  then show ?thesis
    by (simp only: count_ones_def distinct_card distinct_filter distinct_upt)
qed

lemma count_ones_zero_iff: "count_ones w = 0 \<longleftrightarrow> w = 0" for w :: "'a::len word"
proof -
  have "finite {i. bit w i}" by (rule finite_subset [of _ "{..<LENGTH('a)}"]) (auto dest: bit_lt_length)
  then have "count_ones w = 0 \<longleftrightarrow> (\<forall>i. \<not> bit w i)"
    by (simp add: count_ones_card)
  then show ?thesis by (auto intro: bit_word_eqI)
qed

lemma word_nonzero_bit: "w \<noteq> 0 \<Longrightarrow> \<exists>i<LENGTH('a). bit w i" for w :: "'a::len word"
  by (metis bit_lt_length bit_word_eqI bit_0_eq bot_apply bot_bool_def)

lemma word_zero_iff_bits: "w = 0 \<longleftrightarrow> (\<forall>i<LENGTH('a). \<not> bit w i)" for w :: "'a::len word"
  using word_nonzero_bit by fastforce

lemma takeWhile_upt_nth:
  "j < length (takeWhile P [0..<n]) \<Longrightarrow> P j"
  by (metis add_0 length_takeWhile_le le_less_trans length_upt less_imp_le_nat linorder_not_le
      minus_nat.diff_0 nth_mem nth_upt order_less_le_trans set_takeWhileD takeWhile_nth)

lemma trailing_zeros_below: "j < trailing_zeros w \<Longrightarrow> \<not> bit w j" for w :: "'a::len word"
  unfolding trailing_zeros_def by (drule takeWhile_upt_nth) simp

lemma trailing_zeros_bit:
  fixes w :: "'a::len word"
  assumes "w \<noteq> 0"
  shows "bit w (trailing_zeros w) \<and> trailing_zeros w < LENGTH('a)"
proof -
  obtain i where i: "i < LENGTH('a)" "bit w i" using word_nonzero_bit [OF assms] by blast
  let ?n = "length (takeWhile (\<lambda>i. \<not> bit w i) [0..<LENGTH('a)])"
  have "?n < LENGTH('a)"
  proof (rule ccontr)
    assume "\<not> ?n < LENGTH('a)"
    with i(1) have "i < ?n" by simp
    from takeWhile_upt_nth [OF this] i(2) show False by simp
  qed
  then have "\<not> (\<lambda>i. \<not> bit w i) ([0..<LENGTH('a)] ! ?n)"
    by (intro nth_length_takeWhile) simp
  with \<open>?n < LENGTH('a)\<close> show ?thesis by (simp add: trailing_zeros_def)
qed

lemma trailing_zeros_eqI:
  fixes w :: "'a::len word"
  assumes "bit w i" "\<And>j. j < i \<Longrightarrow> \<not> bit w j"
  shows "trailing_zeros w = i"
proof -
  have "w \<noteq> 0" using assms(1) by auto
  then show ?thesis
    using assms trailing_zeros_bit [of w] trailing_zeros_below [of _ w] by (metis linorder_neqE_nat)
qed

lemma leading_zeros_trailing: "leading_zeros w = trailing_zeros (word_reverse w)"
  for w :: "'a::len word"
proof -
  let ?n = "LENGTH('a)"
  have "rev [0..<?n] = map (\<lambda>i. ?n - 1 - i) [0..<?n]"
    by (rule nth_equalityI) (auto simp: rev_nth)
  then have "leading_zeros w
      = length (takeWhile (\<lambda>i. \<not> bit w (?n - 1 - i)) [0..<?n])"
    by (simp add: leading_zeros_def takeWhile_map comp_def)
  also have "takeWhile (\<lambda>i. \<not> bit w (?n - 1 - i)) [0..<?n]
      = takeWhile (\<lambda>i. \<not> bit (word_reverse w) i) [0..<?n]"
    by (rule takeWhile_cong) (auto simp: bit_word_reverse_iff)
  finally show ?thesis by (simp add: trailing_zeros_def)
qed

lemma leading_zeros_bit:
  fixes w :: "'a::len word"
  assumes "w \<noteq> 0"
  shows "leading_zeros w < LENGTH('a) \<and> bit w (LENGTH('a) - 1 - leading_zeros w)"
proof -
  obtain i where i: "i < LENGTH('a)" "bit w i" using word_nonzero_bit [OF assms] by blast
  then have "bit (word_reverse w) (LENGTH('a) - 1 - i)" by (simp add: bit_word_reverse_iff)
  then have "word_reverse w \<noteq> 0" by auto
  from trailing_zeros_bit [OF this] show ?thesis
    by (auto simp: leading_zeros_trailing bit_word_reverse_iff)
qed

lemma leading_zeros_above:
  fixes w :: "'a::len word"
  assumes "LENGTH('a) - 1 - leading_zeros w < j"
  shows "\<not> bit w j"
proof
  assume b: "bit w j"
  then have j: "j < LENGTH('a)" by (rule bit_lt_length)
  with assms have "LENGTH('a) - 1 - j < leading_zeros w" by simp
  from trailing_zeros_below [OF this [unfolded leading_zeros_trailing]] j b
  show False by (simp add: bit_word_reverse_iff)
qed

section \<open>A list of words as a set of bits\<close>

definition wbit :: "i64 list \<Rightarrow> nat \<Rightarrow> bool" where
  "wbit ws i \<longleftrightarrow> i div 64 < length ws \<and> bit (ws ! (i div 64)) (i mod 64)"

definition bits_of :: "i64 list \<Rightarrow> nat set" where
  "bits_of ws = {i. wbit ws i}"

lemma wbit_lt: "wbit ws i \<Longrightarrow> i < 64 * length ws"
  by (simp add: wbit_def) (metis div_less_iff_less_mult mult.commute zero_less_numeral)

lemma finite_bits_of [simp]: "finite (bits_of ws)"
  by (rule finite_subset [of _ "{..<64 * length ws}"]) (auto simp: bits_of_def dest: wbit_lt)

lemma wbit_update [wbit_simps]:
  "k < length ws \<Longrightarrow>
   wbit (ws[k := w]) i = (if i div 64 = k then bit w (i mod 64) else wbit ws i)"
  by (auto simp: wbit_def)

lemma wbit_at: "b < 64 \<Longrightarrow> wbit ws (64 * k + b) \<longleftrightarrow> k < length ws \<and> bit (ws ! k) b"
  by (simp add: wbit_def)

lemma wbit_replicate_0 [wbit_simps]: "\<not> wbit (replicate n 0) i"
  by (simp add: wbit_def)

lemma bits_of_replicate_0 [simp]: "bits_of (replicate n 0) = {}"
  by (simp add: bits_of_def wbit_simps)

text \<open>\<^verbatim>\<open>1_i64 << k\<close>; the simplifier reads \<open>push_bit k 1\<close> as \<open>2 ^ k\<close>.\<close>

lemma bit_single [wbit_simps]: "bit (2 ^ k :: i64) i \<longleftrightarrow> i = k \<and> k < 64"
  by (auto simp: bit_simps)

lemma and_single_zero [simp]:
  "k < 64 \<Longrightarrow> 2 ^ k AND w = 0 \<longleftrightarrow> \<not> bit w k"
  "k < 64 \<Longrightarrow> w AND 2 ^ k = 0 \<longleftrightarrow> \<not> bit w k" for w :: i64
  by (auto simp: word_zero_iff_bits [of "2 ^ k AND w"] word_zero_iff_bits [of "w AND 2 ^ k"]
      bit_and_iff wbit_simps)

subsection \<open>Cardinalities\<close>

lemma card_word_block:
  "k < length ws \<Longrightarrow> card {i. i div 64 = k \<and> wbit ws i} = count_ones (ws ! k)"
proof -
  assume k: "k < length ws"
  have "{i. i div 64 = k \<and> wbit ws i} = (\<lambda>b. 64 * k + b) ` {b. bit (ws ! k) b}" (is "?L = ?R")
  proof (intro set_eqI iffI)
    fix i assume "i \<in> ?L"
    then show "i \<in> ?R"
      by (intro image_eqI [of _ _ "i mod 64"]) (auto simp: wbit_def)
  next
    fix i assume "i \<in> ?R"
    then show "i \<in> ?L" using k by (auto simp: wbit_at bit_lt_64 dest: bit_lt_64)
  qed
  then show ?thesis by (simp add: card_image count_ones_card inj_on_def)
qed

lemma sum_count_ones:
  "n \<le> length ws \<Longrightarrow> (\<Sum>k<n. count_ones (ws ! k)) = card {i. i < 64 * n \<and> wbit ws i}"
proof (induction n)
  case 0
  then show ?case by simp
next
  case (Suc n)
  have split: "{i. i < 64 * Suc n \<and> wbit ws i}
      = {i. i < 64 * n \<and> wbit ws i} \<union> {i. i div 64 = n \<and> wbit ws i}"
    by auto
  have "finite {i. i < 64 * n \<and> wbit ws i}"
    by (rule finite_subset [OF _ finite_bits_of [of ws]]) (auto simp: bits_of_def)
  moreover have "finite {i. i div 64 = n \<and> wbit ws i}"
    by (rule finite_subset [OF _ finite_bits_of [of ws]]) (auto simp: bits_of_def)
  moreover have "{i. i < 64 * n \<and> wbit ws i} \<inter> {i. i div 64 = n \<and> wbit ws i} = {}"
    by auto
  ultimately show ?case
    unfolding split using Suc by (simp add: card_Un_disjoint card_word_block)
qed

section \<open>Masks of a bit range\<close>

text \<open>
  The masks of the first and the last word of a range \<open>start..<end\<close>, as every range
  operation of the bit sets computes them (\<^verbatim>\<open>start_mask\<close> and \<^verbatim>\<open>end_mask\<close> in the source).
\<close>

definition start_mask :: "nat \<Rightarrow> i64" where
  "start_mask start_index = push_bit (start_index mod 64) (- 1)"

definition wrapping_sub :: "nat \<Rightarrow> nat \<Rightarrow> nat" where
  "wrapping_sub a b = (a + (2 ^ 64 - b mod 2 ^ 64)) mod 2 ^ 64"

definition end_mask :: "nat \<Rightarrow> i64" where
  "end_mask end_index = (let shift = wrapping_sub 0 end_index mod 64 in drop_bit shift (- 1))"

lemma bit_start_mask [wbit_simps]: "bit (start_mask i) j \<longleftrightarrow> i mod 64 \<le> j \<and> j < 64"
  by (auto simp: start_mask_def bit_simps)

lemma neg_index_mod: "wrapping_sub 0 e mod 64 = (64 - e mod 64) mod 64"
proof -
  define r where "r = e mod 2 ^ 64"
  have r: "r < 2 ^ 64" "r mod 64 = e mod 64"
    by (simp_all add: r_def mod_mod_cancel)
  obtain q where q: "r = 64 * q + e mod 64"
    using r(2) by (metis mult_div_mod_eq)
  have m: "e mod 64 < 64" by simp
  with q r(1) have ql: "q < 2 ^ 58" by simp
  have "wrapping_sub 0 e mod 64 = (2 ^ 64 - r) mod 64"
    by (simp add: wrapping_sub_def r_def mod_mod_cancel)
  also have "2 ^ 64 - r = 64 * (2 ^ 58 - 1 - q) + (64 - e mod 64)"
    using q ql m by simp
  finally show ?thesis by (simp only: mod_mult_self4)
qed

lemma bit_end_mask [wbit_simps]: "0 < e \<Longrightarrow> bit (end_mask e) j \<longleftrightarrow> j \<le> (e - 1) mod 64"
proof -
  assume e: "0 < e"
  have "63 - (64 - e mod 64) mod 64 = (e - 1) mod 64"
  proof (cases "e mod 64 = 0")
    case True
    then obtain k where "e = 64 * k" by auto
    with e have "e - 1 = 64 * (k - 1) + 63" by (cases k) auto
    with True show ?thesis by simp
  next
    case False
    then have "(e - 1) mod 64 = e mod 64 - 1"
      using e by (metis Suc_diff_1 diff_Suc_1 mod_Suc)
    with False show ?thesis by simp
  qed
  moreover have "(64 - e mod 64) mod 64 < 64" by simp
  ultimately have "j < 64 - (64 - e mod 64) mod 64 \<longleftrightarrow> j \<le> (e - 1) mod 64" by linarith
  then show ?thesis
    unfolding end_mask_def Let_def neg_index_mod by (auto simp: bit_simps)
qed

lemma le_iff_words: "s \<le> i \<longleftrightarrow> s div 64 < i div 64 \<or> s div 64 = i div 64 \<and> s mod 64 \<le> i mod 64"
  for s i :: nat
proof -
  have "s = 64 * (s div 64) + s mod 64" "i = 64 * (i div 64) + i mod 64"
    "s mod 64 < 64" "i mod 64 < 64" by simp_all
  then show ?thesis by linarith
qed

lemma in_range_iff_words:
  fixes i :: nat
  assumes "s < e"
  shows "s \<le> i \<and> i < e \<longleftrightarrow>
    s div 64 \<le> i div 64 \<and> i div 64 \<le> (e - 1) div 64 \<and>
    (i div 64 = s div 64 \<longrightarrow> s mod 64 \<le> i mod 64) \<and>
    (i div 64 = (e - 1) div 64 \<longrightarrow> i mod 64 \<le> (e - 1) mod 64)"
proof -
  have "i < e \<longleftrightarrow> i \<le> e - 1" using assms by auto
  then show ?thesis
    unfolding le_iff_words [of s i] le_iff_words [of i "e - 1"] by auto
qed

lemma wbit_wmap [wbit_simps]:
  "wbit (wmap lo hi F ws) i =
     (if lo \<le> i div 64 \<and> i div 64 < hi
      then i div 64 < length ws \<and> bit (F (i div 64) (ws ! (i div 64))) (i mod 64)
      else wbit ws i)"
  by (auto simp: wbit_def nth_wmap)

section \<open>Updating a range of bits\<close>

text \<open>
  The control flow the range operations share (flip, set and clear of both bit sets): one
  rewriting of the word when the range lies in it, otherwise one of the first word, one of
  each word between and one of the last.
\<close>

definition range_update ::
    "nat \<Rightarrow> nat \<Rightarrow> (i64 \<Rightarrow> i64) \<Rightarrow> (i64 \<Rightarrow> i64) \<Rightarrow> (i64 \<Rightarrow> i64) \<Rightarrow> (i64 \<Rightarrow> i64) \<Rightarrow> i64 list \<Rightarrow> i64 list res"
  where
  "range_update start_index end_index one first between final ws =
     (let start_word = start_index div 64; end_word = (end_index - 1) div 64 in
      if start_word = end_word
      then rbind (idx ws start_word) (\<lambda>w. upd ws start_word (one w))
      else rbind (idx ws start_word) (\<lambda>w.
           rbind (upd ws start_word (first w)) (\<lambda>ws.
           rbind (for_each [start_word + 1..<end_word]
                    (\<lambda>i ws. rbind (idx ws i) (\<lambda>w. upd ws i (between w))) ws) (\<lambda>ws.
           rbind (idx ws end_word) (\<lambda>w. upd ws end_word (final w))))))"

text \<open>
  Membership in a range, read off the masks: a range inside one word, and a range that
  spans a first word, the words between and a last word.
\<close>

lemma range_one_word:
  assumes "s < e" "s div 64 = (e - 1) div 64"
  shows "i \<in> {s..<e} \<longleftrightarrow> i div 64 = s div 64 \<and> bit (start_mask s AND end_mask e) (i mod 64)"
  unfolding atLeastLessThan_iff in_range_iff_words [OF assms(1)] bit_and_iff
  using assms by (auto simp: bit_start_mask bit_end_mask)

lemma range_many_words:
  assumes "s < e" "s div 64 \<noteq> (e - 1) div 64"
  shows "i \<in> {s..<e} \<longleftrightarrow>
    (if i div 64 = (e - 1) div 64 then bit (end_mask e) (i mod 64)
     else if i div 64 = s div 64 then bit (start_mask s) (i mod 64)
     else s div 64 + 1 \<le> i div 64 \<and> i div 64 < (e - 1) div 64)"
proof -
  have "s div 64 \<le> (e - 1) div 64" using assms(1) by (intro div_le_mono) auto
  then show ?thesis
    unfolding atLeastLessThan_iff in_range_iff_words [OF assms(1)]
    using assms by (auto simp: bit_start_mask bit_end_mask)
qed

lemma wbit_one_word:
  assumes "s < e" "s div 64 = (e - 1) div 64" "s div 64 < length ws"
    and g: "\<And>b. b < 64 \<Longrightarrow> bit w b = (if bit (start_mask s AND end_mask e) b
      then g (bit (ws ! (s div 64)) b) else bit (ws ! (s div 64)) b)"
  shows "wbit (ws[s div 64 := w]) i = (if i \<in> {s..<e} then g (wbit ws i) else wbit ws i)"
  unfolding range_one_word [OF assms(1,2)] wbit_update [OF assms(3)]
  using assms(3) g [of "i mod 64"] by (auto simp: wbit_def)

lemma wbit_many_words:
  assumes se: "s < e" "s div 64 \<noteq> (e - 1) div 64" and len: "(e - 1) div 64 < length ws"
    and u: "\<And>b. b < 64 \<Longrightarrow> bit u b = (if bit (start_mask s) b
      then g (bit (ws ! (s div 64)) b) else bit (ws ! (s div 64)) b)"
    and v: "\<And>b. b < 64 \<Longrightarrow> bit v b = (if bit (end_mask e) b
      then g (bit (ws ! ((e - 1) div 64)) b) else bit (ws ! ((e - 1) div 64)) b)"
    and F: "\<And>k w b. b < 64 \<Longrightarrow> bit (F k w) b = g (bit w b)"
  shows "wbit ((wmap (s div 64 + 1) ((e - 1) div 64) F (ws[s div 64 := u]))[(e - 1) div 64 := v]) i
    = (if i \<in> {s..<e} then g (wbit ws i) else wbit ws i)"
proof -
  let ?a = "s div 64" and ?c = "(e - 1) div 64"
  have "?a \<le> ?c" using se by (intro div_le_mono) auto
  with se have ac: "?a < ?c" "?a < length ws" using len by auto
  have at: "wbit ws i = bit (ws ! (i div 64)) (i mod 64)" if "i div 64 < length ws"
    using that by (simp add: wbit_def)
  consider "i div 64 = ?c" | "i div 64 \<noteq> ?c" "i div 64 = ?a"
    | "i div 64 \<noteq> ?c" "i div 64 \<noteq> ?a" by blast
  then show ?thesis
  proof cases
    case 1
    then show ?thesis
      unfolding range_many_words [OF se] using len v [of "i mod 64"] by (simp add: wbit_update at)
  next
    case 2
    then show ?thesis
      unfolding range_many_words [OF se] using ac len u [of "i mod 64"] at
      by (simp add: wbit_update wbit_wmap)
  next
    case 3
    then show ?thesis
      unfolding range_many_words [OF se] using ac len F at
      by (simp add: wbit_update wbit_wmap)
  qed
qed

text \<open>
  The rule for the range operations: where each of the four rewritings applies \<open>g\<close> to the
  bits its mask selects and keeps the others, the update applies \<open>g\<close> to the bits of the
  range.
\<close>

lemma range_update_ok:
  assumes se: "s < e" and len: "(e - 1) div 64 < length ws"
    and one: "\<And>w b. b < 64 \<Longrightarrow> bit (one w) b =
      (if bit (start_mask s AND end_mask e) b then g (bit w b) else bit w b)"
    and first: "\<And>w b. b < 64 \<Longrightarrow> bit (first w) b = (if bit (start_mask s) b then g (bit w b) else bit w b)"
    and final: "\<And>w b. b < 64 \<Longrightarrow> bit (final w) b = (if bit (end_mask e) b then g (bit w b) else bit w b)"
    and between: "\<And>w b. b < 64 \<Longrightarrow> bit (between w) b = g (bit w b)"
  shows "\<exists>ws'. range_update s e one first between final ws = Inr ws' \<and> length ws' = length ws \<and>
    (\<forall>i. wbit ws' i = (if i \<in> {s..<e} then g (wbit ws i) else wbit ws i))"
proof -
  let ?a = "s div 64" and ?c = "(e - 1) div 64"
  have ac: "?a \<le> ?c" using se by (intro div_le_mono) auto
  show ?thesis
  proof (cases "?a = ?c")
    case True
    then have "range_update s e one first between final ws = Inr (ws[?a := one (ws ! ?a)])"
      using len by (simp add: range_update_def Let_def)
    moreover have "\<forall>i. wbit (ws[?a := one (ws ! ?a)]) i
        = (if i \<in> {s..<e} then g (wbit ws i) else wbit ws i)"
      by (intro allI wbit_one_word) (use se True len one in simp_all)
    ultimately show ?thesis by simp
  next
    case False
    with ac have lt: "?a < ?c" by simp
    let ?w1 = "ws[?a := first (ws ! ?a)]"
    let ?w2 = "(wmap (?a + 1) ?c (\<lambda>_. between) ?w1)[?c := final (ws ! ?c)]"
    have "for_each [?a + 1..<?c] (\<lambda>i ws. rbind (idx ws i) (\<lambda>w. upd ws i (between w))) ?w1
        = Inr (wmap (?a + 1) ?c (\<lambda>_. between) ?w1)"
      using for_each_wmap_up [where off = 0 and lo = "?a + 1" and hi = ?c and F = "\<lambda>_. between"] lt len
      by simp
    then have "range_update s e one first between final ws = Inr ?w2"
      using len lt by (simp add: range_update_def Let_def nth_wmap)
    moreover have "\<forall>i. wbit ?w2 i = (if i \<in> {s..<e} then g (wbit ws i) else wbit ws i)"
      by (intro allI wbit_many_words) (use se False len first final between in simp_all)
    ultimately show ?thesis by simp
  qed
qed

section \<open>Shifts\<close>

text \<open>
  \<^verbatim>\<open>x << n\<close> and \<^verbatim>\<open>x >> n\<close> panic when \<open>n\<close> is not less than the width; \<^verbatim>\<open>wrapping_shl\<close> and
  \<^verbatim>\<open>wrapping_shr\<close> take it modulo the width.
\<close>

definition shl :: "'a::len word \<Rightarrow> int \<Rightarrow> 'a word res" where
  "shl x n = (if 0 \<le> n \<and> n < int LENGTH('a) then Inr (push_bit (nat n) x) else Inl Panic)"

definition shr :: "'a::len word \<Rightarrow> int \<Rightarrow> 'a word res" where
  "shr x n = (if 0 \<le> n \<and> n < int LENGTH('a) then Inr (drop_bit (nat n) x) else Inl Panic)"

definition wrapping_shl :: "'a::len word \<Rightarrow> int \<Rightarrow> 'a word" where
  "wrapping_shl x n = push_bit (nat (n mod int LENGTH('a))) x"

definition wrapping_shr :: "'a::len word \<Rightarrow> int \<Rightarrow> 'a word" where
  "wrapping_shr x n = drop_bit (nat (n mod int LENGTH('a))) x"

lemma wrapping_shl_int: "k < LENGTH('a) \<Longrightarrow> wrapping_shl (x :: 'a::len word) (int k) = push_bit k x"
  by (simp add: wrapping_shl_def)

lemma wrapping_shr_int: "k < LENGTH('a) \<Longrightarrow> wrapping_shr (x :: 'a::len word) (int k) = drop_bit k x"
  by (simp add: wrapping_shr_def)

lemma wrapping_shl_0: "wrapping_shl 0 n = 0"
  by (simp add: wrapping_shl_def)

lemma unat_drop_bit_less:
  assumes "i \<noteq> 0" "0 < n"
  shows "unat (drop_bit n i) < unat i"
proof -
  have "unat (drop_bit n i) = unat i div 2 ^ n" unfolding unat_drop_bit_eq by (simp add: drop_bit_eq_div)
  also have "\<dots> < unat i" using assms one_less_power [of "2 :: nat" n] by (intro div_less_dividend) (simp_all add: unat_gt_0)
  finally show ?thesis .
qed

end
