(* ===== verification/Array_Util.thy ===== *)
theory Array_Util
  imports Rl_Prelude
begin

text \<open>
  The growth policy of \<^verbatim>\<open>core/util/array_util.rs\<close>: \<^verbatim>\<open>oversize\<close>, \<^verbatim>\<open>grow_capacity\<close>,
  \<^verbatim>\<open>grow_exact\<close> and \<^verbatim>\<open>grow_with\<close>. A \<^verbatim>\<open>Vec\<close> is the list of its initialised elements; its
  spare capacity is not observable and not modelled. The initialiser closure is the
  constant it returns in every caller modelled here.
\<close>

definition MAX_ARRAY_LENGTH :: nat where
  "MAX_ARRAY_LENGTH = 2 ^ 31 - 1"

definition isize_MAX :: nat where
  "isize_MAX = 2 ^ 63 - 1"

definition usize_MAX :: nat where
  "usize_MAX = 2 ^ 64 - 1"

definition oversize :: "nat \<Rightarrow> nat \<Rightarrow> nat res" where
  "oversize min_target_size bytes_per_element =
     (if min_target_size = 0 then Inr 0
      else
        let max_array_length =
              (if bytes_per_element = 0 then MAX_ARRAY_LENGTH
               else min MAX_ARRAY_LENGTH (isize_MAX div bytes_per_element))
        in if max_array_length < min_target_size then Inl IllegalArgument
           else
             let extra0 = min_target_size div 8;
                 extra = (if extra0 < 3 then 3 else extra0);
                 sum = (if min_target_size + extra \<le> usize_MAX then min_target_size + extra
                        else max_array_length)
             in Inr (min sum max_array_length))"

definition grow_capacity :: "nat \<Rightarrow> 'a list \<Rightarrow> nat \<Rightarrow> 'a list res" where
  "grow_capacity size_of_T vec min_size = rbind (oversize min_size size_of_T) (\<lambda>_. Inr vec)"

definition grow_exact :: "'a list \<Rightarrow> nat \<Rightarrow> 'a \<Rightarrow> 'a list res" where
  "grow_exact vec new_length init =
     (if length vec < new_length then Inr (vec @ replicate (new_length - length vec) init)
      else if new_length = length vec then Inr vec
      else Inl ArrayIndexOutOfBounds)"

definition grow_with :: "nat \<Rightarrow> 'a list \<Rightarrow> nat \<Rightarrow> 'a \<Rightarrow> 'a list res" where
  "grow_with size_of_T vec min_size init =
     (if length vec < min_size
      then rbind (grow_capacity size_of_T vec min_size)
             (\<lambda>vec. Inr (vec @ replicate (min_size - length vec) init))
      else Inr vec)"

lemma oversize_bounds:
  assumes "oversize n bpe = Inr m"
  shows "n \<le> m \<and> m \<le> MAX_ARRAY_LENGTH"
  using assms
  by (auto simp: oversize_def Let_def min_def MAX_ARRAY_LENGTH_def split: if_splits)

lemma oversize_ok:
  "n \<le> MAX_ARRAY_LENGTH \<Longrightarrow> bpe \<le> 2 ^ 32 \<Longrightarrow> \<exists>m. oversize n bpe = Inr m"
proof -
  assume n: "n \<le> MAX_ARRAY_LENGTH" and b: "bpe \<le> 2 ^ 32"
  have "n \<le> isize_MAX div bpe" if "bpe \<noteq> 0"
  proof -
    have "isize_MAX div (2 ^ 32) \<le> isize_MAX div bpe"
      using b that by (intro div_le_mono2) auto
    moreover have "MAX_ARRAY_LENGTH \<le> isize_MAX div (2 ^ 32)"
      by (simp add: isize_MAX_def MAX_ARRAY_LENGTH_def)
    ultimately show ?thesis using n by simp
  qed
  with n show ?thesis by (auto simp: oversize_def Let_def)
qed

lemma grow_with_ok:
  assumes "n \<le> MAX_ARRAY_LENGTH" "bpe \<le> 2 ^ 32"
  shows "grow_with bpe vec n v = Inr (vec @ replicate (n - length vec) v)"
  using oversize_ok [OF assms] by (auto simp: grow_with_def grow_capacity_def)

lemma grow_with_Inr:
  "grow_with bpe vec n v = Inr ys \<Longrightarrow> ys = vec @ replicate (n - length vec) v"
  by (auto simp: grow_with_def grow_capacity_def res_simps split: if_splits)

end
