(* ===== verification/Fixed_Bit_Set.thy ===== *)
theory Fixed_Bit_Set
  imports Word_Bits Array_Util
begin

text \<open>
  \<^verbatim>\<open>FixedBitSet\<close> of \<^verbatim>\<open>core/util/fixed_bit_set.rs\<close>: a bit set over a vector of 64-bit words.
  The record has the fields of the struct but for its identity token, which no operation
  reads. The operations follow the source word by word, early exits and chunked scans
  included; a \<^verbatim>\<open>debug_assert!\<close> is \<^const>\<open>dassert\<close> and an index into the vector panics out
  of range. The specification is the set of the positions whose bit is on
  (\<open>fbs_set\<close>), under the invariant \<open>fbs_inv\<close> of the constructor
  \<^verbatim>\<open>from_validated_parts\<close>: the number of words fits the number of bits, the vector holds
  them, and the ghost bits past \<^verbatim>\<open>num_bits\<close> are clear.
\<close>

section \<open>The structure and its constructors\<close>

record fixed_bit_set =
  fbs_bits :: "i64 list"
  fbs_num_bits :: nat
  fbs_num_words :: nat

definition bits2words :: "nat \<Rightarrow> nat" where
  "bits2words num_bits = (num_bits + 63) div 64"

definition fbs_verify_ghost_bits_clear :: "fixed_bit_set \<Rightarrow> bool res" where
  "fbs_verify_ghost_bits_clear s =
     (if \<not> list_all (\<lambda>i. fbs_bits s ! i = 0) [fbs_num_words s..<length (fbs_bits s)] then Inr False
      else if fbs_num_bits s mod 64 = 0 then Inr True
      else
        let mask = push_bit (fbs_num_bits s mod 64) (- 1) in
        rbind (usub (fbs_num_words s) 1) (\<lambda>k.
        rbind (idx (fbs_bits s) k) (\<lambda>w. Inr (w AND mask = 0))))"

definition fbs_from_validated_parts :: "i64 list \<Rightarrow> nat \<Rightarrow> nat \<Rightarrow> fixed_bit_set res" where
  "fbs_from_validated_parts bits num_bits num_words =
     dassert (num_words = bits2words num_bits) (
     dassert (num_words \<le> length bits) (
       let bit_set = \<lparr>fbs_bits = bits, fbs_num_bits = num_bits, fbs_num_words = num_words\<rparr> in
       rbind (fbs_verify_ghost_bits_clear bit_set) (\<lambda>ok. dassert ok (Inr bit_set))))"

definition fbs_new :: "nat \<Rightarrow> fixed_bit_set res" where
  "fbs_new num_bits =
     (let size = bits2words num_bits;
          bits = replicate size 0;
          exact_size = length bits
      in fbs_from_validated_parts bits num_bits exact_size)"

definition fbs_with_capacity :: "i64 list \<Rightarrow> nat \<Rightarrow> fixed_bit_set res" where
  "fbs_with_capacity stored_bits num_bits =
     (let num_words = bits2words num_bits in
      if length stored_bits < num_words then Inl IllegalArgument
      else fbs_from_validated_parts stored_bits num_bits num_words)"

definition fbs_clone :: "fixed_bit_set \<Rightarrow> fixed_bit_set res" where
  "fbs_clone s = fbs_from_validated_parts (fbs_bits s) (fbs_num_bits s) (fbs_num_words s)"

definition fbs_eq :: "fixed_bit_set \<Rightarrow> fixed_bit_set \<Rightarrow> bool" where
  "fbs_eq a b \<longleftrightarrow> fbs_num_bits a = fbs_num_bits b \<and> fbs_num_words a = fbs_num_words b
     \<and> fbs_bits a = fbs_bits b"

section \<open>Single bits\<close>

definition fbs_length :: "fixed_bit_set \<Rightarrow> nat" where
  "fbs_length s = fbs_num_bits s"

definition fbs_get :: "fixed_bit_set \<Rightarrow> nat \<Rightarrow> bool res" where
  "fbs_get s index =
     dassert (index < fbs_num_bits s) (
       let i = index div 64; bit_mask = push_bit (index mod 64) 1 in
       rbind (idx (fbs_bits s) i) (\<lambda>w. Inr (bit_mask AND w \<noteq> 0)))"

definition fbs_set_bit :: "fixed_bit_set \<Rightarrow> nat \<Rightarrow> fixed_bit_set res" where
  "fbs_set_bit s i =
     dassert (i < fbs_num_bits s) (
       let word_num = i div 64; bit_mask = push_bit (i mod 64) 1 in
       rbind (idx (fbs_bits s) word_num) (\<lambda>w.
       rbind (upd (fbs_bits s) word_num (w OR bit_mask)) (\<lambda>ws.
       Inr (s\<lparr>fbs_bits := ws\<rparr>))))"

definition fbs_get_and_set :: "fixed_bit_set \<Rightarrow> nat \<Rightarrow> (bool \<times> fixed_bit_set) res" where
  "fbs_get_and_set s i =
     dassert (i < fbs_num_bits s) (
       let word_num = i div 64; bit_mask = push_bit (i mod 64) 1 in
       rbind (idx (fbs_bits s) word_num) (\<lambda>word.
         let val = (word AND bit_mask \<noteq> 0) in
         if \<not> val
         then rbind (upd (fbs_bits s) word_num (word OR bit_mask)) (\<lambda>ws.
                Inr (val, s\<lparr>fbs_bits := ws\<rparr>))
         else Inr (val, s)))"

definition fbs_clear_with_index :: "fixed_bit_set \<Rightarrow> nat \<Rightarrow> fixed_bit_set res" where
  "fbs_clear_with_index s i =
     dassert (i < fbs_num_bits s) (
       let word_num = i div 64; bit_mask = push_bit (i mod 64) 1 in
       rbind (idx (fbs_bits s) word_num) (\<lambda>w.
       rbind (upd (fbs_bits s) word_num (w AND NOT bit_mask)) (\<lambda>ws.
       Inr (s\<lparr>fbs_bits := ws\<rparr>))))"

definition fbs_get_and_clear :: "fixed_bit_set \<Rightarrow> nat \<Rightarrow> (bool \<times> fixed_bit_set) res" where
  "fbs_get_and_clear s index =
     dassert (index < fbs_num_bits s) (
       let word_num = index div 64; bit_mask = push_bit (index mod 64) 1 in
       rbind (idx (fbs_bits s) word_num) (\<lambda>w.
         let val = (w AND bit_mask \<noteq> 0) in
         rbind (upd (fbs_bits s) word_num (w AND NOT bit_mask)) (\<lambda>ws.
         Inr (val, s\<lparr>fbs_bits := ws\<rparr>))))"

definition fbs_flip :: "fixed_bit_set \<Rightarrow> nat \<Rightarrow> fixed_bit_set res" where
  "fbs_flip s index =
     dassert (index < fbs_num_bits s) (
       let word_num = index div 64; bit_mask = push_bit (index mod 64) 1 in
       rbind (idx (fbs_bits s) word_num) (\<lambda>w.
       rbind (upd (fbs_bits s) word_num (w XOR bit_mask)) (\<lambda>ws.
       Inr (s\<lparr>fbs_bits := ws\<rparr>))))"

definition fbs_clear :: "fixed_bit_set \<Rightarrow> fixed_bit_set res" where
  "fbs_clear s = Inr (s\<lparr>fbs_bits := replicate (length (fbs_bits s)) 0\<rparr>)"

section \<open>Ranges\<close>

definition fbs_flip_range :: "fixed_bit_set \<Rightarrow> nat \<Rightarrow> nat \<Rightarrow> fixed_bit_set res" where
  "fbs_flip_range s start_index end_index =
     dassert (start_index < fbs_num_bits s) (
     dassert (end_index \<le> fbs_num_bits s) (
       if end_index \<le> start_index then Inr s
       else
         let sm = start_mask start_index;
             em = end_mask end_index
         in rbind (range_update start_index end_index
                     (\<lambda>w. w XOR (sm AND em)) (\<lambda>w. w XOR sm) (\<lambda>w. NOT w) (\<lambda>w. w XOR em) (fbs_bits s)) (\<lambda>ws.
            Inr (s\<lparr>fbs_bits := ws\<rparr>))))"

definition fbs_set_with_range :: "fixed_bit_set \<Rightarrow> nat \<Rightarrow> nat \<Rightarrow> fixed_bit_set res" where
  "fbs_set_with_range s start_index end_index =
     dassert (start_index < fbs_num_bits s) (
     dassert (end_index \<le> fbs_num_bits s) (
       if end_index \<le> start_index then Inr s
       else
         let sm = start_mask start_index;
             em = end_mask end_index
         in rbind (range_update start_index end_index
                     (\<lambda>w. w OR (sm AND em)) (\<lambda>w. w OR sm) (\<lambda>_. - 1) (\<lambda>w. w OR em) (fbs_bits s)) (\<lambda>ws.
            Inr (s\<lparr>fbs_bits := ws\<rparr>))))"

definition fbs_clear_range :: "fixed_bit_set \<Rightarrow> nat \<Rightarrow> nat \<Rightarrow> fixed_bit_set res" where
  "fbs_clear_range s start_index end_index =
     dassert (start_index < fbs_num_bits s) (
     dassert (end_index \<le> fbs_num_bits s) (
       if end_index \<le> start_index then Inr s
       else
         let sm = NOT (start_mask start_index);
             em = NOT (end_mask end_index)
         in rbind (range_update start_index end_index
                     (\<lambda>w. w AND (sm OR em)) (\<lambda>w. w AND sm) (\<lambda>_. 0) (\<lambda>w. w AND em) (fbs_bits s)) (\<lambda>ws.
            Inr (s\<lparr>fbs_bits := ws\<rparr>))))"

section \<open>Binary operations\<close>

text \<open>
  The operations of two sets run over words. \<open>zip_words f off n xs ys\<close> is the loop over
  two slices zipped together, \<open>for_words\<close> the loop by index, which panics at the first
  index out of range.
\<close>

definition zip_words :: "(i64 \<Rightarrow> i64 \<Rightarrow> i64) \<Rightarrow> nat \<Rightarrow> nat \<Rightarrow> i64 list \<Rightarrow> i64 list \<Rightarrow> i64 list" where
  "zip_words f off n xs ys =
     take off xs @ map2 f (take n (drop off xs)) (take n ys) @ drop (off + n) xs"

definition for_words ::
    "(i64 \<Rightarrow> i64 \<Rightarrow> i64) \<Rightarrow> nat \<Rightarrow> nat \<Rightarrow> i64 list \<Rightarrow> i64 list \<Rightarrow> i64 list res" where
  "for_words f off n xs ys =
     for_each (rev [0..<n])
       (\<lambda>i ws. rbind (idx ws (i + off)) (\<lambda>w. rbind (idx ys i) (\<lambda>v. upd ws (i + off) (f w v)))) xs"

definition fbs_or_impl :: "fixed_bit_set \<Rightarrow> nat \<Rightarrow> i64 list \<Rightarrow> nat \<Rightarrow> fixed_bit_set res" where
  "fbs_or_impl s other_offset_words other_arr other_num_words =
     dassert (other_num_words + other_offset_words \<le> fbs_num_words s) (
     rbind (usub (fbs_num_words s) other_offset_words) (\<lambda>room.
       let pos = min room other_num_words; offset = other_offset_words in
       if pos = 0 then Inr s
       else if offset + pos \<le> length (fbs_bits s) \<and> pos \<le> length other_arr
       then Inr (s\<lparr>fbs_bits := zip_words (OR) offset pos (fbs_bits s) other_arr\<rparr>)
       else rbind (for_words (OR) offset pos (fbs_bits s) other_arr) (\<lambda>ws.
            Inr (s\<lparr>fbs_bits := ws\<rparr>))))"

definition fbs_or :: "fixed_bit_set \<Rightarrow> fixed_bit_set \<Rightarrow> fixed_bit_set res" where
  "fbs_or s other = fbs_or_impl s 0 (fbs_bits other) (fbs_num_words other)"

definition fbs_or_offset :: "fixed_bit_set \<Rightarrow> nat \<Rightarrow> fixed_bit_set \<Rightarrow> fixed_bit_set res" where
  "fbs_or_offset s other_offset_words other =
     fbs_or_impl s other_offset_words (fbs_bits other) (fbs_num_words other)"

definition fbs_xor_impl :: "fixed_bit_set \<Rightarrow> i64 list \<Rightarrow> nat \<Rightarrow> fixed_bit_set res" where
  "fbs_xor_impl s other_bits other_num_words =
     dassert (other_num_words \<le> fbs_num_words s) (
       let pos = min (fbs_num_words s) other_num_words in
       rbind (for_words (XOR) 0 pos (fbs_bits s) other_bits) (\<lambda>ws.
       Inr (s\<lparr>fbs_bits := ws\<rparr>)))"

definition fbs_xor :: "fixed_bit_set \<Rightarrow> fixed_bit_set \<Rightarrow> fixed_bit_set res" where
  "fbs_xor s other = fbs_xor_impl s (fbs_bits other) (fbs_num_words other)"

definition fbs_and_self :: "fixed_bit_set \<Rightarrow> i64 list \<Rightarrow> nat \<Rightarrow> fixed_bit_set res" where
  "fbs_and_self s other_arr other_num_words =
     (let pos = min (fbs_num_words s) other_num_words in
      rbind (for_words (AND) 0 pos (fbs_bits s) other_arr) (\<lambda>ws.
      rbind (if other_num_words < fbs_num_words s
             then for_each [other_num_words..<fbs_num_words s] (\<lambda>i ws. upd ws i 0) ws
             else Inr ws) (\<lambda>ws.
      Inr (s\<lparr>fbs_bits := ws\<rparr>))))"

definition fbs_and :: "fixed_bit_set \<Rightarrow> fixed_bit_set \<Rightarrow> fixed_bit_set res" where
  "fbs_and s other = fbs_and_self s (fbs_bits other) (fbs_num_words other)"

definition fbs_and_not_impl :: "fixed_bit_set \<Rightarrow> nat \<Rightarrow> i64 list \<Rightarrow> nat \<Rightarrow> fixed_bit_set res" where
  "fbs_and_not_impl s other_offset_words other_arr other_num_words =
     (let pos = min (fbs_num_words s - other_offset_words) other_num_words;
          offset = other_offset_words
      in if pos = 0 then Inr s
         else if offset + pos \<le> length (fbs_bits s) \<and> pos \<le> length other_arr
         then Inr (s\<lparr>fbs_bits :=
                zip_words (\<lambda>d s. d AND NOT s) offset pos (fbs_bits s) other_arr\<rparr>)
         else rbind (for_words (\<lambda>d s. d AND NOT s) offset pos (fbs_bits s) other_arr) (\<lambda>ws.
              Inr (s\<lparr>fbs_bits := ws\<rparr>)))"

definition fbs_and_not_fixed_bit_set :: "fixed_bit_set \<Rightarrow> fixed_bit_set \<Rightarrow> fixed_bit_set res" where
  "fbs_and_not_fixed_bit_set s other = fbs_and_not_impl s 0 (fbs_bits other) (fbs_num_words other)"

definition fbs_and_not_offset :: "fixed_bit_set \<Rightarrow> nat \<Rightarrow> fixed_bit_set \<Rightarrow> fixed_bit_set res" where
  "fbs_and_not_offset s other_offset_words other =
     fbs_and_not_impl s other_offset_words (fbs_bits other) (fbs_num_words other)"

text \<open>
  \<^verbatim>\<open>intersects\<close> probes the last common word, then scans the rest from the end, four words
  at a time; the lists are reversed here so that the scan is a recursion.
\<close>

fun scan_any :: "i64 list \<Rightarrow> i64 list \<Rightarrow> bool" where
  "scan_any (x # xs) (y # ys) = (if x AND y \<noteq> 0 then True else scan_any xs ys)"
| "scan_any _ _ = False"

fun scan_chunks :: "i64 list \<Rightarrow> i64 list \<Rightarrow> bool" where
  "scan_chunks (x3 # x2 # x1 # x0 # xs) (y3 # y2 # y1 # y0 # ys) =
     (if (x3 AND y3) OR (x2 AND y2) OR (x1 AND y1) OR (x0 AND y0) \<noteq> 0 then True
      else scan_chunks xs ys)"
| "scan_chunks xs ys = scan_any xs ys"

definition scan_rest :: "i64 list \<Rightarrow> i64 list \<Rightarrow> bool" where
  "scan_rest a b =
     (if length a < 2 then scan_any (rev a) (rev b) else scan_chunks (rev a) (rev b))"

definition fbs_intersects :: "fixed_bit_set \<Rightarrow> fixed_bit_set \<Rightarrow> bool res" where
  "fbs_intersects s other =
     (let pos = min (fbs_num_words s) (fbs_num_words other) in
      if pos = 0 then Inr False
      else
        let last = pos - 1 in
        rbind (idx (fbs_bits s) last) (\<lambda>x.
        rbind (idx (fbs_bits other) last) (\<lambda>y.
          if x AND y \<noteq> 0 then Inr True
          else Inr (scan_rest (take last (fbs_bits s)) (take last (fbs_bits other))))))"

section \<open>Counting\<close>

definition fbs_intersection_count :: "fixed_bit_set \<Rightarrow> fixed_bit_set \<Rightarrow> nat res" where
  "fbs_intersection_count a b =
     (let num_common_words = min (fbs_num_words a) (fbs_num_words b) in
      for_each [0..<num_common_words]
        (\<lambda>i tot. rbind (idx (fbs_bits a) i) (\<lambda>x. rbind (idx (fbs_bits b) i) (\<lambda>y.
           u32_add tot (count_ones (x AND y))))) 0)"

definition fbs_union_count :: "fixed_bit_set \<Rightarrow> fixed_bit_set \<Rightarrow> nat res" where
  "fbs_union_count a b =
     (let num_common_words = min (fbs_num_words a) (fbs_num_words b) in
      rbind (for_each [0..<num_common_words]
        (\<lambda>i tot. rbind (idx (fbs_bits a) i) (\<lambda>x. rbind (idx (fbs_bits b) i) (\<lambda>y.
           u32_add tot (count_ones (x OR y))))) 0) (\<lambda>tot.
      rbind (for_each [num_common_words..<fbs_num_words a]
        (\<lambda>i tot. rbind (idx (fbs_bits a) i) (\<lambda>x. u32_add tot (count_ones x))) tot) (\<lambda>tot.
      for_each [num_common_words..<fbs_num_words b]
        (\<lambda>i tot. rbind (idx (fbs_bits b) i) (\<lambda>x. u32_add tot (count_ones x))) tot)))"

definition fbs_and_not_count :: "fixed_bit_set \<Rightarrow> fixed_bit_set \<Rightarrow> nat res" where
  "fbs_and_not_count a b =
     (let num_common_words = min (fbs_num_words a) (fbs_num_words b) in
      rbind (for_each [0..<num_common_words]
        (\<lambda>i tot. rbind (idx (fbs_bits a) i) (\<lambda>x. rbind (idx (fbs_bits b) i) (\<lambda>y.
           u32_add tot (count_ones (x AND NOT y))))) 0) (\<lambda>tot.
      for_each [num_common_words..<fbs_num_words a]
        (\<lambda>i tot. rbind (idx (fbs_bits a) i) (\<lambda>x. u32_add tot (count_ones x))) tot))"

definition fbs_cardinality :: "fixed_bit_set \<Rightarrow> nat res" where
  "fbs_cardinality s =
     for_each [0..<fbs_num_words s]
       (\<lambda>i tot. rbind (idx (fbs_bits s) i) (\<lambda>w. Inr (tot + count_ones w))) 0"

function approx_loop :: "i64 list \<Rightarrow> nat \<Rightarrow> nat \<Rightarrow> nat \<Rightarrow> (nat \<times> nat) res" where
  "approx_loop bits num max_word pop_count =
     (if max_word + 1024 < num
      then rbind (for_each [0..<16]
             (\<lambda>i pc. rbind (idx bits (max_word + i)) (\<lambda>w. Inr (pc + count_ones w))) pop_count)
             (approx_loop bits num (max_word + 1024))
      else Inr (max_word, pop_count))"
  by pat_completeness auto
termination
  by (relation "measure (\<lambda>(bits, num, max_word, pc). num - max_word)") auto

definition fbs_approximate_cardinality :: "fixed_bit_set \<Rightarrow> nat res" where
  "fbs_approximate_cardinality s =
     (let range_length = 16; interval = 1024 in
      if fbs_num_words s \<le> interval then fbs_cardinality s
      else rbind (approx_loop (fbs_bits s) (fbs_num_words s) 0 0) (\<lambda>(max_word, pop_count).
             Inr (pop_count * ((interval div range_length) * fbs_num_words s div max_word))))"

section \<open>Searching\<close>

fun nsb_scan :: "nat \<Rightarrow> i64 list \<Rightarrow> nat option" where
  "nsb_scan i [] = None"
| "nsb_scan i (word # ws) =
     (if word \<noteq> 0 then Some (i * 64 + trailing_zeros word) else nsb_scan (i + 1) ws)"

fun nsb_groups :: "nat \<Rightarrow> i64 list \<Rightarrow> nat option \<times> nat" where
  "nsb_groups i ws =
     (if ws = [] then (None, i)
      else
        let group = take 16 ws in
        if length group < 16 \<or> fold (OR) group 0 \<noteq> 0
        then (case nsb_scan i group of
                Some r \<Rightarrow> (Some r, i)
              | None \<Rightarrow> nsb_groups (i + length group) (drop 16 ws))
        else nsb_groups (i + length group) (drop 16 ws))"

function nsb_while :: "i64 list \<Rightarrow> nat \<Rightarrow> nat \<Rightarrow> nat res" where
  "nsb_while bits i limit =
     (if i < limit
      then rbind (idx bits i) (\<lambda>word.
             if word \<noteq> 0 then Inr (i * 64 + trailing_zeros word)
             else nsb_while bits (i + 1) limit)
      else Inr NO_MORE_DOCS)"
  by pat_completeness auto
termination
  by (relation "measure (\<lambda>(bits, i, limit). limit - i)") auto

definition nsb_rest :: "i64 list \<Rightarrow> nat \<Rightarrow> nat \<Rightarrow> nat res" where
  "nsb_rest bits i limit =
     (let scan_limit = min limit (length bits);
          lo = min i scan_limit
      in case nsb_groups i (take (scan_limit - lo) (drop lo bits)) of
           (Some r, _) \<Rightarrow> Inr r
         | (None, i) \<Rightarrow> nsb_while bits i limit)"

definition fbs_next_set_bit_impl :: "fixed_bit_set \<Rightarrow> nat \<Rightarrow> nat \<Rightarrow> nat res" where
  "fbs_next_set_bit_impl s start upper_bound =
     dassert (start < fbs_num_bits s) (
     dassert (start < upper_bound) (
     dassert (upper_bound \<le> fbs_num_bits s) (
       let i = start div 64 in
       rbind (idx (fbs_bits s) i) (\<lambda>w.
         let word = signed_drop_bit (start mod 64) w in
         if word \<noteq> 0 then Inr (start + trailing_zeros word)
         else
           let limit = (if upper_bound = fbs_num_bits s then fbs_num_words s
                        else bits2words upper_bound);
               i = i + 1
           in if i < limit
              then rbind (idx (fbs_bits s) i) (\<lambda>word.
                     if word \<noteq> 0 then Inr (i * 64 + trailing_zeros word)
                     else nsb_rest (fbs_bits s) (i + 1) limit)
              else nsb_rest (fbs_bits s) i limit))))"

definition fbs_next_set_bit_range :: "fixed_bit_set \<Rightarrow> nat \<Rightarrow> nat \<Rightarrow> nat res" where
  "fbs_next_set_bit_range s start end_index =
     rbind (fbs_next_set_bit_impl s start end_index) (\<lambda>res.
       Inr (if res < end_index then res else NO_MORE_DOCS))"

definition fbs_next_set_bit :: "fixed_bit_set \<Rightarrow> nat \<Rightarrow> nat res" where
  "fbs_next_set_bit s index = fbs_next_set_bit_range s index (fbs_num_bits s)"

fun psb_loop :: "i64 list \<Rightarrow> nat list \<Rightarrow> nat option res" where
  "psb_loop bits [] = Inr None"
| "psb_loop bits (i # is) =
     rbind (idx bits i) (\<lambda>word.
       if word \<noteq> 0 then Inr (Some (i * 64 + 63 - leading_zeros word)) else psb_loop bits is)"

definition fbs_prev_set_bit :: "fixed_bit_set \<Rightarrow> nat \<Rightarrow> nat option res" where
  "fbs_prev_set_bit s index =
     dassert (index < fbs_num_bits s) (
       let i = index div 64; sub_index = index mod 64 in
       rbind (idx (fbs_bits s) i) (\<lambda>w.
         let word = push_bit (63 - sub_index) w in
         if word \<noteq> 0 then Inr (Some (i * 64 + sub_index - leading_zeros word))
         else psb_loop (fbs_bits s) (rev [0..<i])))"

definition fbs_ensure_capacity :: "fixed_bit_set \<Rightarrow> nat \<Rightarrow> fixed_bit_set res" where
  "fbs_ensure_capacity s num_bits =
     (if num_bits < fbs_num_bits s then Inr s
      else
        let num_words = bits2words num_bits in
        rbind (if length (fbs_bits s) \<le> num_words
               then grow_with 8 (fbs_bits s) (num_words + 1) 0 else Inr (fbs_bits s)) (\<lambda>bits.
        dassert (length bits \<le> 2 ^ 31 - 1) (
          let nb = length bits * 64 in
          Inr (s\<lparr>fbs_bits := bits, fbs_num_bits := nb, fbs_num_words := bits2words nb\<rparr>))))"

declare nsb_groups.simps [simp del] nsb_while.simps [simp del] approx_loop.simps [simp del]

section \<open>Invariant and abstraction\<close>

definition fbs_inv :: "fixed_bit_set \<Rightarrow> bool" where
  "fbs_inv s \<longleftrightarrow> fbs_num_words s = bits2words (fbs_num_bits s)
     \<and> fbs_num_words s \<le> length (fbs_bits s)
     \<and> (\<forall>i. wbit (fbs_bits s) i \<longrightarrow> i < fbs_num_bits s)"

definition fbs_set :: "fixed_bit_set \<Rightarrow> nat set" where
  "fbs_set s = bits_of (fbs_bits s)"

text \<open>
  \<open>fbs_becomes s r S\<close>: the call with result \<open>r\<close> succeeds, keeps the invariant and the
  length of \<open>s\<close>, and leaves the set \<open>S\<close>.
\<close>

definition fbs_becomes :: "fixed_bit_set \<Rightarrow> fixed_bit_set res \<Rightarrow> nat set \<Rightarrow> bool" where
  "fbs_becomes s r S \<longleftrightarrow>
     (\<exists>s'. r = Inr s' \<and> fbs_inv s' \<and> fbs_num_bits s' = fbs_num_bits s \<and> fbs_set s' = S)"

lemma fbs_set_iff: "i \<in> fbs_set s \<longleftrightarrow> wbit (fbs_bits s) i"
  by (simp add: fbs_set_def bits_of_def)

lemma finite_fbs_set [simp]: "finite (fbs_set s)"
  by (simp add: fbs_set_def)

lemma fbs_inv_lt: "fbs_inv s \<Longrightarrow> i \<in> fbs_set s \<Longrightarrow> i < fbs_num_bits s"
  by (simp add: fbs_inv_def fbs_set_iff)

lemma bits2words_decomp: "n + 63 = 64 * bits2words n + (n + 63) mod 64"
  by (simp add: bits2words_def)

lemma bits2words_ge: "n \<le> 64 * bits2words n"
proof -
  have "(n + 63) mod 64 < 64" by simp
  with bits2words_decomp [of n] show ?thesis by linarith
qed

lemma bits2words_less: "64 * bits2words n < n + 64"
  using bits2words_decomp [of n] by linarith

lemma word_lt_bits2words: "i < n \<Longrightarrow> i div 64 < bits2words n"
  using bits2words_ge [of n] by (simp add: div_less_iff_less_mult mult.commute)

lemma ghost_split:
  assumes "w = bits2words n"
  shows "i < n \<longleftrightarrow> i div 64 < w \<and>
    (n mod 64 = 0 \<or> (i div 64 = w - 1 \<longrightarrow> i mod 64 < n mod 64))"
proof -
  define q r where "q = n div 64" and "r = n mod 64"
  have d: "n = 64 * q + r" "r < 64" "n \<le> 64 * w" "64 * w < n + 64"
    using bits2words_ge [of n] bits2words_less [of n] by (simp_all add: q_def r_def assms)
  then have "r = 0 \<Longrightarrow> w = q" by linarith
  moreover from d have "r \<noteq> 0 \<Longrightarrow> w = q + 1" by linarith
  ultimately have w: "w = (if n mod 64 = 0 then n div 64 else n div 64 + 1)"
    by (auto simp add: q_def r_def)
  have "i < n \<longleftrightarrow> i div 64 < n div 64 \<or> i div 64 = n div 64 \<and> i mod 64 < n mod 64"
    using le_iff_words [of n i] by auto
  then show ?thesis using w by auto
qed

lemma fbs_word_lt: "fbs_inv s \<Longrightarrow> i < fbs_num_bits s \<Longrightarrow> i div 64 < length (fbs_bits s)"
  using word_lt_bits2words [of i "fbs_num_bits s"] by (simp add: fbs_inv_def)

lemma fbs_becomesI:
  assumes "r = Inr (s\<lparr>fbs_bits := ws\<rparr>)" "fbs_inv s" "length ws = length (fbs_bits s)"
    and "\<And>i. wbit ws i \<longleftrightarrow> i \<in> S" and "\<And>i. i \<in> S \<Longrightarrow> i < fbs_num_bits s"
  shows "fbs_becomes s r S"
  using assms by (auto simp: fbs_becomes_def fbs_inv_def fbs_set_def bits_of_def)

subsection \<open>Constructors\<close>

lemma ghost_mask_iff:
  "w AND push_bit m (- 1) = 0 \<longleftrightarrow> (\<forall>b<64. bit w b \<longrightarrow> b < m)" for w :: i64
  by (auto simp: word_zero_iff_bits bit_simps not_le)

lemma fbs_verify_ghost_bits_clear_iff:
  assumes nw: "fbs_num_words s = bits2words (fbs_num_bits s)"
    and len: "fbs_num_words s \<le> length (fbs_bits s)"
  shows "fbs_verify_ghost_bits_clear s
    = Inr (\<forall>i. wbit (fbs_bits s) i \<longrightarrow> i < fbs_num_bits s)"
proof -
  let ?ws = "fbs_bits s" and ?n = "fbs_num_bits s" and ?w = "fbs_num_words s"
  define high where "high \<longleftrightarrow> (\<forall>k. ?w \<le> k \<and> k < length ?ws \<longrightarrow> ?ws ! k = 0)"
  define top where "top \<longleftrightarrow> ?n mod 64 = 0 \<or> (\<forall>b<64. bit (?ws ! (?w - 1)) b \<longrightarrow> b < ?n mod 64)"
  have w0: "?n mod 64 \<noteq> 0 \<Longrightarrow> 0 < ?w"
    unfolding nw bits2words_def by (cases ?n) auto
  have all_bits: "(\<forall>i. wbit ?ws i \<longrightarrow> P (i div 64) (i mod 64)) \<longleftrightarrow>
      (\<forall>k<length ?ws. \<forall>b<64. bit (?ws ! k) b \<longrightarrow> P k b)" for P
  proof -
    have "P k b" if "\<forall>i. wbit ?ws i \<longrightarrow> P (i div 64) (i mod 64)" "k < length ?ws" "b < 64"
      "bit (?ws ! k) b" for k b
      using that(1) [rule_format, of "64 * k + b"] that by (simp add: wbit_at)
    then show ?thesis by (auto simp: wbit_def)
  qed
  have "(\<forall>i. wbit ?ws i \<longrightarrow> i < ?n) \<longleftrightarrow>
      (\<forall>k<length ?ws. \<forall>b<64. bit (?ws ! k) b \<longrightarrow>
         k < ?w \<and> (?n mod 64 = 0 \<or> (k = ?w - 1 \<longrightarrow> b < ?n mod 64)))"
    unfolding ghost_split [OF nw] by (rule all_bits)
  also have "\<dots> \<longleftrightarrow> high \<and> top" (is "?A \<longleftrightarrow> _")
  proof
    assume A: ?A
    have high by (auto simp: high_def word_zero_iff_bits dest: A [rule_format])
    moreover have top using A [rule_format, of "?w - 1"] w0 len by (auto simp: top_def)
    ultimately show "high \<and> top" ..
  next
    assume ht: "high \<and> top"
    show ?A
    proof (intro allI impI)
      fix k b assume k: "k < length ?ws" and b: "b < 64" "bit (?ws ! k) b"
      from ht k b have "k < ?w" by (auto simp: high_def dest: leI)
      with ht b show "k < ?w \<and> (?n mod 64 = 0 \<or> (k = ?w - 1 \<longrightarrow> b < ?n mod 64))"
        by (auto simp: top_def)
    qed
  qed
  finally have eq: "(\<forall>i. wbit ?ws i \<longrightarrow> i < ?n) \<longleftrightarrow> high \<and> top" .
  have "list_all (\<lambda>i. ?ws ! i = 0) [?w..<length ?ws] \<longleftrightarrow> high"
    by (auto simp: list_all_iff high_def)
  then show ?thesis
    unfolding eq fbs_verify_ghost_bits_clear_def Let_def ghost_mask_iff using w0 len
    by (auto simp: top_def)
qed

lemma fbs_from_validated_parts_eq:
  "fbs_from_validated_parts bits n w =
     (let s = \<lparr>fbs_bits = bits, fbs_num_bits = n, fbs_num_words = w\<rparr>
      in if fbs_inv s then Inr s else Inl Panic)"
  by (auto simp: fbs_from_validated_parts_def fbs_inv_def Let_def dassert_def
      fbs_verify_ghost_bits_clear_iff)

lemma fbs_new_ok:
  "\<exists>s. fbs_new n = Inr s \<and> fbs_inv s \<and> fbs_num_bits s = n \<and> fbs_set s = {}"
  by (auto simp: fbs_new_def Let_def fbs_from_validated_parts_eq fbs_inv_def fbs_set_def wbit_simps)

lemma fbs_clone_ok: "fbs_inv s \<Longrightarrow> fbs_clone s = Inr s"
  by (cases s) (simp add: fbs_clone_def fbs_from_validated_parts_eq Let_def)

lemma fbs_with_capacity_ok:
  "fbs_with_capacity ws n =
     (if length ws < bits2words n then Inl IllegalArgument
      else if \<forall>i. wbit ws i \<longrightarrow> i < n
      then Inr \<lparr>fbs_bits = ws, fbs_num_bits = n, fbs_num_words = bits2words n\<rparr>
      else Inl Panic)"
  by (auto simp: fbs_with_capacity_def Let_def fbs_from_validated_parts_eq fbs_inv_def)

subsection \<open>Single bits\<close>

lemma fbs_get_ok: "fbs_inv s \<Longrightarrow> i < fbs_num_bits s \<Longrightarrow> fbs_get s i = Inr (i \<in> fbs_set s)"
  by (simp add: fbs_get_def fbs_word_lt fbs_set_iff wbit_def)

text \<open>Every single-bit write is one \<^const>\<open>list_update\<close> of the word that holds the bit.\<close>

lemma nat_eq_words: "j = i \<longleftrightarrow> j div 64 = i div 64 \<and> j mod 64 = i mod 64" for i j :: nat
  by (metis div_mult_mod_eq)

lemma wbit_update_bit:
  assumes "i div 64 < length ws" and "\<And>b. b < 64 \<Longrightarrow> bit w b = (if b = i mod 64 then v else bit (ws ! (i div 64)) b)"
  shows "wbit (ws[i div 64 := w]) j = (if j = i then v else wbit ws j)"
  using assms by (simp add: wbit_update nat_eq_words [of j i]) (auto simp: wbit_def)

lemma fbs_write_bit:
  assumes "fbs_inv s" "i < fbs_num_bits s" "r = Inr (s\<lparr>fbs_bits := (fbs_bits s)[i div 64 := w]\<rparr>)"
    and "\<And>b. b < 64 \<Longrightarrow> bit w b = (if b = i mod 64 then v else bit (fbs_bits s ! (i div 64)) b)"
  shows "fbs_becomes s r (if v then insert i (fbs_set s) else fbs_set s - {i})"
  by (rule fbs_becomesI [OF assms(3,1)])
    (use assms in \<open>auto simp: wbit_update_bit [OF fbs_word_lt [OF assms(1,2)] assms(4)] fbs_set_iff
      split: if_splits dest: fbs_inv_lt [unfolded fbs_set_iff]\<close>)

lemma fbs_set_bit_ok:
  assumes "fbs_inv s" "i < fbs_num_bits s"
  shows "fbs_becomes s (fbs_set_bit s i) (insert i (fbs_set s))"
  using fbs_write_bit [OF assms, where v = True] fbs_word_lt [OF assms] assms(2)
  by (auto simp: fbs_set_bit_def Let_def bit_or_iff wbit_simps)

lemma fbs_clear_with_index_ok:
  assumes "fbs_inv s" "i < fbs_num_bits s"
  shows "fbs_becomes s (fbs_clear_with_index s i) (fbs_set s - {i})"
  using fbs_write_bit [OF assms, where v = False] fbs_word_lt [OF assms] assms(2)
  by (auto simp: fbs_clear_with_index_def Let_def bit_simps wbit_simps)

lemma fbs_flip_ok:
  assumes "fbs_inv s" "i < fbs_num_bits s"
  shows "fbs_becomes s (fbs_flip s i) (if i \<in> fbs_set s then fbs_set s - {i} else insert i (fbs_set s))"
  using fbs_write_bit [OF assms, where v = "i \<notin> fbs_set s"] fbs_word_lt [OF assms] assms(2)
  by (auto simp: fbs_flip_def Let_def bit_simps wbit_simps fbs_set_iff wbit_def)

lemma fbs_get_and_set_ok:
  assumes "fbs_inv s" "i < fbs_num_bits s"
  shows "\<exists>s'. fbs_get_and_set s i = Inr (i \<in> fbs_set s, s') \<and>
    fbs_becomes s (Inr s') (insert i (fbs_set s))"
proof (cases "i \<in> fbs_set s")
  case True
  then show ?thesis using assms fbs_word_lt [OF assms]
    by (auto simp: fbs_get_and_set_def Let_def fbs_set_iff wbit_def fbs_becomes_def insert_absorb)
next
  case False
  then show ?thesis using assms fbs_word_lt [OF assms] fbs_set_bit_ok [OF assms]
    by (auto simp: fbs_get_and_set_def fbs_set_bit_def Let_def fbs_set_iff wbit_def)
qed

lemma fbs_get_and_clear_ok:
  assumes "fbs_inv s" "i < fbs_num_bits s"
  shows "\<exists>s'. fbs_get_and_clear s i = Inr (i \<in> fbs_set s, s') \<and>
    fbs_becomes s (Inr s') (fbs_set s - {i})"
  using assms fbs_word_lt [OF assms] fbs_clear_with_index_ok [OF assms]
  by (auto simp: fbs_get_and_clear_def fbs_clear_with_index_def Let_def fbs_set_iff wbit_def)

lemma fbs_clear_ok: "fbs_inv s \<Longrightarrow> fbs_becomes s (fbs_clear s) {}"
  by (rule fbs_becomesI [where ws = "replicate (length (fbs_bits s)) 0"])
    (auto simp: fbs_clear_def wbit_simps)

subsection \<open>Ranges\<close>

lemma fbs_range_becomes:
  assumes inv: "fbs_inv s" and e: "e \<le> fbs_num_bits s"
    and ws: "\<exists>ws'. r = Inr ws' \<and> length ws' = length (fbs_bits s) \<and>
      (\<forall>i. wbit ws' i = (if i \<in> {a..<e} then g (wbit (fbs_bits s) i) else wbit (fbs_bits s) i))"
    and S: "\<And>i. i \<in> S \<longleftrightarrow> (if i \<in> {a..<e} then g (i \<in> fbs_set s) else i \<in> fbs_set s)"
  shows "fbs_becomes s (rbind r (\<lambda>ws. Inr (s\<lparr>fbs_bits := ws\<rparr>))) S"
proof -
  from ws obtain ws' where "r = Inr ws'" "length ws' = length (fbs_bits s)"
    "\<forall>i. wbit ws' i = (if i \<in> {a..<e} then g (wbit (fbs_bits s) i) else wbit (fbs_bits s) i)" by blast
  with e fbs_inv_lt [OF inv] show ?thesis
    by (intro fbs_becomesI [OF _ inv, of _ ws']) (auto simp: S fbs_set_iff split: if_splits)
qed

lemma fbs_end_word_lt:
  "fbs_inv s \<Longrightarrow> start < end_index \<Longrightarrow> end_index \<le> fbs_num_bits s \<Longrightarrow>
   (end_index - 1) div 64 < length (fbs_bits s)"
  by (rule fbs_word_lt) auto

lemma fbs_flip_range_ok:
  assumes inv: "fbs_inv s" and a: "a < fbs_num_bits s" and e: "e \<le> fbs_num_bits s"
  shows "fbs_becomes s (fbs_flip_range s a e) {i. if i \<in> {a..<e} then i \<notin> fbs_set s else i \<in> fbs_set s}"
proof (cases "e \<le> a")
  case True
  with assms show ?thesis by (simp add: fbs_flip_range_def fbs_becomes_def)
next
  case False
  then have ae: "a < e" by simp
  from False a e show ?thesis
    unfolding fbs_flip_range_def Let_def
    by (simp, intro fbs_range_becomes [OF inv e range_update_ok [where g = "Not", OF ae fbs_end_word_lt [OF inv ae e]]])
      (auto simp: bit_simps)
qed

lemma fbs_set_with_range_ok:
  assumes inv: "fbs_inv s" and a: "a < fbs_num_bits s" and e: "e \<le> fbs_num_bits s"
  shows "fbs_becomes s (fbs_set_with_range s a e) (fbs_set s \<union> {a..<e})"
proof (cases "e \<le> a")
  case True
  with assms show ?thesis by (simp add: fbs_set_with_range_def fbs_becomes_def)
next
  case False
  then have ae: "a < e" by simp
  from False a e show ?thesis
    unfolding fbs_set_with_range_def Let_def
    by (simp, intro fbs_range_becomes [OF inv e range_update_ok [where g = "\<lambda>_. True", OF ae fbs_end_word_lt [OF inv ae e]]])
      (auto simp: bit_simps)
qed

lemma fbs_clear_range_ok:
  assumes inv: "fbs_inv s" and a: "a < fbs_num_bits s" and e: "e \<le> fbs_num_bits s"
  shows "fbs_becomes s (fbs_clear_range s a e) (fbs_set s - {a..<e})"
proof (cases "e \<le> a")
  case True
  with assms show ?thesis by (simp add: fbs_clear_range_def fbs_becomes_def)
next
  case False
  then have ae: "a < e" by simp
  from False a e show ?thesis
    unfolding fbs_clear_range_def Let_def
    by (simp, intro fbs_range_becomes [OF inv e range_update_ok [where g = "\<lambda>_. False", OF ae fbs_end_word_lt [OF inv ae e]]])
      (auto simp: bit_simps)
qed

subsection \<open>Binary operations\<close>

lemma zip_words_wmap:
  assumes "off + n \<le> length xs" "n \<le> length ys"
  shows "zip_words f off n xs ys = wmap off (off + n) (\<lambda>k w. f w (ys ! (k - off))) xs"
proof (rule nth_equalityI)
  show "length (zip_words f off n xs ys) = length (wmap off (off + n) (\<lambda>k w. f w (ys ! (k - off))) xs)"
    using assms by (simp add: zip_words_def)
next
  fix k assume "k < length (zip_words f off n xs ys)"
  with assms have k: "k < length xs" by (simp add: zip_words_def)
  then show "zip_words f off n xs ys ! k = wmap off (off + n) (\<lambda>k w. f w (ys ! (k - off))) xs ! k"
    using assms by (auto simp: zip_words_def nth_wmap nth_append)
qed

lemma for_words_wmap:
  assumes "off + n \<le> length xs" "n \<le> length ys"
  shows "for_words f off n xs ys = Inr (wmap off (off + n) (\<lambda>k w. f w (ys ! (k - off))) xs)"
  unfolding for_words_def
  using for_each_wmap_down [where lo = 0 and hi = n and off = off and xs = xs
      and F = "\<lambda>k w. f w (ys ! (k - off))"] assms
  by (simp add: add.commute)

lemma words_pos: "i div 64 < n \<longleftrightarrow> i < 64 * n" for i n :: nat
  by (simp add: div_less_iff_less_mult mult.commute)

lemma fbs_inv_words: "fbs_inv s \<Longrightarrow> wbit (fbs_bits s) i \<Longrightarrow> i div 64 < fbs_num_words s"
  by (simp add: fbs_inv_def word_lt_bits2words)

text \<open>
  Two sets where the other is not longer: with \<open>f\<close> applied to the common words, bit by bit
  \<open>g\<close>.
\<close>

lemma fbs_zip_becomes:
  assumes inv: "fbs_inv s" and o: "fbs_inv t" and nw: "fbs_num_words t \<le> fbs_num_words s"
    and le: "fbs_set t \<subseteq> {..<fbs_num_bits s}"
    and f: "\<And>u v b. b < 64 \<Longrightarrow> bit (f u v) b = g (bit u b) (bit v b)"
    and g: "\<And>x. g x False = x"
    and S: "\<And>i. i \<in> S \<longleftrightarrow> g (i \<in> fbs_set s) (i \<in> fbs_set t)"
  shows "fbs_becomes s
    (Inr (s\<lparr>fbs_bits := wmap 0 (fbs_num_words t) (\<lambda>k w. f w (fbs_bits t ! k)) (fbs_bits s)\<rparr>)) S"
proof (rule fbs_becomesI [OF refl inv])
  have bit_t: "\<not> wbit (fbs_bits t) i" if "\<not> i div 64 < fbs_num_words t" for i
    using fbs_inv_words [OF o] that by blast
  fix i
  show "wbit (wmap 0 (fbs_num_words t) (\<lambda>k w. f w (fbs_bits t ! k)) (fbs_bits s)) i \<longleftrightarrow> i \<in> S"
  proof (cases "i div 64 < fbs_num_words t")
    case True
    with nw inv o have "i div 64 < length (fbs_bits s)" "i div 64 < length (fbs_bits t)"
      by (auto simp: fbs_inv_def)
    with True show ?thesis by (simp add: wbit_wmap S fbs_set_iff f) (simp add: wbit_def)
  next
    case False
    then show ?thesis by (simp add: wbit_wmap S fbs_set_iff bit_t g)
  qed
  assume "i \<in> S"
  then have "i \<in> fbs_set s \<or> i \<in> fbs_set t" using g [of "i \<in> fbs_set s"] by (auto simp: S)
  with le show "i < fbs_num_bits s" using fbs_inv_lt [OF inv] by auto
qed simp

lemma fbs_num_words_le:
  assumes "fbs_inv s" "fbs_inv t" "fbs_num_bits t \<le> fbs_num_bits s"
  shows "fbs_num_words t \<le> fbs_num_words s" "fbs_num_words t \<le> length (fbs_bits s)"
    "fbs_num_words t \<le> length (fbs_bits t)"
proof -
  show *: "fbs_num_words t \<le> fbs_num_words s"
    using assms unfolding fbs_inv_def bits2words_def by (metis add_le_mono1 div_le_mono)
  show "fbs_num_words t \<le> length (fbs_bits t)" using assms by (simp add: fbs_inv_def)
  show "fbs_num_words t \<le> length (fbs_bits s)" using * assms(1) by (simp add: fbs_inv_def)
qed

text \<open>The code needs that the other set has no more words and no bit outside; otherwise it asserts.\<close>

lemma fbs_or_words_ok:
  assumes "fbs_inv s" "fbs_inv t" "fbs_num_words t \<le> fbs_num_words s" "fbs_set t \<subseteq> {..<fbs_num_bits s}"
  shows "fbs_becomes s (fbs_or s t) (fbs_set s \<union> fbs_set t)"
proof -
  have le: "fbs_num_words t \<le> length (fbs_bits s)" "fbs_num_words t \<le> length (fbs_bits t)"
    using assms(1-3) by (auto simp: fbs_inv_def)
  have "fbs_or s t = Inr (s\<lparr>fbs_bits := wmap 0 (fbs_num_words t) (\<lambda>k w. w OR fbs_bits t ! k) (fbs_bits s)\<rparr>)"
    using le assms(3) by (simp add: fbs_or_def fbs_or_impl_def Let_def min_absorb2 zip_words_wmap wmap_empty)
  also have "fbs_becomes s \<dots> (fbs_set s \<union> fbs_set t)"
    by (rule fbs_zip_becomes [where f = "(OR)" and g = "(\<or>)", OF assms]) (auto simp: bit_or_iff)
  finally show ?thesis .
qed

lemma fbs_xor_words_ok:
  assumes "fbs_inv s" "fbs_inv t" "fbs_num_words t \<le> fbs_num_words s" "fbs_set t \<subseteq> {..<fbs_num_bits s}"
  shows "fbs_becomes s (fbs_xor s t) ((fbs_set s - fbs_set t) \<union> (fbs_set t - fbs_set s))"
proof -
  have le: "fbs_num_words t \<le> length (fbs_bits s)" "fbs_num_words t \<le> length (fbs_bits t)"
    using assms(1-3) by (auto simp: fbs_inv_def)
  have "fbs_xor s t = Inr (s\<lparr>fbs_bits := wmap 0 (fbs_num_words t) (\<lambda>k w. w XOR fbs_bits t ! k) (fbs_bits s)\<rparr>)"
    using le assms(3) by (simp add: fbs_xor_def fbs_xor_impl_def Let_def min_absorb2 for_words_wmap)
  also have "fbs_becomes s \<dots> ((fbs_set s - fbs_set t) \<union> (fbs_set t - fbs_set s))"
    by (rule fbs_zip_becomes [where f = "(XOR)" and g = "(\<noteq>)", OF assms]) (auto simp: bit_xor_iff)
  finally show ?thesis .
qed

lemma fbs_set_within: "fbs_inv t \<Longrightarrow> fbs_num_bits t \<le> n \<Longrightarrow> fbs_set t \<subseteq> {..<n}"
  using fbs_inv_lt by force

lemma fbs_or_ok:
  assumes "fbs_inv s" "fbs_inv t" "fbs_num_bits t \<le> fbs_num_bits s"
  shows "fbs_becomes s (fbs_or s t) (fbs_set s \<union> fbs_set t)"
  by (rule fbs_or_words_ok [OF assms(1,2) fbs_num_words_le(1) [OF assms] fbs_set_within [OF assms(2,3)]])

lemma fbs_xor_ok:
  assumes "fbs_inv s" "fbs_inv t" "fbs_num_bits t \<le> fbs_num_bits s"
  shows "fbs_becomes s (fbs_xor s t) ((fbs_set s - fbs_set t) \<union> (fbs_set t - fbs_set s))"
  by (rule fbs_xor_words_ok [OF assms(1,2) fbs_num_words_le(1) [OF assms] fbs_set_within [OF assms(2,3)]])

lemma fbs_shrink_becomes:
  assumes inv: "fbs_inv s" and "length ws = length (fbs_bits s)"
    and "\<And>i. wbit ws i \<longleftrightarrow> i \<in> fbs_set s \<and> P i"
  shows "fbs_becomes s (Inr (s\<lparr>fbs_bits := ws\<rparr>)) {i \<in> fbs_set s. P i}"
  by (rule fbs_becomesI [OF refl inv]) (use assms fbs_inv_lt [OF inv] in auto)

lemma fbs_min_words:
  assumes "fbs_inv s" "fbs_inv t"
  shows "min (fbs_num_words s) (fbs_num_words t) \<le> length (fbs_bits s)"
    "min (fbs_num_words s) (fbs_num_words t) \<le> length (fbs_bits t)"
  using assms by (auto simp: fbs_inv_def)

lemma fbs_and_ok:
  assumes s: "fbs_inv s" and t: "fbs_inv t"
  shows "fbs_becomes s (fbs_and s t) (fbs_set s \<inter> fbs_set t)"
proof -
  let ?n = "min (fbs_num_words s) (fbs_num_words t)"
  let ?w1 = "wmap 0 ?n (\<lambda>k w. w AND fbs_bits t ! k) (fbs_bits s)"
  let ?w2 = "wmap (fbs_num_words t) (fbs_num_words s) (\<lambda>_ _. 0) ?w1"
  have sl: "fbs_num_words s \<le> length (fbs_bits s)" and tl: "fbs_num_words t \<le> length (fbs_bits t)"
    using s t by (auto simp: fbs_inv_def)
  have fw: "for_words (AND) 0 ?n (fbs_bits s) (fbs_bits t) = Inr ?w1"
    using fbs_min_words [OF s t] for_words_wmap [of 0 ?n "fbs_bits s" "fbs_bits t" "(AND)"]
    by (simp del: min_less_iff_conj)
  have "for_each [fbs_num_words t..<fbs_num_words s] (\<lambda>i ws. upd ws i 0) ?w1 = Inr ?w2"
    if "fbs_num_words t < fbs_num_words s"
    using for_each_wmap_up [where off = 0 and lo = "fbs_num_words t" and hi = "fbs_num_words s"
        and xs = ?w1 and F = "\<lambda>_ _. 0"] that sl by simp
  with fw have "fbs_and s t = Inr (s\<lparr>fbs_bits := ?w2\<rparr>)"
    by (auto simp: fbs_and_def fbs_and_self_def Let_def wmap_empty)
  also have "fbs_becomes s \<dots> {i \<in> fbs_set s. i \<in> fbs_set t}"
  proof (rule fbs_shrink_becomes [OF s])
    fix i
    have ws: "wbit (fbs_bits s) i \<Longrightarrow> i div 64 < fbs_num_words s"
      and wt: "wbit (fbs_bits t) i \<Longrightarrow> i div 64 < fbs_num_words t"
      using fbs_inv_words s t by blast+
    show "wbit ?w2 i \<longleftrightarrow> i \<in> fbs_set s \<and> i \<in> fbs_set t"
      unfolding wbit_wmap fbs_set_iff length_wmap bit_and_iff
      using sl tl ws wt by (auto simp: nth_wmap bit_and_iff wbit_def)
  qed simp
  finally show ?thesis by (simp add: Int_def)
qed

lemma fbs_and_not_ok:
  assumes s: "fbs_inv s" and t: "fbs_inv t"
  shows "fbs_becomes s (fbs_and_not_fixed_bit_set s t) (fbs_set s - fbs_set t)"
proof -
  let ?n = "min (fbs_num_words s) (fbs_num_words t)"
  let ?w1 = "wmap 0 ?n (\<lambda>k w. w AND NOT (fbs_bits t ! k)) (fbs_bits s)"
  have sl: "fbs_num_words s \<le> length (fbs_bits s)" and tl: "fbs_num_words t \<le> length (fbs_bits t)"
    using s t by (auto simp: fbs_inv_def)
  have "fbs_and_not_fixed_bit_set s t = Inr (s\<lparr>fbs_bits := ?w1\<rparr>)"
    using fbs_min_words [OF s t] zip_words_wmap [of 0 ?n "fbs_bits s" "fbs_bits t" "\<lambda>d s. d AND NOT s"]
    by (auto simp: fbs_and_not_fixed_bit_set_def fbs_and_not_impl_def Let_def wmap_empty)
  also have "fbs_becomes s \<dots> {i \<in> fbs_set s. i \<notin> fbs_set t}"
  proof (rule fbs_shrink_becomes [OF s])
    fix i
    have ws: "wbit (fbs_bits s) i \<Longrightarrow> i div 64 < fbs_num_words s"
      and wt: "wbit (fbs_bits t) i \<Longrightarrow> i div 64 < fbs_num_words t"
      using fbs_inv_words s t by blast+
    show "wbit ?w1 i \<longleftrightarrow> i \<in> fbs_set s \<and> i \<notin> fbs_set t"
      unfolding wbit_wmap fbs_set_iff
      using sl tl ws wt by (auto simp: bit_simps wbit_def)
  qed simp
  finally show ?thesis by (simp add: set_diff_eq)
qed

text \<open>The chunked scan of \<^verbatim>\<open>intersects\<close> is the plain one.\<close>

lemma scan_chunks_any: "scan_chunks xs ys = scan_any xs ys"
  by (induction xs ys rule: scan_chunks.induct) (auto simp: or_eq_0_iff)

lemma scan_any_iff: "scan_any xs ys \<longleftrightarrow> (\<exists>(x, y) \<in> set (zip xs ys). x AND y \<noteq> 0)"
  by (induction xs ys rule: scan_any.induct) auto

lemma scan_rest_iff:
  "length a = length b \<Longrightarrow> scan_rest a b \<longleftrightarrow> (\<exists>k<length a. a ! k AND b ! k \<noteq> 0)"
  by (auto simp: scan_rest_def scan_chunks_any scan_any_iff zip_rev set_zip)

lemma common_bit_iff:
  "(\<exists>i. wbit xs i \<and> wbit ys i \<and> i div 64 < n) \<longleftrightarrow>
   (\<exists>k<n. k < length xs \<and> k < length ys \<and> xs ! k AND ys ! k \<noteq> 0)"
proof
  assume "\<exists>i. wbit xs i \<and> wbit ys i \<and> i div 64 < n"
  then obtain i where i: "wbit xs i" "wbit ys i" "i div 64 < n" by blast
  then have "bit (xs ! (i div 64) AND ys ! (i div 64)) (i mod 64)"
    by (simp add: wbit_def bit_and_iff)
  then have "xs ! (i div 64) AND ys ! (i div 64) \<noteq> 0" by force
  with i show "\<exists>k<n. k < length xs \<and> k < length ys \<and> xs ! k AND ys ! k \<noteq> 0"
    by (auto simp: wbit_def)
next
  assume "\<exists>k<n. k < length xs \<and> k < length ys \<and> xs ! k AND ys ! k \<noteq> 0"
  then obtain k where k: "k < n" "k < length xs" "k < length ys" "xs ! k AND ys ! k \<noteq> 0" by blast
  from word_nonzero_bit [OF k(4)] obtain b where "b < 64" "bit (xs ! k) b" "bit (ys ! k) b"
    by (auto simp: bit_and_iff)
  with k have "wbit xs (64 * k + b)" "wbit ys (64 * k + b)" "(64 * k + b) div 64 < n"
    by (simp_all add: wbit_at)
  then show "\<exists>i. wbit xs i \<and> wbit ys i \<and> i div 64 < n" by blast
qed

lemma fbs_intersects_ok:
  assumes s: "fbs_inv s" and t: "fbs_inv t"
  shows "fbs_intersects s t = Inr (fbs_set s \<inter> fbs_set t \<noteq> {})"
proof -
  let ?n = "min (fbs_num_words s) (fbs_num_words t)"
  note len = fbs_min_words [OF s t]
  have "fbs_set s \<inter> fbs_set t \<noteq> {} \<longleftrightarrow>
      (\<exists>i. wbit (fbs_bits s) i \<and> wbit (fbs_bits t) i \<and> i div 64 < ?n)"
    using fbs_inv_words [OF s] fbs_inv_words [OF t] by (auto simp: fbs_set_iff)
  also have "\<dots> \<longleftrightarrow> (\<exists>k<?n. fbs_bits s ! k AND fbs_bits t ! k \<noteq> 0)"
    unfolding common_bit_iff using len by auto
  finally have iff: "fbs_set s \<inter> fbs_set t \<noteq> {} \<longleftrightarrow> (\<exists>k<?n. fbs_bits s ! k AND fbs_bits t ! k \<noteq> 0)" .
  define last where "last = ?n - 1"
  show ?thesis
  proof (cases "?n = 0")
    case True
    with iff show ?thesis by (auto simp: fbs_intersects_def)
  next
    case False
    then have last: "?n = Suc last" by (simp add: last_def)
    with len have l: "last < length (fbs_bits s)" "last < length (fbs_bits t)" by auto
    have "fbs_intersects s t = Inr (fbs_bits s ! last AND fbs_bits t ! last \<noteq> 0 \<or>
        (\<exists>k<last. fbs_bits s ! k AND fbs_bits t ! k \<noteq> 0))"
      unfolding fbs_intersects_def Let_def last using l by (auto simp: scan_rest_iff)
    then show ?thesis unfolding iff last by (auto simp: less_Suc_eq)
  qed
qed

subsection \<open>Counting\<close>

lemma for_each_sum:
  "(\<And>i t. i \<in> set xs \<Longrightarrow> f i t = Inr (t + c i)) \<Longrightarrow>
   for_each xs f t = Inr (t + (\<Sum>i\<leftarrow>xs. c i :: nat))"
  by (induction xs arbitrary: t) auto

lemma for_each_u32_sum:
  "(\<And>i t. i \<in> set xs \<Longrightarrow> f i t = u32_add t (c i)) \<Longrightarrow> t + (\<Sum>i\<leftarrow>xs. c i) < 2 ^ 32 \<Longrightarrow>
   for_each xs f t = Inr (t + (\<Sum>i\<leftarrow>xs. c i))"
  by (induction xs arbitrary: t) auto

lemma sum_list_upt: "(\<Sum>i\<leftarrow>[a..<b]. c i) = (\<Sum>i = a..<b. c i :: nat)"
  by (simp add: sum_list_distinct_conv_sum_set)

lemma sum_count_ones_upt:
  "n \<le> length ws \<Longrightarrow> (\<Sum>i\<leftarrow>[0..<n]. count_ones (ws ! i)) = card {i. i < 64 * n \<and> wbit ws i}"
  by (simp add: sum_list_upt atLeast0LessThan sum_count_ones)

lemma sum_count_ones_split:
  assumes "m \<le> n" "n \<le> length ws"
  shows "(\<Sum>i\<leftarrow>[m..<n]. count_ones (ws ! i)) = card {i. 64 * m \<le> i \<and> i < 64 * n \<and> wbit ws i}"
proof -
  have fin: "finite {i. i < 64 * k \<and> wbit ws i}" for k by simp
  have "(\<Sum>i\<leftarrow>[0..<m]. count_ones (ws ! i)) + (\<Sum>i\<leftarrow>[m..<n]. count_ones (ws ! i))
      = (\<Sum>i\<leftarrow>[0..<n]. count_ones (ws ! i))"
    unfolding sum_list_upt using assms(1) by (intro sum.atLeastLessThan_concat) auto
  moreover have "{i. i < 64 * n \<and> wbit ws i} =
      {i. i < 64 * m \<and> wbit ws i} \<union> {i. 64 * m \<le> i \<and> i < 64 * n \<and> wbit ws i}"
    using assms(1) by auto
  moreover have "card ({i. i < 64 * m \<and> wbit ws i} \<union> {i. 64 * m \<le> i \<and> i < 64 * n \<and> wbit ws i}) =
      card {i. i < 64 * m \<and> wbit ws i} + card {i. 64 * m \<le> i \<and> i < 64 * n \<and> wbit ws i}"
    by (rule card_Un_disjoint) auto
  ultimately show ?thesis
    using sum_count_ones_upt [of m ws] sum_count_ones_upt [of n ws] assms by simp
qed

lemma fbs_cardinality_ok:
  assumes "fbs_inv s"
  shows "fbs_cardinality s = Inr (card (fbs_set s))"
proof -
  have len: "fbs_num_words s \<le> length (fbs_bits s)" using assms by (simp add: fbs_inv_def)
  have "fbs_cardinality s = Inr (0 + (\<Sum>i\<leftarrow>[0..<fbs_num_words s]. count_ones (fbs_bits s ! i)))"
    unfolding fbs_cardinality_def by (rule for_each_sum) (use len in simp)
  also have "{i. i < 64 * fbs_num_words s \<and> wbit (fbs_bits s) i} = fbs_set s"
    using fbs_inv_words [OF assms] by (auto simp: fbs_set_iff words_pos)
  with sum_count_ones_upt [OF len]
  have "0 + (\<Sum>i\<leftarrow>[0..<fbs_num_words s]. count_ones (fbs_bits s ! i)) = card (fbs_set s)" by simp
  finally show ?thesis .
qed

text \<open>
  The counts of two sets. The running total is a \<^verbatim>\<open>u32\<close>, so the sets are bounded by
  \<open>2 ^ 32\<close> bits; the class is meant for at most \<open>2 ^ 31 - 1\<close>.
\<close>

lemma card_words_le: "card {i. i < 64 * n \<and> P i} \<le> 64 * n"
  using card_mono [of "{..<64 * n}" "{i. i < 64 * n \<and> P i}"] by auto

lemma count_common:
  fixes f :: "i64 \<Rightarrow> i64 \<Rightarrow> i64"
  assumes "n \<le> length xs" "n \<le> length ys"
    and f: "\<And>u v b. b < 64 \<Longrightarrow> bit (f u v) b = g (bit u b) (bit v b)"
  shows "(\<Sum>i\<leftarrow>[0..<n]. count_ones (f (xs ! i) (ys ! i)))
    = card {i. i < 64 * n \<and> g (wbit xs i) (wbit ys i)}"
proof -
  let ?zs = "map2 f (take n xs) (take n ys)"
  have "(\<Sum>i\<leftarrow>[0..<n]. count_ones (f (xs ! i) (ys ! i))) = (\<Sum>i\<leftarrow>[0..<n]. count_ones (?zs ! i))"
    using assms by (intro arg_cong [of _ _ sum_list] map_cong) auto
  also have "\<dots> = card {i. i < 64 * n \<and> wbit ?zs i}"
    by (rule sum_count_ones_upt) (use assms in simp)
  also have "{i. i < 64 * n \<and> wbit ?zs i} = {i. i < 64 * n \<and> g (wbit xs i) (wbit ys i)}"
    using assms by (auto simp: wbit_def f words_pos [symmetric])
  finally show ?thesis .
qed

lemma fbs_intersection_count_ok:
  assumes s: "fbs_inv s" and t: "fbs_inv t" and b: "64 * fbs_num_words s < 2 ^ 32"
  shows "fbs_intersection_count s t = Inr (card (fbs_set s \<inter> fbs_set t))"
proof -
  let ?n = "min (fbs_num_words s) (fbs_num_words t)"
  note len = fbs_min_words [OF s t]
  have eq: "{i. i < 64 * ?n \<and> wbit (fbs_bits s) i \<and> wbit (fbs_bits t) i} = fbs_set s \<inter> fbs_set t"
    using fbs_inv_words [OF s] fbs_inv_words [OF t] by (auto simp: fbs_set_iff words_pos [symmetric])
  have sum: "(\<Sum>i\<leftarrow>[0..<?n]. count_ones (fbs_bits s ! i AND fbs_bits t ! i)) = card (fbs_set s \<inter> fbs_set t)"
    unfolding eq [symmetric] by (rule count_common [OF len]) (simp add: bit_and_iff)
  have "card (fbs_set s \<inter> fbs_set t) \<le> 64 * ?n" unfolding eq [symmetric] by (rule card_words_le)
  also have "\<dots> \<le> 64 * fbs_num_words s" by simp
  finally have small: "card (fbs_set s \<inter> fbs_set t) < 2 ^ 32" using b by simp
  have "for_each [0..<?n] (\<lambda>i tot. rbind (idx (fbs_bits s) i) (\<lambda>x. rbind (idx (fbs_bits t) i) (\<lambda>y.
      u32_add tot (count_ones (x AND y))))) 0
    = Inr (0 + (\<Sum>i\<leftarrow>[0..<?n]. count_ones (fbs_bits s ! i AND fbs_bits t ! i)))"
    by (rule for_each_u32_sum) (use len small sum in auto)
  then show ?thesis by (simp only: fbs_intersection_count_def Let_def sum add_0)
qed

lemma card_split_at:
  fixes m :: nat
  assumes "finite S"
  shows "card S = card {i \<in> S. i < m} + card {i \<in> S. m \<le> i}"
proof -
  have "S = {i \<in> S. i < m} \<union> {i \<in> S. m \<le> i}" by auto
  then show ?thesis
    using card_Un_disjoint [of "{i \<in> S. i < m}" "{i \<in> S. m \<le> i}"] assms by (auto simp: disjoint_iff)
qed

lemma fbs_set_bound: "fbs_inv s \<Longrightarrow> i \<in> fbs_set s \<Longrightarrow> i < 64 * fbs_num_words s"
  by (simp add: fbs_set_iff fbs_inv_words flip: words_pos)

lemma card_fbs_le: "fbs_inv s \<Longrightarrow> A \<subseteq> fbs_set s \<Longrightarrow> card A \<le> 64 * fbs_num_words s"
  using card_mono [of "{..<64 * fbs_num_words s}" A] fbs_set_bound by fastforce

lemma fbs_tail_count:
  assumes s: "fbs_inv s" and n: "n \<le> fbs_num_words s"
    and b: "t + card {i \<in> fbs_set s. 64 * n \<le> i} < 2 ^ 32"
  shows "for_each [n..<fbs_num_words s] (\<lambda>i tot. rbind (idx (fbs_bits s) i) (\<lambda>x.
      u32_add tot (count_ones x))) t = Inr (t + card {i \<in> fbs_set s. 64 * n \<le> i})"
proof -
  have len: "fbs_num_words s \<le> length (fbs_bits s)" using s by (simp add: fbs_inv_def)
  have "{i. 64 * n \<le> i \<and> i < 64 * fbs_num_words s \<and> wbit (fbs_bits s) i}
      = {i \<in> fbs_set s. 64 * n \<le> i}"
    using fbs_set_bound [OF s] by (auto simp: fbs_set_iff)
  with sum_count_ones_split [OF n len]
  have sum: "(\<Sum>i\<leftarrow>[n..<fbs_num_words s]. count_ones (fbs_bits s ! i)) = card {i \<in> fbs_set s. 64 * n \<le> i}"
    by simp
  show ?thesis unfolding sum [symmetric]
    by (rule for_each_u32_sum) (use len b sum in auto)
qed

lemma fbs_and_not_count_ok:
  assumes s: "fbs_inv s" and t: "fbs_inv t" and b: "64 * fbs_num_words s < 2 ^ 32"
  shows "fbs_and_not_count s t = Inr (card (fbs_set s - fbs_set t))"
proof -
  let ?n = "min (fbs_num_words s) (fbs_num_words t)" and ?D = "fbs_set s - fbs_set t"
  note len = fbs_min_words [OF s t]
  have hi: "{i \<in> fbs_set s. 64 * ?n \<le> i} = {i \<in> ?D. 64 * ?n \<le> i}"
    using fbs_set_bound [OF s] fbs_set_bound [OF t] by (fastforce simp: min_def split: if_splits)
  have lo: "{i. i < 64 * ?n \<and> (wbit (fbs_bits s) i \<and> \<not> wbit (fbs_bits t) i)} = {i \<in> ?D. i < 64 * ?n}"
    by (auto simp: fbs_set_iff)
  have sum: "(\<Sum>i\<leftarrow>[0..<?n]. count_ones (fbs_bits s ! i AND NOT (fbs_bits t ! i))) = card {i \<in> ?D. i < 64 * ?n}"
    unfolding lo [symmetric] by (rule count_common [OF len]) (simp add: bit_and_iff bit_not_iff)
  have split: "card ?D = card {i \<in> ?D. i < 64 * ?n} + card {i \<in> ?D. 64 * ?n \<le> i}"
    by (rule card_split_at) simp
  moreover have "card ?D \<le> 64 * fbs_num_words s" by (rule card_fbs_le [OF s]) auto
  ultimately have small: "card {i \<in> ?D. i < 64 * ?n} + card {i \<in> ?D. 64 * ?n \<le> i} < 2 ^ 32" using b by simp
  have "for_each [0..<?n] (\<lambda>i tot. rbind (idx (fbs_bits s) i) (\<lambda>x. rbind (idx (fbs_bits t) i) (\<lambda>y.
      u32_add tot (count_ones (x AND NOT y))))) 0
    = Inr (0 + (\<Sum>i\<leftarrow>[0..<?n]. count_ones (fbs_bits s ! i AND NOT (fbs_bits t ! i))))"
    by (rule for_each_u32_sum) (use len small sum in auto)
  then show ?thesis
    using fbs_tail_count [OF s, of ?n "card {i \<in> ?D. i < 64 * ?n}"] small split
    by (simp add: fbs_and_not_count_def Let_def sum hi)
qed

lemma fbs_union_count_ok:
  assumes s: "fbs_inv s" and t: "fbs_inv t"
    and b: "64 * (fbs_num_words s + fbs_num_words t) < 2 ^ 32"
  shows "fbs_union_count s t = Inr (card (fbs_set s \<union> fbs_set t))"
proof -
  let ?n = "min (fbs_num_words s) (fbs_num_words t)" and ?U = "fbs_set s \<union> fbs_set t"
  note len = fbs_min_words [OF s t]
  have lo: "{i. i < 64 * ?n \<and> (wbit (fbs_bits s) i \<or> wbit (fbs_bits t) i)} = {i \<in> ?U. i < 64 * ?n}"
    by (auto simp: fbs_set_iff)
  have sum: "(\<Sum>i\<leftarrow>[0..<?n]. count_ones (fbs_bits s ! i OR fbs_bits t ! i)) = card {i \<in> ?U. i < 64 * ?n}"
    unfolding lo [symmetric] by (rule count_common [OF len]) (simp add: bit_or_iff)
  let ?hs = "{i \<in> fbs_set s. 64 * ?n \<le> i}" and ?ht = "{i \<in> fbs_set t. 64 * ?n \<le> i}"
  have "{i \<in> ?U. 64 * ?n \<le> i} = ?hs \<union> ?ht" "?hs \<inter> ?ht = {}"
    using fbs_set_bound [OF s] fbs_set_bound [OF t] by (fastforce simp: min_def split: if_splits)+
  then have hi: "card {i \<in> ?U. 64 * ?n \<le> i} = card ?hs + card ?ht"
    using card_Un_disjoint [of ?hs ?ht] by simp
  have split: "card ?U = card {i \<in> ?U. i < 64 * ?n} + card {i \<in> ?U. 64 * ?n \<le> i}"
    by (rule card_split_at) simp
  moreover have "card ?U \<le> 64 * (fbs_num_words s + fbs_num_words t)"
    using card_Un_le [of "fbs_set s" "fbs_set t"] card_fbs_le [OF s, of "fbs_set s"]
      card_fbs_le [OF t, of "fbs_set t"] by simp
  ultimately have small: "card {i \<in> ?U. i < 64 * ?n} + (card ?hs + card ?ht) < 2 ^ 32"
    using b hi by simp
  have "for_each [0..<?n] (\<lambda>i tot. rbind (idx (fbs_bits s) i) (\<lambda>x. rbind (idx (fbs_bits t) i) (\<lambda>y.
      u32_add tot (count_ones (x OR y))))) 0
    = Inr (0 + (\<Sum>i\<leftarrow>[0..<?n]. count_ones (fbs_bits s ! i OR fbs_bits t ! i)))"
    by (rule for_each_u32_sum) (use len small sum in auto)
  moreover have "for_each [?n..<fbs_num_words s] (\<lambda>i tot. rbind (idx (fbs_bits s) i) (\<lambda>x.
      u32_add tot (count_ones x))) (card {i \<in> ?U. i < 64 * ?n})
    = Inr (card {i \<in> ?U. i < 64 * ?n} + card ?hs)"
    by (rule fbs_tail_count [OF s]) (use small in auto)
  moreover have "for_each [?n..<fbs_num_words t] (\<lambda>i tot. rbind (idx (fbs_bits t) i) (\<lambda>x.
      u32_add tot (count_ones x))) (card {i \<in> ?U. i < 64 * ?n} + card ?hs)
    = Inr (card {i \<in> ?U. i < 64 * ?n} + card ?hs + card ?ht)"
    by (rule fbs_tail_count [OF t]) (use small in auto)
  ultimately show ?thesis
    using split hi by (simp only: fbs_union_count_def Let_def sum add_0 rbind_simps add.assoc)
qed

section \<open>Searches\<close>

text \<open>The grouped scan and the word loop are the plain scan \<open>nsb_scan\<close>, which finds the first bit.\<close>

lemma nsb_scan_eq:
  "nsb_scan k ws = map_option (\<lambda>j. k * 64 + j) (next_from (bits_of ws) 0)"
proof (induction k ws rule: nsb_scan.induct)
  case (1 i)
  then show ?case by (simp add: next_from_def bits_of_def wbit_def)
next
  case (2 i word ws)
  have bit: "wbit (word # ws) j \<longleftrightarrow> (if j < 64 then bit word j else wbit ws (j - 64))" for j
    by (auto simp: wbit_def nth_Cons' div_if mod_if)
  show ?case
  proof (cases "word = 0")
    case False
    then have "next_from (bits_of (word # ws)) 0 = Some (trailing_zeros word)"
      using trailing_zeros_bit [of word] trailing_zeros_below [of _ word]
      by (auto simp: next_from_Some bits_of_def bit)
    with False show ?thesis by simp
  next
    case True
    show ?thesis
    proof (cases "next_from (bits_of ws) 0")
      case None
      then have "next_from (bits_of (word # ws)) 0 = None"
        using True by (simp add: next_from_None bits_of_def bit [unfolded True])
      with None True 2 show ?thesis by simp
    next
      case (Some r)
      then have "next_from (bits_of (word # ws)) 0 = Some (64 + r)"
        using True by (simp add: next_from_Some bits_of_def bit [unfolded True])
      with Some True 2 show ?thesis by simp
    qed
  qed
qed

lemma fold_or_zero: "fold (OR) ws a = 0 \<longleftrightarrow> a = 0 \<and> (\<forall>w\<in>set ws. w = 0)" for a :: "'a::len word"
  by (induction ws arbitrary: a) (auto simp: or_eq_0_iff)

lemma nsb_scan_zero: "\<forall>w\<in>set ws. w = 0 \<Longrightarrow> nsb_scan i ws = None"
  by (induction i ws rule: nsb_scan.induct) auto

lemma nsb_scan_append:
  "nsb_scan i (us @ vs) = (case nsb_scan i us of Some r \<Rightarrow> Some r | None \<Rightarrow> nsb_scan (i + length us) vs)"
  by (induction i us rule: nsb_scan.induct) (auto split: option.split)

lemma nsb_groups_eq:
  "nsb_groups i ws = (case nsb_scan i ws of Some r \<Rightarrow> (Some r, snd (nsb_groups i ws))
                      | None \<Rightarrow> (None, i + length ws))"
proof (induction i ws rule: nsb_groups.induct)
  case (1 i ws)
  show ?case
  proof (cases "ws = []")
    case True
    then show ?thesis by (subst nsb_groups.simps) simp
  next
    case False
    let ?g = "take 16 ws"
    have split: "nsb_scan i ws = (case nsb_scan i ?g of Some r \<Rightarrow> Some r
        | None \<Rightarrow> nsb_scan (i + length ?g) (drop 16 ws))"
      by (subst nsb_scan_append [symmetric]) simp
    have zero: "\<not> (length ?g < 16 \<or> fold (OR) ?g 0 \<noteq> 0) \<Longrightarrow> nsb_scan i ?g = None"
      by (intro nsb_scan_zero) (simp add: fold_or_zero)
    show ?thesis
    proof (cases "nsb_scan i ?g")
      case (Some r)
      with zero have c: "length ?g < 16 \<or> fold (OR) ?g 0 \<noteq> 0" by auto
      have "nsb_groups i ws = (Some r, i)"
        by (subst nsb_groups.simps) (use False Some c in \<open>simp add: Let_def\<close>)
      with split Some show ?thesis by simp
    next
      case None
      then have step: "nsb_groups i ws = nsb_groups (i + length ?g) (drop 16 ws)"
        using False by (subst nsb_groups.simps) (auto simp add: Let_def)
      have IH: "nsb_groups (i + length ?g) (drop 16 ws) = (case nsb_scan (i + length ?g) (drop 16 ws) of
          Some r \<Rightarrow> (Some r, snd (nsb_groups (i + length ?g) (drop 16 ws)))
        | None \<Rightarrow> (None, i + length ?g + length (drop 16 ws)))"
        using 1 False None by (cases "length ?g < 16 \<or> fold (OR) ?g 0 \<noteq> 0") auto
      have len: "i + length ?g + length (drop 16 ws) = i + length ws" by simp
      show ?thesis unfolding step split None using IH unfolding len by simp
    qed
  qed
qed

lemma nsb_while_eq:
  "limit \<le> length bits \<Longrightarrow> i \<le> limit \<Longrightarrow> nsb_while bits i limit =
     Inr (case nsb_scan i (take (limit - i) (drop i bits)) of Some r \<Rightarrow> r | None \<Rightarrow> NO_MORE_DOCS)"
proof (induction bits i limit rule: nsb_while.induct)
  case (1 bits i limit)
  show ?case
  proof (cases "i < limit")
    case True
    then have "take (limit - i) (drop i bits) = bits ! i # take (limit - Suc i) (drop (Suc i) bits)"
      using 1 by (simp add: Cons_nth_drop_Suc [symmetric] take_Cons')
    with True 1 show ?thesis by (subst nsb_while.simps) simp
  next
    case False
    with 1 show ?thesis by (subst nsb_while.simps) simp
  qed
qed

lemma nsb_rest_eq:
  assumes "limit \<le> length bits" "i \<le> limit"
  shows "nsb_rest bits i limit =
     Inr (case nsb_scan i (take (limit - i) (drop i bits)) of Some r \<Rightarrow> r | None \<Rightarrow> NO_MORE_DOCS)"
proof -
  let ?ws = "take (limit - i) (drop i bits)"
  have "nsb_rest bits i limit = (case nsb_groups i ?ws of (Some r, _) \<Rightarrow> Inr r | (None, i) \<Rightarrow> nsb_while bits i limit)"
    using assms by (simp add: nsb_rest_def Let_def min_def)
  also have "\<dots> = Inr (case nsb_scan i ?ws of Some r \<Rightarrow> r | None \<Rightarrow> NO_MORE_DOCS)"
    using assms nsb_while_eq [of limit bits limit]
    by (subst nsb_groups_eq) (simp split: option.split)
  finally show ?thesis .
qed

lemma bits_of_window:
  assumes "hi \<le> length ws"
  shows "j \<in> bits_of (take (hi - lo) (drop lo ws)) \<longleftrightarrow> 64 * lo + j \<in> bits_of ws \<and> 64 * lo + j < 64 * hi"
proof -
  define q r where "q = j div 64" and "r = j mod 64"
  have j: "j = 64 * q + r" "r < 64" by (simp_all add: q_def r_def)
  have "64 * lo + j = 64 * (lo + q) + r" using j by simp
  then show ?thesis unfolding bits_of_def mem_Collect_eq
    using assms j wbit_at [of r "take (hi - lo) (drop lo ws)" q] wbit_at [of r ws "lo + q"]
    by (auto simp: words_pos add.assoc)
qed

lemma nsb_scan_window:
  assumes hi: "hi \<le> length ws"
  shows "nsb_scan lo (take (hi - lo) (drop lo ws)) = next_from (bits_of ws \<inter> {..<64 * hi}) (64 * lo)"
proof -
  let ?W = "bits_of (take (hi - lo) (drop lo ws))" and ?B = "bits_of ws \<inter> {..<64 * hi}"
  note win = bits_of_window [OF hi, where lo = lo]
  have sh: "j \<in> ?B \<Longrightarrow> 64 * lo \<le> j \<Longrightarrow> j - 64 * lo \<in> ?W" for j by (simp add: win)
  show ?thesis
  proof (cases "next_from ?W 0")
    case None
    then have "next_from ?B (64 * lo) = None"
      using sh unfolding next_from_None by (meson not_le not_less0)
    with None show ?thesis by (simp add: nsb_scan_eq)
  next
    case (Some r)
    then have r: "r \<in> ?W" "\<And>j. j < r \<Longrightarrow> j \<notin> ?W" by (simp_all add: next_from_Some)
    have "j \<notin> ?B" if "64 * lo \<le> j" "j < 64 * lo + r" for j
      using sh [of j] r(2) [of "j - 64 * lo"] that by fastforce
    then have "next_from ?B (64 * lo) = Some (64 * lo + r)"
      using r(1) by (simp add: next_from_Some win)
    with Some show ?thesis by (simp add: nsb_scan_eq mult.commute)
  qed
qed

lemma next_from_skip:
  assumes "a \<le> b" and none: "\<And>j. a \<le> j \<Longrightarrow> j < b \<Longrightarrow> j \<notin> S"
  shows "next_from S a = next_from S b"
proof (cases "next_from S b")
  case None
  then have "next_from S a = None" using none unfolding next_from_None by (meson not_le)
  with None show ?thesis by simp
next
  case (Some r)
  then have "next_from S a = Some r" using assms unfolding next_from_Some by (meson le_trans not_le)
  with Some show ?thesis by simp
qed

lemma next_from_below:
  "next_from S a = Some r \<Longrightarrow> r < m \<Longrightarrow> next_from (S \<inter> {..<m}) a = Some r"
  by (simp add: next_from_Some)

lemma next_in_word:
  fixes ws :: "i64 list"
  defines "word \<equiv> \<lambda>start. signed_drop_bit (start mod 64) (ws ! (start div 64))"
  assumes i: "start div 64 < length ws"
  shows "word start \<noteq> 0 \<Longrightarrow> next_from (bits_of ws) start = Some (start + trailing_zeros (word start)) \<and>
      start + trailing_zeros (word start) < 64 * (start div 64 + 1)"
    and "word start = 0 \<Longrightarrow> start \<le> j \<Longrightarrow> j < 64 * (start div 64 + 1) \<Longrightarrow> j \<notin> bits_of ws"
proof -
  define q m where "q = start div 64" and "m = start mod 64"
  have s: "start = 64 * q + m" "m < 64" by (simp_all add: q_def m_def)
  have sdb: "n < 64 \<Longrightarrow> bit (word start) n \<longleftrightarrow> bit (ws ! q) (if 64 - m \<le> n then 63 else m + n)" for n
    by (simp add: word_def bit_signed_drop_bit_iff q_def m_def)
  have at: "start + n \<in> bits_of ws \<longleftrightarrow> bit (word start) n" if "n < 64 - m" for n
  proof -
    have e: "start + n = 64 * q + (m + n)" using s by simp
    show ?thesis using wbit_at [of "m + n" ws q] that i sdb [of n]
      unfolding e by (simp add: bits_of_def q_def [symmetric])
  qed
  let ?t = "trailing_zeros (word start)"
  show "next_from (bits_of ws) start = Some (start + ?t) \<and> start + ?t < 64 * (start div 64 + 1)"
    if nz: "word start \<noteq> 0"
  proof -
    note t = trailing_zeros_bit [OF nz] trailing_zeros_below [of _ "word start"]
    have lt: "?t < 64 - m"
    proof (rule ccontr)
      assume "\<not> ?t < 64 - m"
      then have "bit (word start) (63 - m)" "63 - m < ?t" using t(1) sdb [of ?t] sdb [of "63 - m"] s(2) by auto
      with t(2) show False by blast
    qed
    have "j \<notin> bits_of ws" if "start \<le> j" "j < start + ?t" for j
      using at [of "j - start"] t(2) [of "j - start"] that lt by auto
    with at [OF lt] t(1) lt s show ?thesis by (simp add: next_from_Some)
  qed
  show "j \<notin> bits_of ws" if "word start = 0" "start \<le> j" "j < 64 * (start div 64 + 1)"
    using at [of "j - start"] that s by (simp add: q_def [symmetric])
qed

lemma next_from_limit:
  assumes i: "start div 64 < length ws" and hi: "start div 64 < hi"
    and z: "signed_drop_bit (start mod 64) (ws ! (start div 64)) = (0 :: i64)"
  shows "next_from (bits_of ws \<inter> {..<64 * hi}) start
    = next_from (bits_of ws \<inter> {..<64 * hi}) (64 * Suc (start div 64))"
proof (rule next_from_skip)
  show "start \<le> 64 * Suc (start div 64)"
    using div_times_less_eq_dividend [of start 64] dividend_less_times_div [of 64 start] by simp
qed (use next_in_word(2) [OF i z] in auto)

lemma nsb_rest_next:
  "limit \<le> length bits \<Longrightarrow> i \<le> limit \<Longrightarrow>
   nsb_rest bits i limit = Inr (doc_from (bits_of bits \<inter> {..<64 * limit}) (64 * i))"
  by (simp add: nsb_rest_eq nsb_scan_window doc_from_def)
  
lemma nsb_scan_next_word:
  assumes "i < limit" "limit \<le> length bits"
  shows "doc_from (bits_of bits \<inter> {..<64 * limit}) (64 * i)
    = (if bits ! i \<noteq> 0 then i * 64 + trailing_zeros (bits ! i)
       else doc_from (bits_of bits \<inter> {..<64 * limit}) (64 * (i + 1)))"
proof -
  have "take (limit - i) (drop i bits) = bits ! i # take (limit - Suc i) (drop (Suc i) bits)"
    using assms by (simp add: Cons_nth_drop_Suc [symmetric] take_Cons')
  then show ?thesis
    using nsb_scan_window [OF assms(2), of i, symmetric] nsb_scan_window [OF assms(2), of "i + 1", symmetric]
    by (simp add: doc_from_def)
qed

lemma fbs_next_set_bit_impl_ok:
  assumes inv: "fbs_inv s" and a: "start < ub" "ub \<le> fbs_num_bits s"
  shows "\<exists>hi. ub \<le> 64 * hi \<and>
    fbs_next_set_bit_impl s start ub = Inr (doc_from (fbs_set s \<inter> {..<64 * hi}) start)"
proof -
  let ?bits = "fbs_bits s" and ?i = "start div 64"
  define hi where "hi = (if ub = fbs_num_bits s then fbs_num_words s else bits2words ub)"
  have hi': "hi = bits2words ub" using inv by (simp add: hi_def fbs_inv_def)
  have ub: "ub \<le> 64 * hi" using bits2words_ge by (simp add: hi')
  have "bits2words ub \<le> bits2words (fbs_num_bits s)" using a by (simp add: bits2words_def div_le_mono)
  then have len: "hi \<le> length ?bits" using inv by (simp add: hi' fbs_inv_def)
  have i: "?i < hi" using word_lt_bits2words [OF a(1)] by (simp add: hi')
  have il: "?i < length ?bits" using i len by simp
  have "fbs_next_set_bit_impl s start ub = Inr (doc_from (fbs_set s \<inter> {..<64 * hi}) start)"
  proof (cases "signed_drop_bit (start mod 64) (?bits ! ?i) = 0")
    case False
    note n = next_in_word(1) [OF il False]
    moreover have "64 * (?i + 1) \<le> 64 * hi" using i by simp
    ultimately have "start + trailing_zeros (signed_drop_bit (start mod 64) (?bits ! ?i)) < 64 * hi"
      by (meson less_le_trans)
    with n have "doc_from (fbs_set s \<inter> {..<64 * hi}) start
        = start + trailing_zeros (signed_drop_bit (start mod 64) (?bits ! ?i))"
      by (simp add: doc_from_def fbs_set_def next_from_below)
    with False show ?thesis using a il by (simp add: fbs_next_set_bit_impl_def Let_def)
  next
    case True
    note lim = next_from_limit [OF il i True]
    show ?thesis
    proof (cases "?i + 1 < hi")
      case True
      with len a il \<open>signed_drop_bit (start mod 64) (?bits ! ?i) = 0\<close> show ?thesis
        using lim nsb_scan_next_word [of "?i + 1" hi ?bits] nsb_rest_next [of hi ?bits "?i + 2"]
        by (simp add: fbs_next_set_bit_impl_def Let_def hi_def [symmetric] fbs_set_def doc_from_def)
    next
      case False
      with i have "hi = ?i + 1" by simp
      with len a il True show ?thesis
        using lim nsb_rest_next [of hi ?bits "?i + 1"]
        by (simp add: fbs_next_set_bit_impl_def Let_def hi_def [symmetric] fbs_set_def doc_from_def)
    qed
  qed
  with ub show ?thesis by blast
qed

lemma doc_from_clip:
  assumes "end_index \<le> hi"
  shows "(if doc_from (S \<inter> {..<hi}) a < end_index then doc_from (S \<inter> {..<hi}) a else NO_MORE_DOCS)
    = doc_from (S \<inter> {..<end_index}) a"
proof (cases "next_from (S \<inter> {..<hi}) a")
  case None
  then have "next_from (S \<inter> {..<end_index}) a = None" using assms by (auto simp: next_from_None)
  with None show ?thesis by (simp add: doc_from_def)
next
  case (Some r)
  show ?thesis
  proof (cases "r < end_index")
    case True
    with Some have "next_from (S \<inter> {..<end_index}) a = Some r" using assms by (auto simp: next_from_Some)
    with Some True show ?thesis by (simp add: doc_from_def)
  next
    case False
    with Some have "next_from (S \<inter> {..<end_index}) a = None"
      using assms by (fastforce simp: next_from_None next_from_Some not_le [symmetric])
    with Some False show ?thesis by (simp add: doc_from_def)
  qed
qed

lemma fbs_next_set_bit_range_ok:
  assumes "fbs_inv s" "start < end_index" "end_index \<le> fbs_num_bits s"
  shows "fbs_next_set_bit_range s start end_index = Inr (doc_from (fbs_set s \<inter> {..<end_index}) start)"
proof -
  obtain hi where "end_index \<le> 64 * hi"
    "fbs_next_set_bit_impl s start end_index = Inr (doc_from (fbs_set s \<inter> {..<64 * hi}) start)"
    using fbs_next_set_bit_impl_ok [OF assms] by blast
  then show ?thesis using doc_from_clip [of end_index "64 * hi" "fbs_set s" start]
    by (simp add: fbs_next_set_bit_range_def)
qed

lemma fbs_next_set_bit_ok:
  assumes "fbs_inv s" "start < fbs_num_bits s"
  shows "fbs_next_set_bit s start = Inr (doc_from (fbs_set s) start)"
proof -
  have "fbs_set s \<inter> {..<fbs_num_bits s} = fbs_set s" using fbs_inv_lt [OF assms(1)] by auto
  then show ?thesis using fbs_next_set_bit_range_ok [OF assms(1,2) le_refl] by (simp add: fbs_next_set_bit_def)
qed

lemma prev_upto_cong:
  assumes "\<And>j. j \<in> S \<and> j \<le> a \<longleftrightarrow> j \<in> T \<and> j \<le> b"
  shows "prev_upto S a = prev_upto T b"
proof -
  have "(\<lambda>j. j \<in> S \<and> j \<le> a) = (\<lambda>j. j \<in> T \<and> j \<le> b)" using assms by blast
  then show ?thesis unfolding prev_upto_def Bex_def by simp
qed

lemma prev_in_word:
  assumes i: "index div 64 < length ws"
  defines "word \<equiv> push_bit (63 - index mod 64) (ws ! (index div 64))"
  shows "word \<noteq> 0 \<Longrightarrow> leading_zeros word \<le> index mod 64 \<and>
      prev_upto (bits_of ws) index = Some (index - leading_zeros word)"
    and "word = 0 \<Longrightarrow> j \<le> index \<Longrightarrow> 64 * (index div 64) \<le> j \<Longrightarrow> j \<notin> bits_of ws"
proof -
  define q m where "q = index div 64" and "m = index mod 64"
  have s: "index = 64 * q + m" "m < 64" by (simp_all add: q_def m_def)
  have at: "index - n \<in> bits_of ws \<longleftrightarrow> bit word (63 - n)" if "n \<le> m" for n
  proof -
    have e: "index - n = 64 * q + (m - n)" using s that by simp
    have d: "63 - n - (63 - m) = m - n" "63 - m \<le> 63 - n" "63 - n < 64" using that s(2) by linarith+
    show ?thesis unfolding e using wbit_at [of "m - n" ws q] that i s(2) d
      by (simp add: bits_of_def q_def [symmetric] word_def bit_push_bit_iff m_def [symmetric])
  qed
  have low: "bit word b \<Longrightarrow> 63 - m \<le> b" for b by (simp add: word_def bit_push_bit_iff m_def)
  let ?t = "leading_zeros word"
  show "?t \<le> index mod 64 \<and> prev_upto (bits_of ws) index = Some (index - ?t)" if nz: "word \<noteq> 0"
  proof -
    have t: "?t < 64" "bit word (63 - ?t)" using leading_zeros_bit [OF nz] by simp_all
    have le: "?t \<le> m" using low [OF t(2)] s(2) t(1) by linarith
    have "j \<notin> bits_of ws" if "j \<le> index" "index - ?t < j" for j
      using at [of "index - j"] leading_zeros_above [of word "63 - (index - j)"] that le s(2) by auto
    with at [OF le] t(2) le show ?thesis by (simp add: prev_upto_Some m_def)
  qed
  show "j \<notin> bits_of ws" if "word = 0" "j \<le> index" "64 * (index div 64) \<le> j"
    using at [of "index - j"] that s by (simp add: q_def [symmetric])
qed

lemma psb_loop_eq:
  "i \<le> length bits \<Longrightarrow>
   psb_loop bits (rev [0..<i]) = Inr (prev_upto (bits_of bits \<inter> {..<64 * i}) (64 * i))"
proof (induction i)
  case 0
  then show ?case by (simp add: prev_upto_def)
next
  case (Suc i)
  let ?e = "64 * i + 63" and ?w = "bits ! i"
  have d: "?e div 64 = i" "?e mod 64 = 63" by simp_all
  have cong: "prev_upto (bits_of bits \<inter> {..<64 * Suc i}) (64 * Suc i) = prev_upto (bits_of bits) ?e"
    by (rule prev_upto_cong) auto
  note p = prev_in_word [of ?e bits, unfolded d]
  show ?case
  proof (cases "?w = 0")
    case True
    have "prev_upto (bits_of bits) ?e = prev_upto (bits_of bits \<inter> {..<64 * i}) (64 * i)"
      by (rule prev_upto_cong) (use p(2) Suc True in \<open>auto simp: not_less [symmetric]\<close>)
    with True Suc cong show ?thesis by simp
  next
    case False
    with p(1) Suc cong show ?thesis by (simp add: mult.commute)
  qed
qed

lemma fbs_prev_set_bit_ok:
  assumes inv: "fbs_inv s" and a: "index < fbs_num_bits s"
  shows "fbs_prev_set_bit s index = Inr (prev_upto (fbs_set s) index)"
proof -
  let ?i = "index div 64" and ?bits = "fbs_bits s"
  have i: "?i < length ?bits" by (rule fbs_word_lt [OF inv a])
  have e: "?i * 64 + index mod 64 = index" by simp
  note p = prev_in_word [OF i]
  show ?thesis
  proof (cases "push_bit (63 - index mod 64) (?bits ! ?i) = 0")
    case True
    have "prev_upto (bits_of ?bits \<inter> {..<64 * ?i}) (64 * ?i) = prev_upto (bits_of ?bits) index"
    proof (rule prev_upto_cong)
      fix j
      have "64 * ?i \<le> index" by simp
      then show "j \<in> bits_of ?bits \<inter> {..<64 * ?i} \<and> j \<le> 64 * ?i \<longleftrightarrow> j \<in> bits_of ?bits \<and> j \<le> index"
        using p(2) [OF True, of j] unfolding Int_iff lessThan_iff by linarith
    qed
    with True a i show ?thesis
      by (simp add: fbs_prev_set_bit_def Let_def psb_loop_eq fbs_set_def)
  next
    case False
    with p(1) a i show ?thesis
      by (simp add: fbs_prev_set_bit_def Let_def fbs_set_def)
  qed
qed

lemma wbit_append_zeros [wbit_simps]: "wbit (ws @ replicate n 0) i \<longleftrightarrow> wbit ws i"
  by (auto simp: wbit_def nth_append)

lemma fbs_ensure_capacity_ok:
  assumes inv: "fbs_inv s" and a: "bits2words n < MAX_ARRAY_LENGTH"
    and l: "length (fbs_bits s) \<le> MAX_ARRAY_LENGTH"
  shows "\<exists>s'. fbs_ensure_capacity s n = Inr s' \<and> fbs_inv s' \<and> fbs_set s' = fbs_set s
    \<and> n < fbs_num_bits s' \<and> fbs_num_bits s \<le> fbs_num_bits s'"
proof (cases "n < fbs_num_bits s")
  case True
  with inv show ?thesis by (simp add: fbs_ensure_capacity_def)
next
  case False
  define bits where "bits = fbs_bits s @ replicate (bits2words n + 1 - length (fbs_bits s)) 0"
  have grow: "(if length (fbs_bits s) \<le> bits2words n
      then grow_with 8 (fbs_bits s) (bits2words n + 1) 0 else Inr (fbs_bits s)) = Inr bits"
    using a grow_with_ok [of "bits2words n + 1" 8 "fbs_bits s" 0] by (simp add: bits_def)
  have len: "bits2words n < length bits" "length bits \<le> 2 ^ 31 - 1"
    using a l by (auto simp: bits_def MAX_ARRAY_LENGTH_def)
  have nb: "bits2words (length bits * 64) = length bits" by (simp add: bits2words_def)
  let ?s = "s\<lparr>fbs_bits := bits, fbs_num_bits := length bits * 64, fbs_num_words := length bits\<rparr>"
  have eq: "fbs_ensure_capacity s n = Inr ?s"
    unfolding fbs_ensure_capacity_def using False grow len by (simp add: Let_def nb)
  have "fbs_inv ?s"
    using wbit_lt [of bits] by (auto simp: fbs_inv_def nb mult.commute)
  moreover have "fbs_set ?s = fbs_set s" by (auto simp: fbs_set_iff bits_def wbit_simps)
  moreover have "64 * bits2words n < length bits * 64" using len by simp
  then have "n < length bits * 64" using bits2words_ge [of n] by linarith
  ultimately show ?thesis using eq False by simp
qed

lemma fbs_approximate_cardinality_small:
  "fbs_inv s \<Longrightarrow> fbs_num_words s \<le> 1024 \<Longrightarrow> fbs_approximate_cardinality s = Inr (card (fbs_set s))"
  by (simp add: fbs_approximate_cardinality_def Let_def fbs_cardinality_ok)

section \<open>The properties of the component\<close>

text \<open>Two sample sets: \<open>{0, 2, 64}\<close> in 70 bits and \<open>{2, 5}\<close> in 10 bits.\<close>

definition fbs_sample :: fixed_bit_set where
  "fbs_sample = \<lparr>fbs_bits = [5, 1], fbs_num_bits = 70, fbs_num_words = 2\<rparr>"

definition fbs_sample2 :: fixed_bit_set where
  "fbs_sample2 = \<lparr>fbs_bits = [36], fbs_num_bits = 10, fbs_num_words = 1\<rparr>"

lemma fbs_inv_verify:
  "fbs_num_words s = bits2words (fbs_num_bits s) \<Longrightarrow> fbs_num_words s \<le> length (fbs_bits s) \<Longrightarrow>
   fbs_verify_ghost_bits_clear s = Inr True \<Longrightarrow> fbs_inv s"
  by (simp add: fbs_inv_def fbs_verify_ghost_bits_clear_iff)

lemma fbs_sample_inv: "fbs_inv fbs_sample"
  by (rule fbs_inv_verify) (simp_all add: fbs_sample_def, code_simp+)

lemma fbs_sample2_inv: "fbs_inv fbs_sample2"
  by (rule fbs_inv_verify) (simp_all add: fbs_sample2_def, code_simp+)

lemmas fbs_sample_facts = fbs_sample_inv fbs_sample2_inv

text \<open>
  C1. On a well-formed set and an index below its length, the single-bit operations are
  those of the set of indices: \<open>get\<close> is membership, \<open>set\<close>, \<open>clear\<close> and \<open>flip\<close> insert,
  remove and toggle the index, \<open>get_and_set\<close> and \<open>get_and_clear\<close> also return the old
  membership; the result is well-formed and has the same length.
\<close>

theorem fixed_bit_set_point_ops:
  assumes "fbs_inv s" "i < fbs_num_bits s"
  shows "fbs_get s i = Inr (i \<in> fbs_set s)
    \<and> fbs_becomes s (fbs_set_bit s i) (insert i (fbs_set s))
    \<and> fbs_becomes s (fbs_clear_with_index s i) (fbs_set s - {i})
    \<and> fbs_becomes s (fbs_flip s i) (if i \<in> fbs_set s then fbs_set s - {i} else insert i (fbs_set s))
    \<and> (\<exists>s'. fbs_get_and_set s i = Inr (i \<in> fbs_set s, s') \<and> fbs_becomes s (Inr s') (insert i (fbs_set s)))
    \<and> (\<exists>s'. fbs_get_and_clear s i = Inr (i \<in> fbs_set s, s') \<and> fbs_becomes s (Inr s') (fbs_set s - {i}))"
  using assms by (intro conjI fbs_get_ok fbs_set_bit_ok fbs_clear_with_index_ok fbs_flip_ok
      fbs_get_and_set_ok fbs_get_and_clear_ok)

theorem fixed_bit_set_point_ops_witness:
  "fbs_get fbs_sample 64 = Inr (64 \<in> fbs_set fbs_sample) \<and>
   fbs_becomes fbs_sample (fbs_flip fbs_sample 64) (fbs_set fbs_sample - {64})"
proof -
  have "fbs_get fbs_sample 64 = Inr True" by code_simp
  with fixed_bit_set_point_ops [OF fbs_sample_inv, of 64] show ?thesis by (simp add: fbs_sample_def)
qed

text \<open>
  C2. The range operations with both ends in bounds set, clear or toggle exactly the
  indices from \<open>a\<close> (inclusive) to \<open>e\<close> (exclusive), within one word or across words,
  and keep the set well-formed.
\<close>

theorem fixed_bit_set_range_ops:
  assumes "fbs_inv s" "a < fbs_num_bits s" "e \<le> fbs_num_bits s"
  shows "fbs_becomes s (fbs_set_with_range s a e) (fbs_set s \<union> {a..<e})
    \<and> fbs_becomes s (fbs_clear_range s a e) (fbs_set s - {a..<e})
    \<and> fbs_becomes s (fbs_flip_range s a e) {i. if i \<in> {a..<e} then i \<notin> fbs_set s else i \<in> fbs_set s}"
  using assms by (intro conjI fbs_set_with_range_ok fbs_clear_range_ok fbs_flip_range_ok)

theorem fixed_bit_set_range_ops_witness:
  "fbs_becomes fbs_sample (fbs_clear_range fbs_sample 1 66) (fbs_set fbs_sample - {1..<66})"
  using fixed_bit_set_range_ops [OF fbs_sample_inv, of 1 66] by (simp add: fbs_sample_def)

text \<open>
  C3. \<open>or\<close> and \<open>xor\<close> with a set that is no longer, \<open>and\<close> and \<open>and_not\<close> with any set, are
  union, symmetric difference, intersection and difference of the sets of indices, and
  keep the ghost bits above the length clear.
\<close>

theorem fixed_bit_set_algebra:
  assumes "fbs_inv s" "fbs_inv t"
  shows "fbs_becomes s (fbs_and s t) (fbs_set s \<inter> fbs_set t)
    \<and> fbs_becomes s (fbs_and_not_fixed_bit_set s t) (fbs_set s - fbs_set t)
    \<and> (fbs_num_bits t \<le> fbs_num_bits s \<longrightarrow>
         fbs_becomes s (fbs_or s t) (fbs_set s \<union> fbs_set t)
       \<and> fbs_becomes s (fbs_xor s t) ((fbs_set s - fbs_set t) \<union> (fbs_set t - fbs_set s)))"
  using assms by (intro conjI impI fbs_and_ok fbs_and_not_ok fbs_or_ok fbs_xor_ok)

theorem fixed_bit_set_algebra_witness:
  "fbs_becomes fbs_sample (fbs_and fbs_sample fbs_sample2) (fbs_set fbs_sample \<inter> fbs_set fbs_sample2)
   \<and> fbs_becomes fbs_sample (fbs_or fbs_sample fbs_sample2) (fbs_set fbs_sample \<union> fbs_set fbs_sample2)"
  using fixed_bit_set_algebra [OF fbs_sample_inv fbs_sample2_inv]
  by (simp add: fbs_sample_def fbs_sample2_def)

text \<open>
  C4. The population counts are cardinalities: \<open>cardinality\<close>, \<open>intersection_count\<close>,
  \<open>union_count\<close> and \<open>and_not_count\<close> return the number of indices of the set, of the
  intersection, of the union and of the difference, whenever the words of both sets
  together cannot overflow the \<open>u32\<close> total; \<open>intersects\<close> tells whether the
  intersection is non-empty.
\<close>

theorem fixed_bit_set_counts:
  assumes "fbs_inv s" "fbs_inv t" "64 * (fbs_num_words s + fbs_num_words t) < 2 ^ 32"
  shows "fbs_cardinality s = Inr (card (fbs_set s))
    \<and> fbs_intersection_count s t = Inr (card (fbs_set s \<inter> fbs_set t))
    \<and> fbs_union_count s t = Inr (card (fbs_set s \<union> fbs_set t))
    \<and> fbs_and_not_count s t = Inr (card (fbs_set s - fbs_set t))
    \<and> fbs_intersects s t = Inr (fbs_set s \<inter> fbs_set t \<noteq> {})"
  using assms by (intro conjI fbs_cardinality_ok fbs_intersection_count_ok fbs_union_count_ok
      fbs_and_not_count_ok fbs_intersects_ok) simp_all

theorem fixed_bit_set_counts_witness:
  "card (fbs_set fbs_sample) = 3 \<and> card (fbs_set fbs_sample \<union> fbs_set fbs_sample2) = 4"
proof -
  have "fbs_cardinality fbs_sample = Inr 3" by code_simp
  moreover have "count_ones (37 :: i64) = 3" "count_ones (1 :: i64) = 1" by code_simp+
  then have "fbs_union_count fbs_sample fbs_sample2 = Inr 4"
    by (simp add: fbs_union_count_def fbs_sample_def fbs_sample2_def upt_rec)
  ultimately show ?thesis
    using fixed_bit_set_counts [OF fbs_sample_inv fbs_sample2_inv]
    by (simp add: fbs_sample_def fbs_sample2_def)
qed

text \<open>
  C5. The searches return the nearest set bit: \<open>next_set_bit\<close> the least index of the set
  at or after the start (below the end, for the range form) or \<open>NO_MORE_DOCS\<close>,
  \<open>prev_set_bit\<close> the greatest at or before the index or \<open>None\<close>. The word-at-a-time scan
  with its groups of sixteen words never skips a set bit nor finds one that is not there.
\<close>

theorem fixed_bit_set_searches:
  assumes "fbs_inv s" "a < e" "e \<le> fbs_num_bits s"
  shows "fbs_next_set_bit_range s a e = Inr (doc_from (fbs_set s \<inter> {..<e}) a)
    \<and> fbs_next_set_bit s a = Inr (doc_from (fbs_set s) a)
    \<and> fbs_prev_set_bit s a = Inr (prev_upto (fbs_set s) a)"
  using assms by (intro conjI fbs_next_set_bit_range_ok fbs_next_set_bit_ok fbs_prev_set_bit_ok) simp_all

theorem fixed_bit_set_searches_witness:
  "doc_from (fbs_set fbs_sample) 3 = 64 \<and> prev_upto (fbs_set fbs_sample) 3 = Some 2"
proof -
  have "fbs_next_set_bit fbs_sample 3 = Inr 64" "fbs_prev_set_bit fbs_sample 3 = Inr (Some 2)"
    by code_simp+
  with fixed_bit_set_searches [OF fbs_sample_inv, of 3 60] show ?thesis by (simp add: fbs_sample_def)
qed

text \<open>
  C6. Growing: \<open>ensure_capacity\<close> to a size whose words fit in an array succeeds, keeps
  the set of indices and the invariant, and the new length exceeds the requested index
  and is at least the old length.
\<close>

theorem fixed_bit_set_ensure_capacity:
  assumes "fbs_inv s" "bits2words n < MAX_ARRAY_LENGTH" "length (fbs_bits s) \<le> MAX_ARRAY_LENGTH"
  shows "\<exists>s'. fbs_ensure_capacity s n = Inr s' \<and> fbs_inv s' \<and> fbs_set s' = fbs_set s
    \<and> n < fbs_num_bits s' \<and> fbs_num_bits s \<le> fbs_num_bits s'"
  by (rule fbs_ensure_capacity_ok [OF assms])

theorem fixed_bit_set_ensure_capacity_witness:
  "\<exists>s'. fbs_ensure_capacity fbs_sample2 1000 = Inr s' \<and> fbs_set s' = fbs_set fbs_sample2 \<and> 1000 < fbs_num_bits s'"
  using fixed_bit_set_ensure_capacity [OF fbs_sample2_inv, of 1000]
  by (auto simp: fbs_sample2_def bits2words_def MAX_ARRAY_LENGTH_def)

end
