(* ===== verification/Doc_Iter.thy ===== *)
theory Doc_Iter
  imports Fixed_Bit_Set
begin

text \<open>
  Iterators over document ids (\<^verbatim>\<open>search/doc_id_set_iterator.rs\<close> and the iterators of
  \<^verbatim>\<open>util/\<close>). A document id is an \<^verbatim>\<open>i32\<close>, modelled by \<^typ>\<open>int\<close>; the sum that leaves the
  range of \<^verbatim>\<open>i32\<close> is the panic it is with overflow checks. The trait
  \<^verbatim>\<open>DocIdSetIterator\<close> is the record \<open>disi_ops\<close> of its methods, and the locale \<open>disi\<close> its
  contract: the iterator stands on \<open>-1\<close>, on a document of its set or on
  \<^verbatim>\<open>NO_MORE_DOCS\<close>, and moves to the least document at or after the target.
\<close>

section \<open>The trait\<close>

record 's disi_ops =
  d_doc_id :: "'s \<Rightarrow> int"
  d_next_doc :: "'s \<Rightarrow> (int \<times> 's) res"
  d_advance :: "'s \<Rightarrow> int \<Rightarrow> (int \<times> 's) res"
  d_cost :: "'s \<Rightarrow> int res"

section \<open>Iterators that hold no documents: \<open>EmptyDISI\<close>, \<open>AllDISI\<close>, \<open>RangeDISI\<close>, \<open>MinDocIterator\<close>\<close>

record empty_disi =
  ed_exhausted :: bool

definition empty_new :: empty_disi where
  "empty_new = \<lparr>ed_exhausted = False\<rparr>"

definition empty_doc_id :: "empty_disi \<Rightarrow> int" where
  "empty_doc_id s = (if ed_exhausted s then NO_MORE else -1)"

definition empty_next_doc :: "empty_disi \<Rightarrow> (int \<times> empty_disi) res" where
  "empty_next_doc s = dassert (\<not> ed_exhausted s) (Inr (NO_MORE, s\<lparr>ed_exhausted := True\<rparr>))"

definition empty_advance :: "empty_disi \<Rightarrow> int \<Rightarrow> (int \<times> empty_disi) res" where
  "empty_advance s target =
     dassert (\<not> ed_exhausted s) (dassert (0 \<le> target) (Inr (NO_MORE, s\<lparr>ed_exhausted := True\<rparr>)))"

definition empty_disi_ops :: "empty_disi disi_ops" where
  "empty_disi_ops = \<lparr>d_doc_id = empty_doc_id, d_next_doc = empty_next_doc,
     d_advance = empty_advance, d_cost = (\<lambda>s. Inr 0)\<rparr>"

record all_disi =
  ad_doc :: int
  ad_max_doc :: int

definition all_new :: "int \<Rightarrow> all_disi" where
  "all_new max_doc = \<lparr>ad_doc = -1, ad_max_doc = max_doc\<rparr>"

definition all_advance :: "all_disi \<Rightarrow> int \<Rightarrow> (int \<times> all_disi) res" where
  "all_advance s target =
     (let doc = (if ad_max_doc s \<le> target then NO_MORE else target)
      in Inr (doc, s\<lparr>ad_doc := doc\<rparr>))"

definition all_next_doc :: "all_disi \<Rightarrow> (int \<times> all_disi) res" where
  "all_next_doc s = rbind (i32_add (ad_doc s) 1) (\<lambda>t.
     rbind (all_advance s t) (\<lambda>(_, s). Inr (ad_doc s, s)))"

definition all_disi_ops :: "all_disi disi_ops" where
  "all_disi_ops = \<lparr>d_doc_id = ad_doc, d_next_doc = all_next_doc,
     d_advance = all_advance, d_cost = (\<lambda>s. Inr (ad_max_doc s))\<rparr>"

record range_disi =
  rd_doc :: int
  rd_min_doc :: int
  rd_max_doc :: int

definition range_new :: "int \<Rightarrow> int \<Rightarrow> range_disi res" where
  "range_new min_doc max_doc =
     (if max_doc \<le> min_doc then Inl IllegalArgument
      else if min_doc < 0 then Inl IllegalArgument
      else Inr \<lparr>rd_doc = -1, rd_min_doc = min_doc, rd_max_doc = max_doc\<rparr>)"

definition range_advance :: "range_disi \<Rightarrow> int \<Rightarrow> (int \<times> range_disi) res" where
  "range_advance s target =
     (let doc = (if target < rd_min_doc s then rd_min_doc s
                 else if rd_max_doc s \<le> target then NO_MORE else target)
      in Inr (doc, s\<lparr>rd_doc := doc\<rparr>))"

definition range_next_doc :: "range_disi \<Rightarrow> (int \<times> range_disi) res" where
  "range_next_doc s = rbind (i32_add (rd_doc s) 1) (range_advance s)"

definition range_disi_ops :: "range_disi disi_ops" where
  "range_disi_ops = \<lparr>d_doc_id = rd_doc, d_next_doc = range_next_doc,
     d_advance = range_advance, d_cost = (\<lambda>s. Inr (rd_max_doc s - rd_min_doc s))\<rparr>"

record min_doc_iterator =
  md_segment_min_doc :: int
  md_max_doc :: int
  md_doc :: int

definition min_doc_new :: "int \<Rightarrow> int \<Rightarrow> min_doc_iterator" where
  "min_doc_new segment_min_doc max_doc =
     \<lparr>md_segment_min_doc = segment_min_doc, md_max_doc = max_doc, md_doc = -1\<rparr>"

definition min_doc_advance :: "min_doc_iterator \<Rightarrow> int \<Rightarrow> (int \<times> min_doc_iterator) res" where
  "min_doc_advance s target =
     dassert (md_doc s < target) (
       let doc = (if md_doc s = -1 then max target (md_segment_min_doc s) else target);
           doc = (if md_max_doc s \<le> doc then NO_MORE else doc)
       in Inr (doc, s\<lparr>md_doc := doc\<rparr>))"

definition min_doc_next_doc :: "min_doc_iterator \<Rightarrow> (int \<times> min_doc_iterator) res" where
  "min_doc_next_doc s = rbind (i32_add (md_doc s) 1) (min_doc_advance s)"

definition min_doc_ops :: "min_doc_iterator disi_ops" where
  "min_doc_ops = \<lparr>d_doc_id = md_doc, d_next_doc = min_doc_next_doc,
     d_advance = min_doc_advance, d_cost = (\<lambda>s. i32_add (md_max_doc s) (- md_segment_min_doc s))\<rparr>"

section \<open>The contract\<close>

text \<open>
  \<open>moves ops good docs s r t\<close>: the call with result \<open>r\<close> leaves the iterator \<open>s\<close> on the
  least document of its set at or after \<open>t\<close>, which it returns.
\<close>

definition moves :: "'s disi_ops \<Rightarrow> ('s \<Rightarrow> bool) \<Rightarrow> ('s \<Rightarrow> nat set) \<Rightarrow> 's \<Rightarrow> (int \<times> 's) res \<Rightarrow> int \<Rightarrow> bool" where
  "moves ops good docs s r t \<longleftrightarrow>
     (\<exists>s'. r = Inr (int (doc_from (docs s) (nat t)), s') \<and> good s' \<and> docs s' = docs s
       \<and> d_doc_id ops s' = int (doc_from (docs s) (nat t)))"

locale disi =
  fixes ops :: "'s disi_ops" and good :: "'s \<Rightarrow> bool" and docs :: "'s \<Rightarrow> nat set"
  assumes doc_id_range: "good s \<Longrightarrow> -1 \<le> d_doc_id ops s \<and> d_doc_id ops s \<le> NO_MORE"
    and docs_bound: "good s \<Longrightarrow> docs s \<subseteq> {..<NO_MORE_DOCS}"
    and advance: "good s \<Longrightarrow> d_doc_id ops s < t \<Longrightarrow> t \<le> NO_MORE \<Longrightarrow>
        moves ops good docs s (d_advance ops s t) t"
    and next_doc: "good s \<Longrightarrow> d_doc_id ops s < NO_MORE \<Longrightarrow>
        moves ops good docs s (d_next_doc ops s) (d_doc_id ops s + 1)"

lemma doc_from_cases:
  obtains (found) "doc_from S a \<in> S" "a \<le> doc_from S a" "\<And>j. a \<le> j \<Longrightarrow> j < doc_from S a \<Longrightarrow> j \<notin> S"
  | (none) "doc_from S a = NO_MORE_DOCS" "\<And>j. a \<le> j \<Longrightarrow> j \<notin> S"
proof (cases "next_from S a")
  case None
  then show ?thesis by (intro none) (auto simp: doc_from_def, auto simp: next_from_None)
next
  case (Some r)
  then have "doc_from S a = r" by (simp add: doc_from_def)
  with Some show ?thesis by (intro found) (simp_all add: next_from_Some)
qed

lemma doc_fromI:
  "r \<in> S \<Longrightarrow> a \<le> r \<Longrightarrow> (\<And>j. a \<le> j \<Longrightarrow> j < r \<Longrightarrow> j \<notin> S) \<Longrightarrow> doc_from S a = r"
  using next_from_Some [of S a r] by (simp add: doc_from_def)

lemma doc_from_noneI: "(\<And>j. a \<le> j \<Longrightarrow> j \<notin> S) \<Longrightarrow> doc_from S a = NO_MORE_DOCS"
  using next_from_None [of S a] not_le by (auto simp: doc_from_def)

lemma doc_from_bounds:
  assumes "S \<subseteq> {..<NO_MORE_DOCS}" "a \<le> NO_MORE_DOCS"
  shows "a \<le> doc_from S a" "doc_from S a \<le> NO_MORE_DOCS"
  using assms by (cases rule: doc_from_cases [of S a]; auto)+

lemma doc_from_interval:
  assumes "hi \<le> NO_MORE_DOCS"
  shows "doc_from {lo..<hi} a = (if max a lo < hi then max a lo else NO_MORE_DOCS)"
  using assms by (auto intro!: doc_fromI doc_from_noneI)

section \<open>The simple iterators keep the contract\<close>

definition empty_inv :: "empty_disi \<Rightarrow> bool" where
  "empty_inv s = True"

interpretation empty_it: disi empty_disi_ops empty_inv "\<lambda>_. {}"
proof
  fix s :: empty_disi and t :: int
  have ends: "moves empty_disi_ops empty_inv (\<lambda>_. {}) s (Inr (NO_MORE, s\<lparr>ed_exhausted := True\<rparr>)) t" for t
    unfolding moves_def
    by (rule exI [of _ "s\<lparr>ed_exhausted := True\<rparr>"])
      (simp add: empty_inv_def empty_disi_ops_def empty_doc_id_def doc_from_noneI)
  show "-1 \<le> d_doc_id empty_disi_ops s \<and> d_doc_id empty_disi_ops s \<le> NO_MORE"
    by (simp add: empty_disi_ops_def empty_doc_id_def)
  show "{} \<subseteq> {..<NO_MORE_DOCS}" by simp
  show "moves empty_disi_ops empty_inv (\<lambda>_. {}) s (d_advance empty_disi_ops s t) t"
    if "d_doc_id empty_disi_ops s < t" "t \<le> NO_MORE"
    using ends [of t] that by (simp add: empty_disi_ops_def empty_advance_def empty_doc_id_def split: if_splits)
  show "moves empty_disi_ops empty_inv (\<lambda>_. {}) s (d_next_doc empty_disi_ops s) (d_doc_id empty_disi_ops s + 1)"
    if "d_doc_id empty_disi_ops s < NO_MORE"
    using ends that by (simp add: empty_disi_ops_def empty_next_doc_def empty_doc_id_def split: if_splits)
qed

definition all_inv :: "all_disi \<Rightarrow> bool" where
  "all_inv s \<longleftrightarrow> -1 \<le> ad_doc s \<and> ad_doc s \<le> NO_MORE \<and> 0 \<le> ad_max_doc s \<and> ad_max_doc s \<le> NO_MORE"

definition all_docs :: "all_disi \<Rightarrow> nat set" where
  "all_docs s = {0..<nat (ad_max_doc s)}"

lemma all_advance_moves:
  assumes "all_inv s" "0 \<le> t" "t \<le> NO_MORE"
  shows "moves all_disi_ops all_inv all_docs s (all_advance s t) t"
proof -
  have "nat (ad_max_doc s) \<le> NO_MORE_DOCS" using assms by (simp add: all_inv_def nat_le_iff)
  from doc_from_interval [OF this, of 0 "nat t"] assms show ?thesis
    by (auto simp: moves_def all_advance_def all_docs_def all_disi_ops_def all_inv_def Let_def)
qed

interpretation all_it: disi all_disi_ops all_inv all_docs
proof
  fix s t assume inv: "all_inv s"
  show "-1 \<le> d_doc_id all_disi_ops s \<and> d_doc_id all_disi_ops s \<le> NO_MORE"
    using inv by (simp add: all_disi_ops_def all_inv_def)
  show "all_docs s \<subseteq> {..<NO_MORE_DOCS}" using inv by (auto simp: all_docs_def all_inv_def)
  show "moves all_disi_ops all_inv all_docs s (d_advance all_disi_ops s t) t"
    if "d_doc_id all_disi_ops s < t" "t \<le> NO_MORE"
    using all_advance_moves [OF inv, of t] that inv by (simp add: all_disi_ops_def all_inv_def)
  show "moves all_disi_ops all_inv all_docs s (d_next_doc all_disi_ops s) (d_doc_id all_disi_ops s + 1)"
    if "d_doc_id all_disi_ops s < NO_MORE"
    using all_advance_moves [OF inv, of "ad_doc s + 1"] that inv
    by (auto simp: all_disi_ops_def all_inv_def all_next_doc_def moves_def)
qed

definition range_inv :: "range_disi \<Rightarrow> bool" where
  "range_inv s \<longleftrightarrow> -1 \<le> rd_doc s \<and> rd_doc s \<le> NO_MORE \<and> 0 \<le> rd_min_doc s
     \<and> rd_min_doc s < rd_max_doc s \<and> rd_max_doc s \<le> NO_MORE"

definition range_docs :: "range_disi \<Rightarrow> nat set" where
  "range_docs s = {nat (rd_min_doc s)..<nat (rd_max_doc s)}"

lemma range_advance_moves:
  assumes "range_inv s" "0 \<le> t" "t \<le> NO_MORE"
  shows "moves range_disi_ops range_inv range_docs s (range_advance s t) t"
proof -
  have "nat (rd_max_doc s) \<le> NO_MORE_DOCS" using assms by (simp add: range_inv_def nat_le_iff)
  from doc_from_interval [OF this, of "nat (rd_min_doc s)" "nat t"] assms show ?thesis
    by (auto simp: moves_def range_advance_def range_docs_def range_disi_ops_def range_inv_def Let_def max_def)
qed

interpretation range_it: disi range_disi_ops range_inv range_docs
proof
  fix s t assume inv: "range_inv s"
  show "-1 \<le> d_doc_id range_disi_ops s \<and> d_doc_id range_disi_ops s \<le> NO_MORE"
    using inv by (simp add: range_disi_ops_def range_inv_def)
  show "range_docs s \<subseteq> {..<NO_MORE_DOCS}" using inv by (auto simp: range_docs_def range_inv_def)
  show "moves range_disi_ops range_inv range_docs s (d_advance range_disi_ops s t) t"
    if "d_doc_id range_disi_ops s < t" "t \<le> NO_MORE"
    using range_advance_moves [OF inv, of t] that inv by (simp add: range_disi_ops_def range_inv_def)
  show "moves range_disi_ops range_inv range_docs s (d_next_doc range_disi_ops s) (d_doc_id range_disi_ops s + 1)"
    if "d_doc_id range_disi_ops s < NO_MORE"
    using range_advance_moves [OF inv, of "rd_doc s + 1"] that inv
    by (auto simp: range_disi_ops_def range_inv_def range_next_doc_def)
qed

text \<open>\<open>MinDocIterator\<close>: before the first move it may stand below its minimum, afterwards not.\<close>

definition min_doc_inv :: "min_doc_iterator \<Rightarrow> bool" where
  "min_doc_inv s \<longleftrightarrow> 0 \<le> md_segment_min_doc s \<and> md_segment_min_doc s \<le> NO_MORE \<and> 0 \<le> md_max_doc s \<and> md_max_doc s \<le> NO_MORE
     \<and> (md_doc s = -1 \<or> md_segment_min_doc s \<le> md_doc s) \<and> md_doc s \<le> NO_MORE"

definition min_doc_docs :: "min_doc_iterator \<Rightarrow> nat set" where
  "min_doc_docs s = {nat (md_segment_min_doc s)..<nat (md_max_doc s)}"

lemma min_doc_advance_moves:
  assumes "min_doc_inv s" "md_doc s < t" "t \<le> NO_MORE"
  shows "moves min_doc_ops min_doc_inv min_doc_docs s (min_doc_advance s t) t"
proof -
  have "nat (md_max_doc s) \<le> NO_MORE_DOCS" using assms by (simp add: min_doc_inv_def nat_le_iff)
  from doc_from_interval [OF this, of "nat (md_segment_min_doc s)" "nat t"] assms show ?thesis
    by (auto simp: moves_def min_doc_advance_def min_doc_docs_def min_doc_ops_def min_doc_inv_def Let_def max_def)
qed

interpretation min_doc_it: disi min_doc_ops min_doc_inv min_doc_docs
proof
  fix s t assume inv: "min_doc_inv s"
  show "-1 \<le> d_doc_id min_doc_ops s \<and> d_doc_id min_doc_ops s \<le> NO_MORE"
    using inv by (auto simp: min_doc_ops_def min_doc_inv_def)
  show "min_doc_docs s \<subseteq> {..<NO_MORE_DOCS}" using inv by (auto simp: min_doc_docs_def min_doc_inv_def)
  show "moves min_doc_ops min_doc_inv min_doc_docs s (d_advance min_doc_ops s t) t"
    if "d_doc_id min_doc_ops s < t" "t \<le> NO_MORE"
    using min_doc_advance_moves [OF inv, of t] that by (simp add: min_doc_ops_def)
  show "moves min_doc_ops min_doc_inv min_doc_docs s (d_next_doc min_doc_ops s) (d_doc_id min_doc_ops s + 1)"
    if "d_doc_id min_doc_ops s < NO_MORE"
    using min_doc_advance_moves [OF inv, of "md_doc s + 1"] that inv
    by (auto simp: min_doc_ops_def min_doc_inv_def min_doc_next_doc_def)
qed

section \<open>Clients of the contract\<close>

text \<open>
  \<open>slow_advance\<close>, the default method of the trait: \<open>next_doc\<close> until the target is
  reached. The loop need not end for an arbitrary iterator.
\<close>

partial_function (option) slow_loop ::
  "'s disi_ops \<Rightarrow> 's \<Rightarrow> int \<Rightarrow> (int \<times> 's) res option" where
  "slow_loop ops s target =
     (case d_next_doc ops s of
        Inl e \<Rightarrow> Some (Inl e)
      | Inr (doc, s') \<Rightarrow> if target \<le> doc then Some (Inr (doc, s')) else slow_loop ops s' target)"

definition slow_advance :: "'s disi_ops \<Rightarrow> 's \<Rightarrow> int \<Rightarrow> (int \<times> 's) res option" where
  "slow_advance ops s target =
     (if d_doc_id ops s < target then slow_loop ops s target else Some (Inl Panic))"

text \<open>
  The loop of \<open>BitSet::default_or\<close> and of the iterator-driven operations of the bit sets:
  every document is passed to the body until one satisfies the condition to stop.
\<close>

partial_function (option) doc_loop ::
  "'s disi_ops \<Rightarrow> (nat \<Rightarrow> bool) \<Rightarrow> (nat \<Rightarrow> 'b \<Rightarrow> 'b res) \<Rightarrow> 'b \<Rightarrow> 's \<Rightarrow> ('b \<times> 's) res option" where
  "doc_loop ops stop f b s =
     (case d_next_doc ops s of
        Inl e \<Rightarrow> Some (Inl e)
      | Inr (doc, s') \<Rightarrow>
          (case usize_of_i32 doc of
             Inl e \<Rightarrow> Some (Inl e)
           | Inr d \<Rightarrow>
               if stop d then Some (Inr (b, s'))
               else (case f d b of Inl e \<Rightarrow> Some (Inl e) | Inr b' \<Rightarrow> doc_loop ops stop f b' s')))"

definition check_unpositioned :: "'s disi_ops \<Rightarrow> 's \<Rightarrow> unit res" where
  "check_unpositioned ops s = (if d_doc_id ops s \<noteq> -1 then Inl IllegalState else Inr ())"

definition default_or ::
  "'s disi_ops \<Rightarrow> ('b \<Rightarrow> nat \<Rightarrow> 'b res) \<Rightarrow> 'b \<Rightarrow> 's \<Rightarrow> ('b \<times> 's) res option" where
  "default_or ops set_at b s =
     (case check_unpositioned ops s of
        Inl e \<Rightarrow> Some (Inl e)
      | Inr _ \<Rightarrow> doc_loop ops (\<lambda>d. d = NO_MORE_DOCS) (\<lambda>d b. set_at b d) b s)"

context disi
begin

lemma docs_lt: "good s \<Longrightarrow> j \<in> docs s \<Longrightarrow> j < NO_MORE_DOCS"
  using docs_bound by blast

lemma next_docE:
  assumes "good s" "d_doc_id ops s < NO_MORE"
  obtains r s' where "d_next_doc ops s = Inr (int r, s')" "good s'" "docs s' = docs s"
    "d_doc_id ops s' = int r" "r = doc_from (docs s) (nat (d_doc_id ops s + 1))"
    "d_doc_id ops s < int r" "r \<le> NO_MORE_DOCS"
proof -
  let ?r = "doc_from (docs s) (nat (d_doc_id ops s + 1))"
  have "nat (d_doc_id ops s + 1) \<le> ?r" "?r \<le> NO_MORE_DOCS"
    by (rule doc_from_bounds [OF docs_bound [OF assms(1)]], use assms(2) in \<open>simp add: nat_le_iff\<close>)+
  with next_doc [OF assms] doc_id_range [OF assms(1)] show thesis
    by (auto simp: moves_def intro: that)
qed

lemma advanceE:
  assumes "good s" "d_doc_id ops s < t" "t \<le> NO_MORE"
  obtains r s' where "d_advance ops s t = Inr (int r, s')" "good s'" "docs s' = docs s"
    "d_doc_id ops s' = int r" "r = doc_from (docs s) (nat t)" "t \<le> int r" "r \<le> NO_MORE_DOCS"
proof -
  let ?r = "doc_from (docs s) (nat t)"
  have "nat t \<le> ?r" "?r \<le> NO_MORE_DOCS"
    by (rule doc_from_bounds [OF docs_bound [OF assms(1)]], use assms(3) in \<open>simp add: nat_le_iff\<close>)+
  with advance [OF assms] show thesis
    by (auto simp: moves_def intro: that)
qed

lemma slow_loop_moves:
  assumes "good s" "d_doc_id ops s < t" "t \<le> NO_MORE"
  shows "\<exists>r. slow_loop ops s t = Some r \<and> moves ops good docs s r t"
  using assms
proof (induction "nat (NO_MORE - d_doc_id ops s)" arbitrary: s rule: less_induct)
  case less
  then have lt: "d_doc_id ops s < NO_MORE" by simp
  obtain r s' where n: "d_next_doc ops s = Inr (int r, s')" "good s'" "docs s' = docs s"
      "d_doc_id ops s' = int r" "r = doc_from (docs s) (nat (d_doc_id ops s + 1))"
      "d_doc_id ops s < int r" "r \<le> NO_MORE_DOCS"
    using next_docE [OF less.prems(1) lt] by blast
  show ?case
  proof (cases "t \<le> int r")
    case True
    have "doc_from (docs s) (nat t) = r"
    proof (cases rule: doc_from_cases [of "docs s" "nat (d_doc_id ops s + 1)"])
      case found
      with n True less.prems(2) doc_id_range [OF less.prems(1)] show ?thesis
        by (intro doc_fromI) (auto simp: nat_le_iff)
    next
      case none
      have "j \<notin> docs s" if "nat t \<le> j" for j
        using none(2) [of j] that less.prems(2) by (simp add: nat_le_iff)
      then show ?thesis using doc_from_noneI n(5) none(1) by metis
    qed
    then show ?thesis
      using n True by (subst slow_loop.simps) (auto simp: moves_def)
  next
    case False
    have "nat (NO_MORE - d_doc_id ops s') < nat (NO_MORE - d_doc_id ops s)" using n(4,6) lt by simp
    from less.hyps [OF this n(2)] False less.prems(3) n(4)
    obtain q where q: "slow_loop ops s' t = Some q" "moves ops good docs s' q t" by auto
    moreover from q(2) n(3) have "moves ops good docs s q t" by (simp add: moves_def)
    ultimately show ?thesis using n(1) False by (subst slow_loop.simps) auto
  qed
qed

lemma slow_advance_moves:
  "good s \<Longrightarrow> d_doc_id ops s < t \<Longrightarrow> t \<le> NO_MORE \<Longrightarrow>
   \<exists>r. slow_advance ops s t = Some r \<and> moves ops good docs s r t"
  using slow_loop_moves by (simp add: slow_advance_def)

text \<open>
  The loop over all documents: an invariant that holds of the documents passed so far
  and is kept by the body holds of all the documents beyond the start.
\<close>

lemma doc_loop_rule:
  assumes "good s" "d_doc_id ops s < NO_MORE" "P D b" "\<forall>e\<in>D. int e \<le> d_doc_id ops s"
    and n: "n \<le> NO_MORE_DOCS" "\<And>d. d \<le> NO_MORE_DOCS \<Longrightarrow> stop d \<longleftrightarrow> n \<le> d"
    and step: "\<And>d D b. d \<in> docs s \<Longrightarrow> d < n \<Longrightarrow> \<forall>e\<in>D. e < d \<Longrightarrow> P D b \<Longrightarrow>
      \<exists>b'. f d b = Inr b' \<and> P (insert d D) b'"
  shows "\<exists>b' s'. doc_loop ops stop f b s = Some (Inr (b', s')) \<and>
    P (D \<union> {d \<in> docs s. d_doc_id ops s < int d \<and> d < n}) b'"
  using assms(1-4) step
proof (induction "nat (NO_MORE - d_doc_id ops s)" arbitrary: s b D rule: less_induct)
  case less
  let ?rest = "{d \<in> docs s. d_doc_id ops s < int d \<and> d < n}"
  obtain r s' where m: "d_next_doc ops s = Inr (int r, s')" "good s'" "docs s' = docs s"
      "d_doc_id ops s' = int r" "r = doc_from (docs s) (nat (d_doc_id ops s + 1))"
      "d_doc_id ops s < int r" "r \<le> NO_MORE_DOCS"
    using next_docE [OF less.prems(1,2)] by blast
  have u: "usize_of_i32 (int r) = Inr r" by (simp add: usize_of_i32_def)
  have beyond: "d_doc_id ops s < int j \<longleftrightarrow> nat (d_doc_id ops s + 1) \<le> j" for j by (simp add: nat_le_iff) linarith
  have least: "j \<notin> docs s \<or> r \<le> j" if "d_doc_id ops s < int j" for j
    using that docs_lt [OF less.prems(1), of j] unfolding beyond m(5)
    by (cases rule: doc_from_cases [of "docs s" "nat (d_doc_id ops s + 1)"]) (use not_le in blast)+
  show ?case
  proof (cases "n \<le> r")
    case True
    then have e: "?rest = {}" using least by fastforce
    have "stop r" using True n(2) m(7) by simp
    then show ?thesis unfolding e using m(1) u less.prems(3) by (subst doc_loop.simps) simp
  next
    case False
    then have r: "r \<in> docs s" "r < n"
      using m(5,7) n(1) by (cases rule: doc_from_cases [of "docs s" "nat (d_doc_id ops s + 1)"]; simp)+
    have new: "\<forall>e\<in>D. e < r" using less.prems(4) m(6) by force
    from less.prems(5) [OF r new less.prems(3)] obtain b' where b': "f r b = Inr b'" "P (insert r D) b'" by blast
    have lt: "nat (NO_MORE - d_doc_id ops s') < nat (NO_MORE - d_doc_id ops s)" using m(4,6) less.prems(2) by simp
    have "\<exists>b'' s''. doc_loop ops stop f b' s' = Some (Inr (b'', s'')) \<and>
        P (insert r D \<union> {d \<in> docs s'. d_doc_id ops s' < int d \<and> d < n}) b''"
      by (rule less.hyps [OF lt m(2) _ b'(2)]) (use m(3,4) r(2) n(1) new less.prems(5) in auto)
    moreover have "insert r D \<union> {d \<in> docs s'. d_doc_id ops s' < int d \<and> d < n} = D \<union> ?rest"
      using m(3,4,6) r least by (auto simp: le_less)
    moreover have "\<not> stop r" using False n(2) m(7) by simp
    ultimately show ?thesis using m(1) u b'(1) by (subst doc_loop.simps) auto
  qed
qed

lemma doc_loop_all:
  assumes "good s" "d_doc_id ops s = -1" "P {} b"
    and "\<And>d D b. d \<in> docs s \<Longrightarrow> P D b \<Longrightarrow> \<exists>b'. f d b = Inr b' \<and> P (insert d D) b'"
  shows "\<exists>b' s'. doc_loop ops (\<lambda>d. d = NO_MORE_DOCS) f b s = Some (Inr (b', s')) \<and> P (docs s) b'"
proof -
  have "\<exists>b' s'. doc_loop ops (\<lambda>d. d = NO_MORE_DOCS) f b s = Some (Inr (b', s')) \<and>
      P ({} \<union> {d \<in> docs s. d_doc_id ops s < int d \<and> d < NO_MORE_DOCS}) b'"
    by (rule doc_loop_rule [OF assms(1)]) (use assms in \<open>auto simp: NO_MORE_DOCS_def\<close>)
  moreover have "{d \<in> docs s. d_doc_id ops s < int d \<and> d < NO_MORE_DOCS} = docs s"
    using assms(2) docs_lt [OF assms(1)] by auto
  ultimately show ?thesis by simp
qed

end

end
