(* ===== verification/Bit_Sets.thy ===== *)
theory Bit_Sets
  imports Doc_Iter
begin

text \<open>
  The trait \<^verbatim>\<open>BitSet\<close> (\<^verbatim>\<open>util/bit_set.rs\<close>) as the record \<open>bit_set_ops\<close> of its methods and
  the locale \<open>bit_set\<close> as its contract, the iterator over a bit set
  (\<^verbatim>\<open>util/bit_set_iterator.rs\<close>), which keeps the contract of iterators for every bit set
  that keeps that of bit sets, the iterator with a document base
  (\<^verbatim>\<open>util/doc_base_bit_set_iterator.rs\<close>) and the iterator-driven operations of
  \<^verbatim>\<open>FixedBitSet\<close>.
\<close>

section \<open>The trait and its contract\<close>

record 'b bit_set_ops =
  b_length :: "'b \<Rightarrow> nat"
  b_get :: "'b \<Rightarrow> nat \<Rightarrow> bool res"
  b_set :: "'b \<Rightarrow> nat \<Rightarrow> 'b res"
  b_get_and_set :: "'b \<Rightarrow> nat \<Rightarrow> (bool \<times> 'b) res"
  b_clear_with_index :: "'b \<Rightarrow> nat \<Rightarrow> 'b res"
  b_clear_range :: "'b \<Rightarrow> nat \<Rightarrow> nat \<Rightarrow> 'b res"
  b_cardinality :: "'b \<Rightarrow> nat res"
  b_prev_set_bit :: "'b \<Rightarrow> nat \<Rightarrow> nat option res"
  b_next_set_bit_range :: "'b \<Rightarrow> nat \<Rightarrow> nat \<Rightarrow> nat res"

text \<open>Default methods of the trait.\<close>

definition b_next_set_bit :: "'b bit_set_ops \<Rightarrow> 'b \<Rightarrow> nat \<Rightarrow> nat res" where
  "b_next_set_bit ops b index = b_next_set_bit_range ops b index (b_length ops b)"

definition b_clear :: "'b bit_set_ops \<Rightarrow> 'b \<Rightarrow> 'b res" where
  "b_clear ops b = b_clear_range ops b 0 (b_length ops b)"

definition b_default_or ::
  "'b bit_set_ops \<Rightarrow> 's disi_ops \<Rightarrow> 'b \<Rightarrow> 's \<Rightarrow> ('b \<times> 's) res option" where
  "b_default_or ops iops b it = default_or iops (b_set ops) b it"

definition bs_becomes ::
  "'b bit_set_ops \<Rightarrow> ('b \<Rightarrow> bool) \<Rightarrow> ('b \<Rightarrow> nat set) \<Rightarrow> 'b \<Rightarrow> 'b res \<Rightarrow> nat set \<Rightarrow> bool" where
  "bs_becomes ops good bits b r S \<longleftrightarrow>
     (\<exists>b'. r = Inr b' \<and> good b' \<and> b_length ops b' = b_length ops b \<and> bits b' = S)"

locale bit_set =
  fixes ops :: "'b bit_set_ops" and good :: "'b \<Rightarrow> bool" and bits :: "'b \<Rightarrow> nat set"
  assumes bits_bound: "good b \<Longrightarrow> bits b \<subseteq> {..<b_length ops b}"
    and get: "good b \<Longrightarrow> i < b_length ops b \<Longrightarrow> b_get ops b i = Inr (i \<in> bits b)"
    and set: "good b \<Longrightarrow> i < b_length ops b \<Longrightarrow>
        bs_becomes ops good bits b (b_set ops b i) (insert i (bits b))"
    and get_and_set: "good b \<Longrightarrow> i < b_length ops b \<Longrightarrow>
        \<exists>b'. b_get_and_set ops b i = Inr (i \<in> bits b, b') \<and>
          bs_becomes ops good bits b (Inr b') (insert i (bits b))"
    and clear_with_index: "good b \<Longrightarrow> i < b_length ops b \<Longrightarrow>
        bs_becomes ops good bits b (b_clear_with_index ops b i) (bits b - {i})"
    and clear_range: "good b \<Longrightarrow> lo < b_length ops b \<Longrightarrow> hi \<le> b_length ops b \<Longrightarrow>
        bs_becomes ops good bits b (b_clear_range ops b lo hi) (bits b - {lo..<hi})"
    and cardinality: "good b \<Longrightarrow> b_cardinality ops b = Inr (card (bits b))"
    and prev_set_bit: "good b \<Longrightarrow> i < b_length ops b \<Longrightarrow>
        b_prev_set_bit ops b i = Inr (prev_upto (bits b) i)"
    and next_set_bit_range: "good b \<Longrightarrow> lo < hi \<Longrightarrow> hi \<le> b_length ops b \<Longrightarrow>
        b_next_set_bit_range ops b lo hi = Inr (doc_from (bits b \<inter> {..<hi}) lo)"

section \<open>The iterator over a bit set\<close>

record 'b bit_set_iterator =
  bi_bits :: 'b
  bi_length :: int
  bi_cost :: int
  bi_doc :: int

definition bsi_new :: "'b bit_set_ops \<Rightarrow> 'b \<Rightarrow> int \<Rightarrow> 'b bit_set_iterator res" where
  "bsi_new ops bits cost =
     (if cost < 0 then Inl IllegalArgument
      else rbind (i32_of_usize (b_length ops bits)) (\<lambda>len.
        Inr \<lparr>bi_bits = bits, bi_length = len, bi_cost = cost, bi_doc = -1\<rparr>))"

definition bsi_advance ::
  "'b bit_set_ops \<Rightarrow> 'b bit_set_iterator \<Rightarrow> int \<Rightarrow> (int \<times> 'b bit_set_iterator) res" where
  "bsi_advance ops it target =
     (if bi_length it \<le> target then Inr (NO_MORE, it\<lparr>bi_doc := NO_MORE\<rparr>)
      else rbind (b_next_set_bit ops (bi_bits it) (nat (target mod 2 ^ 64))) (\<lambda>r.
        Inr (as_i32 r, it\<lparr>bi_doc := as_i32 r\<rparr>)))"

definition bsi_next_doc ::
  "'b bit_set_ops \<Rightarrow> 'b bit_set_iterator \<Rightarrow> (int \<times> 'b bit_set_iterator) res" where
  "bsi_next_doc ops it = rbind (i32_add (bi_doc it) 1) (bsi_advance ops it)"

definition bsi_set_doc_id :: "'b bit_set_iterator \<Rightarrow> int \<Rightarrow> 'b bit_set_iterator" where
  "bsi_set_doc_id it doc_id = it\<lparr>bi_doc := doc_id\<rparr>"

lemma bsi_set_doc_id_fields [simp]:
  "bi_doc (bsi_set_doc_id it d) = d" "bi_bits (bsi_set_doc_id it d) = bi_bits it"
  by (simp_all add: bsi_set_doc_id_def)

definition bsi_ops :: "'b bit_set_ops \<Rightarrow> 'b bit_set_iterator disi_ops" where
  "bsi_ops ops = \<lparr>d_doc_id = bi_doc, d_next_doc = bsi_next_doc ops,
     d_advance = bsi_advance ops, d_cost = (\<lambda>it. Inr (bi_cost it))\<rparr>"

definition bsi_inv :: "'b bit_set_ops \<Rightarrow> ('b \<Rightarrow> bool) \<Rightarrow> 'b bit_set_iterator \<Rightarrow> bool" where
  "bsi_inv ops good it \<longleftrightarrow> good (bi_bits it) \<and> bi_length it = int (b_length ops (bi_bits it))
     \<and> b_length ops (bi_bits it) \<le> NO_MORE_DOCS \<and> -1 \<le> bi_doc it \<and> bi_doc it \<le> NO_MORE"

definition bsi_docs :: "('b \<Rightarrow> nat set) \<Rightarrow> 'b bit_set_iterator \<Rightarrow> nat set" where
  "bsi_docs bits it = bits (bi_bits it)"

context bit_set
begin

lemma next_set_bit:
  assumes "good b" "i < b_length ops b"
  shows "b_next_set_bit ops b i = Inr (doc_from (bits b) i)"
proof -
  have "bits b \<inter> {..<b_length ops b} = bits b" using bits_bound [OF assms(1)] by auto
  with next_set_bit_range [OF assms le_refl] show ?thesis by (simp add: b_next_set_bit_def)
qed

lemma clear_all:
  assumes "good b" "0 < b_length ops b"
  shows "bs_becomes ops good bits b (b_clear ops b) {}"
proof -
  have "bits b - {0..<b_length ops b} = {}" using bits_bound [OF assms(1)] by auto
  with clear_range [OF assms le_refl] show ?thesis by (simp add: b_clear_def)
qed

lemma bsi_advance_moves:
  assumes inv: "bsi_inv ops good it" and t: "0 \<le> t" "t \<le> NO_MORE"
  shows "moves (bsi_ops ops) (bsi_inv ops good) (bsi_docs bits) it (bsi_advance ops it t) t"
proof (cases "bi_length it \<le> t")
  case True
  have "doc_from (bits (bi_bits it)) (nat t) = NO_MORE_DOCS"
    using bits_bound [of "bi_bits it"] inv True t by (intro doc_from_noneI) (auto simp: bsi_inv_def nat_le_iff)
  with True inv show ?thesis by (simp add: moves_def bsi_advance_def bsi_docs_def bsi_inv_def bsi_ops_def)
next
  case False
  let ?r = "doc_from (bits (bi_bits it)) (nat t)"
  have lt: "nat t < b_length ops (bi_bits it)" "t mod 2 ^ 64 = t"
    using inv False t by (auto simp: bsi_inv_def NO_MORE_DOCS_def)
  have "bits (bi_bits it) \<subseteq> {..<NO_MORE_DOCS}" using bits_bound [of "bi_bits it"] inv by (auto simp: bsi_inv_def)
  from doc_from_bounds [OF this, of "nat t"] t have "?r \<le> NO_MORE_DOCS" by (simp add: nat_le_iff)
  moreover have "b_next_set_bit ops (bi_bits it) (nat t) = Inr ?r"
    using inv lt(1) by (intro next_set_bit) (simp_all add: bsi_inv_def)
  ultimately show ?thesis using False inv lt(2)
    by (simp add: moves_def bsi_advance_def bsi_docs_def bsi_inv_def bsi_ops_def)
qed

lemma default_or_becomes:
  assumes it: "disi iops igood docs" and b: "good b" and s: "igood s" "d_doc_id iops s = -1"
    and fits: "docs s \<subseteq> {..<b_length ops b}"
  shows "\<exists>b' s'. b_default_or ops iops b s = Some (Inr (b', s')) \<and>
    bs_becomes ops good bits b (Inr b') (bits b \<union> docs s)"
proof -
  let ?P = "\<lambda>D b'. bs_becomes ops good bits b (Inr b') (bits b \<union> D)"
  have "\<exists>b' s'. doc_loop iops (\<lambda>d. d = NO_MORE_DOCS) (\<lambda>d b. b_set ops b d) b s = Some (Inr (b', s')) \<and> ?P (docs s) b'"
  proof (rule disi.doc_loop_all [OF it s, where P = ?P])
    show "?P {} b" using b by (simp add: bs_becomes_def)
    fix d D b' assume d: "d \<in> docs s" and P: "?P D b'"
    then have "good b'" "d < b_length ops b'" "bits b' = bits b \<union> D" "b_length ops b' = b_length ops b"
      using fits by (auto simp: bs_becomes_def)
    with set [of b' d] show "\<exists>b''. b_set ops b' d = Inr b'' \<and> ?P (insert d D) b''"
      by (auto simp: bs_becomes_def)
  qed
  then show ?thesis using s(2) by (auto simp: b_default_or_def default_or_def check_unpositioned_def)
qed

end

sublocale bit_set \<subseteq> it: disi "bsi_ops ops" "bsi_inv ops good" "bsi_docs bits"
proof
  fix it t assume inv: "bsi_inv ops good it"
  show "-1 \<le> d_doc_id (bsi_ops ops) it \<and> d_doc_id (bsi_ops ops) it \<le> NO_MORE"
    using inv by (simp add: bsi_ops_def bsi_inv_def)
  show "bsi_docs bits it \<subseteq> {..<NO_MORE_DOCS}"
    using inv bits_bound [of "bi_bits it"] by (auto simp: bsi_docs_def bsi_inv_def)
  show "moves (bsi_ops ops) (bsi_inv ops good) (bsi_docs bits) it (d_advance (bsi_ops ops) it t) t"
    if "d_doc_id (bsi_ops ops) it < t" "t \<le> NO_MORE"
    using bsi_advance_moves [OF inv, of t] that inv by (simp add: bsi_ops_def bsi_inv_def)
  show "moves (bsi_ops ops) (bsi_inv ops good) (bsi_docs bits) it
      (d_next_doc (bsi_ops ops) it) (d_doc_id (bsi_ops ops) it + 1)"
    if "d_doc_id (bsi_ops ops) it < NO_MORE"
    using bsi_advance_moves [OF inv, of "bi_doc it + 1"] that inv
    by (simp add: bsi_ops_def bsi_inv_def bsi_next_doc_def)
qed

section \<open>\<open>FixedBitSet\<close> keeps the contract\<close>

definition fbs_ops :: "fixed_bit_set bit_set_ops" where
  "fbs_ops = \<lparr>b_length = fbs_length, b_get = fbs_get, b_set = fbs_set_bit,
     b_get_and_set = fbs_get_and_set, b_clear_with_index = fbs_clear_with_index,
     b_clear_range = fbs_clear_range, b_cardinality = fbs_cardinality,
     b_prev_set_bit = fbs_prev_set_bit, b_next_set_bit_range = fbs_next_set_bit_range\<rparr>"

lemma bs_becomes_fbs [simp]: "bs_becomes fbs_ops fbs_inv fbs_set b r S \<longleftrightarrow> fbs_becomes b r S"
  by (simp add: bs_becomes_def fbs_becomes_def fbs_ops_def fbs_length_def)

interpretation fbs: bit_set fbs_ops fbs_inv fbs_set
proof
  fix b :: fixed_bit_set and i lo hi :: nat
  assume inv: "fbs_inv b"
  show "fbs_set b \<subseteq> {..<b_length fbs_ops b}"
    using fbs_inv_lt [OF inv] by (auto simp: fbs_ops_def fbs_length_def)
  show "b_cardinality fbs_ops b = Inr (card (fbs_set b))"
    using fbs_cardinality_ok [OF inv] by (simp add: fbs_ops_def)
  show "bs_becomes fbs_ops fbs_inv fbs_set b (b_clear_range fbs_ops b lo hi) (fbs_set b - {lo..<hi})"
    if "lo < b_length fbs_ops b" "hi \<le> b_length fbs_ops b"
    unfolding bs_becomes_fbs using fbs_clear_range_ok [OF inv] that by (simp add: fbs_ops_def fbs_length_def)
  show "b_next_set_bit_range fbs_ops b lo hi = Inr (doc_from (fbs_set b \<inter> {..<hi}) lo)"
    if "lo < hi" "hi \<le> b_length fbs_ops b"
    using fbs_next_set_bit_range_ok [OF inv] that by (simp add: fbs_ops_def fbs_length_def)
  assume i: "i < b_length fbs_ops b"
  then have lt: "i < fbs_num_bits b" by (simp add: fbs_ops_def fbs_length_def)
  show "b_get fbs_ops b i = Inr (i \<in> fbs_set b)"
    using fbs_get_ok [OF inv lt] by (simp add: fbs_ops_def)
  show "bs_becomes fbs_ops fbs_inv fbs_set b (b_set fbs_ops b i) (insert i (fbs_set b))"
    unfolding bs_becomes_fbs using fbs_set_bit_ok [OF inv lt] by (simp add: fbs_ops_def)
  show "\<exists>b'. b_get_and_set fbs_ops b i = Inr (i \<in> fbs_set b, b') \<and>
      bs_becomes fbs_ops fbs_inv fbs_set b (Inr b') (insert i (fbs_set b))"
    unfolding bs_becomes_fbs using fbs_get_and_set_ok [OF inv lt] by (simp add: fbs_ops_def)
  show "bs_becomes fbs_ops fbs_inv fbs_set b (b_clear_with_index fbs_ops b i) (fbs_set b - {i})"
    unfolding bs_becomes_fbs using fbs_clear_with_index_ok [OF inv lt] by (simp add: fbs_ops_def)
  show "b_prev_set_bit fbs_ops b i = Inr (prev_upto (fbs_set b) i)"
    using fbs_prev_set_bit_ok [OF inv lt] by (simp add: fbs_ops_def)
qed

end
