(* ===== verification/Doc_Base.thy ===== *)
theory Doc_Base
  imports Bit_Sets
begin

text \<open>
  The iterator over a bit set with a document base
  (\<^verbatim>\<open>util/doc_base_bit_set_iterator.rs\<close>), with its cache of the rest of the current word,
  and the iterator-driven operations of \<^verbatim>\<open>FixedBitSet\<close> (\<open>or\<close>, \<open>xor_disi\<close>,
  \<open>and_not_iter\<close>), which take the words of the iterator when it exposes them.
\<close>

section \<open>The iterator with a document base\<close>

record doc_base_iterator =
  db_bits :: fixed_bit_set
  db_length :: int
  db_cost :: int
  db_doc_base :: nat
  db_doc :: int
  db_fast_next_doc :: bool
  db_pending_index :: nat
  db_pending_word :: i64

definition db_new :: "fixed_bit_set \<Rightarrow> int \<Rightarrow> nat \<Rightarrow> doc_base_iterator res" where
  "db_new bits cost doc_base =
     (if cost < 0 then Inl IllegalArgument
      else if doc_base mod 64 \<noteq> 0 then Inl IllegalArgument
      else rbind (i32_of_usize (fbs_length bits)) (\<lambda>len.
        rbind (i32_add len (as_i32 doc_base)) (\<lambda>length.
          Inr \<lparr>db_bits = bits, db_length = length, db_cost = cost, db_doc_base = doc_base, db_doc = -1,
            db_fast_next_doc = (0 < fbs_length bits \<and> doc_base + fbs_length bits \<le> usize_MAX
              \<and> doc_base + fbs_length bits < NO_MORE_DOCS),
            db_pending_index = usize_MAX, db_pending_word = 0\<rparr>)))"

text \<open>\<^verbatim>\<open>0.max(target - self.doc_base as i32)\<close>.\<close>

definition db_start :: "doc_base_iterator \<Rightarrow> int \<Rightarrow> nat res" where
  "db_start it target = rbind (i32_add target (- as_i32 (db_doc_base it))) (\<lambda>d. Inr (nat (max 0 d)))"

definition db_advance :: "doc_base_iterator \<Rightarrow> int \<Rightarrow> (int \<times> doc_base_iterator) res" where
  "db_advance it target =
     (let it = it\<lparr>db_pending_index := usize_MAX\<rparr> in
      if db_length it \<le> target then Inr (NO_MORE, it\<lparr>db_doc := NO_MORE\<rparr>)
      else
        rbind (db_start it target) (\<lambda>start.
        rbind (fbs_next_set_bit (db_bits it) start) (\<lambda>next.
          if next = NO_MORE_DOCS then Inr (NO_MORE, it\<lparr>db_doc := NO_MORE\<rparr>)
          else rbind (i32_of_usize next) (\<lambda>next.
            rbind (i32_add next (as_i32 (db_doc_base it))) (\<lambda>doc.
              Inr (doc, it\<lparr>db_doc := doc\<rparr>))))))"

function db_scan :: "i64 list \<Rightarrow> nat \<Rightarrow> nat \<Rightarrow> i64 \<Rightarrow> (nat \<times> i64) option res" where
  "db_scan words limit word_index word =
     (if word \<noteq> 0 then Inr (Some (word_index, word))
      else if word_index + 1 = limit then Inr None
      else rbind (idx words (word_index + 1)) (db_scan words limit (word_index + 1)))"
  by pat_completeness auto
termination
  by (relation "measure (\<lambda>(words, limit, word_index, word). length words - word_index)")
    (auto simp: res_simps)

definition db_next_doc :: "doc_base_iterator \<Rightarrow> (int \<times> doc_base_iterator) res" where
  "db_next_doc it =
     rbind (i32_add (db_doc it) 1) (\<lambda>target.
     if \<not> db_fast_next_doc it then db_advance it target
     else if db_length it \<le> target
     then Inr (NO_MORE, it\<lparr>db_pending_index := usize_MAX, db_doc := NO_MORE\<rparr>)
     else
       rbind (db_start it target) (\<lambda>start.
         let word_index = start div 64;
             words = fbs_bits (db_bits it);
             limit = bits2words (fbs_length (db_bits it))
         in
         rbind (if db_pending_index it = word_index then Inr (db_pending_word it)
                else idx words word_index) (\<lambda>w.
         rbind (db_scan words limit word_index (w AND push_bit (start mod 64) (- 1))) (\<lambda>r.
           case r of
             None \<Rightarrow> Inr (NO_MORE, it\<lparr>db_pending_index := usize_MAX, db_doc := NO_MORE\<rparr>)
           | Some (word_index, word) \<Rightarrow>
               let bit_ix = trailing_zeros word;
                   doc = as_i32 (db_doc_base it + word_index * 64 + bit_ix)
               in Inr (doc, it\<lparr>db_doc := doc, db_pending_index := word_index,
                          db_pending_word := word AND (word - 1)\<rparr>)))))"

declare db_scan.simps [simp del]

definition db_ops :: "doc_base_iterator disi_ops" where
  "db_ops = \<lparr>d_doc_id = db_doc, d_next_doc = db_next_doc, d_advance = db_advance,
     d_cost = (\<lambda>it. Inr (db_cost it))\<rparr>"

section \<open>It keeps the contract of iterators\<close>

text \<open>
  The cached word holds the bits of its word above the current document.
\<close>

definition db_pending_ok :: "doc_base_iterator \<Rightarrow> bool" where
  "db_pending_ok it \<longleftrightarrow> db_pending_index it < usize_MAX \<longrightarrow>
     int (db_doc_base it + 64 * db_pending_index it) \<le> db_doc it \<and>
     db_pending_index it < length (fbs_bits (db_bits it)) \<and>
     (\<forall>b<64. int (db_doc_base it + 64 * db_pending_index it + b) > db_doc it \<longrightarrow>
        bit (db_pending_word it) b = bit (fbs_bits (db_bits it) ! db_pending_index it) b)"

definition db_inv :: "doc_base_iterator \<Rightarrow> bool" where
  "db_inv it \<longleftrightarrow> fbs_inv (db_bits it)
     \<and> db_length it = int (db_doc_base it + fbs_num_bits (db_bits it))
     \<and> db_doc_base it + fbs_num_bits (db_bits it) \<le> NO_MORE_DOCS
     \<and> db_doc_base it mod 64 = 0 \<and> (0 < fbs_num_bits (db_bits it) \<or> db_doc_base it = 0)
     \<and> -1 \<le> db_doc it \<and> db_doc it \<le> NO_MORE
     \<and> (db_fast_next_doc it \<longrightarrow> db_doc_base it + fbs_num_bits (db_bits it) < NO_MORE_DOCS
          \<and> 0 < fbs_num_bits (db_bits it))
     \<and> db_pending_index it \<le> usize_MAX \<and> db_pending_ok it"

definition db_docs :: "doc_base_iterator \<Rightarrow> nat set" where
  "db_docs it = (+) (db_doc_base it) ` fbs_set (db_bits it)"

lemma db_docs_bound: "db_inv it \<Longrightarrow> j \<in> db_docs it \<Longrightarrow> j < db_doc_base it + fbs_num_bits (db_bits it)"
  using fbs_inv_lt by (auto simp: db_inv_def db_docs_def)

lemma doc_from_shift:
  "doc_from ((+) k ` S) t = (case next_from S (t - k) of None \<Rightarrow> NO_MORE_DOCS | Some r \<Rightarrow> k + r)"
proof (cases "next_from S (t - k)")
  case None
  then have "doc_from ((+) k ` S) t = NO_MORE_DOCS"
    unfolding next_from_None by (intro doc_from_noneI) auto
  with None show ?thesis by simp
next
  case (Some r)
  then have "doc_from ((+) k ` S) t = k + r"
    unfolding next_from_Some by (intro doc_fromI) auto
  with Some show ?thesis by simp
qed

lemma db_start_ok:
  assumes "db_inv it" "0 \<le> t" "t \<le> NO_MORE"
  shows "db_start it t = Inr (nat t - db_doc_base it)"
  using assms by (auto simp: db_start_def db_inv_def i32_add_def NO_MORE_DOCS_def)

lemma db_exhausted_moves:
  assumes inv: "db_inv it" and t: "0 \<le> t" "db_length it \<le> t"
  shows "moves db_ops db_inv db_docs it
    (Inr (NO_MORE, it\<lparr>db_pending_index := usize_MAX, db_doc := NO_MORE\<rparr>)) t"
proof -
  have "doc_from (db_docs it) (nat t) = NO_MORE_DOCS"
    using db_docs_bound [OF inv] inv t by (intro doc_from_noneI) (force simp: db_inv_def)
  with inv show ?thesis
    by (simp add: moves_def db_ops_def db_inv_def db_docs_def db_pending_ok_def)
qed

lemma db_advance_moves:
  assumes inv: "db_inv it" and t: "0 \<le> t" "t \<le> NO_MORE"
  shows "moves db_ops db_inv db_docs it (db_advance it t) t"
proof (cases "db_length it \<le> t")
  case True
  with db_exhausted_moves [OF inv t(1)] show ?thesis by (simp add: db_advance_def Let_def)
next
  case False
  let ?start = "nat t - db_doc_base it" and ?S = "fbs_set (db_bits it)"
  let ?it = "it\<lparr>db_pending_index := usize_MAX\<rparr>"
  have inv': "db_inv ?it" using inv by (simp add: db_inv_def db_pending_ok_def)
  have lt: "?start < fbs_num_bits (db_bits it)" using inv False t by (auto simp: db_inv_def)
  have nsb: "fbs_next_set_bit (db_bits it) ?start = Inr (doc_from ?S ?start)"
    using inv lt by (intro fbs_next_set_bit_ok) (simp_all add: db_inv_def)
  note st = db_start_ok [OF inv' t]
  show ?thesis
  proof (cases "next_from ?S ?start")
    case None
    then have "doc_from (db_docs it) (nat t) = NO_MORE_DOCS" by (simp add: db_docs_def doc_from_shift)
    with False nsb st None inv show ?thesis
      by (simp add: db_advance_def Let_def moves_def doc_from_def db_ops_def db_inv_def db_docs_def db_pending_ok_def)
  next
    case (Some r)
    then have d: "doc_from (db_docs it) (nat t) = db_doc_base it + r" by (simp add: db_docs_def doc_from_shift)
    have r: "r < fbs_num_bits (db_bits it)" using Some inv fbs_inv_lt by (auto simp: next_from_Some db_inv_def)
    then have "r < NO_MORE_DOCS" "db_doc_base it \<le> NO_MORE_DOCS" "db_doc_base it + r < NO_MORE_DOCS"
      using inv by (auto simp: db_inv_def)
    then have "i32_of_usize r = Inr (int r)" "i32_add (int r) (as_i32 (db_doc_base it)) = Inr (int (db_doc_base it + r))"
      by (auto simp: i32_of_usize_def i32_add_def NO_MORE_DOCS_def)
    with False nsb st Some d r inv show ?thesis
      by (simp add: db_advance_def Let_def moves_def doc_from_def db_ops_def db_inv_def db_docs_def db_pending_ok_def)
  qed
qed

lemma nsb_window_step:
  assumes "i < limit" "limit \<le> length bits"
  shows "next_from (bits_of bits \<inter> {..<64 * limit}) (64 * i)
    = (if bits ! i \<noteq> 0 then Some (64 * i + trailing_zeros (bits ! i))
       else next_from (bits_of bits \<inter> {..<64 * limit}) (64 * (i + 1)))"
proof -
  have "take (limit - i) (drop i bits) = bits ! i # take (limit - Suc i) (drop (Suc i) bits)"
    using assms by (simp add: Cons_nth_drop_Suc [symmetric] take_Cons')
  then show ?thesis
    using nsb_scan_window [OF assms(2), of i, symmetric] nsb_scan_window [OF assms(2), of "i + 1", symmetric]
    by (simp add: mult.commute)
qed

lemma db_scan_ok:
  assumes "wi < limit" "limit \<le> length words"
  shows "db_scan words limit wi 0 = Inr (case next_from (bits_of words \<inter> {..<64 * limit}) (64 * (wi + 1)) of
      None \<Rightarrow> None | Some r \<Rightarrow> Some (r div 64, words ! (r div 64)))
    \<and> (\<forall>r. next_from (bits_of words \<inter> {..<64 * limit}) (64 * (wi + 1)) = Some r \<longrightarrow>
        words ! (r div 64) \<noteq> 0 \<and> trailing_zeros (words ! (r div 64)) = r mod 64)"
  using assms
proof (induction "limit - wi" arbitrary: wi)
  case 0
  then show ?case by simp
next
  case (Suc n)
  show ?case
  proof (cases "wi + 1 = limit")
    case True
    then have "next_from (bits_of words \<inter> {..<64 * limit}) (64 * (wi + 1)) = None"
      by (simp add: next_from_None)
    with True show ?thesis by (subst db_scan.simps) simp
  next
    case False
    with Suc have lt: "wi + 1 < limit" by simp
    let ?w = "words ! (wi + 1)"
    have idx: "idx words (wi + 1) = Inr ?w" using lt Suc by simp
    note step = nsb_window_step [OF lt Suc.prems(2)]
    show ?thesis
    proof (cases "?w = 0")
      case True
      have "n = limit - (wi + 1)" using Suc(2) by simp
      from Suc.hyps(1) [OF this lt Suc.prems(2)] step True False idx show ?thesis
        by (subst db_scan.simps) simp
    next
      case nz: False
      have tz: "trailing_zeros ?w < 64" using trailing_zeros_bit [OF nz] by simp
      then have "(64 * k + trailing_zeros ?w) div 64 = k" "(64 * k + trailing_zeros ?w) mod 64 = trailing_zeros ?w" for k
        by simp_all
      from this [of "wi + 1"] step nz False idx show ?thesis
        by (subst db_scan.simps, simp, subst db_scan.simps) simp
    qed
  qed
qed

lemma bit_clear_lowest:
  fixes w :: "'a::len word"
  assumes "w \<noteq> 0"
  shows "bit (w AND (w - 1)) b \<longleftrightarrow> bit w b \<and> b \<noteq> trailing_zeros w"
proof -
  let ?t = "trailing_zeros w"
  define v where "v = unset_bit ?t w"
  note t = trailing_zeros_bit [OF assms] trailing_zeros_below [of _ w]
  have v: "bit v n \<longleftrightarrow> bit w n \<and> n \<noteq> ?t" for n by (auto simp: v_def bit_unset_bit_iff)
  have low: "n \<le> ?t \<Longrightarrow> \<not> bit v n" for n using t(2) by (auto simp: v le_less)
  have "v + 2 ^ ?t = v OR 2 ^ ?t"
    by (rule disjunctive_add) (auto simp: v bit_exp_iff)
  also have "\<dots> = w"
    using t(1) by (intro bit_word_eqI) (auto simp: bit_or_iff v bit_exp_iff)
  finally have "w = v + 2 ^ ?t" ..
  then have "w - 1 = v + mask ?t" by (simp add: mask_eq_exp_minus_1)
  also have "\<dots> = v OR mask ?t"
    by (rule disjunctive_add) (metis bit_mask_iff less_imp_le low)
  finally have "w - 1 = v OR mask ?t" .
  then show ?thesis using t(2) by (auto simp: bit_and_iff bit_or_iff bit_mask_iff v)
qed

lemma db_word_scan:
  assumes inv: "fbs_inv s" and st: "start < fbs_num_bits s"
    and w_bits: "\<forall>b<64. bit w b \<longleftrightarrow> bit (fbs_bits s ! (start div 64)) b \<and> start mod 64 \<le> b"
  shows "(next_from (fbs_set s) start = None \<and>
      db_scan (fbs_bits s) (fbs_num_words s) (start div 64) w = Inr None) \<or>
    (\<exists>wi word. db_scan (fbs_bits s) (fbs_num_words s) (start div 64) w = Inr (Some (wi, word))
      \<and> word \<noteq> 0 \<and> wi < length (fbs_bits s)
      \<and> next_from (fbs_set s) start = Some (64 * wi + trailing_zeros word)
      \<and> (\<forall>b<64. trailing_zeros word < b \<longrightarrow> bit word b = bit (fbs_bits s ! wi) b))"
proof -
  let ?ws = "fbs_bits s" and ?n = "fbs_num_words s" and ?i = "start div 64" and ?m = "start mod 64"
  have i: "?i < ?n" and len: "?n \<le> length ?ws"
    using inv word_lt_bits2words [OF st] by (auto simp: fbs_inv_def)
  have S: "fbs_set s \<inter> {..<64 * ?n} = bits_of ?ws" "fbs_set s = bits_of ?ws"
    using fbs_set_bound [OF inv] by (auto simp: fbs_set_def)
  have at: "64 * ?i + b \<in> bits_of ?ws \<longleftrightarrow> bit (?ws ! ?i) b" if "b < 64" for b
    using wbit_at [OF that, of ?ws ?i] i len by (simp add: bits_of_def)
  note w = w_bits [rule_format]
  have start: "start = 64 * ?i + ?m" by simp
  have split: "\<exists>b<64. j = 64 * ?i + b \<and> ?m \<le> b" if "start \<le> j" "j < 64 * (?i + 1)" for j
  proof -
    define q m where "q = ?i" and "m = ?m"
    have "start = 64 * q + m" "j < 64 * (q + 1)" using that by (simp_all add: q_def m_def)
    with that(1) have "j - 64 * q < 64 \<and> j = 64 * q + (j - 64 * q) \<and> m \<le> j - 64 * q" by auto
    then show ?thesis unfolding q_def m_def by blast
  qed
  show ?thesis
  proof (cases "w = 0")
    case False
    note t = trailing_zeros_bit [OF False] trailing_zeros_below [of _ w]
    have "j \<notin> bits_of ?ws" if "start \<le> j" "j < 64 * ?i + trailing_zeros w" for j
    proof -
      have "j < 64 * (?i + 1)" using that(2) t(1) by simp
      from split [OF that(1) this] obtain b where b: "b < 64" "j = 64 * ?i + b" "?m \<le> b" by blast
      then have "b < trailing_zeros w" using that by simp
      with t(2) w [OF b(1)] b(3) at [OF b(1)] b(2) show ?thesis by blast
    qed
    moreover have "64 * ?i + trailing_zeros w \<in> bits_of ?ws" "?m \<le> trailing_zeros w"
      using t(1) w [of "trailing_zeros w"] at [of "trailing_zeros w"] by simp_all
    ultimately have "next_from (fbs_set s) start = Some (64 * ?i + trailing_zeros w)"
      using start unfolding next_from_Some S(2) by (metis add_le_cancel_left)
    moreover have "db_scan ?ws ?n ?i w = Inr (Some (?i, w))" using False by (subst db_scan.simps) simp
    moreover have "\<forall>b<64. trailing_zeros w < b \<longrightarrow> bit w b = bit (?ws ! ?i) b"
      using w \<open>?m \<le> trailing_zeros w\<close> by auto
    moreover have "?i < length ?ws" using i len by simp
    ultimately show ?thesis using False by blast
  next
    case True
    have "j \<notin> bits_of ?ws" if "start \<le> j" "j < 64 * (?i + 1)" for j
    proof -
      from split [OF that] obtain b where b: "b < 64" "j = 64 * ?i + b" "?m \<le> b" by blast
      with w [OF b(1)] at [OF b(1)] True show ?thesis by simp
    qed
    moreover have "start \<le> 64 * (?i + 1)" using dividend_less_times_div [of 64 start] by simp
    ultimately have skip: "next_from (fbs_set s) start = next_from (fbs_set s) (64 * (?i + 1))"
      unfolding S(2) by (intro next_from_skip)
    note sc = db_scan_ok [OF i len, folded S(2), unfolded S(1) [unfolded S(2)], folded S(2)]
    show ?thesis
    proof (cases "next_from (fbs_set s) (64 * (?i + 1))")
      case None
      with sc skip True S show ?thesis by simp
    next
      case (Some r)
      have "r div 64 < length ?ws" using Some fbs_set_bound [OF inv, of r] len
        by (simp add: next_from_Some)
      moreover have "64 * (r div 64) + r mod 64 = r" by simp
      ultimately show ?thesis using sc skip True Some S
        by (intro disjI2 exI [of _ "r div 64"] exI [of _ "?ws ! (r div 64)"]) simp
    qed
  qed
qed

lemma db_next_doc_moves:
  assumes inv: "db_inv it" and d: "db_doc it < NO_MORE"
  shows "moves db_ops db_inv db_docs it (db_next_doc it) (db_doc it + 1)"
proof -
  let ?t = "db_doc it + 1"
  have t: "0 \<le> ?t" "?t \<le> NO_MORE" and add: "i32_add (db_doc it) 1 = Inr ?t"
    using inv d by (simp_all add: db_inv_def)
  consider (slow) "\<not> db_fast_next_doc it" | (out) "db_fast_next_doc it" "db_length it \<le> ?t"
    | (scan) "db_fast_next_doc it" "\<not> db_length it \<le> ?t" by blast
  then show ?thesis
  proof cases
    case slow
    with db_advance_moves [OF inv t] add show ?thesis by (simp add: db_next_doc_def)
  next
    case out
    with db_exhausted_moves [OF inv t(1) out(2)] add show ?thesis by (simp add: db_next_doc_def)
  next
    case scan
    define s where "s = db_bits it"
    define start where "start = nat ?t - db_doc_base it"
    define w where "w = (if db_pending_index it = start div 64 then db_pending_word it else fbs_bits s ! (start div 64))"
    have sinv: "fbs_inv s" and small: "db_doc_base it + fbs_num_bits s < NO_MORE_DOCS"
      using inv scan by (auto simp: db_inv_def s_def)
    have st: "start < fbs_num_bits s"
      using inv scan t by (auto simp: db_inv_def s_def start_def)
    have il: "start div 64 < length (fbs_bits s)" by (rule fbs_word_lt [OF sinv st])
    have rd: "(if db_pending_index it = start div 64 then Inr (db_pending_word it)
        else idx (fbs_bits s) (start div 64)) = Inr w" using il by (simp add: w_def)
    have bits: "bit (w AND push_bit (start mod 64) (-1)) b \<longleftrightarrow>
        bit (fbs_bits s ! (start div 64)) b \<and> start mod 64 \<le> b" if b: "b < 64" for b
    proof (cases "db_pending_index it = start div 64 \<and> start mod 64 \<le> b")
      case True
      have "start < 64 * fbs_num_words s" using st bits2words_ge [of "fbs_num_bits s"] sinv by (simp add: fbs_inv_def)
      then have "start div 64 < usize_MAX" using st small by (simp add: usize_MAX_def NO_MORE_DOCS_def)
      moreover have "db_doc it < int (db_doc_base it + 64 * (start div 64) + b)"
      proof -
        have "start = 64 * (start div 64) + start mod 64" by simp
        moreover have "nat ?t \<le> db_doc_base it + start" by (simp add: start_def)
        ultimately have "nat ?t \<le> db_doc_base it + 64 * (start div 64) + b" using True by linarith
        then show ?thesis by linarith
      qed
      ultimately have "bit (db_pending_word it) b = bit (fbs_bits s ! (start div 64)) b"
        using inv True b unfolding db_inv_def db_pending_ok_def s_def by metis
      with True b show ?thesis by (simp add: w_def bit_simps)
    next
      case False
      with b show ?thesis by (auto simp: w_def bit_simps)
    qed
    have nw: "bits2words (fbs_length s) = fbs_num_words s" using sinv by (simp add: fbs_inv_def fbs_length_def)
    have docs: "doc_from (db_docs it) (nat ?t) = (case next_from (fbs_set s) start of None \<Rightarrow> NO_MORE_DOCS | Some r \<Rightarrow> db_doc_base it + r)"
      by (simp add: db_docs_def doc_from_shift s_def start_def)
    note unf = db_next_doc_def add rbind_simps scan if_True if_False simp_thms db_start_ok [OF inv t]
      s_def [symmetric] start_def [symmetric] Let_def rd nw
    note sc = db_word_scan [OF sinv st, of "w AND push_bit (start mod 64) (- 1)"]
    from bits have "\<forall>b<64. bit (w AND push_bit (start mod 64) (- 1)) b \<longleftrightarrow>
        bit (fbs_bits s ! (start div 64)) b \<and> start mod 64 \<le> b" by blast
    from sc [OF this] show ?thesis
    proof (elim disjE exE conjE)
      assume a: "next_from (fbs_set s) start = None"
        "db_scan (fbs_bits s) (fbs_num_words s) (start div 64) (w AND push_bit (start mod 64) (- 1)) = Inr None"
      have "db_next_doc it = Inr (NO_MORE, it\<lparr>db_pending_index := usize_MAX, db_doc := NO_MORE\<rparr>)"
        unfolding unf a(2) using scan by simp
      with inv docs a(1) show ?thesis
        by (simp add: moves_def db_ops_def db_inv_def db_docs_def db_pending_ok_def)
    next
      fix wi word
      assume a: "db_scan (fbs_bits s) (fbs_num_words s) (start div 64) (w AND push_bit (start mod 64) (- 1)) = Inr (Some (wi, word))"
        and nz: "word \<noteq> 0" and wi: "wi < length (fbs_bits s)"
        and nx: "next_from (fbs_set s) start = Some (64 * wi + trailing_zeros word)"
        and above: "\<forall>b<64. trailing_zeros word < b \<longrightarrow> bit word b = bit (fbs_bits s ! wi) b"
      let ?d = "db_doc_base it + 64 * wi + trailing_zeros word"
      have "64 * wi + trailing_zeros word < fbs_num_bits s"
        using nx fbs_inv_lt [OF sinv] by (simp add: next_from_Some)
      then have dl: "?d < NO_MORE_DOCS" using small by simp
      let ?it = "it\<lparr>db_doc := int ?d, db_pending_index := wi, db_pending_word := word AND (word - 1)\<rparr>"
      have eq: "db_next_doc it = Inr (int ?d, ?it)"
        unfolding unf a using dl scan by (simp add: mult.commute add.assoc)
      have "db_inv ?it"
        using inv dl wi above nz small
        by (auto simp: db_inv_def db_pending_ok_def s_def bit_clear_lowest usize_MAX_def NO_MORE_DOCS_def)
      with eq docs nx show ?thesis by (simp add: moves_def db_ops_def db_docs_def add.assoc)
    qed
  qed
qed

interpretation db_it: disi db_ops db_inv db_docs
proof
  fix it t assume inv: "db_inv it"
  show "-1 \<le> d_doc_id db_ops it \<and> d_doc_id db_ops it \<le> NO_MORE"
    using inv by (simp add: db_ops_def db_inv_def)
  show "db_docs it \<subseteq> {..<NO_MORE_DOCS}"
    using db_docs_bound [OF inv] inv by (fastforce simp: db_inv_def)
  show "moves db_ops db_inv db_docs it (d_advance db_ops it t) t"
    if "d_doc_id db_ops it < t" "t \<le> NO_MORE"
    using db_advance_moves [OF inv, of t] that inv by (simp add: db_ops_def db_inv_def)
  show "moves db_ops db_inv db_docs it (d_next_doc db_ops it) (d_doc_id db_ops it + 1)"
    if "d_doc_id db_ops it < NO_MORE"
    using db_next_doc_moves [OF inv] that by (simp add: db_ops_def)
qed

section \<open>Operations of \<open>FixedBitSet\<close> driven by an iterator\<close>

text \<open>
  The specialisation hooks of the trait: the words behind the iterator, when it exposes
  them.
\<close>

record 's disi_hooks =
  h_fixed :: "'s \<Rightarrow> fixed_bit_set option"
  h_doc_base :: "'s \<Rightarrow> (nat \<times> fixed_bit_set) option"

definition with_words ::
  "'s disi_ops \<Rightarrow> 's \<Rightarrow> fixed_bit_set res \<Rightarrow> (fixed_bit_set \<times> 's) res option" where
  "with_words ops it r = Some (rbind (check_unpositioned ops it) (\<lambda>_. rbind r (\<lambda>s. Inr (s, it))))"

definition fbs_or_iter ::
  "'s disi_ops \<Rightarrow> 's disi_hooks \<Rightarrow> fixed_bit_set \<Rightarrow> 's \<Rightarrow> (fixed_bit_set \<times> 's) res option" where
  "fbs_or_iter ops hooks s it =
     (case h_fixed hooks it of
        Some bits \<Rightarrow> with_words ops it (fbs_or s bits)
      | None \<Rightarrow>
          (case h_doc_base hooks it of
             Some (doc_base, bits) \<Rightarrow> with_words ops it (fbs_or_offset s (doc_base div 64) bits)
           | None \<Rightarrow> default_or ops fbs_set_bit s it))"

definition fbs_and_not_iter ::
  "'s disi_ops \<Rightarrow> 's disi_hooks \<Rightarrow> fixed_bit_set \<Rightarrow> 's \<Rightarrow> (fixed_bit_set \<times> 's) res option" where
  "fbs_and_not_iter ops hooks s it =
     (case h_fixed hooks it of
        Some bits \<Rightarrow> with_words ops it (fbs_and_not_fixed_bit_set s bits)
      | None \<Rightarrow>
          (case h_doc_base hooks it of
             Some (doc_base, bits) \<Rightarrow> with_words ops it (fbs_and_not_offset s (doc_base div 64) bits)
           | None \<Rightarrow>
               (case check_unpositioned ops it of
                  Inl e \<Rightarrow> Some (Inl e)
                | Inr _ \<Rightarrow> doc_loop ops (\<lambda>d. d = NO_MORE_DOCS) (\<lambda>d s. fbs_clear_with_index s d) s it)))"

definition fbs_xor_disi ::
  "'s disi_ops \<Rightarrow> 's disi_hooks \<Rightarrow> fixed_bit_set \<Rightarrow> 's \<Rightarrow> (fixed_bit_set \<times> 's) res option" where
  "fbs_xor_disi ops hooks s it =
     (case check_unpositioned ops it of
        Inl e \<Rightarrow> Some (Inl e)
      | Inr _ \<Rightarrow>
          (case h_fixed hooks it of
             Some bits \<Rightarrow> Some (rbind (fbs_xor s bits) (\<lambda>s. Inr (s, it)))
           | None \<Rightarrow> doc_loop ops (\<lambda>d. fbs_num_bits s \<le> d) (\<lambda>d s. fbs_flip s d) s it))"

subsection \<open>Words at an offset\<close>

lemma div_shift: "64 * off \<le> i \<Longrightarrow> (i - 64 * off) div 64 = i div 64 - off" for i off :: nat
  by (auto simp: le_iff_add)

lemma mod_shift: "64 * off \<le> i \<Longrightarrow> (i - 64 * off) mod 64 = i mod 64" for i off :: nat
  by (auto simp: le_iff_add)

lemma in_shift: "i \<in> (+) k ` T \<longleftrightarrow> k \<le> i \<and> i - k \<in> T" for i k :: nat
  by force

lemma wbit_shifted:
  assumes "off + n \<le> length xs" "n \<le> length ys"
  shows "wbit (wmap off (off + n) (\<lambda>k w. f w (ys ! (k - off))) xs) i \<longleftrightarrow>
    (if 64 * off \<le> i \<and> i < 64 * (off + n)
     then bit (f (xs ! (i div 64)) (ys ! ((i - 64 * off) div 64))) (i mod 64) else wbit xs i)"
proof -
  have "off \<le> i div 64 \<longleftrightarrow> 64 * off \<le> i" using words_pos [of i off] by linarith
  moreover have "i div 64 < off + n \<longleftrightarrow> i < 64 * (off + n)" by (rule words_pos)
  ultimately show ?thesis using assms by (auto simp: wbit_wmap div_shift)
qed

lemma wbit_shift_word:
  assumes "64 * off \<le> i" "i < 64 * (off + n)" "off + n \<le> length xs" "n \<le> length ys"
  shows "bit (xs ! (i div 64)) (i mod 64) \<longleftrightarrow> wbit xs i"
    "bit (ys ! ((i - 64 * off) div 64)) (i mod 64) \<longleftrightarrow> wbit ys (i - 64 * off)"
proof -
  have "i div 64 < length xs" using assms words_pos [of i "off + n"] by simp
  then show "bit (xs ! (i div 64)) (i mod 64) \<longleftrightarrow> wbit xs i" by (simp add: wbit_def)
  have "(i - 64 * off) div 64 < n" using assms words_pos [of "i - 64 * off" n] by simp
  then show "bit (ys ! ((i - 64 * off) div 64)) (i mod 64) \<longleftrightarrow> wbit ys (i - 64 * off)"
    using assms by (simp add: wbit_def mod_shift)
qed

lemma fbs_or_offset_ok:
  assumes s: "fbs_inv s" and t: "fbs_inv t" and nw: "off + fbs_num_words t \<le> fbs_num_words s"
    and le: "(+) (64 * off) ` fbs_set t \<subseteq> {..<fbs_num_bits s}"
  shows "fbs_becomes s (fbs_or_offset s off t) (fbs_set s \<union> (+) (64 * off) ` fbs_set t)"
proof -
  let ?n = "fbs_num_words t"
  let ?ws = "wmap off (off + ?n) (\<lambda>k w. w OR fbs_bits t ! (k - off)) (fbs_bits s)"
  have len: "off + ?n \<le> length (fbs_bits s)" "?n \<le> length (fbs_bits t)" using nw s t by (auto simp: fbs_inv_def)
  have "fbs_or_offset s off t = Inr (s\<lparr>fbs_bits := ?ws\<rparr>)"
    using nw len by (auto simp: fbs_or_offset_def fbs_or_impl_def Let_def min_absorb2 zip_words_wmap wmap_empty)
  also have "fbs_becomes s \<dots> (fbs_set s \<union> (+) (64 * off) ` fbs_set t)"
  proof (rule fbs_becomesI [OF refl s])
    fix i
    have "wbit (fbs_bits t) (i - 64 * off) \<Longrightarrow> i < 64 * (off + ?n)"
      using fbs_set_bound [OF t, of "i - 64 * off"] by (simp add: fbs_set_iff)
    then show "wbit ?ws i \<longleftrightarrow> i \<in> fbs_set s \<union> (+) (64 * off) ` fbs_set t"
      using wbit_shift_word [of off i ?n "fbs_bits s" "fbs_bits t"] len
      by (auto simp: wbit_shifted [OF len] in_shift fbs_set_iff bit_or_iff)
    show "i \<in> fbs_set s \<union> (+) (64 * off) ` fbs_set t \<Longrightarrow> i < fbs_num_bits s"
      using fbs_inv_lt [OF s] le by auto
  qed simp
  finally show ?thesis .
qed

lemma fbs_and_not_offset_ok:
  assumes s: "fbs_inv s" and t: "fbs_inv t"
  shows "fbs_becomes s (fbs_and_not_offset s off t) (fbs_set s - (+) (64 * off) ` fbs_set t)"
proof -
  let ?n = "min (fbs_num_words s - off) (fbs_num_words t)"
  let ?ws = "wmap off (off + ?n) (\<lambda>k w. w AND NOT (fbs_bits t ! (k - off))) (fbs_bits s)"
  have len: "?n = 0 \<or> off + ?n \<le> length (fbs_bits s)" "?n \<le> length (fbs_bits t)" using s t by (auto simp: fbs_inv_def)
  show ?thesis
  proof (cases "?n = 0")
    case True
    have "fbs_set s \<inter> (+) (64 * off) ` fbs_set t = {}"
      using True fbs_set_bound [OF s] fbs_set_bound [OF t] by (fastforce simp: in_shift min_def split: if_splits)
    then have "fbs_set s - (+) (64 * off) ` fbs_set t = fbs_set s" by blast
    with True s show ?thesis
      by (simp add: fbs_and_not_offset_def fbs_and_not_impl_def Let_def fbs_becomes_def)
  next
    case False
    with len have len': "off + ?n \<le> length (fbs_bits s)" by simp
    have "fbs_and_not_offset s off t = Inr (s\<lparr>fbs_bits := ?ws\<rparr>)"
      using False len(2) len' zip_words_wmap [OF len' len(2), of "\<lambda>d s. d AND NOT s"]
      by (simp add: fbs_and_not_offset_def fbs_and_not_impl_def Let_def del: min_less_iff_conj)
    also have "fbs_becomes s \<dots> {i \<in> fbs_set s. i \<notin> (+) (64 * off) ` fbs_set t}"
    proof (rule fbs_shrink_becomes [OF s])
      fix i
      have "i < 64 * (off + ?n)" if "wbit (fbs_bits s) i" "64 * off \<le> i" "wbit (fbs_bits t) (i - 64 * off)"
        using fbs_set_bound [OF t, of "i - 64 * off"] fbs_set_bound [OF s, of i] that
        by (auto simp: fbs_set_iff min_def)
      then show "wbit ?ws i \<longleftrightarrow> i \<in> fbs_set s \<and> i \<notin> (+) (64 * off) ` fbs_set t"
        using wbit_shift_word [of off i ?n "fbs_bits s" "fbs_bits t"] len(2) len'
        by (auto simp: wbit_shifted [OF len' len(2), of "\<lambda>d s. d AND NOT s"] in_shift fbs_set_iff bit_and_iff bit_not_iff)
    qed simp
    finally show ?thesis by (simp add: set_diff_eq)
  qed
qed

subsection \<open>The contract of the hooks\<close>

text \<open>
  \<open>disi_with_hooks\<close> extends the contract of iterators: an iterator that exposes words
  stands for the documents they hold.
\<close>

locale disi_with_hooks = disi +
  fixes hooks :: "'a disi_hooks"
  assumes fixed: "good s \<Longrightarrow> h_fixed hooks s = Some t \<Longrightarrow> fbs_inv t \<and> docs s = fbs_set t"
    and doc_base: "good s \<Longrightarrow> h_doc_base hooks s = Some (k, t) \<Longrightarrow>
        fbs_inv t \<and> k mod 64 = 0 \<and> docs s = (+) k ` fbs_set t"

text \<open>The words exposed by the iterator fit into the set.\<close>

text \<open>The words that an iterator exposes fit into a set: what \<^verbatim>\<open>or_impl\<close> and \<^verbatim>\<open>xor_impl\<close> assert.\<close>

definition fixed_fits :: "'s disi_hooks \<Rightarrow> fixed_bit_set \<Rightarrow> 's \<Rightarrow> bool" where
  "fixed_fits hooks s it = (case h_fixed hooks it of None \<Rightarrow> True | Some t \<Rightarrow> fbs_num_words t \<le> fbs_num_words s)"

definition words_fit :: "'s disi_hooks \<Rightarrow> fixed_bit_set \<Rightarrow> 's \<Rightarrow> bool" where
  "words_fit hooks s it =
     (case h_fixed hooks it of
        Some t \<Rightarrow> fbs_num_words t \<le> fbs_num_words s
      | None \<Rightarrow> (case h_doc_base hooks it of None \<Rightarrow> True | Some (k, t) \<Rightarrow> k div 64 + fbs_num_words t \<le> fbs_num_words s))"

context disi_with_hooks
begin

lemma with_words_becomes:
  "d_doc_id ops it = -1 \<Longrightarrow> fbs_becomes s r S \<Longrightarrow>
   \<exists>s' it'. with_words ops it r = Some (Inr (s', it')) \<and> fbs_becomes s (Inr s') S"
  by (auto simp: with_words_def check_unpositioned_def fbs_becomes_def)

lemma doc_loop_becomes:
  assumes it: "good it" "d_doc_id ops it = -1" and s: "fbs_inv s"
    and g: "\<And>s d. fbs_inv s \<Longrightarrow> d \<in> docs it \<Longrightarrow> d < fbs_num_bits s \<Longrightarrow> fbs_becomes s (f d s) (g (fbs_set s) d)"
    and h: "h {} = fbs_set s" "\<And>d D. h (insert d D) = g (h D) d"
    and fits: "docs it \<subseteq> {..<fbs_num_bits s}"
  shows "\<exists>s' it'. doc_loop ops (\<lambda>d. d = NO_MORE_DOCS) f s it = Some (Inr (s', it')) \<and>
    fbs_becomes s (Inr s') (h (docs it))"
proof (rule doc_loop_all [OF it, where P = "\<lambda>D s'. fbs_becomes s (Inr s') (h D)"])
  show "fbs_becomes s (Inr s) (h {})" using s h by (simp add: fbs_becomes_def)
  fix d D s' assume d: "d \<in> docs it" and P: "fbs_becomes s (Inr s') (h D)"
  then have "fbs_inv s'" "d < fbs_num_bits s'" "fbs_set s' = h D" "fbs_num_bits s' = fbs_num_bits s"
    using fits by (auto simp: fbs_becomes_def)
  with g [of s' d] d h(2) show "\<exists>s''. f d s' = Inr s'' \<and> fbs_becomes s (Inr s'') (h (insert d D))"
    by (auto simp: fbs_becomes_def)
qed

lemma or_iter_becomes:
  assumes it: "good it" "d_doc_id ops it = -1" and s: "fbs_inv s"
    and fits: "words_fit hooks s it" "docs it \<subseteq> {..<fbs_num_bits s}"
  shows "\<exists>s' it'. fbs_or_iter ops hooks s it = Some (Inr (s', it')) \<and>
    fbs_becomes s (Inr s') (fbs_set s \<union> docs it)"
proof (cases "h_fixed hooks it")
  case (Some t)
  with with_words_becomes [OF it(2) fbs_or_words_ok [OF s]] fixed [OF it(1) Some] fits show ?thesis
    by (simp add: fbs_or_iter_def words_fit_def)
next
  case None
  note nf = None
  show ?thesis
  proof (cases "h_doc_base hooks it")
    case (Some kt)
    then obtain k t where kt: "h_doc_base hooks it = Some (k, t)" by (cases kt) auto
    from doc_base [OF it(1) kt] have t: "fbs_inv t" "64 * (k div 64) = k" "docs it = (+) k ` fbs_set t" by auto
    have "k div 64 + fbs_num_words t \<le> fbs_num_words s" "(+) (64 * (k div 64)) ` fbs_set t \<subseteq> {..<fbs_num_bits s}"
      using kt nf fits t by (auto simp: words_fit_def)
    from with_words_becomes [OF it(2) fbs_or_offset_ok [OF s t(1) this]] kt nf t(2,3) show ?thesis
      by (simp add: fbs_or_iter_def)
  next
    case None
    have "\<exists>s' it'. doc_loop ops (\<lambda>d. d = NO_MORE_DOCS) (\<lambda>d s. fbs_set_bit s d) s it = Some (Inr (s', it')) \<and>
        fbs_becomes s (Inr s') (fbs_set s \<union> docs it)"
      by (rule doc_loop_becomes [OF it s, where g = "\<lambda>S d. insert d S"]) (use fits fbs_set_bit_ok in auto)
    with None nf it(2) show ?thesis by (simp add: fbs_or_iter_def default_or_def check_unpositioned_def)
  qed
qed

lemma and_not_iter_becomes:
  assumes it: "good it" "d_doc_id ops it = -1" and s: "fbs_inv s"
    and fits: "docs it \<subseteq> {..<fbs_num_bits s}"
  shows "\<exists>s' it'. fbs_and_not_iter ops hooks s it = Some (Inr (s', it')) \<and>
    fbs_becomes s (Inr s') (fbs_set s - docs it)"
proof (cases "h_fixed hooks it")
  case (Some t)
  with with_words_becomes [OF it(2) fbs_and_not_ok [OF s]] fixed [OF it(1) Some] show ?thesis
    by (simp add: fbs_and_not_iter_def)
next
  case None
  note nf = None
  show ?thesis
  proof (cases "h_doc_base hooks it")
    case (Some kt)
    then obtain k t where kt: "h_doc_base hooks it = Some (k, t)" by (cases kt) auto
    from doc_base [OF it(1) kt] have t: "fbs_inv t" "64 * (k div 64) = k" "docs it = (+) k ` fbs_set t" by auto
    from with_words_becomes [OF it(2) fbs_and_not_offset_ok [OF s t(1)]] kt nf t(2,3) show ?thesis
      by (metis (no_types, lifting) fbs_and_not_iter_def option.simps(4,5) case_prod_conv)
  next
    case None
    have "\<exists>s' it'. doc_loop ops (\<lambda>d. d = NO_MORE_DOCS) (\<lambda>d s. fbs_clear_with_index s d) s it = Some (Inr (s', it')) \<and>
        fbs_becomes s (Inr s') (fbs_set s - docs it)"
      by (rule doc_loop_becomes [OF it s, where g = "\<lambda>S d. S - {d}"]) (use fits fbs_clear_with_index_ok in auto)
    with None nf it(2) show ?thesis by (simp add: fbs_and_not_iter_def check_unpositioned_def)
  qed
qed

lemma xor_disi_becomes:
  assumes it: "good it" "d_doc_id ops it = -1" and s: "fbs_inv s" "fbs_num_bits s \<le> NO_MORE_DOCS"
    and fits: "fixed_fits hooks s it" "docs it \<subseteq> {..<fbs_num_bits s}"
  shows "\<exists>s' it'. fbs_xor_disi ops hooks s it = Some (Inr (s', it')) \<and>
    fbs_becomes s (Inr s') {i. i < fbs_num_bits s \<and> (i \<in> fbs_set s) \<noteq> (i \<in> docs it)}"
proof (cases "h_fixed hooks it")
  case (Some t)
  with fixed [OF it(1) Some] fits have t: "fbs_inv t" "docs it = fbs_set t" "fbs_num_words t \<le> fbs_num_words s"
      "fbs_set t \<subseteq> {..<fbs_num_bits s}"
    by (auto simp: fixed_fits_def)
  have "{i. i < fbs_num_bits s \<and> (i \<in> fbs_set s) \<noteq> (i \<in> fbs_set t)} = (fbs_set s - fbs_set t) \<union> (fbs_set t - fbs_set s)"
    using fbs_inv_lt [OF s(1)] t(4) by blast
  with fbs_xor_words_ok [OF s(1) t(1,3,4)] Some it(2) t(2) show ?thesis
    by (auto simp: fbs_xor_disi_def check_unpositioned_def fbs_becomes_def)
next
  case None
  let ?P = "\<lambda>D s'. fbs_becomes s (Inr s') {i. i < fbs_num_bits s \<and> (i \<in> fbs_set s) \<noteq> (i \<in> D)}"
  let ?R = "{d \<in> docs it. d_doc_id ops it < int d \<and> d < fbs_num_bits s}"
  have "\<exists>s' it'. doc_loop ops (\<lambda>d. fbs_num_bits s \<le> d) (\<lambda>d s. fbs_flip s d) s it = Some (Inr (s', it')) \<and> ?P ({} \<union> ?R) s'"
  proof (rule doc_loop_rule [OF it(1), where P = ?P])
    show "d_doc_id ops it < NO_MORE" using it(2) by (simp add: NO_MORE_DOCS_def)
    have "{i. i < fbs_num_bits s \<and> i \<in> fbs_set s} = fbs_set s" using fbs_inv_lt [OF s(1)] by auto
    then show "?P {} s" using s by (simp add: fbs_becomes_def)
    fix d D s' assume d: "d < fbs_num_bits s" "\<forall>e\<in>D. e < d" and P: "?P D s'"
    then have s': "fbs_inv s'" "d < fbs_num_bits s'" "fbs_num_bits s' = fbs_num_bits s"
      "fbs_set s' = {i. i < fbs_num_bits s \<and> (i \<in> fbs_set s) \<noteq> (i \<in> D)}" by (auto simp: fbs_becomes_def)
    have "d \<notin> D" using d by blast
    then have "(if d \<in> fbs_set s' then fbs_set s' - {d} else insert d (fbs_set s'))
        = {i. i < fbs_num_bits s \<and> (i \<in> fbs_set s) \<noteq> (i \<in> insert d D)}"
      using d(1) s'(4) by auto
    with fbs_flip_ok [OF s'(1,2)] s'(3) show "\<exists>s''. fbs_flip s' d = Inr s'' \<and> ?P (insert d D) s''"
      by (auto simp: fbs_becomes_def)
  qed (use s in auto)
  moreover have "{i. i < fbs_num_bits s \<and> (i \<in> fbs_set s) \<noteq> (i \<in> {} \<union> ?R)}
      = {i. i < fbs_num_bits s \<and> (i \<in> fbs_set s) \<noteq> (i \<in> docs it)}" using it(2) by auto
  ultimately show ?thesis using None it(2) by (simp add: fbs_xor_disi_def check_unpositioned_def)
qed

text \<open>Words that do not fit are refused by the assertions.\<close>

lemma or_iter_panics:
  "d_doc_id ops it = -1 \<Longrightarrow> \<not> words_fit hooks s it \<Longrightarrow> fbs_or_iter ops hooks s it = Some (Inl Panic)"
  by (auto simp: words_fit_def fbs_or_iter_def with_words_def check_unpositioned_def fbs_or_def fbs_or_offset_def
      fbs_or_impl_def dassert_def add.commute split: option.splits)

lemma xor_disi_panics:
  "d_doc_id ops it = -1 \<Longrightarrow> \<not> fixed_fits hooks s it \<Longrightarrow> fbs_xor_disi ops hooks s it = Some (Inl Panic)"
  by (auto simp: fixed_fits_def fbs_xor_disi_def check_unpositioned_def fbs_xor_def fbs_xor_impl_def dassert_def split: option.splits)

end

text \<open>The iterators of bit sets expose their words, the others do not.\<close>

definition no_hooks :: "'s disi_hooks" where
  "no_hooks = \<lparr>h_fixed = (\<lambda>_. None), h_doc_base = (\<lambda>_. None)\<rparr>"

definition bsi_hooks :: "fixed_bit_set bit_set_iterator disi_hooks" where
  "bsi_hooks = \<lparr>h_fixed = (\<lambda>it. Some (bi_bits it)), h_doc_base = (\<lambda>_. None)\<rparr>"

definition db_hooks :: "doc_base_iterator disi_hooks" where
  "db_hooks = \<lparr>h_fixed = (\<lambda>_. None), h_doc_base = (\<lambda>it. Some (db_doc_base it, db_bits it))\<rparr>"

interpretation range_h: disi_with_hooks range_disi_ops range_inv range_docs no_hooks
  by unfold_locales (auto simp: no_hooks_def)

interpretation fbs_h: disi_with_hooks "bsi_ops fbs_ops" "bsi_inv fbs_ops fbs_inv" "bsi_docs fbs_set" bsi_hooks
  by unfold_locales (auto simp: bsi_hooks_def bsi_docs_def bsi_inv_def)

interpretation db_h: disi_with_hooks db_ops db_inv db_docs db_hooks
  by unfold_locales (auto simp: db_hooks_def db_docs_def db_inv_def)

section \<open>The properties of the component\<close>

text \<open>
  C7. The iterator over a \<open>FixedBitSet\<close>: \<open>advance\<close> and \<open>next_doc\<close> return the least
  set bit at or after the target and stand on it, and \<open>slow_advance\<close>, the loop of
  \<open>next_doc\<close> calls of the trait, returns and does the same as \<open>advance\<close>.
\<close>

theorem bit_set_iterator_moves:
  assumes "bsi_inv fbs_ops fbs_inv it" "bi_doc it < t" "t \<le> NO_MORE"
  shows "moves (bsi_ops fbs_ops) (bsi_inv fbs_ops fbs_inv) (bsi_docs fbs_set) it (bsi_advance fbs_ops it t) t
    \<and> moves (bsi_ops fbs_ops) (bsi_inv fbs_ops fbs_inv) (bsi_docs fbs_set) it
        (bsi_next_doc fbs_ops it) (bi_doc it + 1)
    \<and> (\<exists>r. slow_advance (bsi_ops fbs_ops) it t = Some r \<and>
        moves (bsi_ops fbs_ops) (bsi_inv fbs_ops fbs_inv) (bsi_docs fbs_set) it r t)"
  using fbs.it.advance [OF assms(1), of t] fbs.it.next_doc [OF assms(1)] fbs.it.slow_advance_moves [OF assms(1), of t] assms
  by (simp add: bsi_ops_def)

definition bsi_sample :: "fixed_bit_set bit_set_iterator" where
  "bsi_sample = \<lparr>bi_bits = fbs_sample, bi_length = 70, bi_cost = 3, bi_doc = -1\<rparr>"

lemma bsi_sample_inv: "bsi_inv fbs_ops fbs_inv bsi_sample"
  using fbs_sample_inv
  by (simp add: bsi_inv_def bsi_sample_def fbs_ops_def fbs_length_def fbs_sample_def NO_MORE_DOCS_def)

theorem bit_set_iterator_moves_witness:
  "moves (bsi_ops fbs_ops) (bsi_inv fbs_ops fbs_inv) (bsi_docs fbs_set) bsi_sample
     (bsi_advance fbs_ops bsi_sample 5) 5"
  using bit_set_iterator_moves [OF bsi_sample_inv, of 5] by (simp add: bsi_sample_def NO_MORE_DOCS_def)

text \<open>What \<^verbatim>\<open>new\<close> gives, also for a set without positions.\<close>

lemma db_new_ok:
  assumes "fbs_inv bits" "0 \<le> cost" "doc_base mod 64 = 0" "doc_base + fbs_num_bits bits \<le> NO_MORE_DOCS"
  shows "\<exists>it0. db_new bits cost doc_base = Inr it0 \<and> db_doc it0 = -1 \<and> db_docs it0 = (+) doc_base ` fbs_set bits
    \<and> (if 0 < fbs_num_bits bits \<or> doc_base = 0 then db_inv it0
       else db_next_doc it0 = Inl Panic \<and> (\<forall>t. 0 \<le> t \<longrightarrow> t < int doc_base \<longrightarrow> db_advance it0 t = Inl Panic))"
proof -
  let ?it = "\<lparr>db_bits = bits, db_length = int (doc_base + fbs_num_bits bits), db_cost = cost, db_doc_base = doc_base,
    db_doc = -1, db_fast_next_doc = (0 < fbs_num_bits bits \<and> doc_base + fbs_num_bits bits < NO_MORE_DOCS),
    db_pending_index = usize_MAX, db_pending_word = 0\<rparr>"
  have new: "db_new bits cost doc_base = Inr ?it"
    using assms by (auto simp: db_new_def fbs_length_def i32_of_usize_def i32_add_def NO_MORE_DOCS_def usize_MAX_def)
  have "db_inv ?it" if "0 < fbs_num_bits bits \<or> doc_base = 0"
    using assms that by (auto simp: db_inv_def db_pending_ok_def)
  moreover have adv: "db_advance ?it t = Inl Panic" if "fbs_num_bits bits = 0" "0 \<le> t" "t < int doc_base" for t
    using assms(4) that
    by (simp add: db_advance_def db_start_def i32_add_def NO_MORE_DOCS_def fbs_next_set_bit_def fbs_next_set_bit_range_def
        fbs_next_set_bit_impl_def dassert_def)
  moreover have "db_next_doc ?it = Inl Panic" if "fbs_num_bits bits = 0" "0 < doc_base"
    using adv [OF that(1), of 0] that by (simp add: db_next_doc_def i32_add_def)
  ultimately show ?thesis using new by (intro exI [of _ ?it]) (auto simp: db_docs_def)
qed

text \<open>
  C8. The iterator with a document base over a \<open>FixedBitSet\<close> whose last document is below \<open>NO_MORE_DOCS\<close>. If the set
  has a bit position or the base is 0, \<^verbatim>\<open>new\<close> gives an unpositioned iterator over the shifted set with the
  invariant; from every iterator with the invariant \<^verbatim>\<open>next_doc\<close>, with its cache of the rest of the current word, and
  \<^verbatim>\<open>advance\<close>, which drops the cache, return the least document at or after the target, stand on it and keep the
  invariant, so that they may be called in any order. For a set of length 0 with a positive base \<^verbatim>\<open>new\<close> succeeds too,
  but \<^verbatim>\<open>next_doc\<close> and \<^verbatim>\<open>advance\<close> to a target below the base panic.
\<close>

theorem doc_base_iterator_moves:
  assumes "fbs_inv bits" "0 \<le> cost" "doc_base mod 64 = 0" "doc_base + fbs_num_bits bits \<le> NO_MORE_DOCS"
  shows "\<exists>it0. db_new bits cost doc_base = Inr it0 \<and> db_doc it0 = -1 \<and> db_docs it0 = (+) doc_base ` fbs_set bits
    \<and> (if 0 < fbs_num_bits bits \<or> doc_base = 0 then db_inv it0
       else db_next_doc it0 = Inl Panic \<and> (\<forall>t. 0 \<le> t \<longrightarrow> t < int doc_base \<longrightarrow> db_advance it0 t = Inl Panic))
    \<and> (\<forall>it t. db_inv it \<longrightarrow> db_doc it < t \<longrightarrow> t \<le> NO_MORE \<longrightarrow>
         moves db_ops db_inv db_docs it (db_advance it t) t \<and> moves db_ops db_inv db_docs it (db_next_doc it) (db_doc it + 1))"
proof -
  have moves: "moves db_ops db_inv db_docs it (db_advance it t) t \<and> moves db_ops db_inv db_docs it (db_next_doc it) (db_doc it + 1)"
    if "db_inv it" "db_doc it < t" "t \<le> NO_MORE" for it t
    using db_it.advance [OF that(1), of t] db_it.next_doc [OF that(1)] that by (simp add: db_ops_def)
  show ?thesis using db_new_ok [OF assms] by (elim exE, intro exI) (use moves in blast)
qed

definition db_sample :: doc_base_iterator where
  "db_sample = \<lparr>db_bits = fbs_sample, db_length = 134, db_cost = 3, db_doc_base = 64, db_doc = -1,
     db_fast_next_doc = True, db_pending_index = usize_MAX, db_pending_word = 0\<rparr>"

lemma db_sample_inv: "db_inv db_sample"
  using fbs_sample_inv
  by (simp add: db_inv_def db_pending_ok_def db_sample_def fbs_sample_def NO_MORE_DOCS_def)

theorem doc_base_iterator_moves_witness:
  "(\<exists>it. db_new fbs_sample 3 64 = Inr it \<and> db_inv it \<and> moves db_ops db_inv db_docs it (db_advance it 65) 65)
   \<and> (\<exists>it. db_new \<lparr>fbs_bits = [], fbs_num_bits = 0, fbs_num_words = 0\<rparr> 3 64 = Inr it \<and> db_next_doc it = Inl Panic)"
proof -
  have "fbs_num_bits fbs_sample = 70" by (simp add: fbs_sample_def)
  moreover have "fbs_inv \<lparr>fbs_bits = [], fbs_num_bits = 0, fbs_num_words = 0\<rparr>"
    by (simp add: fbs_inv_def bits2words_def wbit_def)
  ultimately show ?thesis
    using doc_base_iterator_moves [of fbs_sample 3 64] fbs_sample_inv
      doc_base_iterator_moves [of "\<lparr>fbs_bits = [], fbs_num_bits = 0, fbs_num_words = 0\<rparr>" 3 64]
    by (auto simp: NO_MORE_DOCS_def)
qed

text \<open>
  C9. The operations of \<open>FixedBitSet\<close> driven by an unpositioned iterator whose documents lie within the set. If the
  iterator exposes the words of a bit set, they are combined word by word, shifted by the document base for an
  iterator with a base; otherwise its documents are visited one after the other. \<open>and_not_iter\<close> gives the difference.
  \<open>or\<close> gives the union and \<open>xor_disi\<close> the symmetric difference if the exposed words are not more than those of the
  set, counted from the base (\<open>xor_disi\<close> only takes the words of an iterator without a base); if they are more, both
  panic on their assertion, also when all documents lie within the set. The operations return and keep the
  invariant.
\<close>

theorem fixed_bit_set_iterator_ops:
  assumes "disi_with_hooks ops good docs hooks" "good it" "d_doc_id ops it = -1"
    and "fbs_inv s" "fbs_num_bits s \<le> NO_MORE_DOCS" "docs it \<subseteq> {..<fbs_num_bits s}"
  shows "(if words_fit hooks s it
      then \<exists>s' it'. fbs_or_iter ops hooks s it = Some (Inr (s', it')) \<and> fbs_becomes s (Inr s') (fbs_set s \<union> docs it)
      else fbs_or_iter ops hooks s it = Some (Inl Panic))
    \<and> (\<exists>s' it'. fbs_and_not_iter ops hooks s it = Some (Inr (s', it')) \<and> fbs_becomes s (Inr s') (fbs_set s - docs it))
    \<and> (if fixed_fits hooks s it
       then \<exists>s' it'. fbs_xor_disi ops hooks s it = Some (Inr (s', it')) \<and>
          fbs_becomes s (Inr s') {i. i < fbs_num_bits s \<and> (i \<in> fbs_set s) \<noteq> (i \<in> docs it)}
       else fbs_xor_disi ops hooks s it = Some (Inl Panic))"
  using disi_with_hooks.or_iter_becomes [OF assms(1-4) _ assms(6)] disi_with_hooks.or_iter_panics [OF assms(1,3)]
    disi_with_hooks.and_not_iter_becomes [OF assms(1-4,6)]
    disi_with_hooks.xor_disi_becomes [OF assms(1-5) _ assms(6)] disi_with_hooks.xor_disi_panics [OF assms(1,3)] by simp

text \<open>A longer set without a bit beyond the shorter one.\<close>

definition fbs_long_sample :: fixed_bit_set where
  "fbs_long_sample = \<lparr>fbs_bits = [5, 0, 0], fbs_num_bits = 192, fbs_num_words = 3\<rparr>"

lemma fbs_long_sample_set: "fbs_inv fbs_long_sample" "fbs_set fbs_long_sample = {0, 2}"
proof -
  have bit: "wbit [5, 0, 0 :: i64] i \<longleftrightarrow> i = 0 \<or> i = 2" for i
  proof (cases "i < 64")
    case True
    then have "bit (5 :: i64) i \<longleftrightarrow> i = 0 \<or> i = 2" by (auto simp: bit_numeral_rec bit_1_iff nat_eq_iff split: nat.splits)
    with True show ?thesis by (simp add: wbit_def)
  next
    case False
    then have "i div 64 = 1 \<or> i div 64 = 2" if "i div 64 < 3" using that by linarith
    then have "[5, 0, 0 :: i64] ! (i div 64) = 0" if "i div 64 < 3" using that by fastforce
    with False show ?thesis by (auto simp: wbit_def)
  qed
  then show "fbs_inv fbs_long_sample" "fbs_set fbs_long_sample = {0, 2}"
    by (auto simp: fbs_inv_def fbs_long_sample_def bits2words_def fbs_set_iff)
qed

theorem fixed_bit_set_iterator_ops_witness:
  "(\<exists>s' it'. fbs_or_iter range_disi_ops no_hooks fbs_sample \<lparr>rd_doc = -1, rd_min_doc = 4, rd_max_doc = 68\<rparr>
      = Some (Inr (s', it')) \<and> fbs_becomes fbs_sample (Inr s') (fbs_set fbs_sample \<union> {4..<68}))
   \<and> (\<exists>s' it'. fbs_xor_disi (bsi_ops fbs_ops) bsi_hooks fbs_long_sample bsi_sample = Some (Inr (s', it')) \<and>
        fbs_becomes fbs_long_sample (Inr s') {i. i < 192 \<and> (i \<in> {0, 2}) \<noteq> (i \<in> fbs_set fbs_sample)})
   \<and> fbs_or_iter (bsi_ops fbs_ops) bsi_hooks fbs_sample (bsi_sample\<lparr>bi_bits := fbs_long_sample, bi_length := 192\<rparr>)
       = Some (Inl Panic)
   \<and> (\<exists>s' it'. fbs_or_iter db_ops db_hooks fbs_long_sample db_sample = Some (Inr (s', it')) \<and>
        fbs_becomes fbs_long_sample (Inr s') ({0, 2} \<union> (+) 64 ` fbs_set fbs_sample))"
proof -
  let ?r = "\<lparr>rd_doc = -1, rd_min_doc = 4, rd_max_doc = 68\<rparr>" and ?l = "bsi_sample\<lparr>bi_bits := fbs_long_sample, bi_length := 192\<rparr>"
  have bits: "fbs_num_bits fbs_sample = 70" "fbs_num_bits fbs_long_sample = 192" "fbs_set fbs_sample \<subseteq> {..<70}"
    using fbs_set_within [OF fbs_sample_inv, of 70] by (simp_all add: fbs_sample_def fbs_long_sample_def)
  have r: "range_inv ?r" "d_doc_id range_disi_ops ?r = -1" "words_fit no_hooks fbs_sample ?r" "range_docs ?r = {4..<68}"
    by (simp_all add: range_inv_def range_disi_ops_def words_fit_def no_hooks_def range_docs_def NO_MORE_DOCS_def)
  have b: "d_doc_id (bsi_ops fbs_ops) bsi_sample = -1" "bsi_docs fbs_set bsi_sample = fbs_set fbs_sample"
      "fixed_fits bsi_hooks fbs_long_sample bsi_sample"
    by (simp_all add: bsi_ops_def bsi_sample_def bsi_docs_def fixed_fits_def bsi_hooks_def fbs_sample_def fbs_long_sample_def)
  have l: "bsi_inv fbs_ops fbs_inv ?l" "d_doc_id (bsi_ops fbs_ops) ?l = -1" "bsi_docs fbs_set ?l = {0, 2}"
      "\<not> words_fit bsi_hooks fbs_sample ?l"
    using fbs_long_sample_set
    by (simp_all add: bsi_inv_def bsi_ops_def bsi_sample_def bsi_docs_def words_fit_def bsi_hooks_def fbs_sample_def
        fbs_long_sample_def fbs_ops_def fbs_length_def NO_MORE_DOCS_def)
  have d: "d_doc_id db_ops db_sample = -1" "db_docs db_sample = (+) 64 ` fbs_set fbs_sample" "words_fit db_hooks fbs_long_sample db_sample"
    by (simp_all add: db_ops_def db_sample_def db_docs_def words_fit_def db_hooks_def fbs_sample_def fbs_long_sample_def)
  have sub: "{4..<68} \<subseteq> {..<70 :: nat}" "fbs_set fbs_sample \<subseteq> {..<192}" "(+) 64 ` fbs_set fbs_sample \<subseteq> {..<192}" "{0, 2} \<subseteq> {..<70 :: nat}"
    using bits(3) by auto
  have n: "fbs_num_bits fbs_sample \<le> NO_MORE_DOCS" "fbs_num_bits fbs_long_sample \<le> NO_MORE_DOCS"
    using bits by (simp_all add: NO_MORE_DOCS_def)
  note fixed_bit_set_iterator_ops [OF range_h.disi_with_hooks_axioms r(1,2) fbs_sample_inv n(1), unfolded r(4) bits(1), OF sub(1)]
  moreover note fixed_bit_set_iterator_ops
    [OF fbs_h.disi_with_hooks_axioms bsi_sample_inv b(1) fbs_long_sample_set(1) n(2), unfolded b(2) bits(2), OF sub(2)]
  moreover note fixed_bit_set_iterator_ops
    [OF fbs_h.disi_with_hooks_axioms l(1,2) fbs_sample_inv n(1), unfolded l(3) bits(1), OF sub(4)]
  moreover note fixed_bit_set_iterator_ops
    [OF db_h.disi_with_hooks_axioms db_sample_inv d(1) fbs_long_sample_set(1) n(2), unfolded d(2) bits(2), OF sub(3)]
  ultimately show ?thesis
    unfolding fbs_long_sample_set(2) if_P [OF r(3)] if_P [OF b(3)] if_not_P [OF l(4)] if_P [OF d(3)] by blast
qed

end
