(* ===== verification/Disi_Combi.thy ===== *)
theory Disi_Combi
  imports Doc_Base
begin

text \<open>
  Iterators built on other data: the sorted array (\<^verbatim>\<open>util/int_array_doc_id_set.rs\<close>), the
  complement of an iterator (\<^verbatim>\<open>util/not_doc_id_set.rs\<close>), the conjunction of several
  iterators and the conjunction of an iterator with bit sets
  (\<^verbatim>\<open>search/conjunction_disi.rs\<close>). The last three are clients of the contract of
  iterators and provide it again.
\<close>

section \<open>\<open>IntArrayDocIdSet\<close>\<close>

record int_array_iterator =
  ia_docs :: "int list"
  ia_length :: nat
  ia_i :: nat
  ia_doc :: int

definition assert_array_sorted :: "int list \<Rightarrow> bool" where
  "assert_array_sorted docs = sorted_wrt (\<le>) docs"

text \<open>\<open>IntArrayDocIdSet::new\<close> and then its \<open>iterator\<close>.\<close>

definition int_array_new :: "int list \<Rightarrow> nat \<Rightarrow> int_array_iterator res" where
  "int_array_new docs len =
     (if length docs \<le> len then Inl ArrayIndexOutOfBounds
      else if docs ! len \<noteq> NO_MORE then Inl IllegalArgument
      else dassert (assert_array_sorted (take len docs))
             (Inr \<lparr>ia_docs = docs, ia_length = len, ia_i = 0, ia_doc = -1\<rparr>))"

definition int_array_next_doc :: "int_array_iterator \<Rightarrow> (int \<times> int_array_iterator) res" where
  "int_array_next_doc s =
     rbind (idx (ia_docs s) (ia_i s)) (\<lambda>doc. Inr (doc, s\<lparr>ia_doc := doc, ia_i := ia_i s + 1\<rparr>))"

text \<open>The loop that doubles \<open>bound = 2 ^ k\<close>.\<close>

function gallop :: "int list \<Rightarrow> nat \<Rightarrow> nat \<Rightarrow> int \<Rightarrow> nat \<Rightarrow> nat res" where
  "gallop docs len i target k =
     (if i + 2 ^ k < len
      then rbind (idx docs (i + 2 ^ k)) (\<lambda>d.
             if d < target then gallop docs len i target (k + 1) else Inr (2 ^ k))
      else Inr (2 ^ k))"
  by pat_completeness auto
termination
proof (relation "measure (\<lambda>(docs, len, i, target, k). len - k)")
  fix len i k :: nat
  assume a: "i + 2 ^ k < len"
  have "k < 2 ^ k" by (rule less_exp)
  with a have "k < len" by linarith
  then show "\<And>docs target x. ((docs, len, i, target, k + 1), docs, len, i, target, k)
      \<in> measure (\<lambda>(docs, len, i, target, k). len - k)" by simp
qed simp

declare gallop.simps [simp del]

text \<open>
  \<^verbatim>\<open>slice::binary_search\<close> with \<^verbatim>\<open>unwrap_or_else(|index| index)\<close>: on a slice in strictly
  ascending order, the index of the target or the one where it would be inserted.
\<close>

definition binary_search_index :: "int list \<Rightarrow> int \<Rightarrow> nat" where
  "binary_search_index xs target = length (takeWhile (\<lambda>x. x < target) xs)"

definition int_array_advance_in ::
  "int list \<Rightarrow> nat \<Rightarrow> int_array_iterator \<Rightarrow> int \<Rightarrow> (int \<times> int_array_iterator) res" where
  "int_array_advance_in docs len s target =
     rbind (gallop docs len (ia_i s) target 0) (\<lambda>bound.
       let start = ia_i s + bound div 2;
           end_ix = min (ia_i s + bound + 1) len
       in rbind (usub end_ix start) (\<lambda>n.
          rbind (slice docs start n) (\<lambda>sl.
            let start = start + binary_search_index sl target in
            rbind (idx docs start) (\<lambda>doc.
              Inr (doc, s\<lparr>ia_doc := doc, ia_i := start + 1\<rparr>)))))"

definition int_array_advance :: "int_array_iterator \<Rightarrow> int \<Rightarrow> (int \<times> int_array_iterator) res" where
  "int_array_advance s target =
     (if ia_length s < length (ia_docs s)
      then (let docs = take (ia_length s + 1) (ia_docs s)
            in int_array_advance_in docs (length docs - 1) s target)
      else int_array_advance_in (ia_docs s) (ia_length s) s target)"

definition int_array_ops :: "int_array_iterator disi_ops" where
  "int_array_ops = \<lparr>d_doc_id = ia_doc, d_next_doc = int_array_next_doc,
     d_advance = int_array_advance, d_cost = (\<lambda>s. Inr (int (ia_length s)))\<rparr>"

section \<open>\<open>NotDocIdSet\<close>\<close>

record 's not_iterator =
  ni_in :: 's
  ni_doc :: int
  ni_next_skipped_doc :: int
  ni_max_doc :: int

definition not_new :: "'s \<Rightarrow> int \<Rightarrow> 's not_iterator" where
  "not_new in_iterator max_doc =
     \<lparr>ni_in = in_iterator, ni_doc = -1, ni_next_skipped_doc = -1, ni_max_doc = max_doc\<rparr>"

function not_loop ::
  "'s disi_ops \<Rightarrow> 's not_iterator \<Rightarrow> (int \<times> 's not_iterator) res" where
  "not_loop ops it =
     (if ni_max_doc it \<le> ni_doc it then Inr (NO_MORE, it\<lparr>ni_doc := NO_MORE\<rparr>)
      else dassert (ni_doc it \<le> ni_next_skipped_doc it) (
        if ni_doc it \<noteq> ni_next_skipped_doc it then Inr (ni_doc it, it)
        else rbind (i32_add (ni_doc it) 1) (\<lambda>doc.
          rbind (d_next_doc ops (ni_in it)) (\<lambda>(skipped, inner).
            not_loop ops (it\<lparr>ni_in := inner, ni_doc := doc, ni_next_skipped_doc := skipped\<rparr>)))))"
  by pat_completeness auto
termination
  by (relation "measure (\<lambda>(ops, it). nat (ni_max_doc it - ni_doc it))")
    (auto simp: i32_add_def split: if_splits)

declare not_loop.simps [simp del]

definition not_advance ::
  "'s disi_ops \<Rightarrow> 's not_iterator \<Rightarrow> int \<Rightarrow> (int \<times> 's not_iterator) res" where
  "not_advance ops it target =
     (let it = it\<lparr>ni_doc := target\<rparr> in
      if ni_next_skipped_doc it < ni_doc it
      then rbind (d_advance ops (ni_in it) (ni_doc it)) (\<lambda>(skipped, inner).
             not_loop ops (it\<lparr>ni_in := inner, ni_next_skipped_doc := skipped\<rparr>))
      else not_loop ops it)"

definition not_next_doc :: "'s disi_ops \<Rightarrow> 's not_iterator \<Rightarrow> (int \<times> 's not_iterator) res" where
  "not_next_doc ops it = rbind (i32_add (ni_doc it) 1) (not_advance ops it)"

definition not_ops :: "'s disi_ops \<Rightarrow> 's not_iterator disi_ops" where
  "not_ops ops = \<lparr>d_doc_id = ni_doc, d_next_doc = not_next_doc ops, d_advance = not_advance ops,
     d_cost = (\<lambda>it. Inr (ni_max_doc it))\<rparr>"

section \<open>\<open>ConjunctionDISI\<close>\<close>

record 's conjunction =
  cj_lead1 :: nat
  cj_lead2 :: nat
  cj_others :: "nat list"
  cj_all :: "'s list"

text \<open>Advancing one of the sub-iterators.\<close>

definition sub_advance :: "'s disi_ops \<Rightarrow> 's list \<Rightarrow> nat \<Rightarrow> int \<Rightarrow> (int \<times> 's list) res" where
  "sub_advance ops xs i target =
     rbind (idx xs i) (\<lambda>x. rbind (d_advance ops x target) (\<lambda>(doc, x'). Inr (doc, xs[i := x'])))"

text \<open>
  The loop over the other iterators: it agrees on \<open>doc\<close> (\<open>Inr\<close>), or goes back to the
  head with the document to which it has advanced the lead (\<open>Inl\<close>).
\<close>

fun others_loop ::
  "'s disi_ops \<Rightarrow> nat \<Rightarrow> nat list \<Rightarrow> int \<Rightarrow> 's list \<Rightarrow> ((int \<times> 's list) + 's list) res" where
  "others_loop ops lead1 [] doc xs = Inr (Inr xs)"
| "others_loop ops lead1 (i # is) doc xs =
     rbind (idx xs i) (\<lambda>x.
       if d_doc_id ops x < doc
       then rbind (sub_advance ops xs i doc) (\<lambda>(next, xs).
              if doc < next
              then rbind (sub_advance ops xs lead1 next) (\<lambda>r. Inr (Inl r))
              else others_loop ops lead1 is doc xs)
       else others_loop ops lead1 is doc xs)"

text \<open>One pass of the outer loop.\<close>

definition conj_pass :: "'s disi_ops \<Rightarrow> 's conjunction \<Rightarrow> int \<Rightarrow> 's list \<Rightarrow> ((int \<times> 's list) + (int \<times> 's list)) res" where
  "conj_pass ops c doc xs =
     rbind (idx xs (cj_lead1 c)) (\<lambda>x.
     dassert (doc = d_doc_id ops x) (
     rbind (sub_advance ops xs (cj_lead2 c) doc) (\<lambda>(next2, xs).
       rbind (if next2 \<noteq> doc then sub_advance ops xs (cj_lead1 c) next2 else Inr (doc, xs)) (\<lambda>(doc, xs).
         if doc \<noteq> next2 then Inr (Inl (doc, xs))
         else rbind (others_loop ops (cj_lead1 c) (cj_others c) doc xs) (\<lambda>r.
           Inr (case r of Inl again \<Rightarrow> Inl again | Inr xs \<Rightarrow> Inr (doc, xs)))))))"

partial_function (option) conj_do_next ::
  "'s disi_ops \<Rightarrow> 's conjunction \<Rightarrow> int \<Rightarrow> 's list \<Rightarrow> (int \<times> 's list) res option" where
  "conj_do_next ops c doc xs =
     (case conj_pass ops c doc xs of
        Inl e \<Rightarrow> Some (Inl e)
      | Inr (Inl (doc, xs)) \<Rightarrow> conj_do_next ops c doc xs
      | Inr (Inr r) \<Rightarrow> Some (Inr r))"

definition same_doc :: "'s disi_ops \<Rightarrow> 's conjunction \<Rightarrow> bool res" where
  "same_doc ops c =
     rbind (idx (cj_all c) (cj_lead1 c)) (\<lambda>x.
     rbind (idx (cj_all c) (cj_lead2 c)) (\<lambda>y.
       for_each (cj_others c) (\<lambda>i b. if b then rbind (idx (cj_all c) i) (\<lambda>z.
         Inr (d_doc_id ops z = d_doc_id ops x)) else Inr b) (d_doc_id ops y = d_doc_id ops x)))"

definition conj_doc_id :: "'s disi_ops \<Rightarrow> 's conjunction \<Rightarrow> int res" where
  "conj_doc_id ops c = rbind (idx (cj_all c) (cj_lead1 c)) (\<lambda>x. Inr (d_doc_id ops x))"

definition conj_finish ::
  "'s conjunction \<Rightarrow> (int \<times> 's list) res option \<Rightarrow> (int \<times> 's conjunction) res option" where
  "conj_finish c r = map_option (\<lambda>r. rbind r (\<lambda>(doc, xs). Inr (doc, c\<lparr>cj_all := xs\<rparr>))) r"

definition conj_advance ::
  "'s disi_ops \<Rightarrow> 's conjunction \<Rightarrow> int \<Rightarrow> (int \<times> 's conjunction) res option" where
  "conj_advance ops c target =
     (case rbind (same_doc ops c) (\<lambda>b. dassert b (sub_advance ops (cj_all c) (cj_lead1 c) target)) of
        Inl e \<Rightarrow> Some (Inl e)
      | Inr (doc, xs) \<Rightarrow> conj_finish c (conj_do_next ops c doc xs))"

definition conj_next_doc ::
  "'s disi_ops \<Rightarrow> 's conjunction \<Rightarrow> (int \<times> 's conjunction) res option" where
  "conj_next_doc ops c =
     (case rbind (same_doc ops c) (\<lambda>b. dassert b (rbind (idx (cj_all c) (cj_lead1 c)) (\<lambda>x.
             rbind (d_next_doc ops x) (\<lambda>(doc, x'). Inr (doc, (cj_all c)[cj_lead1 c := x']))))) of
        Inl e \<Rightarrow> Some (Inl e)
      | Inr (doc, xs) \<Rightarrow> conj_finish c (conj_do_next ops c doc xs))"

section \<open>The sorted array keeps the contract\<close>

definition ia_inv :: "int_array_iterator \<Rightarrow> bool" where
  "ia_inv s \<longleftrightarrow> ia_length s < length (ia_docs s) \<and> ia_docs s ! ia_length s = NO_MORE
     \<and> sorted_wrt (<) (take (ia_length s + 1) (ia_docs s)) \<and> (\<forall>j<ia_length s. 0 \<le> ia_docs s ! j)
     \<and> ia_i s \<le> ia_length s + 1 \<and> ia_doc s = (if ia_i s = 0 then -1 else ia_docs s ! (ia_i s - 1))"

definition ia_set :: "int_array_iterator \<Rightarrow> nat set" where
  "ia_set s = nat ` set (take (ia_length s) (ia_docs s))"

lemma ia_lt:
  assumes "ia_inv s" "a < b" "b \<le> ia_length s"
  shows "ia_docs s ! a < ia_docs s ! b"
  using assms sorted_wrt_nth_less [of "(<)" "take (ia_length s + 1) (ia_docs s)" a b]
  by (simp add: ia_inv_def)

lemma ia_nonneg: "ia_inv s \<Longrightarrow> j \<le> ia_length s \<Longrightarrow> 0 \<le> ia_docs s ! j \<and> ia_docs s ! j \<le> NO_MORE"
  using ia_lt [of s j "ia_length s"] by (cases "j = ia_length s") (auto simp: ia_inv_def)

lemma ia_set_iff:
  assumes "ia_inv s"
  shows "d \<in> ia_set s \<longleftrightarrow> (\<exists>j<ia_length s. ia_docs s ! j = int d)"
proof
  assume "d \<in> ia_set s"
  then obtain j where j: "j < ia_length s" "d = nat (ia_docs s ! j)"
    by (auto simp: ia_set_def in_set_conv_nth)
  with ia_nonneg [OF assms, of j] show "\<exists>j<ia_length s. ia_docs s ! j = int d" by auto
next
  assume "\<exists>j<ia_length s. ia_docs s ! j = int d"
  then obtain j where j: "j < ia_length s" "ia_docs s ! j = int d" by blast
  then have "take (ia_length s) (ia_docs s) ! j \<in> set (take (ia_length s) (ia_docs s))"
    using assms by (intro nth_mem) (simp add: ia_inv_def)
  with j show "d \<in> ia_set s" by (force simp: ia_set_def)
qed

lemma ia_doc_range: "ia_inv s \<Longrightarrow> -1 \<le> ia_doc s \<and> ia_doc s \<le> NO_MORE"
proof (cases "ia_i s = 0")
  case False
  assume inv: "ia_inv s"
  with False have "ia_i s - 1 \<le> ia_length s" "ia_doc s = ia_docs s ! (ia_i s - 1)" by (auto simp: ia_inv_def)
  with ia_nonneg [OF inv, of "ia_i s - 1"] show ?thesis by simp
qed (simp add: ia_inv_def)

text \<open>The document at position \<open>f\<close>, with all before it below the target.\<close>

lemma ia_at:
  assumes inv: "ia_inv s" and f: "f \<le> ia_length s" and t: "0 \<le> t"
    and ge: "t \<le> ia_docs s ! f" and lt: "\<And>j. j < f \<Longrightarrow> ia_docs s ! j < t"
  shows "moves int_array_ops ia_inv ia_set s
    (Inr (ia_docs s ! f, s\<lparr>ia_doc := ia_docs s ! f, ia_i := f + 1\<rparr>)) t"
proof -
  have "doc_from (ia_set s) (nat t) = nat (ia_docs s ! f)"
  proof (cases "f < ia_length s")
    case True
    show ?thesis
    proof (rule doc_fromI)
      show "nat (ia_docs s ! f) \<in> ia_set s" using True ia_nonneg [OF inv f] ia_set_iff [OF inv] by auto
      show "nat t \<le> nat (ia_docs s ! f)" using ge by simp
      fix j assume j: "nat t \<le> j" "j < nat (ia_docs s ! f)"
      show "j \<notin> ia_set s"
      proof
        assume "j \<in> ia_set s"
        then obtain k where k: "k < ia_length s" "ia_docs s ! k = int j" using ia_set_iff [OF inv] by auto
        have "k < f" using ia_lt [OF inv, of f k] k j(2) by (cases "f = k"; cases "f < k") auto
        with lt [of k] k j(1) show False by simp
      qed
    qed
  next
    case False
    with f have "f = ia_length s" by simp
    moreover from this inv have "ia_docs s ! f = NO_MORE" by (simp add: ia_inv_def)
    moreover have "doc_from (ia_set s) (nat t) = NO_MORE_DOCS"
    proof (rule doc_from_noneI)
      fix j assume j: "nat t \<le> j"
      show "j \<notin> ia_set s" using lt ia_set_iff [OF inv, of j] j \<open>f = ia_length s\<close> by force
    qed
    ultimately show ?thesis by simp
  qed
  moreover have "ia_inv (s\<lparr>ia_doc := ia_docs s ! f, ia_i := f + 1\<rparr>)" using inv f by (simp add: ia_inv_def)
  ultimately show ?thesis using ia_nonneg [OF inv f]
    by (simp add: moves_def int_array_ops_def ia_set_def)
qed

lemma ia_below:
  assumes inv: "ia_inv s" and d: "ia_doc s < NO_MORE"
  shows "ia_i s \<le> ia_length s" "j < ia_i s \<Longrightarrow> ia_docs s ! j \<le> ia_doc s"
proof -
  show i: "ia_i s \<le> ia_length s"
    using inv d by (cases "ia_i s = ia_length s + 1") (auto simp: ia_inv_def)
  assume j: "j < ia_i s"
  then have "ia_doc s = ia_docs s ! (ia_i s - 1)" using inv by (simp add: ia_inv_def)
  moreover have "j = ia_i s - 1 \<or> j < ia_i s - 1" "ia_i s - 1 \<le> ia_length s" using i j by auto
  ultimately show "ia_docs s ! j \<le> ia_doc s"
    using ia_lt [OF inv, of j "ia_i s - 1"] by auto
qed

lemma ia_next_moves:
  assumes inv: "ia_inv s" and d: "ia_doc s < NO_MORE"
  shows "moves int_array_ops ia_inv ia_set s (int_array_next_doc s) (ia_doc s + 1)"
proof -
  note b = ia_below [OF assms]
  have "ia_doc s < ia_docs s ! ia_i s"
    using inv b(1) ia_lt [OF inv, of "ia_i s - 1" "ia_i s"] ia_nonneg [OF inv b(1)] by (auto simp: ia_inv_def split: if_splits)
  moreover have "0 \<le> ia_doc s + 1"
    using ia_doc_range [OF inv] by simp
  moreover have "int_array_next_doc s = Inr (ia_docs s ! ia_i s, s\<lparr>ia_doc := ia_docs s ! ia_i s, ia_i := ia_i s + 1\<rparr>)"
    using inv b(1) by (simp add: int_array_next_doc_def ia_inv_def)
  ultimately show ?thesis using ia_at [OF inv b(1), of "ia_doc s + 1"] b(2) by fastforce
qed

lemma gallop_ok:
  assumes "len < length docs" "i \<le> len" "k = 0 \<or> i + 2 ^ (k - 1) < len \<and> docs ! (i + 2 ^ (k - 1)) < target"
  shows "\<exists>k'. gallop docs len i target k = Inr (2 ^ k') \<and> (len \<le> i + 2 ^ k' \<or> target \<le> docs ! (i + 2 ^ k'))
    \<and> (k' = 0 \<or> i + 2 ^ (k' - 1) < len \<and> docs ! (i + 2 ^ (k' - 1)) < target)"
  using assms
proof (induction docs len i target k rule: gallop.induct)
  case (1 docs len i target k)
  show ?case
  proof (cases "i + 2 ^ k < len \<and> docs ! (i + 2 ^ k) < target")
    case True
    then have "\<exists>k'. gallop docs len i target (k + 1) = Inr (2 ^ k') \<and> (len \<le> i + 2 ^ k' \<or> target \<le> docs ! (i + 2 ^ k'))
      \<and> (k' = 0 \<or> i + 2 ^ (k' - 1) < len \<and> docs ! (i + 2 ^ (k' - 1)) < target)"
      using 1 by (intro "1.IH") auto
    with True 1 show ?thesis by (subst gallop.simps) simp
  next
    case False
    with 1 show ?thesis by (subst gallop.simps) (auto intro!: exI [of _ k])
  qed
qed

lemma ia_advance_moves:
  assumes inv: "ia_inv s" and d: "ia_doc s < t" and t: "t \<le> NO_MORE"
  shows "moves int_array_ops ia_inv ia_set s (int_array_advance s t) t"
proof -
  let ?n = "ia_length s" and ?i = "ia_i s"
  define ds where "ds = take (?n + 1) (ia_docs s)"
  note b = ia_below [OF inv]
  have n: "?n < length ds" "length ds = ?n + 1" using inv by (auto simp: ia_inv_def ds_def)
  have ds: "j \<le> ?n \<Longrightarrow> ds ! j = ia_docs s ! j" for j by (simp add: ds_def)
  have i: "?i \<le> ?n" using b(1) d t by simp
  have t0: "0 \<le> t" using ia_doc_range [OF inv] d by simp
  define f where "f = (LEAST j. t \<le> ia_docs s ! j)"
  have last: "t \<le> ia_docs s ! ?n" using inv t by (simp add: ia_inv_def)
  have f: "t \<le> ia_docs s ! f" "f \<le> ?n" unfolding f_def by (rule LeastI, rule last, rule Least_le, rule last)
  have lt: "j < f \<Longrightarrow> ia_docs s ! j < t" for j unfolding f_def by (metis not_less_Least not_le)
  have above: "f \<le> j" if "t \<le> ia_docs s ! j" for j using that lt [of j] by (meson not_le)
  have fi: "?i \<le> f" using b(2) [of f] d t f(1) by (meson not_le order.strict_trans1 order.strict_trans2 le_less_trans)
  obtain k where k: "gallop ds ?n ?i t 0 = Inr (2 ^ k)" "?n \<le> ?i + 2 ^ k \<or> t \<le> ds ! (?i + 2 ^ k)"
      "k = 0 \<or> ?i + 2 ^ (k - 1) < ?n \<and> ds ! (?i + 2 ^ (k - 1)) < t"
    using gallop_ok [OF n(1) i, of 0 t] by auto
  define st where "st = ?i + 2 ^ k div 2"
  define en where "en = min (?i + 2 ^ k + 1) ?n"
  have "st \<le> f"
  proof (cases k)
    case 0
    then show ?thesis using fi by (simp add: st_def)
  next
    case (Suc m)
    then have "ia_docs s ! st < t" "st < ?n" using k(3) ds by (auto simp: st_def)
    then show ?thesis using f(1) ia_lt [OF inv, of f st] by (cases "f = st"; cases "f < st") auto
  qed
  moreover have "f \<le> en"
    using k(2) f(2) above [of "?i + 2 ^ k"] ds [of "?i + 2 ^ k"] by (auto simp: en_def min_def)
  ultimately have order: "st \<le> f" "f \<le> en" "en \<le> ?n" by (auto simp: en_def)
  have "takeWhile (\<lambda>x. x < t) (take (en - st) (drop st ds)) = take (f - st) (take (en - st) (drop st ds))"
    by (rule takeWhile_eq_take_P_nth) (use order n ds lt f(1) in auto)
  then have bs: "binary_search_index (take (en - st) (drop st ds)) t = f - st"
    using order n by (simp add: binary_search_index_def)
  have len: "length ds - 1 = ?n" using n by simp
  have "int_array_advance s t = int_array_advance_in ds ?n s t"
    using inv len by (simp add: int_array_advance_def Let_def ds_def ia_inv_def)
  also have "\<dots> = Inr (ia_docs s ! f, s\<lparr>ia_doc := ia_docs s ! f, ia_i := f + 1\<rparr>)"
    unfolding int_array_advance_in_def k(1) rbind_simps Let_def st_def [symmetric] en_def [symmetric]
    using order n bs ds [of f] f(2) by simp
  finally have "int_array_advance s t = Inr (ia_docs s ! f, s\<lparr>ia_doc := ia_docs s ! f, ia_i := f + 1\<rparr>)" .
  with ia_at [OF inv f(2) t0 f(1) lt] show ?thesis by simp
qed

interpretation int_array_it: disi int_array_ops ia_inv ia_set
proof
  fix s t assume inv: "ia_inv s"
  show "-1 \<le> d_doc_id int_array_ops s \<and> d_doc_id int_array_ops s \<le> NO_MORE"
    using ia_doc_range [OF inv] by (simp add: int_array_ops_def)
  show "ia_set s \<subseteq> {..<NO_MORE_DOCS}"
    using ia_set_iff [OF inv] ia_lt [OF inv, of _ "ia_length s"] inv by (fastforce simp: ia_inv_def)
  show "moves int_array_ops ia_inv ia_set s (d_advance int_array_ops s t) t"
    if "d_doc_id int_array_ops s < t" "t \<le> NO_MORE"
    using ia_advance_moves [OF inv, of t] that by (simp add: int_array_ops_def)
  show "moves int_array_ops ia_inv ia_set s (d_next_doc int_array_ops s) (d_doc_id int_array_ops s + 1)"
    if "d_doc_id int_array_ops s < NO_MORE"
    using ia_next_moves [OF inv] that by (simp add: int_array_ops_def)
qed

section \<open>The complement keeps the contract\<close>

definition not_docs :: "('s \<Rightarrow> nat set) \<Rightarrow> 's not_iterator \<Rightarrow> nat set" where
  "not_docs docs it = {0..<nat (ni_max_doc it)} - docs (ni_in it)"

text \<open>
  Until the end, the inner iterator stands on the next document to skip, and none of its
  documents lies between.
\<close>

definition not_inv ::
  "'s disi_ops \<Rightarrow> ('s \<Rightarrow> bool) \<Rightarrow> ('s \<Rightarrow> nat set) \<Rightarrow> 's not_iterator \<Rightarrow> bool" where
  "not_inv ops good docs it \<longleftrightarrow> good (ni_in it) \<and> d_doc_id ops (ni_in it) = ni_next_skipped_doc it
     \<and> 0 \<le> ni_max_doc it \<and> ni_max_doc it \<le> NO_MORE \<and> -1 \<le> ni_doc it \<and> ni_doc it \<le> NO_MORE
     \<and> (0 \<le> ni_next_skipped_doc it \<and> ni_next_skipped_doc it < NO_MORE \<longrightarrow>
          nat (ni_next_skipped_doc it) \<in> docs (ni_in it))
     \<and> (ni_doc it < NO_MORE \<longrightarrow>
          (\<forall>j. ni_doc it < int j \<and> int j < ni_next_skipped_doc it \<longrightarrow> j \<notin> docs (ni_in it)))"

context disi
begin

lemma doc_from_mem:
  assumes "good s" "doc_from (docs s) a < NO_MORE_DOCS"
  shows "doc_from (docs s) a \<in> docs s"
  using assms by (cases rule: doc_from_cases [of "docs s" a]) auto

lemma doc_from_gap:
  assumes "good s" "a \<le> j" "j < doc_from (docs s) a"
  shows "j \<notin> docs s"
  using assms by (cases rule: doc_from_cases [of "docs s" a]) auto

text \<open>
  In the loop the inner iterator stands at or after the candidate, and everything from
  \<open>t\<close> up to the candidate is skipped.
\<close>

lemma not_loop_moves:
  assumes "good (ni_in it)" "d_doc_id ops (ni_in it) = ni_next_skipped_doc it"
    and "0 \<le> ni_max_doc it" "ni_max_doc it \<le> NO_MORE" "0 \<le> t" "t \<le> ni_doc it" "ni_doc it \<le> NO_MORE"
    and "ni_doc it \<le> ni_next_skipped_doc it"
    and "\<forall>j. ni_doc it \<le> int j \<and> int j < ni_next_skipped_doc it \<longrightarrow> j \<notin> docs (ni_in it)"
    and "ni_next_skipped_doc it < NO_MORE \<longrightarrow> nat (ni_next_skipped_doc it) \<in> docs (ni_in it)"
    and "\<forall>j. t \<le> int j \<and> int j < ni_doc it \<longrightarrow> j \<notin> not_docs docs it"
  shows "moves (not_ops ops) (not_inv ops good docs) (not_docs docs) it (not_loop ops it) t"
  using assms
proof (induction "nat (ni_max_doc it - ni_doc it)" arbitrary: it rule: less_induct)
  case less
  note p = less.prems
  consider (out) "ni_max_doc it \<le> ni_doc it"
    | (hit) "ni_doc it < ni_max_doc it" "ni_doc it \<noteq> ni_next_skipped_doc it"
    | (skip) "ni_doc it < ni_max_doc it" "ni_doc it = ni_next_skipped_doc it" by linarith
  then show ?case
  proof cases
    case out
    have "doc_from (not_docs docs it) (nat t) = NO_MORE_DOCS"
    proof (rule doc_from_noneI)
      fix j assume "nat t \<le> j"
      then show "j \<notin> not_docs docs it" using p(11) out p(3) by (cases "int j < ni_doc it") (auto simp: not_docs_def)
    qed
    moreover have "not_loop ops it = Inr (NO_MORE, it\<lparr>ni_doc := NO_MORE\<rparr>)"
      using out by (subst not_loop.simps) simp
    ultimately show ?thesis using p by (simp add: moves_def not_ops_def not_inv_def not_docs_def)
  next
    case hit
    with p(8) have lt: "ni_doc it < ni_next_skipped_doc it" by simp
    have "doc_from (not_docs docs it) (nat t) = nat (ni_doc it)"
    proof (rule doc_fromI)
      show "nat (ni_doc it) \<in> not_docs docs it" using hit lt p(5,6,9) by (auto simp: not_docs_def)
      show "nat t \<le> nat (ni_doc it)" using p(6) by simp
      fix j assume "nat t \<le> j" "j < nat (ni_doc it)"
      then have "t \<le> int j \<and> int j < ni_doc it" by auto
      with p(11) show "j \<notin> not_docs docs it" by blast
    qed
    moreover have "not_loop ops it = Inr (ni_doc it, it)"
      using hit p(8) by (subst not_loop.simps) simp
    ultimately show ?thesis using p by (auto simp: moves_def not_ops_def not_inv_def)
  next
    case skip
    have lt: "d_doc_id ops (ni_in it) < NO_MORE" using skip p(2,4) by simp
    obtain r s' where n: "d_next_doc ops (ni_in it) = Inr (int r, s')" "good s'" "docs s' = docs (ni_in it)"
      "d_doc_id ops s' = int r" "r = doc_from (docs (ni_in it)) (nat (d_doc_id ops (ni_in it) + 1))"
      "d_doc_id ops (ni_in it) < int r" "r \<le> NO_MORE_DOCS"
      using next_docE [OF p(1) lt] by blast
    let ?it = "it\<lparr>ni_in := s', ni_doc := ni_doc it + 1, ni_next_skipped_doc := int r\<rparr>"
    have add: "i32_add (ni_doc it) 1 = Inr (ni_doc it + 1)" using p(5,6) skip(1) p(4) by simp
    have step: "not_loop ops it = not_loop ops ?it"
      using skip n(1) add by (subst not_loop.simps) simp
    have same: "not_docs docs ?it = not_docs docs it" using n(3) by (simp add: not_docs_def)
    have "moves (not_ops ops) (not_inv ops good docs) (not_docs docs) ?it (not_loop ops ?it) t"
    proof (rule less.hyps)
      show "nat (ni_max_doc ?it - ni_doc ?it) < nat (ni_max_doc it - ni_doc it)" using skip(1) by simp
      show "\<forall>j. ni_doc ?it \<le> int j \<and> int j < ni_next_skipped_doc ?it \<longrightarrow> j \<notin> docs (ni_in ?it)"
      proof (intro allI impI)
        fix j assume "ni_doc ?it \<le> int j \<and> int j < ni_next_skipped_doc ?it"
        then have "nat (d_doc_id ops (ni_in it) + 1) \<le> j" "j < r" using skip p(2) by auto
        then show "j \<notin> docs (ni_in ?it)" using doc_from_gap [OF p(1), of _ j] n(3,5) by simp
      qed
      show "ni_next_skipped_doc ?it < NO_MORE \<longrightarrow> nat (ni_next_skipped_doc ?it) \<in> docs (ni_in ?it)"
        using doc_from_mem [OF p(1)] n(3,5) by simp
      have "nat (ni_doc it) \<in> docs (ni_in it)" using p(2,10) skip p(4) by simp
      then have skipped: "j \<notin> not_docs docs it" if "int j = ni_doc it" for j
        using that by (metis DiffD2 nat_int not_docs_def)
      have "int j < ni_doc ?it \<longleftrightarrow> int j < ni_doc it \<or> int j = ni_doc it" for j by auto
      with skipped p(11) show "\<forall>j. t \<le> int j \<and> int j < ni_doc ?it \<longrightarrow> j \<notin> not_docs docs ?it"
        unfolding same by blast
    qed (use p n skip in auto)
    with step same show ?thesis by (simp add: moves_def)
  qed
qed

lemma not_advance_moves:
  assumes inv: "not_inv ops good docs it" and t: "ni_doc it < t" "t \<le> NO_MORE"
  shows "moves (not_ops ops) (not_inv ops good docs) (not_docs docs) it (not_advance ops it t) t"
proof (cases "ni_next_skipped_doc it < t")
  case True
  have lt: "d_doc_id ops (ni_in it) < t" "good (ni_in it)" using True inv by (simp_all add: not_inv_def)
  obtain r s' where n: "d_advance ops (ni_in it) t = Inr (int r, s')" "good s'" "docs s' = docs (ni_in it)"
    "d_doc_id ops s' = int r" "r = doc_from (docs (ni_in it)) (nat t)" "t \<le> int r" "r \<le> NO_MORE_DOCS"
    using advanceE [OF lt(2,1) t(2)] by blast
  let ?it = "it\<lparr>ni_doc := t, ni_in := s', ni_next_skipped_doc := int r\<rparr>"
  have t0: "0 \<le> t" using inv t by (simp add: not_inv_def)
  have "moves (not_ops ops) (not_inv ops good docs) (not_docs docs) ?it (not_loop ops ?it) t"
  proof (rule not_loop_moves)
    show "\<forall>j. ni_doc ?it \<le> int j \<and> int j < ni_next_skipped_doc ?it \<longrightarrow> j \<notin> docs (ni_in ?it)"
      using doc_from_gap [OF lt(2), of "nat t"] n(3,5) t0 by auto
    show "ni_next_skipped_doc ?it < NO_MORE \<longrightarrow> nat (ni_next_skipped_doc ?it) \<in> docs (ni_in ?it)"
      using doc_from_mem [OF lt(2)] n(3,5) by simp
  qed (use inv n t t0 in \<open>auto simp: not_inv_def\<close>)
  moreover have "not_advance ops it t = not_loop ops ?it" using True n(1) by (simp add: not_advance_def Let_def)
  moreover have "not_docs docs ?it = not_docs docs it" using n(3) by (simp add: not_docs_def)
  ultimately show ?thesis by (simp add: moves_def)
next
  case False
  let ?it = "it\<lparr>ni_doc := t\<rparr>"
  have t0: "0 \<le> t" "ni_doc it < NO_MORE" using inv t by (simp_all add: not_inv_def)
  have "moves (not_ops ops) (not_inv ops good docs) (not_docs docs) ?it (not_loop ops ?it) t"
    by (rule not_loop_moves) (use inv False t t0 in \<open>auto simp: not_inv_def\<close>)
  moreover have "not_advance ops it t = not_loop ops ?it" using False by (simp add: not_advance_def Let_def)
  moreover have "not_docs docs ?it = not_docs docs it" by (simp add: not_docs_def)
  ultimately show ?thesis by (simp add: moves_def)
qed

lemma compl_disi: "disi (not_ops ops) (not_inv ops good docs) (not_docs docs)"
proof
  fix it t assume inv: "not_inv ops good docs it"
  show "-1 \<le> d_doc_id (not_ops ops) it \<and> d_doc_id (not_ops ops) it \<le> NO_MORE"
    using inv by (simp add: not_ops_def not_inv_def)
  show "not_docs docs it \<subseteq> {..<NO_MORE_DOCS}" using inv by (auto simp: not_docs_def not_inv_def)
  show "moves (not_ops ops) (not_inv ops good docs) (not_docs docs) it (d_advance (not_ops ops) it t) t"
    if "d_doc_id (not_ops ops) it < t" "t \<le> NO_MORE"
    using not_advance_moves [OF inv, of t] that by (simp add: not_ops_def)
  show "moves (not_ops ops) (not_inv ops good docs) (not_docs docs) it
      (d_next_doc (not_ops ops) it) (d_doc_id (not_ops ops) it + 1)"
    if "d_doc_id (not_ops ops) it < NO_MORE"
    using not_advance_moves [OF inv, of "ni_doc it + 1"] that inv
    by (simp add: not_ops_def not_inv_def not_next_doc_def)
qed

end

interpretation not_range: disi "not_ops range_disi_ops" "not_inv range_disi_ops range_inv range_docs"
  "not_docs range_docs"
  by (rule range_it.compl_disi)

interpretation not_int_array: disi "not_ops int_array_ops" "not_inv int_array_ops ia_inv ia_set"
  "not_docs ia_set"
  by (rule int_array_it.compl_disi)

section \<open>The conjunction keeps the contract\<close>

text \<open>
  \<open>D i\<close> are the documents of sub-iterator \<open>i\<close>. A sub-iterator is on \<open>doc\<close> when it
  stands there and \<open>doc\<close> is one of its documents or the end.
\<close>

definition subs_ok :: "('s \<Rightarrow> bool) \<Rightarrow> ('s \<Rightarrow> nat set) \<Rightarrow> (nat \<Rightarrow> nat set) \<Rightarrow> nat \<Rightarrow> 's list \<Rightarrow> bool" where
  "subs_ok good docs D n xs \<longleftrightarrow> length xs = n \<and> (\<forall>i<n. good (xs ! i) \<and> docs (xs ! i) = D i)"

definition sub_on :: "'s disi_ops \<Rightarrow> (nat \<Rightarrow> nat set) \<Rightarrow> 's list \<Rightarrow> int \<Rightarrow> nat \<Rightarrow> bool" where
  "sub_on ops D xs doc i \<longleftrightarrow> d_doc_id ops (xs ! i) = doc \<and> (doc = NO_MORE \<or> nat doc \<in> D i)"

definition sub_upto :: "'s disi_ops \<Rightarrow> (nat \<Rightarrow> nat set) \<Rightarrow> 's list \<Rightarrow> int \<Rightarrow> nat \<Rightarrow> bool" where
  "sub_upto ops D xs doc i \<longleftrightarrow> d_doc_id ops (xs ! i) < doc \<or> sub_on ops D xs doc i"

text \<open>No document of all the sub-iterators lies in \<open>{a..<b}\<close>.\<close>

definition no_common :: "(nat \<Rightarrow> nat set) \<Rightarrow> nat \<Rightarrow> int \<Rightarrow> int \<Rightarrow> bool" where
  "no_common D n a b \<longleftrightarrow> (\<forall>j. a \<le> int j \<longrightarrow> int j < b \<longrightarrow> (\<exists>i<n. j \<notin> D i))"

lemma no_common_join: "no_common D n a b \<Longrightarrow> no_common D n b c \<Longrightarrow> no_common D n a c"
  unfolding no_common_def by (meson not_le)

lemma no_common_gap: "i < n \<Longrightarrow> (\<And>j. a \<le> int j \<Longrightarrow> int j < b \<Longrightarrow> j \<notin> D i) \<Longrightarrow> no_common D n a b"
  unfolding no_common_def by blast

lemma sub_on_update [simp]: "i \<noteq> k \<Longrightarrow> sub_on ops D (xs[k := x]) doc i = sub_on ops D xs doc i"
  by (simp add: sub_on_def)

lemma sub_upto_later: "sub_upto ops D xs doc i \<Longrightarrow> doc < doc' \<Longrightarrow> sub_upto ops D xs doc' i"
  by (auto simp: sub_upto_def sub_on_def)

lemma sub_upto_update [simp]: "i \<noteq> k \<Longrightarrow> sub_upto ops D (xs[k := x]) doc i = sub_upto ops D xs doc i"
  by (simp add: sub_upto_def)

text \<open>
  What the loop over the others achieves: they all agree on \<open>doc\<close>, or the lead has
  moved on past it, with nothing in common in between.
\<close>

definition others_post where
  "others_post ops good docs D n lead1 is doc xs r \<longleftrightarrow>
    (case r of
       Inr xs' \<Rightarrow> subs_ok good docs D n xs' \<and> (\<forall>i\<in>set is. sub_on ops D xs' doc i)
         \<and> (\<forall>i. i \<notin> set is \<longrightarrow> xs' ! i = xs ! i)
     | Inl (doc', xs') \<Rightarrow> subs_ok good docs D n xs' \<and> doc < doc' \<and> doc' \<le> NO_MORE
         \<and> sub_on ops D xs' doc' lead1 \<and> no_common D n doc doc'
         \<and> (\<forall>i\<in>set is. sub_upto ops D xs' doc' i)
         \<and> (\<forall>i. i \<notin> set is \<longrightarrow> i \<noteq> lead1 \<longrightarrow> xs' ! i = xs ! i))"

text \<open>The state of the outer loop, and the state in which it returns.\<close>

definition conj_wf :: "nat \<Rightarrow> 's conjunction \<Rightarrow> bool" where
  "conj_wf n c \<longleftrightarrow> distinct (cj_lead1 c # cj_lead2 c # cj_others c)
     \<and> set (cj_lead1 c # cj_lead2 c # cj_others c) = {..<n}"

definition conj_state where
  "conj_state ops good docs D n c t doc xs \<longleftrightarrow> subs_ok good docs D n xs \<and> 0 \<le> t \<and> t \<le> doc \<and> doc \<le> NO_MORE
     \<and> sub_on ops D xs doc (cj_lead1 c) \<and> d_doc_id ops (xs ! cj_lead2 c) < doc
     \<and> (\<forall>i\<in>set (cj_others c). sub_upto ops D xs doc i) \<and> no_common D n t doc"

definition conj_done where
  "conj_done ops good docs D n t doc xs \<longleftrightarrow> subs_ok good docs D n xs \<and> 0 \<le> t \<and> t \<le> doc \<and> doc \<le> NO_MORE
     \<and> (\<forall>i<n. sub_on ops D xs doc i) \<and> no_common D n t doc"

lemma conj_wf_cases: "conj_wf n c \<Longrightarrow> i < n \<Longrightarrow> i = cj_lead1 c \<or> i = cj_lead2 c \<or> i \<in> set (cj_others c)"
  by (auto simp: conj_wf_def)

lemma conj_wf_lt:
  assumes "conj_wf n c"
  shows "cj_lead1 c < n" "cj_lead2 c < n" "cj_lead1 c \<noteq> cj_lead2 c" "cj_lead1 c \<notin> set (cj_others c)"
    "cj_lead2 c \<notin> set (cj_others c)" "distinct (cj_others c)" "set (cj_others c) \<subseteq> {..<n}"
  using assms by (auto simp: conj_wf_def)

context disi
begin

lemma sub_advanceE:
  assumes ok: "subs_ok good docs D n xs" and i: "i < n" and u: "d_doc_id ops (xs ! i) < u" "0 \<le> u" "u \<le> NO_MORE"
  obtains r x where "sub_advance ops xs i u = Inr (r, xs[i := x])" "subs_ok good docs D n (xs[i := x])"
    "sub_on ops D (xs[i := x]) r i" "u \<le> r" "r \<le> NO_MORE" "no_common D n u r"
proof -
  have x: "good (xs ! i)" "docs (xs ! i) = D i" "i < length xs" using ok i by (auto simp: subs_ok_def)
  obtain r s' where n: "d_advance ops (xs ! i) u = Inr (int r, s')" "good s'" "docs s' = docs (xs ! i)"
      "d_doc_id ops s' = int r" "r = doc_from (docs (xs ! i)) (nat u)" "u \<le> int r" "r \<le> NO_MORE_DOCS"
    using advanceE [OF x(1) u(1,3)] by blast
  show thesis
  proof (rule that)
    show "sub_advance ops xs i u = Inr (int r, xs[i := s'])" using x(3) n(1) by (simp add: sub_advance_def)
    show "subs_ok good docs D n (xs[i := s'])" using ok n(2,3) x(2,3) by (simp add: subs_ok_def nth_list_update)
    have "r = NO_MORE_DOCS \<or> r \<in> D i" using doc_from_mem [OF x(1)] n(5,7) x(2) by (metis le_neq_implies_less)
    then show "sub_on ops D (xs[i := s']) (int r) i" using x(3) n(4) by (auto simp: sub_on_def)
    have "j \<notin> D i" if "u \<le> int j" "int j < int r" for j
      using doc_from_gap [OF x(1), of "nat u" j] that n(5) x(2) by (simp add: nat_le_iff)
    then show "no_common D n u (int r)" by (rule no_common_gap [OF i])
  qed (use n in auto)
qed

lemma others_loop_ok:
  assumes "subs_ok good docs D n xs" "distinct is" "set is \<subseteq> {..<n}" "lead1 < n" "lead1 \<notin> set is"
    and "sub_on ops D xs doc lead1" "0 \<le> doc" "doc \<le> NO_MORE" "\<forall>i\<in>set is. sub_upto ops D xs doc i"
  shows "\<exists>r. others_loop ops lead1 is doc xs = Inr r \<and> others_post ops good docs D n lead1 is doc xs r"
  using assms
proof (induction "is" arbitrary: xs)
  case Nil
  then show ?case by (simp add: others_post_def)
next
  case (Cons i "is")
  have i: "i < n" "i \<noteq> lead1" "i \<notin> set is" "i < length xs" using Cons.prems by (auto simp: subs_ok_def)
  show ?case
  proof (cases "d_doc_id ops (xs ! i) < doc")
    case False
    with Cons.prems have on: "sub_on ops D xs doc i" by (auto simp: sub_upto_def)
    from Cons.IH [of xs] Cons.prems obtain r where r: "others_loop ops lead1 is doc xs = Inr r"
        "others_post ops good docs D n lead1 is doc xs r" by auto
    have "others_loop ops lead1 (i # is) doc xs = Inr r" using False i(4) r(1) by simp
    moreover have "others_post ops good docs D n lead1 (i # is) doc xs r"
      using r(2) on i unfolding others_post_def
      by (auto simp: sub_on_def sub_upto_def split: sum.splits)
    ultimately show ?thesis by blast
  next
    case True
    obtain nx x where a: "sub_advance ops xs i doc = Inr (nx, xs[i := x])"
        "subs_ok good docs D n (xs[i := x])" "sub_on ops D (xs[i := x]) nx i" "doc \<le> nx" "nx \<le> NO_MORE"
        "no_common D n doc nx"
      using sub_advanceE [OF Cons.prems(1) i(1) True Cons.prems(7,8)] by blast
    have upto: "\<forall>k\<in>set is. sub_upto ops D (xs[i := x]) doc k"
      using Cons.prems(9) i(3) by (metis list.set_intros(2) sub_upto_update)
    have lead: "sub_on ops D (xs[i := x]) doc lead1" using Cons.prems(6) i(2) by simp
    show ?thesis
    proof (cases "doc < nx")
      case True
      have lt: "d_doc_id ops (xs[i := x] ! lead1) < nx" "0 \<le> nx"
        using lead True Cons.prems(7) by (simp_all add: sub_on_def)
      obtain doc' y where b: "sub_advance ops (xs[i := x]) lead1 nx = Inr (doc', xs[i := x, lead1 := y])"
          "subs_ok good docs D n (xs[i := x, lead1 := y])" "sub_on ops D (xs[i := x, lead1 := y]) doc' lead1"
          "nx \<le> doc'" "doc' \<le> NO_MORE" "no_common D n nx doc'"
        using sub_advanceE [OF a(2) Cons.prems(4) lt a(5)] by blast
      have "sub_upto ops D (xs[i := x, lead1 := y]) doc' k" if "k \<in> set (i # is)" for k
      proof -
        have "k \<noteq> lead1" using that Cons.prems(5) by auto
        moreover have "sub_upto ops D (xs[i := x]) doc' k"
        proof (cases "k = i")
          case True
          then show ?thesis using a(3) b(4) by (auto simp: sub_upto_def sub_on_def)
        next
          case False
          then show ?thesis using upto that sub_upto_later [of ops D "xs[i := x]" doc k doc'] True b(4) by auto
        qed
        ultimately show ?thesis by simp
      qed
      then have "others_post ops good docs D n lead1 (i # is) doc xs (Inl (doc', xs[i := x, lead1 := y]))"
        using b True no_common_join [OF a(6) b(6)] by (auto simp: others_post_def)
      moreover have "others_loop ops lead1 (i # is) doc xs = Inr (Inl (doc', xs[i := x, lead1 := y]))"
        using \<open>d_doc_id ops (xs ! i) < doc\<close> i(4) a(1) b(1) True by simp
      ultimately show ?thesis by blast
    next
      case False
      with a(4) have nx: "nx = doc" by simp
      from Cons.IH [OF a(2)] Cons.prems lead upto obtain r where
        r: "others_loop ops lead1 is doc (xs[i := x]) = Inr r"
          "others_post ops good docs D n lead1 is doc (xs[i := x]) r" by auto
      have "others_post ops good docs D n lead1 (i # is) doc xs r"
        using r(2) a(3) i nx unfolding others_post_def
        by (auto simp: sub_on_def sub_upto_def split: sum.splits)
      moreover have "others_loop ops lead1 (i # is) doc xs = Inr r"
        using \<open>d_doc_id ops (xs ! i) < doc\<close> i(4) a(1) r(1) False by simp
      ultimately show ?thesis by blast
    qed
  qed
qed

text \<open>Once the two leads agree, the pass is the loop over the others.\<close>

lemma conj_others_step:
  assumes wf: "conj_wf n c" and ok: "subs_ok good docs D n xs" and t: "0 \<le> t" "t \<le> doc" "doc \<le> NO_MORE"
    and on: "sub_on ops D xs doc (cj_lead1 c)" "sub_on ops D xs doc (cj_lead2 c)"
    and others: "\<forall>i\<in>set (cj_others c). sub_upto ops D xs doc i" and gap: "no_common D n t doc"
  shows "\<exists>r. others_loop ops (cj_lead1 c) (cj_others c) doc xs = Inr r \<and>
    (case r of Inl (doc', xs') \<Rightarrow> doc < doc' \<and> conj_state ops good docs D n c t doc' xs'
             | Inr xs' \<Rightarrow> conj_done ops good docs D n t doc xs')"
proof -
  note w = conj_wf_lt [OF wf]
  have doc0: "0 \<le> doc" using t by simp
  obtain r where r: "others_loop ops (cj_lead1 c) (cj_others c) doc xs = Inr r"
      "others_post ops good docs D n (cj_lead1 c) (cj_others c) doc xs r"
    using others_loop_ok [OF ok w(6,7,1,4) on(1) doc0 t(3) others] by blast
  show ?thesis
  proof (cases r)
    case (Inl p)
    obtain doc' xs' where p: "p = (doc', xs')" by (cases p)
    have "xs' ! cj_lead2 c = xs ! cj_lead2 c" using r(2) Inl p w(3,5) by (auto simp: others_post_def)
    then have "d_doc_id ops (xs' ! cj_lead2 c) = doc" using on(2) by (simp add: sub_on_def)
    then have "doc < doc' \<and> conj_state ops good docs D n c t doc' xs'"
      using r(2) Inl p t no_common_join [OF gap] by (auto simp: others_post_def conj_state_def)
    with r(1) Inl p show ?thesis by simp
  next
    case (Inr xs')
    have post: "subs_ok good docs D n xs'" "\<forall>i\<in>set (cj_others c). sub_on ops D xs' doc i"
        "\<forall>i. i \<notin> set (cj_others c) \<longrightarrow> xs' ! i = xs ! i"
      using r(2) Inr by (auto simp: others_post_def)
    have "sub_on ops D xs' doc i" if "i < n" for i
      using conj_wf_cases [OF wf that] post(2,3) on w(4,5) by (auto simp: sub_on_def)
    then have "conj_done ops good docs D n t doc xs'" using post(1) t gap by (simp add: conj_done_def)
    with r(1) Inr show ?thesis by simp
  qed
qed

lemma conj_pass_ok:
  assumes wf: "conj_wf n c" and st: "conj_state ops good docs D n c t doc xs"
  shows "\<exists>r. conj_pass ops c doc xs = Inr r \<and>
    (case r of Inl (doc', xs') \<Rightarrow> doc < doc' \<and> conj_state ops good docs D n c t doc' xs'
             | Inr (doc', xs') \<Rightarrow> conj_done ops good docs D n t doc' xs')"
proof -
  note w = conj_wf_lt [OF wf] and st' = st [unfolded conj_state_def]
  have ok: "subs_ok good docs D n xs" and doc: "0 \<le> doc" "doc \<le> NO_MORE" "0 \<le> t" "t \<le> doc" using st' by auto
  have len: "cj_lead1 c < length xs" using ok w(1) by (simp add: subs_ok_def)
  have lead: "d_doc_id ops (xs ! cj_lead1 c) = doc" using st' by (simp add: sub_on_def)
  obtain next2 y where a: "sub_advance ops xs (cj_lead2 c) doc = Inr (next2, xs[cj_lead2 c := y])"
      "subs_ok good docs D n (xs[cj_lead2 c := y])" "sub_on ops D (xs[cj_lead2 c := y]) next2 (cj_lead2 c)"
      "doc \<le> next2" "next2 \<le> NO_MORE" "no_common D n doc next2"
    using sub_advanceE [OF ok w(2)] st' doc by metis
  let ?xs = "xs[cj_lead2 c := y]"
  have others: "\<forall>i\<in>set (cj_others c). sub_upto ops D ?xs doc i"
    using st' w(5) by (metis sub_upto_update)
  have lead1: "sub_on ops D ?xs doc (cj_lead1 c)" using st' w(3) by simp
  show ?thesis
  proof (cases "next2 = doc")
    case True
    obtain r where r: "others_loop ops (cj_lead1 c) (cj_others c) doc ?xs = Inr r"
        "case r of Inl (doc', xs') \<Rightarrow> doc < doc' \<and> conj_state ops good docs D n c t doc' xs'
          | Inr xs' \<Rightarrow> conj_done ops good docs D n t doc xs'"
      using conj_others_step [OF wf a(2) doc(3,4,2) lead1 _ others] a(3) True st' by auto
    then show ?thesis
      using len lead a(1) True by (auto simp: conj_pass_def split: sum.splits)
  next
    case False
    then have lt: "d_doc_id ops (?xs ! cj_lead1 c) < next2" "0 \<le> next2" using a(4) lead w(3) doc by auto
    obtain doc' z where b: "sub_advance ops ?xs (cj_lead1 c) next2 = Inr (doc', ?xs[cj_lead1 c := z])"
        "subs_ok good docs D n (?xs[cj_lead1 c := z])" "sub_on ops D (?xs[cj_lead1 c := z]) doc' (cj_lead1 c)"
        "next2 \<le> doc'" "doc' \<le> NO_MORE" "no_common D n next2 doc'"
      using sub_advanceE [OF a(2) w(1) lt a(5)] by blast
    let ?ys = "?xs[cj_lead1 c := z]"
    have gt: "doc < doc'" using False a(4) b(4) by simp
    have others': "\<forall>i\<in>set (cj_others c). sub_upto ops D ?ys doc' i"
      using others w(4) sub_upto_later [OF _ gt] by (metis sub_upto_update)
    have lead2: "sub_on ops D ?ys next2 (cj_lead2 c)" using a(3) w(3) by simp
    have gap: "no_common D n t doc'"
      using st' no_common_join [OF _ no_common_join [OF a(6) b(6)]] by blast
    show ?thesis
    proof (cases "doc' = next2")
      case True
      obtain r where r: "others_loop ops (cj_lead1 c) (cj_others c) doc' ?ys = Inr r"
          "case r of Inl (doc'', xs') \<Rightarrow> doc' < doc'' \<and> conj_state ops good docs D n c t doc'' xs'
            | Inr xs' \<Rightarrow> conj_done ops good docs D n t doc' xs'"
        using conj_others_step [OF wf b(2) doc(3) _ b(5) b(3) _ others' gap] lead2 True gt doc(4) by auto
      then show ?thesis
        using len lead a(1) b(1) True False gt by (auto simp: conj_pass_def split: sum.splits)
    next
      case ne: False
      have "conj_state ops good docs D n c t doc' ?ys"
        using b ne lead2 others' gap gt doc by (auto simp: conj_state_def sub_on_def)
      with ne False gt len lead a(1) b(1) show ?thesis by (simp add: conj_pass_def)
    qed
  qed
qed

lemma conj_do_next_ok:
  assumes wf: "conj_wf n c" and "conj_state ops good docs D n c t doc xs"
  shows "\<exists>doc' xs'. conj_do_next ops c doc xs = Some (Inr (doc', xs')) \<and> conj_done ops good docs D n t doc' xs'"
  using assms(2)
proof (induction "nat (NO_MORE - doc)" arbitrary: doc xs rule: less_induct)
  case less
  obtain r where r: "conj_pass ops c doc xs = Inr r"
      "case r of Inl (doc', xs') \<Rightarrow> doc < doc' \<and> conj_state ops good docs D n c t doc' xs'
        | Inr (doc', xs') \<Rightarrow> conj_done ops good docs D n t doc' xs'"
    using conj_pass_ok [OF wf less.prems] by blast
  show ?case
  proof (cases r)
    case (Inl p)
    obtain doc' xs' where p: "p = (doc', xs')" by (cases p)
    with r(2) Inl have st: "doc < doc'" "conj_state ops good docs D n c t doc' xs'" by auto
    then have "nat (NO_MORE - doc') < nat (NO_MORE - doc)" by (simp add: conj_state_def)
    from less.hyps [OF this st(2)] r(1) Inl p show ?thesis by (subst conj_do_next.simps) simp
  next
    case (Inr p)
    with r show ?thesis by (cases p) (subst conj_do_next.simps, simp)
  qed
qed

end

definition conj_inv :: "'s disi_ops \<Rightarrow> ('s \<Rightarrow> bool) \<Rightarrow> 's conjunction \<Rightarrow> bool" where
  "conj_inv ops good c \<longleftrightarrow> conj_wf (length (cj_all c)) c \<and>
     (\<forall>x\<in>set (cj_all c). good x \<and> d_doc_id ops x = d_doc_id ops (cj_all c ! cj_lead1 c))"

definition conj_docs :: "('s \<Rightarrow> nat set) \<Rightarrow> 's conjunction \<Rightarrow> nat set" where
  "conj_docs docs c = {d. \<forall>x\<in>set (cj_all c). d \<in> docs x}"

lemma for_each_true:
  "(\<And>i. i \<in> set is \<Longrightarrow> f i True = Inr True) \<Longrightarrow> for_each is f True = Inr True"
  by (induction "is") simp_all

lemma same_doc_ok:
  assumes "conj_inv ops good c"
  shows "same_doc ops c = Inr True"
proof -
  have wf: "conj_wf (length (cj_all c)) c" using assms by (simp add: conj_inv_def)
  note w = conj_wf_lt [OF wf]
  have same: "d_doc_id ops (cj_all c ! i) = d_doc_id ops (cj_all c ! cj_lead1 c)" if "i < length (cj_all c)" for i
    using assms that unfolding conj_inv_def by (meson nth_mem)
  have "for_each (cj_others c) (\<lambda>i b. if b then rbind (idx (cj_all c) i) (\<lambda>z.
      Inr (d_doc_id ops z = d_doc_id ops (cj_all c ! cj_lead1 c))) else Inr b) True = Inr True"
    by (rule for_each_true) (use w(7) same in auto)
  with w(1,2) same [OF w(2)] show ?thesis by (simp add: same_doc_def)
qed

text \<open>
  \<open>conj_moves\<close>: the call leaves the conjunction on the least common document at or after
  the target, with all sub-iterators on it.
\<close>

definition conj_moves where
  "conj_moves ops good docs c r t \<longleftrightarrow>
     (\<exists>c'. r = Some (Inr (int (doc_from (conj_docs docs c) (nat t)), c')) \<and> conj_inv ops good c'
        \<and> conj_docs docs c' = conj_docs docs c
        \<and> conj_doc_id ops c' = Inr (int (doc_from (conj_docs docs c) (nat t))))"

context disi
begin

lemma conj_done_moves:
  assumes inv: "conj_inv ops good c"
    and d: "conj_done ops good docs (\<lambda>i. docs (cj_all c ! i)) (length (cj_all c)) t doc xs"
  shows "conj_moves ops good docs c (conj_finish c (Some (Inr (doc, xs)))) t"
proof -
  let ?n = "length (cj_all c)" and ?D = "\<lambda>i. docs (cj_all c ! i)"
  let ?c = "c\<lparr>cj_all := xs\<rparr>"
  have wf: "conj_wf ?n c" using inv by (simp add: conj_inv_def)
  note w = conj_wf_lt [OF wf]
  have len: "length xs = ?n" and sub: "\<And>i. i < ?n \<Longrightarrow> good (xs ! i) \<and> docs (xs ! i) = ?D i"
    and on: "\<And>i. i < ?n \<Longrightarrow> d_doc_id ops (xs ! i) = doc \<and> (doc = NO_MORE \<or> nat doc \<in> ?D i)"
    and t: "0 \<le> t" "t \<le> doc" "doc \<le> NO_MORE" and gap: "no_common ?D ?n t doc"
    using d by (auto simp: conj_done_def subs_ok_def sub_on_def)
  have docs: "j \<in> conj_docs docs c \<longleftrightarrow> (\<forall>i<?n. j \<in> ?D i)" for j
    by (simp add: conj_docs_def all_set_conv_all_nth)
  have "doc_from (conj_docs docs c) (nat t) = nat doc"
  proof (cases "doc = NO_MORE")
    case True
    have "good (cj_all c ! cj_lead1 c)" using inv w(1) by (simp add: conj_inv_def)
    then have "j < NO_MORE_DOCS" if "j \<in> conj_docs docs c" for j
      using that docs_lt w(1) docs by blast
    with gap True t show ?thesis
      by (auto intro!: doc_from_noneI simp: no_common_def docs nat_le_iff)
  next
    case False
    show ?thesis
    proof (rule doc_fromI)
      show "nat doc \<in> conj_docs docs c" using on False by (simp add: docs)
      show "nat t \<le> nat doc" using t by simp
      fix j assume "nat t \<le> j" "j < nat doc"
      with gap t show "j \<notin> conj_docs docs c" by (auto simp: no_common_def docs nat_le_iff)
    qed
  qed
  moreover have "conj_inv ops good ?c"
    using wf len sub on w(1) by (auto simp: conj_inv_def conj_wf_def in_set_conv_nth)
  moreover have "conj_docs docs ?c = conj_docs docs c"
    using sub len by (fastforce simp: conj_docs_def in_set_conv_nth)
  moreover have "conj_doc_id ops ?c = Inr doc" using on w(1) len by (simp add: conj_doc_id_def)
  ultimately show ?thesis using t by (simp add: conj_moves_def conj_finish_def)
qed

lemma conj_start:
  assumes inv: "conj_inv ops good c" and t: "d_doc_id ops (cj_all c ! cj_lead1 c) < t" "t \<le> NO_MORE"
    and x: "good x" "docs x = docs (cj_all c ! cj_lead1 c)" "d_doc_id ops x = int r"
    and r: "r = doc_from (docs (cj_all c ! cj_lead1 c)) (nat t)"
  shows "conj_moves ops good docs c (conj_finish c (conj_do_next ops c (int r) ((cj_all c)[cj_lead1 c := x]))) t"
proof -
  let ?n = "length (cj_all c)" and ?D = "\<lambda>i. docs (cj_all c ! i)" and ?xs = "(cj_all c)[cj_lead1 c := x]"
  have wf: "conj_wf ?n c" using inv by (simp add: conj_inv_def)
  note w = conj_wf_lt [OF wf]
  have sub: "good (cj_all c ! i)" "d_doc_id ops (cj_all c ! i) < t" if "i < ?n" for i
    using inv that t unfolding conj_inv_def by (metis nth_mem)+
  note g = sub(1) [OF w(1)]
  have t0: "0 \<le> t" using t(1) doc_id_range [OF g] by simp
  have b: "nat t \<le> r" "r \<le> NO_MORE_DOCS" unfolding r
    by (rule doc_from_bounds [OF docs_bound [OF g]], use t(2) in \<open>simp add: nat_le_iff\<close>)+
  have "subs_ok good docs ?D ?n ?xs"
    using sub x(1,2) w(1) by (simp add: subs_ok_def nth_list_update)
  moreover have "no_common ?D ?n t (int r)"
  proof (rule no_common_gap [OF w(1)])
    fix j assume "t \<le> int j" "int j < int r"
    then show "j \<notin> ?D (cj_lead1 c)" using doc_from_gap [OF g, of "nat t" j] r by (simp add: nat_le_iff)
  qed
  moreover have "sub_upto ops ?D ?xs (int r) i" if "i \<in> set (cj_others c)" for i
  proof -
    have "i < ?n" "i \<noteq> cj_lead1 c" using that w(4,7) by auto
    with sub(2) [of i] b(1) show ?thesis by (simp add: sub_upto_def nat_le_iff)
  qed
  moreover have "sub_on ops ?D ?xs (int r) (cj_lead1 c)"
    using doc_from_mem [OF g] b(2) r w(1) x(3) by (auto simp: sub_on_def le_less)
  moreover have "d_doc_id ops (?xs ! cj_lead2 c) < int r"
    using sub(2) [OF w(2)] w(3) b(1) by (simp add: nat_le_iff)
  ultimately have "conj_state ops good docs ?D ?n c t (int r) ?xs"
    using t0 b by (simp add: conj_state_def nat_le_iff)
  from conj_do_next_ok [OF wf this] conj_done_moves [OF inv] show ?thesis by auto
qed

lemma conj_advance_moves:
  assumes inv: "conj_inv ops good c" and t: "d_doc_id ops (cj_all c ! cj_lead1 c) < t" "t \<le> NO_MORE"
  shows "conj_moves ops good docs c (conj_advance ops c t) t"
proof -
  let ?x = "cj_all c ! cj_lead1 c"
  have w: "cj_lead1 c < length (cj_all c)" and g: "good ?x"
    using inv conj_wf_lt [of "length (cj_all c)" c] by (auto simp: conj_inv_def)
  obtain r x where n: "d_advance ops ?x t = Inr (int r, x)" "good x" "docs x = docs ?x"
      "d_doc_id ops x = int r" "r = doc_from (docs ?x) (nat t)" "t \<le> int r" "r \<le> NO_MORE_DOCS"
    using advanceE [OF g t] by blast
  from conj_start [OF inv t n(2-5)] show ?thesis
    using n(1) w by (simp add: conj_advance_def same_doc_ok [OF inv] sub_advance_def)
qed

lemma conj_next_doc_moves:
  assumes inv: "conj_inv ops good c" and d: "d_doc_id ops (cj_all c ! cj_lead1 c) < NO_MORE"
  shows "conj_moves ops good docs c (conj_next_doc ops c) (d_doc_id ops (cj_all c ! cj_lead1 c) + 1)"
proof -
  let ?x = "cj_all c ! cj_lead1 c"
  let ?t = "d_doc_id ops ?x + 1"
  have w: "cj_lead1 c < length (cj_all c)" and g: "good ?x"
    using inv conj_wf_lt [of "length (cj_all c)" c] by (auto simp: conj_inv_def)
  obtain r x where n: "d_next_doc ops ?x = Inr (int r, x)" "good x" "docs x = docs ?x"
      "d_doc_id ops x = int r" "r = doc_from (docs ?x) (nat ?t)" "d_doc_id ops ?x < int r" "r \<le> NO_MORE_DOCS"
    using next_docE [OF g d] by blast
  have t: "d_doc_id ops ?x < ?t" "?t \<le> NO_MORE" using d by simp_all
  from conj_start [OF inv t n(2-5)] show ?thesis
    using n(1) w by (simp add: conj_next_doc_def same_doc_ok [OF inv])
qed

end

section \<open>\<open>BitSetConjunctionDISI\<close>\<close>

record ('s, 'b) bs_conjunction =
  bc_lead :: 's
  bc_bit_set_iterators :: "'b bit_set_iterator list"
  bc_min_length :: int

fun all_get :: "'b bit_set_ops \<Rightarrow> nat \<Rightarrow> 'b bit_set_iterator list \<Rightarrow> bool res" where
  "all_get bops doc [] = Inr True"
| "all_get bops doc (it # its) =
     rbind (b_get bops (bi_bits it) doc) (\<lambda>b. if b then all_get bops doc its else Inr False)"

partial_function (option) bc_do_next ::
  "'s disi_ops \<Rightarrow> 'b bit_set_ops \<Rightarrow> int \<Rightarrow> ('s, 'b) bs_conjunction \<Rightarrow>
   (int \<times> ('s, 'b) bs_conjunction) res option" where
  "bc_do_next ops bops doc c =
     (if bc_min_length c \<le> doc
      then Some (if doc \<noteq> NO_MORE
             then rbind (d_advance ops (bc_lead c) NO_MORE) (\<lambda>(_, lead). Inr (NO_MORE, c\<lparr>bc_lead := lead\<rparr>))
             else Inr (NO_MORE, c))
      else
        (case all_get bops (nat (doc mod 2 ^ 64)) (bc_bit_set_iterators c) of
           Inl e \<Rightarrow> Some (Inl e)
         | Inr b \<Rightarrow>
             if b
             then Some (Inr (doc, c\<lparr>bc_bit_set_iterators := map (\<lambda>it. bsi_set_doc_id it doc) (bc_bit_set_iterators c)\<rparr>))
             else (case d_next_doc ops (bc_lead c) of
                     Inl e \<Rightarrow> Some (Inl e)
                   | Inr (doc, lead) \<Rightarrow> bc_do_next ops bops doc (c\<lparr>bc_lead := lead\<rparr>))))"

definition bc_same_doc :: "'s disi_ops \<Rightarrow> ('s, 'b) bs_conjunction \<Rightarrow> bool" where
  "bc_same_doc ops c \<longleftrightarrow>
     list_all (\<lambda>it. bi_doc it = d_doc_id ops (bc_lead c)) (bc_bit_set_iterators c)"

definition bc_advance ::
  "'s disi_ops \<Rightarrow> 'b bit_set_ops \<Rightarrow> ('s, 'b) bs_conjunction \<Rightarrow> int \<Rightarrow>
   (int \<times> ('s, 'b) bs_conjunction) res option" where
  "bc_advance ops bops c target =
     (case dassert (bc_same_doc ops c) (d_advance ops (bc_lead c) target) of
        Inl e \<Rightarrow> Some (Inl e)
      | Inr (doc, lead) \<Rightarrow> bc_do_next ops bops doc (c\<lparr>bc_lead := lead\<rparr>))"

definition bc_next_doc ::
  "'s disi_ops \<Rightarrow> 'b bit_set_ops \<Rightarrow> ('s, 'b) bs_conjunction \<Rightarrow>
   (int \<times> ('s, 'b) bs_conjunction) res option" where
  "bc_next_doc ops bops c =
     (case dassert (bc_same_doc ops c) (d_next_doc ops (bc_lead c)) of
        Inl e \<Rightarrow> Some (Inl e)
      | Inr (doc, lead) \<Rightarrow> bc_do_next ops bops doc (c\<lparr>bc_lead := lead\<rparr>))"

text \<open>
  The invariant: the minimal length is that of the shortest bit set, and until the end
  the bit-set iterators stand where the lead does.
\<close>

definition bc_inv where
  "bc_inv ops good bops bgood c \<longleftrightarrow> good (bc_lead c) \<and> bc_min_length c \<le> NO_MORE
     \<and> (\<forall>it\<in>set (bc_bit_set_iterators c). bgood (bi_bits it)
          \<and> bc_min_length c \<le> int (b_length bops (bi_bits it)))
     \<and> (\<exists>it\<in>set (bc_bit_set_iterators c). int (b_length bops (bi_bits it)) = bc_min_length c)
     \<and> (d_doc_id ops (bc_lead c) < NO_MORE \<longrightarrow> bc_same_doc ops c)"

definition bc_docs where
  "bc_docs docs bits c = {d \<in> docs (bc_lead c). \<forall>it\<in>set (bc_bit_set_iterators c). d \<in> bits (bi_bits it)}"

definition bc_moves where
  "bc_moves ops good docs bops bgood bits c r t \<longleftrightarrow>
     (\<exists>c'. r = Some (Inr (int (doc_from (bc_docs docs bits c) (nat t)), c')) \<and> bc_inv ops good bops bgood c'
        \<and> bc_docs docs bits c' = bc_docs docs bits c
        \<and> d_doc_id ops (bc_lead c') = int (doc_from (bc_docs docs bits c) (nat t)))"

context bit_set
begin

lemma all_get_ok:
  "\<forall>it\<in>set its. good (bi_bits it) \<and> d < b_length ops (bi_bits it) \<Longrightarrow>
   all_get ops d its = Inr (\<forall>it\<in>set its. d \<in> bits (bi_bits it))"
  by (induction its) (auto simp: get)

end

context disi
begin

lemma bc_do_next_moves:
  assumes bs: "bit_set bops bgood bits"
    and "good (bc_lead c)" "d_doc_id ops (bc_lead c) = doc" "0 \<le> t" "t \<le> doc" "doc \<le> NO_MORE"
    and "doc = NO_MORE \<or> nat doc \<in> docs (bc_lead c)"
    and "bc_min_length c \<le> NO_MORE"
    and "\<forall>it\<in>set (bc_bit_set_iterators c). bgood (bi_bits it) \<and> bc_min_length c \<le> int (b_length bops (bi_bits it))"
    and "\<exists>it\<in>set (bc_bit_set_iterators c). int (b_length bops (bi_bits it)) = bc_min_length c"
    and "\<And>j. t \<le> int j \<Longrightarrow> int j < doc \<Longrightarrow> j \<notin> bc_docs docs bits c"
  shows "bc_moves ops good docs bops bgood bits c (bc_do_next ops bops doc c) t"
  using assms(2-)
proof (induction "nat (NO_MORE - doc)" arbitrary: doc c rule: less_induct)
  case less
  note p = less.prems
  consider (out) "bc_min_length c \<le> doc" | (inside) "doc < bc_min_length c" by linarith
  then show ?case
  proof cases
    case out
    have none: "j \<notin> bc_docs docs bits c" if "nat t \<le> j" for j
    proof
      assume j: "j \<in> bc_docs docs bits c"
      obtain it where it: "it \<in> set (bc_bit_set_iterators c)" "int (b_length bops (bi_bits it)) = bc_min_length c"
        using p(9) by blast
      then have "j < b_length bops (bi_bits it)"
        using j p(8) bit_set.bits_bound [OF bs, of "bi_bits it"] by (auto simp: bc_docs_def)
      then have "int j < doc" using it(2) out by linarith
      with p(10) [of j] that p(3) j show False by (simp add: nat_le_iff)
    qed
    then have d: "doc_from (bc_docs docs bits c) (nat t) = NO_MORE_DOCS" by (intro doc_from_noneI)
    show ?thesis
    proof (cases "doc = NO_MORE")
      case True
      with out p d show ?thesis
        by (subst bc_do_next.simps) (simp add: bc_moves_def bc_inv_def)
    next
      case False
      then have lt: "d_doc_id ops (bc_lead c) < NO_MORE" using p(2,5) by simp
      obtain r x where n: "d_advance ops (bc_lead c) NO_MORE = Inr (int r, x)" "good x" "docs x = docs (bc_lead c)"
          "d_doc_id ops x = int r" "NO_MORE \<le> int r" "r \<le> NO_MORE_DOCS"
        using advanceE [OF p(1) lt order_refl] by blast
      then have "bc_do_next ops bops doc c = Some (Inr (NO_MORE, c\<lparr>bc_lead := x\<rparr>))"
        using out False by (subst bc_do_next.simps) simp
      with n p d show ?thesis by (simp add: bc_moves_def bc_inv_def bc_docs_def)
    qed
  next
    case inside
    let ?its = "bc_bit_set_iterators c"
    have small: "doc mod 2 ^ 64 = doc" using p(3,4,5) by (simp add: NO_MORE_DOCS_def)
    have "nat doc < b_length bops (bi_bits it)" if "it \<in> set ?its" for it
      using p(8) inside that p(3,4) by fastforce
    then have ag: "all_get bops (nat doc) ?its = Inr (\<forall>it\<in>set ?its. nat doc \<in> bits (bi_bits it))"
      using p(8) by (intro bit_set.all_get_ok [OF bs]) blast
    have mem: "nat doc \<in> docs (bc_lead c)" using p(6) inside p(7) by auto
    show ?thesis
    proof (cases "\<forall>it\<in>set ?its. nat doc \<in> bits (bi_bits it)")
      case True
      have d: "doc_from (bc_docs docs bits c) (nat t) = nat doc"
      proof (rule doc_fromI)
        show "nat doc \<in> bc_docs docs bits c" using True mem by (simp add: bc_docs_def)
        show "nat t \<le> nat doc" using p(4) by simp
        fix j assume "nat t \<le> j" "j < nat doc"
        with p(3,10) show "j \<notin> bc_docs docs bits c" by (auto simp: nat_le_iff)
      qed
      let ?c = "c\<lparr>bc_bit_set_iterators := map (\<lambda>it. bsi_set_doc_id it doc) ?its\<rparr>"
      have "bc_do_next ops bops doc c = Some (Inr (doc, ?c))"
        using inside small ag True by (subst bc_do_next.simps) simp
      moreover have "bc_inv ops good bops bgood ?c"
        using p by (auto simp: bc_inv_def bc_same_doc_def list_all_iff)
      moreover have "bc_docs docs bits ?c = bc_docs docs bits c" by (auto simp: bc_docs_def)
      ultimately show ?thesis using d p(2,3,4) by (simp add: bc_moves_def)
    next
      case False
      have lt: "d_doc_id ops (bc_lead c) < NO_MORE" using p(2,7) inside by simp
      obtain r x where n: "d_next_doc ops (bc_lead c) = Inr (int r, x)" "good x" "docs x = docs (bc_lead c)"
          "d_doc_id ops x = int r" "r = doc_from (docs (bc_lead c)) (nat (d_doc_id ops (bc_lead c) + 1))"
          "d_doc_id ops (bc_lead c) < int r" "r \<le> NO_MORE_DOCS"
        using next_docE [OF p(1) lt] by blast
      let ?c = "c\<lparr>bc_lead := x\<rparr>"
      have docs: "bc_docs docs bits ?c = bc_docs docs bits c" using n(3) by (simp add: bc_docs_def)
      have step: "bc_do_next ops bops doc c = bc_do_next ops bops (int r) ?c"
        using inside small ag False n(1) by (subst bc_do_next.simps) simp
      have "bc_moves ops good docs bops bgood bits ?c (bc_do_next ops bops (int r) ?c) t"
      proof (rule less.hyps)
        show "nat (NO_MORE - int r) < nat (NO_MORE - doc)" using n(6) p(2) lt by simp
        show "int r = NO_MORE \<or> nat (int r) \<in> docs (bc_lead ?c)"
          using doc_from_mem [OF p(1)] n(3,5,7) by (auto simp: le_less)
        fix j assume j: "t \<le> int j" "int j < int r"
        show "j \<notin> bc_docs docs bits ?c" unfolding docs
        proof (cases "int j < doc")
          case True
          then show "j \<notin> bc_docs docs bits c" using p(10) j(1) by simp
        next
          case ge: False
          show "j \<notin> bc_docs docs bits c"
          proof (cases "int j = doc")
            case True
            then show ?thesis using False by (auto simp: bc_docs_def)
          next
            case gt: False
            then have "nat (d_doc_id ops (bc_lead c) + 1) \<le> j" using ge p(2) by (simp add: nat_le_iff)
            then show ?thesis using doc_from_gap [OF p(1), of _ j] n(5) j(2) by (auto simp: bc_docs_def)
          qed
        qed
      qed (use n p in auto)
      with step docs show ?thesis by (simp add: bc_moves_def)
    qed
  qed
qed

lemma bc_start:
  assumes bs: "bit_set bops bgood bits" and inv: "bc_inv ops good bops bgood c"
    and t: "d_doc_id ops (bc_lead c) < t" "t \<le> NO_MORE"
    and x: "good x" "docs x = docs (bc_lead c)" "d_doc_id ops x = int r"
    and r: "r = doc_from (docs (bc_lead c)) (nat t)"
  shows "bc_moves ops good docs bops bgood bits c (bc_do_next ops bops (int r) (c\<lparr>bc_lead := x\<rparr>)) t"
proof -
  let ?c = "c\<lparr>bc_lead := x\<rparr>"
  have g: "good (bc_lead c)" using inv by (simp add: bc_inv_def)
  have b: "nat t \<le> r" "r \<le> NO_MORE_DOCS" unfolding r
    by (rule doc_from_bounds [OF docs_bound [OF g]], use t(2) in \<open>simp add: nat_le_iff\<close>)+
  have docs: "bc_docs docs bits ?c = bc_docs docs bits c" using x(2) by (simp add: bc_docs_def)
  have "bc_moves ops good docs bops bgood bits ?c (bc_do_next ops bops (int r) ?c) t"
  proof (rule bc_do_next_moves [OF bs])
    show "0 \<le> t" using t(1) doc_id_range [OF g] by simp
    show "int r = NO_MORE \<or> nat (int r) \<in> docs (bc_lead ?c)"
      using doc_from_mem [OF g] x(2) r b(2) by (auto simp: le_less)
    show "j \<notin> bc_docs docs bits ?c" if "t \<le> int j" "int j < int r" for j
      using doc_from_gap [OF g, of "nat t" j] that x(2) r by (auto simp: bc_docs_def nat_le_iff)
  qed (use b x inv in \<open>auto simp: bc_inv_def nat_le_iff\<close>)
  with docs show ?thesis by (simp add: bc_moves_def)
qed

lemma bc_advance_moves:
  assumes bs: "bit_set bops bgood bits" and inv: "bc_inv ops good bops bgood c"
    and t: "d_doc_id ops (bc_lead c) < t" "t \<le> NO_MORE"
  shows "bc_moves ops good docs bops bgood bits c (bc_advance ops bops c t) t"
proof -
  have g: "good (bc_lead c)" "bc_same_doc ops c" using inv t by (auto simp: bc_inv_def)
  obtain r x where n: "d_advance ops (bc_lead c) t = Inr (int r, x)" "good x" "docs x = docs (bc_lead c)"
      "d_doc_id ops x = int r" "r = doc_from (docs (bc_lead c)) (nat t)"
    using advanceE [OF g(1) t] by blast
  from bc_start [OF bs inv t n(2-5)] n(1) g(2) show ?thesis by (simp add: bc_advance_def)
qed

lemma bc_next_doc_moves:
  assumes bs: "bit_set bops bgood bits" and inv: "bc_inv ops good bops bgood c"
    and d: "d_doc_id ops (bc_lead c) < NO_MORE"
  shows "bc_moves ops good docs bops bgood bits c (bc_next_doc ops bops c) (d_doc_id ops (bc_lead c) + 1)"
proof -
  have g: "good (bc_lead c)" "bc_same_doc ops c" using inv d by (auto simp: bc_inv_def)
  obtain r x where n: "d_next_doc ops (bc_lead c) = Inr (int r, x)" "good x" "docs x = docs (bc_lead c)"
      "d_doc_id ops x = int r" "r = doc_from (docs (bc_lead c)) (nat (d_doc_id ops (bc_lead c) + 1))"
    using next_docE [OF g(1) d] by blast
  from bc_start [OF bs inv _ _ n(2-5)] d n(1) g(2) show ?thesis by (simp add: bc_next_doc_def)
qed

end

section \<open>The properties of the component\<close>

text \<open>
  C10. Over a strictly ascending array that ends in the sentinel, galloping and then
  binary search leave \<open>advance\<close> on the least document at or after the target, and
  \<open>next_doc\<close> on the next one.
\<close>

theorem int_array_iterator_moves:
  assumes "ia_inv s" "ia_doc s < t" "t \<le> NO_MORE"
  shows "moves int_array_ops ia_inv ia_set s (int_array_advance s t) t
    \<and> moves int_array_ops ia_inv ia_set s (int_array_next_doc s) (ia_doc s + 1)"
  using ia_advance_moves [OF assms] ia_next_moves [OF assms(1)] assms(2,3) by simp

definition ia_sample :: int_array_iterator where
  "ia_sample = \<lparr>ia_docs = [1, 4, 6, 9, NO_MORE], ia_length = 4, ia_i = 0, ia_doc = -1\<rparr>"

theorem int_array_iterator_moves_witness:
  "moves int_array_ops ia_inv ia_set ia_sample (int_array_advance ia_sample 5) 5"
proof -
  have "0 \<le> [1, 4, 6, 9, NO_MORE] ! j" if "j < 4" for j :: nat
    using that by (simp add: nth_Cons split: nat.split)
  then have "ia_inv ia_sample" by (simp add: ia_inv_def ia_sample_def NO_MORE_DOCS_def)
  from int_array_iterator_moves [OF this, of 5] show ?thesis
    by (simp add: ia_sample_def NO_MORE_DOCS_def)
qed

text \<open>
  C11. The iterator of \<open>NotDocIdSet\<close> over any iterator that keeps the contract returns
  the documents below \<open>max_doc\<close> that the inner iterator does not have: \<open>advance\<close> ends,
  on the least of them at or after the target.
\<close>

theorem not_iterator_complement:
  assumes "disi ops good docs" "not_inv ops good docs it" "ni_doc it < t" "t \<le> NO_MORE"
  shows "moves (not_ops ops) (not_inv ops good docs) (not_docs docs) it (not_advance ops it t) t"
  by (rule disi.not_advance_moves [OF assms])

theorem not_iterator_complement_witness:
  "moves (not_ops range_disi_ops) (not_inv range_disi_ops range_inv range_docs) (not_docs range_docs)
     (not_new \<lparr>rd_doc = -1, rd_min_doc = 2, rd_max_doc = 5\<rparr> 9)
     (not_advance range_disi_ops (not_new \<lparr>rd_doc = -1, rd_min_doc = 2, rd_max_doc = 5\<rparr> 9) 3) 3"
  by (rule not_iterator_complement [OF range_it.disi_axioms])
    (auto simp: not_inv_def not_new_def range_inv_def range_disi_ops_def NO_MORE_DOCS_def)

text \<open>
  C12. The conjunction of iterators that keep the contract, for any choice of the two
  leads: \<open>advance\<close> and \<open>next_doc\<close> return after finitely many steps with the least document
  of all sub-iterators at or after the target (or \<open>NO_MORE_DOCS\<close> if there is none), and
  leave every sub-iterator on it.
\<close>

theorem conjunction_is_intersection:
  assumes "disi ops good docs" "conj_inv ops good c"
    and "d_doc_id ops (cj_all c ! cj_lead1 c) < t" "t \<le> NO_MORE"
  shows "conj_moves ops good docs c (conj_advance ops c t) t
    \<and> conj_moves ops good docs c (conj_next_doc ops c) (d_doc_id ops (cj_all c ! cj_lead1 c) + 1)"
  using disi.conj_advance_moves [OF assms] disi.conj_next_doc_moves [OF assms(1,2)] assms(3,4) by simp

definition conj_sample :: "range_disi conjunction" where
  "conj_sample = \<lparr>cj_lead1 = 1, cj_lead2 = 0, cj_others = [2],
     cj_all = [\<lparr>rd_doc = -1, rd_min_doc = 2, rd_max_doc = 9\<rparr>, \<lparr>rd_doc = -1, rd_min_doc = 0, rd_max_doc = 7\<rparr>,
               \<lparr>rd_doc = -1, rd_min_doc = 5, rd_max_doc = 20\<rparr>]\<rparr>"

theorem conjunction_is_intersection_witness:
  "conj_moves range_disi_ops range_inv range_docs conj_sample (conj_advance range_disi_ops conj_sample 3) 3"
proof -
  have "conj_inv range_disi_ops range_inv conj_sample"
    by (auto simp: conj_inv_def conj_wf_def conj_sample_def range_inv_def range_disi_ops_def NO_MORE_DOCS_def)
  from conjunction_is_intersection [OF range_it.disi_axioms this, of 3] show ?thesis
    by (simp add: conj_sample_def range_disi_ops_def NO_MORE_DOCS_def)
qed

text \<open>
  C13. The conjunction of an iterator with bit sets, both within their contracts:
  \<open>advance\<close> and \<open>next_doc\<close> return after finitely many steps with the least document at or
  after the target that the lead has and every bit set contains.
\<close>

theorem bit_set_conjunction_is_intersection:
  assumes "disi ops good docs" "bit_set bops bgood bits" "bc_inv ops good bops bgood c"
    and "d_doc_id ops (bc_lead c) < t" "t \<le> NO_MORE"
  shows "bc_moves ops good docs bops bgood bits c (bc_advance ops bops c t) t
    \<and> bc_moves ops good docs bops bgood bits c (bc_next_doc ops bops c) (d_doc_id ops (bc_lead c) + 1)"
  using disi.bc_advance_moves [OF assms] disi.bc_next_doc_moves [OF assms(1-3)] assms(4,5) by simp

definition bc_sample :: "(range_disi, fixed_bit_set) bs_conjunction" where
  "bc_sample = \<lparr>bc_lead = \<lparr>rd_doc = -1, rd_min_doc = 1, rd_max_doc = 80\<rparr>,
     bc_bit_set_iterators = [\<lparr>bi_bits = fbs_sample, bi_length = 70, bi_cost = 3, bi_doc = -1\<rparr>],
     bc_min_length = 70\<rparr>"

theorem bit_set_conjunction_is_intersection_witness:
  "bc_moves range_disi_ops range_inv range_docs fbs_ops fbs_inv fbs_set bc_sample
     (bc_advance range_disi_ops fbs_ops bc_sample 3) 3"
proof -
  have "bc_inv range_disi_ops range_inv fbs_ops fbs_inv bc_sample"
    using fbs_sample_inv
    by (auto simp: bc_inv_def bc_same_doc_def bc_sample_def range_inv_def range_disi_ops_def NO_MORE_DOCS_def
        fbs_ops_def fbs_length_def fbs_sample_def)
  from bit_set_conjunction_is_intersection [OF range_it.disi_axioms fbs.bit_set_axioms this, of 3] show ?thesis
    by (simp add: bc_sample_def range_disi_ops_def NO_MORE_DOCS_def)
qed

end
