(* ===== verification/Packed_Bits.thy ===== *)
theory Packed_Bits
  imports Rl_Prelude Array_Util
begin

text \<open>
  Ground of the packed-integer theories: the layout of values of a fixed number of bits in
  a sequence of blocks, most significant bit first, and the two loops that drive the
  group decoders of \<open>util/packed\<close>.
\<close>

unbundle bit_operations_syntax

section \<open>Runs of writes\<close>

text \<open>\<^verbatim>\<open>values[i] = v0; values[i + 1] = v1; ...\<close>, each write checked.\<close>

fun stores :: "'v list \<Rightarrow> nat \<Rightarrow> 'v list \<Rightarrow> 'v list res" where
  "stores out i [] = Inr out"
| "stores out i (v # vs) = rbind (upd out i v) (\<lambda>out. stores out (Suc i) vs)"

declare stores.simps [simp del]

definition patch :: "'v list \<Rightarrow> nat \<Rightarrow> 'v list \<Rightarrow> 'v list" where
  "patch out i vs = take i out @ vs @ drop (i + length vs) out"

lemma length_patch [simp]: "i + length vs \<le> length out \<Longrightarrow> length (patch out i vs) = length out"
  by (simp add: patch_def)

lemma patch_Nil [simp]: "patch out i [] = out"
  by (simp add: patch_def)

lemma patch_append: "i + length vs + length ws \<le> length out \<Longrightarrow>
    patch (patch out i vs) (i + length vs) ws = patch out i (vs @ ws)"
  by (simp add: patch_def ac_simps)

lemma patch_single: "i < length out \<Longrightarrow> patch out i [v] = out[i := v]"
  by (simp add: patch_def upd_conv_take_nth_drop)

lemma stores_ok: "i + length vs \<le> length out \<Longrightarrow> stores out i vs = Inr (patch out i vs)"
proof (induction vs arbitrary: out i)
  case (Cons v vs)
  then have "stores out i (v # vs) = Inr (patch (patch out i [v]) (i + length [v]) vs)"
    by (simp add: patch_single stores.simps)
  also have "patch (patch out i [v]) (i + length [v]) vs = patch out i (v # vs)"
    using Cons.prems by (subst patch_append) simp_all
  finally show ?case .
qed (simp add: stores.simps)

lemma stores_out_of_range: "i \<le> length out \<Longrightarrow> length out < i + length vs \<Longrightarrow> stores out i vs = Inl Panic"
  by (induction vs arbitrary: out i) (auto simp: upd_def stores.simps)

text \<open>The runs of a group, one after the other.\<close>

lemma patch_fuse:
  "j = i + length vs \<Longrightarrow> j + length ws \<le> length out \<Longrightarrow> patch (patch out i vs) j ws = patch out i (vs @ ws)"
  by (simp add: patch_append)

lemma patch_cong: "vs = ws \<Longrightarrow> patch out i vs = patch out i ws"
  by simp

section \<open>Values in a sequence of blocks\<close>

text \<open>
  The \<open>b\<close> bits from bit \<open>off\<close> of the blocks \<open>f 0\<close>, \<open>f 1\<close>, ... of \<open>w\<close> bits each, the most
  significant bit of a block first.
\<close>

function gather :: "nat \<Rightarrow> (nat \<Rightarrow> 'v::len word) \<Rightarrow> nat \<Rightarrow> nat \<Rightarrow> 'v word" where
  "gather w f off b =
     (if w = 0 \<or> b \<le> w - off mod w
      then take_bit b (drop_bit (w - off mod w - b) (f (off div w)))
      else push_bit (b - (w - off mod w)) (take_bit (w - off mod w) (f (off div w)))
           OR gather w f (off + (w - off mod w)) (b - (w - off mod w)))"
  by pat_completeness auto

termination
proof (relation "measure (\<lambda>(w, f, off, b). b)")
  fix w off b :: nat and f :: "nat \<Rightarrow> 'v::len word"
  assume "\<not> (w = 0 \<or> b \<le> w - off mod w)"
  moreover from this have "off mod w < w" by simp
  ultimately show "((w, f, off + (w - off mod w), b - (w - off mod w)), (w, f, off, b))
      \<in> measure (\<lambda>(w, f, off, b). b)" by simp
qed simp

declare gather.simps [simp del]

text \<open>The two cases, with the position in the block computed first when rewriting.\<close>

lemma gather_in:
  "off mod w = r \<Longrightarrow> off div w = q \<Longrightarrow> w - r = a \<Longrightarrow> b \<le> a \<Longrightarrow>
   gather w f off b = take_bit b (drop_bit (a - b) (f q))"
  by (subst gather.simps) auto

lemma gather_over:
  assumes "off mod w = r" "off div w = q" "w - r = a" "b - a = c" "off + a = off'" "0 < w" "a < b"
  shows "gather w f off b = push_bit c (take_bit a (f q)) OR gather w f off' c"
  using assms by (subst gather.simps) auto

definition unpack :: "nat \<Rightarrow> (nat \<Rightarrow> 'v::len word) \<Rightarrow> nat \<Rightarrow> nat \<Rightarrow> 'v word list" where
  "unpack w f b n = map (\<lambda>k. gather w f (k * b) b) [0..<n]"

lemma length_unpack [simp]: "length (unpack w f b n) = n"
  by (simp add: unpack_def)

lemma gather_shift: "0 < w \<Longrightarrow> gather w f (m * w + off) b = gather w (\<lambda>i. f (m + i)) off b"
proof (induction w f off b rule: gather.induct)
  case (1 w f off b)
  let ?a = "w - off mod w"
  show ?case
  proof (cases "b \<le> ?a")
    case True
    with 1(2) show ?thesis by (simp add: gather_in [OF refl refl refl])
  next
    case False
    with 1(2) have "gather w f (m * w + (off + ?a)) (b - ?a) = gather w (\<lambda>i. f (m + i)) (off + ?a) (b - ?a)"
      by (intro 1(1)) auto
    with False 1(2) show ?thesis
      by (simp add: gather_over [OF refl refl refl refl refl] add.assoc)
  qed
qed

lemma unpack_append:
  assumes "0 < w" "k * b = m * w"
  shows "unpack w f b k @ unpack w (\<lambda>i. f (m + i)) b n = unpack w f b (k + n)"
proof -
  have "gather w (\<lambda>i. f (m + i)) (j * b) b = gather w f ((k + j) * b) b" for j
  proof -
    have "(k + j) * b = m * w + j * b" using assms(2) by (simp add: add_mult_distrib)
    then show ?thesis by (simp add: gather_shift [OF assms(1)])
  qed
  moreover have "[0..<k + n] = [0..<k] @ map (\<lambda>j. k + j) [0..<n]"
  proof -
    have "[0..<k + n] = [0..<k] @ [k..<k + n]" by (rule upt_add_eq_append) simp
    also have "[k..<k + n] = map (\<lambda>j. k + j) [0..<n]"
      using map_add_upt [of k n] by (simp only: add.commute)
    finally show ?thesis .
  qed
  ultimately show ?thesis by (simp only: unpack_def map_append map_map o_def)
qed

text \<open>The layout, bit by bit.\<close>

definition stream_bit :: "nat \<Rightarrow> (nat \<Rightarrow> 'v::len word) \<Rightarrow> nat \<Rightarrow> bool" where
  "stream_bit w f i = bit (f (i div w)) (w - 1 - i mod w)"

lemma stream_bit_at: "t < w \<Longrightarrow> stream_bit w f (Suc q * w - 1 - t) = bit (f q) t"
proof -
  assume "t < w"
  then have "Suc q * w - 1 - t = q * w + (w - 1 - t)" by simp
  moreover have "(q * w + s) div w = q" "(q * w + s) mod w = s" if "s < w" for s
    using that by simp_all
  from this [of "w - 1 - t"] have "(q * w + (w - 1 - t)) div w = q" "(q * w + (w - 1 - t)) mod w = w - 1 - t"
    using \<open>t < w\<close> by linarith+
  ultimately show ?thesis using \<open>t < w\<close> by (simp add: stream_bit_def)
qed

lemma bit_gather:
  fixes f :: "nat \<Rightarrow> 'v::len word"
  assumes "0 < w" "b \<le> LENGTH('v)"
  shows "bit (gather w f off b) j \<longleftrightarrow> j < b \<and> stream_bit w f (off + b - 1 - j)"
  using assms
proof (induction w f off b rule: gather.induct)
  case (1 w f off b)
  define r where "r = off mod w"
  define q where "q = off div w"
  have off: "off = q * w + r" and r: "r < w" using 1(2) by (simp_all add: r_def q_def)
  show ?case
  proof (cases "b \<le> w - r")
    case True
    have "stream_bit w f (off + b - 1 - j) = bit (f q) (w - r - b + j)" if "j < b"
    proof -
      have "off + b - 1 - j = Suc q * w - 1 - (w - r - b + j)" using that True r off by simp
      then show ?thesis using that True stream_bit_at [of "w - r - b + j" w f q] by simp
    qed
    with True 1(3) show ?thesis
      by (auto simp: gather_in [OF r_def [symmetric] q_def [symmetric] refl] bit_simps)
  next
    case False
    let ?a = "w - r"
    have IH: "bit (gather w f (off + ?a) (b - ?a)) j
        \<longleftrightarrow> j < b - ?a \<and> stream_bit w f (off + ?a + (b - ?a) - 1 - j)"
      using 1(1) False 1(2,3) r by (simp add: r_def)
    have hi: "stream_bit w f (off + b - 1 - j) = bit (f q) (j - (b - ?a))" if "b - ?a \<le> j" "j < b"
    proof -
      have "off + b - 1 - j = Suc q * w - 1 - (j - (b - ?a))" using that False r off by simp
      then show ?thesis using that False r stream_bit_at [of "j - (b - ?a)" w f q] by simp
    qed
    have "gather w f off b = push_bit (b - ?a) (take_bit ?a (f q)) OR gather w f (off + ?a) (b - ?a)"
      by (rule gather_over [OF r_def [symmetric] q_def [symmetric] refl refl refl]) (use 1(2) False in auto)
    note eq = this
    consider (low) "j < b - ?a" | (mid) "b - ?a \<le> j" "j < b" | (out) "b \<le> j" by linarith
    then show ?thesis
    proof cases
      case low
      then have "j < b" by linarith
      with low eq IH show ?thesis by (simp add: bit_simps)
    next
      case mid
      then have "j - (b - ?a) < ?a" "\<not> j < b - ?a" using False by linarith+
      with mid eq IH hi 1(3) show ?thesis by (simp add: bit_simps)
    next
      case out
      then have "\<not> j - (b - ?a) < ?a" "\<not> j < b - ?a" using False by linarith+
      with out eq IH show ?thesis by (simp add: bit_simps)
    qed
  qed
qed

lemma gather_cong:
  fixes f :: "nat \<Rightarrow> 'v::len word"
  assumes "0 < w" "b \<le> LENGTH('v)" and "\<And>i. i * w < off + b \<Longrightarrow> f i = g i"
  shows "gather w f off b = gather w g off b"
proof (rule bit_word_eqI)
  fix j
  have "stream_bit w f (off + b - 1 - j) = stream_bit w g (off + b - 1 - j)" if "j < b"
  proof -
    have "off + b - 1 - j < off + b" using that by simp
    moreover have "(off + b - 1 - j) div w * w \<le> off + b - 1 - j" by simp
    ultimately have "(off + b - 1 - j) div w * w < off + b" by (rule le_less_trans [rotated])
    then show ?thesis by (simp add: stream_bit_def assms(3))
  qed
  then show "bit (gather w f off b) j = bit (gather w g off b) j"
    using assms(1,2) by (auto simp: bit_gather)
qed

lemma gather_0 [simp]: "gather w f off 0 = 0"
  by (subst gather.simps) simp

text \<open>Two adjacent fields, and a field of a field.\<close>

lemma gather_append:
  fixes f :: "nat \<Rightarrow> 'v::len word"
  assumes "0 < w" "a + b \<le> LENGTH('v)"
  shows "gather w f off (a + b) = push_bit b (gather w f off a) OR gather w f (off + a) b"
proof (rule bit_word_eqI)
  fix j
  assume "j < LENGTH('v)"
  consider "j < b" | "b \<le> j" "j < a + b" | "a + b \<le> j" by linarith
  then show "bit (gather w f off (a + b)) j = bit (push_bit b (gather w f off a) OR gather w f (off + a) b) j"
  proof cases
    case 1
    then show ?thesis using assms by (simp add: bit_simps bit_gather add.assoc)
  next
    case 2
    then have "off + a - 1 - (j - b) = off + (a + b) - 1 - j" "j - b < a" by simp_all
    then show ?thesis using 2 assms \<open>j < LENGTH('v)\<close> by (simp add: bit_simps bit_gather)
  next
    case 3
    then have "\<not> j - b < a" by linarith
    with 3 show ?thesis using assms by (simp add: bit_simps bit_gather)
  qed
qed

lemma gather_sub:
  fixes f :: "nat \<Rightarrow> 'v::len word"
  assumes "0 < w" "n \<le> LENGTH('v)" "off + b \<le> n"
  shows "take_bit b (drop_bit (n - off - b) (gather w f o' n)) = gather w f (o' + off) b"
proof (rule bit_word_eqI)
  fix j
  have "o' + n - 1 - (n - off - b + j) = o' + off + b - 1 - j" if "j < b" using assms(3) that by simp
  then show "bit (take_bit b (drop_bit (n - off - b) (gather w f o' n))) j = bit (gather w f (o' + off) b) j"
    using assms by (auto simp: bit_simps bit_gather)
qed

lemma gather_block: "0 < w \<Longrightarrow> gather w f (q * w) w = take_bit w (f q)"
  by (subst gather_in [of _ _ 0 q w]) simp_all

lemma unpack_one_block:
  "n * b \<le> w \<Longrightarrow> unpack w f b n = map (\<lambda>k. take_bit b (drop_bit (w - k * b - b) (f 0))) [0..<n]"
  unfolding unpack_def
proof (intro map_cong refl)
  fix k
  assume "n * b \<le> w" "k \<in> set [0..<n]"
  then have "Suc k * b \<le> n * b" by (simp only: mult_le_mono1 Suc_leI set_upt atLeastLessThan_iff)
  with \<open>n * b \<le> w\<close> have "k * b + b \<le> w" by simp
  then show "gather w f (k * b) b = take_bit b (drop_bit (w - k * b - b) (f 0))"
    by (cases "b = 0") (simp_all add: gather_in [of "k * b" w "k * b" 0])
qed

text \<open>\<^verbatim>\<open>blocks[i] as u64\<close> and the like.\<close>

definition idx_as :: "'a::len word list \<Rightarrow> nat \<Rightarrow> 'b::len word res" where
  "idx_as xs i = rbind (idx xs i) (\<lambda>x. Inr (ucast x))"

lemma idx_as_ok [simp]: "i < length xs \<Longrightarrow> idx_as xs i = Inr (ucast (xs ! i))"
  by (simp add: idx_as_def)

named_theorems bulk_decode \<open>what the decoders return\<close>

named_theorems unpack_simps \<open>normal form of the extracted values\<close>

lemma and_masks [unpack_simps]:
  fixes x :: "'a::len word"
  shows "x AND 1 = take_bit 1 x" "x AND 3 = take_bit 2 x" "x AND 7 = take_bit 3 x"
    "x AND 15 = take_bit 4 x" "x AND 31 = take_bit 5 x" "x AND 63 = take_bit 6 x"
    "x AND 127 = take_bit 7 x" "x AND 255 = take_bit 8 x" "x AND 511 = take_bit 9 x"
    "x AND 1023 = take_bit 10 x" "x AND 2047 = take_bit 11 x" "x AND 4095 = take_bit 12 x"
    "x AND 8191 = take_bit 13 x" "x AND 16383 = take_bit 14 x" "x AND 32767 = take_bit 15 x"
    "x AND 65535 = take_bit 16 x" "x AND 131071 = take_bit 17 x" "x AND 262143 = take_bit 18 x"
    "x AND 524287 = take_bit 19 x" "x AND 1048575 = take_bit 20 x" "x AND 2097151 = take_bit 21 x"
    "x AND 4194303 = take_bit 22 x" "x AND 8388607 = take_bit 23 x" "x AND 16777215 = take_bit 24 x"
  by (simp_all only: take_bit_eq_mask mask_eq_exp_minus_1) simp_all

lemma take_drop_top [unpack_simps]:
  "64 \<le> n + s \<Longrightarrow> take_bit n (drop_bit s (x :: 64 word)) = drop_bit s x"
  by (rule bit_word_eqI) (auto simp: bit_simps dest: bit_imp_le_length)

lemma take_drop_byte [unpack_simps]:
  "8 \<le> n + s \<Longrightarrow> take_bit n (drop_bit s (ucast (x :: 8 word) :: 'a::len word)) = drop_bit s (ucast x)"
  by (rule bit_word_eqI) (auto simp: bit_simps dest: bit_imp_le_length)

lemma take_byte [unpack_simps]:
  "8 \<le> n \<Longrightarrow> take_bit n (ucast (x :: 8 word) :: 'a::len word) = ucast x"
  by (rule bit_word_eqI) (auto simp: bit_simps dest: bit_imp_le_length)

lemma signed_drop_byte [unpack_simps]:
  "signed_drop_bit s (ucast (x :: 8 word) :: 32 word) = drop_bit s (ucast x)"
  "signed_drop_bit s (ucast (x :: 8 word) :: 64 word) = drop_bit s (ucast x)"
  by (rule bit_word_eqI, auto simp: bit_simps bit_signed_drop_bit_iff dest: bit_imp_le_length)+

lemma drop_byte_mod [unpack_simps]:
  "drop_bit 7 (ucast (x :: 8 word) :: 'a::len word) mod 2 = drop_bit 7 (ucast x)"
  using take_drop_byte [of 1 7 x] by (simp add: take_bit_Suc)

lemma drop_top_mod [unpack_simps]: "drop_bit 63 (x :: 64 word) mod 2 = drop_bit 63 x"
  using take_drop_top [of 1 63 x] by (simp add: take_bit_Suc)

lemma ucast_byte_mod [unpack_simps]:
  "ucast ((x :: 8 word) mod 2) = (ucast x :: 64 word) mod 2"
  "ucast ((x :: 8 word) mod 2) = (ucast x :: 32 word) mod 2"
  "ucast (drop_bit s x mod 2) = drop_bit s (ucast x :: 64 word) mod 2"
  "ucast (drop_bit s x mod 2) = drop_bit s (ucast x :: 32 word) mod 2"
  by (simp_all only: take_bit_Suc_0 [symmetric] unsigned_take_bit_eq ucast_drop_bit_eq len_bit0 len_num1)

lemma ucast_drop_byte [unpack_simps]:
  "ucast (drop_bit s (x :: 8 word)) = drop_bit s (ucast x :: 64 word)"
  "ucast (drop_bit s (x :: 8 word)) = drop_bit s (ucast x :: 32 word)"
  by (simp_all add: ucast_drop_bit_eq)

lemma ucast_take_bit [unpack_simps]: "ucast (take_bit n (x :: 'a::len word)) = take_bit n (ucast x :: 'b::len word)"
  by (rule unsigned_take_bit_eq)

lemmas or_assoc [unpack_simps] = or.assoc

lemma rev_upt_map: "rev [0..<n] = map (\<lambda>k. n - k - 1) [0..<n]"
  by (rule nth_equalityI) (simp_all add: rev_nth)

text \<open>\<^verbatim>\<open>u64::from_be_bytes\<close>.\<close>

definition from_be_bytes :: "8 word list \<Rightarrow> 64 word" where
  "from_be_bytes bs = foldl (\<lambda>acc x. push_bit 8 acc OR ucast x) 0 bs"

section \<open>The loops of the decoders\<close>

text \<open>\<^verbatim>\<open>for _ in 0..iterations { decode_group!(blocks, blocks_offset, values, values_offset); }\<close>\<close>

type_synonym ('b, 'v) group = "'b list \<Rightarrow> nat \<Rightarrow> 'v list \<Rightarrow> nat \<Rightarrow> (nat \<times> 'v list \<times> nat) res"

definition decode_loop ::
  "('b, 'v) group \<Rightarrow> 'b list \<Rightarrow> nat \<Rightarrow> 'v list \<Rightarrow> nat \<Rightarrow> nat \<Rightarrow> 'v list res" where
  "decode_loop g blocks blocks_offset values values_offset iterations =
     rbind (for_each [0..<iterations] (\<lambda>_ (bi, out, vi). g blocks bi out vi)
       (blocks_offset, values, values_offset)) (\<lambda>(bi, out, vi). Inr out)"

text \<open>
  The complete ranges when both fit, walked through in chunks of \<open>B\<close> blocks and \<open>V\<close>
  values, each decoded as a group of its own; otherwise the plain loop.
\<close>

definition checked_end :: "nat \<Rightarrow> nat \<Rightarrow> nat \<Rightarrow> nat option" where
  "checked_end off iterations n =
     (if iterations * n \<le> usize_MAX \<and> off + iterations * n \<le> usize_MAX then Some (off + iterations * n) else None)"

definition chunk_loop :: "('b, 'v) group \<Rightarrow> nat \<Rightarrow> nat \<Rightarrow> 'b list \<Rightarrow> 'v list \<Rightarrow> 'v list res" where
  "chunk_loop g B V blocks values =
     for_each [0..<min (length blocks div B) (length values div V)] (\<lambda>i values.
       rbind (g (take B (drop (i * B) blocks)) 0 (take V (drop (i * V) values)) 0)
         (\<lambda>(bi, out, vi). Inr (patch values (i * V) out))) values"

definition decode_fast ::
  "nat \<Rightarrow> nat \<Rightarrow> nat \<Rightarrow> ('b, 'v) group \<Rightarrow> ('b, 'v) group \<Rightarrow>
   'b list \<Rightarrow> nat \<Rightarrow> 'v list \<Rightarrow> nat \<Rightarrow> nat \<Rightarrow> 'v list res" where
  "decode_fast least B V g g' blocks blocks_offset values values_offset iterations =
     (case (checked_end blocks_offset iterations B, checked_end values_offset iterations V) of
        (Some blocks_end, Some values_end) \<Rightarrow>
          if least \<le> iterations \<and> blocks_end \<le> length blocks \<and> values_end \<le> length values
          then rbind (chunk_loop g B V (take (blocks_end - blocks_offset) (drop blocks_offset blocks))
                 (take (values_end - values_offset) (drop values_offset values)))
                 (\<lambda>out. Inr (patch values values_offset out))
          else decode_loop g' blocks blocks_offset values values_offset iterations
      | _ \<Rightarrow> decode_loop g' blocks blocks_offset values values_offset iterations)"

text \<open>
  A group decoder of \<open>B\<close> blocks of \<open>w\<close> bits into \<open>V\<close> values of \<open>b\<close> bits: \<open>r\<close> reads a
  block, \<open>c\<close> casts a value.
\<close>

locale bulk_group =
  fixes g :: "('b, 'v) group" and w b B V :: nat
    and r :: "'b \<Rightarrow> 'x::len word" and c :: "'x word \<Rightarrow> 'v"
  assumes sizes: "V * b = B * w" "0 < w" "0 < b" "0 < B" "b \<le> LENGTH('x)"
    and group: "bi + B \<le> length input \<Longrightarrow> vi + V \<le> length output \<Longrightarrow>
      g input bi output vi =
        Inr (bi + B, patch output vi (map c (unpack w (\<lambda>i. r (input ! (bi + i))) b V)), vi + V)"
begin

lemma V_pos: "0 < V"
  using sizes by (metis mult_0 mult_is_0 not_gr_zero)

lemma unpack_next:
  "unpack w f b (k * V) @ unpack w (\<lambda>i. f (k * B + i)) b V = unpack w (f :: nat \<Rightarrow> 'x word) b (Suc k * V)"
  using unpack_append [of w "k * V" b "k * B" f V] sizes(1,2) by (simp add: mult.assoc add.commute)

lemma unpack_cong:
  "(\<And>i. i < n * B \<Longrightarrow> f i = (f' :: nat \<Rightarrow> 'x word) i) \<Longrightarrow> unpack w f b (n * V) = unpack w f' b (n * V)"
  unfolding unpack_def
proof (intro map_cong refl gather_cong sizes(2,5))
  fix k i
  assume f: "\<And>i. i < n * B \<Longrightarrow> f i = f' i" and k: "k \<in> set [0..<n * V]" and "i * w < k * b + b"
  have "k * b + b = Suc k * b" by simp
  also have "\<dots> \<le> n * V * b" by (rule mult_le_mono1) (use k in simp)
  also have "\<dots> = n * B * w" using sizes(1) by (simp add: mult.assoc)
  finally show "f i = f' i" using \<open>i * w < k * b + b\<close> by (intro f) (meson le_less_trans mult_less_cancel2 order_less_le_trans)
qed

lemma decode_loop_ok:
  assumes "bo + n * B \<le> length blocks" "vo + n * V \<le> length values"
  shows "decode_loop g blocks bo values vo n =
    Inr (patch values vo (map c (unpack w (\<lambda>i. r (blocks ! (bo + i))) b (n * V))))"
proof -
  let ?f = "\<lambda>i. r (blocks ! (bo + i))"
  let ?P = "\<lambda>k s. s = (bo + k * B, patch values vo (map c (unpack w ?f b (k * V))), vo + k * V)"
  have "\<exists>s. for_each [0..<n] (\<lambda>_ (bi, out, vi). g blocks bi out vi) (bo, values, vo) = Inr s \<and> ?P n s"
  proof (rule for_each_upt_rule [where P = ?P])
    fix k s
    assume "k < n" and s: "?P k s"
    then have "Suc k * B \<le> n * B" "Suc k * V \<le> n * V" by (simp_all only: mult_le_mono1 Suc_leI)
    then have le: "bo + k * B + B \<le> length blocks" "vo + k * V + V \<le> length values" using assms by simp_all
    then have "case s of (bi, out, vi) \<Rightarrow> g blocks bi out vi = Inr (bo + Suc k * B,
        patch values vo (map c (unpack w ?f b (k * V)) @ map c (unpack w (\<lambda>i. r (blocks ! (bo + k * B + i))) b V)),
        vo + Suc k * V)"
      by (simp add: s group patch_fuse)
    moreover have "map c (unpack w ?f b (k * V)) @ map c (unpack w (\<lambda>i. r (blocks ! (bo + k * B + i))) b V)
        = map c (unpack w ?f b (Suc k * V))"
      using unpack_next [of ?f k] by (simp add: add.assoc flip: map_append)
    ultimately show "\<exists>s'. (case s of (bi, out, vi) \<Rightarrow> g blocks bi out vi) = Inr s' \<and> ?P (Suc k) s'"
      by (simp add: s)
  qed (simp_all add: unpack_def)
  then show ?thesis by (auto simp: decode_loop_def)
qed

lemma chunk_loop_ok:
  assumes "length blocks = n * B" "length values = n * V"
  shows "chunk_loop g B V blocks values = Inr (map c (unpack w (\<lambda>i. r (blocks ! i)) b (n * V)))"
proof -
  let ?f = "\<lambda>i. r (blocks ! i)"
  let ?P = "\<lambda>k s. s = patch values 0 (map c (unpack w ?f b (k * V)))"
  let ?step = "\<lambda>i values. rbind (g (take B (drop (i * B) blocks)) 0 (take V (drop (i * V) values)) 0)
      (\<lambda>(bi, out, vi). Inr (patch values (i * V) out))"
  have "\<exists>s. for_each [0..<n] ?step values = Inr s \<and> ?P n s"
  proof (rule for_each_upt_rule [where P = ?P])
    fix k s
    assume "k < n" and s: "?P k s"
    then have "Suc k * B \<le> n * B" "Suc k * V \<le> n * V" by (simp_all only: mult_le_mono1 Suc_leI)
    then have le: "k * B + B \<le> length blocks" "k * V + V \<le> length values" using assms by simp_all
    let ?vals = "map c (unpack w (\<lambda>i. r (take B (drop (k * B) blocks) ! i)) b V)"
    have len: "length s = length values" using le(2) by (simp add: s)
    have "g (take B (drop (k * B) blocks)) 0 (take V (drop (k * V) s)) 0 = Inr (B, ?vals, V)"
      using le by (subst group) (simp_all add: len patch_def)
    moreover have "patch s (k * V) ?vals = patch values 0 (map c (unpack w ?f b (k * V)) @ ?vals)"
      using le(2) by (simp add: s patch_fuse)
    moreover have "?vals = map c (unpack w (\<lambda>i. r (blocks ! (k * B + i))) b V)"
      using unpack_cong [of 1 "\<lambda>i. r (take B (drop (k * B) blocks) ! i)" "\<lambda>i. r (blocks ! (k * B + i))"] le(1)
      by simp
    moreover have "map c (unpack w ?f b (k * V)) @ map c (unpack w (\<lambda>i. r (blocks ! (k * B + i))) b V)
        = map c (unpack w ?f b (Suc k * V))"
      using unpack_next [of ?f k] by (simp flip: map_append)
    ultimately show "\<exists>s'. ?step k s = Inr s' \<and> ?P (Suc k) s'" by simp
  qed (simp_all add: unpack_def)
  moreover have "patch values 0 (map c (unpack w ?f b (n * V))) = map c (unpack w ?f b (n * V))"
    using assms(2) by (simp add: patch_def)
  ultimately show ?thesis
    using assms V_pos sizes(4) by (simp add: chunk_loop_def)
qed

lemma decode_fast_ok:
  assumes "bulk_group g' w b B V r c"
    and "bo + n * B \<le> length blocks" "vo + n * V \<le> length values"
  shows "decode_fast least B V g g' blocks bo values vo n =
    Inr (patch values vo (map c (unpack w (\<lambda>i. r (blocks ! (bo + i))) b (n * V))))"
proof -
  have "unpack w (\<lambda>i. r (take (n * B) (drop bo blocks) ! i)) b (n * V)
      = unpack w (\<lambda>i. r (blocks ! (bo + i))) b (n * V)"
    by (rule unpack_cong) (use assms(2) in simp)
  moreover have "chunk_loop g B V (take (n * B) (drop bo blocks)) (take (n * V) (drop vo values))
      = Inr (map c (unpack w (\<lambda>i. r (take (n * B) (drop bo blocks) ! i)) b (n * V)))"
    by (rule chunk_loop_ok) (use assms(2,3) in simp_all)
  ultimately show ?thesis
    using bulk_group.decode_loop_ok [OF assms] assms(2,3) by (auto simp: decode_fast_def checked_end_def)
qed

end

end
