(* ===== verification/Packed_Dec_A.thy ===== *)
theory Packed_Dec_A
  imports Packed_Bits
begin

text \<open>
  The decoders of \<^verbatim>\<open>BulkOperationPacked1\<close> to \<^verbatim>\<open>BulkOperationPacked9\<close>
  (\<open>util/packed/bulk_operation_packed<n>.rs\<close>). For each of the four decoders of a width: the
  group of reads and writes of one iteration, statement by statement, the decoder itself as
  the loop over its groups, and the proof that a group extracts the values of that width.
\<close>

unbundle bit_operations_syntax

section \<open>\<open>BulkOperationPacked1\<close>\<close>

definition packed1_u64_i64 :: "64 word list \<Rightarrow> nat \<Rightarrow> 64 word list \<Rightarrow> nat \<Rightarrow> (nat \<times> 64 word list \<times> nat) res" where
  "packed1_u64_i64 input bi output vi =
     rbind (idx input bi) (\<lambda>block.
     rbind (stores output vi (map (\<lambda>shift. drop_bit shift block AND 1) (rev [0..<64]))) (\<lambda>output.
     Inr (bi + 1, output, vi + 64)))"

definition packed1_decode_u64_to_i64 :: "64 word list \<Rightarrow> nat \<Rightarrow> 64 word list \<Rightarrow> nat \<Rightarrow> nat \<Rightarrow> 64 word list res" where
  "packed1_decode_u64_to_i64 = decode_loop packed1_u64_i64"

interpretation packed1_u64_i64: bulk_group packed1_u64_i64 64 1 1 64 "\<lambda>x. x" "\<lambda>x. x"
proof
  fix bi vi :: nat and input :: "64 word list" and out :: "64 word list"
  assume "bi + 1 \<le> length input" "vi + 64 \<le> length out"
  then show "packed1_u64_i64 input bi out vi = Inr (bi + 1, patch out vi
      (map (\<lambda>x. x) (unpack 64 (\<lambda>i. input ! (bi + i)) 1 64)), vi + 64)"
    by (simp add: packed1_u64_i64_def stores_ok unpack_one_block rev_upt_map and_masks o_def del: One_nat_def)
qed simp_all

lemma packed1_decode_u64_to_i64_ok [bulk_decode]:
  "bo + n * 1 \<le> length blocks \<Longrightarrow> vo + n * 64 \<le> length vals \<Longrightarrow>
   packed1_decode_u64_to_i64 blocks bo vals vo n = Inr (patch vals vo (unpack 64 (\<lambda>i. blocks ! (bo + i)) 1 (n * 64)))"
  using packed1_u64_i64.decode_loop_ok [of bo n blocks vo vals] by (simp add: packed1_decode_u64_to_i64_def)

definition packed1_u8_i64 :: "8 word list \<Rightarrow> nat \<Rightarrow> 64 word list \<Rightarrow> nat \<Rightarrow> (nat \<times> 64 word list \<times> nat) res" where
  "packed1_u8_i64 input bi output vi =
     rbind (idx input bi) (\<lambda>block.
     rbind (stores output vi
       [ucast (drop_bit 7 block AND 1), ucast (drop_bit 6 block AND 1), ucast (drop_bit 5 block AND 1),
        ucast (drop_bit 4 block AND 1), ucast (drop_bit 3 block AND 1), ucast (drop_bit 2 block AND 1),
        ucast (drop_bit 1 block AND 1), ucast (block AND 1)]) (\<lambda>output.
     Inr (bi + 1, output, vi + 8)))"

definition packed1_decode_u8_to_i64 :: "8 word list \<Rightarrow> nat \<Rightarrow> 64 word list \<Rightarrow> nat \<Rightarrow> nat \<Rightarrow> 64 word list res" where
  "packed1_decode_u8_to_i64 = decode_fast 2 1 8 packed1_u8_i64 packed1_u8_i64"

interpretation packed1_u8_i64: bulk_group packed1_u8_i64 8 1 1 8 ucast "\<lambda>x. x"
proof
  show "packed1_u8_i64 input bi out vi = Inr (bi + 1, patch out vi
      (map (\<lambda>x. x) (unpack 8 (\<lambda>i. ucast (input ! (bi + i))) 1 8)), vi + 8)"
    if "bi + 1 \<le> length input" "vi + 8 \<le> length out" for bi vi input out
    using that unfolding packed1_u8_i64_def and_masks
    by (simp add: stores_ok patch_fuse, intro patch_cong, simp add: unpack_def upt_rec,
        simp add: gather_in gather_over unpack_simps)
qed simp_all

lemma packed1_decode_u8_to_i64_ok [bulk_decode]:
  "bo + n * 1 \<le> length blocks \<Longrightarrow> vo + n * 8 \<le> length vals \<Longrightarrow>
   packed1_decode_u8_to_i64 blocks bo vals vo n = Inr (patch vals vo (unpack 8 (\<lambda>i. ucast (blocks ! (bo + i))) 1 (n * 8)))"
  using packed1_u8_i64.decode_fast_ok [OF packed1_u8_i64.bulk_group_axioms, of bo n blocks vo vals] by (simp add: packed1_decode_u8_to_i64_def)

definition packed1_u64_i32 :: "64 word list \<Rightarrow> nat \<Rightarrow> 32 word list \<Rightarrow> nat \<Rightarrow> (nat \<times> 32 word list \<times> nat) res" where
  "packed1_u64_i32 input bi output vi =
     rbind (idx input bi) (\<lambda>block.
     rbind (stores output vi (map (\<lambda>shift. ucast (drop_bit shift block AND 1)) (rev [0..<64]))) (\<lambda>output.
     Inr (bi + 1, output, vi + 64)))"

definition packed1_decode_u64_to_i32 :: "64 word list \<Rightarrow> nat \<Rightarrow> 32 word list \<Rightarrow> nat \<Rightarrow> nat \<Rightarrow> 32 word list res" where
  "packed1_decode_u64_to_i32 = decode_loop packed1_u64_i32"

interpretation packed1_u64_i32: bulk_group packed1_u64_i32 64 1 1 64 "\<lambda>x. x" ucast
proof
  fix bi vi :: nat and input :: "64 word list" and out :: "32 word list"
  assume "bi + 1 \<le> length input" "vi + 64 \<le> length out"
  then show "packed1_u64_i32 input bi out vi = Inr (bi + 1, patch out vi
      (map (ucast) (unpack 64 (\<lambda>i. input ! (bi + i)) 1 64)), vi + 64)"
    by (simp add: packed1_u64_i32_def stores_ok unpack_one_block rev_upt_map and_masks o_def del: One_nat_def)
qed simp_all

lemma packed1_decode_u64_to_i32_ok [bulk_decode]:
  "bo + n * 1 \<le> length blocks \<Longrightarrow> vo + n * 64 \<le> length vals \<Longrightarrow>
   packed1_decode_u64_to_i32 blocks bo vals vo n = Inr (patch vals vo (map ucast (unpack 64 (\<lambda>i. blocks ! (bo + i)) 1 (n * 64))))"
  using packed1_u64_i32.decode_loop_ok [of bo n blocks vo vals] by (simp add: packed1_decode_u64_to_i32_def)

definition packed1_u8_i32 :: "8 word list \<Rightarrow> nat \<Rightarrow> 32 word list \<Rightarrow> nat \<Rightarrow> (nat \<times> 32 word list \<times> nat) res" where
  "packed1_u8_i32 input bi output vi =
     rbind (idx input bi) (\<lambda>block.
     rbind (stores output vi
       [ucast (drop_bit 7 block AND 1), ucast (drop_bit 6 block AND 1), ucast (drop_bit 5 block AND 1),
        ucast (drop_bit 4 block AND 1), ucast (drop_bit 3 block AND 1), ucast (drop_bit 2 block AND 1),
        ucast (drop_bit 1 block AND 1), ucast (block AND 1)]) (\<lambda>output.
     Inr (bi + 1, output, vi + 8)))"

definition packed1_decode_u8_to_i32 :: "8 word list \<Rightarrow> nat \<Rightarrow> 32 word list \<Rightarrow> nat \<Rightarrow> nat \<Rightarrow> 32 word list res" where
  "packed1_decode_u8_to_i32 = decode_fast 0 1 8 packed1_u8_i32 packed1_u8_i32"

interpretation packed1_u8_i32: bulk_group packed1_u8_i32 8 1 1 8 ucast "\<lambda>x. x"
proof
  show "packed1_u8_i32 input bi out vi = Inr (bi + 1, patch out vi
      (map (\<lambda>x. x) (unpack 8 (\<lambda>i. ucast (input ! (bi + i))) 1 8)), vi + 8)"
    if "bi + 1 \<le> length input" "vi + 8 \<le> length out" for bi vi input out
    using that unfolding packed1_u8_i32_def and_masks
    by (simp add: stores_ok patch_fuse, intro patch_cong, simp add: unpack_def upt_rec,
        simp add: gather_in gather_over unpack_simps)
qed simp_all

lemma packed1_decode_u8_to_i32_ok [bulk_decode]:
  "bo + n * 1 \<le> length blocks \<Longrightarrow> vo + n * 8 \<le> length vals \<Longrightarrow>
   packed1_decode_u8_to_i32 blocks bo vals vo n = Inr (patch vals vo (unpack 8 (\<lambda>i. ucast (blocks ! (bo + i))) 1 (n * 8)))"
  using packed1_u8_i32.decode_fast_ok [OF packed1_u8_i32.bulk_group_axioms, of bo n blocks vo vals] by (simp add: packed1_decode_u8_to_i32_def)

section \<open>\<open>BulkOperationPacked2\<close>\<close>

definition packed2_u64_i64 :: "64 word list \<Rightarrow> nat \<Rightarrow> 64 word list \<Rightarrow> nat \<Rightarrow> (nat \<times> 64 word list \<times> nat) res" where
  "packed2_u64_i64 input bi output vi =
     rbind (idx input bi) (\<lambda>block.
     rbind (stores output vi
       [drop_bit 62 block AND 3, drop_bit 60 block AND 3, drop_bit 58 block AND 3, drop_bit 56 block AND 3,
        drop_bit 54 block AND 3, drop_bit 52 block AND 3, drop_bit 50 block AND 3, drop_bit 48 block AND 3,
        drop_bit 46 block AND 3, drop_bit 44 block AND 3, drop_bit 42 block AND 3, drop_bit 40 block AND 3,
        drop_bit 38 block AND 3, drop_bit 36 block AND 3, drop_bit 34 block AND 3, drop_bit 32 block AND 3,
        drop_bit 30 block AND 3, drop_bit 28 block AND 3, drop_bit 26 block AND 3, drop_bit 24 block AND 3,
        drop_bit 22 block AND 3, drop_bit 20 block AND 3, drop_bit 18 block AND 3, drop_bit 16 block AND 3,
        drop_bit 14 block AND 3, drop_bit 12 block AND 3, drop_bit 10 block AND 3, drop_bit 8 block AND 3,
        drop_bit 6 block AND 3, drop_bit 4 block AND 3, drop_bit 2 block AND 3, block AND 3]) (\<lambda>output.
     Inr (bi + 1, output, vi + 32)))"

definition packed2_decode_u64_to_i64 :: "64 word list \<Rightarrow> nat \<Rightarrow> 64 word list \<Rightarrow> nat \<Rightarrow> nat \<Rightarrow> 64 word list res" where
  "packed2_decode_u64_to_i64 = decode_loop packed2_u64_i64"

interpretation packed2_u64_i64: bulk_group packed2_u64_i64 64 2 1 32 "\<lambda>x. x" "\<lambda>x. x"
proof
  show "packed2_u64_i64 input bi out vi = Inr (bi + 1, patch out vi
      (map (\<lambda>x. x) (unpack 64 (\<lambda>i. input ! (bi + i)) 2 32)), vi + 32)"
    if "bi + 1 \<le> length input" "vi + 32 \<le> length out" for bi vi input out
    using that unfolding packed2_u64_i64_def and_masks
    by (simp add: stores_ok patch_fuse, intro patch_cong, simp add: unpack_def upt_rec,
        simp add: gather_in gather_over unpack_simps)
qed simp_all

lemma packed2_decode_u64_to_i64_ok [bulk_decode]:
  "bo + n * 1 \<le> length blocks \<Longrightarrow> vo + n * 32 \<le> length vals \<Longrightarrow>
   packed2_decode_u64_to_i64 blocks bo vals vo n = Inr (patch vals vo (unpack 64 (\<lambda>i. blocks ! (bo + i)) 2 (n * 32)))"
  using packed2_u64_i64.decode_loop_ok [of bo n blocks vo vals] by (simp add: packed2_decode_u64_to_i64_def)

definition packed2_u8_i64 :: "8 word list \<Rightarrow> nat \<Rightarrow> 64 word list \<Rightarrow> nat \<Rightarrow> (nat \<times> 64 word list \<times> nat) res" where
  "packed2_u8_i64 input bi output vi =
     rbind (idx input bi) (\<lambda>block.
     rbind (stores output vi
       [ucast (drop_bit 6 block AND 3), ucast (drop_bit 4 block AND 3), ucast (drop_bit 2 block AND 3),
        ucast (block AND 3)]) (\<lambda>output.
     Inr (bi + 1, output, vi + 4)))"

definition packed2_decode_u8_to_i64 :: "8 word list \<Rightarrow> nat \<Rightarrow> 64 word list \<Rightarrow> nat \<Rightarrow> nat \<Rightarrow> 64 word list res" where
  "packed2_decode_u8_to_i64 = decode_loop packed2_u8_i64"

interpretation packed2_u8_i64: bulk_group packed2_u8_i64 8 2 1 4 ucast "\<lambda>x. x"
proof
  show "packed2_u8_i64 input bi out vi = Inr (bi + 1, patch out vi
      (map (\<lambda>x. x) (unpack 8 (\<lambda>i. ucast (input ! (bi + i))) 2 4)), vi + 4)"
    if "bi + 1 \<le> length input" "vi + 4 \<le> length out" for bi vi input out
    using that unfolding packed2_u8_i64_def and_masks
    by (simp add: stores_ok patch_fuse, intro patch_cong, simp add: unpack_def upt_rec,
        simp add: gather_in gather_over unpack_simps)
qed simp_all

lemma packed2_decode_u8_to_i64_ok [bulk_decode]:
  "bo + n * 1 \<le> length blocks \<Longrightarrow> vo + n * 4 \<le> length vals \<Longrightarrow>
   packed2_decode_u8_to_i64 blocks bo vals vo n = Inr (patch vals vo (unpack 8 (\<lambda>i. ucast (blocks ! (bo + i))) 2 (n * 4)))"
  using packed2_u8_i64.decode_loop_ok [of bo n blocks vo vals] by (simp add: packed2_decode_u8_to_i64_def)

definition packed2_u64_i32 :: "64 word list \<Rightarrow> nat \<Rightarrow> 32 word list \<Rightarrow> nat \<Rightarrow> (nat \<times> 32 word list \<times> nat) res" where
  "packed2_u64_i32 input bi output vi =
     rbind (idx input bi) (\<lambda>block.
     rbind (stores output vi
       [ucast (drop_bit 62 block AND 3), ucast (drop_bit 60 block AND 3), ucast (drop_bit 58 block AND 3),
        ucast (drop_bit 56 block AND 3), ucast (drop_bit 54 block AND 3), ucast (drop_bit 52 block AND 3),
        ucast (drop_bit 50 block AND 3), ucast (drop_bit 48 block AND 3), ucast (drop_bit 46 block AND 3),
        ucast (drop_bit 44 block AND 3), ucast (drop_bit 42 block AND 3), ucast (drop_bit 40 block AND 3),
        ucast (drop_bit 38 block AND 3), ucast (drop_bit 36 block AND 3), ucast (drop_bit 34 block AND 3),
        ucast (drop_bit 32 block AND 3), ucast (drop_bit 30 block AND 3), ucast (drop_bit 28 block AND 3),
        ucast (drop_bit 26 block AND 3), ucast (drop_bit 24 block AND 3), ucast (drop_bit 22 block AND 3),
        ucast (drop_bit 20 block AND 3), ucast (drop_bit 18 block AND 3), ucast (drop_bit 16 block AND 3),
        ucast (drop_bit 14 block AND 3), ucast (drop_bit 12 block AND 3), ucast (drop_bit 10 block AND 3),
        ucast (drop_bit 8 block AND 3), ucast (drop_bit 6 block AND 3), ucast (drop_bit 4 block AND 3),
        ucast (drop_bit 2 block AND 3), ucast (block AND 3)]) (\<lambda>output.
     Inr (bi + 1, output, vi + 32)))"

definition packed2_decode_u64_to_i32 :: "64 word list \<Rightarrow> nat \<Rightarrow> 32 word list \<Rightarrow> nat \<Rightarrow> nat \<Rightarrow> 32 word list res" where
  "packed2_decode_u64_to_i32 = decode_loop packed2_u64_i32"

interpretation packed2_u64_i32: bulk_group packed2_u64_i32 64 2 1 32 "\<lambda>x. x" ucast
proof
  show "packed2_u64_i32 input bi out vi = Inr (bi + 1, patch out vi
      (map (ucast) (unpack 64 (\<lambda>i. input ! (bi + i)) 2 32)), vi + 32)"
    if "bi + 1 \<le> length input" "vi + 32 \<le> length out" for bi vi input out
    using that unfolding packed2_u64_i32_def and_masks
    by (simp add: stores_ok patch_fuse, intro patch_cong, simp add: unpack_def upt_rec,
        simp add: gather_in gather_over unpack_simps)
qed simp_all

lemma packed2_decode_u64_to_i32_ok [bulk_decode]:
  "bo + n * 1 \<le> length blocks \<Longrightarrow> vo + n * 32 \<le> length vals \<Longrightarrow>
   packed2_decode_u64_to_i32 blocks bo vals vo n = Inr (patch vals vo (map ucast (unpack 64 (\<lambda>i. blocks ! (bo + i)) 2 (n * 32))))"
  using packed2_u64_i32.decode_loop_ok [of bo n blocks vo vals] by (simp add: packed2_decode_u64_to_i32_def)

definition packed2_u8_i32 :: "8 word list \<Rightarrow> nat \<Rightarrow> 32 word list \<Rightarrow> nat \<Rightarrow> (nat \<times> 32 word list \<times> nat) res" where
  "packed2_u8_i32 input bi output vi =
     rbind (idx input bi) (\<lambda>block.
     rbind (stores output vi
       [ucast (drop_bit 6 block AND 3), ucast (drop_bit 4 block AND 3), ucast (drop_bit 2 block AND 3),
        ucast (block AND 3)]) (\<lambda>output.
     Inr (bi + 1, output, vi + 4)))"

definition packed2_decode_u8_to_i32 :: "8 word list \<Rightarrow> nat \<Rightarrow> 32 word list \<Rightarrow> nat \<Rightarrow> nat \<Rightarrow> 32 word list res" where
  "packed2_decode_u8_to_i32 = decode_loop packed2_u8_i32"

interpretation packed2_u8_i32: bulk_group packed2_u8_i32 8 2 1 4 ucast "\<lambda>x. x"
proof
  show "packed2_u8_i32 input bi out vi = Inr (bi + 1, patch out vi
      (map (\<lambda>x. x) (unpack 8 (\<lambda>i. ucast (input ! (bi + i))) 2 4)), vi + 4)"
    if "bi + 1 \<le> length input" "vi + 4 \<le> length out" for bi vi input out
    using that unfolding packed2_u8_i32_def and_masks
    by (simp add: stores_ok patch_fuse, intro patch_cong, simp add: unpack_def upt_rec,
        simp add: gather_in gather_over unpack_simps)
qed simp_all

lemma packed2_decode_u8_to_i32_ok [bulk_decode]:
  "bo + n * 1 \<le> length blocks \<Longrightarrow> vo + n * 4 \<le> length vals \<Longrightarrow>
   packed2_decode_u8_to_i32 blocks bo vals vo n = Inr (patch vals vo (unpack 8 (\<lambda>i. ucast (blocks ! (bo + i))) 2 (n * 4)))"
  using packed2_u8_i32.decode_loop_ok [of bo n blocks vo vals] by (simp add: packed2_decode_u8_to_i32_def)

section \<open>\<open>BulkOperationPacked3\<close>\<close>

definition packed3_u64_i64 :: "64 word list \<Rightarrow> nat \<Rightarrow> 64 word list \<Rightarrow> nat \<Rightarrow> (nat \<times> 64 word list \<times> nat) res" where
  "packed3_u64_i64 input bi output vi =
     rbind (idx input bi) (\<lambda>block0.
     rbind (stores output vi
       [drop_bit 61 block0 AND 7, drop_bit 58 block0 AND 7, drop_bit 55 block0 AND 7,
        drop_bit 52 block0 AND 7, drop_bit 49 block0 AND 7, drop_bit 46 block0 AND 7,
        drop_bit 43 block0 AND 7, drop_bit 40 block0 AND 7, drop_bit 37 block0 AND 7,
        drop_bit 34 block0 AND 7, drop_bit 31 block0 AND 7, drop_bit 28 block0 AND 7,
        drop_bit 25 block0 AND 7, drop_bit 22 block0 AND 7, drop_bit 19 block0 AND 7,
        drop_bit 16 block0 AND 7, drop_bit 13 block0 AND 7, drop_bit 10 block0 AND 7,
        drop_bit 7 block0 AND 7, drop_bit 4 block0 AND 7, drop_bit 1 block0 AND 7]) (\<lambda>output.
     rbind (idx input (bi + 1)) (\<lambda>block1.
     rbind (stores output (vi + 21)
       [push_bit 2 (block0 AND 1) OR drop_bit 62 block1, drop_bit 59 block1 AND 7, drop_bit 56 block1 AND 7,
        drop_bit 53 block1 AND 7, drop_bit 50 block1 AND 7, drop_bit 47 block1 AND 7,
        drop_bit 44 block1 AND 7, drop_bit 41 block1 AND 7, drop_bit 38 block1 AND 7,
        drop_bit 35 block1 AND 7, drop_bit 32 block1 AND 7, drop_bit 29 block1 AND 7,
        drop_bit 26 block1 AND 7, drop_bit 23 block1 AND 7, drop_bit 20 block1 AND 7,
        drop_bit 17 block1 AND 7, drop_bit 14 block1 AND 7, drop_bit 11 block1 AND 7,
        drop_bit 8 block1 AND 7, drop_bit 5 block1 AND 7, drop_bit 2 block1 AND 7]) (\<lambda>output.
     rbind (idx input (bi + 2)) (\<lambda>block2.
     rbind (stores output (vi + 42)
       [push_bit 1 (block1 AND 3) OR drop_bit 63 block2, drop_bit 60 block2 AND 7, drop_bit 57 block2 AND 7,
        drop_bit 54 block2 AND 7, drop_bit 51 block2 AND 7, drop_bit 48 block2 AND 7,
        drop_bit 45 block2 AND 7, drop_bit 42 block2 AND 7, drop_bit 39 block2 AND 7,
        drop_bit 36 block2 AND 7, drop_bit 33 block2 AND 7, drop_bit 30 block2 AND 7,
        drop_bit 27 block2 AND 7, drop_bit 24 block2 AND 7, drop_bit 21 block2 AND 7,
        drop_bit 18 block2 AND 7, drop_bit 15 block2 AND 7, drop_bit 12 block2 AND 7,
        drop_bit 9 block2 AND 7, drop_bit 6 block2 AND 7, drop_bit 3 block2 AND 7, block2 AND 7]) (\<lambda>output.
     Inr (bi + 3, output, vi + 64)))))))"

definition packed3_decode_u64_to_i64 :: "64 word list \<Rightarrow> nat \<Rightarrow> 64 word list \<Rightarrow> nat \<Rightarrow> nat \<Rightarrow> 64 word list res" where
  "packed3_decode_u64_to_i64 = decode_fast 0 3 64 packed3_u64_i64 packed3_u64_i64"

interpretation packed3_u64_i64: bulk_group packed3_u64_i64 64 3 3 64 "\<lambda>x. x" "\<lambda>x. x"
proof
  show "packed3_u64_i64 input bi out vi = Inr (bi + 3, patch out vi
      (map (\<lambda>x. x) (unpack 64 (\<lambda>i. input ! (bi + i)) 3 64)), vi + 64)"
    if "bi + 3 \<le> length input" "vi + 64 \<le> length out" for bi vi input out
    using that unfolding packed3_u64_i64_def and_masks
    by (simp add: stores_ok patch_fuse, intro patch_cong, simp add: unpack_def upt_rec,
        simp add: gather_in gather_over unpack_simps)
qed simp_all

lemma packed3_decode_u64_to_i64_ok [bulk_decode]:
  "bo + n * 3 \<le> length blocks \<Longrightarrow> vo + n * 64 \<le> length vals \<Longrightarrow>
   packed3_decode_u64_to_i64 blocks bo vals vo n = Inr (patch vals vo (unpack 64 (\<lambda>i. blocks ! (bo + i)) 3 (n * 64)))"
  using packed3_u64_i64.decode_fast_ok [OF packed3_u64_i64.bulk_group_axioms, of bo n blocks vo vals] by (simp add: packed3_decode_u64_to_i64_def)

definition packed3_u8_i64 :: "8 word list \<Rightarrow> nat \<Rightarrow> 64 word list \<Rightarrow> nat \<Rightarrow> (nat \<times> 64 word list \<times> nat) res" where
  "packed3_u8_i64 input bi output vi =
     rbind (idx_as input bi) (\<lambda>byte0.
     rbind (stores output vi
       [drop_bit 5 byte0, drop_bit 2 byte0 AND 7]) (\<lambda>output.
     rbind (idx_as input (bi + 1)) (\<lambda>byte1.
     rbind (stores output (vi + 2)
       [push_bit 1 (byte0 AND 3) OR drop_bit 7 byte1, drop_bit 4 byte1 AND 7, drop_bit 1 byte1 AND 7]) (\<lambda>output.
     rbind (idx_as input (bi + 2)) (\<lambda>byte2.
     rbind (stores output (vi + 5)
       [push_bit 2 (byte1 AND 1) OR drop_bit 6 byte2, drop_bit 3 byte2 AND 7, byte2 AND 7]) (\<lambda>output.
     Inr (bi + 3, output, vi + 8)))))))"

definition packed3_decode_u8_to_i64 :: "8 word list \<Rightarrow> nat \<Rightarrow> 64 word list \<Rightarrow> nat \<Rightarrow> nat \<Rightarrow> 64 word list res" where
  "packed3_decode_u8_to_i64 = decode_loop packed3_u8_i64"

interpretation packed3_u8_i64: bulk_group packed3_u8_i64 8 3 3 8 ucast "\<lambda>x. x"
proof
  show "packed3_u8_i64 input bi out vi = Inr (bi + 3, patch out vi
      (map (\<lambda>x. x) (unpack 8 (\<lambda>i. ucast (input ! (bi + i))) 3 8)), vi + 8)"
    if "bi + 3 \<le> length input" "vi + 8 \<le> length out" for bi vi input out
    using that unfolding packed3_u8_i64_def and_masks
    by (simp add: stores_ok patch_fuse, intro patch_cong, simp add: unpack_def upt_rec,
        simp add: gather_in gather_over unpack_simps)
qed simp_all

lemma packed3_decode_u8_to_i64_ok [bulk_decode]:
  "bo + n * 3 \<le> length blocks \<Longrightarrow> vo + n * 8 \<le> length vals \<Longrightarrow>
   packed3_decode_u8_to_i64 blocks bo vals vo n = Inr (patch vals vo (unpack 8 (\<lambda>i. ucast (blocks ! (bo + i))) 3 (n * 8)))"
  using packed3_u8_i64.decode_loop_ok [of bo n blocks vo vals] by (simp add: packed3_decode_u8_to_i64_def)

definition packed3_u64_i32 :: "64 word list \<Rightarrow> nat \<Rightarrow> 32 word list \<Rightarrow> nat \<Rightarrow> (nat \<times> 32 word list \<times> nat) res" where
  "packed3_u64_i32 input bi output vi =
     rbind (idx input bi) (\<lambda>block0.
     rbind (stores output vi
       [ucast (drop_bit 61 block0), ucast (drop_bit 58 block0 AND 7), ucast (drop_bit 55 block0 AND 7),
        ucast (drop_bit 52 block0 AND 7), ucast (drop_bit 49 block0 AND 7),
        ucast (drop_bit 46 block0 AND 7), ucast (drop_bit 43 block0 AND 7),
        ucast (drop_bit 40 block0 AND 7), ucast (drop_bit 37 block0 AND 7),
        ucast (drop_bit 34 block0 AND 7), ucast (drop_bit 31 block0 AND 7),
        ucast (drop_bit 28 block0 AND 7), ucast (drop_bit 25 block0 AND 7),
        ucast (drop_bit 22 block0 AND 7), ucast (drop_bit 19 block0 AND 7),
        ucast (drop_bit 16 block0 AND 7), ucast (drop_bit 13 block0 AND 7),
        ucast (drop_bit 10 block0 AND 7), ucast (drop_bit 7 block0 AND 7), ucast (drop_bit 4 block0 AND 7),
        ucast (drop_bit 1 block0 AND 7)]) (\<lambda>output.
     rbind (idx input (bi + 1)) (\<lambda>block1.
     rbind (stores output (vi + 21)
       [ucast (push_bit 2 (block0 AND 1) OR drop_bit 62 block1), ucast (drop_bit 59 block1 AND 7),
        ucast (drop_bit 56 block1 AND 7), ucast (drop_bit 53 block1 AND 7),
        ucast (drop_bit 50 block1 AND 7), ucast (drop_bit 47 block1 AND 7),
        ucast (drop_bit 44 block1 AND 7), ucast (drop_bit 41 block1 AND 7),
        ucast (drop_bit 38 block1 AND 7), ucast (drop_bit 35 block1 AND 7),
        ucast (drop_bit 32 block1 AND 7), ucast (drop_bit 29 block1 AND 7),
        ucast (drop_bit 26 block1 AND 7), ucast (drop_bit 23 block1 AND 7),
        ucast (drop_bit 20 block1 AND 7), ucast (drop_bit 17 block1 AND 7),
        ucast (drop_bit 14 block1 AND 7), ucast (drop_bit 11 block1 AND 7), ucast (drop_bit 8 block1 AND 7),
        ucast (drop_bit 5 block1 AND 7), ucast (drop_bit 2 block1 AND 7)]) (\<lambda>output.
     rbind (idx input (bi + 2)) (\<lambda>block2.
     rbind (stores output (vi + 42)
       [ucast (push_bit 1 (block1 AND 3) OR drop_bit 63 block2), ucast (drop_bit 60 block2 AND 7),
        ucast (drop_bit 57 block2 AND 7), ucast (drop_bit 54 block2 AND 7),
        ucast (drop_bit 51 block2 AND 7), ucast (drop_bit 48 block2 AND 7),
        ucast (drop_bit 45 block2 AND 7), ucast (drop_bit 42 block2 AND 7),
        ucast (drop_bit 39 block2 AND 7), ucast (drop_bit 36 block2 AND 7),
        ucast (drop_bit 33 block2 AND 7), ucast (drop_bit 30 block2 AND 7),
        ucast (drop_bit 27 block2 AND 7), ucast (drop_bit 24 block2 AND 7),
        ucast (drop_bit 21 block2 AND 7), ucast (drop_bit 18 block2 AND 7),
        ucast (drop_bit 15 block2 AND 7), ucast (drop_bit 12 block2 AND 7), ucast (drop_bit 9 block2 AND 7),
        ucast (drop_bit 6 block2 AND 7), ucast (drop_bit 3 block2 AND 7), ucast (block2 AND 7)]) (\<lambda>output.
     Inr (bi + 3, output, vi + 64)))))))"

definition packed3_decode_u64_to_i32 :: "64 word list \<Rightarrow> nat \<Rightarrow> 32 word list \<Rightarrow> nat \<Rightarrow> nat \<Rightarrow> 32 word list res" where
  "packed3_decode_u64_to_i32 = decode_fast 0 3 64 packed3_u64_i32 packed3_u64_i32"

interpretation packed3_u64_i32: bulk_group packed3_u64_i32 64 3 3 64 "\<lambda>x. x" ucast
proof
  show "packed3_u64_i32 input bi out vi = Inr (bi + 3, patch out vi
      (map (ucast) (unpack 64 (\<lambda>i. input ! (bi + i)) 3 64)), vi + 64)"
    if "bi + 3 \<le> length input" "vi + 64 \<le> length out" for bi vi input out
    using that unfolding packed3_u64_i32_def and_masks
    by (simp add: stores_ok patch_fuse, intro patch_cong, simp add: unpack_def upt_rec,
        simp add: gather_in gather_over unpack_simps)
qed simp_all

lemma packed3_decode_u64_to_i32_ok [bulk_decode]:
  "bo + n * 3 \<le> length blocks \<Longrightarrow> vo + n * 64 \<le> length vals \<Longrightarrow>
   packed3_decode_u64_to_i32 blocks bo vals vo n = Inr (patch vals vo (map ucast (unpack 64 (\<lambda>i. blocks ! (bo + i)) 3 (n * 64))))"
  using packed3_u64_i32.decode_fast_ok [OF packed3_u64_i32.bulk_group_axioms, of bo n blocks vo vals] by (simp add: packed3_decode_u64_to_i32_def)

definition packed3_u8_i32 :: "8 word list \<Rightarrow> nat \<Rightarrow> 32 word list \<Rightarrow> nat \<Rightarrow> (nat \<times> 32 word list \<times> nat) res" where
  "packed3_u8_i32 input bi output vi =
     rbind (idx_as input bi) (\<lambda>byte0.
     rbind (stores output vi
       [signed_drop_bit 5 byte0, signed_drop_bit 2 byte0 AND 7]) (\<lambda>output.
     rbind (idx_as input (bi + 1)) (\<lambda>byte1.
     rbind (stores output (vi + 2)
       [push_bit 1 (byte0 AND 3) OR signed_drop_bit 7 byte1, signed_drop_bit 4 byte1 AND 7,
        signed_drop_bit 1 byte1 AND 7]) (\<lambda>output.
     rbind (idx_as input (bi + 2)) (\<lambda>byte2.
     rbind (stores output (vi + 5)
       [push_bit 2 (byte1 AND 1) OR signed_drop_bit 6 byte2, signed_drop_bit 3 byte2 AND 7, byte2 AND 7]) (\<lambda>output.
     Inr (bi + 3, output, vi + 8)))))))"

definition packed3_decode_u8_to_i32 :: "8 word list \<Rightarrow> nat \<Rightarrow> 32 word list \<Rightarrow> nat \<Rightarrow> nat \<Rightarrow> 32 word list res" where
  "packed3_decode_u8_to_i32 = decode_loop packed3_u8_i32"

interpretation packed3_u8_i32: bulk_group packed3_u8_i32 8 3 3 8 ucast "\<lambda>x. x"
proof
  show "packed3_u8_i32 input bi out vi = Inr (bi + 3, patch out vi
      (map (\<lambda>x. x) (unpack 8 (\<lambda>i. ucast (input ! (bi + i))) 3 8)), vi + 8)"
    if "bi + 3 \<le> length input" "vi + 8 \<le> length out" for bi vi input out
    using that unfolding packed3_u8_i32_def and_masks
    by (simp add: stores_ok patch_fuse, intro patch_cong, simp add: unpack_def upt_rec,
        simp add: gather_in gather_over unpack_simps)
qed simp_all

lemma packed3_decode_u8_to_i32_ok [bulk_decode]:
  "bo + n * 3 \<le> length blocks \<Longrightarrow> vo + n * 8 \<le> length vals \<Longrightarrow>
   packed3_decode_u8_to_i32 blocks bo vals vo n = Inr (patch vals vo (unpack 8 (\<lambda>i. ucast (blocks ! (bo + i))) 3 (n * 8)))"
  using packed3_u8_i32.decode_loop_ok [of bo n blocks vo vals] by (simp add: packed3_decode_u8_to_i32_def)

section \<open>\<open>BulkOperationPacked4\<close>\<close>

definition packed4_u64_i64 :: "64 word list \<Rightarrow> nat \<Rightarrow> 64 word list \<Rightarrow> nat \<Rightarrow> (nat \<times> 64 word list \<times> nat) res" where
  "packed4_u64_i64 input bi output vi =
     rbind (idx input bi) (\<lambda>block.
     rbind (stores output vi
       [drop_bit 60 block AND 15, drop_bit 56 block AND 15, drop_bit 52 block AND 15,
        drop_bit 48 block AND 15, drop_bit 44 block AND 15, drop_bit 40 block AND 15,
        drop_bit 36 block AND 15, drop_bit 32 block AND 15, drop_bit 28 block AND 15,
        drop_bit 24 block AND 15, drop_bit 20 block AND 15, drop_bit 16 block AND 15,
        drop_bit 12 block AND 15, drop_bit 8 block AND 15, drop_bit 4 block AND 15, block AND 15]) (\<lambda>output.
     Inr (bi + 1, output, vi + 16)))"

definition packed4_decode_u64_to_i64 :: "64 word list \<Rightarrow> nat \<Rightarrow> 64 word list \<Rightarrow> nat \<Rightarrow> nat \<Rightarrow> 64 word list res" where
  "packed4_decode_u64_to_i64 = decode_loop packed4_u64_i64"

interpretation packed4_u64_i64: bulk_group packed4_u64_i64 64 4 1 16 "\<lambda>x. x" "\<lambda>x. x"
proof
  show "packed4_u64_i64 input bi out vi = Inr (bi + 1, patch out vi
      (map (\<lambda>x. x) (unpack 64 (\<lambda>i. input ! (bi + i)) 4 16)), vi + 16)"
    if "bi + 1 \<le> length input" "vi + 16 \<le> length out" for bi vi input out
    using that unfolding packed4_u64_i64_def and_masks
    by (simp add: stores_ok patch_fuse, intro patch_cong, simp add: unpack_def upt_rec,
        simp add: gather_in gather_over unpack_simps)
qed simp_all

lemma packed4_decode_u64_to_i64_ok [bulk_decode]:
  "bo + n * 1 \<le> length blocks \<Longrightarrow> vo + n * 16 \<le> length vals \<Longrightarrow>
   packed4_decode_u64_to_i64 blocks bo vals vo n = Inr (patch vals vo (unpack 64 (\<lambda>i. blocks ! (bo + i)) 4 (n * 16)))"
  using packed4_u64_i64.decode_loop_ok [of bo n blocks vo vals] by (simp add: packed4_decode_u64_to_i64_def)

definition packed4_u8_i64 :: "8 word list \<Rightarrow> nat \<Rightarrow> 64 word list \<Rightarrow> nat \<Rightarrow> (nat \<times> 64 word list \<times> nat) res" where
  "packed4_u8_i64 input bi output vi =
     rbind (idx input bi) (\<lambda>block.
     rbind (stores output vi
       [ucast (drop_bit 4 block AND 15), ucast (block AND 15)]) (\<lambda>output.
     Inr (bi + 1, output, vi + 2)))"

definition packed4_decode_u8_to_i64 :: "8 word list \<Rightarrow> nat \<Rightarrow> 64 word list \<Rightarrow> nat \<Rightarrow> nat \<Rightarrow> 64 word list res" where
  "packed4_decode_u8_to_i64 = decode_loop packed4_u8_i64"

interpretation packed4_u8_i64: bulk_group packed4_u8_i64 8 4 1 2 ucast "\<lambda>x. x"
proof
  show "packed4_u8_i64 input bi out vi = Inr (bi + 1, patch out vi
      (map (\<lambda>x. x) (unpack 8 (\<lambda>i. ucast (input ! (bi + i))) 4 2)), vi + 2)"
    if "bi + 1 \<le> length input" "vi + 2 \<le> length out" for bi vi input out
    using that unfolding packed4_u8_i64_def and_masks
    by (simp add: stores_ok patch_fuse, intro patch_cong, simp add: unpack_def upt_rec,
        simp add: gather_in gather_over unpack_simps)
qed simp_all

lemma packed4_decode_u8_to_i64_ok [bulk_decode]:
  "bo + n * 1 \<le> length blocks \<Longrightarrow> vo + n * 2 \<le> length vals \<Longrightarrow>
   packed4_decode_u8_to_i64 blocks bo vals vo n = Inr (patch vals vo (unpack 8 (\<lambda>i. ucast (blocks ! (bo + i))) 4 (n * 2)))"
  using packed4_u8_i64.decode_loop_ok [of bo n blocks vo vals] by (simp add: packed4_decode_u8_to_i64_def)

definition packed4_u64_i32 :: "64 word list \<Rightarrow> nat \<Rightarrow> 32 word list \<Rightarrow> nat \<Rightarrow> (nat \<times> 32 word list \<times> nat) res" where
  "packed4_u64_i32 input bi output vi =
     rbind (idx input bi) (\<lambda>block.
     rbind (stores output vi
       [ucast (drop_bit 60 block AND 15), ucast (drop_bit 56 block AND 15),
        ucast (drop_bit 52 block AND 15), ucast (drop_bit 48 block AND 15),
        ucast (drop_bit 44 block AND 15), ucast (drop_bit 40 block AND 15),
        ucast (drop_bit 36 block AND 15), ucast (drop_bit 32 block AND 15),
        ucast (drop_bit 28 block AND 15), ucast (drop_bit 24 block AND 15),
        ucast (drop_bit 20 block AND 15), ucast (drop_bit 16 block AND 15),
        ucast (drop_bit 12 block AND 15), ucast (drop_bit 8 block AND 15), ucast (drop_bit 4 block AND 15),
        ucast (block AND 15)]) (\<lambda>output.
     Inr (bi + 1, output, vi + 16)))"

definition packed4_decode_u64_to_i32 :: "64 word list \<Rightarrow> nat \<Rightarrow> 32 word list \<Rightarrow> nat \<Rightarrow> nat \<Rightarrow> 32 word list res" where
  "packed4_decode_u64_to_i32 = decode_loop packed4_u64_i32"

interpretation packed4_u64_i32: bulk_group packed4_u64_i32 64 4 1 16 "\<lambda>x. x" ucast
proof
  show "packed4_u64_i32 input bi out vi = Inr (bi + 1, patch out vi
      (map (ucast) (unpack 64 (\<lambda>i. input ! (bi + i)) 4 16)), vi + 16)"
    if "bi + 1 \<le> length input" "vi + 16 \<le> length out" for bi vi input out
    using that unfolding packed4_u64_i32_def and_masks
    by (simp add: stores_ok patch_fuse, intro patch_cong, simp add: unpack_def upt_rec,
        simp add: gather_in gather_over unpack_simps)
qed simp_all

lemma packed4_decode_u64_to_i32_ok [bulk_decode]:
  "bo + n * 1 \<le> length blocks \<Longrightarrow> vo + n * 16 \<le> length vals \<Longrightarrow>
   packed4_decode_u64_to_i32 blocks bo vals vo n = Inr (patch vals vo (map ucast (unpack 64 (\<lambda>i. blocks ! (bo + i)) 4 (n * 16))))"
  using packed4_u64_i32.decode_loop_ok [of bo n blocks vo vals] by (simp add: packed4_decode_u64_to_i32_def)

definition packed4_u8_i32 :: "8 word list \<Rightarrow> nat \<Rightarrow> 32 word list \<Rightarrow> nat \<Rightarrow> (nat \<times> 32 word list \<times> nat) res" where
  "packed4_u8_i32 input bi output vi =
     rbind (idx input bi) (\<lambda>block.
     rbind (stores output vi
       [ucast (drop_bit 4 block AND 15), ucast (block AND 15)]) (\<lambda>output.
     Inr (bi + 1, output, vi + 2)))"

definition packed4_decode_u8_to_i32 :: "8 word list \<Rightarrow> nat \<Rightarrow> 32 word list \<Rightarrow> nat \<Rightarrow> nat \<Rightarrow> 32 word list res" where
  "packed4_decode_u8_to_i32 = decode_loop packed4_u8_i32"

interpretation packed4_u8_i32: bulk_group packed4_u8_i32 8 4 1 2 ucast "\<lambda>x. x"
proof
  show "packed4_u8_i32 input bi out vi = Inr (bi + 1, patch out vi
      (map (\<lambda>x. x) (unpack 8 (\<lambda>i. ucast (input ! (bi + i))) 4 2)), vi + 2)"
    if "bi + 1 \<le> length input" "vi + 2 \<le> length out" for bi vi input out
    using that unfolding packed4_u8_i32_def and_masks
    by (simp add: stores_ok patch_fuse, intro patch_cong, simp add: unpack_def upt_rec,
        simp add: gather_in gather_over unpack_simps)
qed simp_all

lemma packed4_decode_u8_to_i32_ok [bulk_decode]:
  "bo + n * 1 \<le> length blocks \<Longrightarrow> vo + n * 2 \<le> length vals \<Longrightarrow>
   packed4_decode_u8_to_i32 blocks bo vals vo n = Inr (patch vals vo (unpack 8 (\<lambda>i. ucast (blocks ! (bo + i))) 4 (n * 2)))"
  using packed4_u8_i32.decode_loop_ok [of bo n blocks vo vals] by (simp add: packed4_decode_u8_to_i32_def)

section \<open>\<open>BulkOperationPacked5\<close>\<close>

definition packed5_u64_i64 :: "64 word list \<Rightarrow> nat \<Rightarrow> 64 word list \<Rightarrow> nat \<Rightarrow> (nat \<times> 64 word list \<times> nat) res" where
  "packed5_u64_i64 input bi output vi =
     rbind (idx input bi) (\<lambda>block0.
     rbind (stores output vi
       [drop_bit 59 block0, drop_bit 54 block0 AND 31, drop_bit 49 block0 AND 31, drop_bit 44 block0 AND 31,
        drop_bit 39 block0 AND 31, drop_bit 34 block0 AND 31, drop_bit 29 block0 AND 31,
        drop_bit 24 block0 AND 31, drop_bit 19 block0 AND 31, drop_bit 14 block0 AND 31,
        drop_bit 9 block0 AND 31, drop_bit 4 block0 AND 31]) (\<lambda>output.
     rbind (idx input (bi + 1)) (\<lambda>block1.
     rbind (stores output (vi + 12)
       [push_bit 1 (block0 AND 15) OR drop_bit 63 block1, drop_bit 58 block1 AND 31,
        drop_bit 53 block1 AND 31, drop_bit 48 block1 AND 31, drop_bit 43 block1 AND 31,
        drop_bit 38 block1 AND 31, drop_bit 33 block1 AND 31, drop_bit 28 block1 AND 31,
        drop_bit 23 block1 AND 31, drop_bit 18 block1 AND 31, drop_bit 13 block1 AND 31,
        drop_bit 8 block1 AND 31, drop_bit 3 block1 AND 31]) (\<lambda>output.
     rbind (idx input (bi + 2)) (\<lambda>block2.
     rbind (stores output (vi + 25)
       [push_bit 2 (block1 AND 7) OR drop_bit 62 block2, drop_bit 57 block2 AND 31,
        drop_bit 52 block2 AND 31, drop_bit 47 block2 AND 31, drop_bit 42 block2 AND 31,
        drop_bit 37 block2 AND 31, drop_bit 32 block2 AND 31, drop_bit 27 block2 AND 31,
        drop_bit 22 block2 AND 31, drop_bit 17 block2 AND 31, drop_bit 12 block2 AND 31,
        drop_bit 7 block2 AND 31, drop_bit 2 block2 AND 31]) (\<lambda>output.
     rbind (idx input (bi + 3)) (\<lambda>block3.
     rbind (stores output (vi + 38)
       [push_bit 3 (block2 AND 3) OR drop_bit 61 block3, drop_bit 56 block3 AND 31,
        drop_bit 51 block3 AND 31, drop_bit 46 block3 AND 31, drop_bit 41 block3 AND 31,
        drop_bit 36 block3 AND 31, drop_bit 31 block3 AND 31, drop_bit 26 block3 AND 31,
        drop_bit 21 block3 AND 31, drop_bit 16 block3 AND 31, drop_bit 11 block3 AND 31,
        drop_bit 6 block3 AND 31, drop_bit 1 block3 AND 31]) (\<lambda>output.
     rbind (idx input (bi + 4)) (\<lambda>block4.
     rbind (stores output (vi + 51)
       [push_bit 4 (block3 AND 1) OR drop_bit 60 block4, drop_bit 55 block4 AND 31,
        drop_bit 50 block4 AND 31, drop_bit 45 block4 AND 31, drop_bit 40 block4 AND 31,
        drop_bit 35 block4 AND 31, drop_bit 30 block4 AND 31, drop_bit 25 block4 AND 31,
        drop_bit 20 block4 AND 31, drop_bit 15 block4 AND 31, drop_bit 10 block4 AND 31,
        drop_bit 5 block4 AND 31, block4 AND 31]) (\<lambda>output.
     Inr (bi + 5, output, vi + 64)))))))))))"

definition packed5_decode_u64_to_i64 :: "64 word list \<Rightarrow> nat \<Rightarrow> 64 word list \<Rightarrow> nat \<Rightarrow> nat \<Rightarrow> 64 word list res" where
  "packed5_decode_u64_to_i64 = decode_fast 0 5 64 packed5_u64_i64 packed5_u64_i64"

interpretation packed5_u64_i64: bulk_group packed5_u64_i64 64 5 5 64 "\<lambda>x. x" "\<lambda>x. x"
proof
  show "packed5_u64_i64 input bi out vi = Inr (bi + 5, patch out vi
      (map (\<lambda>x. x) (unpack 64 (\<lambda>i. input ! (bi + i)) 5 64)), vi + 64)"
    if "bi + 5 \<le> length input" "vi + 64 \<le> length out" for bi vi input out
    using that unfolding packed5_u64_i64_def and_masks
    by (simp add: stores_ok patch_fuse, intro patch_cong, simp add: unpack_def upt_rec,
        simp add: gather_in gather_over unpack_simps)
qed simp_all

lemma packed5_decode_u64_to_i64_ok [bulk_decode]:
  "bo + n * 5 \<le> length blocks \<Longrightarrow> vo + n * 64 \<le> length vals \<Longrightarrow>
   packed5_decode_u64_to_i64 blocks bo vals vo n = Inr (patch vals vo (unpack 64 (\<lambda>i. blocks ! (bo + i)) 5 (n * 64)))"
  using packed5_u64_i64.decode_fast_ok [OF packed5_u64_i64.bulk_group_axioms, of bo n blocks vo vals] by (simp add: packed5_decode_u64_to_i64_def)

definition packed5_u8_i64 :: "8 word list \<Rightarrow> nat \<Rightarrow> 64 word list \<Rightarrow> nat \<Rightarrow> (nat \<times> 64 word list \<times> nat) res" where
  "packed5_u8_i64 input bi output vi =
     rbind (idx_as input bi) (\<lambda>byte0.
     rbind (stores output vi
       [drop_bit 3 byte0]) (\<lambda>output.
     rbind (idx_as input (bi + 1)) (\<lambda>byte1.
     rbind (stores output (vi + 1)
       [push_bit 2 (byte0 AND 7) OR drop_bit 6 byte1, drop_bit 1 byte1 AND 31]) (\<lambda>output.
     rbind (idx_as input (bi + 2)) (\<lambda>byte2.
     rbind (stores output (vi + 3)
       [push_bit 4 (byte1 AND 1) OR drop_bit 4 byte2]) (\<lambda>output.
     rbind (idx_as input (bi + 3)) (\<lambda>byte3.
     rbind (stores output (vi + 4)
       [push_bit 1 (byte2 AND 15) OR drop_bit 7 byte3, drop_bit 2 byte3 AND 31]) (\<lambda>output.
     rbind (idx_as input (bi + 4)) (\<lambda>byte4.
     rbind (stores output (vi + 6)
       [push_bit 3 (byte3 AND 3) OR drop_bit 5 byte4, byte4 AND 31]) (\<lambda>output.
     Inr (bi + 5, output, vi + 8)))))))))))"

definition packed5_decode_u8_to_i64 :: "8 word list \<Rightarrow> nat \<Rightarrow> 64 word list \<Rightarrow> nat \<Rightarrow> nat \<Rightarrow> 64 word list res" where
  "packed5_decode_u8_to_i64 = decode_fast 0 5 8 packed5_u8_i64 packed5_u8_i64"

interpretation packed5_u8_i64: bulk_group packed5_u8_i64 8 5 5 8 ucast "\<lambda>x. x"
proof
  show "packed5_u8_i64 input bi out vi = Inr (bi + 5, patch out vi
      (map (\<lambda>x. x) (unpack 8 (\<lambda>i. ucast (input ! (bi + i))) 5 8)), vi + 8)"
    if "bi + 5 \<le> length input" "vi + 8 \<le> length out" for bi vi input out
    using that unfolding packed5_u8_i64_def and_masks
    by (simp add: stores_ok patch_fuse, intro patch_cong, simp add: unpack_def upt_rec,
        simp add: gather_in gather_over unpack_simps)
qed simp_all

lemma packed5_decode_u8_to_i64_ok [bulk_decode]:
  "bo + n * 5 \<le> length blocks \<Longrightarrow> vo + n * 8 \<le> length vals \<Longrightarrow>
   packed5_decode_u8_to_i64 blocks bo vals vo n = Inr (patch vals vo (unpack 8 (\<lambda>i. ucast (blocks ! (bo + i))) 5 (n * 8)))"
  using packed5_u8_i64.decode_fast_ok [OF packed5_u8_i64.bulk_group_axioms, of bo n blocks vo vals] by (simp add: packed5_decode_u8_to_i64_def)

definition packed5_u64_i32 :: "64 word list \<Rightarrow> nat \<Rightarrow> 32 word list \<Rightarrow> nat \<Rightarrow> (nat \<times> 32 word list \<times> nat) res" where
  "packed5_u64_i32 input bi output vi =
     rbind (idx input bi) (\<lambda>block0.
     rbind (stores output vi
       [ucast (drop_bit 59 block0), ucast (drop_bit 54 block0 AND 31), ucast (drop_bit 49 block0 AND 31),
        ucast (drop_bit 44 block0 AND 31), ucast (drop_bit 39 block0 AND 31),
        ucast (drop_bit 34 block0 AND 31), ucast (drop_bit 29 block0 AND 31),
        ucast (drop_bit 24 block0 AND 31), ucast (drop_bit 19 block0 AND 31),
        ucast (drop_bit 14 block0 AND 31), ucast (drop_bit 9 block0 AND 31),
        ucast (drop_bit 4 block0 AND 31)]) (\<lambda>output.
     rbind (idx input (bi + 1)) (\<lambda>block1.
     rbind (stores output (vi + 12)
       [ucast (push_bit 1 (block0 AND 15) OR drop_bit 63 block1), ucast (drop_bit 58 block1 AND 31),
        ucast (drop_bit 53 block1 AND 31), ucast (drop_bit 48 block1 AND 31),
        ucast (drop_bit 43 block1 AND 31), ucast (drop_bit 38 block1 AND 31),
        ucast (drop_bit 33 block1 AND 31), ucast (drop_bit 28 block1 AND 31),
        ucast (drop_bit 23 block1 AND 31), ucast (drop_bit 18 block1 AND 31),
        ucast (drop_bit 13 block1 AND 31), ucast (drop_bit 8 block1 AND 31),
        ucast (drop_bit 3 block1 AND 31)]) (\<lambda>output.
     rbind (idx input (bi + 2)) (\<lambda>block2.
     rbind (stores output (vi + 25)
       [ucast (push_bit 2 (block1 AND 7) OR drop_bit 62 block2), ucast (drop_bit 57 block2 AND 31),
        ucast (drop_bit 52 block2 AND 31), ucast (drop_bit 47 block2 AND 31),
        ucast (drop_bit 42 block2 AND 31), ucast (drop_bit 37 block2 AND 31),
        ucast (drop_bit 32 block2 AND 31), ucast (drop_bit 27 block2 AND 31),
        ucast (drop_bit 22 block2 AND 31), ucast (drop_bit 17 block2 AND 31),
        ucast (drop_bit 12 block2 AND 31), ucast (drop_bit 7 block2 AND 31),
        ucast (drop_bit 2 block2 AND 31)]) (\<lambda>output.
     rbind (idx input (bi + 3)) (\<lambda>block3.
     rbind (stores output (vi + 38)
       [ucast (push_bit 3 (block2 AND 3) OR drop_bit 61 block3), ucast (drop_bit 56 block3 AND 31),
        ucast (drop_bit 51 block3 AND 31), ucast (drop_bit 46 block3 AND 31),
        ucast (drop_bit 41 block3 AND 31), ucast (drop_bit 36 block3 AND 31),
        ucast (drop_bit 31 block3 AND 31), ucast (drop_bit 26 block3 AND 31),
        ucast (drop_bit 21 block3 AND 31), ucast (drop_bit 16 block3 AND 31),
        ucast (drop_bit 11 block3 AND 31), ucast (drop_bit 6 block3 AND 31),
        ucast (drop_bit 1 block3 AND 31)]) (\<lambda>output.
     rbind (idx input (bi + 4)) (\<lambda>block4.
     rbind (stores output (vi + 51)
       [ucast (push_bit 4 (block3 AND 1) OR drop_bit 60 block4)]) (\<lambda>output.
     rbind (stores output (vi + 52) (map (\<lambda>i. ucast (drop_bit (55 - i * 5) block4 AND 31)) [0..<12])) (\<lambda>output.
     Inr (bi + 5, output, vi + 64))))))))))))"

definition packed5_decode_u64_to_i32 :: "64 word list \<Rightarrow> nat \<Rightarrow> 32 word list \<Rightarrow> nat \<Rightarrow> nat \<Rightarrow> 32 word list res" where
  "packed5_decode_u64_to_i32 = decode_fast 0 5 64 packed5_u64_i32 packed5_u64_i32"

interpretation packed5_u64_i32: bulk_group packed5_u64_i32 64 5 5 64 "\<lambda>x. x" ucast
proof
  show "packed5_u64_i32 input bi out vi = Inr (bi + 5, patch out vi
      (map (ucast) (unpack 64 (\<lambda>i. input ! (bi + i)) 5 64)), vi + 64)"
    if "bi + 5 \<le> length input" "vi + 64 \<le> length out" for bi vi input out
    using that unfolding packed5_u64_i32_def and_masks
    by (simp add: stores_ok patch_fuse, intro patch_cong, simp add: unpack_def upt_rec,
        simp add: gather_in gather_over unpack_simps)
qed simp_all

lemma packed5_decode_u64_to_i32_ok [bulk_decode]:
  "bo + n * 5 \<le> length blocks \<Longrightarrow> vo + n * 64 \<le> length vals \<Longrightarrow>
   packed5_decode_u64_to_i32 blocks bo vals vo n = Inr (patch vals vo (map ucast (unpack 64 (\<lambda>i. blocks ! (bo + i)) 5 (n * 64))))"
  using packed5_u64_i32.decode_fast_ok [OF packed5_u64_i32.bulk_group_axioms, of bo n blocks vo vals] by (simp add: packed5_decode_u64_to_i32_def)

definition packed5_u8_i32 :: "8 word list \<Rightarrow> nat \<Rightarrow> 32 word list \<Rightarrow> nat \<Rightarrow> (nat \<times> 32 word list \<times> nat) res" where
  "packed5_u8_i32 input bi output vi =
     rbind (idx_as input bi) (\<lambda>byte0.
     rbind (stores output vi
       [signed_drop_bit 3 byte0]) (\<lambda>output.
     rbind (idx_as input (bi + 1)) (\<lambda>byte1.
     rbind (stores output (vi + 1)
       [push_bit 2 (byte0 AND 7) OR signed_drop_bit 6 byte1, signed_drop_bit 1 byte1 AND 31]) (\<lambda>output.
     rbind (idx_as input (bi + 2)) (\<lambda>byte2.
     rbind (stores output (vi + 3)
       [push_bit 4 (byte1 AND 1) OR signed_drop_bit 4 byte2]) (\<lambda>output.
     rbind (idx_as input (bi + 3)) (\<lambda>byte3.
     rbind (stores output (vi + 4)
       [push_bit 1 (byte2 AND 15) OR signed_drop_bit 7 byte3, signed_drop_bit 2 byte3 AND 31]) (\<lambda>output.
     rbind (idx_as input (bi + 4)) (\<lambda>byte4.
     rbind (stores output (vi + 6)
       [push_bit 3 (byte3 AND 3) OR signed_drop_bit 5 byte4, byte4 AND 31]) (\<lambda>output.
     Inr (bi + 5, output, vi + 8)))))))))))"

definition packed5_decode_u8_to_i32 :: "8 word list \<Rightarrow> nat \<Rightarrow> 32 word list \<Rightarrow> nat \<Rightarrow> nat \<Rightarrow> 32 word list res" where
  "packed5_decode_u8_to_i32 = decode_fast 0 5 8 packed5_u8_i32 packed5_u8_i32"

interpretation packed5_u8_i32: bulk_group packed5_u8_i32 8 5 5 8 ucast "\<lambda>x. x"
proof
  show "packed5_u8_i32 input bi out vi = Inr (bi + 5, patch out vi
      (map (\<lambda>x. x) (unpack 8 (\<lambda>i. ucast (input ! (bi + i))) 5 8)), vi + 8)"
    if "bi + 5 \<le> length input" "vi + 8 \<le> length out" for bi vi input out
    using that unfolding packed5_u8_i32_def and_masks
    by (simp add: stores_ok patch_fuse, intro patch_cong, simp add: unpack_def upt_rec,
        simp add: gather_in gather_over unpack_simps)
qed simp_all

lemma packed5_decode_u8_to_i32_ok [bulk_decode]:
  "bo + n * 5 \<le> length blocks \<Longrightarrow> vo + n * 8 \<le> length vals \<Longrightarrow>
   packed5_decode_u8_to_i32 blocks bo vals vo n = Inr (patch vals vo (unpack 8 (\<lambda>i. ucast (blocks ! (bo + i))) 5 (n * 8)))"
  using packed5_u8_i32.decode_fast_ok [OF packed5_u8_i32.bulk_group_axioms, of bo n blocks vo vals] by (simp add: packed5_decode_u8_to_i32_def)

section \<open>\<open>BulkOperationPacked6\<close>\<close>

definition packed6_u64_i64 :: "64 word list \<Rightarrow> nat \<Rightarrow> 64 word list \<Rightarrow> nat \<Rightarrow> (nat \<times> 64 word list \<times> nat) res" where
  "packed6_u64_i64 input bi output vi =
     rbind (idx input bi) (\<lambda>block0.
     rbind (stores output vi
       [drop_bit 58 block0, drop_bit 52 block0 AND 63, drop_bit 46 block0 AND 63, drop_bit 40 block0 AND 63,
        drop_bit 34 block0 AND 63, drop_bit 28 block0 AND 63, drop_bit 22 block0 AND 63,
        drop_bit 16 block0 AND 63, drop_bit 10 block0 AND 63, drop_bit 4 block0 AND 63]) (\<lambda>output.
     rbind (idx input (bi + 1)) (\<lambda>block1.
     rbind (stores output (vi + 10)
       [push_bit 2 (block0 AND 15) OR drop_bit 62 block1, drop_bit 56 block1 AND 63,
        drop_bit 50 block1 AND 63, drop_bit 44 block1 AND 63, drop_bit 38 block1 AND 63,
        drop_bit 32 block1 AND 63, drop_bit 26 block1 AND 63, drop_bit 20 block1 AND 63,
        drop_bit 14 block1 AND 63, drop_bit 8 block1 AND 63, drop_bit 2 block1 AND 63]) (\<lambda>output.
     rbind (idx input (bi + 2)) (\<lambda>block2.
     rbind (stores output (vi + 21)
       [push_bit 4 (block1 AND 3) OR drop_bit 60 block2, drop_bit 54 block2 AND 63,
        drop_bit 48 block2 AND 63, drop_bit 42 block2 AND 63, drop_bit 36 block2 AND 63,
        drop_bit 30 block2 AND 63, drop_bit 24 block2 AND 63, drop_bit 18 block2 AND 63,
        drop_bit 12 block2 AND 63, drop_bit 6 block2 AND 63, block2 AND 63]) (\<lambda>output.
     Inr (bi + 3, output, vi + 32)))))))"

definition packed6_decode_u64_to_i64 :: "64 word list \<Rightarrow> nat \<Rightarrow> 64 word list \<Rightarrow> nat \<Rightarrow> nat \<Rightarrow> 64 word list res" where
  "packed6_decode_u64_to_i64 = decode_fast 0 3 32 packed6_u64_i64 packed6_u64_i64"

interpretation packed6_u64_i64: bulk_group packed6_u64_i64 64 6 3 32 "\<lambda>x. x" "\<lambda>x. x"
proof
  show "packed6_u64_i64 input bi out vi = Inr (bi + 3, patch out vi
      (map (\<lambda>x. x) (unpack 64 (\<lambda>i. input ! (bi + i)) 6 32)), vi + 32)"
    if "bi + 3 \<le> length input" "vi + 32 \<le> length out" for bi vi input out
    using that unfolding packed6_u64_i64_def and_masks
    by (simp add: stores_ok patch_fuse, intro patch_cong, simp add: unpack_def upt_rec,
        simp add: gather_in gather_over unpack_simps)
qed simp_all

lemma packed6_decode_u64_to_i64_ok [bulk_decode]:
  "bo + n * 3 \<le> length blocks \<Longrightarrow> vo + n * 32 \<le> length vals \<Longrightarrow>
   packed6_decode_u64_to_i64 blocks bo vals vo n = Inr (patch vals vo (unpack 64 (\<lambda>i. blocks ! (bo + i)) 6 (n * 32)))"
  using packed6_u64_i64.decode_fast_ok [OF packed6_u64_i64.bulk_group_axioms, of bo n blocks vo vals] by (simp add: packed6_decode_u64_to_i64_def)

definition packed6_u8_i64 :: "8 word list \<Rightarrow> nat \<Rightarrow> 64 word list \<Rightarrow> nat \<Rightarrow> (nat \<times> 64 word list \<times> nat) res" where
  "packed6_u8_i64 input bi output vi =
     rbind (idx_as input bi) (\<lambda>byte0.
     rbind (stores output vi
       [drop_bit 2 byte0]) (\<lambda>output.
     rbind (idx_as input (bi + 1)) (\<lambda>byte1.
     rbind (stores output (vi + 1)
       [push_bit 4 (byte0 AND 3) OR drop_bit 4 byte1]) (\<lambda>output.
     rbind (idx_as input (bi + 2)) (\<lambda>byte2.
     rbind (stores output (vi + 2)
       [push_bit 2 (byte1 AND 15) OR drop_bit 6 byte2, byte2 AND 63]) (\<lambda>output.
     Inr (bi + 3, output, vi + 4)))))))"

definition packed6_decode_u8_to_i64 :: "8 word list \<Rightarrow> nat \<Rightarrow> 64 word list \<Rightarrow> nat \<Rightarrow> nat \<Rightarrow> 64 word list res" where
  "packed6_decode_u8_to_i64 = decode_loop packed6_u8_i64"

interpretation packed6_u8_i64: bulk_group packed6_u8_i64 8 6 3 4 ucast "\<lambda>x. x"
proof
  show "packed6_u8_i64 input bi out vi = Inr (bi + 3, patch out vi
      (map (\<lambda>x. x) (unpack 8 (\<lambda>i. ucast (input ! (bi + i))) 6 4)), vi + 4)"
    if "bi + 3 \<le> length input" "vi + 4 \<le> length out" for bi vi input out
    using that unfolding packed6_u8_i64_def and_masks
    by (simp add: stores_ok patch_fuse, intro patch_cong, simp add: unpack_def upt_rec,
        simp add: gather_in gather_over unpack_simps)
qed simp_all

lemma packed6_decode_u8_to_i64_ok [bulk_decode]:
  "bo + n * 3 \<le> length blocks \<Longrightarrow> vo + n * 4 \<le> length vals \<Longrightarrow>
   packed6_decode_u8_to_i64 blocks bo vals vo n = Inr (patch vals vo (unpack 8 (\<lambda>i. ucast (blocks ! (bo + i))) 6 (n * 4)))"
  using packed6_u8_i64.decode_loop_ok [of bo n blocks vo vals] by (simp add: packed6_decode_u8_to_i64_def)

definition packed6_u64_i32 :: "64 word list \<Rightarrow> nat \<Rightarrow> 32 word list \<Rightarrow> nat \<Rightarrow> (nat \<times> 32 word list \<times> nat) res" where
  "packed6_u64_i32 input bi output vi =
     rbind (idx input bi) (\<lambda>block0.
     rbind (stores output vi
       [ucast (drop_bit 58 block0), ucast (drop_bit 52 block0 AND 63), ucast (drop_bit 46 block0 AND 63),
        ucast (drop_bit 40 block0 AND 63), ucast (drop_bit 34 block0 AND 63),
        ucast (drop_bit 28 block0 AND 63), ucast (drop_bit 22 block0 AND 63),
        ucast (drop_bit 16 block0 AND 63), ucast (drop_bit 10 block0 AND 63),
        ucast (drop_bit 4 block0 AND 63)]) (\<lambda>output.
     rbind (idx input (bi + 1)) (\<lambda>block1.
     rbind (stores output (vi + 10)
       [ucast (push_bit 2 (block0 AND 15) OR drop_bit 62 block1), ucast (drop_bit 56 block1 AND 63),
        ucast (drop_bit 50 block1 AND 63), ucast (drop_bit 44 block1 AND 63),
        ucast (drop_bit 38 block1 AND 63), ucast (drop_bit 32 block1 AND 63),
        ucast (drop_bit 26 block1 AND 63), ucast (drop_bit 20 block1 AND 63),
        ucast (drop_bit 14 block1 AND 63), ucast (drop_bit 8 block1 AND 63),
        ucast (drop_bit 2 block1 AND 63)]) (\<lambda>output.
     rbind (idx input (bi + 2)) (\<lambda>block2.
     rbind (stores output (vi + 21)
       [ucast (push_bit 4 (block1 AND 3) OR drop_bit 60 block2), ucast (drop_bit 54 block2 AND 63),
        ucast (drop_bit 48 block2 AND 63), ucast (drop_bit 42 block2 AND 63),
        ucast (drop_bit 36 block2 AND 63), ucast (drop_bit 30 block2 AND 63),
        ucast (drop_bit 24 block2 AND 63), ucast (drop_bit 18 block2 AND 63),
        ucast (drop_bit 12 block2 AND 63), ucast (drop_bit 6 block2 AND 63), ucast (block2 AND 63)]) (\<lambda>output.
     Inr (bi + 3, output, vi + 32)))))))"

definition packed6_decode_u64_to_i32 :: "64 word list \<Rightarrow> nat \<Rightarrow> 32 word list \<Rightarrow> nat \<Rightarrow> nat \<Rightarrow> 32 word list res" where
  "packed6_decode_u64_to_i32 = decode_fast 0 3 32 packed6_u64_i32 packed6_u64_i32"

interpretation packed6_u64_i32: bulk_group packed6_u64_i32 64 6 3 32 "\<lambda>x. x" ucast
proof
  show "packed6_u64_i32 input bi out vi = Inr (bi + 3, patch out vi
      (map (ucast) (unpack 64 (\<lambda>i. input ! (bi + i)) 6 32)), vi + 32)"
    if "bi + 3 \<le> length input" "vi + 32 \<le> length out" for bi vi input out
    using that unfolding packed6_u64_i32_def and_masks
    by (simp add: stores_ok patch_fuse, intro patch_cong, simp add: unpack_def upt_rec,
        simp add: gather_in gather_over unpack_simps)
qed simp_all

lemma packed6_decode_u64_to_i32_ok [bulk_decode]:
  "bo + n * 3 \<le> length blocks \<Longrightarrow> vo + n * 32 \<le> length vals \<Longrightarrow>
   packed6_decode_u64_to_i32 blocks bo vals vo n = Inr (patch vals vo (map ucast (unpack 64 (\<lambda>i. blocks ! (bo + i)) 6 (n * 32))))"
  using packed6_u64_i32.decode_fast_ok [OF packed6_u64_i32.bulk_group_axioms, of bo n blocks vo vals] by (simp add: packed6_decode_u64_to_i32_def)

definition packed6_u8_i32 :: "8 word list \<Rightarrow> nat \<Rightarrow> 32 word list \<Rightarrow> nat \<Rightarrow> (nat \<times> 32 word list \<times> nat) res" where
  "packed6_u8_i32 input bi output vi =
     rbind (idx_as input bi) (\<lambda>byte0.
     rbind (stores output vi
       [signed_drop_bit 2 byte0]) (\<lambda>output.
     rbind (idx_as input (bi + 1)) (\<lambda>byte1.
     rbind (stores output (vi + 1)
       [push_bit 4 (byte0 AND 3) OR signed_drop_bit 4 byte1]) (\<lambda>output.
     rbind (idx_as input (bi + 2)) (\<lambda>byte2.
     rbind (stores output (vi + 2)
       [push_bit 2 (byte1 AND 15) OR signed_drop_bit 6 byte2, byte2 AND 63]) (\<lambda>output.
     Inr (bi + 3, output, vi + 4)))))))"

definition packed6_decode_u8_to_i32 :: "8 word list \<Rightarrow> nat \<Rightarrow> 32 word list \<Rightarrow> nat \<Rightarrow> nat \<Rightarrow> 32 word list res" where
  "packed6_decode_u8_to_i32 = decode_loop packed6_u8_i32"

interpretation packed6_u8_i32: bulk_group packed6_u8_i32 8 6 3 4 ucast "\<lambda>x. x"
proof
  show "packed6_u8_i32 input bi out vi = Inr (bi + 3, patch out vi
      (map (\<lambda>x. x) (unpack 8 (\<lambda>i. ucast (input ! (bi + i))) 6 4)), vi + 4)"
    if "bi + 3 \<le> length input" "vi + 4 \<le> length out" for bi vi input out
    using that unfolding packed6_u8_i32_def and_masks
    by (simp add: stores_ok patch_fuse, intro patch_cong, simp add: unpack_def upt_rec,
        simp add: gather_in gather_over unpack_simps)
qed simp_all

lemma packed6_decode_u8_to_i32_ok [bulk_decode]:
  "bo + n * 3 \<le> length blocks \<Longrightarrow> vo + n * 4 \<le> length vals \<Longrightarrow>
   packed6_decode_u8_to_i32 blocks bo vals vo n = Inr (patch vals vo (unpack 8 (\<lambda>i. ucast (blocks ! (bo + i))) 6 (n * 4)))"
  using packed6_u8_i32.decode_loop_ok [of bo n blocks vo vals] by (simp add: packed6_decode_u8_to_i32_def)

section \<open>\<open>BulkOperationPacked7\<close>\<close>

definition packed7_u64_i64 :: "64 word list \<Rightarrow> nat \<Rightarrow> 64 word list \<Rightarrow> nat \<Rightarrow> (nat \<times> 64 word list \<times> nat) res" where
  "packed7_u64_i64 input bi output vi =
     rbind (idx input bi) (\<lambda>block0.
     rbind (stores output vi
       [drop_bit 57 block0, drop_bit 50 block0 AND 127, drop_bit 43 block0 AND 127,
        drop_bit 36 block0 AND 127, drop_bit 29 block0 AND 127, drop_bit 22 block0 AND 127,
        drop_bit 15 block0 AND 127, drop_bit 8 block0 AND 127, drop_bit 1 block0 AND 127]) (\<lambda>output.
     rbind (idx input (bi + 1)) (\<lambda>block1.
     rbind (stores output (vi + 9)
       [push_bit 6 (block0 AND 1) OR drop_bit 58 block1, drop_bit 51 block1 AND 127,
        drop_bit 44 block1 AND 127, drop_bit 37 block1 AND 127, drop_bit 30 block1 AND 127,
        drop_bit 23 block1 AND 127, drop_bit 16 block1 AND 127, drop_bit 9 block1 AND 127,
        drop_bit 2 block1 AND 127]) (\<lambda>output.
     rbind (idx input (bi + 2)) (\<lambda>block2.
     rbind (stores output (vi + 18)
       [push_bit 5 (block1 AND 3) OR drop_bit 59 block2, drop_bit 52 block2 AND 127,
        drop_bit 45 block2 AND 127, drop_bit 38 block2 AND 127, drop_bit 31 block2 AND 127,
        drop_bit 24 block2 AND 127, drop_bit 17 block2 AND 127, drop_bit 10 block2 AND 127,
        drop_bit 3 block2 AND 127]) (\<lambda>output.
     rbind (idx input (bi + 3)) (\<lambda>block3.
     rbind (stores output (vi + 27)
       [push_bit 4 (block2 AND 7) OR drop_bit 60 block3, drop_bit 53 block3 AND 127,
        drop_bit 46 block3 AND 127, drop_bit 39 block3 AND 127, drop_bit 32 block3 AND 127,
        drop_bit 25 block3 AND 127, drop_bit 18 block3 AND 127, drop_bit 11 block3 AND 127,
        drop_bit 4 block3 AND 127]) (\<lambda>output.
     rbind (idx input (bi + 4)) (\<lambda>block4.
     rbind (stores output (vi + 36)
       [push_bit 3 (block3 AND 15) OR drop_bit 61 block4, drop_bit 54 block4 AND 127,
        drop_bit 47 block4 AND 127, drop_bit 40 block4 AND 127, drop_bit 33 block4 AND 127,
        drop_bit 26 block4 AND 127, drop_bit 19 block4 AND 127, drop_bit 12 block4 AND 127,
        drop_bit 5 block4 AND 127]) (\<lambda>output.
     rbind (idx input (bi + 5)) (\<lambda>block5.
     rbind (stores output (vi + 45)
       [push_bit 2 (block4 AND 31) OR drop_bit 62 block5, drop_bit 55 block5 AND 127,
        drop_bit 48 block5 AND 127, drop_bit 41 block5 AND 127, drop_bit 34 block5 AND 127,
        drop_bit 27 block5 AND 127, drop_bit 20 block5 AND 127, drop_bit 13 block5 AND 127,
        drop_bit 6 block5 AND 127]) (\<lambda>output.
     rbind (idx input (bi + 6)) (\<lambda>block6.
     rbind (stores output (vi + 54)
       [push_bit 1 (block5 AND 63) OR drop_bit 63 block6, drop_bit 56 block6 AND 127,
        drop_bit 49 block6 AND 127, drop_bit 42 block6 AND 127, drop_bit 35 block6 AND 127,
        drop_bit 28 block6 AND 127, drop_bit 21 block6 AND 127, drop_bit 14 block6 AND 127,
        drop_bit 7 block6 AND 127, block6 AND 127]) (\<lambda>output.
     Inr (bi + 7, output, vi + 64)))))))))))))))"

definition packed7_decode_u64_to_i64 :: "64 word list \<Rightarrow> nat \<Rightarrow> 64 word list \<Rightarrow> nat \<Rightarrow> nat \<Rightarrow> 64 word list res" where
  "packed7_decode_u64_to_i64 = decode_fast 0 7 64 packed7_u64_i64 packed7_u64_i64"

interpretation packed7_u64_i64: bulk_group packed7_u64_i64 64 7 7 64 "\<lambda>x. x" "\<lambda>x. x"
proof
  show "packed7_u64_i64 input bi out vi = Inr (bi + 7, patch out vi
      (map (\<lambda>x. x) (unpack 64 (\<lambda>i. input ! (bi + i)) 7 64)), vi + 64)"
    if "bi + 7 \<le> length input" "vi + 64 \<le> length out" for bi vi input out
    using that unfolding packed7_u64_i64_def and_masks
    by (simp add: stores_ok patch_fuse, intro patch_cong, simp add: unpack_def upt_rec,
        simp add: gather_in gather_over unpack_simps)
qed simp_all

lemma packed7_decode_u64_to_i64_ok [bulk_decode]:
  "bo + n * 7 \<le> length blocks \<Longrightarrow> vo + n * 64 \<le> length vals \<Longrightarrow>
   packed7_decode_u64_to_i64 blocks bo vals vo n = Inr (patch vals vo (unpack 64 (\<lambda>i. blocks ! (bo + i)) 7 (n * 64)))"
  using packed7_u64_i64.decode_fast_ok [OF packed7_u64_i64.bulk_group_axioms, of bo n blocks vo vals] by (simp add: packed7_decode_u64_to_i64_def)

definition packed7_u8_i64 :: "8 word list \<Rightarrow> nat \<Rightarrow> 64 word list \<Rightarrow> nat \<Rightarrow> (nat \<times> 64 word list \<times> nat) res" where
  "packed7_u8_i64 input bi output vi =
     rbind (idx_as input bi) (\<lambda>byte0.
     rbind (stores output vi
       [drop_bit 1 byte0]) (\<lambda>output.
     rbind (idx_as input (bi + 1)) (\<lambda>byte1.
     rbind (stores output (vi + 1)
       [push_bit 6 (byte0 AND 1) OR drop_bit 2 byte1]) (\<lambda>output.
     rbind (idx_as input (bi + 2)) (\<lambda>byte2.
     rbind (stores output (vi + 2)
       [push_bit 5 (byte1 AND 3) OR drop_bit 3 byte2]) (\<lambda>output.
     rbind (idx_as input (bi + 3)) (\<lambda>byte3.
     rbind (stores output (vi + 3)
       [push_bit 4 (byte2 AND 7) OR drop_bit 4 byte3]) (\<lambda>output.
     rbind (idx_as input (bi + 4)) (\<lambda>byte4.
     rbind (stores output (vi + 4)
       [push_bit 3 (byte3 AND 15) OR drop_bit 5 byte4]) (\<lambda>output.
     rbind (idx_as input (bi + 5)) (\<lambda>byte5.
     rbind (stores output (vi + 5)
       [push_bit 2 (byte4 AND 31) OR drop_bit 6 byte5]) (\<lambda>output.
     rbind (idx_as input (bi + 6)) (\<lambda>byte6.
     rbind (stores output (vi + 6)
       [push_bit 1 (byte5 AND 63) OR drop_bit 7 byte6, byte6 AND 127]) (\<lambda>output.
     Inr (bi + 7, output, vi + 8)))))))))))))))"

definition packed7_decode_u8_to_i64 :: "8 word list \<Rightarrow> nat \<Rightarrow> 64 word list \<Rightarrow> nat \<Rightarrow> nat \<Rightarrow> 64 word list res" where
  "packed7_decode_u8_to_i64 = decode_fast 0 7 8 packed7_u8_i64 packed7_u8_i64"

interpretation packed7_u8_i64: bulk_group packed7_u8_i64 8 7 7 8 ucast "\<lambda>x. x"
proof
  show "packed7_u8_i64 input bi out vi = Inr (bi + 7, patch out vi
      (map (\<lambda>x. x) (unpack 8 (\<lambda>i. ucast (input ! (bi + i))) 7 8)), vi + 8)"
    if "bi + 7 \<le> length input" "vi + 8 \<le> length out" for bi vi input out
    using that unfolding packed7_u8_i64_def and_masks
    by (simp add: stores_ok patch_fuse, intro patch_cong, simp add: unpack_def upt_rec,
        simp add: gather_in gather_over unpack_simps)
qed simp_all

lemma packed7_decode_u8_to_i64_ok [bulk_decode]:
  "bo + n * 7 \<le> length blocks \<Longrightarrow> vo + n * 8 \<le> length vals \<Longrightarrow>
   packed7_decode_u8_to_i64 blocks bo vals vo n = Inr (patch vals vo (unpack 8 (\<lambda>i. ucast (blocks ! (bo + i))) 7 (n * 8)))"
  using packed7_u8_i64.decode_fast_ok [OF packed7_u8_i64.bulk_group_axioms, of bo n blocks vo vals] by (simp add: packed7_decode_u8_to_i64_def)

definition packed7_u64_i32 :: "64 word list \<Rightarrow> nat \<Rightarrow> 32 word list \<Rightarrow> nat \<Rightarrow> (nat \<times> 32 word list \<times> nat) res" where
  "packed7_u64_i32 input bi output vi =
     rbind (idx input bi) (\<lambda>block0.
     rbind (stores output vi
       [ucast (drop_bit 57 block0), ucast (drop_bit 50 block0 AND 127), ucast (drop_bit 43 block0 AND 127),
        ucast (drop_bit 36 block0 AND 127), ucast (drop_bit 29 block0 AND 127),
        ucast (drop_bit 22 block0 AND 127), ucast (drop_bit 15 block0 AND 127),
        ucast (drop_bit 8 block0 AND 127), ucast (drop_bit 1 block0 AND 127)]) (\<lambda>output.
     rbind (idx input (bi + 1)) (\<lambda>block1.
     rbind (stores output (vi + 9)
       [ucast (push_bit 6 (block0 AND 1) OR drop_bit 58 block1), ucast (drop_bit 51 block1 AND 127),
        ucast (drop_bit 44 block1 AND 127), ucast (drop_bit 37 block1 AND 127),
        ucast (drop_bit 30 block1 AND 127), ucast (drop_bit 23 block1 AND 127),
        ucast (drop_bit 16 block1 AND 127), ucast (drop_bit 9 block1 AND 127),
        ucast (drop_bit 2 block1 AND 127)]) (\<lambda>output.
     rbind (idx input (bi + 2)) (\<lambda>block2.
     rbind (stores output (vi + 18)
       [ucast (push_bit 5 (block1 AND 3) OR drop_bit 59 block2), ucast (drop_bit 52 block2 AND 127),
        ucast (drop_bit 45 block2 AND 127), ucast (drop_bit 38 block2 AND 127),
        ucast (drop_bit 31 block2 AND 127), ucast (drop_bit 24 block2 AND 127),
        ucast (drop_bit 17 block2 AND 127), ucast (drop_bit 10 block2 AND 127),
        ucast (drop_bit 3 block2 AND 127)]) (\<lambda>output.
     rbind (idx input (bi + 3)) (\<lambda>block3.
     rbind (stores output (vi + 27)
       [ucast (push_bit 4 (block2 AND 7) OR drop_bit 60 block3), ucast (drop_bit 53 block3 AND 127),
        ucast (drop_bit 46 block3 AND 127), ucast (drop_bit 39 block3 AND 127),
        ucast (drop_bit 32 block3 AND 127), ucast (drop_bit 25 block3 AND 127),
        ucast (drop_bit 18 block3 AND 127), ucast (drop_bit 11 block3 AND 127),
        ucast (drop_bit 4 block3 AND 127)]) (\<lambda>output.
     rbind (idx input (bi + 4)) (\<lambda>block4.
     rbind (stores output (vi + 36)
       [ucast (push_bit 3 (block3 AND 15) OR drop_bit 61 block4), ucast (drop_bit 54 block4 AND 127),
        ucast (drop_bit 47 block4 AND 127), ucast (drop_bit 40 block4 AND 127),
        ucast (drop_bit 33 block4 AND 127), ucast (drop_bit 26 block4 AND 127),
        ucast (drop_bit 19 block4 AND 127), ucast (drop_bit 12 block4 AND 127),
        ucast (drop_bit 5 block4 AND 127)]) (\<lambda>output.
     rbind (idx input (bi + 5)) (\<lambda>block5.
     rbind (stores output (vi + 45)
       [ucast (push_bit 2 (block4 AND 31) OR drop_bit 62 block5), ucast (drop_bit 55 block5 AND 127),
        ucast (drop_bit 48 block5 AND 127), ucast (drop_bit 41 block5 AND 127),
        ucast (drop_bit 34 block5 AND 127), ucast (drop_bit 27 block5 AND 127),
        ucast (drop_bit 20 block5 AND 127), ucast (drop_bit 13 block5 AND 127),
        ucast (drop_bit 6 block5 AND 127)]) (\<lambda>output.
     rbind (idx input (bi + 6)) (\<lambda>block6.
     rbind (stores output (vi + 54)
       [ucast (push_bit 1 (block5 AND 63) OR drop_bit 63 block6), ucast (drop_bit 56 block6 AND 127),
        ucast (drop_bit 49 block6 AND 127), ucast (drop_bit 42 block6 AND 127),
        ucast (drop_bit 35 block6 AND 127), ucast (drop_bit 28 block6 AND 127),
        ucast (drop_bit 21 block6 AND 127), ucast (drop_bit 14 block6 AND 127),
        ucast (drop_bit 7 block6 AND 127), ucast (block6 AND 127)]) (\<lambda>output.
     Inr (bi + 7, output, vi + 64)))))))))))))))"

definition packed7_decode_u64_to_i32 :: "64 word list \<Rightarrow> nat \<Rightarrow> 32 word list \<Rightarrow> nat \<Rightarrow> nat \<Rightarrow> 32 word list res" where
  "packed7_decode_u64_to_i32 = decode_fast 0 7 64 packed7_u64_i32 packed7_u64_i32"

interpretation packed7_u64_i32: bulk_group packed7_u64_i32 64 7 7 64 "\<lambda>x. x" ucast
proof
  show "packed7_u64_i32 input bi out vi = Inr (bi + 7, patch out vi
      (map (ucast) (unpack 64 (\<lambda>i. input ! (bi + i)) 7 64)), vi + 64)"
    if "bi + 7 \<le> length input" "vi + 64 \<le> length out" for bi vi input out
    using that unfolding packed7_u64_i32_def and_masks
    by (simp add: stores_ok patch_fuse, intro patch_cong, simp add: unpack_def upt_rec,
        simp add: gather_in gather_over unpack_simps)
qed simp_all

lemma packed7_decode_u64_to_i32_ok [bulk_decode]:
  "bo + n * 7 \<le> length blocks \<Longrightarrow> vo + n * 64 \<le> length vals \<Longrightarrow>
   packed7_decode_u64_to_i32 blocks bo vals vo n = Inr (patch vals vo (map ucast (unpack 64 (\<lambda>i. blocks ! (bo + i)) 7 (n * 64))))"
  using packed7_u64_i32.decode_fast_ok [OF packed7_u64_i32.bulk_group_axioms, of bo n blocks vo vals] by (simp add: packed7_decode_u64_to_i32_def)

definition packed7_u8_i32 :: "8 word list \<Rightarrow> nat \<Rightarrow> 32 word list \<Rightarrow> nat \<Rightarrow> (nat \<times> 32 word list \<times> nat) res" where
  "packed7_u8_i32 input bi output vi =
     rbind (idx_as input bi) (\<lambda>byte0.
     rbind (stores output vi
       [signed_drop_bit 1 byte0]) (\<lambda>output.
     rbind (idx_as input (bi + 1)) (\<lambda>byte1.
     rbind (stores output (vi + 1)
       [push_bit 6 (byte0 AND 1) OR signed_drop_bit 2 byte1]) (\<lambda>output.
     rbind (idx_as input (bi + 2)) (\<lambda>byte2.
     rbind (stores output (vi + 2)
       [push_bit 5 (byte1 AND 3) OR signed_drop_bit 3 byte2]) (\<lambda>output.
     rbind (idx_as input (bi + 3)) (\<lambda>byte3.
     rbind (stores output (vi + 3)
       [push_bit 4 (byte2 AND 7) OR signed_drop_bit 4 byte3]) (\<lambda>output.
     rbind (idx_as input (bi + 4)) (\<lambda>byte4.
     rbind (stores output (vi + 4)
       [push_bit 3 (byte3 AND 15) OR signed_drop_bit 5 byte4]) (\<lambda>output.
     rbind (idx_as input (bi + 5)) (\<lambda>byte5.
     rbind (stores output (vi + 5)
       [push_bit 2 (byte4 AND 31) OR signed_drop_bit 6 byte5]) (\<lambda>output.
     rbind (idx_as input (bi + 6)) (\<lambda>byte6.
     rbind (stores output (vi + 6)
       [push_bit 1 (byte5 AND 63) OR signed_drop_bit 7 byte6, byte6 AND 127]) (\<lambda>output.
     Inr (bi + 7, output, vi + 8)))))))))))))))"

definition packed7_decode_u8_to_i32 :: "8 word list \<Rightarrow> nat \<Rightarrow> 32 word list \<Rightarrow> nat \<Rightarrow> nat \<Rightarrow> 32 word list res" where
  "packed7_decode_u8_to_i32 = decode_fast 0 7 8 packed7_u8_i32 packed7_u8_i32"

interpretation packed7_u8_i32: bulk_group packed7_u8_i32 8 7 7 8 ucast "\<lambda>x. x"
proof
  show "packed7_u8_i32 input bi out vi = Inr (bi + 7, patch out vi
      (map (\<lambda>x. x) (unpack 8 (\<lambda>i. ucast (input ! (bi + i))) 7 8)), vi + 8)"
    if "bi + 7 \<le> length input" "vi + 8 \<le> length out" for bi vi input out
    using that unfolding packed7_u8_i32_def and_masks
    by (simp add: stores_ok patch_fuse, intro patch_cong, simp add: unpack_def upt_rec,
        simp add: gather_in gather_over unpack_simps)
qed simp_all

lemma packed7_decode_u8_to_i32_ok [bulk_decode]:
  "bo + n * 7 \<le> length blocks \<Longrightarrow> vo + n * 8 \<le> length vals \<Longrightarrow>
   packed7_decode_u8_to_i32 blocks bo vals vo n = Inr (patch vals vo (unpack 8 (\<lambda>i. ucast (blocks ! (bo + i))) 7 (n * 8)))"
  using packed7_u8_i32.decode_fast_ok [OF packed7_u8_i32.bulk_group_axioms, of bo n blocks vo vals] by (simp add: packed7_decode_u8_to_i32_def)

section \<open>\<open>BulkOperationPacked8\<close>\<close>

definition packed8_u64_i64 :: "64 word list \<Rightarrow> nat \<Rightarrow> 64 word list \<Rightarrow> nat \<Rightarrow> (nat \<times> 64 word list \<times> nat) res" where
  "packed8_u64_i64 input bi output vi =
     rbind (idx input bi) (\<lambda>block.
     rbind (stores output vi (map (\<lambda>i. drop_bit (56 - i * 8) block AND 255) [0..<8])) (\<lambda>output.
     Inr (bi + 1, output, vi + 8)))"

definition packed8_decode_u64_to_i64 :: "64 word list \<Rightarrow> nat \<Rightarrow> 64 word list \<Rightarrow> nat \<Rightarrow> nat \<Rightarrow> 64 word list res" where
  "packed8_decode_u64_to_i64 = decode_loop packed8_u64_i64"

interpretation packed8_u64_i64: bulk_group packed8_u64_i64 64 8 1 8 "\<lambda>x. x" "\<lambda>x. x"
proof
  show "packed8_u64_i64 input bi out vi = Inr (bi + 1, patch out vi
      (map (\<lambda>x. x) (unpack 64 (\<lambda>i. input ! (bi + i)) 8 8)), vi + 8)"
    if "bi + 1 \<le> length input" "vi + 8 \<le> length out" for bi vi input out
    using that unfolding packed8_u64_i64_def and_masks
    by (simp add: stores_ok patch_fuse, intro patch_cong, simp add: unpack_def upt_rec,
        simp add: gather_in gather_over unpack_simps)
qed simp_all

lemma packed8_decode_u64_to_i64_ok [bulk_decode]:
  "bo + n * 1 \<le> length blocks \<Longrightarrow> vo + n * 8 \<le> length vals \<Longrightarrow>
   packed8_decode_u64_to_i64 blocks bo vals vo n = Inr (patch vals vo (unpack 64 (\<lambda>i. blocks ! (bo + i)) 8 (n * 8)))"
  using packed8_u64_i64.decode_loop_ok [of bo n blocks vo vals] by (simp add: packed8_decode_u64_to_i64_def)

definition packed8_u8_i64 :: "8 word list \<Rightarrow> nat \<Rightarrow> 64 word list \<Rightarrow> nat \<Rightarrow> (nat \<times> 64 word list \<times> nat) res" where
  "packed8_u8_i64 input bi output vi =
     rbind (idx_as input bi) (\<lambda>byte.
     rbind (stores output vi
       [byte AND 255]) (\<lambda>output.
     Inr (bi + 1, output, vi + 1)))"

definition packed8_decode_u8_to_i64 :: "8 word list \<Rightarrow> nat \<Rightarrow> 64 word list \<Rightarrow> nat \<Rightarrow> nat \<Rightarrow> 64 word list res" where
  "packed8_decode_u8_to_i64 = decode_loop packed8_u8_i64"

interpretation packed8_u8_i64: bulk_group packed8_u8_i64 8 8 1 1 ucast "\<lambda>x. x"
proof
  show "packed8_u8_i64 input bi out vi = Inr (bi + 1, patch out vi
      (map (\<lambda>x. x) (unpack 8 (\<lambda>i. ucast (input ! (bi + i))) 8 1)), vi + 1)"
    if "bi + 1 \<le> length input" "vi + 1 \<le> length out" for bi vi input out
    using that unfolding packed8_u8_i64_def and_masks
    by (simp add: stores_ok patch_fuse, intro patch_cong, simp add: unpack_def upt_rec,
        simp add: gather_in gather_over unpack_simps)
qed simp_all

lemma packed8_decode_u8_to_i64_ok [bulk_decode]:
  "bo + n * 1 \<le> length blocks \<Longrightarrow> vo + n * 1 \<le> length vals \<Longrightarrow>
   packed8_decode_u8_to_i64 blocks bo vals vo n = Inr (patch vals vo (unpack 8 (\<lambda>i. ucast (blocks ! (bo + i))) 8 (n * 1)))"
  using packed8_u8_i64.decode_loop_ok [of bo n blocks vo vals] by (simp add: packed8_decode_u8_to_i64_def)

definition packed8_u64_i32 :: "64 word list \<Rightarrow> nat \<Rightarrow> 32 word list \<Rightarrow> nat \<Rightarrow> (nat \<times> 32 word list \<times> nat) res" where
  "packed8_u64_i32 input bi output vi =
     rbind (idx input bi) (\<lambda>block.
     rbind (stores output vi (map (\<lambda>i. ucast (drop_bit (56 - i * 8) block AND 255)) [0..<8])) (\<lambda>output.
     Inr (bi + 1, output, vi + 8)))"

definition packed8_decode_u64_to_i32 :: "64 word list \<Rightarrow> nat \<Rightarrow> 32 word list \<Rightarrow> nat \<Rightarrow> nat \<Rightarrow> 32 word list res" where
  "packed8_decode_u64_to_i32 = decode_loop packed8_u64_i32"

interpretation packed8_u64_i32: bulk_group packed8_u64_i32 64 8 1 8 "\<lambda>x. x" ucast
proof
  show "packed8_u64_i32 input bi out vi = Inr (bi + 1, patch out vi
      (map (ucast) (unpack 64 (\<lambda>i. input ! (bi + i)) 8 8)), vi + 8)"
    if "bi + 1 \<le> length input" "vi + 8 \<le> length out" for bi vi input out
    using that unfolding packed8_u64_i32_def and_masks
    by (simp add: stores_ok patch_fuse, intro patch_cong, simp add: unpack_def upt_rec,
        simp add: gather_in gather_over unpack_simps)
qed simp_all

lemma packed8_decode_u64_to_i32_ok [bulk_decode]:
  "bo + n * 1 \<le> length blocks \<Longrightarrow> vo + n * 8 \<le> length vals \<Longrightarrow>
   packed8_decode_u64_to_i32 blocks bo vals vo n = Inr (patch vals vo (map ucast (unpack 64 (\<lambda>i. blocks ! (bo + i)) 8 (n * 8))))"
  using packed8_u64_i32.decode_loop_ok [of bo n blocks vo vals] by (simp add: packed8_decode_u64_to_i32_def)

definition packed8_u8_i32 :: "8 word list \<Rightarrow> nat \<Rightarrow> 32 word list \<Rightarrow> nat \<Rightarrow> (nat \<times> 32 word list \<times> nat) res" where
  "packed8_u8_i32 input bi output vi =
     rbind (idx_as input bi) (\<lambda>byte.
     rbind (stores output vi
       [byte]) (\<lambda>output.
     Inr (bi + 1, output, vi + 1)))"

definition packed8_decode_u8_to_i32 :: "8 word list \<Rightarrow> nat \<Rightarrow> 32 word list \<Rightarrow> nat \<Rightarrow> nat \<Rightarrow> 32 word list res" where
  "packed8_decode_u8_to_i32 = decode_loop packed8_u8_i32"

interpretation packed8_u8_i32: bulk_group packed8_u8_i32 8 8 1 1 ucast "\<lambda>x. x"
proof
  show "packed8_u8_i32 input bi out vi = Inr (bi + 1, patch out vi
      (map (\<lambda>x. x) (unpack 8 (\<lambda>i. ucast (input ! (bi + i))) 8 1)), vi + 1)"
    if "bi + 1 \<le> length input" "vi + 1 \<le> length out" for bi vi input out
    using that unfolding packed8_u8_i32_def and_masks
    by (simp add: stores_ok patch_fuse, intro patch_cong, simp add: unpack_def upt_rec,
        simp add: gather_in gather_over unpack_simps)
qed simp_all

lemma packed8_decode_u8_to_i32_ok [bulk_decode]:
  "bo + n * 1 \<le> length blocks \<Longrightarrow> vo + n * 1 \<le> length vals \<Longrightarrow>
   packed8_decode_u8_to_i32 blocks bo vals vo n = Inr (patch vals vo (unpack 8 (\<lambda>i. ucast (blocks ! (bo + i))) 8 (n * 1)))"
  using packed8_u8_i32.decode_loop_ok [of bo n blocks vo vals] by (simp add: packed8_decode_u8_to_i32_def)

section \<open>\<open>BulkOperationPacked9\<close>\<close>

definition packed9_u64_i64 :: "64 word list \<Rightarrow> nat \<Rightarrow> 64 word list \<Rightarrow> nat \<Rightarrow> (nat \<times> 64 word list \<times> nat) res" where
  "packed9_u64_i64 input bi output vi =
     rbind (idx input bi) (\<lambda>block0.
     rbind (stores output vi
       [drop_bit 55 block0, drop_bit 46 block0 AND 511, drop_bit 37 block0 AND 511,
        drop_bit 28 block0 AND 511, drop_bit 19 block0 AND 511, drop_bit 10 block0 AND 511,
        drop_bit 1 block0 AND 511]) (\<lambda>output.
     rbind (idx input (bi + 1)) (\<lambda>block1.
     rbind (stores output (vi + 7)
       [push_bit 8 (block0 AND 1) OR drop_bit 56 block1, drop_bit 47 block1 AND 511,
        drop_bit 38 block1 AND 511, drop_bit 29 block1 AND 511, drop_bit 20 block1 AND 511,
        drop_bit 11 block1 AND 511, drop_bit 2 block1 AND 511]) (\<lambda>output.
     rbind (idx input (bi + 2)) (\<lambda>block2.
     rbind (stores output (vi + 14)
       [push_bit 7 (block1 AND 3) OR drop_bit 57 block2, drop_bit 48 block2 AND 511,
        drop_bit 39 block2 AND 511, drop_bit 30 block2 AND 511, drop_bit 21 block2 AND 511,
        drop_bit 12 block2 AND 511, drop_bit 3 block2 AND 511]) (\<lambda>output.
     rbind (idx input (bi + 3)) (\<lambda>block3.
     rbind (stores output (vi + 21)
       [push_bit 6 (block2 AND 7) OR drop_bit 58 block3, drop_bit 49 block3 AND 511,
        drop_bit 40 block3 AND 511, drop_bit 31 block3 AND 511, drop_bit 22 block3 AND 511,
        drop_bit 13 block3 AND 511, drop_bit 4 block3 AND 511]) (\<lambda>output.
     rbind (idx input (bi + 4)) (\<lambda>block4.
     rbind (stores output (vi + 28)
       [push_bit 5 (block3 AND 15) OR drop_bit 59 block4, drop_bit 50 block4 AND 511,
        drop_bit 41 block4 AND 511, drop_bit 32 block4 AND 511, drop_bit 23 block4 AND 511,
        drop_bit 14 block4 AND 511, drop_bit 5 block4 AND 511]) (\<lambda>output.
     rbind (idx input (bi + 5)) (\<lambda>block5.
     rbind (stores output (vi + 35)
       [push_bit 4 (block4 AND 31) OR drop_bit 60 block5, drop_bit 51 block5 AND 511,
        drop_bit 42 block5 AND 511, drop_bit 33 block5 AND 511, drop_bit 24 block5 AND 511,
        drop_bit 15 block5 AND 511, drop_bit 6 block5 AND 511]) (\<lambda>output.
     rbind (idx input (bi + 6)) (\<lambda>block6.
     rbind (stores output (vi + 42)
       [push_bit 3 (block5 AND 63) OR drop_bit 61 block6, drop_bit 52 block6 AND 511,
        drop_bit 43 block6 AND 511, drop_bit 34 block6 AND 511, drop_bit 25 block6 AND 511,
        drop_bit 16 block6 AND 511, drop_bit 7 block6 AND 511]) (\<lambda>output.
     rbind (idx input (bi + 7)) (\<lambda>block7.
     rbind (stores output (vi + 49)
       [push_bit 2 (block6 AND 127) OR drop_bit 62 block7, drop_bit 53 block7 AND 511,
        drop_bit 44 block7 AND 511, drop_bit 35 block7 AND 511, drop_bit 26 block7 AND 511,
        drop_bit 17 block7 AND 511, drop_bit 8 block7 AND 511]) (\<lambda>output.
     rbind (idx input (bi + 8)) (\<lambda>block8.
     rbind (stores output (vi + 56)
       [push_bit 1 (block7 AND 255) OR drop_bit 63 block8, drop_bit 54 block8 AND 511,
        drop_bit 45 block8 AND 511, drop_bit 36 block8 AND 511, drop_bit 27 block8 AND 511,
        drop_bit 18 block8 AND 511, drop_bit 9 block8 AND 511, block8 AND 511]) (\<lambda>output.
     Inr (bi + 9, output, vi + 64)))))))))))))))))))"

definition packed9_decode_u64_to_i64 :: "64 word list \<Rightarrow> nat \<Rightarrow> 64 word list \<Rightarrow> nat \<Rightarrow> nat \<Rightarrow> 64 word list res" where
  "packed9_decode_u64_to_i64 = decode_fast 0 9 64 packed9_u64_i64 packed9_u64_i64"

interpretation packed9_u64_i64: bulk_group packed9_u64_i64 64 9 9 64 "\<lambda>x. x" "\<lambda>x. x"
proof
  show "packed9_u64_i64 input bi out vi = Inr (bi + 9, patch out vi
      (map (\<lambda>x. x) (unpack 64 (\<lambda>i. input ! (bi + i)) 9 64)), vi + 64)"
    if "bi + 9 \<le> length input" "vi + 64 \<le> length out" for bi vi input out
    using that unfolding packed9_u64_i64_def and_masks
    by (simp add: stores_ok patch_fuse, intro patch_cong, simp add: unpack_def upt_rec,
        simp add: gather_in gather_over unpack_simps)
qed simp_all

lemma packed9_decode_u64_to_i64_ok [bulk_decode]:
  "bo + n * 9 \<le> length blocks \<Longrightarrow> vo + n * 64 \<le> length vals \<Longrightarrow>
   packed9_decode_u64_to_i64 blocks bo vals vo n = Inr (patch vals vo (unpack 64 (\<lambda>i. blocks ! (bo + i)) 9 (n * 64)))"
  using packed9_u64_i64.decode_fast_ok [OF packed9_u64_i64.bulk_group_axioms, of bo n blocks vo vals] by (simp add: packed9_decode_u64_to_i64_def)

definition packed9_u8_i64 :: "8 word list \<Rightarrow> nat \<Rightarrow> 64 word list \<Rightarrow> nat \<Rightarrow> (nat \<times> 64 word list \<times> nat) res" where
  "packed9_u8_i64 input bi output vi =
     rbind (idx_as input bi) (\<lambda>byte0.
     rbind (idx_as input (bi + 1)) (\<lambda>byte1.
     rbind (stores output vi
       [push_bit 1 byte0 OR drop_bit 7 byte1]) (\<lambda>output.
     rbind (idx_as input (bi + 2)) (\<lambda>byte2.
     rbind (stores output (vi + 1)
       [push_bit 2 (byte1 AND 127) OR drop_bit 6 byte2]) (\<lambda>output.
     rbind (idx_as input (bi + 3)) (\<lambda>byte3.
     rbind (stores output (vi + 2)
       [push_bit 3 (byte2 AND 63) OR drop_bit 5 byte3]) (\<lambda>output.
     rbind (idx_as input (bi + 4)) (\<lambda>byte4.
     rbind (stores output (vi + 3)
       [push_bit 4 (byte3 AND 31) OR drop_bit 4 byte4]) (\<lambda>output.
     rbind (idx_as input (bi + 5)) (\<lambda>byte5.
     rbind (stores output (vi + 4)
       [push_bit 5 (byte4 AND 15) OR drop_bit 3 byte5]) (\<lambda>output.
     rbind (idx_as input (bi + 6)) (\<lambda>byte6.
     rbind (stores output (vi + 5)
       [push_bit 6 (byte5 AND 7) OR drop_bit 2 byte6]) (\<lambda>output.
     rbind (idx_as input (bi + 7)) (\<lambda>byte7.
     rbind (stores output (vi + 6)
       [push_bit 7 (byte6 AND 3) OR drop_bit 1 byte7]) (\<lambda>output.
     rbind (idx_as input (bi + 8)) (\<lambda>byte8.
     rbind (stores output (vi + 7)
       [push_bit 8 (byte7 AND 1) OR byte8]) (\<lambda>output.
     Inr (bi + 9, output, vi + 8))))))))))))))))))"

definition packed9_decode_u8_to_i64 :: "8 word list \<Rightarrow> nat \<Rightarrow> 64 word list \<Rightarrow> nat \<Rightarrow> nat \<Rightarrow> 64 word list res" where
  "packed9_decode_u8_to_i64 = decode_fast 0 9 8 packed9_u8_i64 packed9_u8_i64"

interpretation packed9_u8_i64: bulk_group packed9_u8_i64 8 9 9 8 ucast "\<lambda>x. x"
proof
  show "packed9_u8_i64 input bi out vi = Inr (bi + 9, patch out vi
      (map (\<lambda>x. x) (unpack 8 (\<lambda>i. ucast (input ! (bi + i))) 9 8)), vi + 8)"
    if "bi + 9 \<le> length input" "vi + 8 \<le> length out" for bi vi input out
    using that unfolding packed9_u8_i64_def and_masks
    by (simp add: stores_ok patch_fuse, intro patch_cong, simp add: unpack_def upt_rec,
        simp add: gather_in gather_over unpack_simps)
qed simp_all

lemma packed9_decode_u8_to_i64_ok [bulk_decode]:
  "bo + n * 9 \<le> length blocks \<Longrightarrow> vo + n * 8 \<le> length vals \<Longrightarrow>
   packed9_decode_u8_to_i64 blocks bo vals vo n = Inr (patch vals vo (unpack 8 (\<lambda>i. ucast (blocks ! (bo + i))) 9 (n * 8)))"
  using packed9_u8_i64.decode_fast_ok [OF packed9_u8_i64.bulk_group_axioms, of bo n blocks vo vals] by (simp add: packed9_decode_u8_to_i64_def)

definition packed9_u64_i32 :: "64 word list \<Rightarrow> nat \<Rightarrow> 32 word list \<Rightarrow> nat \<Rightarrow> (nat \<times> 32 word list \<times> nat) res" where
  "packed9_u64_i32 input bi output vi =
     rbind (idx input bi) (\<lambda>block0.
     rbind (stores output vi
       [ucast (drop_bit 55 block0), ucast (drop_bit 46 block0 AND 511), ucast (drop_bit 37 block0 AND 511),
        ucast (drop_bit 28 block0 AND 511), ucast (drop_bit 19 block0 AND 511),
        ucast (drop_bit 10 block0 AND 511), ucast (drop_bit 1 block0 AND 511)]) (\<lambda>output.
     rbind (idx input (bi + 1)) (\<lambda>block1.
     rbind (stores output (vi + 7)
       [ucast (push_bit 8 (block0 AND 1) OR drop_bit 56 block1), ucast (drop_bit 47 block1 AND 511),
        ucast (drop_bit 38 block1 AND 511), ucast (drop_bit 29 block1 AND 511),
        ucast (drop_bit 20 block1 AND 511), ucast (drop_bit 11 block1 AND 511),
        ucast (drop_bit 2 block1 AND 511)]) (\<lambda>output.
     rbind (idx input (bi + 2)) (\<lambda>block2.
     rbind (stores output (vi + 14)
       [ucast (push_bit 7 (block1 AND 3) OR drop_bit 57 block2), ucast (drop_bit 48 block2 AND 511),
        ucast (drop_bit 39 block2 AND 511), ucast (drop_bit 30 block2 AND 511),
        ucast (drop_bit 21 block2 AND 511), ucast (drop_bit 12 block2 AND 511),
        ucast (drop_bit 3 block2 AND 511)]) (\<lambda>output.
     rbind (idx input (bi + 3)) (\<lambda>block3.
     rbind (stores output (vi + 21)
       [ucast (push_bit 6 (block2 AND 7) OR drop_bit 58 block3), ucast (drop_bit 49 block3 AND 511),
        ucast (drop_bit 40 block3 AND 511), ucast (drop_bit 31 block3 AND 511),
        ucast (drop_bit 22 block3 AND 511), ucast (drop_bit 13 block3 AND 511),
        ucast (drop_bit 4 block3 AND 511)]) (\<lambda>output.
     rbind (idx input (bi + 4)) (\<lambda>block4.
     rbind (stores output (vi + 28)
       [ucast (push_bit 5 (block3 AND 15) OR drop_bit 59 block4), ucast (drop_bit 50 block4 AND 511),
        ucast (drop_bit 41 block4 AND 511), ucast (drop_bit 32 block4 AND 511),
        ucast (drop_bit 23 block4 AND 511), ucast (drop_bit 14 block4 AND 511),
        ucast (drop_bit 5 block4 AND 511)]) (\<lambda>output.
     rbind (idx input (bi + 5)) (\<lambda>block5.
     rbind (stores output (vi + 35)
       [ucast (push_bit 4 (block4 AND 31) OR drop_bit 60 block5), ucast (drop_bit 51 block5 AND 511),
        ucast (drop_bit 42 block5 AND 511), ucast (drop_bit 33 block5 AND 511),
        ucast (drop_bit 24 block5 AND 511), ucast (drop_bit 15 block5 AND 511),
        ucast (drop_bit 6 block5 AND 511)]) (\<lambda>output.
     rbind (idx input (bi + 6)) (\<lambda>block6.
     rbind (stores output (vi + 42)
       [ucast (push_bit 3 (block5 AND 63) OR drop_bit 61 block6), ucast (drop_bit 52 block6 AND 511),
        ucast (drop_bit 43 block6 AND 511), ucast (drop_bit 34 block6 AND 511),
        ucast (drop_bit 25 block6 AND 511), ucast (drop_bit 16 block6 AND 511),
        ucast (drop_bit 7 block6 AND 511)]) (\<lambda>output.
     rbind (idx input (bi + 7)) (\<lambda>block7.
     rbind (stores output (vi + 49)
       [ucast (push_bit 2 (block6 AND 127) OR drop_bit 62 block7), ucast (drop_bit 53 block7 AND 511),
        ucast (drop_bit 44 block7 AND 511), ucast (drop_bit 35 block7 AND 511),
        ucast (drop_bit 26 block7 AND 511), ucast (drop_bit 17 block7 AND 511),
        ucast (drop_bit 8 block7 AND 511)]) (\<lambda>output.
     rbind (idx input (bi + 8)) (\<lambda>block8.
     rbind (stores output (vi + 56)
       [ucast (push_bit 1 (block7 AND 255) OR drop_bit 63 block8), ucast (drop_bit 54 block8 AND 511),
        ucast (drop_bit 45 block8 AND 511), ucast (drop_bit 36 block8 AND 511),
        ucast (drop_bit 27 block8 AND 511), ucast (drop_bit 18 block8 AND 511),
        ucast (drop_bit 9 block8 AND 511), ucast (block8 AND 511)]) (\<lambda>output.
     Inr (bi + 9, output, vi + 64)))))))))))))))))))"

definition packed9_decode_u64_to_i32 :: "64 word list \<Rightarrow> nat \<Rightarrow> 32 word list \<Rightarrow> nat \<Rightarrow> nat \<Rightarrow> 32 word list res" where
  "packed9_decode_u64_to_i32 = decode_fast 0 9 64 packed9_u64_i32 packed9_u64_i32"

interpretation packed9_u64_i32: bulk_group packed9_u64_i32 64 9 9 64 "\<lambda>x. x" ucast
proof
  show "packed9_u64_i32 input bi out vi = Inr (bi + 9, patch out vi
      (map (ucast) (unpack 64 (\<lambda>i. input ! (bi + i)) 9 64)), vi + 64)"
    if "bi + 9 \<le> length input" "vi + 64 \<le> length out" for bi vi input out
    using that unfolding packed9_u64_i32_def and_masks
    by (simp add: stores_ok patch_fuse, intro patch_cong, simp add: unpack_def upt_rec,
        simp add: gather_in gather_over unpack_simps)
qed simp_all

lemma packed9_decode_u64_to_i32_ok [bulk_decode]:
  "bo + n * 9 \<le> length blocks \<Longrightarrow> vo + n * 64 \<le> length vals \<Longrightarrow>
   packed9_decode_u64_to_i32 blocks bo vals vo n = Inr (patch vals vo (map ucast (unpack 64 (\<lambda>i. blocks ! (bo + i)) 9 (n * 64))))"
  using packed9_u64_i32.decode_fast_ok [OF packed9_u64_i32.bulk_group_axioms, of bo n blocks vo vals] by (simp add: packed9_decode_u64_to_i32_def)

definition packed9_u8_i32 :: "8 word list \<Rightarrow> nat \<Rightarrow> 32 word list \<Rightarrow> nat \<Rightarrow> (nat \<times> 32 word list \<times> nat) res" where
  "packed9_u8_i32 input bi output vi =
     rbind (idx_as input bi) (\<lambda>byte0.
     rbind (idx_as input (bi + 1)) (\<lambda>byte1.
     rbind (stores output vi
       [push_bit 1 byte0 OR signed_drop_bit 7 byte1]) (\<lambda>output.
     rbind (idx_as input (bi + 2)) (\<lambda>byte2.
     rbind (stores output (vi + 1)
       [push_bit 2 (byte1 AND 127) OR signed_drop_bit 6 byte2]) (\<lambda>output.
     rbind (idx_as input (bi + 3)) (\<lambda>byte3.
     rbind (stores output (vi + 2)
       [push_bit 3 (byte2 AND 63) OR signed_drop_bit 5 byte3]) (\<lambda>output.
     rbind (idx_as input (bi + 4)) (\<lambda>byte4.
     rbind (stores output (vi + 3)
       [push_bit 4 (byte3 AND 31) OR signed_drop_bit 4 byte4]) (\<lambda>output.
     rbind (idx_as input (bi + 5)) (\<lambda>byte5.
     rbind (stores output (vi + 4)
       [push_bit 5 (byte4 AND 15) OR signed_drop_bit 3 byte5]) (\<lambda>output.
     rbind (idx_as input (bi + 6)) (\<lambda>byte6.
     rbind (stores output (vi + 5)
       [push_bit 6 (byte5 AND 7) OR signed_drop_bit 2 byte6]) (\<lambda>output.
     rbind (idx_as input (bi + 7)) (\<lambda>byte7.
     rbind (stores output (vi + 6)
       [push_bit 7 (byte6 AND 3) OR signed_drop_bit 1 byte7]) (\<lambda>output.
     rbind (idx_as input (bi + 8)) (\<lambda>byte8.
     rbind (stores output (vi + 7)
       [push_bit 8 (byte7 AND 1) OR byte8]) (\<lambda>output.
     Inr (bi + 9, output, vi + 8))))))))))))))))))"

definition packed9_decode_u8_to_i32 :: "8 word list \<Rightarrow> nat \<Rightarrow> 32 word list \<Rightarrow> nat \<Rightarrow> nat \<Rightarrow> 32 word list res" where
  "packed9_decode_u8_to_i32 = decode_fast 0 9 8 packed9_u8_i32 packed9_u8_i32"

interpretation packed9_u8_i32: bulk_group packed9_u8_i32 8 9 9 8 ucast "\<lambda>x. x"
proof
  show "packed9_u8_i32 input bi out vi = Inr (bi + 9, patch out vi
      (map (\<lambda>x. x) (unpack 8 (\<lambda>i. ucast (input ! (bi + i))) 9 8)), vi + 8)"
    if "bi + 9 \<le> length input" "vi + 8 \<le> length out" for bi vi input out
    using that unfolding packed9_u8_i32_def and_masks
    by (simp add: stores_ok patch_fuse, intro patch_cong, simp add: unpack_def upt_rec,
        simp add: gather_in gather_over unpack_simps)
qed simp_all

lemma packed9_decode_u8_to_i32_ok [bulk_decode]:
  "bo + n * 9 \<le> length blocks \<Longrightarrow> vo + n * 8 \<le> length vals \<Longrightarrow>
   packed9_decode_u8_to_i32 blocks bo vals vo n = Inr (patch vals vo (unpack 8 (\<lambda>i. ucast (blocks ! (bo + i))) 9 (n * 8)))"
  using packed9_u8_i32.decode_fast_ok [OF packed9_u8_i32.bulk_group_axioms, of bo n blocks vo vals] by (simp add: packed9_decode_u8_to_i32_def)

end
