(* ===== verification/Packed_Dec_B.thy ===== *)
theory Packed_Dec_B
  imports Packed_Bits
begin

text \<open>
  The decoders of \<^verbatim>\<open>BulkOperationPacked10\<close> to \<^verbatim>\<open>BulkOperationPacked15\<close>
  (\<open>util/packed/bulk_operation_packed<n>.rs\<close>). For each of the four decoders of a width: the
  group of reads and writes of one iteration, statement by statement, the decoder itself as
  the loop over its groups, and the proof that a group extracts the values of that width.
\<close>

unbundle bit_operations_syntax

section \<open>\<open>BulkOperationPacked10\<close>\<close>

definition packed10_u64_i64 :: "64 word list \<Rightarrow> nat \<Rightarrow> 64 word list \<Rightarrow> nat \<Rightarrow> (nat \<times> 64 word list \<times> nat) res" where
  "packed10_u64_i64 input bi output vi =
     rbind (idx input bi) (\<lambda>block0.
     rbind (stores output vi
       [drop_bit 54 block0, drop_bit 44 block0 AND 1023, drop_bit 34 block0 AND 1023,
        drop_bit 24 block0 AND 1023, drop_bit 14 block0 AND 1023, drop_bit 4 block0 AND 1023]) (\<lambda>output.
     rbind (idx input (bi + 1)) (\<lambda>block1.
     rbind (stores output (vi + 6)
       [push_bit 6 (block0 AND 15) OR drop_bit 58 block1, drop_bit 48 block1 AND 1023,
        drop_bit 38 block1 AND 1023, drop_bit 28 block1 AND 1023, drop_bit 18 block1 AND 1023,
        drop_bit 8 block1 AND 1023]) (\<lambda>output.
     rbind (idx input (bi + 2)) (\<lambda>block2.
     rbind (stores output (vi + 12)
       [push_bit 2 (block1 AND 255) OR drop_bit 62 block2, drop_bit 52 block2 AND 1023,
        drop_bit 42 block2 AND 1023, drop_bit 32 block2 AND 1023, drop_bit 22 block2 AND 1023,
        drop_bit 12 block2 AND 1023, drop_bit 2 block2 AND 1023]) (\<lambda>output.
     rbind (idx input (bi + 3)) (\<lambda>block3.
     rbind (stores output (vi + 19)
       [push_bit 8 (block2 AND 3) OR drop_bit 56 block3, drop_bit 46 block3 AND 1023,
        drop_bit 36 block3 AND 1023, drop_bit 26 block3 AND 1023, drop_bit 16 block3 AND 1023,
        drop_bit 6 block3 AND 1023]) (\<lambda>output.
     rbind (idx input (bi + 4)) (\<lambda>block4.
     rbind (stores output (vi + 25)
       [push_bit 4 (block3 AND 63) OR drop_bit 60 block4, drop_bit 50 block4 AND 1023,
        drop_bit 40 block4 AND 1023, drop_bit 30 block4 AND 1023, drop_bit 20 block4 AND 1023,
        drop_bit 10 block4 AND 1023, block4 AND 1023]) (\<lambda>output.
     Inr (bi + 5, output, vi + 32)))))))))))"

definition packed10_decode_u64_to_i64 :: "64 word list \<Rightarrow> nat \<Rightarrow> 64 word list \<Rightarrow> nat \<Rightarrow> nat \<Rightarrow> 64 word list res" where
  "packed10_decode_u64_to_i64 = decode_fast 0 5 32 packed10_u64_i64 packed10_u64_i64"

interpretation packed10_u64_i64: bulk_group packed10_u64_i64 64 10 5 32 "\<lambda>x. x" "\<lambda>x. x"
proof
  show "packed10_u64_i64 input bi out vi = Inr (bi + 5, patch out vi
      (map (\<lambda>x. x) (unpack 64 (\<lambda>i. input ! (bi + i)) 10 32)), vi + 32)"
    if "bi + 5 \<le> length input" "vi + 32 \<le> length out" for bi vi input out
    using that unfolding packed10_u64_i64_def and_masks
    by (simp add: stores_ok patch_fuse, intro patch_cong, simp add: unpack_def upt_rec,
        simp add: gather_in gather_over unpack_simps)
qed simp_all

lemma packed10_decode_u64_to_i64_ok [bulk_decode]:
  "bo + n * 5 \<le> length blocks \<Longrightarrow> vo + n * 32 \<le> length vals \<Longrightarrow>
   packed10_decode_u64_to_i64 blocks bo vals vo n = Inr (patch vals vo (unpack 64 (\<lambda>i. blocks ! (bo + i)) 10 (n * 32)))"
  using packed10_u64_i64.decode_fast_ok [OF packed10_u64_i64.bulk_group_axioms, of bo n blocks vo vals] by (simp add: packed10_decode_u64_to_i64_def)

definition packed10_u8_i64 :: "8 word list \<Rightarrow> nat \<Rightarrow> 64 word list \<Rightarrow> nat \<Rightarrow> (nat \<times> 64 word list \<times> nat) res" where
  "packed10_u8_i64 input bi output vi =
     rbind (idx_as input bi) (\<lambda>byte0.
     rbind (idx_as input (bi + 1)) (\<lambda>byte1.
     rbind (stores output vi
       [push_bit 2 byte0 OR drop_bit 6 byte1]) (\<lambda>output.
     rbind (idx_as input (bi + 2)) (\<lambda>byte2.
     rbind (stores output (vi + 1)
       [push_bit 4 (byte1 AND 63) OR drop_bit 4 byte2]) (\<lambda>output.
     rbind (idx_as input (bi + 3)) (\<lambda>byte3.
     rbind (stores output (vi + 2)
       [push_bit 6 (byte2 AND 15) OR drop_bit 2 byte3]) (\<lambda>output.
     rbind (idx_as input (bi + 4)) (\<lambda>byte4.
     rbind (stores output (vi + 3)
       [push_bit 8 (byte3 AND 3) OR byte4]) (\<lambda>output.
     Inr (bi + 5, output, vi + 4))))))))))"

definition packed10_decode_u8_to_i64 :: "8 word list \<Rightarrow> nat \<Rightarrow> 64 word list \<Rightarrow> nat \<Rightarrow> nat \<Rightarrow> 64 word list res" where
  "packed10_decode_u8_to_i64 = decode_loop packed10_u8_i64"

interpretation packed10_u8_i64: bulk_group packed10_u8_i64 8 10 5 4 ucast "\<lambda>x. x"
proof
  show "packed10_u8_i64 input bi out vi = Inr (bi + 5, patch out vi
      (map (\<lambda>x. x) (unpack 8 (\<lambda>i. ucast (input ! (bi + i))) 10 4)), vi + 4)"
    if "bi + 5 \<le> length input" "vi + 4 \<le> length out" for bi vi input out
    using that unfolding packed10_u8_i64_def and_masks
    by (simp add: stores_ok patch_fuse, intro patch_cong, simp add: unpack_def upt_rec,
        simp add: gather_in gather_over unpack_simps)
qed simp_all

lemma packed10_decode_u8_to_i64_ok [bulk_decode]:
  "bo + n * 5 \<le> length blocks \<Longrightarrow> vo + n * 4 \<le> length vals \<Longrightarrow>
   packed10_decode_u8_to_i64 blocks bo vals vo n = Inr (patch vals vo (unpack 8 (\<lambda>i. ucast (blocks ! (bo + i))) 10 (n * 4)))"
  using packed10_u8_i64.decode_loop_ok [of bo n blocks vo vals] by (simp add: packed10_decode_u8_to_i64_def)

definition packed10_u64_i32 :: "64 word list \<Rightarrow> nat \<Rightarrow> 32 word list \<Rightarrow> nat \<Rightarrow> (nat \<times> 32 word list \<times> nat) res" where
  "packed10_u64_i32 input bi output vi =
     rbind (idx input bi) (\<lambda>block0.
     rbind (stores output vi
       [ucast (drop_bit 54 block0), ucast (drop_bit 44 block0 AND 1023),
        ucast (drop_bit 34 block0 AND 1023), ucast (drop_bit 24 block0 AND 1023),
        ucast (drop_bit 14 block0 AND 1023), ucast (drop_bit 4 block0 AND 1023)]) (\<lambda>output.
     rbind (idx input (bi + 1)) (\<lambda>block1.
     rbind (stores output (vi + 6)
       [ucast (push_bit 6 (block0 AND 15) OR drop_bit 58 block1), ucast (drop_bit 48 block1 AND 1023),
        ucast (drop_bit 38 block1 AND 1023), ucast (drop_bit 28 block1 AND 1023),
        ucast (drop_bit 18 block1 AND 1023), ucast (drop_bit 8 block1 AND 1023)]) (\<lambda>output.
     rbind (idx input (bi + 2)) (\<lambda>block2.
     rbind (stores output (vi + 12)
       [ucast (push_bit 2 (block1 AND 255) OR drop_bit 62 block2), ucast (drop_bit 52 block2 AND 1023),
        ucast (drop_bit 42 block2 AND 1023), ucast (drop_bit 32 block2 AND 1023),
        ucast (drop_bit 22 block2 AND 1023), ucast (drop_bit 12 block2 AND 1023),
        ucast (drop_bit 2 block2 AND 1023)]) (\<lambda>output.
     rbind (idx input (bi + 3)) (\<lambda>block3.
     rbind (stores output (vi + 19)
       [ucast (push_bit 8 (block2 AND 3) OR drop_bit 56 block3), ucast (drop_bit 46 block3 AND 1023),
        ucast (drop_bit 36 block3 AND 1023), ucast (drop_bit 26 block3 AND 1023),
        ucast (drop_bit 16 block3 AND 1023), ucast (drop_bit 6 block3 AND 1023)]) (\<lambda>output.
     rbind (idx input (bi + 4)) (\<lambda>block4.
     rbind (stores output (vi + 25)
       [ucast (push_bit 4 (block3 AND 63) OR drop_bit 60 block4), ucast (drop_bit 50 block4 AND 1023),
        ucast (drop_bit 40 block4 AND 1023), ucast (drop_bit 30 block4 AND 1023),
        ucast (drop_bit 20 block4 AND 1023), ucast (drop_bit 10 block4 AND 1023), ucast (block4 AND 1023)]) (\<lambda>output.
     Inr (bi + 5, output, vi + 32)))))))))))"

definition packed10_decode_u64_to_i32 :: "64 word list \<Rightarrow> nat \<Rightarrow> 32 word list \<Rightarrow> nat \<Rightarrow> nat \<Rightarrow> 32 word list res" where
  "packed10_decode_u64_to_i32 = decode_fast 0 5 32 packed10_u64_i32 packed10_u64_i32"

interpretation packed10_u64_i32: bulk_group packed10_u64_i32 64 10 5 32 "\<lambda>x. x" ucast
proof
  show "packed10_u64_i32 input bi out vi = Inr (bi + 5, patch out vi
      (map (ucast) (unpack 64 (\<lambda>i. input ! (bi + i)) 10 32)), vi + 32)"
    if "bi + 5 \<le> length input" "vi + 32 \<le> length out" for bi vi input out
    using that unfolding packed10_u64_i32_def and_masks
    by (simp add: stores_ok patch_fuse, intro patch_cong, simp add: unpack_def upt_rec,
        simp add: gather_in gather_over unpack_simps)
qed simp_all

lemma packed10_decode_u64_to_i32_ok [bulk_decode]:
  "bo + n * 5 \<le> length blocks \<Longrightarrow> vo + n * 32 \<le> length vals \<Longrightarrow>
   packed10_decode_u64_to_i32 blocks bo vals vo n = Inr (patch vals vo (map ucast (unpack 64 (\<lambda>i. blocks ! (bo + i)) 10 (n * 32))))"
  using packed10_u64_i32.decode_fast_ok [OF packed10_u64_i32.bulk_group_axioms, of bo n blocks vo vals] by (simp add: packed10_decode_u64_to_i32_def)

definition packed10_u8_i32 :: "8 word list \<Rightarrow> nat \<Rightarrow> 32 word list \<Rightarrow> nat \<Rightarrow> (nat \<times> 32 word list \<times> nat) res" where
  "packed10_u8_i32 input bi output vi =
     rbind (idx_as input bi) (\<lambda>byte0.
     rbind (idx_as input (bi + 1)) (\<lambda>byte1.
     rbind (stores output vi
       [push_bit 2 byte0 OR signed_drop_bit 6 byte1]) (\<lambda>output.
     rbind (idx_as input (bi + 2)) (\<lambda>byte2.
     rbind (stores output (vi + 1)
       [push_bit 4 (byte1 AND 63) OR signed_drop_bit 4 byte2]) (\<lambda>output.
     rbind (idx_as input (bi + 3)) (\<lambda>byte3.
     rbind (stores output (vi + 2)
       [push_bit 6 (byte2 AND 15) OR signed_drop_bit 2 byte3]) (\<lambda>output.
     rbind (idx_as input (bi + 4)) (\<lambda>byte4.
     rbind (stores output (vi + 3)
       [push_bit 8 (byte3 AND 3) OR byte4]) (\<lambda>output.
     Inr (bi + 5, output, vi + 4))))))))))"

definition packed10_decode_u8_to_i32 :: "8 word list \<Rightarrow> nat \<Rightarrow> 32 word list \<Rightarrow> nat \<Rightarrow> nat \<Rightarrow> 32 word list res" where
  "packed10_decode_u8_to_i32 = decode_loop packed10_u8_i32"

interpretation packed10_u8_i32: bulk_group packed10_u8_i32 8 10 5 4 ucast "\<lambda>x. x"
proof
  show "packed10_u8_i32 input bi out vi = Inr (bi + 5, patch out vi
      (map (\<lambda>x. x) (unpack 8 (\<lambda>i. ucast (input ! (bi + i))) 10 4)), vi + 4)"
    if "bi + 5 \<le> length input" "vi + 4 \<le> length out" for bi vi input out
    using that unfolding packed10_u8_i32_def and_masks
    by (simp add: stores_ok patch_fuse, intro patch_cong, simp add: unpack_def upt_rec,
        simp add: gather_in gather_over unpack_simps)
qed simp_all

lemma packed10_decode_u8_to_i32_ok [bulk_decode]:
  "bo + n * 5 \<le> length blocks \<Longrightarrow> vo + n * 4 \<le> length vals \<Longrightarrow>
   packed10_decode_u8_to_i32 blocks bo vals vo n = Inr (patch vals vo (unpack 8 (\<lambda>i. ucast (blocks ! (bo + i))) 10 (n * 4)))"
  using packed10_u8_i32.decode_loop_ok [of bo n blocks vo vals] by (simp add: packed10_decode_u8_to_i32_def)

section \<open>\<open>BulkOperationPacked11\<close>\<close>

definition packed11_u64_i64 :: "64 word list \<Rightarrow> nat \<Rightarrow> 64 word list \<Rightarrow> nat \<Rightarrow> (nat \<times> 64 word list \<times> nat) res" where
  "packed11_u64_i64 input bi output vi =
     rbind (idx input bi) (\<lambda>block0.
     rbind (stores output vi
       [drop_bit 53 block0, drop_bit 42 block0 AND 2047, drop_bit 31 block0 AND 2047,
        drop_bit 20 block0 AND 2047, drop_bit 9 block0 AND 2047]) (\<lambda>output.
     rbind (idx input (bi + 1)) (\<lambda>block1.
     rbind (stores output (vi + 5)
       [push_bit 2 (block0 AND 511) OR drop_bit 62 block1, drop_bit 51 block1 AND 2047,
        drop_bit 40 block1 AND 2047, drop_bit 29 block1 AND 2047, drop_bit 18 block1 AND 2047,
        drop_bit 7 block1 AND 2047]) (\<lambda>output.
     rbind (idx input (bi + 2)) (\<lambda>block2.
     rbind (stores output (vi + 11)
       [push_bit 4 (block1 AND 127) OR drop_bit 60 block2, drop_bit 49 block2 AND 2047,
        drop_bit 38 block2 AND 2047, drop_bit 27 block2 AND 2047, drop_bit 16 block2 AND 2047,
        drop_bit 5 block2 AND 2047]) (\<lambda>output.
     rbind (idx input (bi + 3)) (\<lambda>block3.
     rbind (stores output (vi + 17)
       [push_bit 6 (block2 AND 31) OR drop_bit 58 block3, drop_bit 47 block3 AND 2047,
        drop_bit 36 block3 AND 2047, drop_bit 25 block3 AND 2047, drop_bit 14 block3 AND 2047,
        drop_bit 3 block3 AND 2047]) (\<lambda>output.
     rbind (idx input (bi + 4)) (\<lambda>block4.
     rbind (stores output (vi + 23)
       [push_bit 8 (block3 AND 7) OR drop_bit 56 block4, drop_bit 45 block4 AND 2047,
        drop_bit 34 block4 AND 2047, drop_bit 23 block4 AND 2047, drop_bit 12 block4 AND 2047,
        drop_bit 1 block4 AND 2047]) (\<lambda>output.
     rbind (idx input (bi + 5)) (\<lambda>block5.
     rbind (stores output (vi + 29)
       [push_bit 10 (block4 AND 1) OR drop_bit 54 block5, drop_bit 43 block5 AND 2047,
        drop_bit 32 block5 AND 2047, drop_bit 21 block5 AND 2047, drop_bit 10 block5 AND 2047]) (\<lambda>output.
     rbind (idx input (bi + 6)) (\<lambda>block6.
     rbind (stores output (vi + 34)
       [push_bit 1 (block5 AND 1023) OR drop_bit 63 block6, drop_bit 52 block6 AND 2047,
        drop_bit 41 block6 AND 2047, drop_bit 30 block6 AND 2047, drop_bit 19 block6 AND 2047,
        drop_bit 8 block6 AND 2047]) (\<lambda>output.
     rbind (idx input (bi + 7)) (\<lambda>block7.
     rbind (stores output (vi + 40)
       [push_bit 3 (block6 AND 255) OR drop_bit 61 block7, drop_bit 50 block7 AND 2047,
        drop_bit 39 block7 AND 2047, drop_bit 28 block7 AND 2047, drop_bit 17 block7 AND 2047,
        drop_bit 6 block7 AND 2047]) (\<lambda>output.
     rbind (idx input (bi + 8)) (\<lambda>block8.
     rbind (stores output (vi + 46)
       [push_bit 5 (block7 AND 63) OR drop_bit 59 block8, drop_bit 48 block8 AND 2047,
        drop_bit 37 block8 AND 2047, drop_bit 26 block8 AND 2047, drop_bit 15 block8 AND 2047,
        drop_bit 4 block8 AND 2047]) (\<lambda>output.
     rbind (idx input (bi + 9)) (\<lambda>block9.
     rbind (stores output (vi + 52)
       [push_bit 7 (block8 AND 15) OR drop_bit 57 block9, drop_bit 46 block9 AND 2047,
        drop_bit 35 block9 AND 2047, drop_bit 24 block9 AND 2047, drop_bit 13 block9 AND 2047,
        drop_bit 2 block9 AND 2047]) (\<lambda>output.
     rbind (idx input (bi + 10)) (\<lambda>block10.
     rbind (stores output (vi + 58)
       [push_bit 9 (block9 AND 3) OR drop_bit 55 block10, drop_bit 44 block10 AND 2047,
        drop_bit 33 block10 AND 2047, drop_bit 22 block10 AND 2047, drop_bit 11 block10 AND 2047,
        block10 AND 2047]) (\<lambda>output.
     Inr (bi + 11, output, vi + 64)))))))))))))))))))))))"

definition packed11_decode_u64_to_i64 :: "64 word list \<Rightarrow> nat \<Rightarrow> 64 word list \<Rightarrow> nat \<Rightarrow> nat \<Rightarrow> 64 word list res" where
  "packed11_decode_u64_to_i64 = decode_fast 0 11 64 packed11_u64_i64 packed11_u64_i64"

interpretation packed11_u64_i64: bulk_group packed11_u64_i64 64 11 11 64 "\<lambda>x. x" "\<lambda>x. x"
proof
  show "packed11_u64_i64 input bi out vi = Inr (bi + 11, patch out vi
      (map (\<lambda>x. x) (unpack 64 (\<lambda>i. input ! (bi + i)) 11 64)), vi + 64)"
    if "bi + 11 \<le> length input" "vi + 64 \<le> length out" for bi vi input out
    using that unfolding packed11_u64_i64_def and_masks
    by (simp add: stores_ok patch_fuse, intro patch_cong, simp add: unpack_def upt_rec,
        simp add: gather_in gather_over unpack_simps)
qed simp_all

lemma packed11_decode_u64_to_i64_ok [bulk_decode]:
  "bo + n * 11 \<le> length blocks \<Longrightarrow> vo + n * 64 \<le> length vals \<Longrightarrow>
   packed11_decode_u64_to_i64 blocks bo vals vo n = Inr (patch vals vo (unpack 64 (\<lambda>i. blocks ! (bo + i)) 11 (n * 64)))"
  using packed11_u64_i64.decode_fast_ok [OF packed11_u64_i64.bulk_group_axioms, of bo n blocks vo vals] by (simp add: packed11_decode_u64_to_i64_def)

definition packed11_u8_i64 :: "8 word list \<Rightarrow> nat \<Rightarrow> 64 word list \<Rightarrow> nat \<Rightarrow> (nat \<times> 64 word list \<times> nat) res" where
  "packed11_u8_i64 input bi output vi =
     rbind (idx_as input bi) (\<lambda>byte0.
     rbind (idx_as input (bi + 1)) (\<lambda>byte1.
     rbind (stores output vi
       [push_bit 3 byte0 OR drop_bit 5 byte1]) (\<lambda>output.
     rbind (idx_as input (bi + 2)) (\<lambda>byte2.
     rbind (stores output (vi + 1)
       [push_bit 6 (byte1 AND 31) OR drop_bit 2 byte2]) (\<lambda>output.
     rbind (idx_as input (bi + 3)) (\<lambda>byte3.
     rbind (idx_as input (bi + 4)) (\<lambda>byte4.
     rbind (stores output (vi + 2)
       [(push_bit 9 (byte2 AND 3) OR push_bit 1 byte3) OR drop_bit 7 byte4]) (\<lambda>output.
     rbind (idx_as input (bi + 5)) (\<lambda>byte5.
     rbind (stores output (vi + 3)
       [push_bit 4 (byte4 AND 127) OR drop_bit 4 byte5]) (\<lambda>output.
     rbind (idx_as input (bi + 6)) (\<lambda>byte6.
     rbind (stores output (vi + 4)
       [push_bit 7 (byte5 AND 15) OR drop_bit 1 byte6]) (\<lambda>output.
     rbind (idx_as input (bi + 7)) (\<lambda>byte7.
     rbind (idx_as input (bi + 8)) (\<lambda>byte8.
     rbind (stores output (vi + 5)
       [(push_bit 10 (byte6 AND 1) OR push_bit 2 byte7) OR drop_bit 6 byte8]) (\<lambda>output.
     rbind (idx_as input (bi + 9)) (\<lambda>byte9.
     rbind (stores output (vi + 6)
       [push_bit 5 (byte8 AND 63) OR drop_bit 3 byte9]) (\<lambda>output.
     rbind (idx_as input (bi + 10)) (\<lambda>byte10.
     rbind (stores output (vi + 7)
       [push_bit 8 (byte9 AND 7) OR byte10]) (\<lambda>output.
     Inr (bi + 11, output, vi + 8))))))))))))))))))))"

definition packed11_decode_u8_to_i64 :: "8 word list \<Rightarrow> nat \<Rightarrow> 64 word list \<Rightarrow> nat \<Rightarrow> nat \<Rightarrow> 64 word list res" where
  "packed11_decode_u8_to_i64 = decode_fast 0 11 8 packed11_u8_i64 packed11_u8_i64"

interpretation packed11_u8_i64: bulk_group packed11_u8_i64 8 11 11 8 ucast "\<lambda>x. x"
proof
  show "packed11_u8_i64 input bi out vi = Inr (bi + 11, patch out vi
      (map (\<lambda>x. x) (unpack 8 (\<lambda>i. ucast (input ! (bi + i))) 11 8)), vi + 8)"
    if "bi + 11 \<le> length input" "vi + 8 \<le> length out" for bi vi input out
    using that unfolding packed11_u8_i64_def and_masks
    by (simp add: stores_ok patch_fuse, intro patch_cong, simp add: unpack_def upt_rec,
        simp add: gather_in gather_over unpack_simps)
qed simp_all

lemma packed11_decode_u8_to_i64_ok [bulk_decode]:
  "bo + n * 11 \<le> length blocks \<Longrightarrow> vo + n * 8 \<le> length vals \<Longrightarrow>
   packed11_decode_u8_to_i64 blocks bo vals vo n = Inr (patch vals vo (unpack 8 (\<lambda>i. ucast (blocks ! (bo + i))) 11 (n * 8)))"
  using packed11_u8_i64.decode_fast_ok [OF packed11_u8_i64.bulk_group_axioms, of bo n blocks vo vals] by (simp add: packed11_decode_u8_to_i64_def)

definition packed11_u64_i32 :: "64 word list \<Rightarrow> nat \<Rightarrow> 32 word list \<Rightarrow> nat \<Rightarrow> (nat \<times> 32 word list \<times> nat) res" where
  "packed11_u64_i32 input bi output vi =
     rbind (idx input bi) (\<lambda>block0.
     rbind (stores output vi
       [ucast (drop_bit 53 block0), ucast (drop_bit 42 block0 AND 2047),
        ucast (drop_bit 31 block0 AND 2047), ucast (drop_bit 20 block0 AND 2047),
        ucast (drop_bit 9 block0 AND 2047)]) (\<lambda>output.
     rbind (idx input (bi + 1)) (\<lambda>block1.
     rbind (stores output (vi + 5)
       [ucast (push_bit 2 (block0 AND 511) OR drop_bit 62 block1), ucast (drop_bit 51 block1 AND 2047),
        ucast (drop_bit 40 block1 AND 2047), ucast (drop_bit 29 block1 AND 2047),
        ucast (drop_bit 18 block1 AND 2047), ucast (drop_bit 7 block1 AND 2047)]) (\<lambda>output.
     rbind (idx input (bi + 2)) (\<lambda>block2.
     rbind (stores output (vi + 11)
       [ucast (push_bit 4 (block1 AND 127) OR drop_bit 60 block2), ucast (drop_bit 49 block2 AND 2047),
        ucast (drop_bit 38 block2 AND 2047), ucast (drop_bit 27 block2 AND 2047),
        ucast (drop_bit 16 block2 AND 2047), ucast (drop_bit 5 block2 AND 2047)]) (\<lambda>output.
     rbind (idx input (bi + 3)) (\<lambda>block3.
     rbind (stores output (vi + 17)
       [ucast (push_bit 6 (block2 AND 31) OR drop_bit 58 block3), ucast (drop_bit 47 block3 AND 2047),
        ucast (drop_bit 36 block3 AND 2047), ucast (drop_bit 25 block3 AND 2047),
        ucast (drop_bit 14 block3 AND 2047), ucast (drop_bit 3 block3 AND 2047)]) (\<lambda>output.
     rbind (idx input (bi + 4)) (\<lambda>block4.
     rbind (stores output (vi + 23)
       [ucast (push_bit 8 (block3 AND 7) OR drop_bit 56 block4), ucast (drop_bit 45 block4 AND 2047),
        ucast (drop_bit 34 block4 AND 2047), ucast (drop_bit 23 block4 AND 2047),
        ucast (drop_bit 12 block4 AND 2047), ucast (drop_bit 1 block4 AND 2047)]) (\<lambda>output.
     rbind (idx input (bi + 5)) (\<lambda>block5.
     rbind (stores output (vi + 29)
       [ucast (push_bit 10 (block4 AND 1) OR drop_bit 54 block5), ucast (drop_bit 43 block5 AND 2047),
        ucast (drop_bit 32 block5 AND 2047), ucast (drop_bit 21 block5 AND 2047),
        ucast (drop_bit 10 block5 AND 2047)]) (\<lambda>output.
     rbind (idx input (bi + 6)) (\<lambda>block6.
     rbind (stores output (vi + 34)
       [ucast (push_bit 1 (block5 AND 1023) OR drop_bit 63 block6), ucast (drop_bit 52 block6 AND 2047),
        ucast (drop_bit 41 block6 AND 2047), ucast (drop_bit 30 block6 AND 2047),
        ucast (drop_bit 19 block6 AND 2047), ucast (drop_bit 8 block6 AND 2047)]) (\<lambda>output.
     rbind (idx input (bi + 7)) (\<lambda>block7.
     rbind (stores output (vi + 40)
       [ucast (push_bit 3 (block6 AND 255) OR drop_bit 61 block7), ucast (drop_bit 50 block7 AND 2047),
        ucast (drop_bit 39 block7 AND 2047), ucast (drop_bit 28 block7 AND 2047),
        ucast (drop_bit 17 block7 AND 2047), ucast (drop_bit 6 block7 AND 2047)]) (\<lambda>output.
     rbind (idx input (bi + 8)) (\<lambda>block8.
     rbind (stores output (vi + 46)
       [ucast (push_bit 5 (block7 AND 63) OR drop_bit 59 block8), ucast (drop_bit 48 block8 AND 2047),
        ucast (drop_bit 37 block8 AND 2047), ucast (drop_bit 26 block8 AND 2047),
        ucast (drop_bit 15 block8 AND 2047), ucast (drop_bit 4 block8 AND 2047)]) (\<lambda>output.
     rbind (idx input (bi + 9)) (\<lambda>block9.
     rbind (stores output (vi + 52)
       [ucast (push_bit 7 (block8 AND 15) OR drop_bit 57 block9), ucast (drop_bit 46 block9 AND 2047),
        ucast (drop_bit 35 block9 AND 2047), ucast (drop_bit 24 block9 AND 2047),
        ucast (drop_bit 13 block9 AND 2047), ucast (drop_bit 2 block9 AND 2047)]) (\<lambda>output.
     rbind (idx input (bi + 10)) (\<lambda>block10.
     rbind (stores output (vi + 58)
       [ucast (push_bit 9 (block9 AND 3) OR drop_bit 55 block10), ucast (drop_bit 44 block10 AND 2047),
        ucast (drop_bit 33 block10 AND 2047), ucast (drop_bit 22 block10 AND 2047),
        ucast (drop_bit 11 block10 AND 2047), ucast (block10 AND 2047)]) (\<lambda>output.
     Inr (bi + 11, output, vi + 64)))))))))))))))))))))))"

definition packed11_decode_u64_to_i32 :: "64 word list \<Rightarrow> nat \<Rightarrow> 32 word list \<Rightarrow> nat \<Rightarrow> nat \<Rightarrow> 32 word list res" where
  "packed11_decode_u64_to_i32 = decode_fast 0 11 64 packed11_u64_i32 packed11_u64_i32"

interpretation packed11_u64_i32: bulk_group packed11_u64_i32 64 11 11 64 "\<lambda>x. x" ucast
proof
  show "packed11_u64_i32 input bi out vi = Inr (bi + 11, patch out vi
      (map (ucast) (unpack 64 (\<lambda>i. input ! (bi + i)) 11 64)), vi + 64)"
    if "bi + 11 \<le> length input" "vi + 64 \<le> length out" for bi vi input out
    using that unfolding packed11_u64_i32_def and_masks
    by (simp add: stores_ok patch_fuse, intro patch_cong, simp add: unpack_def upt_rec,
        simp add: gather_in gather_over unpack_simps)
qed simp_all

lemma packed11_decode_u64_to_i32_ok [bulk_decode]:
  "bo + n * 11 \<le> length blocks \<Longrightarrow> vo + n * 64 \<le> length vals \<Longrightarrow>
   packed11_decode_u64_to_i32 blocks bo vals vo n = Inr (patch vals vo (map ucast (unpack 64 (\<lambda>i. blocks ! (bo + i)) 11 (n * 64))))"
  using packed11_u64_i32.decode_fast_ok [OF packed11_u64_i32.bulk_group_axioms, of bo n blocks vo vals] by (simp add: packed11_decode_u64_to_i32_def)

definition packed11_u8_i32 :: "8 word list \<Rightarrow> nat \<Rightarrow> 32 word list \<Rightarrow> nat \<Rightarrow> (nat \<times> 32 word list \<times> nat) res" where
  "packed11_u8_i32 input bi output vi =
     rbind (idx_as input bi) (\<lambda>byte0.
     rbind (idx_as input (bi + 1)) (\<lambda>byte1.
     rbind (stores output vi
       [push_bit 3 byte0 OR signed_drop_bit 5 byte1]) (\<lambda>output.
     rbind (idx_as input (bi + 2)) (\<lambda>byte2.
     rbind (stores output (vi + 1)
       [push_bit 6 (byte1 AND 31) OR signed_drop_bit 2 byte2]) (\<lambda>output.
     rbind (idx_as input (bi + 3)) (\<lambda>byte3.
     rbind (idx_as input (bi + 4)) (\<lambda>byte4.
     rbind (stores output (vi + 2)
       [(push_bit 9 (byte2 AND 3) OR push_bit 1 byte3) OR signed_drop_bit 7 byte4]) (\<lambda>output.
     rbind (idx_as input (bi + 5)) (\<lambda>byte5.
     rbind (stores output (vi + 3)
       [push_bit 4 (byte4 AND 127) OR signed_drop_bit 4 byte5]) (\<lambda>output.
     rbind (idx_as input (bi + 6)) (\<lambda>byte6.
     rbind (stores output (vi + 4)
       [push_bit 7 (byte5 AND 15) OR signed_drop_bit 1 byte6]) (\<lambda>output.
     rbind (idx_as input (bi + 7)) (\<lambda>byte7.
     rbind (idx_as input (bi + 8)) (\<lambda>byte8.
     rbind (stores output (vi + 5)
       [(push_bit 10 (byte6 AND 1) OR push_bit 2 byte7) OR signed_drop_bit 6 byte8]) (\<lambda>output.
     rbind (idx_as input (bi + 9)) (\<lambda>byte9.
     rbind (stores output (vi + 6)
       [push_bit 5 (byte8 AND 63) OR signed_drop_bit 3 byte9]) (\<lambda>output.
     rbind (idx_as input (bi + 10)) (\<lambda>byte10.
     rbind (stores output (vi + 7)
       [push_bit 8 (byte9 AND 7) OR byte10]) (\<lambda>output.
     Inr (bi + 11, output, vi + 8))))))))))))))))))))"

definition packed11_decode_u8_to_i32 :: "8 word list \<Rightarrow> nat \<Rightarrow> 32 word list \<Rightarrow> nat \<Rightarrow> nat \<Rightarrow> 32 word list res" where
  "packed11_decode_u8_to_i32 = decode_fast 0 11 8 packed11_u8_i32 packed11_u8_i32"

interpretation packed11_u8_i32: bulk_group packed11_u8_i32 8 11 11 8 ucast "\<lambda>x. x"
proof
  show "packed11_u8_i32 input bi out vi = Inr (bi + 11, patch out vi
      (map (\<lambda>x. x) (unpack 8 (\<lambda>i. ucast (input ! (bi + i))) 11 8)), vi + 8)"
    if "bi + 11 \<le> length input" "vi + 8 \<le> length out" for bi vi input out
    using that unfolding packed11_u8_i32_def and_masks
    by (simp add: stores_ok patch_fuse, intro patch_cong, simp add: unpack_def upt_rec,
        simp add: gather_in gather_over unpack_simps)
qed simp_all

lemma packed11_decode_u8_to_i32_ok [bulk_decode]:
  "bo + n * 11 \<le> length blocks \<Longrightarrow> vo + n * 8 \<le> length vals \<Longrightarrow>
   packed11_decode_u8_to_i32 blocks bo vals vo n = Inr (patch vals vo (unpack 8 (\<lambda>i. ucast (blocks ! (bo + i))) 11 (n * 8)))"
  using packed11_u8_i32.decode_fast_ok [OF packed11_u8_i32.bulk_group_axioms, of bo n blocks vo vals] by (simp add: packed11_decode_u8_to_i32_def)

section \<open>\<open>BulkOperationPacked12\<close>\<close>

definition packed12_u64_i64 :: "64 word list \<Rightarrow> nat \<Rightarrow> 64 word list \<Rightarrow> nat \<Rightarrow> (nat \<times> 64 word list \<times> nat) res" where
  "packed12_u64_i64 input bi output vi =
     rbind (idx input bi) (\<lambda>block0.
     rbind (stores output vi
       [drop_bit 52 block0, drop_bit 40 block0 AND 4095, drop_bit 28 block0 AND 4095,
        drop_bit 16 block0 AND 4095, drop_bit 4 block0 AND 4095]) (\<lambda>output.
     rbind (idx input (bi + 1)) (\<lambda>block1.
     rbind (stores output (vi + 5)
       [push_bit 8 (block0 AND 15) OR drop_bit 56 block1, drop_bit 44 block1 AND 4095,
        drop_bit 32 block1 AND 4095, drop_bit 20 block1 AND 4095, drop_bit 8 block1 AND 4095]) (\<lambda>output.
     rbind (idx input (bi + 2)) (\<lambda>block2.
     rbind (stores output (vi + 10)
       [push_bit 4 (block1 AND 255) OR drop_bit 60 block2, drop_bit 48 block2 AND 4095,
        drop_bit 36 block2 AND 4095, drop_bit 24 block2 AND 4095, drop_bit 12 block2 AND 4095,
        block2 AND 4095]) (\<lambda>output.
     Inr (bi + 3, output, vi + 16)))))))"

definition packed12_decode_u64_to_i64 :: "64 word list \<Rightarrow> nat \<Rightarrow> 64 word list \<Rightarrow> nat \<Rightarrow> nat \<Rightarrow> 64 word list res" where
  "packed12_decode_u64_to_i64 = decode_fast 0 3 16 packed12_u64_i64 packed12_u64_i64"

interpretation packed12_u64_i64: bulk_group packed12_u64_i64 64 12 3 16 "\<lambda>x. x" "\<lambda>x. x"
proof
  show "packed12_u64_i64 input bi out vi = Inr (bi + 3, patch out vi
      (map (\<lambda>x. x) (unpack 64 (\<lambda>i. input ! (bi + i)) 12 16)), vi + 16)"
    if "bi + 3 \<le> length input" "vi + 16 \<le> length out" for bi vi input out
    using that unfolding packed12_u64_i64_def and_masks
    by (simp add: stores_ok patch_fuse, intro patch_cong, simp add: unpack_def upt_rec,
        simp add: gather_in gather_over unpack_simps)
qed simp_all

lemma packed12_decode_u64_to_i64_ok [bulk_decode]:
  "bo + n * 3 \<le> length blocks \<Longrightarrow> vo + n * 16 \<le> length vals \<Longrightarrow>
   packed12_decode_u64_to_i64 blocks bo vals vo n = Inr (patch vals vo (unpack 64 (\<lambda>i. blocks ! (bo + i)) 12 (n * 16)))"
  using packed12_u64_i64.decode_fast_ok [OF packed12_u64_i64.bulk_group_axioms, of bo n blocks vo vals] by (simp add: packed12_decode_u64_to_i64_def)

definition packed12_u8_i64 :: "8 word list \<Rightarrow> nat \<Rightarrow> 64 word list \<Rightarrow> nat \<Rightarrow> (nat \<times> 64 word list \<times> nat) res" where
  "packed12_u8_i64 input bi output vi =
     rbind (idx_as input bi) (\<lambda>byte0.
     rbind (idx_as input (bi + 1)) (\<lambda>byte1.
     rbind (stores output vi
       [push_bit 4 byte0 OR signed_drop_bit 4 byte1]) (\<lambda>output.
     rbind (idx_as input (bi + 2)) (\<lambda>byte2.
     rbind (stores output (vi + 1)
       [push_bit 8 (byte1 AND 15) OR byte2]) (\<lambda>output.
     Inr (bi + 3, output, vi + 2))))))"

definition packed12_decode_u8_to_i64 :: "8 word list \<Rightarrow> nat \<Rightarrow> 64 word list \<Rightarrow> nat \<Rightarrow> nat \<Rightarrow> 64 word list res" where
  "packed12_decode_u8_to_i64 = decode_loop packed12_u8_i64"

interpretation packed12_u8_i64: bulk_group packed12_u8_i64 8 12 3 2 ucast "\<lambda>x. x"
proof
  show "packed12_u8_i64 input bi out vi = Inr (bi + 3, patch out vi
      (map (\<lambda>x. x) (unpack 8 (\<lambda>i. ucast (input ! (bi + i))) 12 2)), vi + 2)"
    if "bi + 3 \<le> length input" "vi + 2 \<le> length out" for bi vi input out
    using that unfolding packed12_u8_i64_def and_masks
    by (simp add: stores_ok patch_fuse, intro patch_cong, simp add: unpack_def upt_rec,
        simp add: gather_in gather_over unpack_simps)
qed simp_all

lemma packed12_decode_u8_to_i64_ok [bulk_decode]:
  "bo + n * 3 \<le> length blocks \<Longrightarrow> vo + n * 2 \<le> length vals \<Longrightarrow>
   packed12_decode_u8_to_i64 blocks bo vals vo n = Inr (patch vals vo (unpack 8 (\<lambda>i. ucast (blocks ! (bo + i))) 12 (n * 2)))"
  using packed12_u8_i64.decode_loop_ok [of bo n blocks vo vals] by (simp add: packed12_decode_u8_to_i64_def)

definition packed12_u64_i32 :: "64 word list \<Rightarrow> nat \<Rightarrow> 32 word list \<Rightarrow> nat \<Rightarrow> (nat \<times> 32 word list \<times> nat) res" where
  "packed12_u64_i32 input bi output vi =
     rbind (idx input bi) (\<lambda>block0.
     rbind (stores output vi
       [ucast (drop_bit 52 block0), ucast (drop_bit 40 block0 AND 4095),
        ucast (drop_bit 28 block0 AND 4095), ucast (drop_bit 16 block0 AND 4095),
        ucast (drop_bit 4 block0 AND 4095)]) (\<lambda>output.
     rbind (idx input (bi + 1)) (\<lambda>block1.
     rbind (stores output (vi + 5)
       [ucast (push_bit 8 (block0 AND 15) OR drop_bit 56 block1), ucast (drop_bit 44 block1 AND 4095),
        ucast (drop_bit 32 block1 AND 4095), ucast (drop_bit 20 block1 AND 4095),
        ucast (drop_bit 8 block1 AND 4095)]) (\<lambda>output.
     rbind (idx input (bi + 2)) (\<lambda>block2.
     rbind (stores output (vi + 10)
       [ucast (push_bit 4 (block1 AND 255) OR drop_bit 60 block2), ucast (drop_bit 48 block2 AND 4095),
        ucast (drop_bit 36 block2 AND 4095), ucast (drop_bit 24 block2 AND 4095),
        ucast (drop_bit 12 block2 AND 4095), ucast (block2 AND 4095)]) (\<lambda>output.
     Inr (bi + 3, output, vi + 16)))))))"

definition packed12_decode_u64_to_i32 :: "64 word list \<Rightarrow> nat \<Rightarrow> 32 word list \<Rightarrow> nat \<Rightarrow> nat \<Rightarrow> 32 word list res" where
  "packed12_decode_u64_to_i32 = decode_fast 0 3 16 packed12_u64_i32 packed12_u64_i32"

interpretation packed12_u64_i32: bulk_group packed12_u64_i32 64 12 3 16 "\<lambda>x. x" ucast
proof
  show "packed12_u64_i32 input bi out vi = Inr (bi + 3, patch out vi
      (map (ucast) (unpack 64 (\<lambda>i. input ! (bi + i)) 12 16)), vi + 16)"
    if "bi + 3 \<le> length input" "vi + 16 \<le> length out" for bi vi input out
    using that unfolding packed12_u64_i32_def and_masks
    by (simp add: stores_ok patch_fuse, intro patch_cong, simp add: unpack_def upt_rec,
        simp add: gather_in gather_over unpack_simps)
qed simp_all

lemma packed12_decode_u64_to_i32_ok [bulk_decode]:
  "bo + n * 3 \<le> length blocks \<Longrightarrow> vo + n * 16 \<le> length vals \<Longrightarrow>
   packed12_decode_u64_to_i32 blocks bo vals vo n = Inr (patch vals vo (map ucast (unpack 64 (\<lambda>i. blocks ! (bo + i)) 12 (n * 16))))"
  using packed12_u64_i32.decode_fast_ok [OF packed12_u64_i32.bulk_group_axioms, of bo n blocks vo vals] by (simp add: packed12_decode_u64_to_i32_def)

definition packed12_u8_i32 :: "8 word list \<Rightarrow> nat \<Rightarrow> 32 word list \<Rightarrow> nat \<Rightarrow> (nat \<times> 32 word list \<times> nat) res" where
  "packed12_u8_i32 input bi output vi =
     rbind (idx_as input bi) (\<lambda>byte0.
     rbind (idx_as input (bi + 1)) (\<lambda>byte1.
     rbind (stores output vi
       [push_bit 4 byte0 OR signed_drop_bit 4 byte1]) (\<lambda>output.
     rbind (idx_as input (bi + 2)) (\<lambda>byte2.
     rbind (stores output (vi + 1)
       [push_bit 8 (byte1 AND 15) OR byte2]) (\<lambda>output.
     Inr (bi + 3, output, vi + 2))))))"

definition packed12_decode_u8_to_i32 :: "8 word list \<Rightarrow> nat \<Rightarrow> 32 word list \<Rightarrow> nat \<Rightarrow> nat \<Rightarrow> 32 word list res" where
  "packed12_decode_u8_to_i32 = decode_loop packed12_u8_i32"

interpretation packed12_u8_i32: bulk_group packed12_u8_i32 8 12 3 2 ucast "\<lambda>x. x"
proof
  show "packed12_u8_i32 input bi out vi = Inr (bi + 3, patch out vi
      (map (\<lambda>x. x) (unpack 8 (\<lambda>i. ucast (input ! (bi + i))) 12 2)), vi + 2)"
    if "bi + 3 \<le> length input" "vi + 2 \<le> length out" for bi vi input out
    using that unfolding packed12_u8_i32_def and_masks
    by (simp add: stores_ok patch_fuse, intro patch_cong, simp add: unpack_def upt_rec,
        simp add: gather_in gather_over unpack_simps)
qed simp_all

lemma packed12_decode_u8_to_i32_ok [bulk_decode]:
  "bo + n * 3 \<le> length blocks \<Longrightarrow> vo + n * 2 \<le> length vals \<Longrightarrow>
   packed12_decode_u8_to_i32 blocks bo vals vo n = Inr (patch vals vo (unpack 8 (\<lambda>i. ucast (blocks ! (bo + i))) 12 (n * 2)))"
  using packed12_u8_i32.decode_loop_ok [of bo n blocks vo vals] by (simp add: packed12_decode_u8_to_i32_def)

section \<open>\<open>BulkOperationPacked13\<close>\<close>

definition packed13_u64_i64 :: "64 word list \<Rightarrow> nat \<Rightarrow> 64 word list \<Rightarrow> nat \<Rightarrow> (nat \<times> 64 word list \<times> nat) res" where
  "packed13_u64_i64 input bi output vi =
     rbind (idx input bi) (\<lambda>block0.
     rbind (stores output vi
       [drop_bit 51 block0, drop_bit 38 block0 AND 8191, drop_bit 25 block0 AND 8191,
        drop_bit 12 block0 AND 8191]) (\<lambda>output.
     rbind (idx input (bi + 1)) (\<lambda>block1.
     rbind (stores output (vi + 4)
       [push_bit 1 (block0 AND 4095) OR drop_bit 63 block1, drop_bit 50 block1 AND 8191,
        drop_bit 37 block1 AND 8191, drop_bit 24 block1 AND 8191, drop_bit 11 block1 AND 8191]) (\<lambda>output.
     rbind (idx input (bi + 2)) (\<lambda>block2.
     rbind (stores output (vi + 9)
       [push_bit 2 (block1 AND 2047) OR drop_bit 62 block2, drop_bit 49 block2 AND 8191,
        drop_bit 36 block2 AND 8191, drop_bit 23 block2 AND 8191, drop_bit 10 block2 AND 8191]) (\<lambda>output.
     rbind (idx input (bi + 3)) (\<lambda>block3.
     rbind (stores output (vi + 14)
       [push_bit 3 (block2 AND 1023) OR drop_bit 61 block3, drop_bit 48 block3 AND 8191,
        drop_bit 35 block3 AND 8191, drop_bit 22 block3 AND 8191, drop_bit 9 block3 AND 8191]) (\<lambda>output.
     rbind (idx input (bi + 4)) (\<lambda>block4.
     rbind (stores output (vi + 19)
       [push_bit 4 (block3 AND 511) OR drop_bit 60 block4, drop_bit 47 block4 AND 8191,
        drop_bit 34 block4 AND 8191, drop_bit 21 block4 AND 8191, drop_bit 8 block4 AND 8191]) (\<lambda>output.
     rbind (idx input (bi + 5)) (\<lambda>block5.
     rbind (stores output (vi + 24)
       [push_bit 5 (block4 AND 255) OR drop_bit 59 block5, drop_bit 46 block5 AND 8191,
        drop_bit 33 block5 AND 8191, drop_bit 20 block5 AND 8191, drop_bit 7 block5 AND 8191]) (\<lambda>output.
     rbind (idx input (bi + 6)) (\<lambda>block6.
     rbind (stores output (vi + 29)
       [push_bit 6 (block5 AND 127) OR drop_bit 58 block6, drop_bit 45 block6 AND 8191,
        drop_bit 32 block6 AND 8191, drop_bit 19 block6 AND 8191, drop_bit 6 block6 AND 8191]) (\<lambda>output.
     rbind (idx input (bi + 7)) (\<lambda>block7.
     rbind (stores output (vi + 34)
       [push_bit 7 (block6 AND 63) OR drop_bit 57 block7, drop_bit 44 block7 AND 8191,
        drop_bit 31 block7 AND 8191, drop_bit 18 block7 AND 8191, drop_bit 5 block7 AND 8191]) (\<lambda>output.
     rbind (idx input (bi + 8)) (\<lambda>block8.
     rbind (stores output (vi + 39)
       [push_bit 8 (block7 AND 31) OR drop_bit 56 block8, drop_bit 43 block8 AND 8191,
        drop_bit 30 block8 AND 8191, drop_bit 17 block8 AND 8191, drop_bit 4 block8 AND 8191]) (\<lambda>output.
     rbind (idx input (bi + 9)) (\<lambda>block9.
     rbind (stores output (vi + 44)
       [push_bit 9 (block8 AND 15) OR drop_bit 55 block9, drop_bit 42 block9 AND 8191,
        drop_bit 29 block9 AND 8191, drop_bit 16 block9 AND 8191, drop_bit 3 block9 AND 8191]) (\<lambda>output.
     rbind (idx input (bi + 10)) (\<lambda>block10.
     rbind (stores output (vi + 49)
       [push_bit 10 (block9 AND 7) OR drop_bit 54 block10, drop_bit 41 block10 AND 8191,
        drop_bit 28 block10 AND 8191, drop_bit 15 block10 AND 8191, drop_bit 2 block10 AND 8191]) (\<lambda>output.
     rbind (idx input (bi + 11)) (\<lambda>block11.
     rbind (stores output (vi + 54)
       [push_bit 11 (block10 AND 3) OR drop_bit 53 block11, drop_bit 40 block11 AND 8191,
        drop_bit 27 block11 AND 8191, drop_bit 14 block11 AND 8191, drop_bit 1 block11 AND 8191]) (\<lambda>output.
     rbind (idx input (bi + 12)) (\<lambda>block12.
     rbind (stores output (vi + 59)
       [push_bit 12 (block11 AND 1) OR drop_bit 52 block12, drop_bit 39 block12 AND 8191,
        drop_bit 26 block12 AND 8191, drop_bit 13 block12 AND 8191, block12 AND 8191]) (\<lambda>output.
     Inr (bi + 13, output, vi + 64)))))))))))))))))))))))))))"

definition packed13_decode_u64_to_i64 :: "64 word list \<Rightarrow> nat \<Rightarrow> 64 word list \<Rightarrow> nat \<Rightarrow> nat \<Rightarrow> 64 word list res" where
  "packed13_decode_u64_to_i64 = decode_fast 0 13 64 packed13_u64_i64 packed13_u64_i64"

interpretation packed13_u64_i64: bulk_group packed13_u64_i64 64 13 13 64 "\<lambda>x. x" "\<lambda>x. x"
proof
  show "packed13_u64_i64 input bi out vi = Inr (bi + 13, patch out vi
      (map (\<lambda>x. x) (unpack 64 (\<lambda>i. input ! (bi + i)) 13 64)), vi + 64)"
    if "bi + 13 \<le> length input" "vi + 64 \<le> length out" for bi vi input out
    using that unfolding packed13_u64_i64_def and_masks
    by (simp add: stores_ok patch_fuse, intro patch_cong, simp add: unpack_def upt_rec,
        simp add: gather_in gather_over unpack_simps)
qed simp_all

lemma packed13_decode_u64_to_i64_ok [bulk_decode]:
  "bo + n * 13 \<le> length blocks \<Longrightarrow> vo + n * 64 \<le> length vals \<Longrightarrow>
   packed13_decode_u64_to_i64 blocks bo vals vo n = Inr (patch vals vo (unpack 64 (\<lambda>i. blocks ! (bo + i)) 13 (n * 64)))"
  using packed13_u64_i64.decode_fast_ok [OF packed13_u64_i64.bulk_group_axioms, of bo n blocks vo vals] by (simp add: packed13_decode_u64_to_i64_def)

definition packed13_u8_i64 :: "8 word list \<Rightarrow> nat \<Rightarrow> 64 word list \<Rightarrow> nat \<Rightarrow> (nat \<times> 64 word list \<times> nat) res" where
  "packed13_u8_i64 input bi output vi =
     rbind (idx_as input bi) (\<lambda>byte0.
     rbind (idx_as input (bi + 1)) (\<lambda>byte1.
     rbind (stores output vi
       [push_bit 5 byte0 OR signed_drop_bit 3 byte1]) (\<lambda>output.
     rbind (idx_as input (bi + 2)) (\<lambda>byte2.
     rbind (idx_as input (bi + 3)) (\<lambda>byte3.
     rbind (stores output (vi + 1)
       [(push_bit 10 (byte1 AND 7) OR push_bit 2 byte2) OR signed_drop_bit 6 byte3]) (\<lambda>output.
     rbind (idx_as input (bi + 4)) (\<lambda>byte4.
     rbind (stores output (vi + 2)
       [push_bit 7 (byte3 AND 63) OR signed_drop_bit 1 byte4]) (\<lambda>output.
     rbind (idx_as input (bi + 5)) (\<lambda>byte5.
     rbind (idx_as input (bi + 6)) (\<lambda>byte6.
     rbind (stores output (vi + 3)
       [(push_bit 12 (byte4 AND 1) OR push_bit 4 byte5) OR signed_drop_bit 4 byte6]) (\<lambda>output.
     rbind (idx_as input (bi + 7)) (\<lambda>byte7.
     rbind (idx_as input (bi + 8)) (\<lambda>byte8.
     rbind (stores output (vi + 4)
       [(push_bit 9 (byte6 AND 15) OR push_bit 1 byte7) OR signed_drop_bit 7 byte8]) (\<lambda>output.
     rbind (idx_as input (bi + 9)) (\<lambda>byte9.
     rbind (stores output (vi + 5)
       [push_bit 6 (byte8 AND 127) OR signed_drop_bit 2 byte9]) (\<lambda>output.
     rbind (idx_as input (bi + 10)) (\<lambda>byte10.
     rbind (idx_as input (bi + 11)) (\<lambda>byte11.
     rbind (stores output (vi + 6)
       [(push_bit 11 (byte9 AND 3) OR push_bit 3 byte10) OR signed_drop_bit 5 byte11]) (\<lambda>output.
     rbind (idx_as input (bi + 12)) (\<lambda>byte12.
     rbind (stores output (vi + 7)
       [push_bit 8 (byte11 AND 31) OR byte12]) (\<lambda>output.
     Inr (bi + 13, output, vi + 8))))))))))))))))))))))"

definition packed13_decode_u8_to_i64 :: "8 word list \<Rightarrow> nat \<Rightarrow> 64 word list \<Rightarrow> nat \<Rightarrow> nat \<Rightarrow> 64 word list res" where
  "packed13_decode_u8_to_i64 = decode_fast 0 13 8 packed13_u8_i64 packed13_u8_i64"

interpretation packed13_u8_i64: bulk_group packed13_u8_i64 8 13 13 8 ucast "\<lambda>x. x"
proof
  show "packed13_u8_i64 input bi out vi = Inr (bi + 13, patch out vi
      (map (\<lambda>x. x) (unpack 8 (\<lambda>i. ucast (input ! (bi + i))) 13 8)), vi + 8)"
    if "bi + 13 \<le> length input" "vi + 8 \<le> length out" for bi vi input out
    using that unfolding packed13_u8_i64_def and_masks
    by (simp add: stores_ok patch_fuse, intro patch_cong, simp add: unpack_def upt_rec,
        simp add: gather_in gather_over unpack_simps)
qed simp_all

lemma packed13_decode_u8_to_i64_ok [bulk_decode]:
  "bo + n * 13 \<le> length blocks \<Longrightarrow> vo + n * 8 \<le> length vals \<Longrightarrow>
   packed13_decode_u8_to_i64 blocks bo vals vo n = Inr (patch vals vo (unpack 8 (\<lambda>i. ucast (blocks ! (bo + i))) 13 (n * 8)))"
  using packed13_u8_i64.decode_fast_ok [OF packed13_u8_i64.bulk_group_axioms, of bo n blocks vo vals] by (simp add: packed13_decode_u8_to_i64_def)

definition packed13_u64_i32 :: "64 word list \<Rightarrow> nat \<Rightarrow> 32 word list \<Rightarrow> nat \<Rightarrow> (nat \<times> 32 word list \<times> nat) res" where
  "packed13_u64_i32 input bi output vi =
     rbind (idx input bi) (\<lambda>block0.
     rbind (stores output vi
       [ucast (drop_bit 51 block0), ucast (drop_bit 38 block0 AND 8191),
        ucast (drop_bit 25 block0 AND 8191), ucast (drop_bit 12 block0 AND 8191)]) (\<lambda>output.
     rbind (idx input (bi + 1)) (\<lambda>block1.
     rbind (stores output (vi + 4)
       [ucast (push_bit 1 (block0 AND 4095) OR drop_bit 63 block1), ucast (drop_bit 50 block1 AND 8191),
        ucast (drop_bit 37 block1 AND 8191), ucast (drop_bit 24 block1 AND 8191),
        ucast (drop_bit 11 block1 AND 8191)]) (\<lambda>output.
     rbind (idx input (bi + 2)) (\<lambda>block2.
     rbind (stores output (vi + 9)
       [ucast (push_bit 2 (block1 AND 2047) OR drop_bit 62 block2), ucast (drop_bit 49 block2 AND 8191),
        ucast (drop_bit 36 block2 AND 8191), ucast (drop_bit 23 block2 AND 8191),
        ucast (drop_bit 10 block2 AND 8191)]) (\<lambda>output.
     rbind (idx input (bi + 3)) (\<lambda>block3.
     rbind (stores output (vi + 14)
       [ucast (push_bit 3 (block2 AND 1023) OR drop_bit 61 block3), ucast (drop_bit 48 block3 AND 8191),
        ucast (drop_bit 35 block3 AND 8191), ucast (drop_bit 22 block3 AND 8191),
        ucast (drop_bit 9 block3 AND 8191)]) (\<lambda>output.
     rbind (idx input (bi + 4)) (\<lambda>block4.
     rbind (stores output (vi + 19)
       [ucast (push_bit 4 (block3 AND 511) OR drop_bit 60 block4), ucast (drop_bit 47 block4 AND 8191),
        ucast (drop_bit 34 block4 AND 8191), ucast (drop_bit 21 block4 AND 8191),
        ucast (drop_bit 8 block4 AND 8191)]) (\<lambda>output.
     rbind (idx input (bi + 5)) (\<lambda>block5.
     rbind (stores output (vi + 24)
       [ucast (push_bit 5 (block4 AND 255) OR drop_bit 59 block5), ucast (drop_bit 46 block5 AND 8191),
        ucast (drop_bit 33 block5 AND 8191), ucast (drop_bit 20 block5 AND 8191),
        ucast (drop_bit 7 block5 AND 8191)]) (\<lambda>output.
     rbind (idx input (bi + 6)) (\<lambda>block6.
     rbind (stores output (vi + 29)
       [ucast (push_bit 6 (block5 AND 127) OR drop_bit 58 block6), ucast (drop_bit 45 block6 AND 8191),
        ucast (drop_bit 32 block6 AND 8191), ucast (drop_bit 19 block6 AND 8191),
        ucast (drop_bit 6 block6 AND 8191)]) (\<lambda>output.
     rbind (idx input (bi + 7)) (\<lambda>block7.
     rbind (stores output (vi + 34)
       [ucast (push_bit 7 (block6 AND 63) OR drop_bit 57 block7), ucast (drop_bit 44 block7 AND 8191),
        ucast (drop_bit 31 block7 AND 8191), ucast (drop_bit 18 block7 AND 8191),
        ucast (drop_bit 5 block7 AND 8191)]) (\<lambda>output.
     rbind (idx input (bi + 8)) (\<lambda>block8.
     rbind (stores output (vi + 39)
       [ucast (push_bit 8 (block7 AND 31) OR drop_bit 56 block8), ucast (drop_bit 43 block8 AND 8191),
        ucast (drop_bit 30 block8 AND 8191), ucast (drop_bit 17 block8 AND 8191),
        ucast (drop_bit 4 block8 AND 8191)]) (\<lambda>output.
     rbind (idx input (bi + 9)) (\<lambda>block9.
     rbind (stores output (vi + 44)
       [ucast (push_bit 9 (block8 AND 15) OR drop_bit 55 block9), ucast (drop_bit 42 block9 AND 8191),
        ucast (drop_bit 29 block9 AND 8191), ucast (drop_bit 16 block9 AND 8191),
        ucast (drop_bit 3 block9 AND 8191)]) (\<lambda>output.
     rbind (idx input (bi + 10)) (\<lambda>block10.
     rbind (stores output (vi + 49)
       [ucast (push_bit 10 (block9 AND 7) OR drop_bit 54 block10), ucast (drop_bit 41 block10 AND 8191),
        ucast (drop_bit 28 block10 AND 8191), ucast (drop_bit 15 block10 AND 8191),
        ucast (drop_bit 2 block10 AND 8191)]) (\<lambda>output.
     rbind (idx input (bi + 11)) (\<lambda>block11.
     rbind (stores output (vi + 54)
       [ucast (push_bit 11 (block10 AND 3) OR drop_bit 53 block11), ucast (drop_bit 40 block11 AND 8191),
        ucast (drop_bit 27 block11 AND 8191), ucast (drop_bit 14 block11 AND 8191),
        ucast (drop_bit 1 block11 AND 8191)]) (\<lambda>output.
     rbind (idx input (bi + 12)) (\<lambda>block12.
     rbind (stores output (vi + 59)
       [ucast (push_bit 12 (block11 AND 1) OR drop_bit 52 block12), ucast (drop_bit 39 block12 AND 8191),
        ucast (drop_bit 26 block12 AND 8191), ucast (drop_bit 13 block12 AND 8191), ucast (block12 AND 8191)]) (\<lambda>output.
     Inr (bi + 13, output, vi + 64)))))))))))))))))))))))))))"

definition packed13_decode_u64_to_i32 :: "64 word list \<Rightarrow> nat \<Rightarrow> 32 word list \<Rightarrow> nat \<Rightarrow> nat \<Rightarrow> 32 word list res" where
  "packed13_decode_u64_to_i32 = decode_fast 0 13 64 packed13_u64_i32 packed13_u64_i32"

interpretation packed13_u64_i32: bulk_group packed13_u64_i32 64 13 13 64 "\<lambda>x. x" ucast
proof
  show "packed13_u64_i32 input bi out vi = Inr (bi + 13, patch out vi
      (map (ucast) (unpack 64 (\<lambda>i. input ! (bi + i)) 13 64)), vi + 64)"
    if "bi + 13 \<le> length input" "vi + 64 \<le> length out" for bi vi input out
    using that unfolding packed13_u64_i32_def and_masks
    by (simp add: stores_ok patch_fuse, intro patch_cong, simp add: unpack_def upt_rec,
        simp add: gather_in gather_over unpack_simps)
qed simp_all

lemma packed13_decode_u64_to_i32_ok [bulk_decode]:
  "bo + n * 13 \<le> length blocks \<Longrightarrow> vo + n * 64 \<le> length vals \<Longrightarrow>
   packed13_decode_u64_to_i32 blocks bo vals vo n = Inr (patch vals vo (map ucast (unpack 64 (\<lambda>i. blocks ! (bo + i)) 13 (n * 64))))"
  using packed13_u64_i32.decode_fast_ok [OF packed13_u64_i32.bulk_group_axioms, of bo n blocks vo vals] by (simp add: packed13_decode_u64_to_i32_def)

definition packed13_u8_i32 :: "8 word list \<Rightarrow> nat \<Rightarrow> 32 word list \<Rightarrow> nat \<Rightarrow> (nat \<times> 32 word list \<times> nat) res" where
  "packed13_u8_i32 input bi output vi =
     rbind (idx_as input bi) (\<lambda>byte0.
     rbind (idx_as input (bi + 1)) (\<lambda>byte1.
     rbind (stores output vi
       [push_bit 5 byte0 OR signed_drop_bit 3 byte1]) (\<lambda>output.
     rbind (idx_as input (bi + 2)) (\<lambda>byte2.
     rbind (idx_as input (bi + 3)) (\<lambda>byte3.
     rbind (stores output (vi + 1)
       [(push_bit 10 (byte1 AND 7) OR push_bit 2 byte2) OR signed_drop_bit 6 byte3]) (\<lambda>output.
     rbind (idx_as input (bi + 4)) (\<lambda>byte4.
     rbind (stores output (vi + 2)
       [push_bit 7 (byte3 AND 63) OR signed_drop_bit 1 byte4]) (\<lambda>output.
     rbind (idx_as input (bi + 5)) (\<lambda>byte5.
     rbind (idx_as input (bi + 6)) (\<lambda>byte6.
     rbind (stores output (vi + 3)
       [(push_bit 12 (byte4 AND 1) OR push_bit 4 byte5) OR signed_drop_bit 4 byte6]) (\<lambda>output.
     rbind (idx_as input (bi + 7)) (\<lambda>byte7.
     rbind (idx_as input (bi + 8)) (\<lambda>byte8.
     rbind (stores output (vi + 4)
       [(push_bit 9 (byte6 AND 15) OR push_bit 1 byte7) OR signed_drop_bit 7 byte8]) (\<lambda>output.
     rbind (idx_as input (bi + 9)) (\<lambda>byte9.
     rbind (stores output (vi + 5)
       [push_bit 6 (byte8 AND 127) OR signed_drop_bit 2 byte9]) (\<lambda>output.
     rbind (idx_as input (bi + 10)) (\<lambda>byte10.
     rbind (idx_as input (bi + 11)) (\<lambda>byte11.
     rbind (stores output (vi + 6)
       [(push_bit 11 (byte9 AND 3) OR push_bit 3 byte10) OR signed_drop_bit 5 byte11]) (\<lambda>output.
     rbind (idx_as input (bi + 12)) (\<lambda>byte12.
     rbind (stores output (vi + 7)
       [push_bit 8 (byte11 AND 31) OR byte12]) (\<lambda>output.
     Inr (bi + 13, output, vi + 8))))))))))))))))))))))"

definition packed13_decode_u8_to_i32 :: "8 word list \<Rightarrow> nat \<Rightarrow> 32 word list \<Rightarrow> nat \<Rightarrow> nat \<Rightarrow> 32 word list res" where
  "packed13_decode_u8_to_i32 = decode_fast 0 13 8 packed13_u8_i32 packed13_u8_i32"

interpretation packed13_u8_i32: bulk_group packed13_u8_i32 8 13 13 8 ucast "\<lambda>x. x"
proof
  show "packed13_u8_i32 input bi out vi = Inr (bi + 13, patch out vi
      (map (\<lambda>x. x) (unpack 8 (\<lambda>i. ucast (input ! (bi + i))) 13 8)), vi + 8)"
    if "bi + 13 \<le> length input" "vi + 8 \<le> length out" for bi vi input out
    using that unfolding packed13_u8_i32_def and_masks
    by (simp add: stores_ok patch_fuse, intro patch_cong, simp add: unpack_def upt_rec,
        simp add: gather_in gather_over unpack_simps)
qed simp_all

lemma packed13_decode_u8_to_i32_ok [bulk_decode]:
  "bo + n * 13 \<le> length blocks \<Longrightarrow> vo + n * 8 \<le> length vals \<Longrightarrow>
   packed13_decode_u8_to_i32 blocks bo vals vo n = Inr (patch vals vo (unpack 8 (\<lambda>i. ucast (blocks ! (bo + i))) 13 (n * 8)))"
  using packed13_u8_i32.decode_fast_ok [OF packed13_u8_i32.bulk_group_axioms, of bo n blocks vo vals] by (simp add: packed13_decode_u8_to_i32_def)

section \<open>\<open>BulkOperationPacked14\<close>\<close>

definition packed14_u64_i64 :: "64 word list \<Rightarrow> nat \<Rightarrow> 64 word list \<Rightarrow> nat \<Rightarrow> (nat \<times> 64 word list \<times> nat) res" where
  "packed14_u64_i64 input bi output vi =
     rbind (idx input bi) (\<lambda>block0.
     rbind (stores output vi
       [drop_bit 50 block0, drop_bit 36 block0 AND 16383, drop_bit 22 block0 AND 16383,
        drop_bit 8 block0 AND 16383]) (\<lambda>output.
     rbind (idx input (bi + 1)) (\<lambda>block1.
     rbind (stores output (vi + 4)
       [push_bit 6 (block0 AND 255) OR drop_bit 58 block1, drop_bit 44 block1 AND 16383,
        drop_bit 30 block1 AND 16383, drop_bit 16 block1 AND 16383, drop_bit 2 block1 AND 16383]) (\<lambda>output.
     rbind (idx input (bi + 2)) (\<lambda>block2.
     rbind (stores output (vi + 9)
       [push_bit 12 (block1 AND 3) OR drop_bit 52 block2, drop_bit 38 block2 AND 16383,
        drop_bit 24 block2 AND 16383, drop_bit 10 block2 AND 16383]) (\<lambda>output.
     rbind (idx input (bi + 3)) (\<lambda>block3.
     rbind (stores output (vi + 13)
       [push_bit 4 (block2 AND 1023) OR drop_bit 60 block3, drop_bit 46 block3 AND 16383,
        drop_bit 32 block3 AND 16383, drop_bit 18 block3 AND 16383, drop_bit 4 block3 AND 16383]) (\<lambda>output.
     rbind (idx input (bi + 4)) (\<lambda>block4.
     rbind (stores output (vi + 18)
       [push_bit 10 (block3 AND 15) OR drop_bit 54 block4, drop_bit 40 block4 AND 16383,
        drop_bit 26 block4 AND 16383, drop_bit 12 block4 AND 16383]) (\<lambda>output.
     rbind (idx input (bi + 5)) (\<lambda>block5.
     rbind (stores output (vi + 22)
       [push_bit 2 (block4 AND 4095) OR drop_bit 62 block5, drop_bit 48 block5 AND 16383,
        drop_bit 34 block5 AND 16383, drop_bit 20 block5 AND 16383, drop_bit 6 block5 AND 16383]) (\<lambda>output.
     rbind (idx input (bi + 6)) (\<lambda>block6.
     rbind (stores output (vi + 27)
       [push_bit 8 (block5 AND 63) OR drop_bit 56 block6, drop_bit 42 block6 AND 16383,
        drop_bit 28 block6 AND 16383, drop_bit 14 block6 AND 16383, block6 AND 16383]) (\<lambda>output.
     Inr (bi + 7, output, vi + 32)))))))))))))))"

definition packed14_decode_u64_to_i64 :: "64 word list \<Rightarrow> nat \<Rightarrow> 64 word list \<Rightarrow> nat \<Rightarrow> nat \<Rightarrow> 64 word list res" where
  "packed14_decode_u64_to_i64 = decode_fast 0 7 32 packed14_u64_i64 packed14_u64_i64"

interpretation packed14_u64_i64: bulk_group packed14_u64_i64 64 14 7 32 "\<lambda>x. x" "\<lambda>x. x"
proof
  show "packed14_u64_i64 input bi out vi = Inr (bi + 7, patch out vi
      (map (\<lambda>x. x) (unpack 64 (\<lambda>i. input ! (bi + i)) 14 32)), vi + 32)"
    if "bi + 7 \<le> length input" "vi + 32 \<le> length out" for bi vi input out
    using that unfolding packed14_u64_i64_def and_masks
    by (simp add: stores_ok patch_fuse, intro patch_cong, simp add: unpack_def upt_rec,
        simp add: gather_in gather_over unpack_simps)
qed simp_all

lemma packed14_decode_u64_to_i64_ok [bulk_decode]:
  "bo + n * 7 \<le> length blocks \<Longrightarrow> vo + n * 32 \<le> length vals \<Longrightarrow>
   packed14_decode_u64_to_i64 blocks bo vals vo n = Inr (patch vals vo (unpack 64 (\<lambda>i. blocks ! (bo + i)) 14 (n * 32)))"
  using packed14_u64_i64.decode_fast_ok [OF packed14_u64_i64.bulk_group_axioms, of bo n blocks vo vals] by (simp add: packed14_decode_u64_to_i64_def)

definition packed14_u8_i64_fast :: "8 word list \<Rightarrow> nat \<Rightarrow> 64 word list \<Rightarrow> nat \<Rightarrow> (nat \<times> 64 word list \<times> nat) res" where
  "packed14_u8_i64_fast input bi output vi =
     rbind (idx input bi) (\<lambda>byte0. rbind (idx input (bi + 1)) (\<lambda>byte1. rbind (idx input (bi + 2)) (\<lambda>byte2.
     rbind (idx input (bi + 3)) (\<lambda>byte3. rbind (idx input (bi + 4)) (\<lambda>byte4.
     rbind (idx input (bi + 5)) (\<lambda>byte5. rbind (idx input (bi + 6)) (\<lambda>byte6.
       let bits = from_be_bytes [0, byte0, byte1, byte2, byte3, byte4, byte5, byte6] in
       rbind (stores output vi
         [drop_bit 42 bits AND 16383, drop_bit 28 bits AND 16383, drop_bit 14 bits AND 16383, bits AND 16383])
       (\<lambda>output. Inr (bi + 7, output, vi + 4)))))))))"

lemma from_be_bytes_7:
  "from_be_bytes [0, b0, b1, b2, b3, b4, b5, b6] = gather 8 (\<lambda>i. ucast ([b0, b1, b2, b3, b4, b5, b6] ! i)) 0 56"
  by (simp add: from_be_bytes_def gather_in gather_over unpack_simps push_bit_or)

interpretation packed14_u8_i64_fast: bulk_group packed14_u8_i64_fast 8 14 7 4 ucast "\<lambda>x. x"
proof
  fix bi vi :: nat and input :: "8 word list" and out :: "64 word list"
  assume le: "bi + 7 \<le> length input" "vi + 4 \<le> length out"
  let ?f = "\<lambda>i. ucast ([input ! bi, input ! (bi + 1), input ! (bi + 2), input ! (bi + 3), input ! (bi + 4),
      input ! (bi + 5), input ! (bi + 6)] ! i) :: 64 word"
  have "packed14_u8_i64_fast input bi out vi = Inr (bi + 7, patch out vi (map (\<lambda>k. gather 8 ?f (k * 14) 14) [0, 1, 2, 3]), vi + 4)"
    using le gather_sub [of 8 56 0 14 ?f 0] gather_sub [of 8 56 14 14 ?f 0] gather_sub [of 8 56 28 14 ?f 0]
      gather_sub [of 8 56 42 14 ?f 0]
    by (simp add: packed14_u8_i64_fast_def from_be_bytes_7 and_masks stores_ok del: One_nat_def)
  also have "map (\<lambda>k. gather 8 ?f (k * 14) 14) [0, 1, 2, 3]
      = map (\<lambda>x. x) (unpack 8 (\<lambda>i. ucast (input ! (bi + i))) 14 4)"
    by (simp add: unpack_def upt_rec, simp add: gather_in gather_over)
  finally show "packed14_u8_i64_fast input bi out vi = Inr (bi + 7, patch out vi
      (map (\<lambda>x. x) (unpack 8 (\<lambda>i. ucast (input ! (bi + i))) 14 4)), vi + 4)" .
qed simp_all

definition packed14_u8_i64 :: "8 word list \<Rightarrow> nat \<Rightarrow> 64 word list \<Rightarrow> nat \<Rightarrow> (nat \<times> 64 word list \<times> nat) res" where
  "packed14_u8_i64 input bi output vi =
     rbind (idx_as input bi) (\<lambda>byte0.
     rbind (idx_as input (bi + 1)) (\<lambda>byte1.
     rbind (stores output vi
       [push_bit 6 byte0 OR signed_drop_bit 2 byte1]) (\<lambda>output.
     rbind (idx_as input (bi + 2)) (\<lambda>byte2.
     rbind (idx_as input (bi + 3)) (\<lambda>byte3.
     rbind (stores output (vi + 1)
       [(push_bit 12 (byte1 AND 3) OR push_bit 4 byte2) OR signed_drop_bit 4 byte3]) (\<lambda>output.
     rbind (idx_as input (bi + 4)) (\<lambda>byte4.
     rbind (idx_as input (bi + 5)) (\<lambda>byte5.
     rbind (stores output (vi + 2)
       [(push_bit 10 (byte3 AND 15) OR push_bit 2 byte4) OR signed_drop_bit 6 byte5]) (\<lambda>output.
     rbind (idx_as input (bi + 6)) (\<lambda>byte6.
     rbind (stores output (vi + 3)
       [push_bit 8 (byte5 AND 63) OR byte6]) (\<lambda>output.
     Inr (bi + 7, output, vi + 4))))))))))))"

definition packed14_decode_u8_to_i64 :: "8 word list \<Rightarrow> nat \<Rightarrow> 64 word list \<Rightarrow> nat \<Rightarrow> nat \<Rightarrow> 64 word list res" where
  "packed14_decode_u8_to_i64 = decode_fast 2 7 4 packed14_u8_i64_fast packed14_u8_i64"

interpretation packed14_u8_i64: bulk_group packed14_u8_i64 8 14 7 4 ucast "\<lambda>x. x"
proof
  show "packed14_u8_i64 input bi out vi = Inr (bi + 7, patch out vi
      (map (\<lambda>x. x) (unpack 8 (\<lambda>i. ucast (input ! (bi + i))) 14 4)), vi + 4)"
    if "bi + 7 \<le> length input" "vi + 4 \<le> length out" for bi vi input out
    using that unfolding packed14_u8_i64_def and_masks
    by (simp add: stores_ok patch_fuse, intro patch_cong, simp add: unpack_def upt_rec,
        simp add: gather_in gather_over unpack_simps)
qed simp_all

lemma packed14_decode_u8_to_i64_ok [bulk_decode]:
  "bo + n * 7 \<le> length blocks \<Longrightarrow> vo + n * 4 \<le> length vals \<Longrightarrow>
   packed14_decode_u8_to_i64 blocks bo vals vo n = Inr (patch vals vo (unpack 8 (\<lambda>i. ucast (blocks ! (bo + i))) 14 (n * 4)))"
  using packed14_u8_i64_fast.decode_fast_ok [OF packed14_u8_i64.bulk_group_axioms, of bo n blocks vo vals] by (simp add: packed14_decode_u8_to_i64_def)

definition packed14_u64_i32 :: "64 word list \<Rightarrow> nat \<Rightarrow> 32 word list \<Rightarrow> nat \<Rightarrow> (nat \<times> 32 word list \<times> nat) res" where
  "packed14_u64_i32 input bi output vi =
     rbind (idx input bi) (\<lambda>block0.
     rbind (stores output vi
       [ucast (drop_bit 50 block0), ucast (drop_bit 36 block0 AND 16383),
        ucast (drop_bit 22 block0 AND 16383), ucast (drop_bit 8 block0 AND 16383)]) (\<lambda>output.
     rbind (idx input (bi + 1)) (\<lambda>block1.
     rbind (stores output (vi + 4)
       [ucast (push_bit 6 (block0 AND 255) OR drop_bit 58 block1), ucast (drop_bit 44 block1 AND 16383),
        ucast (drop_bit 30 block1 AND 16383), ucast (drop_bit 16 block1 AND 16383),
        ucast (drop_bit 2 block1 AND 16383)]) (\<lambda>output.
     rbind (idx input (bi + 2)) (\<lambda>block2.
     rbind (stores output (vi + 9)
       [ucast (push_bit 12 (block1 AND 3) OR drop_bit 52 block2), ucast (drop_bit 38 block2 AND 16383),
        ucast (drop_bit 24 block2 AND 16383), ucast (drop_bit 10 block2 AND 16383)]) (\<lambda>output.
     rbind (idx input (bi + 3)) (\<lambda>block3.
     rbind (stores output (vi + 13)
       [ucast (push_bit 4 (block2 AND 1023) OR drop_bit 60 block3), ucast (drop_bit 46 block3 AND 16383),
        ucast (drop_bit 32 block3 AND 16383), ucast (drop_bit 18 block3 AND 16383),
        ucast (drop_bit 4 block3 AND 16383)]) (\<lambda>output.
     rbind (idx input (bi + 4)) (\<lambda>block4.
     rbind (stores output (vi + 18)
       [ucast (push_bit 10 (block3 AND 15) OR drop_bit 54 block4), ucast (drop_bit 40 block4 AND 16383),
        ucast (drop_bit 26 block4 AND 16383), ucast (drop_bit 12 block4 AND 16383)]) (\<lambda>output.
     rbind (idx input (bi + 5)) (\<lambda>block5.
     rbind (stores output (vi + 22)
       [ucast (push_bit 2 (block4 AND 4095) OR drop_bit 62 block5), ucast (drop_bit 48 block5 AND 16383),
        ucast (drop_bit 34 block5 AND 16383), ucast (drop_bit 20 block5 AND 16383),
        ucast (drop_bit 6 block5 AND 16383)]) (\<lambda>output.
     rbind (idx input (bi + 6)) (\<lambda>block6.
     rbind (stores output (vi + 27)
       [ucast (push_bit 8 (block5 AND 63) OR drop_bit 56 block6), ucast (drop_bit 42 block6 AND 16383),
        ucast (drop_bit 28 block6 AND 16383), ucast (drop_bit 14 block6 AND 16383), ucast (block6 AND 16383)]) (\<lambda>output.
     Inr (bi + 7, output, vi + 32)))))))))))))))"

definition packed14_decode_u64_to_i32 :: "64 word list \<Rightarrow> nat \<Rightarrow> 32 word list \<Rightarrow> nat \<Rightarrow> nat \<Rightarrow> 32 word list res" where
  "packed14_decode_u64_to_i32 = decode_fast 0 7 32 packed14_u64_i32 packed14_u64_i32"

interpretation packed14_u64_i32: bulk_group packed14_u64_i32 64 14 7 32 "\<lambda>x. x" ucast
proof
  show "packed14_u64_i32 input bi out vi = Inr (bi + 7, patch out vi
      (map (ucast) (unpack 64 (\<lambda>i. input ! (bi + i)) 14 32)), vi + 32)"
    if "bi + 7 \<le> length input" "vi + 32 \<le> length out" for bi vi input out
    using that unfolding packed14_u64_i32_def and_masks
    by (simp add: stores_ok patch_fuse, intro patch_cong, simp add: unpack_def upt_rec,
        simp add: gather_in gather_over unpack_simps)
qed simp_all

lemma packed14_decode_u64_to_i32_ok [bulk_decode]:
  "bo + n * 7 \<le> length blocks \<Longrightarrow> vo + n * 32 \<le> length vals \<Longrightarrow>
   packed14_decode_u64_to_i32 blocks bo vals vo n = Inr (patch vals vo (map ucast (unpack 64 (\<lambda>i. blocks ! (bo + i)) 14 (n * 32))))"
  using packed14_u64_i32.decode_fast_ok [OF packed14_u64_i32.bulk_group_axioms, of bo n blocks vo vals] by (simp add: packed14_decode_u64_to_i32_def)

definition packed14_u8_i32 :: "8 word list \<Rightarrow> nat \<Rightarrow> 32 word list \<Rightarrow> nat \<Rightarrow> (nat \<times> 32 word list \<times> nat) res" where
  "packed14_u8_i32 input bi output vi =
     rbind (idx_as input bi) (\<lambda>byte0.
     rbind (idx_as input (bi + 1)) (\<lambda>byte1.
     rbind (stores output vi
       [push_bit 6 byte0 OR signed_drop_bit 2 byte1]) (\<lambda>output.
     rbind (idx_as input (bi + 2)) (\<lambda>byte2.
     rbind (idx_as input (bi + 3)) (\<lambda>byte3.
     rbind (stores output (vi + 1)
       [(push_bit 12 (byte1 AND 3) OR push_bit 4 byte2) OR signed_drop_bit 4 byte3]) (\<lambda>output.
     rbind (idx_as input (bi + 4)) (\<lambda>byte4.
     rbind (idx_as input (bi + 5)) (\<lambda>byte5.
     rbind (stores output (vi + 2)
       [(push_bit 10 (byte3 AND 15) OR push_bit 2 byte4) OR signed_drop_bit 6 byte5]) (\<lambda>output.
     rbind (idx_as input (bi + 6)) (\<lambda>byte6.
     rbind (stores output (vi + 3)
       [push_bit 8 (byte5 AND 63) OR byte6]) (\<lambda>output.
     Inr (bi + 7, output, vi + 4))))))))))))"

definition packed14_decode_u8_to_i32 :: "8 word list \<Rightarrow> nat \<Rightarrow> 32 word list \<Rightarrow> nat \<Rightarrow> nat \<Rightarrow> 32 word list res" where
  "packed14_decode_u8_to_i32 = decode_loop packed14_u8_i32"

interpretation packed14_u8_i32: bulk_group packed14_u8_i32 8 14 7 4 ucast "\<lambda>x. x"
proof
  show "packed14_u8_i32 input bi out vi = Inr (bi + 7, patch out vi
      (map (\<lambda>x. x) (unpack 8 (\<lambda>i. ucast (input ! (bi + i))) 14 4)), vi + 4)"
    if "bi + 7 \<le> length input" "vi + 4 \<le> length out" for bi vi input out
    using that unfolding packed14_u8_i32_def and_masks
    by (simp add: stores_ok patch_fuse, intro patch_cong, simp add: unpack_def upt_rec,
        simp add: gather_in gather_over unpack_simps)
qed simp_all

lemma packed14_decode_u8_to_i32_ok [bulk_decode]:
  "bo + n * 7 \<le> length blocks \<Longrightarrow> vo + n * 4 \<le> length vals \<Longrightarrow>
   packed14_decode_u8_to_i32 blocks bo vals vo n = Inr (patch vals vo (unpack 8 (\<lambda>i. ucast (blocks ! (bo + i))) 14 (n * 4)))"
  using packed14_u8_i32.decode_loop_ok [of bo n blocks vo vals] by (simp add: packed14_decode_u8_to_i32_def)

section \<open>\<open>BulkOperationPacked15\<close>\<close>

definition packed15_u64_i64 :: "64 word list \<Rightarrow> nat \<Rightarrow> 64 word list \<Rightarrow> nat \<Rightarrow> (nat \<times> 64 word list \<times> nat) res" where
  "packed15_u64_i64 input bi output vi =
     rbind (idx input bi) (\<lambda>block0.
     rbind (stores output vi
       [drop_bit 49 block0, drop_bit 34 block0 AND 32767, drop_bit 19 block0 AND 32767,
        drop_bit 4 block0 AND 32767]) (\<lambda>output.
     rbind (idx input (bi + 1)) (\<lambda>block1.
     rbind (stores output (vi + 4)
       [push_bit 11 (block0 AND 15) OR drop_bit 53 block1, drop_bit 38 block1 AND 32767,
        drop_bit 23 block1 AND 32767, drop_bit 8 block1 AND 32767]) (\<lambda>output.
     rbind (idx input (bi + 2)) (\<lambda>block2.
     rbind (stores output (vi + 8)
       [push_bit 7 (block1 AND 255) OR drop_bit 57 block2, drop_bit 42 block2 AND 32767,
        drop_bit 27 block2 AND 32767, drop_bit 12 block2 AND 32767]) (\<lambda>output.
     rbind (idx input (bi + 3)) (\<lambda>block3.
     rbind (stores output (vi + 12)
       [push_bit 3 (block2 AND 4095) OR drop_bit 61 block3, drop_bit 46 block3 AND 32767,
        drop_bit 31 block3 AND 32767, drop_bit 16 block3 AND 32767, drop_bit 1 block3 AND 32767]) (\<lambda>output.
     rbind (idx input (bi + 4)) (\<lambda>block4.
     rbind (stores output (vi + 17)
       [push_bit 14 (block3 AND 1) OR drop_bit 50 block4, drop_bit 35 block4 AND 32767,
        drop_bit 20 block4 AND 32767, drop_bit 5 block4 AND 32767]) (\<lambda>output.
     rbind (idx input (bi + 5)) (\<lambda>block5.
     rbind (stores output (vi + 21)
       [push_bit 10 (block4 AND 31) OR drop_bit 54 block5, drop_bit 39 block5 AND 32767,
        drop_bit 24 block5 AND 32767, drop_bit 9 block5 AND 32767]) (\<lambda>output.
     rbind (idx input (bi + 6)) (\<lambda>block6.
     rbind (stores output (vi + 25)
       [push_bit 6 (block5 AND 511) OR drop_bit 58 block6, drop_bit 43 block6 AND 32767,
        drop_bit 28 block6 AND 32767, drop_bit 13 block6 AND 32767]) (\<lambda>output.
     rbind (idx input (bi + 7)) (\<lambda>block7.
     rbind (stores output (vi + 29)
       [push_bit 2 (block6 AND 8191) OR drop_bit 62 block7, drop_bit 47 block7 AND 32767,
        drop_bit 32 block7 AND 32767, drop_bit 17 block7 AND 32767, drop_bit 2 block7 AND 32767]) (\<lambda>output.
     rbind (idx input (bi + 8)) (\<lambda>block8.
     rbind (stores output (vi + 34)
       [push_bit 13 (block7 AND 3) OR drop_bit 51 block8, drop_bit 36 block8 AND 32767,
        drop_bit 21 block8 AND 32767, drop_bit 6 block8 AND 32767]) (\<lambda>output.
     rbind (idx input (bi + 9)) (\<lambda>block9.
     rbind (stores output (vi + 38)
       [push_bit 9 (block8 AND 63) OR drop_bit 55 block9, drop_bit 40 block9 AND 32767,
        drop_bit 25 block9 AND 32767, drop_bit 10 block9 AND 32767]) (\<lambda>output.
     rbind (idx input (bi + 10)) (\<lambda>block10.
     rbind (stores output (vi + 42)
       [push_bit 5 (block9 AND 1023) OR drop_bit 59 block10, drop_bit 44 block10 AND 32767,
        drop_bit 29 block10 AND 32767, drop_bit 14 block10 AND 32767]) (\<lambda>output.
     rbind (idx input (bi + 11)) (\<lambda>block11.
     rbind (stores output (vi + 46)
       [push_bit 1 (block10 AND 16383) OR drop_bit 63 block11, drop_bit 48 block11 AND 32767,
        drop_bit 33 block11 AND 32767, drop_bit 18 block11 AND 32767, drop_bit 3 block11 AND 32767]) (\<lambda>output.
     rbind (idx input (bi + 12)) (\<lambda>block12.
     rbind (stores output (vi + 51)
       [push_bit 12 (block11 AND 7) OR drop_bit 52 block12, drop_bit 37 block12 AND 32767,
        drop_bit 22 block12 AND 32767, drop_bit 7 block12 AND 32767]) (\<lambda>output.
     rbind (idx input (bi + 13)) (\<lambda>block13.
     rbind (stores output (vi + 55)
       [push_bit 8 (block12 AND 127) OR drop_bit 56 block13, drop_bit 41 block13 AND 32767,
        drop_bit 26 block13 AND 32767, drop_bit 11 block13 AND 32767]) (\<lambda>output.
     rbind (idx input (bi + 14)) (\<lambda>block14.
     rbind (stores output (vi + 59)
       [push_bit 4 (block13 AND 2047) OR drop_bit 60 block14, drop_bit 45 block14 AND 32767,
        drop_bit 30 block14 AND 32767, drop_bit 15 block14 AND 32767, block14 AND 32767]) (\<lambda>output.
     Inr (bi + 15, output, vi + 64)))))))))))))))))))))))))))))))"

definition packed15_decode_u64_to_i64 :: "64 word list \<Rightarrow> nat \<Rightarrow> 64 word list \<Rightarrow> nat \<Rightarrow> nat \<Rightarrow> 64 word list res" where
  "packed15_decode_u64_to_i64 = decode_fast 0 15 64 packed15_u64_i64 packed15_u64_i64"

interpretation packed15_u64_i64: bulk_group packed15_u64_i64 64 15 15 64 "\<lambda>x. x" "\<lambda>x. x"
proof
  show "packed15_u64_i64 input bi out vi = Inr (bi + 15, patch out vi
      (map (\<lambda>x. x) (unpack 64 (\<lambda>i. input ! (bi + i)) 15 64)), vi + 64)"
    if "bi + 15 \<le> length input" "vi + 64 \<le> length out" for bi vi input out
    using that unfolding packed15_u64_i64_def and_masks
    by (simp add: stores_ok patch_fuse, intro patch_cong, simp add: unpack_def upt_rec,
        simp add: gather_in gather_over unpack_simps)
qed simp_all

lemma packed15_decode_u64_to_i64_ok [bulk_decode]:
  "bo + n * 15 \<le> length blocks \<Longrightarrow> vo + n * 64 \<le> length vals \<Longrightarrow>
   packed15_decode_u64_to_i64 blocks bo vals vo n = Inr (patch vals vo (unpack 64 (\<lambda>i. blocks ! (bo + i)) 15 (n * 64)))"
  using packed15_u64_i64.decode_fast_ok [OF packed15_u64_i64.bulk_group_axioms, of bo n blocks vo vals] by (simp add: packed15_decode_u64_to_i64_def)

definition packed15_u8_i64 :: "8 word list \<Rightarrow> nat \<Rightarrow> 64 word list \<Rightarrow> nat \<Rightarrow> (nat \<times> 64 word list \<times> nat) res" where
  "packed15_u8_i64 input bi output vi =
     rbind (idx_as input bi) (\<lambda>byte0.
     rbind (idx_as input (bi + 1)) (\<lambda>byte1.
     rbind (stores output vi
       [push_bit 7 byte0 OR signed_drop_bit 1 byte1]) (\<lambda>output.
     rbind (idx_as input (bi + 2)) (\<lambda>byte2.
     rbind (idx_as input (bi + 3)) (\<lambda>byte3.
     rbind (stores output (vi + 1)
       [(push_bit 14 (byte1 AND 1) OR push_bit 6 byte2) OR signed_drop_bit 2 byte3]) (\<lambda>output.
     rbind (idx_as input (bi + 4)) (\<lambda>byte4.
     rbind (idx_as input (bi + 5)) (\<lambda>byte5.
     rbind (stores output (vi + 2)
       [(push_bit 13 (byte3 AND 3) OR push_bit 5 byte4) OR signed_drop_bit 3 byte5]) (\<lambda>output.
     rbind (idx_as input (bi + 6)) (\<lambda>byte6.
     rbind (idx_as input (bi + 7)) (\<lambda>byte7.
     rbind (stores output (vi + 3)
       [(push_bit 12 (byte5 AND 7) OR push_bit 4 byte6) OR signed_drop_bit 4 byte7]) (\<lambda>output.
     rbind (idx_as input (bi + 8)) (\<lambda>byte8.
     rbind (idx_as input (bi + 9)) (\<lambda>byte9.
     rbind (stores output (vi + 4)
       [(push_bit 11 (byte7 AND 15) OR push_bit 3 byte8) OR signed_drop_bit 5 byte9]) (\<lambda>output.
     rbind (idx_as input (bi + 10)) (\<lambda>byte10.
     rbind (idx_as input (bi + 11)) (\<lambda>byte11.
     rbind (stores output (vi + 5)
       [(push_bit 10 (byte9 AND 31) OR push_bit 2 byte10) OR signed_drop_bit 6 byte11]) (\<lambda>output.
     rbind (idx_as input (bi + 12)) (\<lambda>byte12.
     rbind (idx_as input (bi + 13)) (\<lambda>byte13.
     rbind (stores output (vi + 6)
       [(push_bit 9 (byte11 AND 63) OR push_bit 1 byte12) OR signed_drop_bit 7 byte13]) (\<lambda>output.
     rbind (idx_as input (bi + 14)) (\<lambda>byte14.
     rbind (stores output (vi + 7)
       [push_bit 8 (byte13 AND 127) OR byte14]) (\<lambda>output.
     Inr (bi + 15, output, vi + 8))))))))))))))))))))))))"

definition packed15_decode_u8_to_i64 :: "8 word list \<Rightarrow> nat \<Rightarrow> 64 word list \<Rightarrow> nat \<Rightarrow> nat \<Rightarrow> 64 word list res" where
  "packed15_decode_u8_to_i64 = decode_fast 0 15 8 packed15_u8_i64 packed15_u8_i64"

interpretation packed15_u8_i64: bulk_group packed15_u8_i64 8 15 15 8 ucast "\<lambda>x. x"
proof
  show "packed15_u8_i64 input bi out vi = Inr (bi + 15, patch out vi
      (map (\<lambda>x. x) (unpack 8 (\<lambda>i. ucast (input ! (bi + i))) 15 8)), vi + 8)"
    if "bi + 15 \<le> length input" "vi + 8 \<le> length out" for bi vi input out
    using that unfolding packed15_u8_i64_def and_masks
    by (simp add: stores_ok patch_fuse, intro patch_cong, simp add: unpack_def upt_rec,
        simp add: gather_in gather_over unpack_simps)
qed simp_all

lemma packed15_decode_u8_to_i64_ok [bulk_decode]:
  "bo + n * 15 \<le> length blocks \<Longrightarrow> vo + n * 8 \<le> length vals \<Longrightarrow>
   packed15_decode_u8_to_i64 blocks bo vals vo n = Inr (patch vals vo (unpack 8 (\<lambda>i. ucast (blocks ! (bo + i))) 15 (n * 8)))"
  using packed15_u8_i64.decode_fast_ok [OF packed15_u8_i64.bulk_group_axioms, of bo n blocks vo vals] by (simp add: packed15_decode_u8_to_i64_def)

definition packed15_u64_i32 :: "64 word list \<Rightarrow> nat \<Rightarrow> 32 word list \<Rightarrow> nat \<Rightarrow> (nat \<times> 32 word list \<times> nat) res" where
  "packed15_u64_i32 input bi output vi =
     rbind (idx input bi) (\<lambda>block0.
     rbind (stores output vi
       [ucast (drop_bit 49 block0), ucast (drop_bit 34 block0 AND 32767),
        ucast (drop_bit 19 block0 AND 32767), ucast (drop_bit 4 block0 AND 32767)]) (\<lambda>output.
     rbind (idx input (bi + 1)) (\<lambda>block1.
     rbind (stores output (vi + 4)
       [ucast (push_bit 11 (block0 AND 15) OR drop_bit 53 block1), ucast (drop_bit 38 block1 AND 32767),
        ucast (drop_bit 23 block1 AND 32767), ucast (drop_bit 8 block1 AND 32767)]) (\<lambda>output.
     rbind (idx input (bi + 2)) (\<lambda>block2.
     rbind (stores output (vi + 8)
       [ucast (push_bit 7 (block1 AND 255) OR drop_bit 57 block2), ucast (drop_bit 42 block2 AND 32767),
        ucast (drop_bit 27 block2 AND 32767), ucast (drop_bit 12 block2 AND 32767)]) (\<lambda>output.
     rbind (idx input (bi + 3)) (\<lambda>block3.
     rbind (stores output (vi + 12)
       [ucast (push_bit 3 (block2 AND 4095) OR drop_bit 61 block3), ucast (drop_bit 46 block3 AND 32767),
        ucast (drop_bit 31 block3 AND 32767), ucast (drop_bit 16 block3 AND 32767),
        ucast (drop_bit 1 block3 AND 32767)]) (\<lambda>output.
     rbind (idx input (bi + 4)) (\<lambda>block4.
     rbind (stores output (vi + 17)
       [ucast (push_bit 14 (block3 AND 1) OR drop_bit 50 block4), ucast (drop_bit 35 block4 AND 32767),
        ucast (drop_bit 20 block4 AND 32767), ucast (drop_bit 5 block4 AND 32767)]) (\<lambda>output.
     rbind (idx input (bi + 5)) (\<lambda>block5.
     rbind (stores output (vi + 21)
       [ucast (push_bit 10 (block4 AND 31) OR drop_bit 54 block5), ucast (drop_bit 39 block5 AND 32767),
        ucast (drop_bit 24 block5 AND 32767), ucast (drop_bit 9 block5 AND 32767)]) (\<lambda>output.
     rbind (idx input (bi + 6)) (\<lambda>block6.
     rbind (stores output (vi + 25)
       [ucast (push_bit 6 (block5 AND 511) OR drop_bit 58 block6), ucast (drop_bit 43 block6 AND 32767),
        ucast (drop_bit 28 block6 AND 32767), ucast (drop_bit 13 block6 AND 32767)]) (\<lambda>output.
     rbind (idx input (bi + 7)) (\<lambda>block7.
     rbind (stores output (vi + 29)
       [ucast (push_bit 2 (block6 AND 8191) OR drop_bit 62 block7), ucast (drop_bit 47 block7 AND 32767),
        ucast (drop_bit 32 block7 AND 32767), ucast (drop_bit 17 block7 AND 32767),
        ucast (drop_bit 2 block7 AND 32767)]) (\<lambda>output.
     rbind (idx input (bi + 8)) (\<lambda>block8.
     rbind (stores output (vi + 34)
       [ucast (push_bit 13 (block7 AND 3) OR drop_bit 51 block8), ucast (drop_bit 36 block8 AND 32767),
        ucast (drop_bit 21 block8 AND 32767), ucast (drop_bit 6 block8 AND 32767)]) (\<lambda>output.
     rbind (idx input (bi + 9)) (\<lambda>block9.
     rbind (stores output (vi + 38)
       [ucast (push_bit 9 (block8 AND 63) OR drop_bit 55 block9), ucast (drop_bit 40 block9 AND 32767),
        ucast (drop_bit 25 block9 AND 32767), ucast (drop_bit 10 block9 AND 32767)]) (\<lambda>output.
     rbind (idx input (bi + 10)) (\<lambda>block10.
     rbind (stores output (vi + 42)
       [ucast (push_bit 5 (block9 AND 1023) OR drop_bit 59 block10), ucast (drop_bit 44 block10 AND 32767),
        ucast (drop_bit 29 block10 AND 32767), ucast (drop_bit 14 block10 AND 32767)]) (\<lambda>output.
     rbind (idx input (bi + 11)) (\<lambda>block11.
     rbind (stores output (vi + 46)
       [ucast (push_bit 1 (block10 AND 16383) OR drop_bit 63 block11),
        ucast (drop_bit 48 block11 AND 32767), ucast (drop_bit 33 block11 AND 32767),
        ucast (drop_bit 18 block11 AND 32767), ucast (drop_bit 3 block11 AND 32767)]) (\<lambda>output.
     rbind (idx input (bi + 12)) (\<lambda>block12.
     rbind (stores output (vi + 51)
       [ucast (push_bit 12 (block11 AND 7) OR drop_bit 52 block12), ucast (drop_bit 37 block12 AND 32767),
        ucast (drop_bit 22 block12 AND 32767), ucast (drop_bit 7 block12 AND 32767)]) (\<lambda>output.
     rbind (idx input (bi + 13)) (\<lambda>block13.
     rbind (stores output (vi + 55)
       [ucast (push_bit 8 (block12 AND 127) OR drop_bit 56 block13), ucast (drop_bit 41 block13 AND 32767),
        ucast (drop_bit 26 block13 AND 32767), ucast (drop_bit 11 block13 AND 32767)]) (\<lambda>output.
     rbind (idx input (bi + 14)) (\<lambda>block14.
     rbind (stores output (vi + 59)
       [ucast (push_bit 4 (block13 AND 2047) OR drop_bit 60 block14), ucast (drop_bit 45 block14 AND 32767),
        ucast (drop_bit 30 block14 AND 32767), ucast (drop_bit 15 block14 AND 32767),
        ucast (block14 AND 32767)]) (\<lambda>output.
     Inr (bi + 15, output, vi + 64)))))))))))))))))))))))))))))))"

definition packed15_decode_u64_to_i32 :: "64 word list \<Rightarrow> nat \<Rightarrow> 32 word list \<Rightarrow> nat \<Rightarrow> nat \<Rightarrow> 32 word list res" where
  "packed15_decode_u64_to_i32 = decode_fast 0 15 64 packed15_u64_i32 packed15_u64_i32"

interpretation packed15_u64_i32: bulk_group packed15_u64_i32 64 15 15 64 "\<lambda>x. x" ucast
proof
  show "packed15_u64_i32 input bi out vi = Inr (bi + 15, patch out vi
      (map (ucast) (unpack 64 (\<lambda>i. input ! (bi + i)) 15 64)), vi + 64)"
    if "bi + 15 \<le> length input" "vi + 64 \<le> length out" for bi vi input out
    using that unfolding packed15_u64_i32_def and_masks
    by (simp add: stores_ok patch_fuse, intro patch_cong, simp add: unpack_def upt_rec,
        simp add: gather_in gather_over unpack_simps)
qed simp_all

lemma packed15_decode_u64_to_i32_ok [bulk_decode]:
  "bo + n * 15 \<le> length blocks \<Longrightarrow> vo + n * 64 \<le> length vals \<Longrightarrow>
   packed15_decode_u64_to_i32 blocks bo vals vo n = Inr (patch vals vo (map ucast (unpack 64 (\<lambda>i. blocks ! (bo + i)) 15 (n * 64))))"
  using packed15_u64_i32.decode_fast_ok [OF packed15_u64_i32.bulk_group_axioms, of bo n blocks vo vals] by (simp add: packed15_decode_u64_to_i32_def)

definition packed15_u8_i32 :: "8 word list \<Rightarrow> nat \<Rightarrow> 32 word list \<Rightarrow> nat \<Rightarrow> (nat \<times> 32 word list \<times> nat) res" where
  "packed15_u8_i32 input bi output vi =
     rbind (idx_as input bi) (\<lambda>byte0.
     rbind (idx_as input (bi + 1)) (\<lambda>byte1.
     rbind (stores output vi
       [push_bit 7 byte0 OR signed_drop_bit 1 byte1]) (\<lambda>output.
     rbind (idx_as input (bi + 2)) (\<lambda>byte2.
     rbind (idx_as input (bi + 3)) (\<lambda>byte3.
     rbind (stores output (vi + 1)
       [(push_bit 14 (byte1 AND 1) OR push_bit 6 byte2) OR signed_drop_bit 2 byte3]) (\<lambda>output.
     rbind (idx_as input (bi + 4)) (\<lambda>byte4.
     rbind (idx_as input (bi + 5)) (\<lambda>byte5.
     rbind (stores output (vi + 2)
       [(push_bit 13 (byte3 AND 3) OR push_bit 5 byte4) OR signed_drop_bit 3 byte5]) (\<lambda>output.
     rbind (idx_as input (bi + 6)) (\<lambda>byte6.
     rbind (idx_as input (bi + 7)) (\<lambda>byte7.
     rbind (stores output (vi + 3)
       [(push_bit 12 (byte5 AND 7) OR push_bit 4 byte6) OR signed_drop_bit 4 byte7]) (\<lambda>output.
     rbind (idx_as input (bi + 8)) (\<lambda>byte8.
     rbind (idx_as input (bi + 9)) (\<lambda>byte9.
     rbind (stores output (vi + 4)
       [(push_bit 11 (byte7 AND 15) OR push_bit 3 byte8) OR signed_drop_bit 5 byte9]) (\<lambda>output.
     rbind (idx_as input (bi + 10)) (\<lambda>byte10.
     rbind (idx_as input (bi + 11)) (\<lambda>byte11.
     rbind (stores output (vi + 5)
       [(push_bit 10 (byte9 AND 31) OR push_bit 2 byte10) OR signed_drop_bit 6 byte11]) (\<lambda>output.
     rbind (idx_as input (bi + 12)) (\<lambda>byte12.
     rbind (idx_as input (bi + 13)) (\<lambda>byte13.
     rbind (stores output (vi + 6)
       [(push_bit 9 (byte11 AND 63) OR push_bit 1 byte12) OR signed_drop_bit 7 byte13]) (\<lambda>output.
     rbind (idx_as input (bi + 14)) (\<lambda>byte14.
     rbind (stores output (vi + 7)
       [push_bit 8 (byte13 AND 127) OR byte14]) (\<lambda>output.
     Inr (bi + 15, output, vi + 8))))))))))))))))))))))))"

definition packed15_decode_u8_to_i32 :: "8 word list \<Rightarrow> nat \<Rightarrow> 32 word list \<Rightarrow> nat \<Rightarrow> nat \<Rightarrow> 32 word list res" where
  "packed15_decode_u8_to_i32 = decode_fast 0 15 8 packed15_u8_i32 packed15_u8_i32"

interpretation packed15_u8_i32: bulk_group packed15_u8_i32 8 15 15 8 ucast "\<lambda>x. x"
proof
  show "packed15_u8_i32 input bi out vi = Inr (bi + 15, patch out vi
      (map (\<lambda>x. x) (unpack 8 (\<lambda>i. ucast (input ! (bi + i))) 15 8)), vi + 8)"
    if "bi + 15 \<le> length input" "vi + 8 \<le> length out" for bi vi input out
    using that unfolding packed15_u8_i32_def and_masks
    by (simp add: stores_ok patch_fuse, intro patch_cong, simp add: unpack_def upt_rec,
        simp add: gather_in gather_over unpack_simps)
qed simp_all

lemma packed15_decode_u8_to_i32_ok [bulk_decode]:
  "bo + n * 15 \<le> length blocks \<Longrightarrow> vo + n * 8 \<le> length vals \<Longrightarrow>
   packed15_decode_u8_to_i32 blocks bo vals vo n = Inr (patch vals vo (unpack 8 (\<lambda>i. ucast (blocks ! (bo + i))) 15 (n * 8)))"
  using packed15_u8_i32.decode_fast_ok [OF packed15_u8_i32.bulk_group_axioms, of bo n blocks vo vals] by (simp add: packed15_decode_u8_to_i32_def)

end
