(* ===== verification/Packed_Dec_C.thy ===== *)
theory Packed_Dec_C
  imports Packed_Bits
begin

text \<open>
  The decoders of \<^verbatim>\<open>BulkOperationPacked16\<close> to \<^verbatim>\<open>BulkOperationPacked19\<close>
  (\<open>util/packed/bulk_operation_packed<n>.rs\<close>). For each of the four decoders of a width: the
  group of reads and writes of one iteration, statement by statement, the decoder itself as
  the loop over its groups, and the proof that a group extracts the values of that width.
\<close>

unbundle bit_operations_syntax

section \<open>\<open>BulkOperationPacked16\<close>\<close>

definition packed16_u64_i64 :: "64 word list \<Rightarrow> nat \<Rightarrow> 64 word list \<Rightarrow> nat \<Rightarrow> (nat \<times> 64 word list \<times> nat) res" where
  "packed16_u64_i64 input bi output vi =
     rbind (idx input bi) (\<lambda>block.
     rbind (stores output vi (map (\<lambda>i. drop_bit (48 - i * 16) block AND 65535) [0..<4])) (\<lambda>output.
     Inr (bi + 1, output, vi + 4)))"

definition packed16_decode_u64_to_i64 :: "64 word list \<Rightarrow> nat \<Rightarrow> 64 word list \<Rightarrow> nat \<Rightarrow> nat \<Rightarrow> 64 word list res" where
  "packed16_decode_u64_to_i64 = decode_loop packed16_u64_i64"

interpretation packed16_u64_i64: bulk_group packed16_u64_i64 64 16 1 4 "\<lambda>x. x" "\<lambda>x. x"
proof
  show "packed16_u64_i64 input bi out vi = Inr (bi + 1, patch out vi
      (map (\<lambda>x. x) (unpack 64 (\<lambda>i. input ! (bi + i)) 16 4)), vi + 4)"
    if "bi + 1 \<le> length input" "vi + 4 \<le> length out" for bi vi input out
    using that unfolding packed16_u64_i64_def and_masks
    by (simp add: stores_ok patch_fuse, intro patch_cong, simp add: unpack_def upt_rec,
        simp add: gather_in gather_over unpack_simps)
qed simp_all

lemma packed16_decode_u64_to_i64_ok [bulk_decode]:
  "bo + n * 1 \<le> length blocks \<Longrightarrow> vo + n * 4 \<le> length vals \<Longrightarrow>
   packed16_decode_u64_to_i64 blocks bo vals vo n = Inr (patch vals vo (unpack 64 (\<lambda>i. blocks ! (bo + i)) 16 (n * 4)))"
  using packed16_u64_i64.decode_loop_ok [of bo n blocks vo vals] by (simp add: packed16_decode_u64_to_i64_def)

definition packed16_u8_i64 :: "8 word list \<Rightarrow> nat \<Rightarrow> 64 word list \<Rightarrow> nat \<Rightarrow> (nat \<times> 64 word list \<times> nat) res" where
  "packed16_u8_i64 input bi output vi =
     rbind (idx_as input bi) (\<lambda>byte0.
     rbind (idx_as input (bi + 1)) (\<lambda>byte1.
     rbind (stores output vi
       [push_bit 8 byte0 OR byte1]) (\<lambda>output.
     Inr (bi + 2, output, vi + 1))))"

definition packed16_decode_u8_to_i64 :: "8 word list \<Rightarrow> nat \<Rightarrow> 64 word list \<Rightarrow> nat \<Rightarrow> nat \<Rightarrow> 64 word list res" where
  "packed16_decode_u8_to_i64 = decode_loop packed16_u8_i64"

interpretation packed16_u8_i64: bulk_group packed16_u8_i64 8 16 2 1 ucast "\<lambda>x. x"
proof
  show "packed16_u8_i64 input bi out vi = Inr (bi + 2, patch out vi
      (map (\<lambda>x. x) (unpack 8 (\<lambda>i. ucast (input ! (bi + i))) 16 1)), vi + 1)"
    if "bi + 2 \<le> length input" "vi + 1 \<le> length out" for bi vi input out
    using that unfolding packed16_u8_i64_def and_masks
    by (simp add: stores_ok patch_fuse, intro patch_cong, simp add: unpack_def upt_rec,
        simp add: gather_in gather_over unpack_simps)
qed simp_all

lemma packed16_decode_u8_to_i64_ok [bulk_decode]:
  "bo + n * 2 \<le> length blocks \<Longrightarrow> vo + n * 1 \<le> length vals \<Longrightarrow>
   packed16_decode_u8_to_i64 blocks bo vals vo n = Inr (patch vals vo (unpack 8 (\<lambda>i. ucast (blocks ! (bo + i))) 16 (n * 1)))"
  using packed16_u8_i64.decode_loop_ok [of bo n blocks vo vals] by (simp add: packed16_decode_u8_to_i64_def)

definition packed16_u64_i32 :: "64 word list \<Rightarrow> nat \<Rightarrow> 32 word list \<Rightarrow> nat \<Rightarrow> (nat \<times> 32 word list \<times> nat) res" where
  "packed16_u64_i32 input bi output vi =
     rbind (idx input bi) (\<lambda>block.
     rbind (stores output vi (map (\<lambda>i. ucast (drop_bit (48 - i * 16) block AND 65535)) [0..<4])) (\<lambda>output.
     Inr (bi + 1, output, vi + 4)))"

definition packed16_decode_u64_to_i32 :: "64 word list \<Rightarrow> nat \<Rightarrow> 32 word list \<Rightarrow> nat \<Rightarrow> nat \<Rightarrow> 32 word list res" where
  "packed16_decode_u64_to_i32 = decode_loop packed16_u64_i32"

interpretation packed16_u64_i32: bulk_group packed16_u64_i32 64 16 1 4 "\<lambda>x. x" ucast
proof
  show "packed16_u64_i32 input bi out vi = Inr (bi + 1, patch out vi
      (map (ucast) (unpack 64 (\<lambda>i. input ! (bi + i)) 16 4)), vi + 4)"
    if "bi + 1 \<le> length input" "vi + 4 \<le> length out" for bi vi input out
    using that unfolding packed16_u64_i32_def and_masks
    by (simp add: stores_ok patch_fuse, intro patch_cong, simp add: unpack_def upt_rec,
        simp add: gather_in gather_over unpack_simps)
qed simp_all

lemma packed16_decode_u64_to_i32_ok [bulk_decode]:
  "bo + n * 1 \<le> length blocks \<Longrightarrow> vo + n * 4 \<le> length vals \<Longrightarrow>
   packed16_decode_u64_to_i32 blocks bo vals vo n = Inr (patch vals vo (map ucast (unpack 64 (\<lambda>i. blocks ! (bo + i)) 16 (n * 4))))"
  using packed16_u64_i32.decode_loop_ok [of bo n blocks vo vals] by (simp add: packed16_decode_u64_to_i32_def)

definition packed16_u8_i32 :: "8 word list \<Rightarrow> nat \<Rightarrow> 32 word list \<Rightarrow> nat \<Rightarrow> (nat \<times> 32 word list \<times> nat) res" where
  "packed16_u8_i32 input bi output vi =
     rbind (idx_as input bi) (\<lambda>byte0.
     rbind (idx_as input (bi + 1)) (\<lambda>byte1.
     rbind (stores output vi
       [push_bit 8 byte0 OR byte1]) (\<lambda>output.
     Inr (bi + 2, output, vi + 1))))"

definition packed16_decode_u8_to_i32 :: "8 word list \<Rightarrow> nat \<Rightarrow> 32 word list \<Rightarrow> nat \<Rightarrow> nat \<Rightarrow> 32 word list res" where
  "packed16_decode_u8_to_i32 = decode_loop packed16_u8_i32"

interpretation packed16_u8_i32: bulk_group packed16_u8_i32 8 16 2 1 ucast "\<lambda>x. x"
proof
  show "packed16_u8_i32 input bi out vi = Inr (bi + 2, patch out vi
      (map (\<lambda>x. x) (unpack 8 (\<lambda>i. ucast (input ! (bi + i))) 16 1)), vi + 1)"
    if "bi + 2 \<le> length input" "vi + 1 \<le> length out" for bi vi input out
    using that unfolding packed16_u8_i32_def and_masks
    by (simp add: stores_ok patch_fuse, intro patch_cong, simp add: unpack_def upt_rec,
        simp add: gather_in gather_over unpack_simps)
qed simp_all

lemma packed16_decode_u8_to_i32_ok [bulk_decode]:
  "bo + n * 2 \<le> length blocks \<Longrightarrow> vo + n * 1 \<le> length vals \<Longrightarrow>
   packed16_decode_u8_to_i32 blocks bo vals vo n = Inr (patch vals vo (unpack 8 (\<lambda>i. ucast (blocks ! (bo + i))) 16 (n * 1)))"
  using packed16_u8_i32.decode_loop_ok [of bo n blocks vo vals] by (simp add: packed16_decode_u8_to_i32_def)

section \<open>\<open>BulkOperationPacked17\<close>\<close>

definition packed17_u64_i64 :: "64 word list \<Rightarrow> nat \<Rightarrow> 64 word list \<Rightarrow> nat \<Rightarrow> (nat \<times> 64 word list \<times> nat) res" where
  "packed17_u64_i64 input bi output vi =
     rbind (idx input bi) (\<lambda>block0.
     rbind (stores output vi
       [drop_bit 47 block0, drop_bit 30 block0 AND 131071, drop_bit 13 block0 AND 131071]) (\<lambda>output.
     rbind (idx input (bi + 1)) (\<lambda>block1.
     rbind (stores output (vi + 3)
       [push_bit 4 (block0 AND 8191) OR drop_bit 60 block1, drop_bit 43 block1 AND 131071,
        drop_bit 26 block1 AND 131071, drop_bit 9 block1 AND 131071]) (\<lambda>output.
     rbind (idx input (bi + 2)) (\<lambda>block2.
     rbind (stores output (vi + 7)
       [push_bit 8 (block1 AND 511) OR drop_bit 56 block2, drop_bit 39 block2 AND 131071,
        drop_bit 22 block2 AND 131071, drop_bit 5 block2 AND 131071]) (\<lambda>output.
     rbind (idx input (bi + 3)) (\<lambda>block3.
     rbind (stores output (vi + 11)
       [push_bit 12 (block2 AND 31) OR drop_bit 52 block3, drop_bit 35 block3 AND 131071,
        drop_bit 18 block3 AND 131071, drop_bit 1 block3 AND 131071]) (\<lambda>output.
     rbind (idx input (bi + 4)) (\<lambda>block4.
     rbind (stores output (vi + 15)
       [push_bit 16 (block3 AND 1) OR drop_bit 48 block4, drop_bit 31 block4 AND 131071,
        drop_bit 14 block4 AND 131071]) (\<lambda>output.
     rbind (idx input (bi + 5)) (\<lambda>block5.
     rbind (stores output (vi + 18)
       [push_bit 3 (block4 AND 16383) OR drop_bit 61 block5, drop_bit 44 block5 AND 131071,
        drop_bit 27 block5 AND 131071, drop_bit 10 block5 AND 131071]) (\<lambda>output.
     rbind (idx input (bi + 6)) (\<lambda>block6.
     rbind (stores output (vi + 22)
       [push_bit 7 (block5 AND 1023) OR drop_bit 57 block6, drop_bit 40 block6 AND 131071,
        drop_bit 23 block6 AND 131071, drop_bit 6 block6 AND 131071]) (\<lambda>output.
     rbind (idx input (bi + 7)) (\<lambda>block7.
     rbind (stores output (vi + 26)
       [push_bit 11 (block6 AND 63) OR drop_bit 53 block7, drop_bit 36 block7 AND 131071,
        drop_bit 19 block7 AND 131071, drop_bit 2 block7 AND 131071]) (\<lambda>output.
     rbind (idx input (bi + 8)) (\<lambda>block8.
     rbind (stores output (vi + 30)
       [push_bit 15 (block7 AND 3) OR drop_bit 49 block8, drop_bit 32 block8 AND 131071,
        drop_bit 15 block8 AND 131071]) (\<lambda>output.
     rbind (idx input (bi + 9)) (\<lambda>block9.
     rbind (stores output (vi + 33)
       [push_bit 2 (block8 AND 32767) OR drop_bit 62 block9, drop_bit 45 block9 AND 131071,
        drop_bit 28 block9 AND 131071, drop_bit 11 block9 AND 131071]) (\<lambda>output.
     rbind (idx input (bi + 10)) (\<lambda>block10.
     rbind (stores output (vi + 37)
       [push_bit 6 (block9 AND 2047) OR drop_bit 58 block10, drop_bit 41 block10 AND 131071,
        drop_bit 24 block10 AND 131071, drop_bit 7 block10 AND 131071]) (\<lambda>output.
     rbind (idx input (bi + 11)) (\<lambda>block11.
     rbind (stores output (vi + 41)
       [push_bit 10 (block10 AND 127) OR drop_bit 54 block11, drop_bit 37 block11 AND 131071,
        drop_bit 20 block11 AND 131071, drop_bit 3 block11 AND 131071]) (\<lambda>output.
     rbind (idx input (bi + 12)) (\<lambda>block12.
     rbind (stores output (vi + 45)
       [push_bit 14 (block11 AND 7) OR drop_bit 50 block12, drop_bit 33 block12 AND 131071,
        drop_bit 16 block12 AND 131071]) (\<lambda>output.
     rbind (idx input (bi + 13)) (\<lambda>block13.
     rbind (stores output (vi + 48)
       [push_bit 1 (block12 AND 65535) OR drop_bit 63 block13, drop_bit 46 block13 AND 131071,
        drop_bit 29 block13 AND 131071, drop_bit 12 block13 AND 131071]) (\<lambda>output.
     rbind (idx input (bi + 14)) (\<lambda>block14.
     rbind (stores output (vi + 52)
       [push_bit 5 (block13 AND 4095) OR drop_bit 59 block14, drop_bit 42 block14 AND 131071,
        drop_bit 25 block14 AND 131071, drop_bit 8 block14 AND 131071]) (\<lambda>output.
     rbind (idx input (bi + 15)) (\<lambda>block15.
     rbind (stores output (vi + 56)
       [push_bit 9 (block14 AND 255) OR drop_bit 55 block15, drop_bit 38 block15 AND 131071,
        drop_bit 21 block15 AND 131071, drop_bit 4 block15 AND 131071]) (\<lambda>output.
     rbind (idx input (bi + 16)) (\<lambda>block16.
     rbind (stores output (vi + 60)
       [push_bit 13 (block15 AND 15) OR drop_bit 51 block16, drop_bit 34 block16 AND 131071,
        drop_bit 17 block16 AND 131071, block16 AND 131071]) (\<lambda>output.
     Inr (bi + 17, output, vi + 64)))))))))))))))))))))))))))))))))))"

definition packed17_decode_u64_to_i64 :: "64 word list \<Rightarrow> nat \<Rightarrow> 64 word list \<Rightarrow> nat \<Rightarrow> nat \<Rightarrow> 64 word list res" where
  "packed17_decode_u64_to_i64 = decode_fast 0 17 64 packed17_u64_i64 packed17_u64_i64"

interpretation packed17_u64_i64: bulk_group packed17_u64_i64 64 17 17 64 "\<lambda>x. x" "\<lambda>x. x"
proof
  show "packed17_u64_i64 input bi out vi = Inr (bi + 17, patch out vi
      (map (\<lambda>x. x) (unpack 64 (\<lambda>i. input ! (bi + i)) 17 64)), vi + 64)"
    if "bi + 17 \<le> length input" "vi + 64 \<le> length out" for bi vi input out
    using that unfolding packed17_u64_i64_def and_masks
    by (simp add: stores_ok patch_fuse, intro patch_cong, simp add: unpack_def upt_rec,
        simp add: gather_in gather_over unpack_simps)
qed simp_all

lemma packed17_decode_u64_to_i64_ok [bulk_decode]:
  "bo + n * 17 \<le> length blocks \<Longrightarrow> vo + n * 64 \<le> length vals \<Longrightarrow>
   packed17_decode_u64_to_i64 blocks bo vals vo n = Inr (patch vals vo (unpack 64 (\<lambda>i. blocks ! (bo + i)) 17 (n * 64)))"
  using packed17_u64_i64.decode_fast_ok [OF packed17_u64_i64.bulk_group_axioms, of bo n blocks vo vals] by (simp add: packed17_decode_u64_to_i64_def)

definition packed17_u8_i64 :: "8 word list \<Rightarrow> nat \<Rightarrow> 64 word list \<Rightarrow> nat \<Rightarrow> (nat \<times> 64 word list \<times> nat) res" where
  "packed17_u8_i64 input bi output vi =
     rbind (idx_as input bi) (\<lambda>byte0.
     rbind (idx_as input (bi + 1)) (\<lambda>byte1.
     rbind (idx_as input (bi + 2)) (\<lambda>byte2.
     rbind (stores output vi
       [(push_bit 9 byte0 OR push_bit 1 byte1) OR signed_drop_bit 7 byte2]) (\<lambda>output.
     rbind (idx_as input (bi + 3)) (\<lambda>byte3.
     rbind (idx_as input (bi + 4)) (\<lambda>byte4.
     rbind (stores output (vi + 1)
       [(push_bit 10 (byte2 AND 127) OR push_bit 2 byte3) OR signed_drop_bit 6 byte4]) (\<lambda>output.
     rbind (idx_as input (bi + 5)) (\<lambda>byte5.
     rbind (idx_as input (bi + 6)) (\<lambda>byte6.
     rbind (stores output (vi + 2)
       [(push_bit 11 (byte4 AND 63) OR push_bit 3 byte5) OR signed_drop_bit 5 byte6]) (\<lambda>output.
     rbind (idx_as input (bi + 7)) (\<lambda>byte7.
     rbind (idx_as input (bi + 8)) (\<lambda>byte8.
     rbind (stores output (vi + 3)
       [(push_bit 12 (byte6 AND 31) OR push_bit 4 byte7) OR signed_drop_bit 4 byte8]) (\<lambda>output.
     rbind (idx_as input (bi + 9)) (\<lambda>byte9.
     rbind (idx_as input (bi + 10)) (\<lambda>byte10.
     rbind (stores output (vi + 4)
       [(push_bit 13 (byte8 AND 15) OR push_bit 5 byte9) OR signed_drop_bit 3 byte10]) (\<lambda>output.
     rbind (idx_as input (bi + 11)) (\<lambda>byte11.
     rbind (idx_as input (bi + 12)) (\<lambda>byte12.
     rbind (stores output (vi + 5)
       [(push_bit 14 (byte10 AND 7) OR push_bit 6 byte11) OR signed_drop_bit 2 byte12]) (\<lambda>output.
     rbind (idx_as input (bi + 13)) (\<lambda>byte13.
     rbind (idx_as input (bi + 14)) (\<lambda>byte14.
     rbind (stores output (vi + 6)
       [(push_bit 15 (byte12 AND 3) OR push_bit 7 byte13) OR signed_drop_bit 1 byte14]) (\<lambda>output.
     rbind (idx_as input (bi + 15)) (\<lambda>byte15.
     rbind (idx_as input (bi + 16)) (\<lambda>byte16.
     rbind (stores output (vi + 7)
       [(push_bit 16 (byte14 AND 1) OR push_bit 8 byte15) OR byte16]) (\<lambda>output.
     Inr (bi + 17, output, vi + 8))))))))))))))))))))))))))"

definition packed17_decode_u8_to_i64 :: "8 word list \<Rightarrow> nat \<Rightarrow> 64 word list \<Rightarrow> nat \<Rightarrow> nat \<Rightarrow> 64 word list res" where
  "packed17_decode_u8_to_i64 = decode_fast 0 17 8 packed17_u8_i64 packed17_u8_i64"

interpretation packed17_u8_i64: bulk_group packed17_u8_i64 8 17 17 8 ucast "\<lambda>x. x"
proof
  show "packed17_u8_i64 input bi out vi = Inr (bi + 17, patch out vi
      (map (\<lambda>x. x) (unpack 8 (\<lambda>i. ucast (input ! (bi + i))) 17 8)), vi + 8)"
    if "bi + 17 \<le> length input" "vi + 8 \<le> length out" for bi vi input out
    using that unfolding packed17_u8_i64_def and_masks
    by (simp add: stores_ok patch_fuse, intro patch_cong, simp add: unpack_def upt_rec,
        simp add: gather_in gather_over unpack_simps)
qed simp_all

lemma packed17_decode_u8_to_i64_ok [bulk_decode]:
  "bo + n * 17 \<le> length blocks \<Longrightarrow> vo + n * 8 \<le> length vals \<Longrightarrow>
   packed17_decode_u8_to_i64 blocks bo vals vo n = Inr (patch vals vo (unpack 8 (\<lambda>i. ucast (blocks ! (bo + i))) 17 (n * 8)))"
  using packed17_u8_i64.decode_fast_ok [OF packed17_u8_i64.bulk_group_axioms, of bo n blocks vo vals] by (simp add: packed17_decode_u8_to_i64_def)

definition packed17_u64_i32 :: "64 word list \<Rightarrow> nat \<Rightarrow> 32 word list \<Rightarrow> nat \<Rightarrow> (nat \<times> 32 word list \<times> nat) res" where
  "packed17_u64_i32 input bi output vi =
     rbind (idx input bi) (\<lambda>block0.
     rbind (stores output vi
       [ucast (drop_bit 47 block0), ucast (drop_bit 30 block0 AND 131071),
        ucast (drop_bit 13 block0 AND 131071)]) (\<lambda>output.
     rbind (idx input (bi + 1)) (\<lambda>block1.
     rbind (stores output (vi + 3)
       [ucast (push_bit 4 (block0 AND 8191) OR drop_bit 60 block1), ucast (drop_bit 43 block1 AND 131071),
        ucast (drop_bit 26 block1 AND 131071), ucast (drop_bit 9 block1 AND 131071)]) (\<lambda>output.
     rbind (idx input (bi + 2)) (\<lambda>block2.
     rbind (stores output (vi + 7)
       [ucast (push_bit 8 (block1 AND 511) OR drop_bit 56 block2), ucast (drop_bit 39 block2 AND 131071),
        ucast (drop_bit 22 block2 AND 131071), ucast (drop_bit 5 block2 AND 131071)]) (\<lambda>output.
     rbind (idx input (bi + 3)) (\<lambda>block3.
     rbind (stores output (vi + 11)
       [ucast (push_bit 12 (block2 AND 31) OR drop_bit 52 block3), ucast (drop_bit 35 block3 AND 131071),
        ucast (drop_bit 18 block3 AND 131071), ucast (drop_bit 1 block3 AND 131071)]) (\<lambda>output.
     rbind (idx input (bi + 4)) (\<lambda>block4.
     rbind (stores output (vi + 15)
       [ucast (push_bit 16 (block3 AND 1) OR drop_bit 48 block4), ucast (drop_bit 31 block4 AND 131071),
        ucast (drop_bit 14 block4 AND 131071)]) (\<lambda>output.
     rbind (idx input (bi + 5)) (\<lambda>block5.
     rbind (stores output (vi + 18)
       [ucast (push_bit 3 (block4 AND 16383) OR drop_bit 61 block5), ucast (drop_bit 44 block5 AND 131071),
        ucast (drop_bit 27 block5 AND 131071), ucast (drop_bit 10 block5 AND 131071)]) (\<lambda>output.
     rbind (idx input (bi + 6)) (\<lambda>block6.
     rbind (stores output (vi + 22)
       [ucast (push_bit 7 (block5 AND 1023) OR drop_bit 57 block6), ucast (drop_bit 40 block6 AND 131071),
        ucast (drop_bit 23 block6 AND 131071), ucast (drop_bit 6 block6 AND 131071)]) (\<lambda>output.
     rbind (idx input (bi + 7)) (\<lambda>block7.
     rbind (stores output (vi + 26)
       [ucast (push_bit 11 (block6 AND 63) OR drop_bit 53 block7), ucast (drop_bit 36 block7 AND 131071),
        ucast (drop_bit 19 block7 AND 131071), ucast (drop_bit 2 block7 AND 131071)]) (\<lambda>output.
     rbind (idx input (bi + 8)) (\<lambda>block8.
     rbind (stores output (vi + 30)
       [ucast (push_bit 15 (block7 AND 3) OR drop_bit 49 block8), ucast (drop_bit 32 block8 AND 131071),
        ucast (drop_bit 15 block8 AND 131071)]) (\<lambda>output.
     rbind (idx input (bi + 9)) (\<lambda>block9.
     rbind (stores output (vi + 33)
       [ucast (push_bit 2 (block8 AND 32767) OR drop_bit 62 block9), ucast (drop_bit 45 block9 AND 131071),
        ucast (drop_bit 28 block9 AND 131071), ucast (drop_bit 11 block9 AND 131071)]) (\<lambda>output.
     rbind (idx input (bi + 10)) (\<lambda>block10.
     rbind (stores output (vi + 37)
       [ucast (push_bit 6 (block9 AND 2047) OR drop_bit 58 block10), ucast (drop_bit 41 block10 AND 131071),
        ucast (drop_bit 24 block10 AND 131071), ucast (drop_bit 7 block10 AND 131071)]) (\<lambda>output.
     rbind (idx input (bi + 11)) (\<lambda>block11.
     rbind (stores output (vi + 41)
       [ucast (push_bit 10 (block10 AND 127) OR drop_bit 54 block11),
        ucast (drop_bit 37 block11 AND 131071), ucast (drop_bit 20 block11 AND 131071),
        ucast (drop_bit 3 block11 AND 131071)]) (\<lambda>output.
     rbind (idx input (bi + 12)) (\<lambda>block12.
     rbind (stores output (vi + 45)
       [ucast (push_bit 14 (block11 AND 7) OR drop_bit 50 block12), ucast (drop_bit 33 block12 AND 131071),
        ucast (drop_bit 16 block12 AND 131071)]) (\<lambda>output.
     rbind (idx input (bi + 13)) (\<lambda>block13.
     rbind (stores output (vi + 48)
       [ucast (push_bit 1 (block12 AND 65535) OR drop_bit 63 block13),
        ucast (drop_bit 46 block13 AND 131071), ucast (drop_bit 29 block13 AND 131071),
        ucast (drop_bit 12 block13 AND 131071)]) (\<lambda>output.
     rbind (idx input (bi + 14)) (\<lambda>block14.
     rbind (stores output (vi + 52)
       [ucast (push_bit 5 (block13 AND 4095) OR drop_bit 59 block14),
        ucast (drop_bit 42 block14 AND 131071), ucast (drop_bit 25 block14 AND 131071),
        ucast (drop_bit 8 block14 AND 131071)]) (\<lambda>output.
     rbind (idx input (bi + 15)) (\<lambda>block15.
     rbind (stores output (vi + 56)
       [ucast (push_bit 9 (block14 AND 255) OR drop_bit 55 block15), ucast (drop_bit 38 block15 AND 131071),
        ucast (drop_bit 21 block15 AND 131071), ucast (drop_bit 4 block15 AND 131071)]) (\<lambda>output.
     rbind (idx input (bi + 16)) (\<lambda>block16.
     rbind (stores output (vi + 60)
       [ucast (push_bit 13 (block15 AND 15) OR drop_bit 51 block16), ucast (drop_bit 34 block16 AND 131071),
        ucast (drop_bit 17 block16 AND 131071), ucast (block16 AND 131071)]) (\<lambda>output.
     Inr (bi + 17, output, vi + 64)))))))))))))))))))))))))))))))))))"

definition packed17_decode_u64_to_i32 :: "64 word list \<Rightarrow> nat \<Rightarrow> 32 word list \<Rightarrow> nat \<Rightarrow> nat \<Rightarrow> 32 word list res" where
  "packed17_decode_u64_to_i32 = decode_fast 0 17 64 packed17_u64_i32 packed17_u64_i32"

interpretation packed17_u64_i32: bulk_group packed17_u64_i32 64 17 17 64 "\<lambda>x. x" ucast
proof
  show "packed17_u64_i32 input bi out vi = Inr (bi + 17, patch out vi
      (map (ucast) (unpack 64 (\<lambda>i. input ! (bi + i)) 17 64)), vi + 64)"
    if "bi + 17 \<le> length input" "vi + 64 \<le> length out" for bi vi input out
    using that unfolding packed17_u64_i32_def and_masks
    by (simp add: stores_ok patch_fuse, intro patch_cong, simp add: unpack_def upt_rec,
        simp add: gather_in gather_over unpack_simps)
qed simp_all

lemma packed17_decode_u64_to_i32_ok [bulk_decode]:
  "bo + n * 17 \<le> length blocks \<Longrightarrow> vo + n * 64 \<le> length vals \<Longrightarrow>
   packed17_decode_u64_to_i32 blocks bo vals vo n = Inr (patch vals vo (map ucast (unpack 64 (\<lambda>i. blocks ! (bo + i)) 17 (n * 64))))"
  using packed17_u64_i32.decode_fast_ok [OF packed17_u64_i32.bulk_group_axioms, of bo n blocks vo vals] by (simp add: packed17_decode_u64_to_i32_def)

definition packed17_u8_i32 :: "8 word list \<Rightarrow> nat \<Rightarrow> 32 word list \<Rightarrow> nat \<Rightarrow> (nat \<times> 32 word list \<times> nat) res" where
  "packed17_u8_i32 input bi output vi =
     rbind (idx_as input bi) (\<lambda>byte0.
     rbind (idx_as input (bi + 1)) (\<lambda>byte1.
     rbind (idx_as input (bi + 2)) (\<lambda>byte2.
     rbind (stores output vi
       [(push_bit 9 byte0 OR push_bit 1 byte1) OR signed_drop_bit 7 byte2]) (\<lambda>output.
     rbind (idx_as input (bi + 3)) (\<lambda>byte3.
     rbind (idx_as input (bi + 4)) (\<lambda>byte4.
     rbind (stores output (vi + 1)
       [(push_bit 10 (byte2 AND 127) OR push_bit 2 byte3) OR signed_drop_bit 6 byte4]) (\<lambda>output.
     rbind (idx_as input (bi + 5)) (\<lambda>byte5.
     rbind (idx_as input (bi + 6)) (\<lambda>byte6.
     rbind (stores output (vi + 2)
       [(push_bit 11 (byte4 AND 63) OR push_bit 3 byte5) OR signed_drop_bit 5 byte6]) (\<lambda>output.
     rbind (idx_as input (bi + 7)) (\<lambda>byte7.
     rbind (idx_as input (bi + 8)) (\<lambda>byte8.
     rbind (stores output (vi + 3)
       [(push_bit 12 (byte6 AND 31) OR push_bit 4 byte7) OR signed_drop_bit 4 byte8]) (\<lambda>output.
     rbind (idx_as input (bi + 9)) (\<lambda>byte9.
     rbind (idx_as input (bi + 10)) (\<lambda>byte10.
     rbind (stores output (vi + 4)
       [(push_bit 13 (byte8 AND 15) OR push_bit 5 byte9) OR signed_drop_bit 3 byte10]) (\<lambda>output.
     rbind (idx_as input (bi + 11)) (\<lambda>byte11.
     rbind (idx_as input (bi + 12)) (\<lambda>byte12.
     rbind (stores output (vi + 5)
       [(push_bit 14 (byte10 AND 7) OR push_bit 6 byte11) OR signed_drop_bit 2 byte12]) (\<lambda>output.
     rbind (idx_as input (bi + 13)) (\<lambda>byte13.
     rbind (idx_as input (bi + 14)) (\<lambda>byte14.
     rbind (stores output (vi + 6)
       [(push_bit 15 (byte12 AND 3) OR push_bit 7 byte13) OR signed_drop_bit 1 byte14]) (\<lambda>output.
     rbind (idx_as input (bi + 15)) (\<lambda>byte15.
     rbind (idx_as input (bi + 16)) (\<lambda>byte16.
     rbind (stores output (vi + 7)
       [(push_bit 16 (byte14 AND 1) OR push_bit 8 byte15) OR byte16]) (\<lambda>output.
     Inr (bi + 17, output, vi + 8))))))))))))))))))))))))))"

definition packed17_decode_u8_to_i32 :: "8 word list \<Rightarrow> nat \<Rightarrow> 32 word list \<Rightarrow> nat \<Rightarrow> nat \<Rightarrow> 32 word list res" where
  "packed17_decode_u8_to_i32 = decode_fast 0 17 8 packed17_u8_i32 packed17_u8_i32"

interpretation packed17_u8_i32: bulk_group packed17_u8_i32 8 17 17 8 ucast "\<lambda>x. x"
proof
  show "packed17_u8_i32 input bi out vi = Inr (bi + 17, patch out vi
      (map (\<lambda>x. x) (unpack 8 (\<lambda>i. ucast (input ! (bi + i))) 17 8)), vi + 8)"
    if "bi + 17 \<le> length input" "vi + 8 \<le> length out" for bi vi input out
    using that unfolding packed17_u8_i32_def and_masks
    by (simp add: stores_ok patch_fuse, intro patch_cong, simp add: unpack_def upt_rec,
        simp add: gather_in gather_over unpack_simps)
qed simp_all

lemma packed17_decode_u8_to_i32_ok [bulk_decode]:
  "bo + n * 17 \<le> length blocks \<Longrightarrow> vo + n * 8 \<le> length vals \<Longrightarrow>
   packed17_decode_u8_to_i32 blocks bo vals vo n = Inr (patch vals vo (unpack 8 (\<lambda>i. ucast (blocks ! (bo + i))) 17 (n * 8)))"
  using packed17_u8_i32.decode_fast_ok [OF packed17_u8_i32.bulk_group_axioms, of bo n blocks vo vals] by (simp add: packed17_decode_u8_to_i32_def)

section \<open>\<open>BulkOperationPacked18\<close>\<close>

definition packed18_u64_i64 :: "64 word list \<Rightarrow> nat \<Rightarrow> 64 word list \<Rightarrow> nat \<Rightarrow> (nat \<times> 64 word list \<times> nat) res" where
  "packed18_u64_i64 input bi output vi =
     rbind (idx input bi) (\<lambda>block0.
     rbind (stores output vi
       [drop_bit 46 block0, drop_bit 28 block0 AND 262143, drop_bit 10 block0 AND 262143]) (\<lambda>output.
     rbind (idx input (bi + 1)) (\<lambda>block1.
     rbind (stores output (vi + 3)
       [push_bit 8 (block0 AND 1023) OR drop_bit 56 block1, drop_bit 38 block1 AND 262143,
        drop_bit 20 block1 AND 262143, drop_bit 2 block1 AND 262143]) (\<lambda>output.
     rbind (idx input (bi + 2)) (\<lambda>block2.
     rbind (stores output (vi + 7)
       [push_bit 16 (block1 AND 3) OR drop_bit 48 block2, drop_bit 30 block2 AND 262143,
        drop_bit 12 block2 AND 262143]) (\<lambda>output.
     rbind (idx input (bi + 3)) (\<lambda>block3.
     rbind (stores output (vi + 10)
       [push_bit 6 (block2 AND 4095) OR drop_bit 58 block3, drop_bit 40 block3 AND 262143,
        drop_bit 22 block3 AND 262143, drop_bit 4 block3 AND 262143]) (\<lambda>output.
     rbind (idx input (bi + 4)) (\<lambda>block4.
     rbind (stores output (vi + 14)
       [push_bit 14 (block3 AND 15) OR drop_bit 50 block4, drop_bit 32 block4 AND 262143,
        drop_bit 14 block4 AND 262143]) (\<lambda>output.
     rbind (idx input (bi + 5)) (\<lambda>block5.
     rbind (stores output (vi + 17)
       [push_bit 4 (block4 AND 16383) OR drop_bit 60 block5, drop_bit 42 block5 AND 262143,
        drop_bit 24 block5 AND 262143, drop_bit 6 block5 AND 262143]) (\<lambda>output.
     rbind (idx input (bi + 6)) (\<lambda>block6.
     rbind (stores output (vi + 21)
       [push_bit 12 (block5 AND 63) OR drop_bit 52 block6, drop_bit 34 block6 AND 262143,
        drop_bit 16 block6 AND 262143]) (\<lambda>output.
     rbind (idx input (bi + 7)) (\<lambda>block7.
     rbind (stores output (vi + 24)
       [push_bit 2 (block6 AND 65535) OR drop_bit 62 block7, drop_bit 44 block7 AND 262143,
        drop_bit 26 block7 AND 262143, drop_bit 8 block7 AND 262143]) (\<lambda>output.
     rbind (idx input (bi + 8)) (\<lambda>block8.
     rbind (stores output (vi + 28)
       [push_bit 10 (block7 AND 255) OR drop_bit 54 block8, drop_bit 36 block8 AND 262143,
        drop_bit 18 block8 AND 262143, block8 AND 262143]) (\<lambda>output.
     Inr (bi + 9, output, vi + 32)))))))))))))))))))"

definition packed18_decode_u64_to_i64 :: "64 word list \<Rightarrow> nat \<Rightarrow> 64 word list \<Rightarrow> nat \<Rightarrow> nat \<Rightarrow> 64 word list res" where
  "packed18_decode_u64_to_i64 = decode_fast 0 9 32 packed18_u64_i64 packed18_u64_i64"

interpretation packed18_u64_i64: bulk_group packed18_u64_i64 64 18 9 32 "\<lambda>x. x" "\<lambda>x. x"
proof
  show "packed18_u64_i64 input bi out vi = Inr (bi + 9, patch out vi
      (map (\<lambda>x. x) (unpack 64 (\<lambda>i. input ! (bi + i)) 18 32)), vi + 32)"
    if "bi + 9 \<le> length input" "vi + 32 \<le> length out" for bi vi input out
    using that unfolding packed18_u64_i64_def and_masks
    by (simp add: stores_ok patch_fuse, intro patch_cong, simp add: unpack_def upt_rec,
        simp add: gather_in gather_over unpack_simps)
qed simp_all

lemma packed18_decode_u64_to_i64_ok [bulk_decode]:
  "bo + n * 9 \<le> length blocks \<Longrightarrow> vo + n * 32 \<le> length vals \<Longrightarrow>
   packed18_decode_u64_to_i64 blocks bo vals vo n = Inr (patch vals vo (unpack 64 (\<lambda>i. blocks ! (bo + i)) 18 (n * 32)))"
  using packed18_u64_i64.decode_fast_ok [OF packed18_u64_i64.bulk_group_axioms, of bo n blocks vo vals] by (simp add: packed18_decode_u64_to_i64_def)

definition packed18_u8_i64 :: "8 word list \<Rightarrow> nat \<Rightarrow> 64 word list \<Rightarrow> nat \<Rightarrow> (nat \<times> 64 word list \<times> nat) res" where
  "packed18_u8_i64 input bi output vi =
     rbind (idx_as input bi) (\<lambda>byte0.
     rbind (idx_as input (bi + 1)) (\<lambda>byte1.
     rbind (idx_as input (bi + 2)) (\<lambda>byte2.
     rbind (stores output vi
       [(push_bit 10 byte0 OR push_bit 2 byte1) OR signed_drop_bit 6 byte2]) (\<lambda>output.
     rbind (idx_as input (bi + 3)) (\<lambda>byte3.
     rbind (idx_as input (bi + 4)) (\<lambda>byte4.
     rbind (stores output (vi + 1)
       [(push_bit 12 (byte2 AND 63) OR push_bit 4 byte3) OR signed_drop_bit 4 byte4]) (\<lambda>output.
     rbind (idx_as input (bi + 5)) (\<lambda>byte5.
     rbind (idx_as input (bi + 6)) (\<lambda>byte6.
     rbind (stores output (vi + 2)
       [(push_bit 14 (byte4 AND 15) OR push_bit 6 byte5) OR signed_drop_bit 2 byte6]) (\<lambda>output.
     rbind (idx_as input (bi + 7)) (\<lambda>byte7.
     rbind (idx_as input (bi + 8)) (\<lambda>byte8.
     rbind (stores output (vi + 3)
       [(push_bit 16 (byte6 AND 3) OR push_bit 8 byte7) OR byte8]) (\<lambda>output.
     Inr (bi + 9, output, vi + 4))))))))))))))"

definition packed18_decode_u8_to_i64 :: "8 word list \<Rightarrow> nat \<Rightarrow> 64 word list \<Rightarrow> nat \<Rightarrow> nat \<Rightarrow> 64 word list res" where
  "packed18_decode_u8_to_i64 = decode_fast 0 9 4 packed18_u8_i64 packed18_u8_i64"

interpretation packed18_u8_i64: bulk_group packed18_u8_i64 8 18 9 4 ucast "\<lambda>x. x"
proof
  show "packed18_u8_i64 input bi out vi = Inr (bi + 9, patch out vi
      (map (\<lambda>x. x) (unpack 8 (\<lambda>i. ucast (input ! (bi + i))) 18 4)), vi + 4)"
    if "bi + 9 \<le> length input" "vi + 4 \<le> length out" for bi vi input out
    using that unfolding packed18_u8_i64_def and_masks
    by (simp add: stores_ok patch_fuse, intro patch_cong, simp add: unpack_def upt_rec,
        simp add: gather_in gather_over unpack_simps)
qed simp_all

lemma packed18_decode_u8_to_i64_ok [bulk_decode]:
  "bo + n * 9 \<le> length blocks \<Longrightarrow> vo + n * 4 \<le> length vals \<Longrightarrow>
   packed18_decode_u8_to_i64 blocks bo vals vo n = Inr (patch vals vo (unpack 8 (\<lambda>i. ucast (blocks ! (bo + i))) 18 (n * 4)))"
  using packed18_u8_i64.decode_fast_ok [OF packed18_u8_i64.bulk_group_axioms, of bo n blocks vo vals] by (simp add: packed18_decode_u8_to_i64_def)

definition packed18_u64_i32 :: "64 word list \<Rightarrow> nat \<Rightarrow> 32 word list \<Rightarrow> nat \<Rightarrow> (nat \<times> 32 word list \<times> nat) res" where
  "packed18_u64_i32 input bi output vi =
     rbind (idx input bi) (\<lambda>block0.
     rbind (stores output vi
       [ucast (drop_bit 46 block0), ucast (drop_bit 28 block0 AND 262143),
        ucast (drop_bit 10 block0 AND 262143)]) (\<lambda>output.
     rbind (idx input (bi + 1)) (\<lambda>block1.
     rbind (stores output (vi + 3)
       [ucast (push_bit 8 (block0 AND 1023) OR drop_bit 56 block1), ucast (drop_bit 38 block1 AND 262143),
        ucast (drop_bit 20 block1 AND 262143), ucast (drop_bit 2 block1 AND 262143)]) (\<lambda>output.
     rbind (idx input (bi + 2)) (\<lambda>block2.
     rbind (stores output (vi + 7)
       [ucast (push_bit 16 (block1 AND 3) OR drop_bit 48 block2), ucast (drop_bit 30 block2 AND 262143),
        ucast (drop_bit 12 block2 AND 262143)]) (\<lambda>output.
     rbind (idx input (bi + 3)) (\<lambda>block3.
     rbind (stores output (vi + 10)
       [ucast (push_bit 6 (block2 AND 4095) OR drop_bit 58 block3), ucast (drop_bit 40 block3 AND 262143),
        ucast (drop_bit 22 block3 AND 262143), ucast (drop_bit 4 block3 AND 262143)]) (\<lambda>output.
     rbind (idx input (bi + 4)) (\<lambda>block4.
     rbind (stores output (vi + 14)
       [ucast (push_bit 14 (block3 AND 15) OR drop_bit 50 block4), ucast (drop_bit 32 block4 AND 262143),
        ucast (drop_bit 14 block4 AND 262143)]) (\<lambda>output.
     rbind (idx input (bi + 5)) (\<lambda>block5.
     rbind (stores output (vi + 17)
       [ucast (push_bit 4 (block4 AND 16383) OR drop_bit 60 block5), ucast (drop_bit 42 block5 AND 262143),
        ucast (drop_bit 24 block5 AND 262143), ucast (drop_bit 6 block5 AND 262143)]) (\<lambda>output.
     rbind (idx input (bi + 6)) (\<lambda>block6.
     rbind (stores output (vi + 21)
       [ucast (push_bit 12 (block5 AND 63) OR drop_bit 52 block6), ucast (drop_bit 34 block6 AND 262143),
        ucast (drop_bit 16 block6 AND 262143)]) (\<lambda>output.
     rbind (idx input (bi + 7)) (\<lambda>block7.
     rbind (stores output (vi + 24)
       [ucast (push_bit 2 (block6 AND 65535) OR drop_bit 62 block7), ucast (drop_bit 44 block7 AND 262143),
        ucast (drop_bit 26 block7 AND 262143), ucast (drop_bit 8 block7 AND 262143)]) (\<lambda>output.
     rbind (idx input (bi + 8)) (\<lambda>block8.
     rbind (stores output (vi + 28)
       [ucast (push_bit 10 (block7 AND 255) OR drop_bit 54 block8), ucast (drop_bit 36 block8 AND 262143),
        ucast (drop_bit 18 block8 AND 262143), ucast (block8 AND 262143)]) (\<lambda>output.
     Inr (bi + 9, output, vi + 32)))))))))))))))))))"

definition packed18_decode_u64_to_i32 :: "64 word list \<Rightarrow> nat \<Rightarrow> 32 word list \<Rightarrow> nat \<Rightarrow> nat \<Rightarrow> 32 word list res" where
  "packed18_decode_u64_to_i32 = decode_fast 0 9 32 packed18_u64_i32 packed18_u64_i32"

interpretation packed18_u64_i32: bulk_group packed18_u64_i32 64 18 9 32 "\<lambda>x. x" ucast
proof
  show "packed18_u64_i32 input bi out vi = Inr (bi + 9, patch out vi
      (map (ucast) (unpack 64 (\<lambda>i. input ! (bi + i)) 18 32)), vi + 32)"
    if "bi + 9 \<le> length input" "vi + 32 \<le> length out" for bi vi input out
    using that unfolding packed18_u64_i32_def and_masks
    by (simp add: stores_ok patch_fuse, intro patch_cong, simp add: unpack_def upt_rec,
        simp add: gather_in gather_over unpack_simps)
qed simp_all

lemma packed18_decode_u64_to_i32_ok [bulk_decode]:
  "bo + n * 9 \<le> length blocks \<Longrightarrow> vo + n * 32 \<le> length vals \<Longrightarrow>
   packed18_decode_u64_to_i32 blocks bo vals vo n = Inr (patch vals vo (map ucast (unpack 64 (\<lambda>i. blocks ! (bo + i)) 18 (n * 32))))"
  using packed18_u64_i32.decode_fast_ok [OF packed18_u64_i32.bulk_group_axioms, of bo n blocks vo vals] by (simp add: packed18_decode_u64_to_i32_def)

definition packed18_u8_i32 :: "8 word list \<Rightarrow> nat \<Rightarrow> 32 word list \<Rightarrow> nat \<Rightarrow> (nat \<times> 32 word list \<times> nat) res" where
  "packed18_u8_i32 input bi output vi =
     rbind (idx_as input bi) (\<lambda>byte0.
     rbind (idx_as input (bi + 1)) (\<lambda>byte1.
     rbind (idx_as input (bi + 2)) (\<lambda>byte2.
     rbind (stores output vi
       [(push_bit 10 byte0 OR push_bit 2 byte1) OR signed_drop_bit 6 byte2]) (\<lambda>output.
     rbind (idx_as input (bi + 3)) (\<lambda>byte3.
     rbind (idx_as input (bi + 4)) (\<lambda>byte4.
     rbind (stores output (vi + 1)
       [(push_bit 12 (byte2 AND 63) OR push_bit 4 byte3) OR signed_drop_bit 4 byte4]) (\<lambda>output.
     rbind (idx_as input (bi + 5)) (\<lambda>byte5.
     rbind (idx_as input (bi + 6)) (\<lambda>byte6.
     rbind (stores output (vi + 2)
       [(push_bit 14 (byte4 AND 15) OR push_bit 6 byte5) OR signed_drop_bit 2 byte6]) (\<lambda>output.
     rbind (idx_as input (bi + 7)) (\<lambda>byte7.
     rbind (idx_as input (bi + 8)) (\<lambda>byte8.
     rbind (stores output (vi + 3)
       [(push_bit 16 (byte6 AND 3) OR push_bit 8 byte7) OR byte8]) (\<lambda>output.
     Inr (bi + 9, output, vi + 4))))))))))))))"

definition packed18_decode_u8_to_i32 :: "8 word list \<Rightarrow> nat \<Rightarrow> 32 word list \<Rightarrow> nat \<Rightarrow> nat \<Rightarrow> 32 word list res" where
  "packed18_decode_u8_to_i32 = decode_loop packed18_u8_i32"

interpretation packed18_u8_i32: bulk_group packed18_u8_i32 8 18 9 4 ucast "\<lambda>x. x"
proof
  show "packed18_u8_i32 input bi out vi = Inr (bi + 9, patch out vi
      (map (\<lambda>x. x) (unpack 8 (\<lambda>i. ucast (input ! (bi + i))) 18 4)), vi + 4)"
    if "bi + 9 \<le> length input" "vi + 4 \<le> length out" for bi vi input out
    using that unfolding packed18_u8_i32_def and_masks
    by (simp add: stores_ok patch_fuse, intro patch_cong, simp add: unpack_def upt_rec,
        simp add: gather_in gather_over unpack_simps)
qed simp_all

lemma packed18_decode_u8_to_i32_ok [bulk_decode]:
  "bo + n * 9 \<le> length blocks \<Longrightarrow> vo + n * 4 \<le> length vals \<Longrightarrow>
   packed18_decode_u8_to_i32 blocks bo vals vo n = Inr (patch vals vo (unpack 8 (\<lambda>i. ucast (blocks ! (bo + i))) 18 (n * 4)))"
  using packed18_u8_i32.decode_loop_ok [of bo n blocks vo vals] by (simp add: packed18_decode_u8_to_i32_def)

section \<open>\<open>BulkOperationPacked19\<close>\<close>

definition packed19_u64_i64 :: "64 word list \<Rightarrow> nat \<Rightarrow> 64 word list \<Rightarrow> nat \<Rightarrow> (nat \<times> 64 word list \<times> nat) res" where
  "packed19_u64_i64 input bi output vi =
     rbind (idx input bi) (\<lambda>block0.
     rbind (stores output vi
       [drop_bit 45 block0, drop_bit 26 block0 AND 524287, drop_bit 7 block0 AND 524287]) (\<lambda>output.
     rbind (idx input (bi + 1)) (\<lambda>block1.
     rbind (stores output (vi + 3)
       [push_bit 12 (block0 AND 127) OR drop_bit 52 block1, drop_bit 33 block1 AND 524287,
        drop_bit 14 block1 AND 524287]) (\<lambda>output.
     rbind (idx input (bi + 2)) (\<lambda>block2.
     rbind (stores output (vi + 6)
       [push_bit 5 (block1 AND 16383) OR drop_bit 59 block2, drop_bit 40 block2 AND 524287,
        drop_bit 21 block2 AND 524287, drop_bit 2 block2 AND 524287]) (\<lambda>output.
     rbind (idx input (bi + 3)) (\<lambda>block3.
     rbind (stores output (vi + 10)
       [push_bit 17 (block2 AND 3) OR drop_bit 47 block3, drop_bit 28 block3 AND 524287,
        drop_bit 9 block3 AND 524287]) (\<lambda>output.
     rbind (idx input (bi + 4)) (\<lambda>block4.
     rbind (stores output (vi + 13)
       [push_bit 10 (block3 AND 511) OR drop_bit 54 block4, drop_bit 35 block4 AND 524287,
        drop_bit 16 block4 AND 524287]) (\<lambda>output.
     rbind (idx input (bi + 5)) (\<lambda>block5.
     rbind (stores output (vi + 16)
       [push_bit 3 (block4 AND 65535) OR drop_bit 61 block5, drop_bit 42 block5 AND 524287,
        drop_bit 23 block5 AND 524287, drop_bit 4 block5 AND 524287]) (\<lambda>output.
     rbind (idx input (bi + 6)) (\<lambda>block6.
     rbind (stores output (vi + 20)
       [push_bit 15 (block5 AND 15) OR drop_bit 49 block6, drop_bit 30 block6 AND 524287,
        drop_bit 11 block6 AND 524287]) (\<lambda>output.
     rbind (idx input (bi + 7)) (\<lambda>block7.
     rbind (stores output (vi + 23)
       [push_bit 8 (block6 AND 2047) OR drop_bit 56 block7, drop_bit 37 block7 AND 524287,
        drop_bit 18 block7 AND 524287]) (\<lambda>output.
     rbind (idx input (bi + 8)) (\<lambda>block8.
     rbind (stores output (vi + 26)
       [push_bit 1 (block7 AND 262143) OR drop_bit 63 block8, drop_bit 44 block8 AND 524287,
        drop_bit 25 block8 AND 524287, drop_bit 6 block8 AND 524287]) (\<lambda>output.
     rbind (idx input (bi + 9)) (\<lambda>block9.
     rbind (stores output (vi + 30)
       [push_bit 13 (block8 AND 63) OR drop_bit 51 block9, drop_bit 32 block9 AND 524287,
        drop_bit 13 block9 AND 524287]) (\<lambda>output.
     rbind (idx input (bi + 10)) (\<lambda>block10.
     rbind (stores output (vi + 33)
       [push_bit 6 (block9 AND 8191) OR drop_bit 58 block10, drop_bit 39 block10 AND 524287,
        drop_bit 20 block10 AND 524287, drop_bit 1 block10 AND 524287]) (\<lambda>output.
     rbind (idx input (bi + 11)) (\<lambda>block11.
     rbind (stores output (vi + 37)
       [push_bit 18 (block10 AND 1) OR drop_bit 46 block11, drop_bit 27 block11 AND 524287,
        drop_bit 8 block11 AND 524287]) (\<lambda>output.
     rbind (idx input (bi + 12)) (\<lambda>block12.
     rbind (stores output (vi + 40)
       [push_bit 11 (block11 AND 255) OR drop_bit 53 block12, drop_bit 34 block12 AND 524287,
        drop_bit 15 block12 AND 524287]) (\<lambda>output.
     rbind (idx input (bi + 13)) (\<lambda>block13.
     rbind (stores output (vi + 43)
       [push_bit 4 (block12 AND 32767) OR drop_bit 60 block13, drop_bit 41 block13 AND 524287,
        drop_bit 22 block13 AND 524287, drop_bit 3 block13 AND 524287]) (\<lambda>output.
     rbind (idx input (bi + 14)) (\<lambda>block14.
     rbind (stores output (vi + 47)
       [push_bit 16 (block13 AND 7) OR drop_bit 48 block14, drop_bit 29 block14 AND 524287,
        drop_bit 10 block14 AND 524287]) (\<lambda>output.
     rbind (idx input (bi + 15)) (\<lambda>block15.
     rbind (stores output (vi + 50)
       [push_bit 9 (block14 AND 1023) OR drop_bit 55 block15, drop_bit 36 block15 AND 524287,
        drop_bit 17 block15 AND 524287]) (\<lambda>output.
     rbind (idx input (bi + 16)) (\<lambda>block16.
     rbind (stores output (vi + 53)
       [push_bit 2 (block15 AND 131071) OR drop_bit 62 block16, drop_bit 43 block16 AND 524287,
        drop_bit 24 block16 AND 524287, drop_bit 5 block16 AND 524287]) (\<lambda>output.
     rbind (idx input (bi + 17)) (\<lambda>block17.
     rbind (stores output (vi + 57)
       [push_bit 14 (block16 AND 31) OR drop_bit 50 block17, drop_bit 31 block17 AND 524287,
        drop_bit 12 block17 AND 524287]) (\<lambda>output.
     rbind (idx input (bi + 18)) (\<lambda>block18.
     rbind (stores output (vi + 60)
       [push_bit 7 (block17 AND 4095) OR drop_bit 57 block18, drop_bit 38 block18 AND 524287,
        drop_bit 19 block18 AND 524287, block18 AND 524287]) (\<lambda>output.
     Inr (bi + 19, output, vi + 64)))))))))))))))))))))))))))))))))))))))"

definition packed19_decode_u64_to_i64 :: "64 word list \<Rightarrow> nat \<Rightarrow> 64 word list \<Rightarrow> nat \<Rightarrow> nat \<Rightarrow> 64 word list res" where
  "packed19_decode_u64_to_i64 = decode_fast 0 19 64 packed19_u64_i64 packed19_u64_i64"

interpretation packed19_u64_i64: bulk_group packed19_u64_i64 64 19 19 64 "\<lambda>x. x" "\<lambda>x. x"
proof
  show "packed19_u64_i64 input bi out vi = Inr (bi + 19, patch out vi
      (map (\<lambda>x. x) (unpack 64 (\<lambda>i. input ! (bi + i)) 19 64)), vi + 64)"
    if "bi + 19 \<le> length input" "vi + 64 \<le> length out" for bi vi input out
    using that unfolding packed19_u64_i64_def and_masks
    by (simp add: stores_ok patch_fuse, intro patch_cong, simp add: unpack_def upt_rec,
        simp add: gather_in gather_over unpack_simps)
qed simp_all

lemma packed19_decode_u64_to_i64_ok [bulk_decode]:
  "bo + n * 19 \<le> length blocks \<Longrightarrow> vo + n * 64 \<le> length vals \<Longrightarrow>
   packed19_decode_u64_to_i64 blocks bo vals vo n = Inr (patch vals vo (unpack 64 (\<lambda>i. blocks ! (bo + i)) 19 (n * 64)))"
  using packed19_u64_i64.decode_fast_ok [OF packed19_u64_i64.bulk_group_axioms, of bo n blocks vo vals] by (simp add: packed19_decode_u64_to_i64_def)

definition packed19_u8_i64 :: "8 word list \<Rightarrow> nat \<Rightarrow> 64 word list \<Rightarrow> nat \<Rightarrow> (nat \<times> 64 word list \<times> nat) res" where
  "packed19_u8_i64 input bi output vi =
     rbind (idx_as input bi) (\<lambda>byte0.
     rbind (idx_as input (bi + 1)) (\<lambda>byte1.
     rbind (idx_as input (bi + 2)) (\<lambda>byte2.
     rbind (stores output vi
       [(push_bit 11 byte0 OR push_bit 3 byte1) OR signed_drop_bit 5 byte2]) (\<lambda>output.
     rbind (idx_as input (bi + 3)) (\<lambda>byte3.
     rbind (idx_as input (bi + 4)) (\<lambda>byte4.
     rbind (stores output (vi + 1)
       [(push_bit 14 (byte2 AND 31) OR push_bit 6 byte3) OR signed_drop_bit 2 byte4]) (\<lambda>output.
     rbind (idx_as input (bi + 5)) (\<lambda>byte5.
     rbind (idx_as input (bi + 6)) (\<lambda>byte6.
     rbind (idx_as input (bi + 7)) (\<lambda>byte7.
     rbind (stores output (vi + 2)
       [((push_bit 17 (byte4 AND 3) OR push_bit 9 byte5) OR push_bit 1 byte6) OR signed_drop_bit 7 byte7]) (\<lambda>output.
     rbind (idx_as input (bi + 8)) (\<lambda>byte8.
     rbind (idx_as input (bi + 9)) (\<lambda>byte9.
     rbind (stores output (vi + 3)
       [(push_bit 12 (byte7 AND 127) OR push_bit 4 byte8) OR signed_drop_bit 4 byte9]) (\<lambda>output.
     rbind (idx_as input (bi + 10)) (\<lambda>byte10.
     rbind (idx_as input (bi + 11)) (\<lambda>byte11.
     rbind (stores output (vi + 4)
       [(push_bit 15 (byte9 AND 15) OR push_bit 7 byte10) OR signed_drop_bit 1 byte11]) (\<lambda>output.
     rbind (idx_as input (bi + 12)) (\<lambda>byte12.
     rbind (idx_as input (bi + 13)) (\<lambda>byte13.
     rbind (idx_as input (bi + 14)) (\<lambda>byte14.
     rbind (stores output (vi + 5)
       [((push_bit 18 (byte11 AND 1) OR push_bit 10 byte12) OR push_bit 2 byte13) OR signed_drop_bit 6 byte14]) (\<lambda>output.
     rbind (idx_as input (bi + 15)) (\<lambda>byte15.
     rbind (idx_as input (bi + 16)) (\<lambda>byte16.
     rbind (stores output (vi + 6)
       [(push_bit 13 (byte14 AND 63) OR push_bit 5 byte15) OR signed_drop_bit 3 byte16]) (\<lambda>output.
     rbind (idx_as input (bi + 17)) (\<lambda>byte17.
     rbind (idx_as input (bi + 18)) (\<lambda>byte18.
     rbind (stores output (vi + 7)
       [(push_bit 16 (byte16 AND 7) OR push_bit 8 byte17) OR byte18]) (\<lambda>output.
     Inr (bi + 19, output, vi + 8))))))))))))))))))))))))))))"

definition packed19_decode_u8_to_i64 :: "8 word list \<Rightarrow> nat \<Rightarrow> 64 word list \<Rightarrow> nat \<Rightarrow> nat \<Rightarrow> 64 word list res" where
  "packed19_decode_u8_to_i64 = decode_fast 0 19 8 packed19_u8_i64 packed19_u8_i64"

interpretation packed19_u8_i64: bulk_group packed19_u8_i64 8 19 19 8 ucast "\<lambda>x. x"
proof
  show "packed19_u8_i64 input bi out vi = Inr (bi + 19, patch out vi
      (map (\<lambda>x. x) (unpack 8 (\<lambda>i. ucast (input ! (bi + i))) 19 8)), vi + 8)"
    if "bi + 19 \<le> length input" "vi + 8 \<le> length out" for bi vi input out
    using that unfolding packed19_u8_i64_def and_masks
    by (simp add: stores_ok patch_fuse, intro patch_cong, simp add: unpack_def upt_rec,
        simp add: gather_in gather_over unpack_simps)
qed simp_all

lemma packed19_decode_u8_to_i64_ok [bulk_decode]:
  "bo + n * 19 \<le> length blocks \<Longrightarrow> vo + n * 8 \<le> length vals \<Longrightarrow>
   packed19_decode_u8_to_i64 blocks bo vals vo n = Inr (patch vals vo (unpack 8 (\<lambda>i. ucast (blocks ! (bo + i))) 19 (n * 8)))"
  using packed19_u8_i64.decode_fast_ok [OF packed19_u8_i64.bulk_group_axioms, of bo n blocks vo vals] by (simp add: packed19_decode_u8_to_i64_def)

definition packed19_u64_i32 :: "64 word list \<Rightarrow> nat \<Rightarrow> 32 word list \<Rightarrow> nat \<Rightarrow> (nat \<times> 32 word list \<times> nat) res" where
  "packed19_u64_i32 input bi output vi =
     rbind (idx input bi) (\<lambda>block0.
     rbind (stores output vi
       [ucast (drop_bit 45 block0), ucast (drop_bit 26 block0 AND 524287),
        ucast (drop_bit 7 block0 AND 524287)]) (\<lambda>output.
     rbind (idx input (bi + 1)) (\<lambda>block1.
     rbind (stores output (vi + 3)
       [ucast (push_bit 12 (block0 AND 127) OR drop_bit 52 block1), ucast (drop_bit 33 block1 AND 524287),
        ucast (drop_bit 14 block1 AND 524287)]) (\<lambda>output.
     rbind (idx input (bi + 2)) (\<lambda>block2.
     rbind (stores output (vi + 6)
       [ucast (push_bit 5 (block1 AND 16383) OR drop_bit 59 block2), ucast (drop_bit 40 block2 AND 524287),
        ucast (drop_bit 21 block2 AND 524287), ucast (drop_bit 2 block2 AND 524287)]) (\<lambda>output.
     rbind (idx input (bi + 3)) (\<lambda>block3.
     rbind (stores output (vi + 10)
       [ucast (push_bit 17 (block2 AND 3) OR drop_bit 47 block3), ucast (drop_bit 28 block3 AND 524287),
        ucast (drop_bit 9 block3 AND 524287)]) (\<lambda>output.
     rbind (idx input (bi + 4)) (\<lambda>block4.
     rbind (stores output (vi + 13)
       [ucast (push_bit 10 (block3 AND 511) OR drop_bit 54 block4), ucast (drop_bit 35 block4 AND 524287),
        ucast (drop_bit 16 block4 AND 524287)]) (\<lambda>output.
     rbind (idx input (bi + 5)) (\<lambda>block5.
     rbind (stores output (vi + 16)
       [ucast (push_bit 3 (block4 AND 65535) OR drop_bit 61 block5), ucast (drop_bit 42 block5 AND 524287),
        ucast (drop_bit 23 block5 AND 524287), ucast (drop_bit 4 block5 AND 524287)]) (\<lambda>output.
     rbind (idx input (bi + 6)) (\<lambda>block6.
     rbind (stores output (vi + 20)
       [ucast (push_bit 15 (block5 AND 15) OR drop_bit 49 block6), ucast (drop_bit 30 block6 AND 524287),
        ucast (drop_bit 11 block6 AND 524287)]) (\<lambda>output.
     rbind (idx input (bi + 7)) (\<lambda>block7.
     rbind (stores output (vi + 23)
       [ucast (push_bit 8 (block6 AND 2047) OR drop_bit 56 block7), ucast (drop_bit 37 block7 AND 524287),
        ucast (drop_bit 18 block7 AND 524287)]) (\<lambda>output.
     rbind (idx input (bi + 8)) (\<lambda>block8.
     rbind (stores output (vi + 26)
       [ucast (push_bit 1 (block7 AND 262143) OR drop_bit 63 block8), ucast (drop_bit 44 block8 AND 524287),
        ucast (drop_bit 25 block8 AND 524287), ucast (drop_bit 6 block8 AND 524287)]) (\<lambda>output.
     rbind (idx input (bi + 9)) (\<lambda>block9.
     rbind (stores output (vi + 30)
       [ucast (push_bit 13 (block8 AND 63) OR drop_bit 51 block9), ucast (drop_bit 32 block9 AND 524287),
        ucast (drop_bit 13 block9 AND 524287)]) (\<lambda>output.
     rbind (idx input (bi + 10)) (\<lambda>block10.
     rbind (stores output (vi + 33)
       [ucast (push_bit 6 (block9 AND 8191) OR drop_bit 58 block10), ucast (drop_bit 39 block10 AND 524287),
        ucast (drop_bit 20 block10 AND 524287), ucast (drop_bit 1 block10 AND 524287)]) (\<lambda>output.
     rbind (idx input (bi + 11)) (\<lambda>block11.
     rbind (stores output (vi + 37)
       [ucast (push_bit 18 (block10 AND 1) OR drop_bit 46 block11), ucast (drop_bit 27 block11 AND 524287),
        ucast (drop_bit 8 block11 AND 524287)]) (\<lambda>output.
     rbind (idx input (bi + 12)) (\<lambda>block12.
     rbind (stores output (vi + 40)
       [ucast (push_bit 11 (block11 AND 255) OR drop_bit 53 block12),
        ucast (drop_bit 34 block12 AND 524287), ucast (drop_bit 15 block12 AND 524287)]) (\<lambda>output.
     rbind (idx input (bi + 13)) (\<lambda>block13.
     rbind (stores output (vi + 43)
       [ucast (push_bit 4 (block12 AND 32767) OR drop_bit 60 block13),
        ucast (drop_bit 41 block13 AND 524287), ucast (drop_bit 22 block13 AND 524287),
        ucast (drop_bit 3 block13 AND 524287)]) (\<lambda>output.
     rbind (idx input (bi + 14)) (\<lambda>block14.
     rbind (stores output (vi + 47)
       [ucast (push_bit 16 (block13 AND 7) OR drop_bit 48 block14), ucast (drop_bit 29 block14 AND 524287),
        ucast (drop_bit 10 block14 AND 524287)]) (\<lambda>output.
     rbind (idx input (bi + 15)) (\<lambda>block15.
     rbind (stores output (vi + 50)
       [ucast (push_bit 9 (block14 AND 1023) OR drop_bit 55 block15),
        ucast (drop_bit 36 block15 AND 524287), ucast (drop_bit 17 block15 AND 524287)]) (\<lambda>output.
     rbind (idx input (bi + 16)) (\<lambda>block16.
     rbind (stores output (vi + 53)
       [ucast (push_bit 2 (block15 AND 131071) OR drop_bit 62 block16),
        ucast (drop_bit 43 block16 AND 524287), ucast (drop_bit 24 block16 AND 524287),
        ucast (drop_bit 5 block16 AND 524287)]) (\<lambda>output.
     rbind (idx input (bi + 17)) (\<lambda>block17.
     rbind (stores output (vi + 57)
       [ucast (push_bit 14 (block16 AND 31) OR drop_bit 50 block17), ucast (drop_bit 31 block17 AND 524287),
        ucast (drop_bit 12 block17 AND 524287)]) (\<lambda>output.
     rbind (idx input (bi + 18)) (\<lambda>block18.
     rbind (stores output (vi + 60)
       [ucast (push_bit 7 (block17 AND 4095) OR drop_bit 57 block18),
        ucast (drop_bit 38 block18 AND 524287), ucast (drop_bit 19 block18 AND 524287),
        ucast (block18 AND 524287)]) (\<lambda>output.
     Inr (bi + 19, output, vi + 64)))))))))))))))))))))))))))))))))))))))"

definition packed19_decode_u64_to_i32 :: "64 word list \<Rightarrow> nat \<Rightarrow> 32 word list \<Rightarrow> nat \<Rightarrow> nat \<Rightarrow> 32 word list res" where
  "packed19_decode_u64_to_i32 = decode_fast 0 19 64 packed19_u64_i32 packed19_u64_i32"

interpretation packed19_u64_i32: bulk_group packed19_u64_i32 64 19 19 64 "\<lambda>x. x" ucast
proof
  show "packed19_u64_i32 input bi out vi = Inr (bi + 19, patch out vi
      (map (ucast) (unpack 64 (\<lambda>i. input ! (bi + i)) 19 64)), vi + 64)"
    if "bi + 19 \<le> length input" "vi + 64 \<le> length out" for bi vi input out
    using that unfolding packed19_u64_i32_def and_masks
    by (simp add: stores_ok patch_fuse, intro patch_cong, simp add: unpack_def upt_rec,
        simp add: gather_in gather_over unpack_simps)
qed simp_all

lemma packed19_decode_u64_to_i32_ok [bulk_decode]:
  "bo + n * 19 \<le> length blocks \<Longrightarrow> vo + n * 64 \<le> length vals \<Longrightarrow>
   packed19_decode_u64_to_i32 blocks bo vals vo n = Inr (patch vals vo (map ucast (unpack 64 (\<lambda>i. blocks ! (bo + i)) 19 (n * 64))))"
  using packed19_u64_i32.decode_fast_ok [OF packed19_u64_i32.bulk_group_axioms, of bo n blocks vo vals] by (simp add: packed19_decode_u64_to_i32_def)

definition packed19_u8_i32 :: "8 word list \<Rightarrow> nat \<Rightarrow> 32 word list \<Rightarrow> nat \<Rightarrow> (nat \<times> 32 word list \<times> nat) res" where
  "packed19_u8_i32 input bi output vi =
     rbind (idx_as input bi) (\<lambda>byte0.
     rbind (idx_as input (bi + 1)) (\<lambda>byte1.
     rbind (idx_as input (bi + 2)) (\<lambda>byte2.
     rbind (stores output vi
       [(push_bit 11 byte0 OR push_bit 3 byte1) OR signed_drop_bit 5 byte2]) (\<lambda>output.
     rbind (idx_as input (bi + 3)) (\<lambda>byte3.
     rbind (idx_as input (bi + 4)) (\<lambda>byte4.
     rbind (stores output (vi + 1)
       [(push_bit 14 (byte2 AND 31) OR push_bit 6 byte3) OR signed_drop_bit 2 byte4]) (\<lambda>output.
     rbind (idx_as input (bi + 5)) (\<lambda>byte5.
     rbind (idx_as input (bi + 6)) (\<lambda>byte6.
     rbind (idx_as input (bi + 7)) (\<lambda>byte7.
     rbind (stores output (vi + 2)
       [((push_bit 17 (byte4 AND 3) OR push_bit 9 byte5) OR push_bit 1 byte6) OR signed_drop_bit 7 byte7]) (\<lambda>output.
     rbind (idx_as input (bi + 8)) (\<lambda>byte8.
     rbind (idx_as input (bi + 9)) (\<lambda>byte9.
     rbind (stores output (vi + 3)
       [(push_bit 12 (byte7 AND 127) OR push_bit 4 byte8) OR signed_drop_bit 4 byte9]) (\<lambda>output.
     rbind (idx_as input (bi + 10)) (\<lambda>byte10.
     rbind (idx_as input (bi + 11)) (\<lambda>byte11.
     rbind (stores output (vi + 4)
       [(push_bit 15 (byte9 AND 15) OR push_bit 7 byte10) OR signed_drop_bit 1 byte11]) (\<lambda>output.
     rbind (idx_as input (bi + 12)) (\<lambda>byte12.
     rbind (idx_as input (bi + 13)) (\<lambda>byte13.
     rbind (idx_as input (bi + 14)) (\<lambda>byte14.
     rbind (stores output (vi + 5)
       [((push_bit 18 (byte11 AND 1) OR push_bit 10 byte12) OR push_bit 2 byte13) OR signed_drop_bit 6 byte14]) (\<lambda>output.
     rbind (idx_as input (bi + 15)) (\<lambda>byte15.
     rbind (idx_as input (bi + 16)) (\<lambda>byte16.
     rbind (stores output (vi + 6)
       [(push_bit 13 (byte14 AND 63) OR push_bit 5 byte15) OR signed_drop_bit 3 byte16]) (\<lambda>output.
     rbind (idx_as input (bi + 17)) (\<lambda>byte17.
     rbind (idx_as input (bi + 18)) (\<lambda>byte18.
     rbind (stores output (vi + 7)
       [(push_bit 16 (byte16 AND 7) OR push_bit 8 byte17) OR byte18]) (\<lambda>output.
     Inr (bi + 19, output, vi + 8))))))))))))))))))))))))))))"

definition packed19_decode_u8_to_i32 :: "8 word list \<Rightarrow> nat \<Rightarrow> 32 word list \<Rightarrow> nat \<Rightarrow> nat \<Rightarrow> 32 word list res" where
  "packed19_decode_u8_to_i32 = decode_fast 0 19 8 packed19_u8_i32 packed19_u8_i32"

interpretation packed19_u8_i32: bulk_group packed19_u8_i32 8 19 19 8 ucast "\<lambda>x. x"
proof
  show "packed19_u8_i32 input bi out vi = Inr (bi + 19, patch out vi
      (map (\<lambda>x. x) (unpack 8 (\<lambda>i. ucast (input ! (bi + i))) 19 8)), vi + 8)"
    if "bi + 19 \<le> length input" "vi + 8 \<le> length out" for bi vi input out
    using that unfolding packed19_u8_i32_def and_masks
    by (simp add: stores_ok patch_fuse, intro patch_cong, simp add: unpack_def upt_rec,
        simp add: gather_in gather_over unpack_simps)
qed simp_all

lemma packed19_decode_u8_to_i32_ok [bulk_decode]:
  "bo + n * 19 \<le> length blocks \<Longrightarrow> vo + n * 8 \<le> length vals \<Longrightarrow>
   packed19_decode_u8_to_i32 blocks bo vals vo n = Inr (patch vals vo (unpack 8 (\<lambda>i. ucast (blocks ! (bo + i))) 19 (n * 8)))"
  using packed19_u8_i32.decode_fast_ok [OF packed19_u8_i32.bulk_group_axioms, of bo n blocks vo vals] by (simp add: packed19_decode_u8_to_i32_def)

end
