(* ===== verification/Packed_Dec_D.thy ===== *)
theory Packed_Dec_D
  imports Packed_Bits
begin

text \<open>
  The decoders of \<^verbatim>\<open>BulkOperationPacked20\<close> to \<^verbatim>\<open>BulkOperationPacked24\<close>
  (\<open>util/packed/bulk_operation_packed<n>.rs\<close>). For each of the four decoders of a width: the
  group of reads and writes of one iteration, statement by statement, the decoder itself as
  the loop over its groups, and the proof that a group extracts the values of that width.
\<close>

unbundle bit_operations_syntax

section \<open>\<open>BulkOperationPacked20\<close>\<close>

definition packed20_u64_i64 :: "64 word list \<Rightarrow> nat \<Rightarrow> 64 word list \<Rightarrow> nat \<Rightarrow> (nat \<times> 64 word list \<times> nat) res" where
  "packed20_u64_i64 input bi output vi =
     rbind (idx input bi) (\<lambda>block0.
     rbind (stores output vi
       [drop_bit 44 block0, drop_bit 24 block0 AND 1048575, drop_bit 4 block0 AND 1048575]) (\<lambda>output.
     rbind (idx input (bi + 1)) (\<lambda>block1.
     rbind (stores output (vi + 3)
       [push_bit 16 (block0 AND 15) OR drop_bit 48 block1, drop_bit 28 block1 AND 1048575,
        drop_bit 8 block1 AND 1048575]) (\<lambda>output.
     rbind (idx input (bi + 2)) (\<lambda>block2.
     rbind (stores output (vi + 6)
       [push_bit 12 (block1 AND 255) OR drop_bit 52 block2, drop_bit 32 block2 AND 1048575,
        drop_bit 12 block2 AND 1048575]) (\<lambda>output.
     rbind (idx input (bi + 3)) (\<lambda>block3.
     rbind (stores output (vi + 9)
       [push_bit 8 (block2 AND 4095) OR drop_bit 56 block3, drop_bit 36 block3 AND 1048575,
        drop_bit 16 block3 AND 1048575]) (\<lambda>output.
     rbind (idx input (bi + 4)) (\<lambda>block4.
     rbind (stores output (vi + 12)
       [push_bit 4 (block3 AND 65535) OR drop_bit 60 block4, drop_bit 40 block4 AND 1048575,
        drop_bit 20 block4 AND 1048575, block4 AND 1048575]) (\<lambda>output.
     Inr (bi + 5, output, vi + 16)))))))))))"

definition packed20_decode_u64_to_i64 :: "64 word list \<Rightarrow> nat \<Rightarrow> 64 word list \<Rightarrow> nat \<Rightarrow> nat \<Rightarrow> 64 word list res" where
  "packed20_decode_u64_to_i64 = decode_fast 0 5 16 packed20_u64_i64 packed20_u64_i64"

interpretation packed20_u64_i64: bulk_group packed20_u64_i64 64 20 5 16 "\<lambda>x. x" "\<lambda>x. x"
proof
  show "packed20_u64_i64 input bi out vi = Inr (bi + 5, patch out vi
      (map (\<lambda>x. x) (unpack 64 (\<lambda>i. input ! (bi + i)) 20 16)), vi + 16)"
    if "bi + 5 \<le> length input" "vi + 16 \<le> length out" for bi vi input out
    using that unfolding packed20_u64_i64_def and_masks
    by (simp add: stores_ok patch_fuse, intro patch_cong, simp add: unpack_def upt_rec,
        simp add: gather_in gather_over unpack_simps)
qed simp_all

lemma packed20_decode_u64_to_i64_ok [bulk_decode]:
  "bo + n * 5 \<le> length blocks \<Longrightarrow> vo + n * 16 \<le> length vals \<Longrightarrow>
   packed20_decode_u64_to_i64 blocks bo vals vo n = Inr (patch vals vo (unpack 64 (\<lambda>i. blocks ! (bo + i)) 20 (n * 16)))"
  using packed20_u64_i64.decode_fast_ok [OF packed20_u64_i64.bulk_group_axioms, of bo n blocks vo vals] by (simp add: packed20_decode_u64_to_i64_def)

definition packed20_u8_i64 :: "8 word list \<Rightarrow> nat \<Rightarrow> 64 word list \<Rightarrow> nat \<Rightarrow> (nat \<times> 64 word list \<times> nat) res" where
  "packed20_u8_i64 input bi output vi =
     rbind (idx_as input bi) (\<lambda>byte0.
     rbind (idx_as input (bi + 1)) (\<lambda>byte1.
     rbind (idx_as input (bi + 2)) (\<lambda>byte2.
     rbind (stores output vi
       [(push_bit 12 byte0 OR push_bit 4 byte1) OR signed_drop_bit 4 byte2]) (\<lambda>output.
     rbind (idx_as input (bi + 3)) (\<lambda>byte3.
     rbind (idx_as input (bi + 4)) (\<lambda>byte4.
     rbind (stores output (vi + 1)
       [(push_bit 16 (byte2 AND 15) OR push_bit 8 byte3) OR byte4]) (\<lambda>output.
     Inr (bi + 5, output, vi + 2))))))))"

definition packed20_decode_u8_to_i64 :: "8 word list \<Rightarrow> nat \<Rightarrow> 64 word list \<Rightarrow> nat \<Rightarrow> nat \<Rightarrow> 64 word list res" where
  "packed20_decode_u8_to_i64 = decode_loop packed20_u8_i64"

interpretation packed20_u8_i64: bulk_group packed20_u8_i64 8 20 5 2 ucast "\<lambda>x. x"
proof
  show "packed20_u8_i64 input bi out vi = Inr (bi + 5, patch out vi
      (map (\<lambda>x. x) (unpack 8 (\<lambda>i. ucast (input ! (bi + i))) 20 2)), vi + 2)"
    if "bi + 5 \<le> length input" "vi + 2 \<le> length out" for bi vi input out
    using that unfolding packed20_u8_i64_def and_masks
    by (simp add: stores_ok patch_fuse, intro patch_cong, simp add: unpack_def upt_rec,
        simp add: gather_in gather_over unpack_simps)
qed simp_all

lemma packed20_decode_u8_to_i64_ok [bulk_decode]:
  "bo + n * 5 \<le> length blocks \<Longrightarrow> vo + n * 2 \<le> length vals \<Longrightarrow>
   packed20_decode_u8_to_i64 blocks bo vals vo n = Inr (patch vals vo (unpack 8 (\<lambda>i. ucast (blocks ! (bo + i))) 20 (n * 2)))"
  using packed20_u8_i64.decode_loop_ok [of bo n blocks vo vals] by (simp add: packed20_decode_u8_to_i64_def)

definition packed20_u64_i32 :: "64 word list \<Rightarrow> nat \<Rightarrow> 32 word list \<Rightarrow> nat \<Rightarrow> (nat \<times> 32 word list \<times> nat) res" where
  "packed20_u64_i32 input bi output vi =
     rbind (idx input bi) (\<lambda>block0.
     rbind (stores output vi
       [ucast (drop_bit 44 block0), ucast (drop_bit 24 block0 AND 1048575),
        ucast (drop_bit 4 block0 AND 1048575)]) (\<lambda>output.
     rbind (idx input (bi + 1)) (\<lambda>block1.
     rbind (stores output (vi + 3)
       [ucast (push_bit 16 (block0 AND 15) OR drop_bit 48 block1), ucast (drop_bit 28 block1 AND 1048575),
        ucast (drop_bit 8 block1 AND 1048575)]) (\<lambda>output.
     rbind (idx input (bi + 2)) (\<lambda>block2.
     rbind (stores output (vi + 6)
       [ucast (push_bit 12 (block1 AND 255) OR drop_bit 52 block2), ucast (drop_bit 32 block2 AND 1048575),
        ucast (drop_bit 12 block2 AND 1048575)]) (\<lambda>output.
     rbind (idx input (bi + 3)) (\<lambda>block3.
     rbind (stores output (vi + 9)
       [ucast (push_bit 8 (block2 AND 4095) OR drop_bit 56 block3), ucast (drop_bit 36 block3 AND 1048575),
        ucast (drop_bit 16 block3 AND 1048575)]) (\<lambda>output.
     rbind (idx input (bi + 4)) (\<lambda>block4.
     rbind (stores output (vi + 12)
       [ucast (push_bit 4 (block3 AND 65535) OR drop_bit 60 block4), ucast (drop_bit 40 block4 AND 1048575),
        ucast (drop_bit 20 block4 AND 1048575), ucast (block4 AND 1048575)]) (\<lambda>output.
     Inr (bi + 5, output, vi + 16)))))))))))"

definition packed20_decode_u64_to_i32 :: "64 word list \<Rightarrow> nat \<Rightarrow> 32 word list \<Rightarrow> nat \<Rightarrow> nat \<Rightarrow> 32 word list res" where
  "packed20_decode_u64_to_i32 = decode_fast 0 5 16 packed20_u64_i32 packed20_u64_i32"

interpretation packed20_u64_i32: bulk_group packed20_u64_i32 64 20 5 16 "\<lambda>x. x" ucast
proof
  show "packed20_u64_i32 input bi out vi = Inr (bi + 5, patch out vi
      (map (ucast) (unpack 64 (\<lambda>i. input ! (bi + i)) 20 16)), vi + 16)"
    if "bi + 5 \<le> length input" "vi + 16 \<le> length out" for bi vi input out
    using that unfolding packed20_u64_i32_def and_masks
    by (simp add: stores_ok patch_fuse, intro patch_cong, simp add: unpack_def upt_rec,
        simp add: gather_in gather_over unpack_simps)
qed simp_all

lemma packed20_decode_u64_to_i32_ok [bulk_decode]:
  "bo + n * 5 \<le> length blocks \<Longrightarrow> vo + n * 16 \<le> length vals \<Longrightarrow>
   packed20_decode_u64_to_i32 blocks bo vals vo n = Inr (patch vals vo (map ucast (unpack 64 (\<lambda>i. blocks ! (bo + i)) 20 (n * 16))))"
  using packed20_u64_i32.decode_fast_ok [OF packed20_u64_i32.bulk_group_axioms, of bo n blocks vo vals] by (simp add: packed20_decode_u64_to_i32_def)

definition packed20_u8_i32 :: "8 word list \<Rightarrow> nat \<Rightarrow> 32 word list \<Rightarrow> nat \<Rightarrow> (nat \<times> 32 word list \<times> nat) res" where
  "packed20_u8_i32 input bi output vi =
     rbind (idx_as input bi) (\<lambda>byte0.
     rbind (idx_as input (bi + 1)) (\<lambda>byte1.
     rbind (idx_as input (bi + 2)) (\<lambda>byte2.
     rbind (stores output vi
       [(push_bit 12 byte0 OR push_bit 4 byte1) OR signed_drop_bit 4 byte2]) (\<lambda>output.
     rbind (idx_as input (bi + 3)) (\<lambda>byte3.
     rbind (idx_as input (bi + 4)) (\<lambda>byte4.
     rbind (stores output (vi + 1)
       [(push_bit 16 (byte2 AND 15) OR push_bit 8 byte3) OR byte4]) (\<lambda>output.
     Inr (bi + 5, output, vi + 2))))))))"

definition packed20_decode_u8_to_i32 :: "8 word list \<Rightarrow> nat \<Rightarrow> 32 word list \<Rightarrow> nat \<Rightarrow> nat \<Rightarrow> 32 word list res" where
  "packed20_decode_u8_to_i32 = decode_loop packed20_u8_i32"

interpretation packed20_u8_i32: bulk_group packed20_u8_i32 8 20 5 2 ucast "\<lambda>x. x"
proof
  show "packed20_u8_i32 input bi out vi = Inr (bi + 5, patch out vi
      (map (\<lambda>x. x) (unpack 8 (\<lambda>i. ucast (input ! (bi + i))) 20 2)), vi + 2)"
    if "bi + 5 \<le> length input" "vi + 2 \<le> length out" for bi vi input out
    using that unfolding packed20_u8_i32_def and_masks
    by (simp add: stores_ok patch_fuse, intro patch_cong, simp add: unpack_def upt_rec,
        simp add: gather_in gather_over unpack_simps)
qed simp_all

lemma packed20_decode_u8_to_i32_ok [bulk_decode]:
  "bo + n * 5 \<le> length blocks \<Longrightarrow> vo + n * 2 \<le> length vals \<Longrightarrow>
   packed20_decode_u8_to_i32 blocks bo vals vo n = Inr (patch vals vo (unpack 8 (\<lambda>i. ucast (blocks ! (bo + i))) 20 (n * 2)))"
  using packed20_u8_i32.decode_loop_ok [of bo n blocks vo vals] by (simp add: packed20_decode_u8_to_i32_def)

section \<open>\<open>BulkOperationPacked21\<close>\<close>

definition packed21_u64_i64 :: "64 word list \<Rightarrow> nat \<Rightarrow> 64 word list \<Rightarrow> nat \<Rightarrow> (nat \<times> 64 word list \<times> nat) res" where
  "packed21_u64_i64 input bi output vi =
     rbind (idx input bi) (\<lambda>block0.
     rbind (stores output vi
       [drop_bit 43 block0, drop_bit 22 block0 AND 2097151, drop_bit 1 block0 AND 2097151]) (\<lambda>output.
     rbind (idx input (bi + 1)) (\<lambda>block1.
     rbind (stores output (vi + 3)
       [push_bit 20 (block0 AND 1) OR drop_bit 44 block1, drop_bit 23 block1 AND 2097151,
        drop_bit 2 block1 AND 2097151]) (\<lambda>output.
     rbind (idx input (bi + 2)) (\<lambda>block2.
     rbind (stores output (vi + 6)
       [push_bit 19 (block1 AND 3) OR drop_bit 45 block2, drop_bit 24 block2 AND 2097151,
        drop_bit 3 block2 AND 2097151]) (\<lambda>output.
     rbind (idx input (bi + 3)) (\<lambda>block3.
     rbind (stores output (vi + 9)
       [push_bit 18 (block2 AND 7) OR drop_bit 46 block3, drop_bit 25 block3 AND 2097151,
        drop_bit 4 block3 AND 2097151]) (\<lambda>output.
     rbind (idx input (bi + 4)) (\<lambda>block4.
     rbind (stores output (vi + 12)
       [push_bit 17 (block3 AND 15) OR drop_bit 47 block4, drop_bit 26 block4 AND 2097151,
        drop_bit 5 block4 AND 2097151]) (\<lambda>output.
     rbind (idx input (bi + 5)) (\<lambda>block5.
     rbind (stores output (vi + 15)
       [push_bit 16 (block4 AND 31) OR drop_bit 48 block5, drop_bit 27 block5 AND 2097151,
        drop_bit 6 block5 AND 2097151]) (\<lambda>output.
     rbind (idx input (bi + 6)) (\<lambda>block6.
     rbind (stores output (vi + 18)
       [push_bit 15 (block5 AND 63) OR drop_bit 49 block6, drop_bit 28 block6 AND 2097151,
        drop_bit 7 block6 AND 2097151]) (\<lambda>output.
     rbind (idx input (bi + 7)) (\<lambda>block7.
     rbind (stores output (vi + 21)
       [push_bit 14 (block6 AND 127) OR drop_bit 50 block7, drop_bit 29 block7 AND 2097151,
        drop_bit 8 block7 AND 2097151]) (\<lambda>output.
     rbind (idx input (bi + 8)) (\<lambda>block8.
     rbind (stores output (vi + 24)
       [push_bit 13 (block7 AND 255) OR drop_bit 51 block8, drop_bit 30 block8 AND 2097151,
        drop_bit 9 block8 AND 2097151]) (\<lambda>output.
     rbind (idx input (bi + 9)) (\<lambda>block9.
     rbind (stores output (vi + 27)
       [push_bit 12 (block8 AND 511) OR drop_bit 52 block9, drop_bit 31 block9 AND 2097151,
        drop_bit 10 block9 AND 2097151]) (\<lambda>output.
     rbind (idx input (bi + 10)) (\<lambda>block10.
     rbind (stores output (vi + 30)
       [push_bit 11 (block9 AND 1023) OR drop_bit 53 block10, drop_bit 32 block10 AND 2097151,
        drop_bit 11 block10 AND 2097151]) (\<lambda>output.
     rbind (idx input (bi + 11)) (\<lambda>block11.
     rbind (stores output (vi + 33)
       [push_bit 10 (block10 AND 2047) OR drop_bit 54 block11, drop_bit 33 block11 AND 2097151,
        drop_bit 12 block11 AND 2097151]) (\<lambda>output.
     rbind (idx input (bi + 12)) (\<lambda>block12.
     rbind (stores output (vi + 36)
       [push_bit 9 (block11 AND 4095) OR drop_bit 55 block12, drop_bit 34 block12 AND 2097151,
        drop_bit 13 block12 AND 2097151]) (\<lambda>output.
     rbind (idx input (bi + 13)) (\<lambda>block13.
     rbind (stores output (vi + 39)
       [push_bit 8 (block12 AND 8191) OR drop_bit 56 block13, drop_bit 35 block13 AND 2097151,
        drop_bit 14 block13 AND 2097151]) (\<lambda>output.
     rbind (idx input (bi + 14)) (\<lambda>block14.
     rbind (stores output (vi + 42)
       [push_bit 7 (block13 AND 16383) OR drop_bit 57 block14, drop_bit 36 block14 AND 2097151,
        drop_bit 15 block14 AND 2097151]) (\<lambda>output.
     rbind (idx input (bi + 15)) (\<lambda>block15.
     rbind (stores output (vi + 45)
       [push_bit 6 (block14 AND 32767) OR drop_bit 58 block15, drop_bit 37 block15 AND 2097151,
        drop_bit 16 block15 AND 2097151]) (\<lambda>output.
     rbind (idx input (bi + 16)) (\<lambda>block16.
     rbind (stores output (vi + 48)
       [push_bit 5 (block15 AND 65535) OR drop_bit 59 block16, drop_bit 38 block16 AND 2097151,
        drop_bit 17 block16 AND 2097151]) (\<lambda>output.
     rbind (idx input (bi + 17)) (\<lambda>block17.
     rbind (stores output (vi + 51)
       [push_bit 4 (block16 AND 131071) OR drop_bit 60 block17, drop_bit 39 block17 AND 2097151,
        drop_bit 18 block17 AND 2097151]) (\<lambda>output.
     rbind (idx input (bi + 18)) (\<lambda>block18.
     rbind (stores output (vi + 54)
       [push_bit 3 (block17 AND 262143) OR drop_bit 61 block18, drop_bit 40 block18 AND 2097151,
        drop_bit 19 block18 AND 2097151]) (\<lambda>output.
     rbind (idx input (bi + 19)) (\<lambda>block19.
     rbind (stores output (vi + 57)
       [push_bit 2 (block18 AND 524287) OR drop_bit 62 block19, drop_bit 41 block19 AND 2097151,
        drop_bit 20 block19 AND 2097151]) (\<lambda>output.
     rbind (idx input (bi + 20)) (\<lambda>block20.
     rbind (stores output (vi + 60)
       [push_bit 1 (block19 AND 1048575) OR drop_bit 63 block20, drop_bit 42 block20 AND 2097151,
        drop_bit 21 block20 AND 2097151, block20 AND 2097151]) (\<lambda>output.
     Inr (bi + 21, output, vi + 64)))))))))))))))))))))))))))))))))))))))))))"

definition packed21_decode_u64_to_i64 :: "64 word list \<Rightarrow> nat \<Rightarrow> 64 word list \<Rightarrow> nat \<Rightarrow> nat \<Rightarrow> 64 word list res" where
  "packed21_decode_u64_to_i64 = decode_fast 0 21 64 packed21_u64_i64 packed21_u64_i64"

interpretation packed21_u64_i64: bulk_group packed21_u64_i64 64 21 21 64 "\<lambda>x. x" "\<lambda>x. x"
proof
  show "packed21_u64_i64 input bi out vi = Inr (bi + 21, patch out vi
      (map (\<lambda>x. x) (unpack 64 (\<lambda>i. input ! (bi + i)) 21 64)), vi + 64)"
    if "bi + 21 \<le> length input" "vi + 64 \<le> length out" for bi vi input out
    using that unfolding packed21_u64_i64_def and_masks
    by (simp add: stores_ok patch_fuse, intro patch_cong, simp add: unpack_def upt_rec,
        simp add: gather_in gather_over unpack_simps)
qed simp_all

lemma packed21_decode_u64_to_i64_ok [bulk_decode]:
  "bo + n * 21 \<le> length blocks \<Longrightarrow> vo + n * 64 \<le> length vals \<Longrightarrow>
   packed21_decode_u64_to_i64 blocks bo vals vo n = Inr (patch vals vo (unpack 64 (\<lambda>i. blocks ! (bo + i)) 21 (n * 64)))"
  using packed21_u64_i64.decode_fast_ok [OF packed21_u64_i64.bulk_group_axioms, of bo n blocks vo vals] by (simp add: packed21_decode_u64_to_i64_def)

definition packed21_u8_i64 :: "8 word list \<Rightarrow> nat \<Rightarrow> 64 word list \<Rightarrow> nat \<Rightarrow> (nat \<times> 64 word list \<times> nat) res" where
  "packed21_u8_i64 input bi output vi =
     rbind (idx_as input bi) (\<lambda>byte0.
     rbind (idx_as input (bi + 1)) (\<lambda>byte1.
     rbind (idx_as input (bi + 2)) (\<lambda>byte2.
     rbind (stores output vi
       [(push_bit 13 byte0 OR push_bit 5 byte1) OR signed_drop_bit 3 byte2]) (\<lambda>output.
     rbind (idx_as input (bi + 3)) (\<lambda>byte3.
     rbind (idx_as input (bi + 4)) (\<lambda>byte4.
     rbind (idx_as input (bi + 5)) (\<lambda>byte5.
     rbind (stores output (vi + 1)
       [((push_bit 18 (byte2 AND 7) OR push_bit 10 byte3) OR push_bit 2 byte4) OR signed_drop_bit 6 byte5]) (\<lambda>output.
     rbind (idx_as input (bi + 6)) (\<lambda>byte6.
     rbind (idx_as input (bi + 7)) (\<lambda>byte7.
     rbind (stores output (vi + 2)
       [(push_bit 15 (byte5 AND 63) OR push_bit 7 byte6) OR signed_drop_bit 1 byte7]) (\<lambda>output.
     rbind (idx_as input (bi + 8)) (\<lambda>byte8.
     rbind (idx_as input (bi + 9)) (\<lambda>byte9.
     rbind (idx_as input (bi + 10)) (\<lambda>byte10.
     rbind (stores output (vi + 3)
       [((push_bit 20 (byte7 AND 1) OR push_bit 12 byte8) OR push_bit 4 byte9) OR signed_drop_bit 4 byte10]) (\<lambda>output.
     rbind (idx_as input (bi + 11)) (\<lambda>byte11.
     rbind (idx_as input (bi + 12)) (\<lambda>byte12.
     rbind (idx_as input (bi + 13)) (\<lambda>byte13.
     rbind (stores output (vi + 4)
       [((push_bit 17 (byte10 AND 15) OR push_bit 9 byte11) OR push_bit 1 byte12) OR signed_drop_bit 7 byte13]) (\<lambda>output.
     rbind (idx_as input (bi + 14)) (\<lambda>byte14.
     rbind (idx_as input (bi + 15)) (\<lambda>byte15.
     rbind (stores output (vi + 5)
       [(push_bit 14 (byte13 AND 127) OR push_bit 6 byte14) OR signed_drop_bit 2 byte15]) (\<lambda>output.
     rbind (idx_as input (bi + 16)) (\<lambda>byte16.
     rbind (idx_as input (bi + 17)) (\<lambda>byte17.
     rbind (idx_as input (bi + 18)) (\<lambda>byte18.
     rbind (stores output (vi + 6)
       [((push_bit 19 (byte15 AND 3) OR push_bit 11 byte16) OR push_bit 3 byte17) OR signed_drop_bit 5 byte18]) (\<lambda>output.
     rbind (idx_as input (bi + 19)) (\<lambda>byte19.
     rbind (idx_as input (bi + 20)) (\<lambda>byte20.
     rbind (stores output (vi + 7)
       [(push_bit 16 (byte18 AND 31) OR push_bit 8 byte19) OR byte20]) (\<lambda>output.
     Inr (bi + 21, output, vi + 8))))))))))))))))))))))))))))))"

definition packed21_decode_u8_to_i64 :: "8 word list \<Rightarrow> nat \<Rightarrow> 64 word list \<Rightarrow> nat \<Rightarrow> nat \<Rightarrow> 64 word list res" where
  "packed21_decode_u8_to_i64 = decode_fast 0 21 8 packed21_u8_i64 packed21_u8_i64"

interpretation packed21_u8_i64: bulk_group packed21_u8_i64 8 21 21 8 ucast "\<lambda>x. x"
proof
  show "packed21_u8_i64 input bi out vi = Inr (bi + 21, patch out vi
      (map (\<lambda>x. x) (unpack 8 (\<lambda>i. ucast (input ! (bi + i))) 21 8)), vi + 8)"
    if "bi + 21 \<le> length input" "vi + 8 \<le> length out" for bi vi input out
    using that unfolding packed21_u8_i64_def and_masks
    by (simp add: stores_ok patch_fuse, intro patch_cong, simp add: unpack_def upt_rec,
        simp add: gather_in gather_over unpack_simps)
qed simp_all

lemma packed21_decode_u8_to_i64_ok [bulk_decode]:
  "bo + n * 21 \<le> length blocks \<Longrightarrow> vo + n * 8 \<le> length vals \<Longrightarrow>
   packed21_decode_u8_to_i64 blocks bo vals vo n = Inr (patch vals vo (unpack 8 (\<lambda>i. ucast (blocks ! (bo + i))) 21 (n * 8)))"
  using packed21_u8_i64.decode_fast_ok [OF packed21_u8_i64.bulk_group_axioms, of bo n blocks vo vals] by (simp add: packed21_decode_u8_to_i64_def)

definition packed21_u64_i32 :: "64 word list \<Rightarrow> nat \<Rightarrow> 32 word list \<Rightarrow> nat \<Rightarrow> (nat \<times> 32 word list \<times> nat) res" where
  "packed21_u64_i32 input bi output vi =
     rbind (idx input bi) (\<lambda>block0.
     rbind (stores output vi
       [ucast (drop_bit 43 block0), ucast (drop_bit 22 block0 AND 2097151),
        ucast (drop_bit 1 block0 AND 2097151)]) (\<lambda>output.
     rbind (idx input (bi + 1)) (\<lambda>block1.
     rbind (stores output (vi + 3)
       [ucast (push_bit 20 (block0 AND 1) OR drop_bit 44 block1), ucast (drop_bit 23 block1 AND 2097151),
        ucast (drop_bit 2 block1 AND 2097151)]) (\<lambda>output.
     rbind (idx input (bi + 2)) (\<lambda>block2.
     rbind (stores output (vi + 6)
       [ucast (push_bit 19 (block1 AND 3) OR drop_bit 45 block2), ucast (drop_bit 24 block2 AND 2097151),
        ucast (drop_bit 3 block2 AND 2097151)]) (\<lambda>output.
     rbind (idx input (bi + 3)) (\<lambda>block3.
     rbind (stores output (vi + 9)
       [ucast (push_bit 18 (block2 AND 7) OR drop_bit 46 block3), ucast (drop_bit 25 block3 AND 2097151),
        ucast (drop_bit 4 block3 AND 2097151)]) (\<lambda>output.
     rbind (idx input (bi + 4)) (\<lambda>block4.
     rbind (stores output (vi + 12)
       [ucast (push_bit 17 (block3 AND 15) OR drop_bit 47 block4), ucast (drop_bit 26 block4 AND 2097151),
        ucast (drop_bit 5 block4 AND 2097151)]) (\<lambda>output.
     rbind (idx input (bi + 5)) (\<lambda>block5.
     rbind (stores output (vi + 15)
       [ucast (push_bit 16 (block4 AND 31) OR drop_bit 48 block5), ucast (drop_bit 27 block5 AND 2097151),
        ucast (drop_bit 6 block5 AND 2097151)]) (\<lambda>output.
     rbind (idx input (bi + 6)) (\<lambda>block6.
     rbind (stores output (vi + 18)
       [ucast (push_bit 15 (block5 AND 63) OR drop_bit 49 block6), ucast (drop_bit 28 block6 AND 2097151),
        ucast (drop_bit 7 block6 AND 2097151)]) (\<lambda>output.
     rbind (idx input (bi + 7)) (\<lambda>block7.
     rbind (stores output (vi + 21)
       [ucast (push_bit 14 (block6 AND 127) OR drop_bit 50 block7), ucast (drop_bit 29 block7 AND 2097151),
        ucast (drop_bit 8 block7 AND 2097151)]) (\<lambda>output.
     rbind (idx input (bi + 8)) (\<lambda>block8.
     rbind (stores output (vi + 24)
       [ucast (push_bit 13 (block7 AND 255) OR drop_bit 51 block8), ucast (drop_bit 30 block8 AND 2097151),
        ucast (drop_bit 9 block8 AND 2097151)]) (\<lambda>output.
     rbind (idx input (bi + 9)) (\<lambda>block9.
     rbind (stores output (vi + 27)
       [ucast (push_bit 12 (block8 AND 511) OR drop_bit 52 block9), ucast (drop_bit 31 block9 AND 2097151),
        ucast (drop_bit 10 block9 AND 2097151)]) (\<lambda>output.
     rbind (idx input (bi + 10)) (\<lambda>block10.
     rbind (stores output (vi + 30)
       [ucast (push_bit 11 (block9 AND 1023) OR drop_bit 53 block10),
        ucast (drop_bit 32 block10 AND 2097151), ucast (drop_bit 11 block10 AND 2097151)]) (\<lambda>output.
     rbind (idx input (bi + 11)) (\<lambda>block11.
     rbind (stores output (vi + 33)
       [ucast (push_bit 10 (block10 AND 2047) OR drop_bit 54 block11),
        ucast (drop_bit 33 block11 AND 2097151), ucast (drop_bit 12 block11 AND 2097151)]) (\<lambda>output.
     rbind (idx input (bi + 12)) (\<lambda>block12.
     rbind (stores output (vi + 36)
       [ucast (push_bit 9 (block11 AND 4095) OR drop_bit 55 block12),
        ucast (drop_bit 34 block12 AND 2097151), ucast (drop_bit 13 block12 AND 2097151)]) (\<lambda>output.
     rbind (idx input (bi + 13)) (\<lambda>block13.
     rbind (stores output (vi + 39)
       [ucast (push_bit 8 (block12 AND 8191) OR drop_bit 56 block13),
        ucast (drop_bit 35 block13 AND 2097151), ucast (drop_bit 14 block13 AND 2097151)]) (\<lambda>output.
     rbind (idx input (bi + 14)) (\<lambda>block14.
     rbind (stores output (vi + 42)
       [ucast (push_bit 7 (block13 AND 16383) OR drop_bit 57 block14),
        ucast (drop_bit 36 block14 AND 2097151), ucast (drop_bit 15 block14 AND 2097151)]) (\<lambda>output.
     rbind (idx input (bi + 15)) (\<lambda>block15.
     rbind (stores output (vi + 45)
       [ucast (push_bit 6 (block14 AND 32767) OR drop_bit 58 block15),
        ucast (drop_bit 37 block15 AND 2097151), ucast (drop_bit 16 block15 AND 2097151)]) (\<lambda>output.
     rbind (idx input (bi + 16)) (\<lambda>block16.
     rbind (stores output (vi + 48)
       [ucast (push_bit 5 (block15 AND 65535) OR drop_bit 59 block16),
        ucast (drop_bit 38 block16 AND 2097151), ucast (drop_bit 17 block16 AND 2097151)]) (\<lambda>output.
     rbind (idx input (bi + 17)) (\<lambda>block17.
     rbind (stores output (vi + 51)
       [ucast (push_bit 4 (block16 AND 131071) OR drop_bit 60 block17),
        ucast (drop_bit 39 block17 AND 2097151), ucast (drop_bit 18 block17 AND 2097151)]) (\<lambda>output.
     rbind (idx input (bi + 18)) (\<lambda>block18.
     rbind (stores output (vi + 54)
       [ucast (push_bit 3 (block17 AND 262143) OR drop_bit 61 block18),
        ucast (drop_bit 40 block18 AND 2097151), ucast (drop_bit 19 block18 AND 2097151)]) (\<lambda>output.
     rbind (idx input (bi + 19)) (\<lambda>block19.
     rbind (stores output (vi + 57)
       [ucast (push_bit 2 (block18 AND 524287) OR drop_bit 62 block19),
        ucast (drop_bit 41 block19 AND 2097151), ucast (drop_bit 20 block19 AND 2097151)]) (\<lambda>output.
     rbind (idx input (bi + 20)) (\<lambda>block20.
     rbind (stores output (vi + 60)
       [ucast (push_bit 1 (block19 AND 1048575) OR drop_bit 63 block20),
        ucast (drop_bit 42 block20 AND 2097151), ucast (drop_bit 21 block20 AND 2097151),
        ucast (block20 AND 2097151)]) (\<lambda>output.
     Inr (bi + 21, output, vi + 64)))))))))))))))))))))))))))))))))))))))))))"

definition packed21_decode_u64_to_i32 :: "64 word list \<Rightarrow> nat \<Rightarrow> 32 word list \<Rightarrow> nat \<Rightarrow> nat \<Rightarrow> 32 word list res" where
  "packed21_decode_u64_to_i32 = decode_fast 0 21 64 packed21_u64_i32 packed21_u64_i32"

interpretation packed21_u64_i32: bulk_group packed21_u64_i32 64 21 21 64 "\<lambda>x. x" ucast
proof
  show "packed21_u64_i32 input bi out vi = Inr (bi + 21, patch out vi
      (map (ucast) (unpack 64 (\<lambda>i. input ! (bi + i)) 21 64)), vi + 64)"
    if "bi + 21 \<le> length input" "vi + 64 \<le> length out" for bi vi input out
    using that unfolding packed21_u64_i32_def and_masks
    by (simp add: stores_ok patch_fuse, intro patch_cong, simp add: unpack_def upt_rec,
        simp add: gather_in gather_over unpack_simps)
qed simp_all

lemma packed21_decode_u64_to_i32_ok [bulk_decode]:
  "bo + n * 21 \<le> length blocks \<Longrightarrow> vo + n * 64 \<le> length vals \<Longrightarrow>
   packed21_decode_u64_to_i32 blocks bo vals vo n = Inr (patch vals vo (map ucast (unpack 64 (\<lambda>i. blocks ! (bo + i)) 21 (n * 64))))"
  using packed21_u64_i32.decode_fast_ok [OF packed21_u64_i32.bulk_group_axioms, of bo n blocks vo vals] by (simp add: packed21_decode_u64_to_i32_def)

definition packed21_u8_i32 :: "8 word list \<Rightarrow> nat \<Rightarrow> 32 word list \<Rightarrow> nat \<Rightarrow> (nat \<times> 32 word list \<times> nat) res" where
  "packed21_u8_i32 input bi output vi =
     rbind (idx_as input bi) (\<lambda>byte0.
     rbind (idx_as input (bi + 1)) (\<lambda>byte1.
     rbind (idx_as input (bi + 2)) (\<lambda>byte2.
     rbind (stores output vi
       [(push_bit 13 byte0 OR push_bit 5 byte1) OR signed_drop_bit 3 byte2]) (\<lambda>output.
     rbind (idx_as input (bi + 3)) (\<lambda>byte3.
     rbind (idx_as input (bi + 4)) (\<lambda>byte4.
     rbind (idx_as input (bi + 5)) (\<lambda>byte5.
     rbind (stores output (vi + 1)
       [((push_bit 18 (byte2 AND 7) OR push_bit 10 byte3) OR push_bit 2 byte4) OR signed_drop_bit 6 byte5]) (\<lambda>output.
     rbind (idx_as input (bi + 6)) (\<lambda>byte6.
     rbind (idx_as input (bi + 7)) (\<lambda>byte7.
     rbind (stores output (vi + 2)
       [(push_bit 15 (byte5 AND 63) OR push_bit 7 byte6) OR signed_drop_bit 1 byte7]) (\<lambda>output.
     rbind (idx_as input (bi + 8)) (\<lambda>byte8.
     rbind (idx_as input (bi + 9)) (\<lambda>byte9.
     rbind (idx_as input (bi + 10)) (\<lambda>byte10.
     rbind (stores output (vi + 3)
       [((push_bit 20 (byte7 AND 1) OR push_bit 12 byte8) OR push_bit 4 byte9) OR signed_drop_bit 4 byte10]) (\<lambda>output.
     rbind (idx_as input (bi + 11)) (\<lambda>byte11.
     rbind (idx_as input (bi + 12)) (\<lambda>byte12.
     rbind (idx_as input (bi + 13)) (\<lambda>byte13.
     rbind (stores output (vi + 4)
       [((push_bit 17 (byte10 AND 15) OR push_bit 9 byte11) OR push_bit 1 byte12) OR signed_drop_bit 7 byte13]) (\<lambda>output.
     rbind (idx_as input (bi + 14)) (\<lambda>byte14.
     rbind (idx_as input (bi + 15)) (\<lambda>byte15.
     rbind (stores output (vi + 5)
       [(push_bit 14 (byte13 AND 127) OR push_bit 6 byte14) OR signed_drop_bit 2 byte15]) (\<lambda>output.
     rbind (idx_as input (bi + 16)) (\<lambda>byte16.
     rbind (idx_as input (bi + 17)) (\<lambda>byte17.
     rbind (idx_as input (bi + 18)) (\<lambda>byte18.
     rbind (stores output (vi + 6)
       [((push_bit 19 (byte15 AND 3) OR push_bit 11 byte16) OR push_bit 3 byte17) OR signed_drop_bit 5 byte18]) (\<lambda>output.
     rbind (idx_as input (bi + 19)) (\<lambda>byte19.
     rbind (idx_as input (bi + 20)) (\<lambda>byte20.
     rbind (stores output (vi + 7)
       [(push_bit 16 (byte18 AND 31) OR push_bit 8 byte19) OR byte20]) (\<lambda>output.
     Inr (bi + 21, output, vi + 8))))))))))))))))))))))))))))))"

definition packed21_decode_u8_to_i32 :: "8 word list \<Rightarrow> nat \<Rightarrow> 32 word list \<Rightarrow> nat \<Rightarrow> nat \<Rightarrow> 32 word list res" where
  "packed21_decode_u8_to_i32 = decode_fast 0 21 8 packed21_u8_i32 packed21_u8_i32"

interpretation packed21_u8_i32: bulk_group packed21_u8_i32 8 21 21 8 ucast "\<lambda>x. x"
proof
  show "packed21_u8_i32 input bi out vi = Inr (bi + 21, patch out vi
      (map (\<lambda>x. x) (unpack 8 (\<lambda>i. ucast (input ! (bi + i))) 21 8)), vi + 8)"
    if "bi + 21 \<le> length input" "vi + 8 \<le> length out" for bi vi input out
    using that unfolding packed21_u8_i32_def and_masks
    by (simp add: stores_ok patch_fuse, intro patch_cong, simp add: unpack_def upt_rec,
        simp add: gather_in gather_over unpack_simps)
qed simp_all

lemma packed21_decode_u8_to_i32_ok [bulk_decode]:
  "bo + n * 21 \<le> length blocks \<Longrightarrow> vo + n * 8 \<le> length vals \<Longrightarrow>
   packed21_decode_u8_to_i32 blocks bo vals vo n = Inr (patch vals vo (unpack 8 (\<lambda>i. ucast (blocks ! (bo + i))) 21 (n * 8)))"
  using packed21_u8_i32.decode_fast_ok [OF packed21_u8_i32.bulk_group_axioms, of bo n blocks vo vals] by (simp add: packed21_decode_u8_to_i32_def)

section \<open>\<open>BulkOperationPacked22\<close>\<close>

definition packed22_u64_i64 :: "64 word list \<Rightarrow> nat \<Rightarrow> 64 word list \<Rightarrow> nat \<Rightarrow> (nat \<times> 64 word list \<times> nat) res" where
  "packed22_u64_i64 input bi output vi =
     rbind (idx input bi) (\<lambda>block0.
     rbind (stores output vi
       [drop_bit 42 block0, drop_bit 20 block0 AND 4194303]) (\<lambda>output.
     rbind (idx input (bi + 1)) (\<lambda>block1.
     rbind (stores output (vi + 2)
       [push_bit 2 (block0 AND 1048575) OR drop_bit 62 block1, drop_bit 40 block1 AND 4194303,
        drop_bit 18 block1 AND 4194303]) (\<lambda>output.
     rbind (idx input (bi + 2)) (\<lambda>block2.
     rbind (stores output (vi + 5)
       [push_bit 4 (block1 AND 262143) OR drop_bit 60 block2, drop_bit 38 block2 AND 4194303,
        drop_bit 16 block2 AND 4194303]) (\<lambda>output.
     rbind (idx input (bi + 3)) (\<lambda>block3.
     rbind (stores output (vi + 8)
       [push_bit 6 (block2 AND 65535) OR drop_bit 58 block3, drop_bit 36 block3 AND 4194303,
        drop_bit 14 block3 AND 4194303]) (\<lambda>output.
     rbind (idx input (bi + 4)) (\<lambda>block4.
     rbind (stores output (vi + 11)
       [push_bit 8 (block3 AND 16383) OR drop_bit 56 block4, drop_bit 34 block4 AND 4194303,
        drop_bit 12 block4 AND 4194303]) (\<lambda>output.
     rbind (idx input (bi + 5)) (\<lambda>block5.
     rbind (stores output (vi + 14)
       [push_bit 10 (block4 AND 4095) OR drop_bit 54 block5, drop_bit 32 block5 AND 4194303,
        drop_bit 10 block5 AND 4194303]) (\<lambda>output.
     rbind (idx input (bi + 6)) (\<lambda>block6.
     rbind (stores output (vi + 17)
       [push_bit 12 (block5 AND 1023) OR drop_bit 52 block6, drop_bit 30 block6 AND 4194303,
        drop_bit 8 block6 AND 4194303]) (\<lambda>output.
     rbind (idx input (bi + 7)) (\<lambda>block7.
     rbind (stores output (vi + 20)
       [push_bit 14 (block6 AND 255) OR drop_bit 50 block7, drop_bit 28 block7 AND 4194303,
        drop_bit 6 block7 AND 4194303]) (\<lambda>output.
     rbind (idx input (bi + 8)) (\<lambda>block8.
     rbind (stores output (vi + 23)
       [push_bit 16 (block7 AND 63) OR drop_bit 48 block8, drop_bit 26 block8 AND 4194303,
        drop_bit 4 block8 AND 4194303]) (\<lambda>output.
     rbind (idx input (bi + 9)) (\<lambda>block9.
     rbind (stores output (vi + 26)
       [push_bit 18 (block8 AND 15) OR drop_bit 46 block9, drop_bit 24 block9 AND 4194303,
        drop_bit 2 block9 AND 4194303]) (\<lambda>output.
     rbind (idx input (bi + 10)) (\<lambda>block10.
     rbind (stores output (vi + 29)
       [push_bit 20 (block9 AND 3) OR drop_bit 44 block10, drop_bit 22 block10 AND 4194303,
        block10 AND 4194303]) (\<lambda>output.
     Inr (bi + 11, output, vi + 32)))))))))))))))))))))))"

definition packed22_decode_u64_to_i64 :: "64 word list \<Rightarrow> nat \<Rightarrow> 64 word list \<Rightarrow> nat \<Rightarrow> nat \<Rightarrow> 64 word list res" where
  "packed22_decode_u64_to_i64 = decode_fast 0 11 32 packed22_u64_i64 packed22_u64_i64"

interpretation packed22_u64_i64: bulk_group packed22_u64_i64 64 22 11 32 "\<lambda>x. x" "\<lambda>x. x"
proof
  show "packed22_u64_i64 input bi out vi = Inr (bi + 11, patch out vi
      (map (\<lambda>x. x) (unpack 64 (\<lambda>i. input ! (bi + i)) 22 32)), vi + 32)"
    if "bi + 11 \<le> length input" "vi + 32 \<le> length out" for bi vi input out
    using that unfolding packed22_u64_i64_def and_masks
    by (simp add: stores_ok patch_fuse, intro patch_cong, simp add: unpack_def upt_rec,
        simp add: gather_in gather_over unpack_simps)
qed simp_all

lemma packed22_decode_u64_to_i64_ok [bulk_decode]:
  "bo + n * 11 \<le> length blocks \<Longrightarrow> vo + n * 32 \<le> length vals \<Longrightarrow>
   packed22_decode_u64_to_i64 blocks bo vals vo n = Inr (patch vals vo (unpack 64 (\<lambda>i. blocks ! (bo + i)) 22 (n * 32)))"
  using packed22_u64_i64.decode_fast_ok [OF packed22_u64_i64.bulk_group_axioms, of bo n blocks vo vals] by (simp add: packed22_decode_u64_to_i64_def)

definition packed22_u8_i64 :: "8 word list \<Rightarrow> nat \<Rightarrow> 64 word list \<Rightarrow> nat \<Rightarrow> (nat \<times> 64 word list \<times> nat) res" where
  "packed22_u8_i64 input bi output vi =
     rbind (idx_as input bi) (\<lambda>byte0.
     rbind (idx_as input (bi + 1)) (\<lambda>byte1.
     rbind (idx_as input (bi + 2)) (\<lambda>byte2.
     rbind (stores output vi
       [(push_bit 14 byte0 OR push_bit 6 byte1) OR signed_drop_bit 2 byte2]) (\<lambda>output.
     rbind (idx_as input (bi + 3)) (\<lambda>byte3.
     rbind (idx_as input (bi + 4)) (\<lambda>byte4.
     rbind (idx_as input (bi + 5)) (\<lambda>byte5.
     rbind (stores output (vi + 1)
       [((push_bit 20 (byte2 AND 3) OR push_bit 12 byte3) OR push_bit 4 byte4) OR signed_drop_bit 4 byte5]) (\<lambda>output.
     rbind (idx_as input (bi + 6)) (\<lambda>byte6.
     rbind (idx_as input (bi + 7)) (\<lambda>byte7.
     rbind (idx_as input (bi + 8)) (\<lambda>byte8.
     rbind (stores output (vi + 2)
       [((push_bit 18 (byte5 AND 15) OR push_bit 10 byte6) OR push_bit 2 byte7) OR signed_drop_bit 6 byte8]) (\<lambda>output.
     rbind (idx_as input (bi + 9)) (\<lambda>byte9.
     rbind (idx_as input (bi + 10)) (\<lambda>byte10.
     rbind (stores output (vi + 3)
       [(push_bit 16 (byte8 AND 63) OR push_bit 8 byte9) OR byte10]) (\<lambda>output.
     Inr (bi + 11, output, vi + 4))))))))))))))))"

definition packed22_decode_u8_to_i64 :: "8 word list \<Rightarrow> nat \<Rightarrow> 64 word list \<Rightarrow> nat \<Rightarrow> nat \<Rightarrow> 64 word list res" where
  "packed22_decode_u8_to_i64 = decode_fast 0 11 4 packed22_u8_i64 packed22_u8_i64"

interpretation packed22_u8_i64: bulk_group packed22_u8_i64 8 22 11 4 ucast "\<lambda>x. x"
proof
  show "packed22_u8_i64 input bi out vi = Inr (bi + 11, patch out vi
      (map (\<lambda>x. x) (unpack 8 (\<lambda>i. ucast (input ! (bi + i))) 22 4)), vi + 4)"
    if "bi + 11 \<le> length input" "vi + 4 \<le> length out" for bi vi input out
    using that unfolding packed22_u8_i64_def and_masks
    by (simp add: stores_ok patch_fuse, intro patch_cong, simp add: unpack_def upt_rec,
        simp add: gather_in gather_over unpack_simps)
qed simp_all

lemma packed22_decode_u8_to_i64_ok [bulk_decode]:
  "bo + n * 11 \<le> length blocks \<Longrightarrow> vo + n * 4 \<le> length vals \<Longrightarrow>
   packed22_decode_u8_to_i64 blocks bo vals vo n = Inr (patch vals vo (unpack 8 (\<lambda>i. ucast (blocks ! (bo + i))) 22 (n * 4)))"
  using packed22_u8_i64.decode_fast_ok [OF packed22_u8_i64.bulk_group_axioms, of bo n blocks vo vals] by (simp add: packed22_decode_u8_to_i64_def)

definition packed22_u64_i32 :: "64 word list \<Rightarrow> nat \<Rightarrow> 32 word list \<Rightarrow> nat \<Rightarrow> (nat \<times> 32 word list \<times> nat) res" where
  "packed22_u64_i32 input bi output vi =
     rbind (idx input bi) (\<lambda>block0.
     rbind (stores output vi
       [ucast (drop_bit 42 block0), ucast (drop_bit 20 block0 AND 4194303)]) (\<lambda>output.
     rbind (idx input (bi + 1)) (\<lambda>block1.
     rbind (stores output (vi + 2)
       [ucast (push_bit 2 (block0 AND 1048575) OR drop_bit 62 block1),
        ucast (drop_bit 40 block1 AND 4194303), ucast (drop_bit 18 block1 AND 4194303)]) (\<lambda>output.
     rbind (idx input (bi + 2)) (\<lambda>block2.
     rbind (stores output (vi + 5)
       [ucast (push_bit 4 (block1 AND 262143) OR drop_bit 60 block2),
        ucast (drop_bit 38 block2 AND 4194303), ucast (drop_bit 16 block2 AND 4194303)]) (\<lambda>output.
     rbind (idx input (bi + 3)) (\<lambda>block3.
     rbind (stores output (vi + 8)
       [ucast (push_bit 6 (block2 AND 65535) OR drop_bit 58 block3), ucast (drop_bit 36 block3 AND 4194303),
        ucast (drop_bit 14 block3 AND 4194303)]) (\<lambda>output.
     rbind (idx input (bi + 4)) (\<lambda>block4.
     rbind (stores output (vi + 11)
       [ucast (push_bit 8 (block3 AND 16383) OR drop_bit 56 block4), ucast (drop_bit 34 block4 AND 4194303),
        ucast (drop_bit 12 block4 AND 4194303)]) (\<lambda>output.
     rbind (idx input (bi + 5)) (\<lambda>block5.
     rbind (stores output (vi + 14)
       [ucast (push_bit 10 (block4 AND 4095) OR drop_bit 54 block5), ucast (drop_bit 32 block5 AND 4194303),
        ucast (drop_bit 10 block5 AND 4194303)]) (\<lambda>output.
     rbind (idx input (bi + 6)) (\<lambda>block6.
     rbind (stores output (vi + 17)
       [ucast (push_bit 12 (block5 AND 1023) OR drop_bit 52 block6), ucast (drop_bit 30 block6 AND 4194303),
        ucast (drop_bit 8 block6 AND 4194303)]) (\<lambda>output.
     rbind (idx input (bi + 7)) (\<lambda>block7.
     rbind (stores output (vi + 20)
       [ucast (push_bit 14 (block6 AND 255) OR drop_bit 50 block7), ucast (drop_bit 28 block7 AND 4194303),
        ucast (drop_bit 6 block7 AND 4194303)]) (\<lambda>output.
     rbind (idx input (bi + 8)) (\<lambda>block8.
     rbind (stores output (vi + 23)
       [ucast (push_bit 16 (block7 AND 63) OR drop_bit 48 block8), ucast (drop_bit 26 block8 AND 4194303),
        ucast (drop_bit 4 block8 AND 4194303)]) (\<lambda>output.
     rbind (idx input (bi + 9)) (\<lambda>block9.
     rbind (stores output (vi + 26)
       [ucast (push_bit 18 (block8 AND 15) OR drop_bit 46 block9), ucast (drop_bit 24 block9 AND 4194303),
        ucast (drop_bit 2 block9 AND 4194303)]) (\<lambda>output.
     rbind (idx input (bi + 10)) (\<lambda>block10.
     rbind (stores output (vi + 29)
       [ucast (push_bit 20 (block9 AND 3) OR drop_bit 44 block10), ucast (drop_bit 22 block10 AND 4194303),
        ucast (block10 AND 4194303)]) (\<lambda>output.
     Inr (bi + 11, output, vi + 32)))))))))))))))))))))))"

definition packed22_decode_u64_to_i32 :: "64 word list \<Rightarrow> nat \<Rightarrow> 32 word list \<Rightarrow> nat \<Rightarrow> nat \<Rightarrow> 32 word list res" where
  "packed22_decode_u64_to_i32 = decode_fast 0 11 32 packed22_u64_i32 packed22_u64_i32"

interpretation packed22_u64_i32: bulk_group packed22_u64_i32 64 22 11 32 "\<lambda>x. x" ucast
proof
  show "packed22_u64_i32 input bi out vi = Inr (bi + 11, patch out vi
      (map (ucast) (unpack 64 (\<lambda>i. input ! (bi + i)) 22 32)), vi + 32)"
    if "bi + 11 \<le> length input" "vi + 32 \<le> length out" for bi vi input out
    using that unfolding packed22_u64_i32_def and_masks
    by (simp add: stores_ok patch_fuse, intro patch_cong, simp add: unpack_def upt_rec,
        simp add: gather_in gather_over unpack_simps)
qed simp_all

lemma packed22_decode_u64_to_i32_ok [bulk_decode]:
  "bo + n * 11 \<le> length blocks \<Longrightarrow> vo + n * 32 \<le> length vals \<Longrightarrow>
   packed22_decode_u64_to_i32 blocks bo vals vo n = Inr (patch vals vo (map ucast (unpack 64 (\<lambda>i. blocks ! (bo + i)) 22 (n * 32))))"
  using packed22_u64_i32.decode_fast_ok [OF packed22_u64_i32.bulk_group_axioms, of bo n blocks vo vals] by (simp add: packed22_decode_u64_to_i32_def)

definition packed22_u8_i32 :: "8 word list \<Rightarrow> nat \<Rightarrow> 32 word list \<Rightarrow> nat \<Rightarrow> (nat \<times> 32 word list \<times> nat) res" where
  "packed22_u8_i32 input bi output vi =
     rbind (idx_as input bi) (\<lambda>byte0.
     rbind (idx_as input (bi + 1)) (\<lambda>byte1.
     rbind (idx_as input (bi + 2)) (\<lambda>byte2.
     rbind (stores output vi
       [(push_bit 14 byte0 OR push_bit 6 byte1) OR signed_drop_bit 2 byte2]) (\<lambda>output.
     rbind (idx_as input (bi + 3)) (\<lambda>byte3.
     rbind (idx_as input (bi + 4)) (\<lambda>byte4.
     rbind (idx_as input (bi + 5)) (\<lambda>byte5.
     rbind (stores output (vi + 1)
       [((push_bit 20 (byte2 AND 3) OR push_bit 12 byte3) OR push_bit 4 byte4) OR signed_drop_bit 4 byte5]) (\<lambda>output.
     rbind (idx_as input (bi + 6)) (\<lambda>byte6.
     rbind (idx_as input (bi + 7)) (\<lambda>byte7.
     rbind (idx_as input (bi + 8)) (\<lambda>byte8.
     rbind (stores output (vi + 2)
       [((push_bit 18 (byte5 AND 15) OR push_bit 10 byte6) OR push_bit 2 byte7) OR signed_drop_bit 6 byte8]) (\<lambda>output.
     rbind (idx_as input (bi + 9)) (\<lambda>byte9.
     rbind (idx_as input (bi + 10)) (\<lambda>byte10.
     rbind (stores output (vi + 3)
       [(push_bit 16 (byte8 AND 63) OR push_bit 8 byte9) OR byte10]) (\<lambda>output.
     Inr (bi + 11, output, vi + 4))))))))))))))))"

definition packed22_decode_u8_to_i32 :: "8 word list \<Rightarrow> nat \<Rightarrow> 32 word list \<Rightarrow> nat \<Rightarrow> nat \<Rightarrow> 32 word list res" where
  "packed22_decode_u8_to_i32 = decode_fast 0 11 4 packed22_u8_i32 packed22_u8_i32"

interpretation packed22_u8_i32: bulk_group packed22_u8_i32 8 22 11 4 ucast "\<lambda>x. x"
proof
  show "packed22_u8_i32 input bi out vi = Inr (bi + 11, patch out vi
      (map (\<lambda>x. x) (unpack 8 (\<lambda>i. ucast (input ! (bi + i))) 22 4)), vi + 4)"
    if "bi + 11 \<le> length input" "vi + 4 \<le> length out" for bi vi input out
    using that unfolding packed22_u8_i32_def and_masks
    by (simp add: stores_ok patch_fuse, intro patch_cong, simp add: unpack_def upt_rec,
        simp add: gather_in gather_over unpack_simps)
qed simp_all

lemma packed22_decode_u8_to_i32_ok [bulk_decode]:
  "bo + n * 11 \<le> length blocks \<Longrightarrow> vo + n * 4 \<le> length vals \<Longrightarrow>
   packed22_decode_u8_to_i32 blocks bo vals vo n = Inr (patch vals vo (unpack 8 (\<lambda>i. ucast (blocks ! (bo + i))) 22 (n * 4)))"
  using packed22_u8_i32.decode_fast_ok [OF packed22_u8_i32.bulk_group_axioms, of bo n blocks vo vals] by (simp add: packed22_decode_u8_to_i32_def)

section \<open>\<open>BulkOperationPacked23\<close>\<close>

definition packed23_u64_i64 :: "64 word list \<Rightarrow> nat \<Rightarrow> 64 word list \<Rightarrow> nat \<Rightarrow> (nat \<times> 64 word list \<times> nat) res" where
  "packed23_u64_i64 input bi output vi =
     rbind (idx input bi) (\<lambda>block0.
     rbind (stores output vi
       [drop_bit 41 block0, drop_bit 18 block0 AND 8388607]) (\<lambda>output.
     rbind (idx input (bi + 1)) (\<lambda>block1.
     rbind (stores output (vi + 2)
       [push_bit 5 (block0 AND 262143) OR drop_bit 59 block1, drop_bit 36 block1 AND 8388607,
        drop_bit 13 block1 AND 8388607]) (\<lambda>output.
     rbind (idx input (bi + 2)) (\<lambda>block2.
     rbind (stores output (vi + 5)
       [push_bit 10 (block1 AND 8191) OR drop_bit 54 block2, drop_bit 31 block2 AND 8388607,
        drop_bit 8 block2 AND 8388607]) (\<lambda>output.
     rbind (idx input (bi + 3)) (\<lambda>block3.
     rbind (stores output (vi + 8)
       [push_bit 15 (block2 AND 255) OR drop_bit 49 block3, drop_bit 26 block3 AND 8388607,
        drop_bit 3 block3 AND 8388607]) (\<lambda>output.
     rbind (idx input (bi + 4)) (\<lambda>block4.
     rbind (stores output (vi + 11)
       [push_bit 20 (block3 AND 7) OR drop_bit 44 block4, drop_bit 21 block4 AND 8388607]) (\<lambda>output.
     rbind (idx input (bi + 5)) (\<lambda>block5.
     rbind (stores output (vi + 13)
       [push_bit 2 (block4 AND 2097151) OR drop_bit 62 block5, drop_bit 39 block5 AND 8388607,
        drop_bit 16 block5 AND 8388607]) (\<lambda>output.
     rbind (idx input (bi + 6)) (\<lambda>block6.
     rbind (stores output (vi + 16)
       [push_bit 7 (block5 AND 65535) OR drop_bit 57 block6, drop_bit 34 block6 AND 8388607,
        drop_bit 11 block6 AND 8388607]) (\<lambda>output.
     rbind (idx input (bi + 7)) (\<lambda>block7.
     rbind (stores output (vi + 19)
       [push_bit 12 (block6 AND 2047) OR drop_bit 52 block7, drop_bit 29 block7 AND 8388607,
        drop_bit 6 block7 AND 8388607]) (\<lambda>output.
     rbind (idx input (bi + 8)) (\<lambda>block8.
     rbind (stores output (vi + 22)
       [push_bit 17 (block7 AND 63) OR drop_bit 47 block8, drop_bit 24 block8 AND 8388607,
        drop_bit 1 block8 AND 8388607]) (\<lambda>output.
     rbind (idx input (bi + 9)) (\<lambda>block9.
     rbind (stores output (vi + 25)
       [push_bit 22 (block8 AND 1) OR drop_bit 42 block9, drop_bit 19 block9 AND 8388607]) (\<lambda>output.
     rbind (idx input (bi + 10)) (\<lambda>block10.
     rbind (stores output (vi + 27)
       [push_bit 4 (block9 AND 524287) OR drop_bit 60 block10, drop_bit 37 block10 AND 8388607,
        drop_bit 14 block10 AND 8388607]) (\<lambda>output.
     rbind (idx input (bi + 11)) (\<lambda>block11.
     rbind (stores output (vi + 30)
       [push_bit 9 (block10 AND 16383) OR drop_bit 55 block11, drop_bit 32 block11 AND 8388607,
        drop_bit 9 block11 AND 8388607]) (\<lambda>output.
     rbind (idx input (bi + 12)) (\<lambda>block12.
     rbind (stores output (vi + 33)
       [push_bit 14 (block11 AND 511) OR drop_bit 50 block12, drop_bit 27 block12 AND 8388607,
        drop_bit 4 block12 AND 8388607]) (\<lambda>output.
     rbind (idx input (bi + 13)) (\<lambda>block13.
     rbind (stores output (vi + 36)
       [push_bit 19 (block12 AND 15) OR drop_bit 45 block13, drop_bit 22 block13 AND 8388607]) (\<lambda>output.
     rbind (idx input (bi + 14)) (\<lambda>block14.
     rbind (stores output (vi + 38)
       [push_bit 1 (block13 AND 4194303) OR drop_bit 63 block14, drop_bit 40 block14 AND 8388607,
        drop_bit 17 block14 AND 8388607]) (\<lambda>output.
     rbind (idx input (bi + 15)) (\<lambda>block15.
     rbind (stores output (vi + 41)
       [push_bit 6 (block14 AND 131071) OR drop_bit 58 block15, drop_bit 35 block15 AND 8388607,
        drop_bit 12 block15 AND 8388607]) (\<lambda>output.
     rbind (idx input (bi + 16)) (\<lambda>block16.
     rbind (stores output (vi + 44)
       [push_bit 11 (block15 AND 4095) OR drop_bit 53 block16, drop_bit 30 block16 AND 8388607,
        drop_bit 7 block16 AND 8388607]) (\<lambda>output.
     rbind (idx input (bi + 17)) (\<lambda>block17.
     rbind (stores output (vi + 47)
       [push_bit 16 (block16 AND 127) OR drop_bit 48 block17, drop_bit 25 block17 AND 8388607,
        drop_bit 2 block17 AND 8388607]) (\<lambda>output.
     rbind (idx input (bi + 18)) (\<lambda>block18.
     rbind (stores output (vi + 50)
       [push_bit 21 (block17 AND 3) OR drop_bit 43 block18, drop_bit 20 block18 AND 8388607]) (\<lambda>output.
     rbind (idx input (bi + 19)) (\<lambda>block19.
     rbind (stores output (vi + 52)
       [push_bit 3 (block18 AND 1048575) OR drop_bit 61 block19, drop_bit 38 block19 AND 8388607,
        drop_bit 15 block19 AND 8388607]) (\<lambda>output.
     rbind (idx input (bi + 20)) (\<lambda>block20.
     rbind (stores output (vi + 55)
       [push_bit 8 (block19 AND 32767) OR drop_bit 56 block20, drop_bit 33 block20 AND 8388607,
        drop_bit 10 block20 AND 8388607]) (\<lambda>output.
     rbind (idx input (bi + 21)) (\<lambda>block21.
     rbind (stores output (vi + 58)
       [push_bit 13 (block20 AND 1023) OR drop_bit 51 block21, drop_bit 28 block21 AND 8388607,
        drop_bit 5 block21 AND 8388607]) (\<lambda>output.
     rbind (idx input (bi + 22)) (\<lambda>block22.
     rbind (stores output (vi + 61)
       [push_bit 18 (block21 AND 31) OR drop_bit 46 block22, drop_bit 23 block22 AND 8388607,
        block22 AND 8388607]) (\<lambda>output.
     Inr (bi + 23, output, vi + 64)))))))))))))))))))))))))))))))))))))))))))))))"

definition packed23_decode_u64_to_i64 :: "64 word list \<Rightarrow> nat \<Rightarrow> 64 word list \<Rightarrow> nat \<Rightarrow> nat \<Rightarrow> 64 word list res" where
  "packed23_decode_u64_to_i64 = decode_fast 0 23 64 packed23_u64_i64 packed23_u64_i64"

interpretation packed23_u64_i64: bulk_group packed23_u64_i64 64 23 23 64 "\<lambda>x. x" "\<lambda>x. x"
proof
  show "packed23_u64_i64 input bi out vi = Inr (bi + 23, patch out vi
      (map (\<lambda>x. x) (unpack 64 (\<lambda>i. input ! (bi + i)) 23 64)), vi + 64)"
    if "bi + 23 \<le> length input" "vi + 64 \<le> length out" for bi vi input out
    using that unfolding packed23_u64_i64_def and_masks
    by (simp add: stores_ok patch_fuse, intro patch_cong, simp add: unpack_def upt_rec,
        simp add: gather_in gather_over unpack_simps)
qed simp_all

lemma packed23_decode_u64_to_i64_ok [bulk_decode]:
  "bo + n * 23 \<le> length blocks \<Longrightarrow> vo + n * 64 \<le> length vals \<Longrightarrow>
   packed23_decode_u64_to_i64 blocks bo vals vo n = Inr (patch vals vo (unpack 64 (\<lambda>i. blocks ! (bo + i)) 23 (n * 64)))"
  using packed23_u64_i64.decode_fast_ok [OF packed23_u64_i64.bulk_group_axioms, of bo n blocks vo vals] by (simp add: packed23_decode_u64_to_i64_def)

definition packed23_u8_i64 :: "8 word list \<Rightarrow> nat \<Rightarrow> 64 word list \<Rightarrow> nat \<Rightarrow> (nat \<times> 64 word list \<times> nat) res" where
  "packed23_u8_i64 input bi output vi =
     rbind (idx_as input bi) (\<lambda>byte0.
     rbind (idx_as input (bi + 1)) (\<lambda>byte1.
     rbind (idx_as input (bi + 2)) (\<lambda>byte2.
     rbind (stores output vi
       [(push_bit 15 byte0 OR push_bit 7 byte1) OR signed_drop_bit 1 byte2]) (\<lambda>output.
     rbind (idx_as input (bi + 3)) (\<lambda>byte3.
     rbind (idx_as input (bi + 4)) (\<lambda>byte4.
     rbind (idx_as input (bi + 5)) (\<lambda>byte5.
     rbind (stores output (vi + 1)
       [((push_bit 22 (byte2 AND 1) OR push_bit 14 byte3) OR push_bit 6 byte4) OR signed_drop_bit 2 byte5]) (\<lambda>output.
     rbind (idx_as input (bi + 6)) (\<lambda>byte6.
     rbind (idx_as input (bi + 7)) (\<lambda>byte7.
     rbind (idx_as input (bi + 8)) (\<lambda>byte8.
     rbind (stores output (vi + 2)
       [((push_bit 21 (byte5 AND 3) OR push_bit 13 byte6) OR push_bit 5 byte7) OR signed_drop_bit 3 byte8]) (\<lambda>output.
     rbind (idx_as input (bi + 9)) (\<lambda>byte9.
     rbind (idx_as input (bi + 10)) (\<lambda>byte10.
     rbind (idx_as input (bi + 11)) (\<lambda>byte11.
     rbind (stores output (vi + 3)
       [((push_bit 20 (byte8 AND 7) OR push_bit 12 byte9) OR push_bit 4 byte10) OR signed_drop_bit 4 byte11]) (\<lambda>output.
     rbind (idx_as input (bi + 12)) (\<lambda>byte12.
     rbind (idx_as input (bi + 13)) (\<lambda>byte13.
     rbind (idx_as input (bi + 14)) (\<lambda>byte14.
     rbind (stores output (vi + 4)
       [((push_bit 19 (byte11 AND 15) OR push_bit 11 byte12) OR push_bit 3 byte13) OR signed_drop_bit 5 byte14]) (\<lambda>output.
     rbind (idx_as input (bi + 15)) (\<lambda>byte15.
     rbind (idx_as input (bi + 16)) (\<lambda>byte16.
     rbind (idx_as input (bi + 17)) (\<lambda>byte17.
     rbind (stores output (vi + 5)
       [((push_bit 18 (byte14 AND 31) OR push_bit 10 byte15) OR push_bit 2 byte16) OR signed_drop_bit 6 byte17]) (\<lambda>output.
     rbind (idx_as input (bi + 18)) (\<lambda>byte18.
     rbind (idx_as input (bi + 19)) (\<lambda>byte19.
     rbind (idx_as input (bi + 20)) (\<lambda>byte20.
     rbind (stores output (vi + 6)
       [((push_bit 17 (byte17 AND 63) OR push_bit 9 byte18) OR push_bit 1 byte19) OR signed_drop_bit 7 byte20]) (\<lambda>output.
     rbind (idx_as input (bi + 21)) (\<lambda>byte21.
     rbind (idx_as input (bi + 22)) (\<lambda>byte22.
     rbind (stores output (vi + 7)
       [(push_bit 16 (byte20 AND 127) OR push_bit 8 byte21) OR byte22]) (\<lambda>output.
     Inr (bi + 23, output, vi + 8))))))))))))))))))))))))))))))))"

definition packed23_decode_u8_to_i64 :: "8 word list \<Rightarrow> nat \<Rightarrow> 64 word list \<Rightarrow> nat \<Rightarrow> nat \<Rightarrow> 64 word list res" where
  "packed23_decode_u8_to_i64 = decode_fast 0 23 8 packed23_u8_i64 packed23_u8_i64"

interpretation packed23_u8_i64: bulk_group packed23_u8_i64 8 23 23 8 ucast "\<lambda>x. x"
proof
  show "packed23_u8_i64 input bi out vi = Inr (bi + 23, patch out vi
      (map (\<lambda>x. x) (unpack 8 (\<lambda>i. ucast (input ! (bi + i))) 23 8)), vi + 8)"
    if "bi + 23 \<le> length input" "vi + 8 \<le> length out" for bi vi input out
    using that unfolding packed23_u8_i64_def and_masks
    by (simp add: stores_ok patch_fuse, intro patch_cong, simp add: unpack_def upt_rec,
        simp add: gather_in gather_over unpack_simps)
qed simp_all

lemma packed23_decode_u8_to_i64_ok [bulk_decode]:
  "bo + n * 23 \<le> length blocks \<Longrightarrow> vo + n * 8 \<le> length vals \<Longrightarrow>
   packed23_decode_u8_to_i64 blocks bo vals vo n = Inr (patch vals vo (unpack 8 (\<lambda>i. ucast (blocks ! (bo + i))) 23 (n * 8)))"
  using packed23_u8_i64.decode_fast_ok [OF packed23_u8_i64.bulk_group_axioms, of bo n blocks vo vals] by (simp add: packed23_decode_u8_to_i64_def)

definition packed23_u64_i32 :: "64 word list \<Rightarrow> nat \<Rightarrow> 32 word list \<Rightarrow> nat \<Rightarrow> (nat \<times> 32 word list \<times> nat) res" where
  "packed23_u64_i32 input bi output vi =
     rbind (idx input bi) (\<lambda>block0.
     rbind (stores output vi
       [ucast (drop_bit 41 block0), ucast (drop_bit 18 block0 AND 8388607)]) (\<lambda>output.
     rbind (idx input (bi + 1)) (\<lambda>block1.
     rbind (stores output (vi + 2)
       [ucast (push_bit 5 (block0 AND 262143) OR drop_bit 59 block1),
        ucast (drop_bit 36 block1 AND 8388607), ucast (drop_bit 13 block1 AND 8388607)]) (\<lambda>output.
     rbind (idx input (bi + 2)) (\<lambda>block2.
     rbind (stores output (vi + 5)
       [ucast (push_bit 10 (block1 AND 8191) OR drop_bit 54 block2), ucast (drop_bit 31 block2 AND 8388607),
        ucast (drop_bit 8 block2 AND 8388607)]) (\<lambda>output.
     rbind (idx input (bi + 3)) (\<lambda>block3.
     rbind (stores output (vi + 8)
       [ucast (push_bit 15 (block2 AND 255) OR drop_bit 49 block3), ucast (drop_bit 26 block3 AND 8388607),
        ucast (drop_bit 3 block3 AND 8388607)]) (\<lambda>output.
     rbind (idx input (bi + 4)) (\<lambda>block4.
     rbind (stores output (vi + 11)
       [ucast (push_bit 20 (block3 AND 7) OR drop_bit 44 block4), ucast (drop_bit 21 block4 AND 8388607)]) (\<lambda>output.
     rbind (idx input (bi + 5)) (\<lambda>block5.
     rbind (stores output (vi + 13)
       [ucast (push_bit 2 (block4 AND 2097151) OR drop_bit 62 block5),
        ucast (drop_bit 39 block5 AND 8388607), ucast (drop_bit 16 block5 AND 8388607)]) (\<lambda>output.
     rbind (idx input (bi + 6)) (\<lambda>block6.
     rbind (stores output (vi + 16)
       [ucast (push_bit 7 (block5 AND 65535) OR drop_bit 57 block6), ucast (drop_bit 34 block6 AND 8388607),
        ucast (drop_bit 11 block6 AND 8388607)]) (\<lambda>output.
     rbind (idx input (bi + 7)) (\<lambda>block7.
     rbind (stores output (vi + 19)
       [ucast (push_bit 12 (block6 AND 2047) OR drop_bit 52 block7), ucast (drop_bit 29 block7 AND 8388607),
        ucast (drop_bit 6 block7 AND 8388607)]) (\<lambda>output.
     rbind (idx input (bi + 8)) (\<lambda>block8.
     rbind (stores output (vi + 22)
       [ucast (push_bit 17 (block7 AND 63) OR drop_bit 47 block8), ucast (drop_bit 24 block8 AND 8388607),
        ucast (drop_bit 1 block8 AND 8388607)]) (\<lambda>output.
     rbind (idx input (bi + 9)) (\<lambda>block9.
     rbind (stores output (vi + 25)
       [ucast (push_bit 22 (block8 AND 1) OR drop_bit 42 block9), ucast (drop_bit 19 block9 AND 8388607)]) (\<lambda>output.
     rbind (idx input (bi + 10)) (\<lambda>block10.
     rbind (stores output (vi + 27)
       [ucast (push_bit 4 (block9 AND 524287) OR drop_bit 60 block10),
        ucast (drop_bit 37 block10 AND 8388607), ucast (drop_bit 14 block10 AND 8388607)]) (\<lambda>output.
     rbind (idx input (bi + 11)) (\<lambda>block11.
     rbind (stores output (vi + 30)
       [ucast (push_bit 9 (block10 AND 16383) OR drop_bit 55 block11),
        ucast (drop_bit 32 block11 AND 8388607), ucast (drop_bit 9 block11 AND 8388607)]) (\<lambda>output.
     rbind (idx input (bi + 12)) (\<lambda>block12.
     rbind (stores output (vi + 33)
       [ucast (push_bit 14 (block11 AND 511) OR drop_bit 50 block12),
        ucast (drop_bit 27 block12 AND 8388607), ucast (drop_bit 4 block12 AND 8388607)]) (\<lambda>output.
     rbind (idx input (bi + 13)) (\<lambda>block13.
     rbind (stores output (vi + 36)
       [ucast (push_bit 19 (block12 AND 15) OR drop_bit 45 block13), ucast (drop_bit 22 block13 AND 8388607)]) (\<lambda>output.
     rbind (idx input (bi + 14)) (\<lambda>block14.
     rbind (stores output (vi + 38)
       [ucast (push_bit 1 (block13 AND 4194303) OR drop_bit 63 block14),
        ucast (drop_bit 40 block14 AND 8388607), ucast (drop_bit 17 block14 AND 8388607)]) (\<lambda>output.
     rbind (idx input (bi + 15)) (\<lambda>block15.
     rbind (stores output (vi + 41)
       [ucast (push_bit 6 (block14 AND 131071) OR drop_bit 58 block15),
        ucast (drop_bit 35 block15 AND 8388607), ucast (drop_bit 12 block15 AND 8388607)]) (\<lambda>output.
     rbind (idx input (bi + 16)) (\<lambda>block16.
     rbind (stores output (vi + 44)
       [ucast (push_bit 11 (block15 AND 4095) OR drop_bit 53 block16),
        ucast (drop_bit 30 block16 AND 8388607), ucast (drop_bit 7 block16 AND 8388607)]) (\<lambda>output.
     rbind (idx input (bi + 17)) (\<lambda>block17.
     rbind (stores output (vi + 47)
       [ucast (push_bit 16 (block16 AND 127) OR drop_bit 48 block17),
        ucast (drop_bit 25 block17 AND 8388607), ucast (drop_bit 2 block17 AND 8388607)]) (\<lambda>output.
     rbind (idx input (bi + 18)) (\<lambda>block18.
     rbind (stores output (vi + 50)
       [ucast (push_bit 21 (block17 AND 3) OR drop_bit 43 block18), ucast (drop_bit 20 block18 AND 8388607)]) (\<lambda>output.
     rbind (idx input (bi + 19)) (\<lambda>block19.
     rbind (stores output (vi + 52)
       [ucast (push_bit 3 (block18 AND 1048575) OR drop_bit 61 block19),
        ucast (drop_bit 38 block19 AND 8388607), ucast (drop_bit 15 block19 AND 8388607)]) (\<lambda>output.
     rbind (idx input (bi + 20)) (\<lambda>block20.
     rbind (stores output (vi + 55)
       [ucast (push_bit 8 (block19 AND 32767) OR drop_bit 56 block20),
        ucast (drop_bit 33 block20 AND 8388607), ucast (drop_bit 10 block20 AND 8388607)]) (\<lambda>output.
     rbind (idx input (bi + 21)) (\<lambda>block21.
     rbind (stores output (vi + 58)
       [ucast (push_bit 13 (block20 AND 1023) OR drop_bit 51 block21),
        ucast (drop_bit 28 block21 AND 8388607), ucast (drop_bit 5 block21 AND 8388607)]) (\<lambda>output.
     rbind (idx input (bi + 22)) (\<lambda>block22.
     rbind (stores output (vi + 61)
       [ucast (push_bit 18 (block21 AND 31) OR drop_bit 46 block22),
        ucast (drop_bit 23 block22 AND 8388607), ucast (block22 AND 8388607)]) (\<lambda>output.
     Inr (bi + 23, output, vi + 64)))))))))))))))))))))))))))))))))))))))))))))))"

definition packed23_decode_u64_to_i32 :: "64 word list \<Rightarrow> nat \<Rightarrow> 32 word list \<Rightarrow> nat \<Rightarrow> nat \<Rightarrow> 32 word list res" where
  "packed23_decode_u64_to_i32 = decode_fast 0 23 64 packed23_u64_i32 packed23_u64_i32"

interpretation packed23_u64_i32: bulk_group packed23_u64_i32 64 23 23 64 "\<lambda>x. x" ucast
proof
  show "packed23_u64_i32 input bi out vi = Inr (bi + 23, patch out vi
      (map (ucast) (unpack 64 (\<lambda>i. input ! (bi + i)) 23 64)), vi + 64)"
    if "bi + 23 \<le> length input" "vi + 64 \<le> length out" for bi vi input out
    using that unfolding packed23_u64_i32_def and_masks
    by (simp add: stores_ok patch_fuse, intro patch_cong, simp add: unpack_def upt_rec,
        simp add: gather_in gather_over unpack_simps)
qed simp_all

lemma packed23_decode_u64_to_i32_ok [bulk_decode]:
  "bo + n * 23 \<le> length blocks \<Longrightarrow> vo + n * 64 \<le> length vals \<Longrightarrow>
   packed23_decode_u64_to_i32 blocks bo vals vo n = Inr (patch vals vo (map ucast (unpack 64 (\<lambda>i. blocks ! (bo + i)) 23 (n * 64))))"
  using packed23_u64_i32.decode_fast_ok [OF packed23_u64_i32.bulk_group_axioms, of bo n blocks vo vals] by (simp add: packed23_decode_u64_to_i32_def)

definition packed23_u8_i32 :: "8 word list \<Rightarrow> nat \<Rightarrow> 32 word list \<Rightarrow> nat \<Rightarrow> (nat \<times> 32 word list \<times> nat) res" where
  "packed23_u8_i32 input bi output vi =
     rbind (idx_as input bi) (\<lambda>byte0.
     rbind (idx_as input (bi + 1)) (\<lambda>byte1.
     rbind (idx_as input (bi + 2)) (\<lambda>byte2.
     rbind (stores output vi
       [(push_bit 15 byte0 OR push_bit 7 byte1) OR signed_drop_bit 1 byte2]) (\<lambda>output.
     rbind (idx_as input (bi + 3)) (\<lambda>byte3.
     rbind (idx_as input (bi + 4)) (\<lambda>byte4.
     rbind (idx_as input (bi + 5)) (\<lambda>byte5.
     rbind (stores output (vi + 1)
       [((push_bit 22 (byte2 AND 1) OR push_bit 14 byte3) OR push_bit 6 byte4) OR signed_drop_bit 2 byte5]) (\<lambda>output.
     rbind (idx_as input (bi + 6)) (\<lambda>byte6.
     rbind (idx_as input (bi + 7)) (\<lambda>byte7.
     rbind (idx_as input (bi + 8)) (\<lambda>byte8.
     rbind (stores output (vi + 2)
       [((push_bit 21 (byte5 AND 3) OR push_bit 13 byte6) OR push_bit 5 byte7) OR signed_drop_bit 3 byte8]) (\<lambda>output.
     rbind (idx_as input (bi + 9)) (\<lambda>byte9.
     rbind (idx_as input (bi + 10)) (\<lambda>byte10.
     rbind (idx_as input (bi + 11)) (\<lambda>byte11.
     rbind (stores output (vi + 3)
       [((push_bit 20 (byte8 AND 7) OR push_bit 12 byte9) OR push_bit 4 byte10) OR signed_drop_bit 4 byte11]) (\<lambda>output.
     rbind (idx_as input (bi + 12)) (\<lambda>byte12.
     rbind (idx_as input (bi + 13)) (\<lambda>byte13.
     rbind (idx_as input (bi + 14)) (\<lambda>byte14.
     rbind (stores output (vi + 4)
       [((push_bit 19 (byte11 AND 15) OR push_bit 11 byte12) OR push_bit 3 byte13) OR signed_drop_bit 5 byte14]) (\<lambda>output.
     rbind (idx_as input (bi + 15)) (\<lambda>byte15.
     rbind (idx_as input (bi + 16)) (\<lambda>byte16.
     rbind (idx_as input (bi + 17)) (\<lambda>byte17.
     rbind (stores output (vi + 5)
       [((push_bit 18 (byte14 AND 31) OR push_bit 10 byte15) OR push_bit 2 byte16) OR signed_drop_bit 6 byte17]) (\<lambda>output.
     rbind (idx_as input (bi + 18)) (\<lambda>byte18.
     rbind (idx_as input (bi + 19)) (\<lambda>byte19.
     rbind (idx_as input (bi + 20)) (\<lambda>byte20.
     rbind (stores output (vi + 6)
       [((push_bit 17 (byte17 AND 63) OR push_bit 9 byte18) OR push_bit 1 byte19) OR signed_drop_bit 7 byte20]) (\<lambda>output.
     rbind (idx_as input (bi + 21)) (\<lambda>byte21.
     rbind (idx_as input (bi + 22)) (\<lambda>byte22.
     rbind (stores output (vi + 7)
       [(push_bit 16 (byte20 AND 127) OR push_bit 8 byte21) OR byte22]) (\<lambda>output.
     Inr (bi + 23, output, vi + 8))))))))))))))))))))))))))))))))"

definition packed23_decode_u8_to_i32 :: "8 word list \<Rightarrow> nat \<Rightarrow> 32 word list \<Rightarrow> nat \<Rightarrow> nat \<Rightarrow> 32 word list res" where
  "packed23_decode_u8_to_i32 = decode_fast 0 23 8 packed23_u8_i32 packed23_u8_i32"

interpretation packed23_u8_i32: bulk_group packed23_u8_i32 8 23 23 8 ucast "\<lambda>x. x"
proof
  show "packed23_u8_i32 input bi out vi = Inr (bi + 23, patch out vi
      (map (\<lambda>x. x) (unpack 8 (\<lambda>i. ucast (input ! (bi + i))) 23 8)), vi + 8)"
    if "bi + 23 \<le> length input" "vi + 8 \<le> length out" for bi vi input out
    using that unfolding packed23_u8_i32_def and_masks
    by (simp add: stores_ok patch_fuse, intro patch_cong, simp add: unpack_def upt_rec,
        simp add: gather_in gather_over unpack_simps)
qed simp_all

lemma packed23_decode_u8_to_i32_ok [bulk_decode]:
  "bo + n * 23 \<le> length blocks \<Longrightarrow> vo + n * 8 \<le> length vals \<Longrightarrow>
   packed23_decode_u8_to_i32 blocks bo vals vo n = Inr (patch vals vo (unpack 8 (\<lambda>i. ucast (blocks ! (bo + i))) 23 (n * 8)))"
  using packed23_u8_i32.decode_fast_ok [OF packed23_u8_i32.bulk_group_axioms, of bo n blocks vo vals] by (simp add: packed23_decode_u8_to_i32_def)

section \<open>\<open>BulkOperationPacked24\<close>\<close>

definition packed24_u64_i64 :: "64 word list \<Rightarrow> nat \<Rightarrow> 64 word list \<Rightarrow> nat \<Rightarrow> (nat \<times> 64 word list \<times> nat) res" where
  "packed24_u64_i64 input bi output vi =
     rbind (idx input bi) (\<lambda>block0.
     rbind (stores output vi
       [drop_bit 40 block0, drop_bit 16 block0 AND 16777215]) (\<lambda>output.
     rbind (idx input (bi + 1)) (\<lambda>block1.
     rbind (stores output (vi + 2)
       [push_bit 8 (block0 AND 65535) OR drop_bit 56 block1, drop_bit 32 block1 AND 16777215,
        drop_bit 8 block1 AND 16777215]) (\<lambda>output.
     rbind (idx input (bi + 2)) (\<lambda>block2.
     rbind (stores output (vi + 5)
       [push_bit 16 (block1 AND 255) OR drop_bit 48 block2, drop_bit 24 block2 AND 16777215,
        block2 AND 16777215]) (\<lambda>output.
     Inr (bi + 3, output, vi + 8)))))))"

definition packed24_decode_u64_to_i64 :: "64 word list \<Rightarrow> nat \<Rightarrow> 64 word list \<Rightarrow> nat \<Rightarrow> nat \<Rightarrow> 64 word list res" where
  "packed24_decode_u64_to_i64 = decode_loop packed24_u64_i64"

interpretation packed24_u64_i64: bulk_group packed24_u64_i64 64 24 3 8 "\<lambda>x. x" "\<lambda>x. x"
proof
  show "packed24_u64_i64 input bi out vi = Inr (bi + 3, patch out vi
      (map (\<lambda>x. x) (unpack 64 (\<lambda>i. input ! (bi + i)) 24 8)), vi + 8)"
    if "bi + 3 \<le> length input" "vi + 8 \<le> length out" for bi vi input out
    using that unfolding packed24_u64_i64_def and_masks
    by (simp add: stores_ok patch_fuse, intro patch_cong, simp add: unpack_def upt_rec,
        simp add: gather_in gather_over unpack_simps)
qed simp_all

lemma packed24_decode_u64_to_i64_ok [bulk_decode]:
  "bo + n * 3 \<le> length blocks \<Longrightarrow> vo + n * 8 \<le> length vals \<Longrightarrow>
   packed24_decode_u64_to_i64 blocks bo vals vo n = Inr (patch vals vo (unpack 64 (\<lambda>i. blocks ! (bo + i)) 24 (n * 8)))"
  using packed24_u64_i64.decode_loop_ok [of bo n blocks vo vals] by (simp add: packed24_decode_u64_to_i64_def)

definition packed24_u8_i64 :: "8 word list \<Rightarrow> nat \<Rightarrow> 64 word list \<Rightarrow> nat \<Rightarrow> (nat \<times> 64 word list \<times> nat) res" where
  "packed24_u8_i64 input bi output vi =
     rbind (idx_as input bi) (\<lambda>byte0.
     rbind (idx_as input (bi + 1)) (\<lambda>byte1.
     rbind (idx_as input (bi + 2)) (\<lambda>byte2.
     rbind (stores output vi
       [(push_bit 16 byte0 OR push_bit 8 byte1) OR byte2]) (\<lambda>output.
     Inr (bi + 3, output, vi + 1)))))"

definition packed24_decode_u8_to_i64 :: "8 word list \<Rightarrow> nat \<Rightarrow> 64 word list \<Rightarrow> nat \<Rightarrow> nat \<Rightarrow> 64 word list res" where
  "packed24_decode_u8_to_i64 = decode_loop packed24_u8_i64"

interpretation packed24_u8_i64: bulk_group packed24_u8_i64 8 24 3 1 ucast "\<lambda>x. x"
proof
  show "packed24_u8_i64 input bi out vi = Inr (bi + 3, patch out vi
      (map (\<lambda>x. x) (unpack 8 (\<lambda>i. ucast (input ! (bi + i))) 24 1)), vi + 1)"
    if "bi + 3 \<le> length input" "vi + 1 \<le> length out" for bi vi input out
    using that unfolding packed24_u8_i64_def and_masks
    by (simp add: stores_ok patch_fuse, intro patch_cong, simp add: unpack_def upt_rec,
        simp add: gather_in gather_over unpack_simps)
qed simp_all

lemma packed24_decode_u8_to_i64_ok [bulk_decode]:
  "bo + n * 3 \<le> length blocks \<Longrightarrow> vo + n * 1 \<le> length vals \<Longrightarrow>
   packed24_decode_u8_to_i64 blocks bo vals vo n = Inr (patch vals vo (unpack 8 (\<lambda>i. ucast (blocks ! (bo + i))) 24 (n * 1)))"
  using packed24_u8_i64.decode_loop_ok [of bo n blocks vo vals] by (simp add: packed24_decode_u8_to_i64_def)

definition packed24_u64_i32 :: "64 word list \<Rightarrow> nat \<Rightarrow> 32 word list \<Rightarrow> nat \<Rightarrow> (nat \<times> 32 word list \<times> nat) res" where
  "packed24_u64_i32 input bi output vi =
     rbind (idx input bi) (\<lambda>block0.
     rbind (stores output vi
       [ucast (drop_bit 40 block0), ucast (drop_bit 16 block0 AND 16777215)]) (\<lambda>output.
     rbind (idx input (bi + 1)) (\<lambda>block1.
     rbind (stores output (vi + 2)
       [ucast (push_bit 8 (block0 AND 65535) OR drop_bit 56 block1),
        ucast (drop_bit 32 block1 AND 16777215), ucast (drop_bit 8 block1 AND 16777215)]) (\<lambda>output.
     rbind (idx input (bi + 2)) (\<lambda>block2.
     rbind (stores output (vi + 5)
       [ucast (push_bit 16 (block1 AND 255) OR drop_bit 48 block2), ucast (drop_bit 24 block2 AND 16777215),
        ucast (block2 AND 16777215)]) (\<lambda>output.
     Inr (bi + 3, output, vi + 8)))))))"

definition packed24_decode_u64_to_i32 :: "64 word list \<Rightarrow> nat \<Rightarrow> 32 word list \<Rightarrow> nat \<Rightarrow> nat \<Rightarrow> 32 word list res" where
  "packed24_decode_u64_to_i32 = decode_loop packed24_u64_i32"

interpretation packed24_u64_i32: bulk_group packed24_u64_i32 64 24 3 8 "\<lambda>x. x" ucast
proof
  show "packed24_u64_i32 input bi out vi = Inr (bi + 3, patch out vi
      (map (ucast) (unpack 64 (\<lambda>i. input ! (bi + i)) 24 8)), vi + 8)"
    if "bi + 3 \<le> length input" "vi + 8 \<le> length out" for bi vi input out
    using that unfolding packed24_u64_i32_def and_masks
    by (simp add: stores_ok patch_fuse, intro patch_cong, simp add: unpack_def upt_rec,
        simp add: gather_in gather_over unpack_simps)
qed simp_all

lemma packed24_decode_u64_to_i32_ok [bulk_decode]:
  "bo + n * 3 \<le> length blocks \<Longrightarrow> vo + n * 8 \<le> length vals \<Longrightarrow>
   packed24_decode_u64_to_i32 blocks bo vals vo n = Inr (patch vals vo (map ucast (unpack 64 (\<lambda>i. blocks ! (bo + i)) 24 (n * 8))))"
  using packed24_u64_i32.decode_loop_ok [of bo n blocks vo vals] by (simp add: packed24_decode_u64_to_i32_def)

definition packed24_u8_i32 :: "8 word list \<Rightarrow> nat \<Rightarrow> 32 word list \<Rightarrow> nat \<Rightarrow> (nat \<times> 32 word list \<times> nat) res" where
  "packed24_u8_i32 input bi output vi =
     rbind (idx_as input bi) (\<lambda>byte0.
     rbind (idx_as input (bi + 1)) (\<lambda>byte1.
     rbind (idx_as input (bi + 2)) (\<lambda>byte2.
     rbind (stores output vi
       [(push_bit 16 byte0 OR push_bit 8 byte1) OR byte2]) (\<lambda>output.
     Inr (bi + 3, output, vi + 1)))))"

definition packed24_decode_u8_to_i32 :: "8 word list \<Rightarrow> nat \<Rightarrow> 32 word list \<Rightarrow> nat \<Rightarrow> nat \<Rightarrow> 32 word list res" where
  "packed24_decode_u8_to_i32 = decode_loop packed24_u8_i32"

interpretation packed24_u8_i32: bulk_group packed24_u8_i32 8 24 3 1 ucast "\<lambda>x. x"
proof
  show "packed24_u8_i32 input bi out vi = Inr (bi + 3, patch out vi
      (map (\<lambda>x. x) (unpack 8 (\<lambda>i. ucast (input ! (bi + i))) 24 1)), vi + 1)"
    if "bi + 3 \<le> length input" "vi + 1 \<le> length out" for bi vi input out
    using that unfolding packed24_u8_i32_def and_masks
    by (simp add: stores_ok patch_fuse, intro patch_cong, simp add: unpack_def upt_rec,
        simp add: gather_in gather_over unpack_simps)
qed simp_all

lemma packed24_decode_u8_to_i32_ok [bulk_decode]:
  "bo + n * 3 \<le> length blocks \<Longrightarrow> vo + n * 1 \<le> length vals \<Longrightarrow>
   packed24_decode_u8_to_i32 blocks bo vals vo n = Inr (patch vals vo (unpack 8 (\<lambda>i. ucast (blocks ! (bo + i))) 24 (n * 1)))"
  using packed24_u8_i32.decode_loop_ok [of bo n blocks vo vals] by (simp add: packed24_decode_u8_to_i32_def)

end
