(* ===== verification/Bulk_Packed.thy ===== *)
theory Bulk_Packed
  imports Packed_Bits Word_Bits
begin

text \<open>
  \<^verbatim>\<open>BulkOperationPacked\<close> (\<open>util/packed/bulk_operation_packed.rs\<close>): the bulk operations for
  every number of bits per value, whose loops carry the position in the block. The decoders
  extract the fields of the layout, the encoders are the same extraction with the roles of
  blocks and values exchanged.
\<close>

unbundle bit_operations_syntax

section \<open>The operation and its block counts\<close>

record bulk_packed =
  bp_bits_per_value :: int
  bp_long_block_count :: nat
  bp_long_value_count :: nat
  bp_byte_block_count :: nat
  bp_byte_value_count :: nat
  bp_mask :: "64 word"
  bp_int_mask :: "32 word"

text \<open>\<^verbatim>\<open>while blocks & 1 == 0 { blocks >>= 1 }\<close>; the assertion before it excludes zero.\<close>

fun odd_part :: "nat \<Rightarrow> nat" where
  "odd_part blocks = (if even blocks \<and> 0 < blocks then odd_part (blocks div 2) else blocks)"

declare odd_part.simps [simp del]

fun halve_both :: "nat \<Rightarrow> nat \<Rightarrow> nat \<times> nat" where
  "halve_both m n = (if even m \<and> even n \<and> 0 < m then halve_both (m div 2) (n div 2) else (m, n))"

declare halve_both.simps [simp del]

definition bulk_packed_new :: "nat \<Rightarrow> bulk_packed res" where
  "bulk_packed_new bits_per_value =
     dassert (0 < bits_per_value \<and> bits_per_value \<le> 64) (
     let long_block_count = odd_part bits_per_value;
         long_value_count = 64 * long_block_count div bits_per_value;
         (byte_block_count, byte_value_count) = halve_both (8 * long_block_count) long_value_count;
         m = (if bits_per_value = 64 then NOT 0 else push_bit bits_per_value 1 - 1)
     in dassert (long_value_count * bits_per_value = 64 * long_block_count) (
        Inr \<lparr>bp_bits_per_value = int bits_per_value, bp_long_block_count = long_block_count,
          bp_long_value_count = long_value_count, bp_byte_block_count = byte_block_count,
          bp_byte_value_count = byte_value_count, bp_mask = m, bp_int_mask = ucast m\<rparr>))"

section \<open>Decoding\<close>

text \<open>
  One value out of 64-bit blocks: the position in the block and the index of the block
  before and after it. The two decoders of 64-bit blocks differ in the cast of the value.
\<close>

definition decode_long_step ::
  "bulk_packed \<Rightarrow> (64 word \<Rightarrow> 'v) \<Rightarrow> 64 word list \<Rightarrow> int \<times> nat \<times> 'v list \<times> nat \<Rightarrow>
   (int \<times> nat \<times> 'v list \<times> nat) res" where
  "decode_long_step bp cast blocks = (\<lambda>(bits_left, blocks_offset, values, values_offset).
     let bits_left = bits_left - bp_bits_per_value bp in
     if bits_left < 0
     then rbind (idx blocks blocks_offset) (\<lambda>block.
       let lower_part = wrapping_shl (block AND (wrapping_shl 1 (bp_bits_per_value bp + bits_left) - 1)) (- bits_left);
           blocks_offset = blocks_offset + 1
       in rbind (idx blocks blocks_offset) (\<lambda>block.
          let upper_part = wrapping_shr block (64 + bits_left) in
          rbind (upd values values_offset (cast (lower_part OR upper_part))) (\<lambda>values.
            Inr (bits_left + 64, blocks_offset, values, values_offset + 1))))
     else rbind (idx blocks blocks_offset) (\<lambda>block. rbind (shr block bits_left) (\<lambda>x.
       rbind (upd values values_offset (cast (x AND bp_mask bp))) (\<lambda>values.
         Inr (bits_left, blocks_offset, values, values_offset + 1)))))"

definition decode_long ::
  "bulk_packed \<Rightarrow> (64 word \<Rightarrow> 'v) \<Rightarrow> 64 word list \<Rightarrow> nat \<Rightarrow> 'v list \<Rightarrow> nat \<Rightarrow> nat \<Rightarrow> 'v list res" where
  "decode_long bp cast blocks blocks_offset values values_offset iterations =
     rbind (for_each [0..<bp_long_value_count bp * iterations] (\<lambda>_. decode_long_step bp cast blocks)
       (64, blocks_offset, values, values_offset)) (\<lambda>(_, _, values, _). Inr values)"

definition bp_decode_u64_to_i64 ::
  "bulk_packed \<Rightarrow> 64 word list \<Rightarrow> nat \<Rightarrow> 64 word list \<Rightarrow> nat \<Rightarrow> nat \<Rightarrow> 64 word list res" where
  "bp_decode_u64_to_i64 bp = decode_long bp (\<lambda>x. x)"

definition bp_decode_u64_to_i32 ::
  "bulk_packed \<Rightarrow> 64 word list \<Rightarrow> nat \<Rightarrow> 32 word list \<Rightarrow> nat \<Rightarrow> nat \<Rightarrow> 32 word list res" where
  "bp_decode_u64_to_i32 bp blocks blocks_offset values values_offset iterations =
     (if 32 < bp_bits_per_value bp then Inl UnsupportedOperation
      else decode_long bp ucast blocks blocks_offset values values_offset iterations)"

text \<open>
  One byte: it is buffered in \<open>next_value\<close>, or it completes a value, gives further values
  (the inner loop) and leaves its remaining bits in \<open>next_value\<close>. The decoders into 64 and
  32 bits differ in the width of the arithmetic and in the shift that buffers the byte.
\<close>

function flush_values ::
  "int \<Rightarrow> 'x::len word \<Rightarrow> 'x word \<Rightarrow> int \<Rightarrow> 'x word list \<Rightarrow> nat \<Rightarrow> (int \<times> 'x word list \<times> nat) res" where
  "flush_values bits_per_value m bytes bits values values_offset =
     (if bits_per_value \<le> bits \<and> 0 < bits_per_value
      then let bits = bits - bits_per_value in
           rbind (shr bytes bits) (\<lambda>x. rbind (upd values values_offset (x AND m)) (\<lambda>values.
             flush_values bits_per_value m bytes bits values (values_offset + 1)))
      else Inr (bits, values, values_offset))"
  by pat_completeness auto

termination
  by (relation "measure (\<lambda>(b, m, x, bits, vs, vo). nat bits)") auto

declare flush_values.simps [simp del]

definition decode_byte_step ::
  "('x::len word \<Rightarrow> int \<Rightarrow> 'x word res) \<Rightarrow> int \<Rightarrow> 'x word \<Rightarrow> 8 word list \<Rightarrow>
   'x word \<times> int \<times> nat \<times> 'x word list \<times> nat \<Rightarrow> ('x word \<times> int \<times> nat \<times> 'x word list \<times> nat) res" where
  "decode_byte_step buffer bits_per_value m blocks =
     (\<lambda>(next_value, bits_left, blocks_offset, values, values_offset).
     rbind (idx_as blocks blocks_offset) (\<lambda>bytes.
     let blocks_offset = blocks_offset + 1 in
     if 8 < bits_left
     then let bits_left = bits_left - 8 in
          rbind (buffer bytes bits_left) (\<lambda>x.
            Inr (next_value OR x, bits_left, blocks_offset, values, values_offset))
     else let bits = 8 - bits_left in
          rbind (shr bytes bits) (\<lambda>x.
          rbind (upd values values_offset (next_value OR x)) (\<lambda>values.
          rbind (flush_values bits_per_value m bytes bits values (values_offset + 1))
            (\<lambda>(bits, values, values_offset).
          let bits_left = bits_per_value - bits in
          rbind (shl 1 bits) (\<lambda>y.
            Inr (wrapping_shl (bytes AND (y - 1)) bits_left, bits_left, blocks_offset, values, values_offset)))))))"

definition decode_byte ::
  "('x::len word \<Rightarrow> int \<Rightarrow> 'x word res) \<Rightarrow> bulk_packed \<Rightarrow> 'x word \<Rightarrow>
   8 word list \<Rightarrow> nat \<Rightarrow> 'x word list \<Rightarrow> nat \<Rightarrow> nat \<Rightarrow> 'x word list res" where
  "decode_byte buffer bp m blocks blocks_offset values values_offset iterations =
     rbind (for_each [0..<iterations * bp_byte_block_count bp]
         (\<lambda>_. decode_byte_step buffer (bp_bits_per_value bp) m blocks)
         (0, bp_bits_per_value bp, blocks_offset, values, values_offset))
       (\<lambda>(_, bits_left, _, values, _). dassert (bits_left = bp_bits_per_value bp) (Inr values))"

definition bp_decode_u8_to_i64 ::
  "bulk_packed \<Rightarrow> 8 word list \<Rightarrow> nat \<Rightarrow> 64 word list \<Rightarrow> nat \<Rightarrow> nat \<Rightarrow> 64 word list res" where
  "bp_decode_u8_to_i64 bp = decode_byte shl bp (bp_mask bp)"

definition bp_decode_u8_to_i32 ::
  "bulk_packed \<Rightarrow> 8 word list \<Rightarrow> nat \<Rightarrow> 32 word list \<Rightarrow> nat \<Rightarrow> nat \<Rightarrow> 32 word list res" where
  "bp_decode_u8_to_i32 bp = decode_byte (\<lambda>x n. Inr (wrapping_shl x n)) bp (bp_int_mask bp)"

section \<open>Encoding\<close>

text \<open>
  One value into 64-bit blocks: it fills the block, is buffered, or fills the block and
  leaves bits for the next one. \<open>low\<close> and \<open>full\<close> are the two casts of a value to \<^verbatim>\<open>u64\<close> in the
  code: the identity for \<^verbatim>\<open>i64\<close> values; for \<^verbatim>\<open>i32\<close> values with and without the mask of the low
  half.
\<close>

definition encode_long_step ::
  "int \<Rightarrow> ('v \<Rightarrow> 64 word) \<Rightarrow> ('v \<Rightarrow> 64 word) \<Rightarrow> 'v list \<Rightarrow>
   64 word \<times> int \<times> nat \<times> 64 word list \<times> nat \<Rightarrow> (64 word \<times> int \<times> nat \<times> 64 word list \<times> nat) res" where
  "encode_long_step bits_per_value low full values =
     (\<lambda>(next_block, bits_left, values_offset, blocks, blocks_offset).
     let bits_left = bits_left - bits_per_value in
     rbind (idx values values_offset) (\<lambda>v.
     if bits_left = 0
     then rbind (upd blocks blocks_offset (next_block OR low v)) (\<lambda>blocks.
            Inr (0, 64, values_offset + 1, blocks, blocks_offset + 1))
     else if 0 < bits_left
     then rbind (shl (low v) bits_left) (\<lambda>x.
            Inr (next_block OR x, bits_left, values_offset + 1, blocks, blocks_offset))
     else rbind (upd blocks blocks_offset (next_block OR wrapping_shr (low v) (- bits_left))) (\<lambda>blocks.
            Inr (wrapping_shl (full v AND (wrapping_shl 1 (- bits_left) - 1)) (64 + bits_left),
              bits_left + 64, values_offset + 1, blocks, blocks_offset + 1))))"

definition encode_long ::
  "int \<Rightarrow> ('v \<Rightarrow> 64 word) \<Rightarrow> ('v \<Rightarrow> 64 word) \<Rightarrow>
   'v list \<Rightarrow> nat \<Rightarrow> 64 word list \<Rightarrow> nat \<Rightarrow> nat \<Rightarrow> 64 word list res" where
  "encode_long bits_per_value low full values values_offset blocks blocks_offset remaining_values =
     rbind (for_each [0..<remaining_values] (\<lambda>_. encode_long_step bits_per_value low full values)
       (0, 64, values_offset, blocks, blocks_offset)) (\<lambda>(_, _, _, blocks, _). Inr blocks)"

text \<open>
  The two-lane vectors of the \<^verbatim>\<open>wide\<close> crate that the \<^verbatim>\<open>i64\<close> encoder uses for widths 16 and
  32: \<^verbatim>\<open>cast\<close> of an array of values, \<^verbatim>\<open>u64x2::transpose\<close>, the lane-wise \<^verbatim>\<open><<\<close> and \<^verbatim>\<open>|\<close>, and
  \<^verbatim>\<open>to_array\<close>.
\<close>

record 'x u64x2 =
  x_cast :: "64 word list \<Rightarrow> 'x list"
  x_transpose :: "'x \<Rightarrow> 'x \<Rightarrow> 'x \<times> 'x"
  x_shl :: "'x \<Rightarrow> nat \<Rightarrow> 'x"
  x_or :: "'x \<Rightarrow> 'x \<Rightarrow> 'x"
  x_to_array :: "'x \<Rightarrow> 64 word \<times> 64 word"

definition simd_pair :: "'x u64x2 \<Rightarrow> int \<Rightarrow> 64 word list \<Rightarrow> (64 word \<times> 64 word) res" where
  "simd_pair X bits_per_value chunk =
     (if bits_per_value = 16
      then (case x_cast X chunk of
          [ab, cd, ef, gh] \<Rightarrow>
            let (a, b) = x_transpose X ab ef; (c, d) = x_transpose X cd gh in
            Inr (x_to_array X (x_or X (x_or X (x_or X (x_shl X a 48) (x_shl X b 32)) (x_shl X c 16)) d))
        | _ \<Rightarrow> Inl Panic)
      else (case x_cast X chunk of
          [ab, cd] \<Rightarrow>
            let (high, low) = x_transpose X ab cd in
            Inr (x_to_array X (x_or X (x_shl X high 32) low))
        | _ \<Rightarrow> Inl Panic))"

definition simd_loop ::
  "'x u64x2 \<Rightarrow> int \<Rightarrow> nat \<Rightarrow> 64 word list \<Rightarrow> 64 word list \<Rightarrow> nat \<Rightarrow> nat \<Rightarrow> 64 word list res" where
  "simd_loop X bits_per_value chunk_size input blocks blocks_offset pairs =
     for_each [0..<min pairs (length input div chunk_size)] (\<lambda>p blocks.
       rbind (simd_pair X bits_per_value (take chunk_size (drop (p * chunk_size) input))) (\<lambda>(x, y).
         Inr (patch blocks (blocks_offset + 2 * p) [x, y]))) blocks"

definition bp_encode_i64_to_u64 ::
  "'x u64x2 \<Rightarrow> bulk_packed \<Rightarrow> 64 word list \<Rightarrow> nat \<Rightarrow> 64 word list \<Rightarrow> nat \<Rightarrow> nat \<Rightarrow> 64 word list res" where
  "bp_encode_i64_to_u64 X bp values values_offset blocks blocks_offset iterations =
     (let b = bp_bits_per_value bp; remaining_values = bp_long_value_count bp * iterations in
      if 2 \<le> iterations \<and> (b = 16 \<or> b = 32) \<and> values_offset + remaining_values \<le> length values
        \<and> blocks_offset + iterations \<le> length blocks
      then let input = take remaining_values (drop values_offset values);
               pairs = iterations div 2;
               written = pairs * 2;
               consumed = written * bp_long_value_count bp
           in rbind (simd_loop X b (if b = 16 then 8 else 4) input blocks blocks_offset pairs) (\<lambda>blocks.
              rbind (usub remaining_values consumed) (\<lambda>remaining_values.
                encode_long b (\<lambda>x. x) (\<lambda>x. x) values (values_offset + consumed) blocks (blocks_offset + written)
                  remaining_values))
      else encode_long b (\<lambda>x. x) (\<lambda>x. x) values values_offset blocks blocks_offset remaining_values)"

definition bp_encode_i32_to_u64 ::
  "bulk_packed \<Rightarrow> 32 word list \<Rightarrow> nat \<Rightarrow> 64 word list \<Rightarrow> nat \<Rightarrow> nat \<Rightarrow> 64 word list res" where
  "bp_encode_i32_to_u64 bp values values_offset blocks blocks_offset iterations =
     encode_long (bp_bits_per_value bp) (\<lambda>v. scast v AND 0xFFFFFFFF) scast values values_offset
       blocks blocks_offset (bp_long_value_count bp * iterations)"

text \<open>\<^verbatim>\<open>PackedInts::unsigned_bits_required\<close>.\<close>

definition unsigned_bits_required :: "64 word \<Rightarrow> int" where
  "unsigned_bits_required v = max 1 (64 - int (leading_zeros v))"

text \<open>
  One value into bytes. \<open>fits\<close> is the assertion on the width of the value, \<open>buffer\<close> the shift
  that buffers it and \<open>right\<close> the shift that extracts its bytes: the \<^verbatim>\<open>i64\<close> and the \<^verbatim>\<open>i32\<close> encoder
  differ in these and in the width of the arithmetic.
\<close>

function flush_bytes ::
  "('x::len word \<Rightarrow> int \<Rightarrow> 'x word res) \<Rightarrow> 'x word \<Rightarrow> int \<Rightarrow> 8 word list \<Rightarrow> nat \<Rightarrow> (int \<times> 8 word list \<times> nat) res" where
  "flush_bytes right v bits blocks blocks_offset =
     (if 8 \<le> bits
      then let bits = bits - 8 in
           rbind (right v bits) (\<lambda>x. rbind (upd blocks blocks_offset (ucast x)) (\<lambda>blocks.
             flush_bytes right v bits blocks (blocks_offset + 1)))
      else Inr (bits, blocks, blocks_offset))"
  by pat_completeness auto

termination
  by (relation "measure (\<lambda>(r, v, bits, bs, bo). nat bits)") auto

declare flush_bytes.simps [simp del]

definition encode_byte_step ::
  "('x::len word \<Rightarrow> bool) \<Rightarrow> ('x word \<Rightarrow> int \<Rightarrow> 32 word res) \<Rightarrow> ('x word \<Rightarrow> int \<Rightarrow> 'x word res) \<Rightarrow> int \<Rightarrow> 'x word list \<Rightarrow>
   32 word \<times> int \<times> nat \<times> 8 word list \<times> nat \<Rightarrow> (32 word \<times> int \<times> nat \<times> 8 word list \<times> nat) res" where
  "encode_byte_step fits buffer right bits_per_value values =
     (\<lambda>(next_block, bits_left, values_offset, blocks, blocks_offset).
     rbind (idx values values_offset) (\<lambda>v.
     dassert (fits v) (
     if bits_per_value < bits_left
     then rbind (buffer v (bits_left - bits_per_value)) (\<lambda>x.
            Inr (next_block OR x, bits_left - bits_per_value, values_offset + 1, blocks, blocks_offset))
     else let bits = bits_per_value - bits_left in
          dassert (0 \<le> bits) (
          rbind (right v bits) (\<lambda>x.
          rbind (upd blocks blocks_offset (ucast (scast next_block OR x))) (\<lambda>blocks.
          rbind (flush_bytes right v bits blocks (blocks_offset + 1)) (\<lambda>(bits, blocks, blocks_offset).
          let bits_left = 8 - bits in
          dassert (0 \<le> bits_left) (
          rbind (shl 1 bits) (\<lambda>y.
          rbind (shl (v AND (y - 1)) bits_left) (\<lambda>z.
            Inr (ucast z, bits_left, values_offset + 1, blocks, blocks_offset)))))))))))"

definition encode_byte ::
  "('x::len word \<Rightarrow> bool) \<Rightarrow> ('x word \<Rightarrow> int \<Rightarrow> 32 word res) \<Rightarrow> ('x word \<Rightarrow> int \<Rightarrow> 'x word res) \<Rightarrow> bulk_packed \<Rightarrow>
   'x word list \<Rightarrow> nat \<Rightarrow> 8 word list \<Rightarrow> nat \<Rightarrow> nat \<Rightarrow> 8 word list res" where
  "encode_byte fits buffer right bp values values_offset blocks blocks_offset iterations =
     rbind (for_each [0..<bp_byte_value_count bp * iterations]
         (\<lambda>_. encode_byte_step fits buffer right (bp_bits_per_value bp) values)
         (0, 8, values_offset, blocks, blocks_offset))
       (\<lambda>(_, bits_left, _, blocks, _). dassert (bits_left = 8) (Inr blocks))"

definition bp_encode_i64_to_u8 ::
  "bulk_packed \<Rightarrow> 64 word list \<Rightarrow> nat \<Rightarrow> 8 word list \<Rightarrow> nat \<Rightarrow> nat \<Rightarrow> 8 word list res" where
  "bp_encode_i64_to_u8 bp =
     encode_byte (\<lambda>v. unsigned_bits_required v \<le> bp_bits_per_value bp)
       (\<lambda>v n. rbind (shl v n) (\<lambda>x. dassert (sint x \<le> 2 ^ 31 - 1) (Inr (ucast x)))) shr bp"

definition bp_encode_i32_to_u8 ::
  "bulk_packed \<Rightarrow> 32 word list \<Rightarrow> nat \<Rightarrow> 8 word list \<Rightarrow> nat \<Rightarrow> nat \<Rightarrow> 8 word list res" where
  "bp_encode_i32_to_u8 bp =
     encode_byte (\<lambda>v. unsigned_bits_required (scast v AND 0xFFFFFFFF) \<le> bp_bits_per_value bp)
       shl (\<lambda>v n. Inr (wrapping_shr v n)) bp"

section \<open>The counts\<close>

definition bp_wf :: "bulk_packed \<Rightarrow> nat \<Rightarrow> bool" where
  "bp_wf bp b \<longleftrightarrow> 0 < b \<and> b \<le> 64 \<and> bp_bits_per_value bp = int b
     \<and> bp_long_value_count bp * b = bp_long_block_count bp * 64 \<and> bp_long_block_count bp = odd_part b \<and> 0 < bp_long_block_count bp
     \<and> bp_byte_value_count bp * b = bp_byte_block_count bp * 8 \<and> 0 < bp_byte_block_count bp
     \<and> bp_mask bp = mask b \<and> bp_int_mask bp = mask b"

lemma mask_minus [simp]: "b < LENGTH('a) \<Longrightarrow> push_bit b 1 - 1 = (mask b :: 'a::len word)"
  by (simp add: mask_eq_exp_minus_1 push_bit_eq_mult)

lemma ucast_mask: "ucast (mask b :: 64 word) = (mask b :: 32 word)"
  by (rule bit_word_eqI) (auto simp: bit_simps)

lemma odd_part_power: "\<exists>k. odd_part n * 2 ^ k = n"
proof (induction n rule: odd_part.induct)
  case (1 n)
  show ?case
  proof (cases "even n \<and> 0 < n")
    case True
    with 1 obtain k where "odd_part (n div 2) * 2 ^ k = n div 2" by blast
    moreover have "odd_part n = odd_part (n div 2)" using True by (simp add: odd_part.simps [of n])
    ultimately have "odd_part n * 2 ^ Suc k = 2 * (n div 2)" by simp
    with True have "odd_part n * 2 ^ Suc k = n" by simp
    then show ?thesis by blast
  next
    case False
    then have "odd_part n * 2 ^ 0 = n" by (subst odd_part.simps) (use False in auto)
    then show ?thesis by blast
  qed
qed

lemma halve_both_power: "halve_both m n = (m', n') \<Longrightarrow> \<exists>j. m' * 2 ^ j = m \<and> n' * 2 ^ j = n"
proof (induction m n rule: halve_both.induct)
  case (1 m n)
  show ?case
  proof (cases "even m \<and> even n \<and> 0 < m")
    case True
    with 1 obtain j where "m' * 2 ^ j = m div 2" "n' * 2 ^ j = n div 2"
      by (auto simp: halve_both.simps [of m])
    with True have "m' * 2 ^ Suc j = m" "n' * 2 ^ Suc j = n" by auto
    then show ?thesis by blast
  next
    case False
    with 1(2) have "m' * 2 ^ 0 = m \<and> n' * 2 ^ 0 = n" by (auto simp: halve_both.simps [of m] split: if_splits)
    then show ?thesis by blast
  qed
qed

lemma bulk_packed_counts:
  assumes b: "0 < b" "b \<le> 64" and BV: "halve_both (8 * odd_part b) (64 * odd_part b div b) = (B', V')"
  shows "64 * odd_part b div b * b = 64 * odd_part b" "0 < odd_part b" "V' * b = B' * 8" "0 < B'"
proof -
  obtain k where k: "odd_part b * 2 ^ k = b" using odd_part_power by blast
  then show "0 < odd_part b" using b(1) by (cases "odd_part b") auto
  then have "2 ^ k \<le> odd_part b * 2 ^ k" by simp
  with k b(2) have "(2 :: nat) ^ k \<le> 2 ^ 6" by simp
  then have "k \<le> 6" by (subst (asm) power_increasing_iff) simp_all
  have "64 * odd_part b = 2 ^ (6 - k) * (odd_part b * 2 ^ k)"
    using \<open>k \<le> 6\<close> by (simp add: power_add [symmetric] mult.commute mult.left_commute)
  with k have "64 * odd_part b = 2 ^ (6 - k) * b" by simp
  then show V: "64 * odd_part b div b * b = 64 * odd_part b" by simp
  obtain j where j: "B' * 2 ^ j = 8 * odd_part b" "V' * 2 ^ j = 64 * odd_part b div b"
    using halve_both_power [OF BV] by blast
  have "V' * b * 2 ^ j = (V' * 2 ^ j) * b" by simp
  also have "\<dots> = 8 * (8 * odd_part b)" by (simp only: j(2) V)
  also have "\<dots> = B' * 8 * 2 ^ j" by (simp flip: j(1))
  finally have "V' * b * 2 ^ j = B' * 8 * 2 ^ j" .
  then show "V' * b = B' * 8" by simp
  show "0 < B'" using j(1) \<open>0 < odd_part b\<close> by (cases B') auto
qed

lemma bulk_packed_new_ok:
  assumes "0 < b" "b \<le> 64"
  obtains bp where "bulk_packed_new b = Inr bp" "bp_wf bp b"
proof -
  obtain B' V' where BV: "halve_both (8 * odd_part b) (64 * odd_part b div b) = (B', V')" by fastforce
  have m: "(if b = 64 then NOT 0 else push_bit b 1 - 1) = (mask b :: 64 word)"
    using assms(2) by (auto simp: mask_eq_exp_minus_1)
  let ?bp = "\<lparr>bp_bits_per_value = int b, bp_long_block_count = odd_part b,
      bp_long_value_count = 64 * odd_part b div b, bp_byte_block_count = B', bp_byte_value_count = V',
      bp_mask = mask b, bp_int_mask = mask b\<rparr>"
  show ?thesis
    by (rule that [of ?bp])
      (use assms BV m bulk_packed_counts [OF assms BV] in
        \<open>simp_all add: bulk_packed_new_def bp_wf_def Let_def ucast_mask del: mask_minus\<close>)
qed

section \<open>Decoding extracts the fields\<close>

lemma unpack_Suc: "unpack w f b (Suc k) = unpack w f b k @ [gather w f (k * b) b]"
  by (simp add: unpack_def)

lemma unpack_0 [simp]: "unpack w f b 0 = []"
  by (simp add: unpack_def)

lemma patch_snoc:
  "vo + length vs < length out \<Longrightarrow> (patch out vo vs)[vo + length vs := v] = patch out vo (vs @ [v])"
  by (simp add: patch_append [symmetric] patch_single)

lemma wrapping_mask: "a < 64 \<Longrightarrow> wrapping_shl 1 (int a) - 1 = (mask a :: 64 word)"
  by (simp add: wrapping_shl_def nat_mod_as_int [symmetric] mask_eq_exp_minus_1 push_bit_eq_mult)

lemma div_mod_at: "k = q * w + r \<Longrightarrow> r < w \<Longrightarrow> k div w = q" "k = q * w + r \<Longrightarrow> r < w \<Longrightarrow> k mod w = (r :: nat)"
  by simp_all

lemma gather_end:
  assumes "off + a = w * Suc q" "a \<le> w" "b \<le> a"
  shows "gather w f off b = take_bit b (drop_bit (a - b) (f q))"
proof (cases "0 < a")
  case True
  with assms have "off = q * w + (w - a)" "w - a < w" by (simp_all add: mult.commute)
  then have "off div w = q" "off mod w = w - a" by (rule div_mod_at)+
  with assms show ?thesis by (subst gather_in) auto
qed (use assms in simp)

lemma wrapping_shl_low:
  "a < b \<Longrightarrow> b \<le> 64 \<Longrightarrow> wrapping_shl (take_bit a (x :: 64 word)) (int b - int a) = push_bit (b - a) (take_bit a x)"
proof (cases "b - a < 64")
  case True
  assume "a < b"
  then have "int b - int a = int (b - a)" by simp
  with True show ?thesis by (simp add: wrapping_shl_def del: of_nat_diff)
next
  case False
  assume "b \<le> 64"
  with False have "a = 0" by simp
  then show ?thesis by (simp add: wrapping_shl_def)
qed

lemma decode_long_ok:
  assumes wf: "bp_wf bp b"
    and blocks: "bo + n * bp_long_block_count bp \<le> length blocks"
    and vals: "vo + n * bp_long_value_count bp \<le> length vals"
  shows "decode_long bp cast blocks bo vals vo n =
    Inr (patch vals vo (map cast (unpack 64 (\<lambda>i. blocks ! (bo + i)) b (n * bp_long_value_count bp))))"
proof -
  define f where "f = (\<lambda>i. blocks ! (bo + i))"
  let ?N = "bp_long_value_count bp * n"
  have b: "0 < b" "b \<le> 64" "bp_bits_per_value bp = int b" "bp_mask bp = mask b" using wf by (simp_all add: bp_wf_def)
  have NB: "?N * b = n * bp_long_block_count bp * 64" using wf by (simp add: bp_wf_def algebra_simps)
  let ?P = "\<lambda>k s. \<exists>q left. s = (int left, bo + q, patch vals vo (map cast (unpack 64 f b k)), vo + k)
      \<and> k * b + left = 64 * Suc q \<and> left \<le> 64"
  have "\<exists>s. for_each [0..<?N] (\<lambda>_. decode_long_step bp cast blocks) (64, bo, vals, vo) = Inr s \<and> ?P ?N s"
  proof (rule for_each_upt_rule [where P = ?P])
    show "?P 0 (64, bo, vals, vo)" by (intro exI [of _ 0] exI [of _ 64]) simp
  next
    fix k s
    assume "k < ?N" and "?P k s"
    then obtain q left where s: "s = (int left, bo + q, patch vals vo (map cast (unpack 64 f b k)), vo + k)"
      and pos: "k * b + left = 64 * Suc q" and left: "left \<le> 64" by blast
    have "Suc k * b \<le> ?N * b" by (rule mult_le_mono1) (use \<open>k < ?N\<close> in simp)
    then have kb: "k * b + b \<le> n * bp_long_block_count bp * 64" using NB by simp
    have "k * b < n * bp_long_block_count bp * 64" using kb b(1) by linarith
    moreover have "64 * q \<le> k * b" using pos left by simp
    ultimately have "q * 64 < n * bp_long_block_count bp * 64" by linarith
    then have q: "bo + q < length blocks" using blocks by simp
    have out: "vo + k < length vals" using \<open>k < ?N\<close> vals by (simp add: mult.commute)
    have len: "length (patch vals vo (map cast (unpack 64 f b k))) = length vals" using out by simp
    have upd: "(patch vals vo (map cast (unpack 64 f b k)))[vo + k := cast v] =
        patch vals vo (map cast (unpack 64 f b k) @ [cast v])" for v
      using patch_snoc [of vo "map cast (unpack 64 f b k)" vals "cast v"] out by simp
    show "\<exists>s'. decode_long_step bp cast blocks s = Inr s' \<and> ?P (Suc k) s'"
    proof (cases "b \<le> left")
      case True
      have "gather 64 f (k * b) b = take_bit b (drop_bit (left - b) (f q))"
        by (rule gather_end [OF pos left True])
      then have "drop_bit (left - b) (blocks ! (bo + q)) AND mask b = gather 64 f (k * b) b"
        by (simp add: f_def take_bit_eq_mask)
      moreover have "decode_long_step bp cast blocks s = Inr (int (left - b), bo + q,
          patch vals vo (map cast (unpack 64 f b k) @ [cast (drop_bit (left - b) (blocks ! (bo + q)) AND mask b)]),
          vo + Suc k)"
        using True left b q out len upd by (simp add: decode_long_step_def s shr_def nat_diff_distrib)
      ultimately have "decode_long_step bp cast blocks s = Inr (int (left - b), bo + q,
          patch vals vo (map cast (unpack 64 f b (Suc k))), vo + Suc k)" by (simp add: unpack_Suc)
      moreover have "Suc k * b + (left - b) = 64 * Suc q" "left - b \<le> 64" using True pos left by simp_all
      ultimately show ?thesis by blast
    next
      case False
      have "bo + Suc q < length blocks"
      proof -
        have "Suc q * 64 < n * bp_long_block_count bp * 64" using pos kb False by linarith
        then show ?thesis using blocks by simp
      qed
      have "gather 64 f (k * b) b = push_bit (b - left) (gather 64 f (k * b) left) OR gather 64 f (64 * Suc q) (b - left)"
        using gather_append [of 64 left "b - left" f "k * b"] False b(2) pos by simp
      also have "gather 64 f (k * b) left = take_bit left (f q)"
        using gather_end [OF pos left order_refl] by simp
      also have "gather 64 f (64 * Suc q) (b - left) = drop_bit (64 - (b - left)) (f (Suc q))"
        using gather_end [of "64 * Suc q" 64 64 "Suc q" "b - left" f] b(2) by (simp add: take_drop_top)
      finally have v: "push_bit (b - left) (take_bit left (blocks ! (bo + q))) OR
          drop_bit (64 - (b - left)) (blocks ! (bo + Suc q)) = gather 64 f (k * b) b" by (simp add: f_def)
      have up: "wrapping_shr x (64 + (int left - int b)) = drop_bit (64 - (b - left)) x" for x :: "64 word"
      proof -
        have "64 + (int left - int b) = int (64 - (b - left))" using False b(2) by simp
        then show ?thesis using False by (simp add: wrapping_shr_def del: of_nat_diff)
      qed
      have "decode_long_step bp cast blocks s = Inr (int (64 + left - b), bo + Suc q,
          patch vals vo (map cast (unpack 64 f b k) @ [cast (gather 64 f (k * b) b)]), vo + Suc k)"
        using False left b q out len upd \<open>bo + Suc q < length blocks\<close> wrapping_mask [of left] wrapping_shl_low [of left b]
        by (simp add: decode_long_step_def s take_bit_eq_mask [symmetric] up v [symmetric] of_nat_diff)
      then have "decode_long_step bp cast blocks s = Inr (int (64 + left - b), bo + Suc q,
          patch vals vo (map cast (unpack 64 f b (Suc k))), vo + Suc k)" by (simp add: unpack_Suc)
      moreover have "Suc k * b + (64 + left - b) = 64 * Suc (Suc q)" "64 + left - b \<le> 64"
        using False b(2) pos left by simp_all
      ultimately show ?thesis by blast
    qed
  qed simp
  then show ?thesis by (auto simp: decode_long_def f_def mult.commute)
qed

lemma shr_int [simp]: "k < LENGTH('a) \<Longrightarrow> shr (x :: 'a::len word) (int k) = Inr (drop_bit k x)"
  by (simp add: shr_def)

lemma shl_int [simp]: "k < LENGTH('a) \<Longrightarrow> shl (x :: 'a::len word) (int k) = Inr (push_bit k x)"
  by (simp add: shl_def)

declare wrapping_shl_int [simp] wrapping_shr_int [simp] wrapping_shl_0 [simp]

text \<open>The state while decoding: \<open>m\<close> values are complete.\<close>

abbreviation decoded :: "nat \<Rightarrow> (nat \<Rightarrow> 'x::len word) \<Rightarrow> nat \<Rightarrow> 'x word list \<Rightarrow> nat \<Rightarrow> nat \<Rightarrow> 'x word list" where
  "decoded w f b vals vo m \<equiv> patch vals vo (unpack w f b m)"

lemma decoded_upd:
  "vo + m < length vals \<Longrightarrow> upd (decoded w f b vals vo m) (vo + m) (gather w f (m * b) b) = Inr (decoded w f b vals vo (Suc m))"
  using patch_snoc [of vo "unpack w f b m" vals] by (simp add: unpack_Suc)

lemma flush_values_ok:
  fixes f :: "nat \<Rightarrow> 'x::len word"
  assumes b: "0 < b" "8 \<le> LENGTH('x)" and pos: "m * b + bits = 8 * Suc c" "bits \<le> 8"
    and room: "\<And>k. k * b \<le> 8 * Suc c \<Longrightarrow> vo + k \<le> length vals"
  shows "\<exists>m' bits'. flush_values (int b) (mask b) (f c) (int bits) (decoded 8 f b vals vo m) (vo + m) =
      Inr (int bits', decoded 8 f b vals vo m', vo + m') \<and> m' * b + bits' = 8 * Suc c \<and> bits' < b \<and> bits' \<le> 8"
  using pos
proof (induction bits arbitrary: m rule: less_induct)
  case (less bits)
  show ?case
  proof (cases "b \<le> bits")
    case True
    have "Suc m * b \<le> 8 * Suc c" using less.prems(1) True by simp
    then have "vo + m < length vals" using room [of "Suc m"] by simp
    have "gather 8 f (m * b) b = take_bit b (drop_bit (bits - b) (f c))"
      by (rule gather_end [OF less.prems True])
    then have "drop_bit (bits - b) (f c) AND mask b = gather 8 f (m * b) b" by (simp add: take_bit_eq_mask)
    moreover have "bits - b < LENGTH('x)" using True b less.prems(2) by linarith
    moreover have "int bits - int b = int (bits - b)" using True by simp
    ultimately have "flush_values (int b) (mask b) (f c) (int bits) (decoded 8 f b vals vo m) (vo + m) =
        flush_values (int b) (mask b) (f c) (int (bits - b)) (decoded 8 f b vals vo (Suc m)) (vo + Suc m)"
      using True b(1) \<open>vo + m < length vals\<close>
      by (subst flush_values.simps) (simp add: decoded_upd del: of_nat_diff upd_ok)
    moreover have "Suc m * b + (bits - b) = 8 * Suc c" "bits - b \<le> 8" "bits - b < bits"
      using True b(1) less.prems by simp_all
    ultimately show ?thesis using less.IH [of "bits - b" "Suc m"] by simp
  next
    case False
    then have "flush_values (int b) (mask b) (f c) (int bits) (decoded 8 f b vals vo m) (vo + m) =
        Inr (int bits, decoded 8 f b vals vo m, vo + m)"
      by (subst flush_values.simps) simp
    with False less.prems show ?thesis by auto
  qed
qed

text \<open>After \<open>c\<close> bytes the last, incomplete value has its upper \<open>rem\<close> bits in \<open>next_value\<close>.\<close>

definition byte_state where
  "byte_state f b bo vals vo c s \<longleftrightarrow> (\<exists>m rem. m * b + rem = 8 * c \<and> rem < b \<and>
     s = (push_bit (b - rem) (gather 8 f (m * b) rem), int (b - rem), bo + c, decoded 8 f b vals vo m, vo + m))"

lemma decode_byte_step_ok:
  fixes blocks :: "8 word list" and vals :: "'x::len word list" and bo :: nat
  defines "f \<equiv> \<lambda>i. ucast (blocks ! (bo + i))"
  assumes b: "0 < b" "b \<le> LENGTH('x)" "8 < LENGTH('x)"
    and buffer: "\<And>x k. k < LENGTH('x) \<Longrightarrow> buffer x (int k) = Inr (push_bit k x)"
    and c: "bo + c < length blocks" and s: "byte_state f b bo vals vo c s"
    and room: "\<And>k. k * b \<le> 8 * Suc c \<Longrightarrow> vo + k \<le> length vals"
  shows "\<exists>s'. decode_byte_step buffer (int b) (mask b) blocks s = Inr s' \<and> byte_state f b bo vals vo (Suc c) s'"
proof -
  obtain m rem where pos: "m * b + rem = 8 * c" "rem < b"
    and s_eq: "s = (push_bit (b - rem) (gather 8 f (m * b) rem), int (b - rem), bo + c, decoded 8 f b vals vo m, vo + m)"
    using s by (auto simp: byte_state_def)
  have rd: "idx_as blocks (bo + c) = Inr (f c)" using c by (simp add: f_def)
  have here: "gather 8 f (8 * c) k = drop_bit (8 - k) (f c)" if "k \<le> 8" for k
    using gather_end [of "8 * c" 8 8 c k f] that take_drop_byte [of k "8 - k"] by (simp add: f_def)
  have split: "gather 8 f (m * b) (rem + k) = push_bit k (gather 8 f (m * b) rem) OR gather 8 f (8 * c) k"
    if "rem + k \<le> b" for k
    using gather_append [of 8 rem k f "m * b"] that b(2) pos(1) by simp
  show ?thesis
  proof (cases "8 < b - rem")
    case True
    let ?l = "b - rem - 8"
    have "push_bit ?l (gather 8 f (m * b) (rem + 8)) = push_bit (b - rem) (gather 8 f (m * b) rem) OR push_bit ?l (f c)"
      using True split [of 8] here [of 8] by (simp add: push_bit_or)
    moreover have "int (b - rem) - 8 = int ?l" using True by simp
    ultimately have "decode_byte_step buffer (int b) (mask b) blocks s =
        Inr (push_bit ?l (gather 8 f (m * b) (rem + 8)), int ?l, bo + Suc c, decoded 8 f b vals vo m, vo + m)"
      using True c b(2) buffer [of ?l "f c"]
      by (simp add: decode_byte_step_def s_eq f_def del: of_nat_diff)
    moreover have "m * b + (rem + 8) = 8 * Suc c" "rem + 8 < b" "?l = b - (rem + 8)" using True pos by simp_all
    ultimately show ?thesis unfolding byte_state_def by metis
  next
    case False
    let ?l = "b - rem" and ?bits = "8 - (b - rem)"
    have l: "?l \<le> 8" "0 < ?l" "rem + ?l = b" using False pos(2) by simp_all
    have v: "push_bit ?l (gather 8 f (m * b) rem) OR drop_bit ?bits (f c) = gather 8 f (m * b) b"
      using split [of ?l] here [of ?l] l by simp
    have pos': "Suc m * b + ?bits = 8 * Suc c" using pos l by simp
    then have "vo + m < length vals" using room [of "Suc m"] by simp
    obtain m' bits' where fl: "flush_values (int b) (mask b) (f c) (int ?bits) (decoded 8 f b vals vo (Suc m)) (vo + Suc m) =
        Inr (int bits', decoded 8 f b vals vo m', vo + m')" "m' * b + bits' = 8 * Suc c" "bits' < b" "bits' \<le> 8"
      using flush_values_ok [OF b(1) less_imp_le [OF b(3)] pos' _ room, of f] by auto
    have "f c AND (push_bit bits' 1 - 1) = gather 8 f (m' * b) bits'"
      using gather_end [OF fl(2,4) order_refl, of f] by (simp add: take_bit_eq_mask mask_eq_exp_minus_1)
    moreover have "8 - int ?l = int ?bits" "int b - int bits' = int (b - bits')" using l fl(3) by simp_all
    moreover have "b - bits' < LENGTH('x) \<or> bits' = 0" using b(2) fl(3) by linarith
    ultimately have "decode_byte_step buffer (int b) (mask b) blocks s =
        Inr (push_bit (b - bits') (gather 8 f (m' * b) bits'), int (b - bits'), bo + Suc c, decoded 8 f b vals vo m', vo + m')"
      using False c b fl(1,4) l v \<open>vo + m < length vals\<close>
      by (auto simp add: decode_byte_step_def s_eq rd decoded_upd Let_def simp del: of_nat_diff upd_ok idx_as_ok)
    with fl(2,3) show ?thesis by (auto simp: byte_state_def)
  qed
qed

lemma decode_byte_ok:
  fixes blocks :: "8 word list" and vals :: "'x::len word list"
  assumes wf: "bp_wf bp b" and b: "b \<le> LENGTH('x)" "8 < LENGTH('x)"
    and buffer: "\<And>x k. k < LENGTH('x) \<Longrightarrow> buffer x (int k) = Inr (push_bit k x)"
    and blocks: "bo + n * bp_byte_block_count bp \<le> length blocks"
    and vals: "vo + n * bp_byte_value_count bp \<le> length vals"
  shows "decode_byte buffer bp (mask b) blocks bo vals vo n =
    Inr (patch vals vo (unpack 8 (\<lambda>i. ucast (blocks ! (bo + i))) b (n * bp_byte_value_count bp)))"
proof -
  let ?f = "\<lambda>i. ucast (blocks ! (bo + i)) :: 'x word" and ?B = "n * bp_byte_block_count bp" and ?V = "n * bp_byte_value_count bp"
  have b0: "0 < b" "bp_bits_per_value bp = int b" using wf by (simp_all add: bp_wf_def)
  have VB: "?V * b = 8 * ?B" using wf by (simp add: bp_wf_def algebra_simps)
  have "\<exists>s. for_each [0..<?B] (\<lambda>_. decode_byte_step buffer (int b) (mask b) blocks) (0, int b, bo, vals, vo) = Inr s
      \<and> byte_state ?f b bo vals vo ?B s"
  proof (rule for_each_upt_rule)
    show "byte_state ?f b bo vals vo 0 (0, int b, bo, vals, vo)"
      unfolding byte_state_def by (intro exI [of _ 0]) (simp add: b0)
  next
    fix c s
    assume "c < ?B" and s: "byte_state ?f b bo vals vo c s"
    have "vo + k \<le> length vals" if "k * b \<le> 8 * Suc c" for k
    proof -
      have "8 * Suc c \<le> 8 * ?B" by (rule mult_le_mono2) (use \<open>c < ?B\<close> in simp)
      with that have "k * b \<le> ?V * b" unfolding VB by (rule le_trans)
      then show ?thesis using vals b0(1) by simp
    qed
    then show "\<exists>s'. decode_byte_step buffer (int b) (mask b) blocks s = Inr s' \<and> byte_state ?f b bo vals vo (Suc c) s'"
      using \<open>c < ?B\<close> blocks by (intro decode_byte_step_ok [OF b0(1) b buffer _ s]) simp_all
  qed simp
  then obtain m rem where st: "m * b + rem = 8 * ?B" "rem < b"
    "for_each [0..<?B] (\<lambda>_. decode_byte_step buffer (int b) (mask b) blocks) (0, int b, bo, vals, vo) =
      Inr (push_bit (b - rem) (gather 8 ?f (m * b) rem), int (b - rem), bo + ?B, decoded 8 ?f b vals vo m, vo + m)"
    unfolding byte_state_def by blast
  from st(1) have "m * b + rem = ?V * b" by (simp only: VB)
  then have "m = ?V" "rem = 0" using div_mod_at [of "?V * b" m b rem] st(2) b0(1) by simp_all
  with st(3) show ?thesis by (simp add: decode_byte_def b0(2))
qed

text \<open>The four decoders.\<close>

lemma bp_decode_ok:
  assumes wf: "bp_wf bp b"
  shows "bo + n * bp_long_block_count bp \<le> length blocks \<Longrightarrow> vo + n * bp_long_value_count bp \<le> length vals \<Longrightarrow>
      bp_decode_u64_to_i64 bp blocks bo vals vo n =
        Inr (patch vals vo (unpack 64 (\<lambda>i. blocks ! (bo + i)) b (n * bp_long_value_count bp)))"
    and "b \<le> 32 \<Longrightarrow> bo + n * bp_long_block_count bp \<le> length blocks \<Longrightarrow>
      vo + n * bp_long_value_count bp \<le> length vals' \<Longrightarrow>
      bp_decode_u64_to_i32 bp blocks bo vals' vo n =
        Inr (patch vals' vo (map ucast (unpack 64 (\<lambda>i. blocks ! (bo + i)) b (n * bp_long_value_count bp))))"
    and "bo + n * bp_byte_block_count bp \<le> length bytes \<Longrightarrow> vo + n * bp_byte_value_count bp \<le> length vals \<Longrightarrow>
      bp_decode_u8_to_i64 bp bytes bo vals vo n =
        Inr (patch vals vo (unpack 8 (\<lambda>i. ucast (bytes ! (bo + i))) b (n * bp_byte_value_count bp)))"
    and "b \<le> 32 \<Longrightarrow> bo + n * bp_byte_block_count bp \<le> length bytes \<Longrightarrow>
      vo + n * bp_byte_value_count bp \<le> length vals' \<Longrightarrow>
      bp_decode_u8_to_i32 bp bytes bo vals' vo n =
        Inr (patch vals' vo (unpack 8 (\<lambda>i. ucast (bytes ! (bo + i))) b (n * bp_byte_value_count bp)))"
  using decode_long_ok [OF wf, of bo n blocks vo vals "\<lambda>x. x"] decode_long_ok [OF wf, of bo n blocks vo vals' ucast]
    decode_byte_ok [OF wf, of shl bo n bytes vo vals]
    decode_byte_ok [OF wf, of "\<lambda>x n. Inr (wrapping_shl x n)" bo n bytes vo vals'] wf
  by (simp_all add: bp_decode_u64_to_i64_def bp_decode_u64_to_i32_def bp_decode_u8_to_i64_def bp_decode_u8_to_i32_def
      bp_wf_def)

section \<open>Encoding extracts the blocks\<close>

text \<open>
  The encoders write the blocks that lie in the sequence of the values: the blocks are the
  fields of 64 (or 8) bits of the stream whose \<open>blocks\<close> are the values of \<open>b\<close> bits. After
  \<open>k\<close> values the last, incomplete block has its upper \<open>rem\<close> bits in \<open>next_block\<close>.
\<close>

definition long_state where
  "long_state f b vo blocks bo k s \<longleftrightarrow> (\<exists>q rem. q * 64 + rem = k * b \<and> rem < 64 \<and>
     s = (push_bit (64 - rem) (gather b f (q * 64) rem) :: 64 word, int (64 - rem), vo + k, decoded b f 64 blocks bo q, bo + q))"

lemma gather_value: "0 < b \<Longrightarrow> take_bit b (f k) = f k \<Longrightarrow> gather b f (k * b) b = f k"
  by (simp add: gather_block)

lemma gather_head:
  "0 < b \<Longrightarrow> j \<le> b \<Longrightarrow> take_bit b (f k) = f k \<Longrightarrow> gather b f (k * b) j = drop_bit (b - j) (f k)"
proof -
  assume *: "0 < b" "j \<le> b" "take_bit b (f k) = f k"
  have "gather b f (k * b) j = take_bit j (drop_bit (b - j) (f k))"
    by (rule gather_end) (use * in \<open>simp_all add: mult.commute\<close>)
  also have "\<dots> = drop_bit (b - j) (take_bit b (f k))"
    using *(2) by (simp add: drop_bit_take_bit)
  finally show ?thesis by (simp only: *(3))
qed

lemma gather_tail: "0 < b \<Longrightarrow> j \<le> b \<Longrightarrow> gather b f (k * b + (b - j)) j = take_bit j (f k)"
  using gather_end [of "k * b + (b - j)" j b k j f] by (simp add: mult.commute)

lemma encode_long_step_ok:
  fixes vals :: "'v list" and vo :: nat and low full :: "'v \<Rightarrow> 64 word"
  defines "f \<equiv> \<lambda>i. low (vals ! (vo + i))"
  assumes b: "0 < b" "b \<le> 64" and k: "vo + k < length vals" and s: "long_state f b vo blocks bo k s"
    and fits: "take_bit b (f k) = f k" "\<And>j. j < b \<Longrightarrow> take_bit j (full (vals ! (vo + k))) = take_bit j (f k)"
    and room: "\<And>q. q * 64 \<le> Suc k * b \<Longrightarrow> bo + q \<le> length blocks"
  shows "\<exists>s'. encode_long_step (int b) low full vals s = Inr s' \<and> long_state f b vo blocks bo (Suc k) s'"
proof -
  obtain q rem where pos: "q * 64 + rem = k * b" "rem < 64"
    and s_eq: "s = (push_bit (64 - rem) (gather b f (q * 64) rem), int (64 - rem), vo + k, decoded b f 64 blocks bo q, bo + q)"
    using s by (auto simp: long_state_def)
  have rd: "idx vals (vo + k) = Inr (vals ! (vo + k))" using k by simp
  have split: "gather b f (q * 64) (rem + j) = push_bit j (gather b f (q * 64) rem) OR gather b f (k * b) j"
    if "rem + j \<le> 64" for j
    using gather_append [of b rem j f "q * 64"] that b pos(1) by simp
  have low: "low (vals ! (vo + k)) = f k" by (simp add: f_def)
  consider "64 - rem = b" | "b < 64 - rem" | "64 - rem < b" by linarith
  then show ?thesis
  proof cases
    case 1
    then have "rem + b = 64" using pos(2) by simp
    then have blk: "push_bit b (gather b f (q * 64) rem) OR f k = gather b f (q * 64) 64"
      using split [of b] gather_value [of b f k] fits(1) b 1 by simp
    have "Suc q * 64 = Suc k * b" using 1 pos by simp
    then have "bo + q < length blocks" using room [of "Suc q"] by simp
    then have "encode_long_step (int b) low full vals s = Inr (0, 64, vo + Suc k, decoded b f 64 blocks bo (Suc q), bo + Suc q)"
      using 1 by (simp add: encode_long_step_def s_eq rd low blk decoded_upd del: of_nat_diff upd_ok)
    with \<open>Suc q * 64 = Suc k * b\<close> show ?thesis
      unfolding long_state_def by (intro exI conjI) (auto intro!: exI [of _ "Suc q"] exI [of _ 0])
  next
    case 2
    let ?l = "64 - rem - b"
    have "push_bit ?l (gather b f (q * 64) (rem + b)) = push_bit (64 - rem) (gather b f (q * 64) rem) OR push_bit ?l (f k)"
      using 2 split [of b] gather_value [of b f k] fits(1) b(1) by (simp add: push_bit_or)
    moreover have "int (64 - rem) - int b = int ?l" using 2 by simp
    ultimately have "encode_long_step (int b) low full vals s =
        Inr (push_bit ?l (gather b f (q * 64) (rem + b)), int ?l, vo + Suc k, decoded b f 64 blocks bo q, bo + q)"
      using 2 b(1) by (simp add: encode_long_step_def s_eq rd low Let_def del: of_nat_diff)
    moreover have "q * 64 + (rem + b) = Suc k * b" "rem + b < 64" "?l = 64 - (rem + b)" using 2 pos by simp_all
    ultimately show ?thesis unfolding long_state_def by metis
  next
    case 3
    define h where "h = 64 - rem"
    define r where "r = b - h"
    have hr: "rem + h = 64" "h + r = b" "r < 64" "0 < r" "r < b" using 3 b(2) pos(2) by (simp_all add: h_def r_def)
    have blk: "push_bit h (gather b f (q * 64) rem) OR drop_bit r (f k) = gather b f (q * 64) 64"
      using split [of h] gather_head [of b h f k] fits(1) b hr by (simp add: r_def)
    have tail: "gather b f (Suc q * 64) r = take_bit r (f k)"
    proof -
      have "Suc q * 64 = k * b + (b - r)" using pos hr by simp
      then show ?thesis using gather_tail [of b r f k] b(1) hr(5) by simp
    qed
    have pos': "Suc q * 64 + r = Suc k * b" using pos hr by simp
    then have "bo + q < length blocks" using room [of "Suc q"] by simp
    have ints: "int h - int b = - int r" "64 + - int r = int (64 - r)" "64 - int r = int (64 - r)" "h \<noteq> b" using hr by simp_all
    have sh: "wrapping_shl x (int (64 - r)) = push_bit (64 - r) x" for x :: "64 word"
      by (rule wrapping_shl_int) (use hr in simp)
    have m: "full (vals ! (vo + k)) AND (wrapping_shl 1 (int r) - 1) = take_bit r (f k)"
      using fits(2) [OF hr(5)] wrapping_mask [OF hr(3)] by (simp add: take_bit_eq_mask)
    have "encode_long_step (int b) low full vals s =
        Inr (push_bit (64 - r) (gather b f (Suc q * 64) r), int (64 - r), vo + Suc k, decoded b f 64 blocks bo (Suc q), bo + Suc q)"
      using hr(3,4) \<open>bo + q < length blocks\<close>
      by (simp add: encode_long_step_def s_eq h_def [symmetric] rd low ints sh blk tail m decoded_upd Let_def
          del: of_nat_diff upd_ok mult_Suc wrapping_shl_int push_bit_and)
    with pos' hr(3) show ?thesis unfolding long_state_def by blast
  qed
qed

lemma encode_long_ok:
  assumes b: "0 < b" "b \<le> 64" and N: "N * b = M * 64"
    and vals: "vo + N \<le> length vals" and blocks: "bo + M \<le> length blocks"
    and fits: "\<And>k. k < N \<Longrightarrow> take_bit b (low (vals ! (vo + k))) = low (vals ! (vo + k))"
      "\<And>j k. k < N \<Longrightarrow> j < b \<Longrightarrow> take_bit j (full (vals ! (vo + k))) = take_bit j (low (vals ! (vo + k)))"
  shows "encode_long (int b) low full vals vo blocks bo N =
    Inr (patch blocks bo (unpack b (\<lambda>i. low (vals ! (vo + i))) 64 M))"
proof -
  let ?f = "\<lambda>i. low (vals ! (vo + i))"
  have "\<exists>s. for_each [0..<N] (\<lambda>_. encode_long_step (int b) low full vals) (0, 64, vo, blocks, bo) = Inr s
      \<and> long_state ?f b vo blocks bo N s"
  proof (rule for_each_upt_rule)
    show "long_state ?f b vo blocks bo 0 (0, 64, vo, blocks, bo)"
      unfolding long_state_def by (intro exI [of _ 0]) simp
  next
    fix k s
    assume "k < N" and s: "long_state ?f b vo blocks bo k s"
    have "bo + q \<le> length blocks" if "q * 64 \<le> Suc k * b" for q
    proof -
      have "Suc k * b \<le> N * b" by (rule mult_le_mono1) (use \<open>k < N\<close> in simp)
      with that have "q * 64 \<le> M * 64" unfolding N by (rule le_trans)
      then show ?thesis using blocks by simp
    qed
    then show "\<exists>s'. encode_long_step (int b) low full vals s = Inr s' \<and> long_state ?f b vo blocks bo (Suc k) s'"
      using \<open>k < N\<close> vals fits by (intro encode_long_step_ok [OF b _ s]) simp_all
  qed simp
  then obtain q rem where st: "q * 64 + rem = N * b" "rem < 64"
    "for_each [0..<N] (\<lambda>_. encode_long_step (int b) low full vals) (0, 64, vo, blocks, bo) =
      Inr (push_bit (64 - rem) (gather b ?f (q * 64) rem), int (64 - rem), vo + N, decoded b ?f 64 blocks bo q, bo + q)"
    unfolding long_state_def by blast
  from st(1) have "M * 64 = q * 64 + rem" by (simp only: N)
  then have "q = M" using div_mod_at [of "M * 64" q 64 rem] st(2) by simp
  with st(3) show ?thesis by (simp add: encode_long_def)
qed

lemma small_word_roundtrip:
  fixes x :: "'x::len word"
  assumes "take_bit 8 x = x" "8 < LENGTH('x)"
  shows "scast (ucast x :: 32 word) = x"
proof (rule bit_word_eqI)
  fix n
  assume "n < LENGTH('x)"
  have *: "bit x m \<longleftrightarrow> m < 8 \<and> bit x m" for m
    using arg_cong [OF assms(1), of "\<lambda>y. bit y m"] by (auto simp: bit_simps)
  show "bit (scast (ucast x :: 32 word) :: 'x word) n = bit x n"
    using \<open>n < LENGTH('x)\<close> * [of n] * [of 31] by (cases "n < 31") (auto simp: bit_simps min_def)
qed

lemma ucast_take_8: "ucast (take_bit 8 (x :: 'x::len word)) = (ucast x :: 8 word)"
  by (rule bit_word_eqI) (auto simp: bit_simps)

abbreviation encoded where
  "encoded b f blocks bo q \<equiv> patch blocks bo (map ucast (unpack b f 8 q) :: 8 word list)"

lemma encoded_upd:
  "bo + q < length blocks \<Longrightarrow> ucast x = (ucast (gather b f (q * 8) 8) :: 8 word) \<Longrightarrow>
   upd (encoded b f blocks bo q) (bo + q) (ucast x) = Inr (encoded b f blocks bo (Suc q))"
  using patch_snoc [of bo "map ucast (unpack b f 8 q) :: 8 word list" blocks] by (simp add: unpack_Suc)

lemma flush_bytes_ok:
  fixes f :: "nat \<Rightarrow> 'x::len word"
  assumes b: "0 < b" "b \<le> LENGTH('x)" "8 < LENGTH('x)" and pos: "q * 8 + bits = Suc k * b" "bits \<le> b"
    and right: "\<And>j. j < LENGTH('x) \<Longrightarrow> right (f k) (int j) = Inr (drop_bit j (f k))"
    and room: "\<And>j. j * 8 \<le> Suc k * b \<Longrightarrow> bo + j \<le> length blocks"
  shows "\<exists>q' bits'. flush_bytes right (f k) (int bits) (encoded b f blocks bo q) (bo + q) =
      Inr (int bits', encoded b f blocks bo q', bo + q') \<and> q' * 8 + bits' = Suc k * b \<and> bits' < 8 \<and> bits' \<le> b"
  using pos
proof (induction bits arbitrary: q rule: less_induct)
  case (less bits)
  show ?case
  proof (cases "8 \<le> bits")
    case True
    have "Suc q * 8 \<le> Suc k * b" using less.prems(1) True by simp
    then have "bo + q < length blocks" using room [of "Suc q"] by simp
    have "gather b f (q * 8) 8 = take_bit 8 (drop_bit (bits - 8) (f k))"
      using less.prems by (intro gather_end [where q = k and a = bits]) (simp_all add: True mult.commute)
    then have "(ucast (gather b f (q * 8) 8) :: 8 word) = ucast (drop_bit (bits - 8) (f k))"
      by (simp add: ucast_take_8)
    moreover have "bits - 8 < LENGTH('x)" using b less.prems(2) by linarith
    moreover have "int bits - 8 = int (bits - 8)" using True by simp
    ultimately have "flush_bytes right (f k) (int bits) (encoded b f blocks bo q) (bo + q) =
        flush_bytes right (f k) (int (bits - 8)) (encoded b f blocks bo (Suc q)) (bo + Suc q)"
      using True right [of "bits - 8"] \<open>bo + q < length blocks\<close>
      by (subst flush_bytes.simps) (simp add: encoded_upd del: of_nat_diff upd_ok)
    moreover have "Suc q * 8 + (bits - 8) = Suc k * b" "bits - 8 \<le> b" "bits - 8 < bits"
      using True less.prems by simp_all
    ultimately show ?thesis using less.IH [of "bits - 8" "Suc q"] by simp
  next
    case False
    then have "flush_bytes right (f k) (int bits) (encoded b f blocks bo q) (bo + q) =
        Inr (int bits, encoded b f blocks bo q, bo + q)"
      by (subst flush_bytes.simps) simp
    with False less.prems show ?thesis by auto
  qed
qed

definition enc_byte_state where
  "enc_byte_state f b vo blocks bo k s \<longleftrightarrow> (\<exists>q rem. q * 8 + rem = k * b \<and> rem < 8 \<and>
     s = (ucast (push_bit (8 - rem) (gather b f (q * 8) rem)) :: 32 word, int (8 - rem), vo + k, encoded b f blocks bo q, bo + q))"

lemma encode_byte_step_ok:
  fixes vals :: "'x::len word list" and vo :: nat
  defines "f \<equiv> \<lambda>i. vals ! (vo + i)"
  assumes b: "0 < b" "b \<le> LENGTH('x)" "8 < LENGTH('x)" and k: "vo + k < length vals"
    and s: "enc_byte_state f b vo blocks bo k s"
    and v: "take_bit b (f k) = f k" "fits (f k)"
    and buffer: "\<And>j. j + b \<le> 8 \<Longrightarrow> buffer (f k) (int j) = Inr (ucast (push_bit j (f k)))"
    and right: "\<And>j. j < LENGTH('x) \<Longrightarrow> right (f k) (int j) = Inr (drop_bit j (f k))"
    and room: "\<And>q. q * 8 \<le> Suc k * b \<Longrightarrow> bo + q \<le> length blocks"
  shows "\<exists>s'. encode_byte_step fits buffer right (int b) vals s = Inr s' \<and> enc_byte_state f b vo blocks bo (Suc k) s'"
proof -
  obtain q rem where pos: "q * 8 + rem = k * b" "rem < 8"
    and s_eq: "s = (ucast (push_bit (8 - rem) (gather b f (q * 8) rem)), int (8 - rem), vo + k, encoded b f blocks bo q, bo + q)"
    using s by (auto simp: enc_byte_state_def)
  have rd: "idx vals (vo + k) = Inr (f k)" using k by (simp add: f_def)
  have split: "gather b f (q * 8) (rem + j) = push_bit j (gather b f (q * 8) rem) OR gather b f (k * b) j"
    if "rem + j \<le> 8" for j
    using gather_append [of b rem j f "q * 8"] that b pos(1) by simp
  define h where "h = 8 - rem"
  have h: "rem + h = 8" "0 < h" using pos(2) by (simp_all add: h_def)
  show ?thesis
  proof (cases "b < h")
    case True
    let ?l = "h - b"
    have "push_bit ?l (gather b f (q * 8) (rem + b)) = push_bit h (gather b f (q * 8) rem) OR push_bit ?l (f k)"
      using True h split [of b] gather_value [of b f k] v(1) b(1) by (simp add: push_bit_or)
    then have "(ucast (push_bit ?l (gather b f (q * 8) (rem + b))) :: 32 word) =
        ucast (push_bit h (gather b f (q * 8) rem)) OR ucast (push_bit ?l (f k))"
      by (simp only: unsigned_or_eq)
    moreover have "int h - int b = int ?l" "?l + b \<le> 8" using True h by simp_all
    ultimately have "encode_byte_step fits buffer right (int b) vals s =
        Inr (ucast (push_bit ?l (gather b f (q * 8) (rem + b))), int ?l, vo + Suc k, encoded b f blocks bo q, bo + q)"
      using True v(2) buffer [of ?l]
      by (simp add: encode_byte_step_def s_eq h_def [symmetric] rd del: of_nat_diff)
    moreover have "q * 8 + (rem + b) = Suc k * b" "rem + b < 8" "?l = 8 - (rem + b)" using True h pos by simp_all
    ultimately show ?thesis unfolding enc_byte_state_def by metis
  next
    case False
    define r where "r = b - h"
    have r: "h + r = b" "r < LENGTH('x)" using False b(2) h by (simp_all add: r_def)
    have g8: "push_bit h (gather b f (q * 8) rem) OR drop_bit r (f k) = gather b f (q * 8) 8"
      using split [of h] gather_head [of b h f k] v(1) b h r by (simp add: r_def)
    have pos': "Suc q * 8 + r = Suc k * b" using pos h r by simp
    then have "bo + q < length blocks" using room [of "Suc q"] by simp
    have "take_bit 8 (push_bit h (gather b f (q * 8) rem)) = push_bit h (gather b f (q * 8) rem)"
      using h b by (intro bit_word_eqI) (auto simp: bit_simps bit_gather)
    from small_word_roundtrip [OF this b(3)]
    have nb: "scast (ucast (push_bit h (gather b f (q * 8) rem)) :: 32 word) = push_bit h (gather b f (q * 8) rem)" .
    obtain q' bits' where fl: "flush_bytes right (f k) (int r) (encoded b f blocks bo (Suc q)) (bo + Suc q) =
        Inr (int bits', encoded b f blocks bo q', bo + q')" "q' * 8 + bits' = Suc k * b" "bits' < 8" "bits' \<le> b"
      using flush_bytes_ok [where f = f and k = k and right = right and bo = bo, OF b pos' _ right room] r(1) by auto
    have "gather b f (q' * 8) bits' = take_bit bits' (drop_bit (bits' - bits') (f k))"
      by (rule gather_end [OF _ fl(4) order_refl]) (use fl(2) in \<open>simp add: mult.commute\<close>)
    then have tl: "f k AND (push_bit bits' 1 - 1) = gather b f (q' * 8) bits'"
      by (simp add: take_bit_eq_mask mask_eq_exp_minus_1)
    have ints: "int b - int h = int r" "8 - int bits' = int (8 - bits')" "8 - bits' < LENGTH('x)" "bits' < LENGTH('x)"
      using r fl(3) b(3) by simp_all
    have "encode_byte_step fits buffer right (int b) vals s =
        Inr (ucast (push_bit (8 - bits') (gather b f (q' * 8) bits')), int (8 - bits'), vo + Suc k,
          encoded b f blocks bo q', bo + q')"
      using False fl(1) v(2) right [OF r(2)] ints \<open>bo + q < length blocks\<close> encoded_upd [of bo q blocks "gather b f (q * 8) 8" b f] tl
      by (simp add: encode_byte_step_def s_eq h_def [symmetric] rd nb g8 Let_def del: of_nat_diff upd_ok push_bit_and)
    with fl(2,3) show ?thesis unfolding enc_byte_state_def by blast
  qed
qed

lemma encode_byte_ok:
  fixes vals :: "'x::len word list"
  assumes wf: "bp_wf bp b" and b: "b \<le> LENGTH('x)" "8 < LENGTH('x)"
    and vals: "vo + bp_byte_value_count bp * n \<le> length vals"
    and blocks: "bo + bp_byte_block_count bp * n \<le> length blocks"
    and v: "\<And>k. k < bp_byte_value_count bp * n \<Longrightarrow> take_bit b (vals ! (vo + k)) = vals ! (vo + k)"
      "\<And>x. take_bit b x = x \<Longrightarrow> fits x"
      "\<And>x j. take_bit b x = x \<Longrightarrow> j + b \<le> 8 \<Longrightarrow> buffer x (int j) = Inr (ucast (push_bit j x))"
      "\<And>x j. j < LENGTH('x) \<Longrightarrow> right x (int j) = Inr (drop_bit j x)"
  shows "encode_byte fits buffer right bp vals vo blocks bo n =
    Inr (patch blocks bo (map ucast (unpack b (\<lambda>i. vals ! (vo + i)) 8 (bp_byte_block_count bp * n))))"
proof -
  let ?f = "\<lambda>i. vals ! (vo + i)" and ?N = "bp_byte_value_count bp * n" and ?M = "bp_byte_block_count bp * n"
  have b0: "0 < b" "bp_bits_per_value bp = int b" using wf by (simp_all add: bp_wf_def)
  have N: "?N * b = ?M * 8" using wf by (simp add: bp_wf_def algebra_simps)
  have "\<exists>s. for_each [0..<?N] (\<lambda>_. encode_byte_step fits buffer right (int b) vals) (0, 8, vo, blocks, bo) = Inr s
      \<and> enc_byte_state ?f b vo blocks bo ?N s"
  proof (rule for_each_upt_rule)
    show "enc_byte_state ?f b vo blocks bo 0 (0, 8, vo, blocks, bo)"
      unfolding enc_byte_state_def by (intro exI [of _ 0]) simp
  next
    fix k s
    assume "k < ?N" and s: "enc_byte_state ?f b vo blocks bo k s"
    have "bo + q \<le> length blocks" if "q * 8 \<le> Suc k * b" for q
    proof -
      have "Suc k * b \<le> ?N * b" by (rule mult_le_mono1) (use \<open>k < ?N\<close> in simp)
      with that have "q * 8 \<le> ?M * 8" unfolding N by (rule le_trans)
      then show ?thesis using blocks by simp
    qed
    then show "\<exists>s'. encode_byte_step fits buffer right (int b) vals s = Inr s' \<and> enc_byte_state ?f b vo blocks bo (Suc k) s'"
      using \<open>k < ?N\<close> vals v by (intro encode_byte_step_ok [OF b0(1) b _ s]) simp_all
  qed simp
  then obtain q rem where st: "q * 8 + rem = ?N * b" "rem < 8"
    "for_each [0..<?N] (\<lambda>_. encode_byte_step fits buffer right (int b) vals) (0, 8, vo, blocks, bo) =
      Inr (ucast (push_bit (8 - rem) (gather b ?f (q * 8) rem)), int (8 - rem), vo + ?N, encoded b ?f blocks bo q, bo + q)"
    unfolding enc_byte_state_def by blast
  from st(1) have "?M * 8 = q * 8 + rem" by (simp only: N)
  with st(2) have "q = ?M" "rem = 0" by presburger+
  with st(3) show ?thesis by (simp add: encode_byte_def b0(2))
qed

section \<open>The four encoders\<close>

lemma unsigned_bits_required_le:
  assumes b: "0 < b" "b \<le> 64"
  shows "unsigned_bits_required v \<le> int b \<longleftrightarrow> take_bit b v = v"
proof -
  have "64 - leading_zeros v \<le> b \<longleftrightarrow> (\<forall>n. bit v n \<longrightarrow> n < b)"
  proof (cases "v = 0")
    case True
    then have "leading_zeros v = 64" by (simp add: leading_zeros_def takeWhile_eq_all_conv [THEN iffD2])
    with True show ?thesis by simp
  next
    case False
    from leading_zeros_bit [OF this] have l: "leading_zeros v < 64" "bit v (63 - leading_zeros v)" by simp_all
    have "n \<le> 63 - leading_zeros v" if "bit v n" for n
    proof (rule ccontr)
      assume "\<not> n \<le> 63 - leading_zeros v"
      then have "LENGTH(64) - 1 - leading_zeros v < n" by simp
      from leading_zeros_above [OF this] that show False by simp
    qed
    with l show ?thesis by force
  qed
  also have "\<dots> \<longleftrightarrow> take_bit b v = v"
  proof
    assume "take_bit b v = v"
    then have "bit v n = (n < b \<and> bit v n)" for n by (metis bit_take_bit_iff)
    then show "\<forall>n. bit v n \<longrightarrow> n < b" by blast
  qed (auto intro!: bit_word_eqI simp: bit_simps)
  finally show ?thesis using b by (auto simp: unsigned_bits_required_def)
qed

text \<open>What the encoder relies on of the two-lane vectors: \<^verbatim>\<open>to_array\<close> reads the two lanes.\<close>

definition u64x2_ok :: "'x u64x2 \<Rightarrow> bool" where
  "u64x2_ok X \<longleftrightarrow>
     (\<forall>vs. even (length vs) \<longrightarrow> map (x_to_array X) (x_cast X vs) = map (\<lambda>i. (vs ! (2 * i), vs ! (2 * i + 1))) [0..<length vs div 2])
     \<and> (\<forall>u v. map_prod (x_to_array X) (x_to_array X) (x_transpose X u v) =
         ((fst (x_to_array X u), fst (x_to_array X v)), (snd (x_to_array X u), snd (x_to_array X v))))
     \<and> (\<forall>u n. n < 64 \<longrightarrow> x_to_array X (x_shl X u n) = map_prod (push_bit n) (push_bit n) (x_to_array X u))
     \<and> (\<forall>u v. x_to_array X (x_or X u v) =
         (fst (x_to_array X u) OR fst (x_to_array X v), snd (x_to_array X u) OR snd (x_to_array X v)))"

lemma u64x2_transpose:
  assumes "u64x2_ok X" "x_transpose X u v = (c, d)"
  shows "x_to_array X c = (fst (x_to_array X u), fst (x_to_array X v))"
    and "x_to_array X d = (snd (x_to_array X u), snd (x_to_array X v))"
proof -
  have "map_prod (x_to_array X) (x_to_array X) (x_transpose X u v) =
      ((fst (x_to_array X u), fst (x_to_array X v)), (snd (x_to_array X u), snd (x_to_array X v)))"
    using assms(1) unfolding u64x2_ok_def by blast
  with assms(2) show "x_to_array X c = (fst (x_to_array X u), fst (x_to_array X v))"
    and "x_to_array X d = (snd (x_to_array X u), snd (x_to_array X v))" by simp_all
qed

lemma u64x2_lanes:
  assumes "u64x2_ok X"
  shows "n < 64 \<Longrightarrow> x_to_array X (x_shl X u n) = map_prod (push_bit n) (push_bit n) (x_to_array X u)"
    and "x_to_array X (x_or X u v) =
      (fst (x_to_array X u) OR fst (x_to_array X v), snd (x_to_array X u) OR snd (x_to_array X v))"
    and "even (length vs) \<Longrightarrow> map (x_to_array X) (x_cast X vs) = map (\<lambda>i. (vs ! (2 * i), vs ! (2 * i + 1))) [0..<length vs div 2]"
  using assms unfolding u64x2_ok_def by blast+

lemma simd_pair_16:
  assumes X: "u64x2_ok X" and "length vs = 8"
  shows "simd_pair X 16 vs = Inr
    (push_bit 48 (vs ! 0) OR push_bit 32 (vs ! 1) OR push_bit 16 (vs ! 2) OR vs ! 3,
     push_bit 48 (vs ! 4) OR push_bit 32 (vs ! 5) OR push_bit 16 (vs ! 6) OR vs ! 7)"
proof -
  have "map (x_to_array X) (x_cast X vs) = map (\<lambda>i. (vs ! (2 * i), vs ! (2 * i + 1))) [0..<4]"
    using u64x2_lanes(3) [OF X, of vs] assms(2) by simp
  then obtain ab cd ef gh where c: "x_cast X vs = [ab, cd, ef, gh]"
    and l: "x_to_array X ab = (vs ! 0, vs ! 1)" "x_to_array X cd = (vs ! 2, vs ! 3)"
      "x_to_array X ef = (vs ! 4, vs ! 5)" "x_to_array X gh = (vs ! 6, vs ! 7)"
    by (auto simp: upt_rec map_eq_Cons_conv)
  obtain a b' where ab: "x_transpose X ab ef = (a, b')" by fastforce
  obtain c' d where cd: "x_transpose X cd gh = (c', d)" by fastforce
  show ?thesis
    by (simp add: simd_pair_def c ab cd u64x2_lanes [OF X] u64x2_transpose [OF X ab] u64x2_transpose [OF X cd] l or.assoc)
qed

lemma simd_pair_32:
  assumes X: "u64x2_ok X" and "length vs = 4"
  shows "simd_pair X 32 vs = Inr (push_bit 32 (vs ! 0) OR vs ! 1, push_bit 32 (vs ! 2) OR vs ! 3)"
proof -
  have "map (x_to_array X) (x_cast X vs) = map (\<lambda>i. (vs ! (2 * i), vs ! (2 * i + 1))) [0..<2]"
    using u64x2_lanes(3) [OF X, of vs] assms(2) by simp
  then obtain ab cd where c: "x_cast X vs = [ab, cd]"
    and l: "x_to_array X ab = (vs ! 0, vs ! 1)" "x_to_array X cd = (vs ! 2, vs ! 3)"
    by (auto simp: upt_rec map_eq_Cons_conv)
  obtain h d where hd: "x_transpose X ab cd = (h, d)" by fastforce
  show ?thesis
    by (simp add: simd_pair_def c hd u64x2_lanes [OF X] u64x2_transpose [OF X hd] l)
qed

text \<open>A pair of blocks is the next two blocks of the layout.\<close>

lemma simd_pair_gather:
  assumes X: "u64x2_ok X" and b: "b = 16 \<or> b = 32" and V: "V * b = 64"
    and f: "\<And>i. i < 2 * V \<Longrightarrow> take_bit b (f (2 * p * V + i)) = f (2 * p * V + i)"
    and vs: "length vs = 2 * V" "\<And>i. i < 2 * V \<Longrightarrow> vs ! i = f (2 * p * V + i)"
  shows "simd_pair X (int b) vs = Inr (gather b f (2 * p * 64) 64, gather b f ((2 * p + 1) * 64) 64)"
proof -
  define g where "g = (\<lambda>i. f (2 * p * V + i))"
  have sh: "gather b f ((2 * p + j) * 64) 64 = gather b g (j * 64) 64" for j
  proof -
    have "(2 * p + j) * 64 = 2 * p * V * b + j * 64" using V by (simp add: algebra_simps)
    then show ?thesis using gather_shift [of b f "2 * p * V" "j * 64" 64] b by (auto simp: g_def)
  qed
  have g: "take_bit b (g i) = g i" "vs ! i = g i" if "i < 2 * V" for i using f vs(2) that by (simp_all add: g_def)
  have "simd_pair X (int b) vs = Inr (gather b g (0 * 64) 64, gather b g (1 * 64) 64)"
  proof (cases "b = 16")
    case True
    with V have "V = 4" by simp
    then show ?thesis
      using True simd_pair_16 [OF X, of vs] vs(1) g by (simp add: gather_in gather_over)
  next
    case False
    with b V have "b = 32" "V = 2" by simp_all
    then show ?thesis
      using simd_pair_32 [OF X, of vs] vs(1) g by (simp add: gather_in gather_over)
  qed
  then show ?thesis using sh [of 0] sh [of 1] by simp
qed

lemma simd_loop_ok:
  assumes X: "u64x2_ok X" and b: "b = 16 \<or> b = 32" and V: "V * b = 64"
    and f: "\<And>i. i < V * n \<Longrightarrow> take_bit b (f i) = f i"
    and input: "length input = V * n" "\<And>i. i < V * n \<Longrightarrow> input ! i = f i"
    and blocks: "bo + n \<le> length blocks"
  shows "simd_loop X (int b) (2 * V) input blocks bo (n div 2) = Inr (patch blocks bo (unpack b f 64 (n div 2 * 2)))"
proof -
  have Vpos: "0 < V" using V by (cases V) auto
  let ?step = "\<lambda>p blocks. rbind (simd_pair X (int b) (take (2 * V) (drop (p * (2 * V)) input)))
      (\<lambda>(x, y). Inr (patch blocks (bo + 2 * p) [x, y]))"
  have "\<exists>s. for_each [0..<n div 2] ?step blocks = Inr s \<and> s = patch blocks bo (unpack b f 64 (n div 2 * 2))"
  proof (rule for_each_upt_rule [where P = "\<lambda>p s. s = patch blocks bo (unpack b f 64 (p * 2))"])
    fix p s
    assume "p < n div 2" and s: "s = patch blocks bo (unpack b f 64 (p * 2))"
    then have p: "2 * p + 2 \<le> n" by simp
    then have "V * (2 * p + 2) \<le> V * n" by (rule mult_le_mono2)
    then have le: "2 * p * V + i < V * n" if "i < 2 * V" for i using that by (simp add: algebra_simps)
    have "simd_pair X (int b) (take (2 * V) (drop (p * (2 * V)) input)) =
        Inr (gather b f (2 * p * 64) 64, gather b f ((2 * p + 1) * 64) 64)"
    proof (rule simd_pair_gather [OF X b V])
      show "length (take (2 * V) (drop (p * (2 * V)) input)) = 2 * V"
        using \<open>V * (2 * p + 2) \<le> V * n\<close> input(1) by (simp add: algebra_simps)
      fix i
      assume i: "i < 2 * V"
      show "take_bit b (f (2 * p * V + i)) = f (2 * p * V + i)" by (rule f [OF le [OF i]])
      show "take (2 * V) (drop (p * (2 * V)) input) ! i = f (2 * p * V + i)"
      proof -
        have "p * (2 * V) = 2 * p * V" by simp
        then show ?thesis using i le [OF i] input nth_drop [of "2 * p * V" input i] by (simp only: nth_take)
      qed
    qed
    moreover have "patch s (bo + 2 * p) [gather b f (2 * p * 64) 64, gather b f ((2 * p + 1) * 64) 64] =
        patch blocks bo (unpack b f 64 (Suc p * 2))"
      using p blocks by (simp add: s patch_fuse unpack_Suc mult.commute)
    ultimately show "\<exists>s'. ?step p s = Inr s' \<and> s' = patch blocks bo (unpack b f 64 (Suc p * 2))" by simp
  qed simp_all
  moreover have "V * n div (2 * V) = n div 2" using Vpos by (simp add: mult.commute)
  ultimately show ?thesis by (simp add: simd_loop_def input(1))
qed

definition fits :: "nat \<Rightarrow> 'x::len word \<Rightarrow> bool" where
  "fits b v \<longleftrightarrow> take_bit b v = v"

lemma scast_low: "scast v AND 0xFFFFFFFF = (ucast (v :: 32 word) :: 64 word)"
proof -
  have m: "(0xFFFFFFFF :: 64 word) = mask 32" by (simp add: mask_eq_exp_minus_1)
  show ?thesis
    unfolding m
  proof (rule bit_word_eqI)
    fix n
    assume "n < LENGTH(64)"
    then show "bit (scast v AND mask 32 :: 64 word) n = bit (ucast v :: 64 word) n"
      by (cases "n < 31"; cases "n = 31") (auto simp: bit_simps min_def dest: bit_imp_le_length)
  qed
qed

lemma bp_encode_i64_to_u64_ok:
  assumes wf: "bp_wf bp b" and X: "u64x2_ok X"
    and vals: "vo + n * bp_long_value_count bp \<le> length vals"
    and blocks: "bo + n * bp_long_block_count bp \<le> length blocks"
    and f: "\<And>k. k < n * bp_long_value_count bp \<Longrightarrow> fits b (vals ! (vo + k))"
  shows "bp_encode_i64_to_u64 X bp vals vo blocks bo n =
    Inr (patch blocks bo (unpack b (\<lambda>i. vals ! (vo + i)) 64 (n * bp_long_block_count bp)))"
proof -
  let ?f = "\<lambda>i. vals ! (vo + i)" and ?V = "bp_long_value_count bp" and ?B = "bp_long_block_count bp"
  have b: "0 < b" "b \<le> 64" "bp_bits_per_value bp = int b" "?V * b = ?B * 64" using wf by (simp_all add: bp_wf_def)
  have scalar: "encode_long (int b) (\<lambda>x. x) (\<lambda>x. x) vals (vo + d * ?V) bs (bo + d * ?B) (e * ?V) =
      Inr (patch bs (bo + d * ?B) (unpack b (\<lambda>i. vals ! (vo + d * ?V + i)) 64 (e * ?B)))"
    if "d + e \<le> n" "length bs = length blocks" for d e bs
  proof (rule encode_long_ok [OF b(1,2)])
    have le: "d * x + e * x \<le> n * x" for x using mult_le_mono1 [OF that(1), of x] by (simp add: add_mult_distrib)
    show "e * ?V * b = e * ?B * 64" using b(4) by simp
    show "vo + d * ?V + e * ?V \<le> length vals" using vals le [of ?V] by simp
    show "bo + d * ?B + e * ?B \<le> length bs" using blocks le [of ?B] that(2) by simp
    show "take_bit b (vals ! (vo + d * ?V + k)) = vals ! (vo + d * ?V + k)" if "k < e * ?V" for k
      using f [of "d * ?V + k"] that le [of ?V] by (simp add: fits_def add.assoc)
  qed simp
  show ?thesis
  proof (cases "2 \<le> n \<and> (int b = 16 \<or> int b = 32) \<and> vo + ?V * n \<le> length vals \<and> bo + n \<le> length blocks")
    case False
    then show ?thesis using scalar [of 0 n blocks] by (auto simp add: bp_encode_i64_to_u64_def b(3) Let_def mult.commute)
  next
    case True
    then have b16: "b = 16 \<or> b = 32" by auto
    moreover have "odd_part 16 = 1" "odd_part 32 = 1" by (simp_all add: odd_part.simps)
    ultimately have "odd_part b = 1" by auto
    then have B: "?B = 1" "?V * b = 64" "b = 16 \<or> b = 32" using wf b16 b(4) by (simp_all add: bp_wf_def)
    let ?d = "n div 2 * 2"
    have "simd_loop X (int b) (2 * ?V) (take (?V * n) (drop vo vals)) blocks bo (n div 2) =
        Inr (patch blocks bo (unpack b ?f 64 ?d))"
      using True f vals by (intro simd_loop_ok [OF X B(3,2)]) (simp_all add: fits_def mult.commute)
    moreover have "?d * ?V \<le> n * ?V" by (rule mult_le_mono1) simp
    moreover have "?V * n - ?d * ?V = (n - ?d) * ?V" by (simp only: diff_mult_distrib mult.commute [of ?V])
    moreover have "encode_long (int b) (\<lambda>x. x) (\<lambda>x. x) vals (vo + ?d * ?V) (patch blocks bo (unpack b ?f 64 ?d))
        (bo + ?d) ((n - ?d) * ?V) = Inr (patch blocks bo (unpack b ?f 64 n))"
    proof -
      have "bo + ?d \<le> length blocks" using True by linarith
      then have "encode_long (int b) (\<lambda>x. x) (\<lambda>x. x) vals (vo + ?d * ?V) (patch blocks bo (unpack b ?f 64 ?d))
          (bo + ?d) ((n - ?d) * ?V) = Inr (patch (patch blocks bo (unpack b ?f 64 ?d)) (bo + ?d)
            (unpack b (\<lambda>i. vals ! (vo + ?d * ?V + i)) 64 (n - ?d)))"
        using scalar [of ?d "n - ?d" "patch blocks bo (unpack b ?f 64 ?d)"] B(1) by simp
      also have "\<dots> = Inr (patch blocks bo (unpack b ?f 64 ?d @ unpack b (\<lambda>i. ?f (?d * ?V + i)) 64 (n - ?d)))"
        using True by (subst patch_fuse) (simp_all add: add.assoc)
      also have "unpack b ?f 64 ?d @ unpack b (\<lambda>i. ?f (?d * ?V + i)) 64 (n - ?d) = unpack b ?f 64 (?d + (n - ?d))"
        by (rule unpack_append [OF b(1)]) (use B(2) in \<open>simp add: mult.assoc\<close>)
      finally show ?thesis by simp
    qed
    moreover have "b = 16 \<and> ?V = 4 \<or> b = 32 \<and> ?V = 2" using B by auto
    ultimately show ?thesis
      using True B(1) by (elim disjE conjE) (simp_all add: bp_encode_i64_to_u64_def b(3) Let_def mult.commute)
  qed
qed

lemma bp_encode_i32_to_u64_ok:
  assumes wf: "bp_wf bp b" and b32: "b \<le> 32"
    and vals: "vo + n * bp_long_value_count bp \<le> length vals"
    and blocks: "bo + n * bp_long_block_count bp \<le> length blocks"
    and f: "\<And>k. k < n * bp_long_value_count bp \<Longrightarrow> fits b (vals ! (vo + k))"
  shows "bp_encode_i32_to_u64 bp vals vo blocks bo n =
    Inr (patch blocks bo (unpack b (\<lambda>i. ucast (vals ! (vo + i))) 64 (n * bp_long_block_count bp)))"
proof -
  have b: "0 < b" "b \<le> 64" "bp_bits_per_value bp = int b" using wf by (simp_all add: bp_wf_def)
  have tk: "take_bit j (scast v :: 64 word) = take_bit j (ucast v)" if "j < 32" for j and v :: "32 word"
    using that by (auto intro!: bit_word_eqI simp: bit_simps min_def)
  have "encode_long (int b) ucast scast vals vo blocks bo (n * bp_long_value_count bp) =
      Inr (patch blocks bo (unpack b (\<lambda>i. ucast (vals ! (vo + i))) 64 (n * bp_long_block_count bp)))"
  proof (rule encode_long_ok [OF b(1,2) _ vals blocks])
    show "n * bp_long_value_count bp * b = n * bp_long_block_count bp * 64" using wf by (simp add: bp_wf_def)
    show "take_bit b (ucast (vals ! (vo + k))) = (ucast (vals ! (vo + k)) :: 64 word)"
      if "k < n * bp_long_value_count bp" for k
      using f [OF that] by (simp add: fits_def flip: unsigned_take_bit_eq)
    show "take_bit j (scast (vals ! (vo + k)) :: 64 word) = take_bit j (ucast (vals ! (vo + k)))"
      if "j < b" for j k
      using tk that b32 by simp
  qed
  then show ?thesis by (simp add: bp_encode_i32_to_u64_def b(3) scast_low mult.commute)
qed

lemma bp_encode_i64_to_u8_ok:
  assumes wf: "bp_wf bp b"
    and vals: "vo + n * bp_byte_value_count bp \<le> length vals"
    and blocks: "bo + n * bp_byte_block_count bp \<le> length blocks"
    and f: "\<And>k. k < n * bp_byte_value_count bp \<Longrightarrow> fits b (vals ! (vo + k))"
  shows "bp_encode_i64_to_u8 bp vals vo blocks bo n =
    Inr (patch blocks bo (map ucast (unpack b (\<lambda>i. vals ! (vo + i)) 8 (n * bp_byte_block_count bp))))"
proof -
  have b: "0 < b" "b \<le> 64" "bp_bits_per_value bp = int b" using wf by (simp_all add: bp_wf_def)
  have "sint (push_bit j x) \<le> 2 ^ 31 - 1" if "take_bit b x = x" "j + b \<le> 8" for x :: "64 word" and j
  proof -
    have "\<not> bit (push_bit j x) n" if "31 \<le> n" for n
    proof -
      have "b \<le> n - j" using \<open>j + b \<le> 8\<close> that by linarith
      then have "\<not> bit x (n - j)" using \<open>take_bit b x = x\<close> by (metis bit_take_bit_iff not_le)
      then show ?thesis by (simp add: bit_simps)
    qed
    then have "take_bit 31 (push_bit j x) = push_bit j x"
      by (intro bit_word_eqI) (metis bit_take_bit_iff not_le)
    then have "uint (push_bit j x) = take_bit 31 (uint (push_bit j x))" by (metis unsigned_take_bit_eq)
    then have "uint (push_bit j x) < 2 ^ 31" by (metis take_bit_int_less_exp)
    then show ?thesis by (subst sint_small) simp_all
  qed
  then show ?thesis
    using vals blocks f b unfolding bp_encode_i64_to_u8_def
    by (subst encode_byte_ok [OF wf])
      (auto simp: fits_def mult.commute unsigned_bits_required_le)
qed

lemma bp_encode_i32_to_u8_ok:
  assumes wf: "bp_wf bp b" and b32: "b \<le> 32"
    and vals: "vo + n * bp_byte_value_count bp \<le> length vals"
    and blocks: "bo + n * bp_byte_block_count bp \<le> length blocks"
    and f: "\<And>k. k < n * bp_byte_value_count bp \<Longrightarrow> fits b (vals ! (vo + k))"
  shows "bp_encode_i32_to_u8 bp vals vo blocks bo n =
    Inr (patch blocks bo (map ucast (unpack b (\<lambda>i. vals ! (vo + i)) 8 (n * bp_byte_block_count bp))))"
proof -
  have b: "0 < b" "b \<le> 64" "bp_bits_per_value bp = int b" using wf by (simp_all add: bp_wf_def)
  show ?thesis
    using vals blocks f b b32 unfolding bp_encode_i32_to_u8_def
    by (subst encode_byte_ok [OF wf])
      (auto simp: fits_def mult.commute unsigned_bits_required_le scast_low simp flip: unsigned_take_bit_eq)
qed

section \<open>Decoding undoes encoding\<close>

lemma nth_patch: "i < length vs \<Longrightarrow> bo + length vs \<le> length out \<Longrightarrow> patch out bo vs ! (bo + i) = vs ! i"
  by (simp add: patch_def nth_append)

lemma gather_gather:
  fixes f :: "nat \<Rightarrow> 'v::len word"
  assumes w: "0 < w" "w \<le> LENGTH('v)" and b: "0 < b" "b \<le> LENGTH('v)" and f: "fits b (f k)"
  shows "gather w (\<lambda>q. gather b f (q * w) w) (k * b) b = f k"
proof (rule bit_word_eqI)
  fix j
  have "stream_bit w (\<lambda>q. gather b f (q * w) w) (k * b + b - 1 - j) = bit (f k) j" if "j < b"
  proof -
    define i where "i = k * b + b - 1 - j"
    have "stream_bit w (\<lambda>q. gather b f (q * w) w) i = stream_bit b f (i div w * w + w - 1 - (w - 1 - i mod w))"
      using w b(1) by (simp add: stream_bit_def bit_gather)
    also have "i div w * w + w - 1 - (w - 1 - i mod w) = i"
    proof -
      have "i mod w < w" using w(1) by simp
      then have "i div w * w + w - 1 - (w - 1 - i mod w) = i div w * w + i mod w" by linarith
      then show ?thesis by simp
    qed
    also have "stream_bit b f i = bit (f k) j"
      using stream_bit_at [of j b f k] that by (simp add: i_def add.commute)
    finally show ?thesis by (simp add: i_def)
  qed
  moreover have "bit (f k) j \<longrightarrow> j < b" using f by (metis fits_def bit_take_bit_iff)
  ultimately show "bit (gather w (\<lambda>q. gather b f (q * w) w) (k * b) b) j = bit (f k) j"
    using w(1) b(2) by (auto simp: bit_gather)
qed

text \<open>Blocks that hold the packed values give the values back.\<close>

lemma unpack_unpack:
  fixes f :: "nat \<Rightarrow> 'v::len word"
  assumes w: "0 < w" "w \<le> LENGTH('v)" and b: "0 < b" "b \<le> LENGTH('v)" and NM: "N * b = M * w"
    and f: "\<And>k. k < N \<Longrightarrow> fits b (f k)" and g: "\<And>q. q < M \<Longrightarrow> g q = gather b f (q * w) w"
  shows "unpack w g b N = map f [0..<N]"
  unfolding unpack_def
proof (intro map_cong refl)
  fix k
  assume "k \<in> set [0..<N]"
  then have "k < N" by simp
  have "gather w g (k * b) b = gather w (\<lambda>q. gather b f (q * w) w) (k * b) b"
  proof (rule gather_cong [OF w(1) b(2)])
    fix i
    assume "i * w < k * b + b"
    also have "k * b + b \<le> N * b" using mult_le_mono1 [of "Suc k" N b] \<open>k < N\<close> by simp
    finally show "g i = gather b f (i * w) w" by (intro g) (simp add: NM)
  qed
  also have "\<dots> = f k" by (rule gather_gather [where f = f, OF w b f [OF \<open>k < N\<close>]])
  finally show "gather w g (k * b) b = f k" .
qed

lemma take_drop_map_nth: "vo + n \<le> length vals \<Longrightarrow> map (\<lambda>i. vals ! (vo + i)) [0..<n] = take n (drop vo vals)"
  by (rule nth_equalityI) simp_all


section \<open>The contract of an operation on packed values\<close>

text \<open>
  What \<^verbatim>\<open>Decoder\<close> and \<^verbatim>\<open>Encoder\<close> promise for an operation \<open>op\<close> on values of \<open>b\<close> bits (\<open>ok op b\<close>): an
  iteration takes whole blocks to whole values, a decoder stores the fields of the blocks and an
  encoder stores the blocks that have the values as their fields.
\<close>

locale packed_codec =
  fixes ok :: "'op \<Rightarrow> nat \<Rightarrow> bool"
    and lbc lvc bbc bvc :: "'op \<Rightarrow> nat"
    and d_u64_i64 :: "'op \<Rightarrow> 64 word list \<Rightarrow> nat \<Rightarrow> 64 word list \<Rightarrow> nat \<Rightarrow> nat \<Rightarrow> 64 word list res"
    and d_u8_i64 :: "'op \<Rightarrow> 8 word list \<Rightarrow> nat \<Rightarrow> 64 word list \<Rightarrow> nat \<Rightarrow> nat \<Rightarrow> 64 word list res"
    and d_u64_i32 :: "'op \<Rightarrow> 64 word list \<Rightarrow> nat \<Rightarrow> 32 word list \<Rightarrow> nat \<Rightarrow> nat \<Rightarrow> 32 word list res"
    and d_u8_i32 :: "'op \<Rightarrow> 8 word list \<Rightarrow> nat \<Rightarrow> 32 word list \<Rightarrow> nat \<Rightarrow> nat \<Rightarrow> 32 word list res"
    and e_i64_u64 :: "'x u64x2 \<Rightarrow> 'op \<Rightarrow> 64 word list \<Rightarrow> nat \<Rightarrow> 64 word list \<Rightarrow> nat \<Rightarrow> nat \<Rightarrow> 64 word list res"
    and e_i64_u8 :: "'op \<Rightarrow> 64 word list \<Rightarrow> nat \<Rightarrow> 8 word list \<Rightarrow> nat \<Rightarrow> nat \<Rightarrow> 8 word list res"
    and e_i32_u64 :: "'op \<Rightarrow> 32 word list \<Rightarrow> nat \<Rightarrow> 64 word list \<Rightarrow> nat \<Rightarrow> nat \<Rightarrow> 64 word list res"
    and e_i32_u8 :: "'op \<Rightarrow> 32 word list \<Rightarrow> nat \<Rightarrow> 8 word list \<Rightarrow> nat \<Rightarrow> nat \<Rightarrow> 8 word list res"
  assumes counts: "ok op b \<Longrightarrow> 0 < b \<and> b \<le> 64 \<and> lvc op * b = lbc op * 64 \<and> bvc op * b = bbc op * 8"
    and dec_u64_i64: "ok op b \<Longrightarrow> bo + n * lbc op \<le> length blocks \<Longrightarrow> vo + n * lvc op \<le> length vals \<Longrightarrow>
      d_u64_i64 op blocks bo vals vo n = Inr (patch vals vo (unpack 64 (\<lambda>i. blocks ! (bo + i)) b (n * lvc op)))"
    and dec_u8_i64: "ok op b \<Longrightarrow> bo + n * bbc op \<le> length bytes \<Longrightarrow> vo + n * bvc op \<le> length vals \<Longrightarrow>
      d_u8_i64 op bytes bo vals vo n = Inr (patch vals vo (unpack 8 (\<lambda>i. ucast (bytes ! (bo + i))) b (n * bvc op)))"
    and dec_u64_i32: "ok op b \<Longrightarrow> b \<le> 32 \<Longrightarrow> bo + n * lbc op \<le> length blocks \<Longrightarrow> vo + n * lvc op \<le> length ints \<Longrightarrow>
      d_u64_i32 op blocks bo ints vo n = Inr (patch ints vo (map ucast (unpack 64 (\<lambda>i. blocks ! (bo + i)) b (n * lvc op))))"
    and dec_u8_i32: "ok op b \<Longrightarrow> b \<le> 32 \<Longrightarrow> bo + n * bbc op \<le> length bytes \<Longrightarrow> vo + n * bvc op \<le> length ints \<Longrightarrow>
      d_u8_i32 op bytes bo ints vo n = Inr (patch ints vo (unpack 8 (\<lambda>i. ucast (bytes ! (bo + i))) b (n * bvc op)))"
    and enc_i64_u64: "ok op b \<Longrightarrow> u64x2_ok X \<Longrightarrow> vo + n * lvc op \<le> length vals \<Longrightarrow> bo + n * lbc op \<le> length blocks \<Longrightarrow>
      (\<And>k. k < n * lvc op \<Longrightarrow> fits b (vals ! (vo + k))) \<Longrightarrow>
      e_i64_u64 X op vals vo blocks bo n = Inr (patch blocks bo (unpack b (\<lambda>i. vals ! (vo + i)) 64 (n * lbc op)))"
    and enc_i64_u8: "ok op b \<Longrightarrow> vo + n * bvc op \<le> length vals \<Longrightarrow> bo + n * bbc op \<le> length bytes \<Longrightarrow>
      (\<And>k. k < n * bvc op \<Longrightarrow> fits b (vals ! (vo + k))) \<Longrightarrow>
      e_i64_u8 op vals vo bytes bo n = Inr (patch bytes bo (map ucast (unpack b (\<lambda>i. vals ! (vo + i)) 8 (n * bbc op))))"
    and enc_i32_u64: "ok op b \<Longrightarrow> b \<le> 32 \<Longrightarrow> vo + n * lvc op \<le> length ints \<Longrightarrow> bo + n * lbc op \<le> length blocks \<Longrightarrow>
      (\<And>k. k < n * lvc op \<Longrightarrow> fits b (ints ! (vo + k))) \<Longrightarrow>
      e_i32_u64 op ints vo blocks bo n = Inr (patch blocks bo (unpack b (\<lambda>i. ucast (ints ! (vo + i))) 64 (n * lbc op)))"
    and enc_i32_u8: "ok op b \<Longrightarrow> b \<le> 32 \<Longrightarrow> vo + n * bvc op \<le> length ints \<Longrightarrow> bo + n * bbc op \<le> length bytes \<Longrightarrow>
      (\<And>k. k < n * bvc op \<Longrightarrow> fits b (ints ! (vo + k))) \<Longrightarrow>
      e_i32_u8 op ints vo bytes bo n = Inr (patch bytes bo (map ucast (unpack b (\<lambda>i. ints ! (vo + i)) 8 (n * bbc op))))"

text \<open>
  Blocks \<open>cs\<close> of \<open>w\<close> bits that hold the packed values give the values back: \<open>down\<close> narrows a
  block to the type of the output and \<open>up\<close> widens it again.
\<close>

lemma unpack_patch:
  fixes f :: "nat \<Rightarrow> 'v::len word"
  assumes w: "0 < w" "w \<le> LENGTH('v)" and b: "0 < b" "b \<le> LENGTH('v)" and NM: "N * b = M * w"
    and f: "\<And>k. k < N \<Longrightarrow> fits b (f k)" and len: "bo + M \<le> length out"
    and up: "\<And>k. up (down (gather b f k w)) = gather b f k w"
  shows "unpack w (\<lambda>i. up (patch out bo (map down (unpack b f w M)) ! (bo + i))) b N = map f [0..<N]"
  by (rule unpack_unpack [OF w b NM f], assumption)
    (simp add: nth_patch len up unpack_def)

lemma ucast_ucast_gather:
  assumes "0 < b" "8 \<le> LENGTH('v)"
  shows "ucast (ucast (gather b f k 8) :: 8 word) = (gather b f k 8 :: 'v::len word)"
  using assms by (intro bit_word_eqI) (auto simp: bit_simps bit_gather)

lemma fits_ucast: "b \<le> 32 \<Longrightarrow> fits b v \<Longrightarrow> fits b (ucast v :: 64 word)" for v :: "32 word"
  unfolding fits_def by (intro bit_word_eqI) (auto simp: bit_simps dest!: arg_cong [of _ _ "\<lambda>v. bit v n" for n])

context packed_codec
begin

lemma room:
  assumes "ok op b"
  shows "n * lvc op * b = n * lbc op * 64" "n * bvc op * b = n * bbc op * 8"
  using counts [OF assms] by (simp_all add: mult.assoc)

lemma roundtrip_u64_i64:
  assumes "ok op b" "u64x2_ok X" "vo + n * lvc op \<le> length vals" "bo + n * lbc op \<le> length blocks"
    and "oo + n * lvc op \<le> length out" and f: "\<And>k. k < n * lvc op \<Longrightarrow> fits b (vals ! (vo + k))"
  shows "rbind (e_i64_u64 X op vals vo blocks bo n) (\<lambda>blocks. d_u64_i64 op blocks bo out oo n) =
    Inr (patch out oo (take (n * lvc op) (drop vo vals)))"
proof -
  have b: "0 < b" "b \<le> 64" using counts [OF assms(1)] by simp_all
  have "unpack 64 (\<lambda>i. patch blocks bo (map (\<lambda>x. x) (unpack b (\<lambda>i. vals ! (vo + i)) 64 (n * lbc op))) ! (bo + i)) b (n * lvc op) =
      map (\<lambda>i. vals ! (vo + i)) [0..<n * lvc op]"
    by (rule unpack_patch) (use b f assms room in simp_all)
  then show ?thesis
    using assms by (simp add: enc_i64_u64 dec_u64_i64 take_drop_map_nth)
qed

lemma roundtrip_u8_i64:
  assumes "ok op b" "vo + n * bvc op \<le> length vals" "bo + n * bbc op \<le> length blocks"
    and "oo + n * bvc op \<le> length out" and f: "\<And>k. k < n * bvc op \<Longrightarrow> fits b (vals ! (vo + k))"
  shows "rbind (e_i64_u8 op vals vo blocks bo n) (\<lambda>blocks. d_u8_i64 op blocks bo out oo n) =
    Inr (patch out oo (take (n * bvc op) (drop vo vals)))"
proof -
  have b: "0 < b" "b \<le> 64" using counts [OF assms(1)] by simp_all
  have "unpack 8 (\<lambda>i. ucast (patch blocks bo (map ucast (unpack b (\<lambda>i. vals ! (vo + i)) 8 (n * bbc op))) ! (bo + i))) b (n * bvc op) =
      map (\<lambda>i. vals ! (vo + i)) [0..<n * bvc op]"
    by (rule unpack_patch) (use b f assms room in \<open>simp_all add: ucast_ucast_gather\<close>)
  then show ?thesis
    using assms by (simp add: enc_i64_u8 dec_u8_i64 take_drop_map_nth)
qed

lemma roundtrip_u64_i32:
  assumes "ok op b" "b \<le> 32" "vo + n * lvc op \<le> length ints" "bo + n * lbc op \<le> length blocks"
    and "oo + n * lvc op \<le> length out" and f: "\<And>k. k < n * lvc op \<Longrightarrow> fits b (ints ! (vo + k))"
  shows "rbind (e_i32_u64 op ints vo blocks bo n) (\<lambda>blocks. d_u64_i32 op blocks bo out oo n) =
    Inr (patch out oo (take (n * lvc op) (drop vo ints)))"
proof -
  have b: "0 < b" "b \<le> 64" using counts [OF assms(1)] by simp_all
  have "unpack 64 (\<lambda>i. patch blocks bo (map (\<lambda>x. x) (unpack b (\<lambda>i. ucast (ints ! (vo + i))) 64 (n * lbc op))) ! (bo + i)) b (n * lvc op) =
      map (\<lambda>i. ucast (ints ! (vo + i))) [0..<n * lvc op]"
    by (rule unpack_patch) (use b f assms room in \<open>simp_all add: fits_ucast\<close>)
  then show ?thesis
    using assms by (simp add: enc_i32_u64 dec_u64_i32 take_drop_map_nth [symmetric] ucast_up_ucast_id is_up o_def)
qed

lemma roundtrip_u8_i32:
  assumes "ok op b" "b \<le> 32" "vo + n * bvc op \<le> length ints" "bo + n * bbc op \<le> length blocks"
    and "oo + n * bvc op \<le> length out" and f: "\<And>k. k < n * bvc op \<Longrightarrow> fits b (ints ! (vo + k))"
  shows "rbind (e_i32_u8 op ints vo blocks bo n) (\<lambda>blocks. d_u8_i32 op blocks bo out oo n) =
    Inr (patch out oo (take (n * bvc op) (drop vo ints)))"
proof -
  have b: "0 < b" "b \<le> 64" using counts [OF assms(1)] by simp_all
  have "unpack 8 (\<lambda>i. ucast (patch blocks bo (map ucast (unpack b (\<lambda>i. ints ! (vo + i)) 8 (n * bbc op))) ! (bo + i))) b (n * bvc op) =
      map (\<lambda>i. ints ! (vo + i)) [0..<n * bvc op]"
    by (rule unpack_patch) (use b f assms room in \<open>simp_all add: ucast_ucast_gather\<close>)
  then show ?thesis
    using assms by (simp add: enc_i32_u8 dec_u8_i32 take_drop_map_nth)
qed

end

interpretation generic_codec: packed_codec bp_wf bp_long_block_count bp_long_value_count bp_byte_block_count bp_byte_value_count
  bp_decode_u64_to_i64 bp_decode_u8_to_i64 bp_decode_u64_to_i32 bp_decode_u8_to_i32
  bp_encode_i64_to_u64 bp_encode_i64_to_u8 bp_encode_i32_to_u64 bp_encode_i32_to_u8
proof unfold_locales
  show "0 < b \<and> b \<le> 64 \<and> bp_long_value_count op * b = bp_long_block_count op * 64
      \<and> bp_byte_value_count op * b = bp_byte_block_count op * 8" if "bp_wf op b" for op b
    using that by (simp add: bp_wf_def)
qed (simp_all add: bp_decode_ok bp_encode_i64_to_u64_ok bp_encode_i64_to_u8_ok bp_encode_i32_to_u64_ok bp_encode_i32_to_u8_ok)

end
