(* ===== verification/Bulk_Single.thy ===== *)
theory Bulk_Single
  imports Bulk_Packed
begin

text \<open>
  \<^verbatim>\<open>BulkOperationPackedSingleBlock\<close> (\<open>util/packed/bulk_operation_packed_single_block.rs\<close>): as
  many whole values as fit into a 64-bit block, the first one in the least significant bits.
\<close>

unbundle bit_operations_syntax

record single_block =
  sb_bits_per_value :: nat
  sb_value_count :: nat
  sb_mask :: "64 word"

definition single_block_new :: "nat \<Rightarrow> single_block res" where
  "single_block_new bits_per_value =
     dassert (bits_per_value \<noteq> 0) (
     rbind (shl 1 (int bits_per_value)) (\<lambda>x.
       Inr \<lparr>sb_bits_per_value = bits_per_value, sb_value_count = 64 div bits_per_value, sb_mask = x - 1\<rparr>))"

section \<open>One block\<close>

text \<open>\<^verbatim>\<open>decode_to_i64\<close> and \<^verbatim>\<open>decode_to_i32\<close>, which differ in the cast.\<close>

definition sb_decode_to :: "(64 word \<Rightarrow> 'v) \<Rightarrow> single_block \<Rightarrow> 64 word \<Rightarrow> 'v list \<Rightarrow> nat \<Rightarrow> ('v list \<times> nat) res" where
  "sb_decode_to cast sb block values values_offset =
     rbind (upd values values_offset (cast (block AND sb_mask sb))) (\<lambda>values.
     rbind (for_each [1..<sb_value_count sb] (\<lambda>_ (block, values, values_offset).
         rbind (shr block (int (sb_bits_per_value sb))) (\<lambda>block.
         rbind (upd values values_offset (cast (block AND sb_mask sb))) (\<lambda>values.
           Inr (block, values, values_offset + 1))))
       (block, values, values_offset + 1)) (\<lambda>(_, values, values_offset). Inr (values, values_offset)))"

text \<open>\<^verbatim>\<open>encode_from_i64\<close> and \<^verbatim>\<open>encode_from_i32\<close>: \<open>low\<close> is the cast of a value to \<^verbatim>\<open>u64\<close>.\<close>

definition sb_encode_from :: "('v \<Rightarrow> 64 word) \<Rightarrow> single_block \<Rightarrow> 'v list \<Rightarrow> nat \<Rightarrow> 64 word res" where
  "sb_encode_from low sb values values_offset =
     rbind (idx values values_offset) (\<lambda>v.
     rbind (for_each [1..<sb_value_count sb] (\<lambda>j (block, values_offset).
         rbind (idx values values_offset) (\<lambda>v.
         rbind (shl (low v) (int (j * sb_bits_per_value sb))) (\<lambda>x.
           Inr (block OR x, values_offset + 1))))
       (low v, values_offset + 1)) (\<lambda>(block, _). Inr block))"

definition sb_read_long :: "8 word list \<Rightarrow> nat \<Rightarrow> 64 word res" where
  "sb_read_long blocks blocks_offset = rbind (slice blocks blocks_offset 8) (\<lambda>bytes. Inr (from_be_bytes bytes))"

text \<open>\<^verbatim>\<open>BulkOperation::write_long\<close>, and \<^verbatim>\<open>u64::to_be_bytes\<close>.\<close>

definition write_long :: "64 word \<Rightarrow> 8 word list \<Rightarrow> nat \<Rightarrow> (8 word list \<times> nat) res" where
  "write_long block blocks blocks_offset =
     for_each [1..<9] (\<lambda>j (blocks, blocks_offset).
       rbind (upd blocks blocks_offset (ucast (drop_bit (64 - j * 8) block))) (\<lambda>blocks.
         Inr (blocks, blocks_offset + 1))) (blocks, blocks_offset)"

definition to_be_bytes :: "64 word \<Rightarrow> 8 word list" where
  "to_be_bytes x = map (\<lambda>i. ucast (drop_bit (56 - 8 * i) x)) [0..<8]"

definition sb_write_block :: "64 word \<Rightarrow> 8 word list \<Rightarrow> nat \<Rightarrow> (8 word list \<times> nat) res" where
  "sb_write_block block blocks blocks_offset =
     (if blocks_offset + 8 \<le> usize_MAX \<and> blocks_offset + 8 \<le> length blocks
      then Inr (patch blocks blocks_offset (to_be_bytes block), blocks_offset + 8)
      else write_long block blocks blocks_offset)"

section \<open>The loops\<close>

definition sb_long_group :: "(64 word \<Rightarrow> 'v) \<Rightarrow> single_block \<Rightarrow> (64 word, 'v) group" where
  "sb_long_group cast sb blocks bi values vi =
     rbind (idx blocks bi) (\<lambda>block.
     rbind (sb_decode_to cast sb block values vi) (\<lambda>(values, vi). Inr (bi + 1, values, vi)))"

definition sb_byte_group :: "(64 word \<Rightarrow> 'v) \<Rightarrow> single_block \<Rightarrow> (8 word, 'v) group" where
  "sb_byte_group cast sb blocks bi values vi =
     rbind (sb_read_long blocks bi) (\<lambda>block.
     rbind (sb_decode_to cast sb block values vi) (\<lambda>(values, vi). Inr (bi + 8, values, vi)))"

definition sb_decode_u64_to_i64 where
  "sb_decode_u64_to_i64 sb = decode_loop (sb_long_group (\<lambda>x :: 64 word. x) sb)"

definition sb_decode_u8_to_i64 where
  "sb_decode_u8_to_i64 sb = decode_loop (sb_byte_group (\<lambda>x :: 64 word. x) sb)"

definition sb_decode_u64_to_i32 ::
  "single_block \<Rightarrow> 64 word list \<Rightarrow> nat \<Rightarrow> 32 word list \<Rightarrow> nat \<Rightarrow> nat \<Rightarrow> 32 word list res" where
  "sb_decode_u64_to_i32 sb blocks blocks_offset values values_offset iterations =
     (if 32 < sb_bits_per_value sb then Inl UnsupportedOperation
      else decode_loop (sb_long_group ucast sb) blocks blocks_offset values values_offset iterations)"

definition sb_decode_u8_to_i32 ::
  "single_block \<Rightarrow> 8 word list \<Rightarrow> nat \<Rightarrow> 32 word list \<Rightarrow> nat \<Rightarrow> nat \<Rightarrow> 32 word list res" where
  "sb_decode_u8_to_i32 sb blocks blocks_offset values values_offset iterations =
     (if 32 < sb_bits_per_value sb then Inl UnsupportedOperation
      else decode_loop (sb_byte_group ucast sb) blocks blocks_offset values values_offset iterations)"

definition sb_encode_long ::
  "('v \<Rightarrow> 64 word) \<Rightarrow> single_block \<Rightarrow> 'v list \<Rightarrow> nat \<Rightarrow> 64 word list \<Rightarrow> nat \<Rightarrow> nat \<Rightarrow> 64 word list res" where
  "sb_encode_long low sb values values_offset blocks blocks_offset iterations =
     rbind (for_each [0..<iterations] (\<lambda>_ (values_offset, blocks, blocks_offset).
         rbind (sb_encode_from low sb values values_offset) (\<lambda>block.
         rbind (upd blocks blocks_offset block) (\<lambda>blocks.
           Inr (values_offset + sb_value_count sb, blocks, blocks_offset + 1))))
       (values_offset, blocks, blocks_offset)) (\<lambda>(_, blocks, _). Inr blocks)"

definition sb_encode_byte ::
  "('v \<Rightarrow> 64 word) \<Rightarrow> single_block \<Rightarrow> 'v list \<Rightarrow> nat \<Rightarrow> 8 word list \<Rightarrow> nat \<Rightarrow> nat \<Rightarrow> 8 word list res" where
  "sb_encode_byte low sb values values_offset blocks blocks_offset iterations =
     rbind (for_each [0..<iterations] (\<lambda>_ (values_offset, blocks, blocks_offset).
         rbind (sb_encode_from low sb values values_offset) (\<lambda>block.
         rbind (sb_write_block block blocks blocks_offset) (\<lambda>(blocks, blocks_offset).
           Inr (values_offset + sb_value_count sb, blocks, blocks_offset))))
       (values_offset, blocks, blocks_offset)) (\<lambda>(_, blocks, _). Inr blocks)"

definition sb_encode_i64_to_u64 where
  "sb_encode_i64_to_u64 = sb_encode_long (\<lambda>x. x)"

definition sb_encode_i64_to_u8 where
  "sb_encode_i64_to_u8 = sb_encode_byte (\<lambda>x. x)"

definition sb_encode_i32_to_u64 where
  "sb_encode_i32_to_u64 = sb_encode_long (\<lambda>v :: 32 word. scast v AND 0xFFFFFFFF)"

definition sb_encode_i32_to_u8 where
  "sb_encode_i32_to_u8 = sb_encode_byte (\<lambda>v :: 32 word. scast v AND 0xFFFFFFFF)"

section \<open>The layout\<close>

definition sb_wf :: "single_block \<Rightarrow> nat \<Rightarrow> bool" where
  "sb_wf sb b \<longleftrightarrow> 0 < b \<and> b < 64 \<and> sb_bits_per_value sb = b \<and> sb_value_count sb = 64 div b \<and> sb_mask sb = mask b"

lemma single_block_new_ok: "0 < b \<Longrightarrow> b < 64 \<Longrightarrow> \<exists>sb. single_block_new b = Inr sb \<and> sb_wf sb b"
  by (simp add: single_block_new_def sb_wf_def mask_eq_exp_minus_1)

text \<open>The fields of a block and the block of a run of values.\<close>

definition sb_fields :: "nat \<Rightarrow> nat \<Rightarrow> 64 word \<Rightarrow> 64 word list" where
  "sb_fields b n x = map (\<lambda>j. take_bit b (drop_bit (j * b) x)) [0..<n]"

definition sb_block :: "nat \<Rightarrow> (nat \<Rightarrow> 64 word) \<Rightarrow> nat \<Rightarrow> 64 word" where
  "sb_block b f n = foldl (\<lambda>x j. x OR push_bit (j * b) (f j)) 0 [0..<n]"

lemma sb_block_Suc: "sb_block b f (Suc n) = sb_block b f n OR push_bit (n * b) (f n)"
  by (simp add: sb_block_def)

lemma sb_decode_to_ok:
  assumes "sb_wf sb b" and "vo + sb_value_count sb \<le> length vals"
  shows "sb_decode_to cast sb x vals vo =
    Inr (patch vals vo (map cast (sb_fields b (sb_value_count sb) x)), vo + sb_value_count sb)"
proof -
  let ?n = "sb_value_count sb"
  have b: "0 < b" "b < 64" "sb_bits_per_value sb = b" "sb_mask sb = mask b" "?n = 64 div b" using assms(1) by (simp_all add: sb_wf_def)
  then have n: "1 \<le> ?n" by (simp add: Suc_le_eq div_greater_zero_iff)
  let ?P = "\<lambda>k s. s = (drop_bit ((k - 1) * b) x, patch vals vo (map cast (sb_fields b k x)), vo + k)"
  let ?step = "\<lambda>(block, values, values_offset).
         rbind (shr block (int (sb_bits_per_value sb))) (\<lambda>block.
         rbind (upd values values_offset (cast (block AND sb_mask sb))) (\<lambda>values.
           Inr (block, values, values_offset + 1)))"
  have "\<exists>s. for_each [1..<?n] (\<lambda>_. ?step) (x, vals[vo := cast (x AND sb_mask sb)], vo + 1) = Inr s \<and> ?P ?n s"
  proof (rule for_each_upt_rule [where P = ?P])
    show "?P 1 (x, vals[vo := cast (x AND sb_mask sb)], vo + 1)"
      using assms(2) n by (simp add: sb_fields_def patch_single take_bit_eq_mask b(4))
  next
    fix k s
    assume k: "1 \<le> k" "k < ?n" and s: "?P k s"
    have len: "length (map cast (sb_fields b k x)) = k" by (simp add: sb_fields_def)
    have room: "vo + k < length vals" using k assms(2) by simp
    have "drop_bit b (drop_bit ((k - 1) * b) x) = drop_bit (k * b) x"
      using k(1) by (cases k) (simp_all add: add.commute)
    moreover have "(patch vals vo (map cast (sb_fields b k x)))[vo + k := v] = patch vals vo (map cast (sb_fields b k x) @ [v])" for v
      using patch_snoc [of vo "map cast (sb_fields b k x)" vals v] len room by simp
    ultimately have "?step s = Inr (drop_bit (k * b) x,
        patch vals vo (map cast (sb_fields b k x) @ [cast (take_bit b (drop_bit (k * b) x))]), vo + Suc k)"
      using b room len by (simp add: s take_bit_eq_mask)
    then show "\<exists>s'. ?step s = Inr s' \<and> ?P (Suc k) s'" by (simp add: sb_fields_def)
  qed (use n in simp)
  then show ?thesis using assms(2) n by (auto simp: sb_decode_to_def)
qed

lemma sb_encode_from_ok:
  assumes "sb_wf sb b" and "vo + sb_value_count sb \<le> length vals"
  shows "sb_encode_from low sb vals vo = Inr (sb_block b (\<lambda>j. low (vals ! (vo + j))) (sb_value_count sb))"
proof -
  let ?n = "sb_value_count sb" and ?f = "\<lambda>j. low (vals ! (vo + j))"
  have b: "0 < b" "b < 64" "sb_bits_per_value sb = b" "?n = 64 div b" using assms(1) by (simp_all add: sb_wf_def)
  then have n: "1 \<le> ?n" by (simp add: Suc_le_eq div_greater_zero_iff)
  let ?step = "\<lambda>j (block, values_offset). rbind (idx vals values_offset) (\<lambda>v.
         rbind (shl (low v) (int (j * sb_bits_per_value sb))) (\<lambda>x. Inr (block OR x, values_offset + 1)))"
  have "\<exists>s. for_each [1..<?n] ?step (low (vals ! vo), vo + 1) = Inr s \<and> s = (sb_block b ?f ?n, vo + ?n)"
  proof (rule for_each_upt_rule [where P = "\<lambda>k s. s = (sb_block b ?f k, vo + k)"])
    fix k s
    assume k: "1 \<le> k" "k < ?n" and s: "s = (sb_block b ?f k, vo + k)"
    have "Suc k * b \<le> ?n * b" using k(2) by (intro mult_le_mono1) simp
    then have "k * b + b \<le> 64" using b(4) by (metis add.commute div_times_less_eq_dividend le_trans mult_Suc)
    then have "k * b < 64" using b(1) by linarith
    then have "?step k s = Inr (sb_block b ?f (Suc k), vo + Suc k)"
      using k assms(2) shl_int [of "k * b" "low (vals ! (vo + k))"] by (simp add: s b(3) sb_block_Suc)
    then show "\<exists>s'. ?step k s = Inr s' \<and> s' = (sb_block b ?f (Suc k), vo + Suc k)" by simp
  qed (use n in \<open>simp_all add: sb_block_def\<close>)
  then show ?thesis using assms(2) n by (auto simp: sb_encode_from_def)
qed

unbundle bit_operations_syntax

lemma length_sb_fields [simp]: "length (sb_fields b n x) = n"
  by (simp add: sb_fields_def)

text \<open>Blocks made of values give the values back.\<close>

lemma bit_sb_block:
  assumes "0 < b" "n * b \<le> 64" "\<And>j. j < n \<Longrightarrow> fits b (f j)"
  shows "bit (sb_block b f n) i \<longleftrightarrow> i div b < n \<and> bit (f (i div b)) (i mod b)"
  using assms(2,3)
proof (induction n)
  case 0
  then show ?case by (simp add: sb_block_def)
next
  case (Suc n)
  have "n * b \<le> 64" using Suc.prems(1) by simp
  then have IH: "bit (sb_block b f n) i \<longleftrightarrow> i div b < n \<and> bit (f (i div b)) (i mod b)"
    using Suc.IH Suc.prems(2) by simp
  have lt: "m < b" if "bit (f n) m" for m
    using Suc.prems(2) [of n] that by (metis bit_take_bit_iff fits_def lessI)
  have "bit (push_bit (n * b) (f n)) i \<longleftrightarrow> i div b = n \<and> bit (f n) (i mod b)"
  proof (cases "i div b = n")
    case True
    then have i: "i = n * b + i mod b" by (metis div_mult_mod_eq)
    have "i mod b < b" using assms(1) by simp
    then have "i < 64" using i Suc.prems(1) by simp
    moreover have "i - n * b = i mod b" "n * b \<le> i" using i by linarith+
    ultimately show ?thesis using True by (simp add: bit_push_bit_iff)
  next
    case False
    have "\<not> (n * b \<le> i \<and> i - n * b < b)"
    proof
      assume *: "n * b \<le> i \<and> i - n * b < b"
      then have "i = n * b + (i - n * b)" by simp
      from div_mod_at(1) [OF this] * False show False by simp
    qed
    with lt False show ?thesis by (auto simp: bit_push_bit_iff)
  qed
  with IH show ?case by (auto simp: sb_block_Suc bit_or_iff less_Suc_eq)
qed

lemma sb_fields_block:
  assumes "0 < b" "n * b \<le> 64" and f: "\<And>j. j < n \<Longrightarrow> fits b (f j)"
  shows "sb_fields b n (sb_block b f n) = map f [0..<n]"
  unfolding sb_fields_def
proof (intro map_cong refl bit_word_eqI)
  fix k i
  assume "k \<in> set [0..<n]"
  then have k: "k < n" by simp
  have "bit (f k) i \<longrightarrow> i < b" using f [OF k] by (metis fits_def bit_take_bit_iff)
  moreover have "(k * b + i) div b = k" "(k * b + i) mod b = i" if "i < b" using that by simp_all
  ultimately show "bit (take_bit b (drop_bit (k * b) (sb_block b f n))) i = bit (f k) i"
    using k by (auto simp: bit_take_bit_iff bit_drop_bit_eq bit_sb_block [OF assms])
qed

section \<open>The loops over the blocks\<close>

lemma decode_loop_concat:
  assumes g: "\<And>bi vi out. bi + B \<le> length blocks \<Longrightarrow> vi + V \<le> length out \<Longrightarrow>
      g blocks bi out vi = Inr (bi + B, patch out vi (h bi), vi + V)"
    and h: "\<And>bi. length (h bi) = V"
    and "bo + n * B \<le> length blocks" "vo + n * V \<le> length vals"
  shows "decode_loop g blocks bo vals vo n = Inr (patch vals vo (concat (map (\<lambda>k. h (bo + k * B)) [0..<n])))"
proof -
  let ?vs = "\<lambda>k. concat (map (\<lambda>k. h (bo + k * B)) [0..<k])"
  have len: "length (?vs k) = k * V" for k by (induction k) (simp_all add: h)
  let ?P = "\<lambda>k s. s = (bo + k * B, patch vals vo (?vs k), vo + k * V)"
  have "\<exists>s. for_each [0..<n] (\<lambda>_ (bi, out, vi). g blocks bi out vi) (bo, vals, vo) = Inr s \<and> ?P n s"
  proof (rule for_each_upt_rule [where P = ?P])
    fix k s
    assume "k < n" and s: "?P k s"
    then have "Suc k * B \<le> n * B" "Suc k * V \<le> n * V" by (simp_all only: mult_le_mono1 Suc_leI)
    then have le: "bo + k * B + B \<le> length blocks" "vo + k * V + V \<le> length vals" using assms by simp_all
    then show "\<exists>s'. (case s of (bi, out, vi) \<Rightarrow> g blocks bi out vi) = Inr s' \<and> ?P (Suc k) s'"
      by (simp add: s g len h patch_fuse)
  qed simp_all
  then show ?thesis by (auto simp: decode_loop_def)
qed

lemma sb_decode_long_ok:
  assumes wf: "sb_wf sb b" and "bo + n \<le> length blocks" "vo + n * sb_value_count sb \<le> length vals"
  shows "decode_loop (sb_long_group cast sb) blocks bo vals vo n = Inr (patch vals vo
    (concat (map (\<lambda>k. map cast (sb_fields b (sb_value_count sb) (blocks ! (bo + k)))) [0..<n])))"
  using decode_loop_concat [of 1 blocks "sb_value_count sb" "sb_long_group cast sb"
      "\<lambda>bi. map cast (sb_fields b (sb_value_count sb) (blocks ! bi))" bo n vo vals] assms(2,3)
  by (simp add: sb_long_group_def sb_decode_to_ok [OF wf])

lemma sb_decode_byte_ok:
  assumes wf: "sb_wf sb b" and "bo + n * 8 \<le> length blocks" "vo + n * sb_value_count sb \<le> length vals"
  shows "decode_loop (sb_byte_group cast sb) blocks bo vals vo n = Inr (patch vals vo
    (concat (map (\<lambda>k. map cast (sb_fields b (sb_value_count sb) (from_be_bytes (take 8 (drop (bo + k * 8) blocks))))) [0..<n])))"
  using decode_loop_concat [of 8 blocks "sb_value_count sb" "sb_byte_group cast sb"
      "\<lambda>bi. map cast (sb_fields b (sb_value_count sb) (from_be_bytes (take 8 (drop bi blocks))))" bo n vo vals] assms(2,3)
  by (simp add: sb_byte_group_def sb_read_long_def sb_decode_to_ok [OF wf])

lemma sb_encode_long_ok:
  assumes wf: "sb_wf sb b" and "vo + n * sb_value_count sb \<le> length vals" "bo + n \<le> length blocks"
  shows "sb_encode_long low sb vals vo blocks bo n = Inr (patch blocks bo
    (map (\<lambda>k. sb_block b (\<lambda>j. low (vals ! (vo + k * sb_value_count sb + j))) (sb_value_count sb)) [0..<n]))"
proof -
  let ?V = "sb_value_count sb"
  let ?x = "\<lambda>k. sb_block b (\<lambda>j. low (vals ! (vo + k * ?V + j))) ?V"
  let ?P = "\<lambda>k s. s = (vo + k * ?V, patch blocks bo (map ?x [0..<k]), bo + k)"
  let ?step = "\<lambda>(values_offset, blocks, blocks_offset).
         rbind (sb_encode_from low sb vals values_offset) (\<lambda>block.
         rbind (upd blocks blocks_offset block) (\<lambda>blocks.
           Inr (values_offset + sb_value_count sb, blocks, blocks_offset + 1)))"
  have "\<exists>s. for_each [0..<n] (\<lambda>_. ?step) (vo, blocks, bo) = Inr s \<and> ?P n s"
  proof (rule for_each_upt_rule [where P = ?P])
    fix k s
    assume "k < n" and s: "?P k s"
    then have "Suc k * ?V \<le> n * ?V" by (simp only: mult_le_mono1 Suc_leI)
    then have "vo + k * ?V + ?V \<le> length vals" using assms(2) by simp
    moreover have "bo + k < length blocks" using \<open>k < n\<close> assms(3) by simp
    ultimately show "\<exists>s'. ?step s = Inr s' \<and> ?P (Suc k) s'"
      using patch_snoc [of bo "map ?x [0..<k]" blocks "?x k"] sb_encode_from_ok [OF wf, of "vo + k * ?V" vals low]
      by (simp add: s add.assoc)
  qed simp_all
  then show ?thesis by (auto simp: sb_encode_long_def)
qed

lemma from_be_bytes_8:
  assumes "length bs = 8"
  shows "from_be_bytes bs = gather 8 (\<lambda>i. ucast (bs ! i)) 0 64"
proof -
  from assms obtain b0 b1 b2 b3 b4 b5 b6 b7 where "bs = [b0, b1, b2, b3, b4, b5, b6, b7]"
    by (auto simp: numeral_eq_Suc length_Suc_conv)
  then show ?thesis by (simp add: from_be_bytes_def gather_in gather_over unpack_simps push_bit_or)
qed

lemma from_to_be_bytes: "from_be_bytes (to_be_bytes x) = x"
proof -
  have "from_be_bytes (to_be_bytes x) = gather 8 (\<lambda>q. gather 64 (\<lambda>_. x) (q * 8) 8) 0 64"
  proof (subst from_be_bytes_8)
    show "length (to_be_bytes x) = 8" by (simp add: to_be_bytes_def)
    show "gather 8 (\<lambda>i. ucast (to_be_bytes x ! i)) 0 64 = gather 8 (\<lambda>q. gather 64 (\<lambda>_. x) (q * 8) 8) 0 64"
    proof (rule gather_cong)
      fix q :: nat
      assume "q * 8 < 0 + 64"
      then have q: "q < 8" by simp
      have "gather 64 (\<lambda>_. x) (q * 8) 8 = take_bit 8 (drop_bit (56 - 8 * q) x)"
        using q gather_end [of "q * 8" "64 - q * 8" 64 0 8 "\<lambda>_. x"] by (simp add: mult.commute diff_diff_add)
      moreover have "ucast (to_be_bytes x ! q) = take_bit 8 (drop_bit (56 - 8 * q) x)"
        using q by (simp add: to_be_bytes_def) (auto intro!: bit_word_eqI simp: bit_simps)
      ultimately show "ucast (to_be_bytes x ! q) = gather 64 (\<lambda>_. x) (q * 8) 8" by simp
    qed simp_all
  qed
  also have "\<dots> = x" using gather_gather [of 8 64 "\<lambda>_. x" 0] by (simp add: fits_def take_bit_word_eq_self)
  finally show ?thesis .
qed

lemma sb_encode_byte_ok:
  assumes wf: "sb_wf sb b" and "vo + n * sb_value_count sb \<le> length vals" "bo + n * 8 \<le> length blocks"
    and "length blocks \<le> usize_MAX"
  shows "sb_encode_byte low sb vals vo blocks bo n = Inr (patch blocks bo (concat
    (map (\<lambda>k. to_be_bytes (sb_block b (\<lambda>j. low (vals ! (vo + k * sb_value_count sb + j))) (sb_value_count sb))) [0..<n])))"
proof -
  let ?V = "sb_value_count sb"
  let ?x = "\<lambda>k. to_be_bytes (sb_block b (\<lambda>j. low (vals ! (vo + k * ?V + j))) ?V)"
  have len: "length (concat (map ?x [0..<k])) = k * 8" for k by (induction k) (simp_all add: to_be_bytes_def)
  let ?P = "\<lambda>k s. s = (vo + k * ?V, patch blocks bo (concat (map ?x [0..<k])), bo + k * 8)"
  let ?step = "\<lambda>(values_offset, blocks, blocks_offset).
         rbind (sb_encode_from low sb vals values_offset) (\<lambda>block.
         rbind (sb_write_block block blocks blocks_offset) (\<lambda>(blocks, blocks_offset).
           Inr (values_offset + sb_value_count sb, blocks, blocks_offset)))"
  have "\<exists>s. for_each [0..<n] (\<lambda>_. ?step) (vo, blocks, bo) = Inr s \<and> ?P n s"
  proof (rule for_each_upt_rule [where P = ?P])
    fix k s
    assume "k < n" and s: "?P k s"
    then have "Suc k * ?V \<le> n * ?V" by (simp only: mult_le_mono1 Suc_leI)
    then have "vo + k * ?V + ?V \<le> length vals" using assms(2) by simp
    moreover have "bo + k * 8 + 8 \<le> length blocks" using \<open>k < n\<close> assms(3) by simp
    moreover have "length (?x k) = 8" by (simp add: to_be_bytes_def)
    ultimately show "\<exists>s'. ?step s = Inr s' \<and> ?P (Suc k) s'"
      using sb_encode_from_ok [OF wf, of "vo + k * ?V" vals low] assms(4)
      by (simp add: s sb_write_block_def patch_fuse len)
  qed simp_all
  then show ?thesis by (auto simp: sb_encode_byte_def)
qed

text \<open>The values come back through words and through bytes.\<close>

lemma nth_concat_blocks:
  assumes "\<And>k. k < n \<Longrightarrow> length (h k) = V" "k < n"
  shows "take V (drop (k * V) (concat (map h [0..<n]))) = h k"
  using assms
proof (induction n)
  case (Suc n)
  have len: "length (concat (map h [0..<n])) = n * V"
    using Suc.prems(1) by (induction n) auto
  show ?case
  proof (cases "k = n")
    case True
    with Suc.prems(1) len show ?thesis by simp
  next
    case False
    with Suc.prems(2) have "k < n" by simp
    then have "k * V + V \<le> n * V" using mult_le_mono1 [of "Suc k" n V] by simp
    then have "take V (drop (k * V) (concat (map h [0..<Suc n]))) = take V (drop (k * V) (concat (map h [0..<n])))"
      using len by simp
    with Suc \<open>k < n\<close> show ?thesis by simp
  qed
qed simp

lemma concat_values:
  "vo + n * V \<le> length vals \<Longrightarrow>
   concat (map (\<lambda>k. map (\<lambda>j. vals ! (vo + k * V + j)) [0..<V]) [0..<n]) = take (n * V) (drop vo vals)"
proof (induction n)
  case (Suc n)
  have "take (Suc n * V) (drop vo vals) = take (n * V) (drop vo vals) @ take V (drop (vo + n * V) vals)"
    using take_add [of "n * V" V "drop vo vals"] by (simp add: add.commute [of V] add.commute [of _ vo])
  moreover have "map (\<lambda>j. vals ! (vo + n * V + j)) [0..<V] = take V (drop (vo + n * V) vals)"
    using Suc.prems by (intro take_drop_map_nth) simp
  ultimately show ?case using Suc by simp
qed simp

text \<open>
  The layout is independent of the width of the values: \<open>low\<close> widens them, \<open>cast\<close> undoes it.
\<close>

lemma sb_values_back:
  assumes wf: "sb_wf sb b" and "vo + n * sb_value_count sb \<le> length vals"
    and f: "\<And>k. k < n * sb_value_count sb \<Longrightarrow> fits b (low (vals ! (vo + k)))" and c: "\<And>v. cast (low v) = v"
  shows "concat (map (\<lambda>k. map cast (sb_fields b (sb_value_count sb)
      (sb_block b (\<lambda>j. low (vals ! (vo + k * sb_value_count sb + j))) (sb_value_count sb)))) [0..<n]) =
    take (n * sb_value_count sb) (drop vo vals)"
proof -
  let ?V = "sb_value_count sb"
  have b: "0 < b" "?V * b \<le> 64" using wf by (simp_all add: sb_wf_def)
  have "map cast (sb_fields b ?V (sb_block b (\<lambda>j. low (vals ! (vo + k * ?V + j))) ?V)) = map (\<lambda>j. vals ! (vo + k * ?V + j)) [0..<?V]"
    if "k < n" for k
  proof -
    have "Suc k * ?V \<le> n * ?V" by (rule mult_le_mono1) (use that in simp)
    then have "fits b (low (vals ! (vo + k * ?V + j)))" if "j < ?V" for j
      using f [of "k * ?V + j"] that by (simp add: add.assoc)
    from sb_fields_block [OF b, of "\<lambda>j. low (vals ! (vo + k * ?V + j))", OF this] show ?thesis by (simp add: c)
  qed
  then have "concat (map (\<lambda>k. map cast (sb_fields b ?V (sb_block b (\<lambda>j. low (vals ! (vo + k * ?V + j))) ?V))) [0..<n]) =
      concat (map (\<lambda>k. map (\<lambda>j. vals ! (vo + k * ?V + j)) [0..<?V]) [0..<n])"
    by (intro arg_cong [where f = concat] map_cong refl) simp
  then show ?thesis using concat_values [OF assms(2)] by simp
qed

lemma sb_long_roundtrip:
  assumes wf: "sb_wf sb b" and "vo + n * sb_value_count sb \<le> length vals" "bo + n \<le> length blocks"
    and "oo + n * sb_value_count sb \<le> length out"
    and f: "\<And>k. k < n * sb_value_count sb \<Longrightarrow> fits b (low (vals ! (vo + k)))" and c: "\<And>v. cast (low v) = v"
  shows "rbind (sb_encode_long low sb vals vo blocks bo n) (\<lambda>blocks.
      decode_loop (sb_long_group cast sb) blocks bo out oo n) =
    Inr (patch out oo (take (n * sb_value_count sb) (drop vo vals)))"
proof -
  let ?V = "sb_value_count sb"
  let ?x = "\<lambda>k. sb_block b (\<lambda>j. low (vals ! (vo + k * ?V + j))) ?V"
  have "map (\<lambda>k. map cast (sb_fields b ?V (patch blocks bo (map ?x [0..<n]) ! (bo + k)))) [0..<n] =
      map (\<lambda>k. map cast (sb_fields b ?V (?x k))) [0..<n]"
    using assms(3) nth_patch [of _ "map ?x [0..<n]" bo blocks] by (intro map_cong refl) simp
  then show ?thesis
    using assms sb_values_back [OF wf assms(2) f c]
    by (simp add: sb_encode_long_ok [OF wf] sb_decode_long_ok [OF wf] del: map_eq_conv)
qed

lemma sb_byte_roundtrip:
  assumes wf: "sb_wf sb b" and "vo + n * sb_value_count sb \<le> length vals" "bo + n * 8 \<le> length blocks"
    and "length blocks \<le> usize_MAX" "oo + n * sb_value_count sb \<le> length out"
    and f: "\<And>k. k < n * sb_value_count sb \<Longrightarrow> fits b (low (vals ! (vo + k)))" and c: "\<And>v. cast (low v) = v"
  shows "rbind (sb_encode_byte low sb vals vo blocks bo n) (\<lambda>blocks.
      decode_loop (sb_byte_group cast sb) blocks bo out oo n) =
    Inr (patch out oo (take (n * sb_value_count sb) (drop vo vals)))"
proof -
  let ?V = "sb_value_count sb"
  let ?x = "\<lambda>k. sb_block b (\<lambda>j. low (vals ! (vo + k * ?V + j))) ?V"
  let ?bs = "concat (map (\<lambda>k. to_be_bytes (?x k)) [0..<n])"
  have len: "length ?bs = n * 8" by (induction n) (simp_all add: to_be_bytes_def)
  have "from_be_bytes (take 8 (drop (bo + k * 8) (patch blocks bo ?bs))) = ?x k" if "k < n" for k
  proof -
    have "take 8 (drop (bo + k * 8) (patch blocks bo ?bs)) = take 8 (drop (k * 8) ?bs)"
      using that len assms(3) by (simp add: patch_def)
    also have "\<dots> = to_be_bytes (?x k)"
      by (rule nth_concat_blocks [OF _ that]) (simp add: to_be_bytes_def)
    finally show ?thesis by (simp add: from_to_be_bytes)
  qed
  then have "map (\<lambda>k. map cast (sb_fields b ?V (from_be_bytes (take 8 (drop (bo + k * 8) (patch blocks bo ?bs)))))) [0..<n] =
      map (\<lambda>k. map cast (sb_fields b ?V (?x k))) [0..<n]"
    by (intro map_cong refl) simp
  then show ?thesis
    using assms len sb_values_back [OF wf assms(2) f c]
    by (simp add: sb_encode_byte_ok [OF wf] sb_decode_byte_ok [OF wf] del: map_eq_conv)
qed

end
