(* ===== verification/Bulk_Enum.thy ===== *)
theory Bulk_Enum
  imports Packed_Dec_A Packed_Dec_B Packed_Dec_C Packed_Dec_D Bulk_Single Complex_Main "HOL-Library.Signed_Division"
begin

text \<open>
  \<^verbatim>\<open>BulkOperationPackedEnum\<close> (\<open>util/packed/bulk_operation_packed_enum.rs\<close>), the enumeration of all the
  bulk operations with its dispatch, and the tables and the lookup of
  \<open>util/packed/bulk_operation.rs\<close>. Every operation of the table for packed values meets the
  contract of the generic one.
\<close>

unbundle bit_operations_syntax

section \<open>The enumeration\<close>

text \<open>
  The specialised operations wrap the generic one (\<^verbatim>\<open>define_bulk_operation_packed_specialized!\<close>)
  and delegate the counts and the encoders to it.
\<close>

datatype bulk_op =
  Packed1 bulk_packed
| Packed2 bulk_packed
| Packed3 bulk_packed
| Packed4 bulk_packed
| Packed5 bulk_packed
| Packed6 bulk_packed
| Packed7 bulk_packed
| Packed8 bulk_packed
| Packed9 bulk_packed
| Packed10 bulk_packed
| Packed11 bulk_packed
| Packed12 bulk_packed
| Packed13 bulk_packed
| Packed14 bulk_packed
| Packed15 bulk_packed
| Packed16 bulk_packed
| Packed17 bulk_packed
| Packed18 bulk_packed
| Packed19 bulk_packed
| Packed20 bulk_packed
| Packed21 bulk_packed
| Packed22 bulk_packed
| Packed23 bulk_packed
| Packed24 bulk_packed
| Packed bulk_packed
| SinglePacked single_block

text \<open>The counts of \<^verbatim>\<open>impl Decoder\<close>; those of a single block are constants but for the values per block.\<close>

fun dec_long_block_count :: "bulk_op \<Rightarrow> nat" where
  "dec_long_block_count (Packed1 op) = bp_long_block_count op"
| "dec_long_block_count (Packed2 op) = bp_long_block_count op"
| "dec_long_block_count (Packed3 op) = bp_long_block_count op"
| "dec_long_block_count (Packed4 op) = bp_long_block_count op"
| "dec_long_block_count (Packed5 op) = bp_long_block_count op"
| "dec_long_block_count (Packed6 op) = bp_long_block_count op"
| "dec_long_block_count (Packed7 op) = bp_long_block_count op"
| "dec_long_block_count (Packed8 op) = bp_long_block_count op"
| "dec_long_block_count (Packed9 op) = bp_long_block_count op"
| "dec_long_block_count (Packed10 op) = bp_long_block_count op"
| "dec_long_block_count (Packed11 op) = bp_long_block_count op"
| "dec_long_block_count (Packed12 op) = bp_long_block_count op"
| "dec_long_block_count (Packed13 op) = bp_long_block_count op"
| "dec_long_block_count (Packed14 op) = bp_long_block_count op"
| "dec_long_block_count (Packed15 op) = bp_long_block_count op"
| "dec_long_block_count (Packed16 op) = bp_long_block_count op"
| "dec_long_block_count (Packed17 op) = bp_long_block_count op"
| "dec_long_block_count (Packed18 op) = bp_long_block_count op"
| "dec_long_block_count (Packed19 op) = bp_long_block_count op"
| "dec_long_block_count (Packed20 op) = bp_long_block_count op"
| "dec_long_block_count (Packed21 op) = bp_long_block_count op"
| "dec_long_block_count (Packed22 op) = bp_long_block_count op"
| "dec_long_block_count (Packed23 op) = bp_long_block_count op"
| "dec_long_block_count (Packed24 op) = bp_long_block_count op"
| "dec_long_block_count (Packed op) = bp_long_block_count op"
| "dec_long_block_count (SinglePacked op) = 1"

fun dec_long_value_count :: "bulk_op \<Rightarrow> nat" where
  "dec_long_value_count (Packed1 op) = bp_long_value_count op"
| "dec_long_value_count (Packed2 op) = bp_long_value_count op"
| "dec_long_value_count (Packed3 op) = bp_long_value_count op"
| "dec_long_value_count (Packed4 op) = bp_long_value_count op"
| "dec_long_value_count (Packed5 op) = bp_long_value_count op"
| "dec_long_value_count (Packed6 op) = bp_long_value_count op"
| "dec_long_value_count (Packed7 op) = bp_long_value_count op"
| "dec_long_value_count (Packed8 op) = bp_long_value_count op"
| "dec_long_value_count (Packed9 op) = bp_long_value_count op"
| "dec_long_value_count (Packed10 op) = bp_long_value_count op"
| "dec_long_value_count (Packed11 op) = bp_long_value_count op"
| "dec_long_value_count (Packed12 op) = bp_long_value_count op"
| "dec_long_value_count (Packed13 op) = bp_long_value_count op"
| "dec_long_value_count (Packed14 op) = bp_long_value_count op"
| "dec_long_value_count (Packed15 op) = bp_long_value_count op"
| "dec_long_value_count (Packed16 op) = bp_long_value_count op"
| "dec_long_value_count (Packed17 op) = bp_long_value_count op"
| "dec_long_value_count (Packed18 op) = bp_long_value_count op"
| "dec_long_value_count (Packed19 op) = bp_long_value_count op"
| "dec_long_value_count (Packed20 op) = bp_long_value_count op"
| "dec_long_value_count (Packed21 op) = bp_long_value_count op"
| "dec_long_value_count (Packed22 op) = bp_long_value_count op"
| "dec_long_value_count (Packed23 op) = bp_long_value_count op"
| "dec_long_value_count (Packed24 op) = bp_long_value_count op"
| "dec_long_value_count (Packed op) = bp_long_value_count op"
| "dec_long_value_count (SinglePacked op) = sb_value_count op"

fun dec_byte_block_count :: "bulk_op \<Rightarrow> nat" where
  "dec_byte_block_count (Packed1 op) = bp_byte_block_count op"
| "dec_byte_block_count (Packed2 op) = bp_byte_block_count op"
| "dec_byte_block_count (Packed3 op) = bp_byte_block_count op"
| "dec_byte_block_count (Packed4 op) = bp_byte_block_count op"
| "dec_byte_block_count (Packed5 op) = bp_byte_block_count op"
| "dec_byte_block_count (Packed6 op) = bp_byte_block_count op"
| "dec_byte_block_count (Packed7 op) = bp_byte_block_count op"
| "dec_byte_block_count (Packed8 op) = bp_byte_block_count op"
| "dec_byte_block_count (Packed9 op) = bp_byte_block_count op"
| "dec_byte_block_count (Packed10 op) = bp_byte_block_count op"
| "dec_byte_block_count (Packed11 op) = bp_byte_block_count op"
| "dec_byte_block_count (Packed12 op) = bp_byte_block_count op"
| "dec_byte_block_count (Packed13 op) = bp_byte_block_count op"
| "dec_byte_block_count (Packed14 op) = bp_byte_block_count op"
| "dec_byte_block_count (Packed15 op) = bp_byte_block_count op"
| "dec_byte_block_count (Packed16 op) = bp_byte_block_count op"
| "dec_byte_block_count (Packed17 op) = bp_byte_block_count op"
| "dec_byte_block_count (Packed18 op) = bp_byte_block_count op"
| "dec_byte_block_count (Packed19 op) = bp_byte_block_count op"
| "dec_byte_block_count (Packed20 op) = bp_byte_block_count op"
| "dec_byte_block_count (Packed21 op) = bp_byte_block_count op"
| "dec_byte_block_count (Packed22 op) = bp_byte_block_count op"
| "dec_byte_block_count (Packed23 op) = bp_byte_block_count op"
| "dec_byte_block_count (Packed24 op) = bp_byte_block_count op"
| "dec_byte_block_count (Packed op) = bp_byte_block_count op"
| "dec_byte_block_count (SinglePacked op) = 8"

fun dec_byte_value_count :: "bulk_op \<Rightarrow> nat" where
  "dec_byte_value_count (Packed1 op) = bp_byte_value_count op"
| "dec_byte_value_count (Packed2 op) = bp_byte_value_count op"
| "dec_byte_value_count (Packed3 op) = bp_byte_value_count op"
| "dec_byte_value_count (Packed4 op) = bp_byte_value_count op"
| "dec_byte_value_count (Packed5 op) = bp_byte_value_count op"
| "dec_byte_value_count (Packed6 op) = bp_byte_value_count op"
| "dec_byte_value_count (Packed7 op) = bp_byte_value_count op"
| "dec_byte_value_count (Packed8 op) = bp_byte_value_count op"
| "dec_byte_value_count (Packed9 op) = bp_byte_value_count op"
| "dec_byte_value_count (Packed10 op) = bp_byte_value_count op"
| "dec_byte_value_count (Packed11 op) = bp_byte_value_count op"
| "dec_byte_value_count (Packed12 op) = bp_byte_value_count op"
| "dec_byte_value_count (Packed13 op) = bp_byte_value_count op"
| "dec_byte_value_count (Packed14 op) = bp_byte_value_count op"
| "dec_byte_value_count (Packed15 op) = bp_byte_value_count op"
| "dec_byte_value_count (Packed16 op) = bp_byte_value_count op"
| "dec_byte_value_count (Packed17 op) = bp_byte_value_count op"
| "dec_byte_value_count (Packed18 op) = bp_byte_value_count op"
| "dec_byte_value_count (Packed19 op) = bp_byte_value_count op"
| "dec_byte_value_count (Packed20 op) = bp_byte_value_count op"
| "dec_byte_value_count (Packed21 op) = bp_byte_value_count op"
| "dec_byte_value_count (Packed22 op) = bp_byte_value_count op"
| "dec_byte_value_count (Packed23 op) = bp_byte_value_count op"
| "dec_byte_value_count (Packed24 op) = bp_byte_value_count op"
| "dec_byte_value_count (Packed op) = bp_byte_value_count op"
| "dec_byte_value_count (SinglePacked op) = sb_value_count op"

section \<open>Decoding\<close>

fun op_decode_u64_to_i64 :: "bulk_op \<Rightarrow> 64 word list \<Rightarrow> nat \<Rightarrow> 64 word list \<Rightarrow> nat \<Rightarrow> nat \<Rightarrow> 64 word list res" where
  "op_decode_u64_to_i64 (Packed1 op) = packed1_decode_u64_to_i64"
| "op_decode_u64_to_i64 (Packed2 op) = packed2_decode_u64_to_i64"
| "op_decode_u64_to_i64 (Packed3 op) = packed3_decode_u64_to_i64"
| "op_decode_u64_to_i64 (Packed4 op) = packed4_decode_u64_to_i64"
| "op_decode_u64_to_i64 (Packed5 op) = packed5_decode_u64_to_i64"
| "op_decode_u64_to_i64 (Packed6 op) = packed6_decode_u64_to_i64"
| "op_decode_u64_to_i64 (Packed7 op) = packed7_decode_u64_to_i64"
| "op_decode_u64_to_i64 (Packed8 op) = packed8_decode_u64_to_i64"
| "op_decode_u64_to_i64 (Packed9 op) = packed9_decode_u64_to_i64"
| "op_decode_u64_to_i64 (Packed10 op) = packed10_decode_u64_to_i64"
| "op_decode_u64_to_i64 (Packed11 op) = packed11_decode_u64_to_i64"
| "op_decode_u64_to_i64 (Packed12 op) = packed12_decode_u64_to_i64"
| "op_decode_u64_to_i64 (Packed13 op) = packed13_decode_u64_to_i64"
| "op_decode_u64_to_i64 (Packed14 op) = packed14_decode_u64_to_i64"
| "op_decode_u64_to_i64 (Packed15 op) = packed15_decode_u64_to_i64"
| "op_decode_u64_to_i64 (Packed16 op) = packed16_decode_u64_to_i64"
| "op_decode_u64_to_i64 (Packed17 op) = packed17_decode_u64_to_i64"
| "op_decode_u64_to_i64 (Packed18 op) = packed18_decode_u64_to_i64"
| "op_decode_u64_to_i64 (Packed19 op) = packed19_decode_u64_to_i64"
| "op_decode_u64_to_i64 (Packed20 op) = packed20_decode_u64_to_i64"
| "op_decode_u64_to_i64 (Packed21 op) = packed21_decode_u64_to_i64"
| "op_decode_u64_to_i64 (Packed22 op) = packed22_decode_u64_to_i64"
| "op_decode_u64_to_i64 (Packed23 op) = packed23_decode_u64_to_i64"
| "op_decode_u64_to_i64 (Packed24 op) = packed24_decode_u64_to_i64"
| "op_decode_u64_to_i64 (Packed op) = bp_decode_u64_to_i64 op"
| "op_decode_u64_to_i64 (SinglePacked op) = sb_decode_u64_to_i64 op"

fun op_decode_u8_to_i64 :: "bulk_op \<Rightarrow> 8 word list \<Rightarrow> nat \<Rightarrow> 64 word list \<Rightarrow> nat \<Rightarrow> nat \<Rightarrow> 64 word list res" where
  "op_decode_u8_to_i64 (Packed1 op) = packed1_decode_u8_to_i64"
| "op_decode_u8_to_i64 (Packed2 op) = packed2_decode_u8_to_i64"
| "op_decode_u8_to_i64 (Packed3 op) = packed3_decode_u8_to_i64"
| "op_decode_u8_to_i64 (Packed4 op) = packed4_decode_u8_to_i64"
| "op_decode_u8_to_i64 (Packed5 op) = packed5_decode_u8_to_i64"
| "op_decode_u8_to_i64 (Packed6 op) = packed6_decode_u8_to_i64"
| "op_decode_u8_to_i64 (Packed7 op) = packed7_decode_u8_to_i64"
| "op_decode_u8_to_i64 (Packed8 op) = packed8_decode_u8_to_i64"
| "op_decode_u8_to_i64 (Packed9 op) = packed9_decode_u8_to_i64"
| "op_decode_u8_to_i64 (Packed10 op) = packed10_decode_u8_to_i64"
| "op_decode_u8_to_i64 (Packed11 op) = packed11_decode_u8_to_i64"
| "op_decode_u8_to_i64 (Packed12 op) = packed12_decode_u8_to_i64"
| "op_decode_u8_to_i64 (Packed13 op) = packed13_decode_u8_to_i64"
| "op_decode_u8_to_i64 (Packed14 op) = packed14_decode_u8_to_i64"
| "op_decode_u8_to_i64 (Packed15 op) = packed15_decode_u8_to_i64"
| "op_decode_u8_to_i64 (Packed16 op) = packed16_decode_u8_to_i64"
| "op_decode_u8_to_i64 (Packed17 op) = packed17_decode_u8_to_i64"
| "op_decode_u8_to_i64 (Packed18 op) = packed18_decode_u8_to_i64"
| "op_decode_u8_to_i64 (Packed19 op) = packed19_decode_u8_to_i64"
| "op_decode_u8_to_i64 (Packed20 op) = packed20_decode_u8_to_i64"
| "op_decode_u8_to_i64 (Packed21 op) = packed21_decode_u8_to_i64"
| "op_decode_u8_to_i64 (Packed22 op) = packed22_decode_u8_to_i64"
| "op_decode_u8_to_i64 (Packed23 op) = packed23_decode_u8_to_i64"
| "op_decode_u8_to_i64 (Packed24 op) = packed24_decode_u8_to_i64"
| "op_decode_u8_to_i64 (Packed op) = bp_decode_u8_to_i64 op"
| "op_decode_u8_to_i64 (SinglePacked op) = sb_decode_u8_to_i64 op"

fun op_decode_u64_to_i32 :: "bulk_op \<Rightarrow> 64 word list \<Rightarrow> nat \<Rightarrow> 32 word list \<Rightarrow> nat \<Rightarrow> nat \<Rightarrow> 32 word list res" where
  "op_decode_u64_to_i32 (Packed1 op) = packed1_decode_u64_to_i32"
| "op_decode_u64_to_i32 (Packed2 op) = packed2_decode_u64_to_i32"
| "op_decode_u64_to_i32 (Packed3 op) = packed3_decode_u64_to_i32"
| "op_decode_u64_to_i32 (Packed4 op) = packed4_decode_u64_to_i32"
| "op_decode_u64_to_i32 (Packed5 op) = packed5_decode_u64_to_i32"
| "op_decode_u64_to_i32 (Packed6 op) = packed6_decode_u64_to_i32"
| "op_decode_u64_to_i32 (Packed7 op) = packed7_decode_u64_to_i32"
| "op_decode_u64_to_i32 (Packed8 op) = packed8_decode_u64_to_i32"
| "op_decode_u64_to_i32 (Packed9 op) = packed9_decode_u64_to_i32"
| "op_decode_u64_to_i32 (Packed10 op) = packed10_decode_u64_to_i32"
| "op_decode_u64_to_i32 (Packed11 op) = packed11_decode_u64_to_i32"
| "op_decode_u64_to_i32 (Packed12 op) = packed12_decode_u64_to_i32"
| "op_decode_u64_to_i32 (Packed13 op) = packed13_decode_u64_to_i32"
| "op_decode_u64_to_i32 (Packed14 op) = packed14_decode_u64_to_i32"
| "op_decode_u64_to_i32 (Packed15 op) = packed15_decode_u64_to_i32"
| "op_decode_u64_to_i32 (Packed16 op) = packed16_decode_u64_to_i32"
| "op_decode_u64_to_i32 (Packed17 op) = packed17_decode_u64_to_i32"
| "op_decode_u64_to_i32 (Packed18 op) = packed18_decode_u64_to_i32"
| "op_decode_u64_to_i32 (Packed19 op) = packed19_decode_u64_to_i32"
| "op_decode_u64_to_i32 (Packed20 op) = packed20_decode_u64_to_i32"
| "op_decode_u64_to_i32 (Packed21 op) = packed21_decode_u64_to_i32"
| "op_decode_u64_to_i32 (Packed22 op) = packed22_decode_u64_to_i32"
| "op_decode_u64_to_i32 (Packed23 op) = packed23_decode_u64_to_i32"
| "op_decode_u64_to_i32 (Packed24 op) = packed24_decode_u64_to_i32"
| "op_decode_u64_to_i32 (Packed op) = bp_decode_u64_to_i32 op"
| "op_decode_u64_to_i32 (SinglePacked op) = sb_decode_u64_to_i32 op"

fun op_decode_u8_to_i32 :: "bulk_op \<Rightarrow> 8 word list \<Rightarrow> nat \<Rightarrow> 32 word list \<Rightarrow> nat \<Rightarrow> nat \<Rightarrow> 32 word list res" where
  "op_decode_u8_to_i32 (Packed1 op) = packed1_decode_u8_to_i32"
| "op_decode_u8_to_i32 (Packed2 op) = packed2_decode_u8_to_i32"
| "op_decode_u8_to_i32 (Packed3 op) = packed3_decode_u8_to_i32"
| "op_decode_u8_to_i32 (Packed4 op) = packed4_decode_u8_to_i32"
| "op_decode_u8_to_i32 (Packed5 op) = packed5_decode_u8_to_i32"
| "op_decode_u8_to_i32 (Packed6 op) = packed6_decode_u8_to_i32"
| "op_decode_u8_to_i32 (Packed7 op) = packed7_decode_u8_to_i32"
| "op_decode_u8_to_i32 (Packed8 op) = packed8_decode_u8_to_i32"
| "op_decode_u8_to_i32 (Packed9 op) = packed9_decode_u8_to_i32"
| "op_decode_u8_to_i32 (Packed10 op) = packed10_decode_u8_to_i32"
| "op_decode_u8_to_i32 (Packed11 op) = packed11_decode_u8_to_i32"
| "op_decode_u8_to_i32 (Packed12 op) = packed12_decode_u8_to_i32"
| "op_decode_u8_to_i32 (Packed13 op) = packed13_decode_u8_to_i32"
| "op_decode_u8_to_i32 (Packed14 op) = packed14_decode_u8_to_i32"
| "op_decode_u8_to_i32 (Packed15 op) = packed15_decode_u8_to_i32"
| "op_decode_u8_to_i32 (Packed16 op) = packed16_decode_u8_to_i32"
| "op_decode_u8_to_i32 (Packed17 op) = packed17_decode_u8_to_i32"
| "op_decode_u8_to_i32 (Packed18 op) = packed18_decode_u8_to_i32"
| "op_decode_u8_to_i32 (Packed19 op) = packed19_decode_u8_to_i32"
| "op_decode_u8_to_i32 (Packed20 op) = packed20_decode_u8_to_i32"
| "op_decode_u8_to_i32 (Packed21 op) = packed21_decode_u8_to_i32"
| "op_decode_u8_to_i32 (Packed22 op) = packed22_decode_u8_to_i32"
| "op_decode_u8_to_i32 (Packed23 op) = packed23_decode_u8_to_i32"
| "op_decode_u8_to_i32 (Packed24 op) = packed24_decode_u8_to_i32"
| "op_decode_u8_to_i32 (Packed op) = bp_decode_u8_to_i32 op"
| "op_decode_u8_to_i32 (SinglePacked op) = sb_decode_u8_to_i32 op"

section \<open>Encoding\<close>

text \<open>The counts of \<^verbatim>\<open>impl Encoder\<close>.\<close>

fun enc_long_block_count :: "bulk_op \<Rightarrow> nat" where
  "enc_long_block_count (Packed1 op) = bp_long_block_count op"
| "enc_long_block_count (Packed2 op) = bp_long_block_count op"
| "enc_long_block_count (Packed3 op) = bp_long_block_count op"
| "enc_long_block_count (Packed4 op) = bp_long_block_count op"
| "enc_long_block_count (Packed5 op) = bp_long_block_count op"
| "enc_long_block_count (Packed6 op) = bp_long_block_count op"
| "enc_long_block_count (Packed7 op) = bp_long_block_count op"
| "enc_long_block_count (Packed8 op) = bp_long_block_count op"
| "enc_long_block_count (Packed9 op) = bp_long_block_count op"
| "enc_long_block_count (Packed10 op) = bp_long_block_count op"
| "enc_long_block_count (Packed11 op) = bp_long_block_count op"
| "enc_long_block_count (Packed12 op) = bp_long_block_count op"
| "enc_long_block_count (Packed13 op) = bp_long_block_count op"
| "enc_long_block_count (Packed14 op) = bp_long_block_count op"
| "enc_long_block_count (Packed15 op) = bp_long_block_count op"
| "enc_long_block_count (Packed16 op) = bp_long_block_count op"
| "enc_long_block_count (Packed17 op) = bp_long_block_count op"
| "enc_long_block_count (Packed18 op) = bp_long_block_count op"
| "enc_long_block_count (Packed19 op) = bp_long_block_count op"
| "enc_long_block_count (Packed20 op) = bp_long_block_count op"
| "enc_long_block_count (Packed21 op) = bp_long_block_count op"
| "enc_long_block_count (Packed22 op) = bp_long_block_count op"
| "enc_long_block_count (Packed23 op) = bp_long_block_count op"
| "enc_long_block_count (Packed24 op) = bp_long_block_count op"
| "enc_long_block_count (Packed op) = bp_long_block_count op"
| "enc_long_block_count (SinglePacked op) = 1"

fun enc_long_value_count :: "bulk_op \<Rightarrow> nat" where
  "enc_long_value_count (Packed1 op) = bp_long_value_count op"
| "enc_long_value_count (Packed2 op) = bp_long_value_count op"
| "enc_long_value_count (Packed3 op) = bp_long_value_count op"
| "enc_long_value_count (Packed4 op) = bp_long_value_count op"
| "enc_long_value_count (Packed5 op) = bp_long_value_count op"
| "enc_long_value_count (Packed6 op) = bp_long_value_count op"
| "enc_long_value_count (Packed7 op) = bp_long_value_count op"
| "enc_long_value_count (Packed8 op) = bp_long_value_count op"
| "enc_long_value_count (Packed9 op) = bp_long_value_count op"
| "enc_long_value_count (Packed10 op) = bp_long_value_count op"
| "enc_long_value_count (Packed11 op) = bp_long_value_count op"
| "enc_long_value_count (Packed12 op) = bp_long_value_count op"
| "enc_long_value_count (Packed13 op) = bp_long_value_count op"
| "enc_long_value_count (Packed14 op) = bp_long_value_count op"
| "enc_long_value_count (Packed15 op) = bp_long_value_count op"
| "enc_long_value_count (Packed16 op) = bp_long_value_count op"
| "enc_long_value_count (Packed17 op) = bp_long_value_count op"
| "enc_long_value_count (Packed18 op) = bp_long_value_count op"
| "enc_long_value_count (Packed19 op) = bp_long_value_count op"
| "enc_long_value_count (Packed20 op) = bp_long_value_count op"
| "enc_long_value_count (Packed21 op) = bp_long_value_count op"
| "enc_long_value_count (Packed22 op) = bp_long_value_count op"
| "enc_long_value_count (Packed23 op) = bp_long_value_count op"
| "enc_long_value_count (Packed24 op) = bp_long_value_count op"
| "enc_long_value_count (Packed op) = bp_long_value_count op"
| "enc_long_value_count (SinglePacked op) = sb_value_count op"

fun enc_byte_block_count :: "bulk_op \<Rightarrow> nat" where
  "enc_byte_block_count (Packed1 op) = bp_byte_block_count op"
| "enc_byte_block_count (Packed2 op) = bp_byte_block_count op"
| "enc_byte_block_count (Packed3 op) = bp_byte_block_count op"
| "enc_byte_block_count (Packed4 op) = bp_byte_block_count op"
| "enc_byte_block_count (Packed5 op) = bp_byte_block_count op"
| "enc_byte_block_count (Packed6 op) = bp_byte_block_count op"
| "enc_byte_block_count (Packed7 op) = bp_byte_block_count op"
| "enc_byte_block_count (Packed8 op) = bp_byte_block_count op"
| "enc_byte_block_count (Packed9 op) = bp_byte_block_count op"
| "enc_byte_block_count (Packed10 op) = bp_byte_block_count op"
| "enc_byte_block_count (Packed11 op) = bp_byte_block_count op"
| "enc_byte_block_count (Packed12 op) = bp_byte_block_count op"
| "enc_byte_block_count (Packed13 op) = bp_byte_block_count op"
| "enc_byte_block_count (Packed14 op) = bp_byte_block_count op"
| "enc_byte_block_count (Packed15 op) = bp_byte_block_count op"
| "enc_byte_block_count (Packed16 op) = bp_byte_block_count op"
| "enc_byte_block_count (Packed17 op) = bp_byte_block_count op"
| "enc_byte_block_count (Packed18 op) = bp_byte_block_count op"
| "enc_byte_block_count (Packed19 op) = bp_byte_block_count op"
| "enc_byte_block_count (Packed20 op) = bp_byte_block_count op"
| "enc_byte_block_count (Packed21 op) = bp_byte_block_count op"
| "enc_byte_block_count (Packed22 op) = bp_byte_block_count op"
| "enc_byte_block_count (Packed23 op) = bp_byte_block_count op"
| "enc_byte_block_count (Packed24 op) = bp_byte_block_count op"
| "enc_byte_block_count (Packed op) = bp_byte_block_count op"
| "enc_byte_block_count (SinglePacked op) = 8"

fun enc_byte_value_count :: "bulk_op \<Rightarrow> nat" where
  "enc_byte_value_count (Packed1 op) = bp_byte_value_count op"
| "enc_byte_value_count (Packed2 op) = bp_byte_value_count op"
| "enc_byte_value_count (Packed3 op) = bp_byte_value_count op"
| "enc_byte_value_count (Packed4 op) = bp_byte_value_count op"
| "enc_byte_value_count (Packed5 op) = bp_byte_value_count op"
| "enc_byte_value_count (Packed6 op) = bp_byte_value_count op"
| "enc_byte_value_count (Packed7 op) = bp_byte_value_count op"
| "enc_byte_value_count (Packed8 op) = bp_byte_value_count op"
| "enc_byte_value_count (Packed9 op) = bp_byte_value_count op"
| "enc_byte_value_count (Packed10 op) = bp_byte_value_count op"
| "enc_byte_value_count (Packed11 op) = bp_byte_value_count op"
| "enc_byte_value_count (Packed12 op) = bp_byte_value_count op"
| "enc_byte_value_count (Packed13 op) = bp_byte_value_count op"
| "enc_byte_value_count (Packed14 op) = bp_byte_value_count op"
| "enc_byte_value_count (Packed15 op) = bp_byte_value_count op"
| "enc_byte_value_count (Packed16 op) = bp_byte_value_count op"
| "enc_byte_value_count (Packed17 op) = bp_byte_value_count op"
| "enc_byte_value_count (Packed18 op) = bp_byte_value_count op"
| "enc_byte_value_count (Packed19 op) = bp_byte_value_count op"
| "enc_byte_value_count (Packed20 op) = bp_byte_value_count op"
| "enc_byte_value_count (Packed21 op) = bp_byte_value_count op"
| "enc_byte_value_count (Packed22 op) = bp_byte_value_count op"
| "enc_byte_value_count (Packed23 op) = bp_byte_value_count op"
| "enc_byte_value_count (Packed24 op) = bp_byte_value_count op"
| "enc_byte_value_count (Packed op) = bp_byte_value_count op"
| "enc_byte_value_count (SinglePacked op) = sb_value_count op"

fun op_encode_i64_to_u64 :: "'x u64x2 \<Rightarrow> bulk_op \<Rightarrow> 64 word list \<Rightarrow> nat \<Rightarrow> 64 word list \<Rightarrow> nat \<Rightarrow> nat \<Rightarrow> 64 word list res" where
  "op_encode_i64_to_u64 X (Packed1 op) = bp_encode_i64_to_u64 X op"
| "op_encode_i64_to_u64 X (Packed2 op) = bp_encode_i64_to_u64 X op"
| "op_encode_i64_to_u64 X (Packed3 op) = bp_encode_i64_to_u64 X op"
| "op_encode_i64_to_u64 X (Packed4 op) = bp_encode_i64_to_u64 X op"
| "op_encode_i64_to_u64 X (Packed5 op) = bp_encode_i64_to_u64 X op"
| "op_encode_i64_to_u64 X (Packed6 op) = bp_encode_i64_to_u64 X op"
| "op_encode_i64_to_u64 X (Packed7 op) = bp_encode_i64_to_u64 X op"
| "op_encode_i64_to_u64 X (Packed8 op) = bp_encode_i64_to_u64 X op"
| "op_encode_i64_to_u64 X (Packed9 op) = bp_encode_i64_to_u64 X op"
| "op_encode_i64_to_u64 X (Packed10 op) = bp_encode_i64_to_u64 X op"
| "op_encode_i64_to_u64 X (Packed11 op) = bp_encode_i64_to_u64 X op"
| "op_encode_i64_to_u64 X (Packed12 op) = bp_encode_i64_to_u64 X op"
| "op_encode_i64_to_u64 X (Packed13 op) = bp_encode_i64_to_u64 X op"
| "op_encode_i64_to_u64 X (Packed14 op) = bp_encode_i64_to_u64 X op"
| "op_encode_i64_to_u64 X (Packed15 op) = bp_encode_i64_to_u64 X op"
| "op_encode_i64_to_u64 X (Packed16 op) = bp_encode_i64_to_u64 X op"
| "op_encode_i64_to_u64 X (Packed17 op) = bp_encode_i64_to_u64 X op"
| "op_encode_i64_to_u64 X (Packed18 op) = bp_encode_i64_to_u64 X op"
| "op_encode_i64_to_u64 X (Packed19 op) = bp_encode_i64_to_u64 X op"
| "op_encode_i64_to_u64 X (Packed20 op) = bp_encode_i64_to_u64 X op"
| "op_encode_i64_to_u64 X (Packed21 op) = bp_encode_i64_to_u64 X op"
| "op_encode_i64_to_u64 X (Packed22 op) = bp_encode_i64_to_u64 X op"
| "op_encode_i64_to_u64 X (Packed23 op) = bp_encode_i64_to_u64 X op"
| "op_encode_i64_to_u64 X (Packed24 op) = bp_encode_i64_to_u64 X op"
| "op_encode_i64_to_u64 X (Packed op) = bp_encode_i64_to_u64 X op"
| "op_encode_i64_to_u64 X (SinglePacked op) = sb_encode_i64_to_u64 op"

fun op_encode_i64_to_u8 :: "bulk_op \<Rightarrow> 64 word list \<Rightarrow> nat \<Rightarrow> 8 word list \<Rightarrow> nat \<Rightarrow> nat \<Rightarrow> 8 word list res" where
  "op_encode_i64_to_u8 (Packed1 op) = bp_encode_i64_to_u8 op"
| "op_encode_i64_to_u8 (Packed2 op) = bp_encode_i64_to_u8 op"
| "op_encode_i64_to_u8 (Packed3 op) = bp_encode_i64_to_u8 op"
| "op_encode_i64_to_u8 (Packed4 op) = bp_encode_i64_to_u8 op"
| "op_encode_i64_to_u8 (Packed5 op) = bp_encode_i64_to_u8 op"
| "op_encode_i64_to_u8 (Packed6 op) = bp_encode_i64_to_u8 op"
| "op_encode_i64_to_u8 (Packed7 op) = bp_encode_i64_to_u8 op"
| "op_encode_i64_to_u8 (Packed8 op) = bp_encode_i64_to_u8 op"
| "op_encode_i64_to_u8 (Packed9 op) = bp_encode_i64_to_u8 op"
| "op_encode_i64_to_u8 (Packed10 op) = bp_encode_i64_to_u8 op"
| "op_encode_i64_to_u8 (Packed11 op) = bp_encode_i64_to_u8 op"
| "op_encode_i64_to_u8 (Packed12 op) = bp_encode_i64_to_u8 op"
| "op_encode_i64_to_u8 (Packed13 op) = bp_encode_i64_to_u8 op"
| "op_encode_i64_to_u8 (Packed14 op) = bp_encode_i64_to_u8 op"
| "op_encode_i64_to_u8 (Packed15 op) = bp_encode_i64_to_u8 op"
| "op_encode_i64_to_u8 (Packed16 op) = bp_encode_i64_to_u8 op"
| "op_encode_i64_to_u8 (Packed17 op) = bp_encode_i64_to_u8 op"
| "op_encode_i64_to_u8 (Packed18 op) = bp_encode_i64_to_u8 op"
| "op_encode_i64_to_u8 (Packed19 op) = bp_encode_i64_to_u8 op"
| "op_encode_i64_to_u8 (Packed20 op) = bp_encode_i64_to_u8 op"
| "op_encode_i64_to_u8 (Packed21 op) = bp_encode_i64_to_u8 op"
| "op_encode_i64_to_u8 (Packed22 op) = bp_encode_i64_to_u8 op"
| "op_encode_i64_to_u8 (Packed23 op) = bp_encode_i64_to_u8 op"
| "op_encode_i64_to_u8 (Packed24 op) = bp_encode_i64_to_u8 op"
| "op_encode_i64_to_u8 (Packed op) = bp_encode_i64_to_u8 op"
| "op_encode_i64_to_u8 (SinglePacked op) = sb_encode_i64_to_u8 op"

fun op_encode_i32_to_u64 :: "bulk_op \<Rightarrow> 32 word list \<Rightarrow> nat \<Rightarrow> 64 word list \<Rightarrow> nat \<Rightarrow> nat \<Rightarrow> 64 word list res" where
  "op_encode_i32_to_u64 (Packed1 op) = bp_encode_i32_to_u64 op"
| "op_encode_i32_to_u64 (Packed2 op) = bp_encode_i32_to_u64 op"
| "op_encode_i32_to_u64 (Packed3 op) = bp_encode_i32_to_u64 op"
| "op_encode_i32_to_u64 (Packed4 op) = bp_encode_i32_to_u64 op"
| "op_encode_i32_to_u64 (Packed5 op) = bp_encode_i32_to_u64 op"
| "op_encode_i32_to_u64 (Packed6 op) = bp_encode_i32_to_u64 op"
| "op_encode_i32_to_u64 (Packed7 op) = bp_encode_i32_to_u64 op"
| "op_encode_i32_to_u64 (Packed8 op) = bp_encode_i32_to_u64 op"
| "op_encode_i32_to_u64 (Packed9 op) = bp_encode_i32_to_u64 op"
| "op_encode_i32_to_u64 (Packed10 op) = bp_encode_i32_to_u64 op"
| "op_encode_i32_to_u64 (Packed11 op) = bp_encode_i32_to_u64 op"
| "op_encode_i32_to_u64 (Packed12 op) = bp_encode_i32_to_u64 op"
| "op_encode_i32_to_u64 (Packed13 op) = bp_encode_i32_to_u64 op"
| "op_encode_i32_to_u64 (Packed14 op) = bp_encode_i32_to_u64 op"
| "op_encode_i32_to_u64 (Packed15 op) = bp_encode_i32_to_u64 op"
| "op_encode_i32_to_u64 (Packed16 op) = bp_encode_i32_to_u64 op"
| "op_encode_i32_to_u64 (Packed17 op) = bp_encode_i32_to_u64 op"
| "op_encode_i32_to_u64 (Packed18 op) = bp_encode_i32_to_u64 op"
| "op_encode_i32_to_u64 (Packed19 op) = bp_encode_i32_to_u64 op"
| "op_encode_i32_to_u64 (Packed20 op) = bp_encode_i32_to_u64 op"
| "op_encode_i32_to_u64 (Packed21 op) = bp_encode_i32_to_u64 op"
| "op_encode_i32_to_u64 (Packed22 op) = bp_encode_i32_to_u64 op"
| "op_encode_i32_to_u64 (Packed23 op) = bp_encode_i32_to_u64 op"
| "op_encode_i32_to_u64 (Packed24 op) = bp_encode_i32_to_u64 op"
| "op_encode_i32_to_u64 (Packed op) = bp_encode_i32_to_u64 op"
| "op_encode_i32_to_u64 (SinglePacked op) = sb_encode_i32_to_u64 op"

fun op_encode_i32_to_u8 :: "bulk_op \<Rightarrow> 32 word list \<Rightarrow> nat \<Rightarrow> 8 word list \<Rightarrow> nat \<Rightarrow> nat \<Rightarrow> 8 word list res" where
  "op_encode_i32_to_u8 (Packed1 op) = bp_encode_i32_to_u8 op"
| "op_encode_i32_to_u8 (Packed2 op) = bp_encode_i32_to_u8 op"
| "op_encode_i32_to_u8 (Packed3 op) = bp_encode_i32_to_u8 op"
| "op_encode_i32_to_u8 (Packed4 op) = bp_encode_i32_to_u8 op"
| "op_encode_i32_to_u8 (Packed5 op) = bp_encode_i32_to_u8 op"
| "op_encode_i32_to_u8 (Packed6 op) = bp_encode_i32_to_u8 op"
| "op_encode_i32_to_u8 (Packed7 op) = bp_encode_i32_to_u8 op"
| "op_encode_i32_to_u8 (Packed8 op) = bp_encode_i32_to_u8 op"
| "op_encode_i32_to_u8 (Packed9 op) = bp_encode_i32_to_u8 op"
| "op_encode_i32_to_u8 (Packed10 op) = bp_encode_i32_to_u8 op"
| "op_encode_i32_to_u8 (Packed11 op) = bp_encode_i32_to_u8 op"
| "op_encode_i32_to_u8 (Packed12 op) = bp_encode_i32_to_u8 op"
| "op_encode_i32_to_u8 (Packed13 op) = bp_encode_i32_to_u8 op"
| "op_encode_i32_to_u8 (Packed14 op) = bp_encode_i32_to_u8 op"
| "op_encode_i32_to_u8 (Packed15 op) = bp_encode_i32_to_u8 op"
| "op_encode_i32_to_u8 (Packed16 op) = bp_encode_i32_to_u8 op"
| "op_encode_i32_to_u8 (Packed17 op) = bp_encode_i32_to_u8 op"
| "op_encode_i32_to_u8 (Packed18 op) = bp_encode_i32_to_u8 op"
| "op_encode_i32_to_u8 (Packed19 op) = bp_encode_i32_to_u8 op"
| "op_encode_i32_to_u8 (Packed20 op) = bp_encode_i32_to_u8 op"
| "op_encode_i32_to_u8 (Packed21 op) = bp_encode_i32_to_u8 op"
| "op_encode_i32_to_u8 (Packed22 op) = bp_encode_i32_to_u8 op"
| "op_encode_i32_to_u8 (Packed23 op) = bp_encode_i32_to_u8 op"
| "op_encode_i32_to_u8 (Packed24 op) = bp_encode_i32_to_u8 op"
| "op_encode_i32_to_u8 (Packed op) = bp_encode_i32_to_u8 op"
| "op_encode_i32_to_u8 (SinglePacked op) = sb_encode_i32_to_u8 op"

section \<open>The tables and the lookup\<close>

text \<open>\<^verbatim>\<open>Format\<close>: each variant carries its id.\<close>

datatype packed_format = Format_Packed nat | Format_PackedSingleBlock nat

text \<open>
  The tables are constants whose elements the \<^verbatim>\<open>const fn\<close> constructors build; an element that
  panics is an error of the table.
\<close>

definition rmap :: "('a \<Rightarrow> 'b) \<Rightarrow> 'a res \<Rightarrow> 'b res" where
  "rmap f m = rbind m (\<lambda>x. Inr (f x))"

fun rseq :: "'a res list \<Rightarrow> 'a list res" where
  "rseq [] = Inr []"
| "rseq (m # ms) = rbind m (\<lambda>x. rbind (rseq ms) (\<lambda>xs. Inr (x # xs)))"

definition PACKED_BULK_OPS :: "bulk_op list res" where
  "PACKED_BULK_OPS = rseq
    [rmap Packed1 (bulk_packed_new 1),
     rmap Packed2 (bulk_packed_new 2),
     rmap Packed3 (bulk_packed_new 3),
     rmap Packed4 (bulk_packed_new 4),
     rmap Packed5 (bulk_packed_new 5),
     rmap Packed6 (bulk_packed_new 6),
     rmap Packed7 (bulk_packed_new 7),
     rmap Packed8 (bulk_packed_new 8),
     rmap Packed9 (bulk_packed_new 9),
     rmap Packed10 (bulk_packed_new 10),
     rmap Packed11 (bulk_packed_new 11),
     rmap Packed12 (bulk_packed_new 12),
     rmap Packed13 (bulk_packed_new 13),
     rmap Packed14 (bulk_packed_new 14),
     rmap Packed15 (bulk_packed_new 15),
     rmap Packed16 (bulk_packed_new 16),
     rmap Packed17 (bulk_packed_new 17),
     rmap Packed18 (bulk_packed_new 18),
     rmap Packed19 (bulk_packed_new 19),
     rmap Packed20 (bulk_packed_new 20),
     rmap Packed21 (bulk_packed_new 21),
     rmap Packed22 (bulk_packed_new 22),
     rmap Packed23 (bulk_packed_new 23),
     rmap Packed24 (bulk_packed_new 24),
     rmap Packed (bulk_packed_new 25),
     rmap Packed (bulk_packed_new 26),
     rmap Packed (bulk_packed_new 27),
     rmap Packed (bulk_packed_new 28),
     rmap Packed (bulk_packed_new 29),
     rmap Packed (bulk_packed_new 30),
     rmap Packed (bulk_packed_new 31),
     rmap Packed (bulk_packed_new 32),
     rmap Packed (bulk_packed_new 33),
     rmap Packed (bulk_packed_new 34),
     rmap Packed (bulk_packed_new 35),
     rmap Packed (bulk_packed_new 36),
     rmap Packed (bulk_packed_new 37),
     rmap Packed (bulk_packed_new 38),
     rmap Packed (bulk_packed_new 39),
     rmap Packed (bulk_packed_new 40),
     rmap Packed (bulk_packed_new 41),
     rmap Packed (bulk_packed_new 42),
     rmap Packed (bulk_packed_new 43),
     rmap Packed (bulk_packed_new 44),
     rmap Packed (bulk_packed_new 45),
     rmap Packed (bulk_packed_new 46),
     rmap Packed (bulk_packed_new 47),
     rmap Packed (bulk_packed_new 48),
     rmap Packed (bulk_packed_new 49),
     rmap Packed (bulk_packed_new 50),
     rmap Packed (bulk_packed_new 51),
     rmap Packed (bulk_packed_new 52),
     rmap Packed (bulk_packed_new 53),
     rmap Packed (bulk_packed_new 54),
     rmap Packed (bulk_packed_new 55),
     rmap Packed (bulk_packed_new 56),
     rmap Packed (bulk_packed_new 57),
     rmap Packed (bulk_packed_new 58),
     rmap Packed (bulk_packed_new 59),
     rmap Packed (bulk_packed_new 60),
     rmap Packed (bulk_packed_new 61),
     rmap Packed (bulk_packed_new 62),
     rmap Packed (bulk_packed_new 63),
     rmap Packed (bulk_packed_new 64)]"

definition PACKED_SINGLE_BLOCK_BULK_OPS :: "bulk_op option list res" where
  "PACKED_SINGLE_BLOCK_BULK_OPS = rseq
    [rmap (\<lambda>op. Some (SinglePacked op)) (single_block_new 1),
     rmap (\<lambda>op. Some (SinglePacked op)) (single_block_new 2),
     rmap (\<lambda>op. Some (SinglePacked op)) (single_block_new 3),
     rmap (\<lambda>op. Some (SinglePacked op)) (single_block_new 4),
     rmap (\<lambda>op. Some (SinglePacked op)) (single_block_new 5),
     rmap (\<lambda>op. Some (SinglePacked op)) (single_block_new 6),
     rmap (\<lambda>op. Some (SinglePacked op)) (single_block_new 7),
     rmap (\<lambda>op. Some (SinglePacked op)) (single_block_new 8),
     rmap (\<lambda>op. Some (SinglePacked op)) (single_block_new 9),
     rmap (\<lambda>op. Some (SinglePacked op)) (single_block_new 10),
     Inr None,
     rmap (\<lambda>op. Some (SinglePacked op)) (single_block_new 12),
     Inr None,
     Inr None,
     Inr None,
     rmap (\<lambda>op. Some (SinglePacked op)) (single_block_new 16),
     Inr None,
     Inr None,
     Inr None,
     Inr None,
     rmap (\<lambda>op. Some (SinglePacked op)) (single_block_new 21),
     Inr None,
     Inr None,
     Inr None,
     Inr None,
     Inr None,
     Inr None,
     Inr None,
     Inr None,
     Inr None,
     Inr None,
     rmap (\<lambda>op. Some (SinglePacked op)) (single_block_new 32)]"

text \<open>\<^verbatim>\<open>of\<close>: \<^verbatim>\<open>bits_per_value.wrapping_sub(1) as usize\<close> sign-extends.\<close>

definition op_of :: "packed_format \<Rightarrow> i32 \<Rightarrow> bulk_op res" where
  "op_of format bits_per_value =
     (let i = unat (scast (bits_per_value - 1) :: 64 word) in
      case format of
        Format_Packed _ \<Rightarrow> rbind PACKED_BULK_OPS (\<lambda>ops.
          if i < length ops then Inr (ops ! i) else Inl ArrayIndexOutOfBounds)
      | Format_PackedSingleBlock _ \<Rightarrow> rbind PACKED_SINGLE_BLOCK_BULK_OPS (\<lambda>ops.
          if i < length ops
          then dassert (ops ! i \<noteq> None) (case ops ! i of Some op \<Rightarrow> Inr op | None \<Rightarrow> Inl IllegalArgument)
          else Inl ArrayIndexOutOfBounds))"

text \<open>
  \<^verbatim>\<open>compute_iterations\<close>. The quotient of two \<^verbatim>\<open>i32\<close> values in \<^verbatim>\<open>f64\<close> is exact enough that its
  ceiling is that of the rational quotient: both are exact in \<^verbatim>\<open>f64\<close>, and a quotient \<open>a / b\<close> that
  is not an integer is at least \<open>1 / b\<close> away from one, which is far more than the rounding.
\<close>

definition compute_iterations :: "bulk_op \<Rightarrow> int \<Rightarrow> int \<Rightarrow> int res" where
  "compute_iterations op value_count ram_budget =
     (let byte_value_count = as_i32 (dec_byte_value_count op) in
      rbind (i32_checked (8 * byte_value_count)) (\<lambda>x.
      rbind (i32_checked (as_i32 (dec_byte_block_count op) + x)) (\<lambda>y.
      dassert (y \<noteq> 0) (
      rbind (i32_checked (ram_budget sdiv y)) (\<lambda>iterations.
      if iterations = 0 then Inr 1
      else rbind (i32_checked (iterations - 1)) (\<lambda>z.
           rbind (i32_checked (z * byte_value_count)) (\<lambda>z.
           if value_count \<le> z
           then Inr \<lceil>of_int value_count / of_int byte_value_count :: rat\<rceil>
           else Inr iterations)))))))"

section \<open>The operations of the table\<close>

definition packed_ops :: "(bulk_packed \<Rightarrow> bulk_op) list" where
  "packed_ops = [Packed1, Packed2, Packed3, Packed4, Packed5, Packed6, Packed7, Packed8, Packed9, Packed10, Packed11, Packed12, Packed13, Packed14, Packed15, Packed16, Packed17, Packed18, Packed19, Packed20, Packed21, Packed22, Packed23, Packed24]"

definition packed_op :: "nat \<Rightarrow> bulk_packed \<Rightarrow> bulk_op" where
  "packed_op b = (if b \<le> 24 then packed_ops ! (b - 1) else Packed)"

lemma packed_op_cases:
  assumes "0 < b"
  obtains k where "packed_op b = k" "k \<in> set (Packed # packed_ops)"
proof (cases "b \<le> 24")
  case True
  with assms have "packed_ops ! (b - 1) \<in> set packed_ops" by (intro nth_mem) (simp add: packed_ops_def)
  with True that show ?thesis by (simp add: packed_op_def)
qed (use that in \<open>simp add: packed_op_def\<close>)

definition bp_of :: "nat \<Rightarrow> bulk_packed" where
  "bp_of b = projr (bulk_packed_new b)"

lemma bp_of: "0 < b \<Longrightarrow> b \<le> 64 \<Longrightarrow> bulk_packed_new b = Inr (bp_of b)" "0 < b \<Longrightarrow> b \<le> 64 \<Longrightarrow> bp_wf (bp_of b) b"
  unfolding bp_of_def by (metis bulk_packed_new_ok sum.sel(2))+

lemma PACKED_BULK_OPS_eq: "PACKED_BULK_OPS = Inr (map (\<lambda>b. packed_op b (bp_of b)) [1..<65])"
proof -
  have widths: "[1..<65] = [1, 2, 3, 4, 5, 6, 7, 8, 9, 10, 11, 12, 13, 14, 15, 16, 17, 18, 19, 20, 21, 22, 23, 24, 25, 26, 27, 28, 29, 30, 31, 32, 33, 34, 35, 36, 37, 38, 39, 40, 41, 42, 43, 44, 45, 46, 47, 48, 49, 50, 51, 52, 53, 54, 55, 56, 57, 58, 59, 60, 61, 62, 63, 64::nat]" by (simp add: upt_rec)
  show ?thesis unfolding PACKED_BULK_OPS_def widths by (simp add: rmap_def bp_of packed_op_def packed_ops_def)
qed

lemma bulk_packed_table:
  "bp_long_block_count (bp_of (Suc 0)) = Suc 0"
  "bp_long_value_count (bp_of (Suc 0)) = 64"
  "bp_byte_block_count (bp_of (Suc 0)) = Suc 0"
  "bp_byte_value_count (bp_of (Suc 0)) = 8"
  "bp_long_block_count (bp_of 2) = Suc 0"
  "bp_long_value_count (bp_of 2) = 32"
  "bp_byte_block_count (bp_of 2) = Suc 0"
  "bp_byte_value_count (bp_of 2) = 4"
  "bp_long_block_count (bp_of 3) = 3"
  "bp_long_value_count (bp_of 3) = 64"
  "bp_byte_block_count (bp_of 3) = 3"
  "bp_byte_value_count (bp_of 3) = 8"
  "bp_long_block_count (bp_of 4) = Suc 0"
  "bp_long_value_count (bp_of 4) = 16"
  "bp_byte_block_count (bp_of 4) = Suc 0"
  "bp_byte_value_count (bp_of 4) = 2"
  "bp_long_block_count (bp_of 5) = 5"
  "bp_long_value_count (bp_of 5) = 64"
  "bp_byte_block_count (bp_of 5) = 5"
  "bp_byte_value_count (bp_of 5) = 8"
  "bp_long_block_count (bp_of 6) = 3"
  "bp_long_value_count (bp_of 6) = 32"
  "bp_byte_block_count (bp_of 6) = 3"
  "bp_byte_value_count (bp_of 6) = 4"
  "bp_long_block_count (bp_of 7) = 7"
  "bp_long_value_count (bp_of 7) = 64"
  "bp_byte_block_count (bp_of 7) = 7"
  "bp_byte_value_count (bp_of 7) = 8"
  "bp_long_block_count (bp_of 8) = Suc 0"
  "bp_long_value_count (bp_of 8) = 8"
  "bp_byte_block_count (bp_of 8) = Suc 0"
  "bp_byte_value_count (bp_of 8) = Suc 0"
  "bp_long_block_count (bp_of 9) = 9"
  "bp_long_value_count (bp_of 9) = 64"
  "bp_byte_block_count (bp_of 9) = 9"
  "bp_byte_value_count (bp_of 9) = 8"
  "bp_long_block_count (bp_of 10) = 5"
  "bp_long_value_count (bp_of 10) = 32"
  "bp_byte_block_count (bp_of 10) = 5"
  "bp_byte_value_count (bp_of 10) = 4"
  "bp_long_block_count (bp_of 11) = 11"
  "bp_long_value_count (bp_of 11) = 64"
  "bp_byte_block_count (bp_of 11) = 11"
  "bp_byte_value_count (bp_of 11) = 8"
  "bp_long_block_count (bp_of 12) = 3"
  "bp_long_value_count (bp_of 12) = 16"
  "bp_byte_block_count (bp_of 12) = 3"
  "bp_byte_value_count (bp_of 12) = 2"
  "bp_long_block_count (bp_of 13) = 13"
  "bp_long_value_count (bp_of 13) = 64"
  "bp_byte_block_count (bp_of 13) = 13"
  "bp_byte_value_count (bp_of 13) = 8"
  "bp_long_block_count (bp_of 14) = 7"
  "bp_long_value_count (bp_of 14) = 32"
  "bp_byte_block_count (bp_of 14) = 7"
  "bp_byte_value_count (bp_of 14) = 4"
  "bp_long_block_count (bp_of 15) = 15"
  "bp_long_value_count (bp_of 15) = 64"
  "bp_byte_block_count (bp_of 15) = 15"
  "bp_byte_value_count (bp_of 15) = 8"
  "bp_long_block_count (bp_of 16) = Suc 0"
  "bp_long_value_count (bp_of 16) = 4"
  "bp_byte_block_count (bp_of 16) = 2"
  "bp_byte_value_count (bp_of 16) = Suc 0"
  "bp_long_block_count (bp_of 17) = 17"
  "bp_long_value_count (bp_of 17) = 64"
  "bp_byte_block_count (bp_of 17) = 17"
  "bp_byte_value_count (bp_of 17) = 8"
  "bp_long_block_count (bp_of 18) = 9"
  "bp_long_value_count (bp_of 18) = 32"
  "bp_byte_block_count (bp_of 18) = 9"
  "bp_byte_value_count (bp_of 18) = 4"
  "bp_long_block_count (bp_of 19) = 19"
  "bp_long_value_count (bp_of 19) = 64"
  "bp_byte_block_count (bp_of 19) = 19"
  "bp_byte_value_count (bp_of 19) = 8"
  "bp_long_block_count (bp_of 20) = 5"
  "bp_long_value_count (bp_of 20) = 16"
  "bp_byte_block_count (bp_of 20) = 5"
  "bp_byte_value_count (bp_of 20) = 2"
  "bp_long_block_count (bp_of 21) = 21"
  "bp_long_value_count (bp_of 21) = 64"
  "bp_byte_block_count (bp_of 21) = 21"
  "bp_byte_value_count (bp_of 21) = 8"
  "bp_long_block_count (bp_of 22) = 11"
  "bp_long_value_count (bp_of 22) = 32"
  "bp_byte_block_count (bp_of 22) = 11"
  "bp_byte_value_count (bp_of 22) = 4"
  "bp_long_block_count (bp_of 23) = 23"
  "bp_long_value_count (bp_of 23) = 64"
  "bp_byte_block_count (bp_of 23) = 23"
  "bp_byte_value_count (bp_of 23) = 8"
  "bp_long_block_count (bp_of 24) = 3"
  "bp_long_value_count (bp_of 24) = 8"
  "bp_byte_block_count (bp_of 24) = 3"
  "bp_byte_value_count (bp_of 24) = Suc 0"
  by (simp_all add: bp_of_def bulk_packed_new_def odd_part.simps halve_both.simps)

lemma packed_op_u64_to_i64:
  assumes b: "0 < b" "b \<le> 64" and room: "bo + n * bp_long_block_count (bp_of b) \<le> length blocks" "vo + n * bp_long_value_count (bp_of b) \<le> length vals"
  shows "op_decode_u64_to_i64 (packed_op b (bp_of b)) blocks bo vals vo n = Inr (patch vals vo (unpack 64 (\<lambda>i. blocks ! (bo + i)) b (n * bp_long_value_count (bp_of b))))"
proof (cases "b \<le> 24")
  case True
  with b(1) have "b = 1 \<or> b = 2 \<or> b = 3 \<or> b = 4 \<or> b = 5 \<or> b = 6 \<or> b = 7 \<or> b = 8 \<or> b = 9 \<or> b = 10 \<or> b = 11 \<or> b = 12 \<or> b = 13 \<or> b = 14 \<or> b = 15 \<or> b = 16 \<or> b = 17 \<or> b = 18 \<or> b = 19 \<or> b = 20 \<or> b = 21 \<or> b = 22 \<or> b = 23 \<or> b = 24" by presburger
  then show ?thesis
    using room by (elim disjE) (simp_all add: packed_op_def packed_ops_def bulk_packed_table bulk_decode)
next
  case False
  then show ?thesis
    using b room bp_decode_ok(1) [OF bp_of(2) [OF b(1,2)]] by (simp add: packed_op_def)
qed

lemma packed_op_u8_to_i64:
  assumes b: "0 < b" "b \<le> 64" and room: "bo + n * bp_byte_block_count (bp_of b) \<le> length blocks" "vo + n * bp_byte_value_count (bp_of b) \<le> length vals"
  shows "op_decode_u8_to_i64 (packed_op b (bp_of b)) blocks bo vals vo n = Inr (patch vals vo (unpack 8 (\<lambda>i. ucast (blocks ! (bo + i))) b (n * bp_byte_value_count (bp_of b))))"
proof (cases "b \<le> 24")
  case True
  with b(1) have "b = 1 \<or> b = 2 \<or> b = 3 \<or> b = 4 \<or> b = 5 \<or> b = 6 \<or> b = 7 \<or> b = 8 \<or> b = 9 \<or> b = 10 \<or> b = 11 \<or> b = 12 \<or> b = 13 \<or> b = 14 \<or> b = 15 \<or> b = 16 \<or> b = 17 \<or> b = 18 \<or> b = 19 \<or> b = 20 \<or> b = 21 \<or> b = 22 \<or> b = 23 \<or> b = 24" by presburger
  then show ?thesis
    using room by (elim disjE) (simp_all add: packed_op_def packed_ops_def bulk_packed_table bulk_decode)
next
  case False
  then show ?thesis
    using b room bp_decode_ok(3) [OF bp_of(2) [OF b(1,2)]] by (simp add: packed_op_def)
qed

lemma packed_op_u64_to_i32:
  assumes b: "0 < b" "b \<le> 64" "b \<le> 32" and room: "bo + n * bp_long_block_count (bp_of b) \<le> length blocks" "vo + n * bp_long_value_count (bp_of b) \<le> length vals"
  shows "op_decode_u64_to_i32 (packed_op b (bp_of b)) blocks bo vals vo n = Inr (patch vals vo (map ucast (unpack 64 (\<lambda>i. blocks ! (bo + i)) b (n * bp_long_value_count (bp_of b)))))"
proof (cases "b \<le> 24")
  case True
  with b(1) have "b = 1 \<or> b = 2 \<or> b = 3 \<or> b = 4 \<or> b = 5 \<or> b = 6 \<or> b = 7 \<or> b = 8 \<or> b = 9 \<or> b = 10 \<or> b = 11 \<or> b = 12 \<or> b = 13 \<or> b = 14 \<or> b = 15 \<or> b = 16 \<or> b = 17 \<or> b = 18 \<or> b = 19 \<or> b = 20 \<or> b = 21 \<or> b = 22 \<or> b = 23 \<or> b = 24" by presburger
  then show ?thesis
    using room by (elim disjE) (simp_all add: packed_op_def packed_ops_def bulk_packed_table bulk_decode)
next
  case False
  then show ?thesis
    using b room bp_decode_ok(2) [OF bp_of(2) [OF b(1,2)]] by (simp add: packed_op_def)
qed

lemma packed_op_u8_to_i32:
  assumes b: "0 < b" "b \<le> 64" "b \<le> 32" and room: "bo + n * bp_byte_block_count (bp_of b) \<le> length blocks" "vo + n * bp_byte_value_count (bp_of b) \<le> length vals"
  shows "op_decode_u8_to_i32 (packed_op b (bp_of b)) blocks bo vals vo n = Inr (patch vals vo (unpack 8 (\<lambda>i. ucast (blocks ! (bo + i))) b (n * bp_byte_value_count (bp_of b))))"
proof (cases "b \<le> 24")
  case True
  with b(1) have "b = 1 \<or> b = 2 \<or> b = 3 \<or> b = 4 \<or> b = 5 \<or> b = 6 \<or> b = 7 \<or> b = 8 \<or> b = 9 \<or> b = 10 \<or> b = 11 \<or> b = 12 \<or> b = 13 \<or> b = 14 \<or> b = 15 \<or> b = 16 \<or> b = 17 \<or> b = 18 \<or> b = 19 \<or> b = 20 \<or> b = 21 \<or> b = 22 \<or> b = 23 \<or> b = 24" by presburger
  then show ?thesis
    using room by (elim disjE) (simp_all add: packed_op_def packed_ops_def bulk_packed_table bulk_decode)
next
  case False
  then show ?thesis
    using b room bp_decode_ok(4) [OF bp_of(2) [OF b(1,2)]] by (simp add: packed_op_def)
qed

lemma packed_op_counts:
  assumes "0 < b"
  shows "dec_long_block_count (packed_op b bp) = bp_long_block_count bp" "dec_long_value_count (packed_op b bp) = bp_long_value_count bp"
    "dec_byte_block_count (packed_op b bp) = bp_byte_block_count bp" "dec_byte_value_count (packed_op b bp) = bp_byte_value_count bp"
    "enc_long_block_count (packed_op b bp) = bp_long_block_count bp" "enc_long_value_count (packed_op b bp) = bp_long_value_count bp"
    "enc_byte_block_count (packed_op b bp) = bp_byte_block_count bp" "enc_byte_value_count (packed_op b bp) = bp_byte_value_count bp"
    "op_encode_i64_to_u64 X (packed_op b bp) = bp_encode_i64_to_u64 X bp" "op_encode_i64_to_u8 (packed_op b bp) = bp_encode_i64_to_u8 bp"
    "op_encode_i32_to_u64 (packed_op b bp) = bp_encode_i32_to_u64 bp" "op_encode_i32_to_u8 (packed_op b bp) = bp_encode_i32_to_u8 bp"
  by (rule packed_op_cases [OF assms]; auto simp: packed_ops_def)+

definition op_ok :: "bulk_op \<Rightarrow> nat \<Rightarrow> bool" where
  "op_ok op b \<longleftrightarrow> 0 < b \<and> b \<le> 64 \<and> op = packed_op b (bp_of b)"

lemma op_ok_cases:
  assumes "op_ok op b"
  obtains "0 < b" "b \<le> 64" "op = packed_op b (bp_of b)" "bp_wf (bp_of b) b"
  using assms bp_of by (auto simp: op_ok_def)

interpretation op_codec: packed_codec op_ok dec_long_block_count dec_long_value_count dec_byte_block_count dec_byte_value_count
  op_decode_u64_to_i64 op_decode_u8_to_i64 op_decode_u64_to_i32 op_decode_u8_to_i32
  op_encode_i64_to_u64 op_encode_i64_to_u8 op_encode_i32_to_u64 op_encode_i32_to_u8
proof unfold_locales
  show "0 < b \<and> b \<le> 64 \<and> dec_long_value_count op * b = dec_long_block_count op * 64
      \<and> dec_byte_value_count op * b = dec_byte_block_count op * 8" if "op_ok op b" for op b
    using that by (rule op_ok_cases) (simp add: packed_op_counts bp_wf_def)
qed (erule op_ok_cases, simp add: packed_op_counts packed_op_u64_to_i64 packed_op_u8_to_i64 packed_op_u64_to_i32
  packed_op_u8_to_i32 bp_encode_i64_to_u64_ok bp_encode_i64_to_u8_ok bp_encode_i32_to_u64_ok bp_encode_i32_to_u8_ok)+

end
