(* ===== verification/Bulk_Ops.thy ===== *)
theory Bulk_Ops
  imports Bulk_Enum
begin

text \<open>
  The lookup of a bulk operation by format and width, and what holds of every operation it finds:
  the specialised decoders agree with the generic one, decoding inverts encoding in both formats
  and for all block and value types, the counts are minimal, and \<^verbatim>\<open>compute_iterations\<close> stays within
  its budget.
\<close>

unbundle bit_operations_syntax

section \<open>The lookup\<close>

lemma index_of_width:
  fixes b :: i32
  shows "unat (scast (b - 1) :: 64 word) =
    (if 1 \<le> sint b then nat (sint b) - 1 else if sint b = - (2 ^ 31) then 2 ^ 31 - 1 else nat (2 ^ 64 + sint b - 1))"
proof -
  have r: "- (2 ^ 31) \<le> sint b" "sint b < 2 ^ 31"
    using sint_greater_eq [of b] sint_less [of b] by simp_all
  have "sint (b - 1) = signed_take_bit 31 (sint b - 1)"
    using sint_word_diff [of b 1] by simp
  also have "\<dots> = (if sint b = - (2 ^ 31) then 2 ^ 31 - 1 else sint b - 1)"
    using r by (simp add: signed_take_bit_int_eq_self)
  finally have s: "sint (b - 1) = (if sint b = - (2 ^ 31) then 2 ^ 31 - 1 else sint b - 1)" .
  have "uint (scast (b - 1) :: 64 word) = sint (b - 1) mod 2 ^ 64"
    by transfer (simp add: take_bit_eq_mod)
  moreover have "x mod 2 ^ 64 = 2 ^ 64 + x" if "- (2 ^ 64) \<le> x" "x < 0" for x :: int
    using mod_pos_pos_trivial [of "x + 2 ^ 64" "2 ^ 64"] that by simp
  ultimately have "uint (scast (b - 1) :: 64 word) =
    (if 1 \<le> sint b then sint b - 1 else if sint b = - (2 ^ 31) then 2 ^ 31 - 1 else 2 ^ 64 + sint b - 1)"
    using r by (auto simp: s mod_pos_pos_trivial)
  then show ?thesis by (simp add: unat_eq_nat_uint nat_diff_distrib)
qed

definition single_widths :: "nat set" where
  "single_widths = {1, 2, 3, 4, 5, 6, 7, 8, 9, 10, 12, 16, 21, 32}"

definition sb_of :: "nat \<Rightarrow> single_block" where
  "sb_of b = projr (single_block_new b)"

lemma sb_of: "0 < b \<Longrightarrow> b < 64 \<Longrightarrow> single_block_new b = Inr (sb_of b)" "0 < b \<Longrightarrow> b < 64 \<Longrightarrow> sb_wf (sb_of b) b"
  unfolding sb_of_def using single_block_new_ok [of b] by auto

lemma PACKED_SINGLE_BLOCK_BULK_OPS_eq:
  "PACKED_SINGLE_BLOCK_BULK_OPS =
    Inr (map (\<lambda>b. if b \<in> single_widths then Some (SinglePacked (sb_of b)) else None) [1..<33])"
proof -
  have widths: "[1..<33] = [1, 2, 3, 4, 5, 6, 7, 8, 9, 10, 11, 12, 13, 14, 15, 16, 17, 18, 19, 20, 21, 22, 23, 24,
    25, 26, 27, 28, 29, 30, 31, 32 :: nat]" by (simp add: upt_rec)
  show ?thesis
    unfolding PACKED_SINGLE_BLOCK_BULK_OPS_def widths by (simp add: rmap_def sb_of single_widths_def)
qed

lemma op_of_packed:
  "op_of (Format_Packed i) b =
    (if 1 \<le> sint b \<and> sint b \<le> 64 then Inr (packed_op (nat (sint b)) (bp_of (nat (sint b)))) else Inl ArrayIndexOutOfBounds)"
  using sint_greater_eq [of b] sint_less [of b]
  by (auto simp: op_of_def Let_def index_of_width PACKED_BULK_OPS_eq simp del: upt_rec_numeral upt_Suc) 

lemma op_of_single:
  "op_of (Format_PackedSingleBlock i) b =
    (if 1 \<le> sint b \<and> sint b \<le> 32 then
       if nat (sint b) \<in> single_widths then Inr (SinglePacked (sb_of (nat (sint b)))) else Inl Panic
     else Inl ArrayIndexOutOfBounds)"
  using sint_greater_eq [of b] sint_less [of b]
  by (auto simp: op_of_def Let_def index_of_width PACKED_SINGLE_BLOCK_BULK_OPS_eq simp del: upt_rec_numeral upt_Suc)

lemma op_of_ok: "op_of (Format_Packed i) b = Inr op \<longleftrightarrow> 1 \<le> sint b \<and> op_ok op (nat (sint b))"
  by (auto simp: op_of_packed op_ok_def)


lemma fits_nth:
  "\<forall>v \<in> set (take n (drop vo vals)). fits b v \<Longrightarrow> vo + n \<le> length vals \<Longrightarrow> k < n \<Longrightarrow> fits b (vals ! (vo + k))"
  by (force simp: in_set_conv_nth)

section \<open>Properties\<close>

text \<open>
  C14. \<^verbatim>\<open>of\<close> finds an operation exactly for the supported widths: 1 to 64 bits in the packed format,
  the fourteen widths of the table in the single-block format. Any other width of the packed format,
  zero and negative ones included, is the error \<^verbatim>\<open>ArrayIndexOutOfBounds\<close>; a width up to 32 without a
  single-block operation fails the assertion.
\<close>

theorem op_of_supported:
  "(case op_of (Format_Packed i) b of Inr op \<Rightarrow> 1 \<le> sint b \<and> sint b \<le> 64 | Inl e \<Rightarrow>
      e = ArrayIndexOutOfBounds \<and> (sint b < 1 \<or> 64 < sint b))
   \<and> (case op_of (Format_PackedSingleBlock i) b of
        Inr op \<Rightarrow> sint b \<in> {1, 2, 3, 4, 5, 6, 7, 8, 9, 10, 12, 16, 21, 32}
          \<and> (\<exists>sb. op = SinglePacked sb \<and> single_block_new (nat (sint b)) = Inr sb)
      | Inl e \<Rightarrow> sint b \<notin> {1, 2, 3, 4, 5, 6, 7, 8, 9, 10, 12, 16, 21, 32}
          \<and> e = (if 1 \<le> sint b \<and> sint b \<le> 32 then Panic else ArrayIndexOutOfBounds))"
proof -
  have "nat (sint b) \<in> single_widths \<longleftrightarrow> sint b \<in> {1, 2, 3, 4, 5, 6, 7, 8, 9, 10, 12, 16, 21, 32}" if "1 \<le> sint b"
    using that by (auto simp: single_widths_def nat_eq_iff)
  then show ?thesis by (auto simp: op_of_packed op_of_single sb_of)
qed

text \<open>
  C15. For every width, the operation of the table decodes exactly as the generic one does: the
  straight-line decoders of the widths 1 to 24, with their fast path over whole chunks, are
  equivalent to the loop that carries the position in the block, for all four combinations of block
  and value type.
\<close>

theorem packed_ops_agree_with_generic:
  assumes "op_of (Format_Packed i) b = Inr op" "bulk_packed_new (nat (sint b)) = Inr bp"
  shows "(bo + n * bp_long_block_count bp \<le> length blocks \<longrightarrow> vo + n * bp_long_value_count bp \<le> length vals \<longrightarrow>
      op_decode_u64_to_i64 op blocks bo vals vo n = bp_decode_u64_to_i64 bp blocks bo vals vo n)
    \<and> (bo + n * bp_byte_block_count bp \<le> length bytes \<longrightarrow> vo + n * bp_byte_value_count bp \<le> length vals \<longrightarrow>
      op_decode_u8_to_i64 op bytes bo vals vo n = bp_decode_u8_to_i64 bp bytes bo vals vo n)
    \<and> (sint b \<le> 32 \<longrightarrow> bo + n * bp_long_block_count bp \<le> length blocks \<longrightarrow> vo + n * bp_long_value_count bp \<le> length ints \<longrightarrow>
      op_decode_u64_to_i32 op blocks bo ints vo n = bp_decode_u64_to_i32 bp blocks bo ints vo n)
    \<and> (sint b \<le> 32 \<longrightarrow> bo + n * bp_byte_block_count bp \<le> length bytes \<longrightarrow> vo + n * bp_byte_value_count bp \<le> length ints \<longrightarrow>
      op_decode_u8_to_i32 op bytes bo ints vo n = bp_decode_u8_to_i32 bp bytes bo ints vo n)"
proof -
  from assms(1) have b: "0 < nat (sint b)" "nat (sint b) \<le> 64" and op: "op = packed_op (nat (sint b)) (bp_of (nat (sint b)))"
    by (auto simp: op_of_packed split: if_splits)
  with assms(2) have "bp = bp_of (nat (sint b))" by (simp add: bp_of)
  with b op show ?thesis
    by (simp add: packed_op_u64_to_i64 packed_op_u8_to_i64 packed_op_u64_to_i32 packed_op_u8_to_i32 bp_decode_ok [OF bp_of(2)])
qed

theorem packed_ops_agree_with_generic_witness:
  "op_decode_u8_to_i64 (Packed3 (bp_of 3)) [0xFA, 0xC6, 0x88] 0 (replicate 9 0) 1 1 =
     bp_decode_u8_to_i64 (bp_of 3) [0xFA, 0xC6, 0x88] 0 (replicate 9 0) 1 1
   \<and> op_decode_u8_to_i64 (Packed3 (bp_of 3)) [0xFA, 0xC6, 0x88] 0 (replicate 9 0) 1 1 = Inr [0, 7, 6, 5, 4, 3, 2, 1, 0]"
proof
  have "op_of (Format_Packed 0) 3 = Inr (Packed3 (bp_of 3))"
    by (simp add: op_of_packed packed_op_def packed_ops_def)
  from packed_ops_agree_with_generic [OF this, of "bp_of 3" 0 1 "[]" 1 "replicate 9 0" "[0xFA, 0xC6, 0x88]" "[]"]
  show "op_decode_u8_to_i64 (Packed3 (bp_of 3)) [0xFA, 0xC6, 0x88] 0 (replicate 9 0) 1 1 =
     bp_decode_u8_to_i64 (bp_of 3) [0xFA, 0xC6, 0x88] 0 (replicate 9 0) 1 1"
    by (simp add: bp_of bulk_packed_table)
  show "op_decode_u8_to_i64 (Packed3 (bp_of 3)) [0xFA, 0xC6, 0x88] 0 (replicate 9 0) 1 1 = Inr [0, 7, 6, 5, 4, 3, 2, 1, 0]"
    by code_simp
qed

text \<open>
  C16. Round trip through 64-bit blocks: for every width of the packed format, \<^verbatim>\<open>decode_u64_to_i64\<close>
  reads back the values that \<^verbatim>\<open>encode_i64_to_u64\<close> wrote, its two-lane vector path for 16 and 32
  bits included, when they fit into the width and the buffers hold the iterations. The rest of the
  output is unchanged.
\<close>

theorem packed_long_roundtrip:
  assumes "op_of (Format_Packed i) b = Inr op" "u64x2_ok X"
    and "vo + n * dec_long_value_count op \<le> length vals" "bo + n * dec_long_block_count op \<le> length blocks"
    and "oo + n * dec_long_value_count op \<le> length out"
    and "\<forall>v \<in> set (take (n * dec_long_value_count op) (drop vo vals)). fits (nat (sint b)) v"
  shows "rbind (op_encode_i64_to_u64 X op vals vo blocks bo n) (\<lambda>blocks. op_decode_u64_to_i64 op blocks bo out oo n) =
    Inr (patch out oo (take (n * dec_long_value_count op) (drop vo vals)))"
  using assms by (intro op_codec.roundtrip_u64_i64) (auto simp: op_of_ok intro: fits_nth)

text \<open>
  C17. Round trip through bytes: \<^verbatim>\<open>decode_u8_to_i64\<close> reads back what \<^verbatim>\<open>encode_i64_to_u8\<close> wrote.
\<close>

theorem packed_byte_roundtrip:
  assumes "op_of (Format_Packed i) b = Inr op"
    and "vo + n * dec_byte_value_count op \<le> length vals" "bo + n * dec_byte_block_count op \<le> length bytes"
    and "oo + n * dec_byte_value_count op \<le> length out"
    and "\<forall>v \<in> set (take (n * dec_byte_value_count op) (drop vo vals)). fits (nat (sint b)) v"
  shows "rbind (op_encode_i64_to_u8 op vals vo bytes bo n) (\<lambda>bytes. op_decode_u8_to_i64 op bytes bo out oo n) =
    Inr (patch out oo (take (n * dec_byte_value_count op) (drop vo vals)))"
  using assms by (intro op_codec.roundtrip_u8_i64) (auto simp: op_of_ok intro: fits_nth)

text \<open>
  C18. Round trip of \<^verbatim>\<open>i32\<close> values, through 64-bit blocks and through bytes, for the widths up to 32.
\<close>

theorem packed_int_roundtrip:
  assumes "op_of (Format_Packed i) b = Inr op" "sint b \<le> 32"
    and "vo + n * dec_long_value_count op \<le> length ints" "bo + n * dec_long_block_count op \<le> length blocks"
    and "oo + n * dec_long_value_count op \<le> length out"
    and "vo + m * dec_byte_value_count op \<le> length ints" "bo + m * dec_byte_block_count op \<le> length bytes"
    and "oo + m * dec_byte_value_count op \<le> length out"
    and "\<forall>v \<in> set ints. fits (nat (sint b)) v"
  shows "rbind (op_encode_i32_to_u64 op ints vo blocks bo n) (\<lambda>blocks. op_decode_u64_to_i32 op blocks bo out oo n) =
      Inr (patch out oo (take (n * dec_long_value_count op) (drop vo ints)))
    \<and> rbind (op_encode_i32_to_u8 op ints vo bytes bo m) (\<lambda>bytes. op_decode_u8_to_i32 op bytes bo out oo m) =
      Inr (patch out oo (take (m * dec_byte_value_count op) (drop vo ints)))"
  using assms
  by (intro conjI op_codec.roundtrip_u64_i32 [where b = "nat (sint b)"] op_codec.roundtrip_u8_i32 [where b = "nat (sint b)"])
    (auto simp: op_of_ok)

text \<open>
  C19. Round trip of the single-block format: for every supported width, decoding reads back what
  encoding wrote, through 64-bit blocks and through their big-endian bytes.
\<close>

theorem single_block_roundtrip:
  assumes "op_of (Format_PackedSingleBlock i) b = Inr op"
    and "vo + n * dec_long_value_count op \<le> length vals" "bo + n \<le> length blocks"
    and "bo + n * 8 \<le> length bytes" "length bytes \<le> usize_MAX" "oo + n * dec_long_value_count op \<le> length out"
    and "\<forall>v \<in> set (take (n * dec_long_value_count op) (drop vo vals)). fits (nat (sint b)) v"
  shows "rbind (op_encode_i64_to_u64 X op vals vo blocks bo n) (\<lambda>blocks. op_decode_u64_to_i64 op blocks bo out oo n) =
      Inr (patch out oo (take (n * dec_long_value_count op) (drop vo vals)))
    \<and> rbind (op_encode_i64_to_u8 op vals vo bytes bo n) (\<lambda>bytes. op_decode_u8_to_i64 op bytes bo out oo n) =
      Inr (patch out oo (take (n * dec_long_value_count op) (drop vo vals)))"
proof -
  from assms(1) obtain sb where op: "op = SinglePacked sb" and wf: "sb_wf sb (nat (sint b))"
    by (auto simp: op_of_single sb_of split: if_splits)
  show ?thesis
    unfolding op using assms op
    by (auto simp: sb_encode_i64_to_u64_def sb_encode_i64_to_u8_def sb_decode_u64_to_i64_def sb_decode_u8_to_i64_def
      intro: fits_nth intro!: sb_long_roundtrip [OF wf, where low = "\<lambda>x. x" and cast = "\<lambda>x. x"]
        sb_byte_roundtrip [OF wf, where low = "\<lambda>x. x" and cast = "\<lambda>x. x"])
qed

section \<open>Instances for the witnesses\<close>

text \<open>Two-lane vectors as pairs.\<close>

definition pair_u64x2 :: "(64 word \<times> 64 word) u64x2" where
  "pair_u64x2 = \<lparr>x_cast = \<lambda>vs. map (\<lambda>i. (vs ! (2 * i), vs ! (2 * i + 1))) [0..<length vs div 2],
     x_transpose = \<lambda>(a, b) (c, d). ((a, c), (b, d)), x_shl = \<lambda>(a, b) n. (push_bit n a, push_bit n b),
     x_or = \<lambda>(a, b) (c, d). (a OR c, b OR d), x_to_array = \<lambda>x. x\<rparr>"

lemma pair_u64x2_ok: "u64x2_ok pair_u64x2"
  by (auto simp: u64x2_ok_def pair_u64x2_def)

lemma op_of_16: "op_of (Format_Packed 0) 16 = Inr (Packed16 (bp_of 16))"
  and op_of_3: "op_of (Format_Packed 0) 3 = Inr (Packed3 (bp_of 3))"
  and op_of_21: "op_of (Format_PackedSingleBlock 0) 21 = Inr (SinglePacked (sb_of 21))"
  by (simp_all add: op_of_packed op_of_single packed_op_def packed_ops_def single_widths_def)

section \<open>Witnesses\<close>

theorem packed_long_roundtrip_witness:
  "rbind (op_encode_i64_to_u64 pair_u64x2 (Packed16 (bp_of 16)) [1, 2, 3, 4, 5, 6, 7, 65535] 0 [0, 0] 0 2)
     (\<lambda>blocks. op_decode_u64_to_i64 (Packed16 (bp_of 16)) blocks 0 (replicate 9 0) 1 2) =
   Inr [0, 1, 2, 3, 4, 5, 6, 7, 65535]"
  using packed_long_roundtrip [OF op_of_16 pair_u64x2_ok, of 0 2 "[1, 2, 3, 4, 5, 6, 7, 65535]" 0 "[0, 0]" 1 "replicate 9 0"]
  by (simp add: bulk_packed_table patch_def fits_def)

theorem packed_byte_roundtrip_witness:
  "rbind (op_encode_i64_to_u8 (Packed3 (bp_of 3)) [7, 6, 5, 4, 3, 2, 1, 0] 0 [0, 0, 0] 0 1)
     (\<lambda>bytes. op_decode_u8_to_i64 (Packed3 (bp_of 3)) bytes 0 (replicate 9 0) 1 1) =
   Inr [0, 7, 6, 5, 4, 3, 2, 1, 0]"
  using packed_byte_roundtrip [OF op_of_3, of 0 1 "[7, 6, 5, 4, 3, 2, 1, 0]" 0 "[0, 0, 0]" 1 "replicate 9 0"]
  by (simp add: bulk_packed_table patch_def fits_def)

theorem packed_int_roundtrip_witness:
  "rbind (op_encode_i32_to_u8 (Packed3 (bp_of 3)) [7, 6, 5, 4, 3, 2, 1, 0] 0 [0, 0, 0] 0 1)
     (\<lambda>bytes. op_decode_u8_to_i32 (Packed3 (bp_of 3)) bytes 0 (replicate 9 0) 1 1) =
   Inr [0, 7, 6, 5, 4, 3, 2, 1, 0]"
  using packed_int_roundtrip [OF op_of_3, of 0 0 "[7, 6, 5, 4, 3, 2, 1, 0]" 0 "[]" 1 "replicate 9 0" 1 "[0, 0, 0]"]
  by (simp add: bulk_packed_table patch_def fits_def)

theorem single_block_roundtrip_witness:
  "rbind (op_encode_i64_to_u8 (SinglePacked (sb_of 21)) [7, 6, 5] 0 (replicate 8 0) 0 1)
     (\<lambda>bytes. op_decode_u8_to_i64 (SinglePacked (sb_of 21)) bytes 0 [1, 1, 1, 1] 1 1) = Inr [1, 7, 6, 5]"
  using single_block_roundtrip [OF op_of_21, of 0 1 "[7, 6, 5]" 0 "[0]" "replicate 8 0" 1 "[1, 1, 1, 1]"]
    sb_of(2) [of 21]
  by (simp add: sb_wf_def patch_def fits_def usize_MAX_def)

section \<open>The counts and the number of iterations\<close>

lemma odd_odd_part: "0 < n \<Longrightarrow> odd (odd_part n)"
proof (induction n rule: odd_part.induct)
  case (1 n)
  show ?case
  proof (cases "even n")
    case True
    with 1 have "odd (odd_part (n div 2))" by (auto elim: evenE)
    with True 1(2) show ?thesis by (simp add: odd_part.simps [of n])
  qed (simp add: odd_part.simps [of n])
qed

lemma halve_both_odd: "0 < m \<Longrightarrow> halve_both m n = (m', n') \<Longrightarrow> odd m' \<or> odd n'"
proof (induction m n rule: halve_both.induct)
  case (1 m n)
  show ?case
  proof (cases "even m \<and> even n")
    case True
    with 1(2,3) have "halve_both (m div 2) (n div 2) = (m', n')" by (simp add: halve_both.simps [of m])
    with 1(1,2) True show ?thesis by (auto elim!: evenE)
  next
    case False
    with 1(3) show ?thesis by (auto simp: halve_both.simps [of m] split: if_splits)
  qed
qed

lemma power2_cofactor:
  assumes "V * 2 ^ k = (2 :: nat) ^ m"
  shows "V = 2 ^ (m - k)"
proof -
  have "0 < V" using assms by (cases V) auto
  then have "2 ^ k \<le> V * 2 ^ k" by simp
  then have "k \<le> m" unfolding assms by (subst (asm) power_increasing_iff) simp_all
  then have "V * 2 ^ k = 2 ^ (m - k) * 2 ^ k" using assms by (simp flip: power_add)
  then show ?thesis by simp
qed

text \<open>The values per iteration are a power of two, so they share no factor with an odd number of blocks.\<close>

lemma bulk_packed_coprime:
  assumes b: "0 < b" "b \<le> 64" and BV: "halve_both (8 * odd_part b) (64 * odd_part b div b) = (B', V')"
  shows "coprime (64 * odd_part b div b) (odd_part b)" "coprime V' B'"
proof -
  obtain k where k: "odd_part b * 2 ^ k = b" using odd_part_power by blast
  have "0 < odd_part b" using bulk_packed_counts [OF b BV] by blast
  let ?V = "64 * odd_part b div b"
  have "?V * 2 ^ k * odd_part b = ?V * (odd_part b * 2 ^ k)" by (simp only: ac_simps)
  also have "\<dots> = 64 * odd_part b" unfolding k by (rule bulk_packed_counts(1) [OF b BV])
  finally have "?V * 2 ^ k = 2 ^ 6" using \<open>0 < odd_part b\<close> by simp
  then have V: "?V = 2 ^ (6 - k)" by (rule power2_cofactor)
  show "coprime (64 * odd_part b div b) (odd_part b)"
    unfolding V using odd_odd_part [OF b(1)] by simp
  obtain j where "V' * 2 ^ j = 2 ^ (6 - k)" using halve_both_power [OF BV] V by auto
  then have l: "V' = 2 ^ (6 - k - j)" by (rule power2_cofactor)
  consider "odd B'" | "odd V'" using halve_both_odd [OF _ BV] \<open>0 < odd_part b\<close> by auto
  then show "coprime V' B'" by cases (auto simp: l)
qed

lemma bp_of_coprime:
  assumes "0 < b" "b \<le> 64"
  shows "coprime (bp_long_value_count (bp_of b)) (bp_long_block_count (bp_of b))"
    "coprime (bp_byte_value_count (bp_of b)) (bp_byte_block_count (bp_of b))"
proof -
  obtain B' V' where BV: "halve_both (8 * odd_part b) (64 * odd_part b div b) = (B', V')" by fastforce
  show "coprime (bp_long_value_count (bp_of b)) (bp_long_block_count (bp_of b))"
    "coprime (bp_byte_value_count (bp_of b)) (bp_byte_block_count (bp_of b))"
    unfolding bp_of_def using assms bulk_packed_counts [OF assms BV] bulk_packed_coprime [OF assms BV] BV
    by (simp_all add: bulk_packed_new_def Let_def)
qed

text \<open>
  C20. \<^verbatim>\<open>BulkOperationPacked::new\<close> builds an operation for the widths 1 to 64 and panics for any other.
  The counts are those of the smallest iteration: its values fill its blocks exactly, and every run
  of values that ends at a boundary of 64-bit blocks (of bytes) is a multiple of it.
\<close>

theorem bulk_packed_new_minimal:
  "case bulk_packed_new b of
     Inl e \<Rightarrow> e = Panic \<and> (b = 0 \<or> 64 < b)
   | Inr bp \<Rightarrow> 0 < b \<and> b \<le> 64
       \<and> (\<forall>n. (\<exists>m. n * b = m * 64) \<longleftrightarrow> bp_long_value_count bp dvd n)
       \<and> (\<forall>n. (\<exists>m. n * b = m * 8) \<longleftrightarrow> bp_byte_value_count bp dvd n)
       \<and> bp_long_value_count bp * b = bp_long_block_count bp * 64
       \<and> bp_byte_value_count bp * b = bp_byte_block_count bp * 8"
proof (cases "0 < b \<and> b \<le> 64")
  case True
  then have b: "0 < b" "b \<le> 64" by simp_all
  have *: "(\<exists>m. n * b = m * w) \<longleftrightarrow> V dvd n" if "V * b = B * w" "coprime V B" "0 < w" for n V B w
  proof
    assume "\<exists>m. n * b = m * w"
    then obtain m where "n * b = m * w" by blast
    then have "n * B * w = V * m * w" using that(1) by (metis mult.assoc mult.commute)
    then have "n * B = V * m" using \<open>0 < w\<close> by simp
    then have "V dvd n * B" by simp
    then show "V dvd n" using that(2) coprime_dvd_mult_left_iff by blast
  next
    assume "V dvd n"
    then obtain q where "n = V * q" ..
    then have "n * b = (q * B) * w" using that(1) by (metis mult.assoc mult.commute)
    then show "\<exists>m. n * b = m * w" ..
  qed
  show ?thesis
    using bp_of [OF b] bp_of_coprime [OF b] by (simp add: bp_wf_def *)
qed (auto simp: bulk_packed_new_def)

lemma op_byte_counts:
  assumes "op_of format b = Inr op"
  shows "0 < dec_byte_value_count op" "dec_byte_value_count op \<le> 64" "dec_byte_block_count op \<le> 64"
proof -
  have packed: "0 < bp_byte_value_count (bp_of w) \<and> bp_byte_value_count (bp_of w) \<le> 8 \<and> bp_byte_block_count (bp_of w) \<le> 64"
    if w: "0 < w" "w \<le> 64" for w
  proof -
    have wf: "bp_byte_value_count (bp_of w) * w = bp_byte_block_count (bp_of w) * 8" "0 < bp_byte_block_count (bp_of w)"
      using bp_of(2) [OF w] by (simp_all add: bp_wf_def)
    then have "bp_byte_value_count (bp_of w) dvd bp_byte_block_count (bp_of w) * 8" by (metis dvd_triv_left)
    then have "bp_byte_value_count (bp_of w) dvd 8"
      using bp_of_coprime(2) [OF w] by (simp add: coprime_dvd_mult_right_iff)
    then have "bp_byte_value_count (bp_of w) \<le> 8" by (rule dvd_imp_le) simp
    moreover from this have "bp_byte_value_count (bp_of w) * w \<le> 8 * 64" using w(2) by (rule mult_le_mono)
    moreover have "bp_byte_value_count (bp_of w) \<noteq> 0"
    proof
      assume "bp_byte_value_count (bp_of w) = 0"
      with wf show False by simp
    qed
    ultimately show ?thesis using wf(1) by simp
  qed
  have single: "0 < sb_value_count (sb_of w) \<and> sb_value_count (sb_of w) \<le> 64" if "w \<in> single_widths" for w
    using that by (auto simp: single_widths_def sb_of_def single_block_new_def shl_def)
  have "0 < dec_byte_value_count op \<and> dec_byte_value_count op \<le> 64 \<and> dec_byte_block_count op \<le> 64"
  proof (cases format)
    case Format_Packed
    with assms have w: "0 < nat (sint b)" "nat (sint b) \<le> 64" and "op = packed_op (nat (sint b)) (bp_of (nat (sint b)))"
      by (simp_all add: op_of_packed split: if_splits)
    with packed [OF w] show ?thesis by (simp add: packed_op_counts)
  next
    case Format_PackedSingleBlock
    with assms have w: "nat (sint b) \<in> single_widths" and "op = SinglePacked (sb_of (nat (sint b)))"
      by (simp_all add: op_of_single split: if_splits)
    with single [OF w] show ?thesis by simp
  qed
  then show "0 < dec_byte_value_count op" "dec_byte_value_count op \<le> 64" "dec_byte_block_count op \<le> 64" by simp_all
qed

lemma ceiling_quotient:
  assumes "0 < V" "0 \<le> n"
  shows "0 \<le> \<lceil>of_int n / of_int V :: rat\<rceil>" "0 < n \<longrightarrow> 1 \<le> \<lceil>of_int n / of_int V :: rat\<rceil>"
    "(\<lceil>of_int n / of_int V :: rat\<rceil> - 1) * V < n" "n \<le> k * V \<Longrightarrow> \<lceil>of_int n / of_int V :: rat\<rceil> \<le> k"
proof -
  define c where "c = \<lceil>of_int n / of_int V :: rat\<rceil>"
  have "0 \<le> (of_int n / of_int V :: rat)" using assms by simp
  then show "0 \<le> \<lceil>of_int n / of_int V :: rat\<rceil>" by linarith
  show "0 < n \<longrightarrow> 1 \<le> \<lceil>of_int n / of_int V :: rat\<rceil>" using assms by (simp add: one_le_ceiling)
  have "(of_int (c - 1) :: rat) < of_int n / of_int V" unfolding c_def by linarith
  then have "(of_int ((c - 1) * V) :: rat) < of_int n" using assms(1) by (simp add: pos_less_divide_eq)
  then show "(\<lceil>of_int n / of_int V :: rat\<rceil> - 1) * V < n" by (simp only: of_int_less_iff c_def)
  assume "n \<le> k * V"
  then have "of_int n \<le> (of_int (k * V) :: rat)" by (simp only: of_int_le_iff)
  then have "of_int n / of_int V \<le> (of_int k :: rat)" using assms(1) by (simp add: pos_divide_le_eq)
  then show "\<lceil>of_int n / of_int V :: rat\<rceil> \<le> k" by (simp only: ceiling_le_iff)
qed

text \<open>
  C21. \<^verbatim>\<open>compute_iterations\<close> neither overflows nor divides by zero, for every operation of the tables and
  every non-negative number of values and budget. Its result is at least one when there are
  values, respects the budget of \<open>iterations * (b + 8v)\<close> bytes unless it is one, and never needs more
  than one iteration past the last value.
\<close>

theorem compute_iterations_bounds:
  assumes "op_of format b = Inr op" "0 \<le> value_count" "value_count < 2 ^ 31" "0 \<le> ram_budget" "ram_budget < 2 ^ 31"
  shows "\<exists>it. compute_iterations op value_count ram_budget = Inr it \<and> 0 \<le> it \<and> (0 < value_count \<longrightarrow> 1 \<le> it)
    \<and> (it \<le> 1 \<or> it * (int (dec_byte_block_count op) + 8 * int (dec_byte_value_count op)) \<le> ram_budget)
    \<and> (it \<le> 1 \<or> (it - 1) * int (dec_byte_value_count op) < value_count)"
proof -
  define V B where "V = int (dec_byte_value_count op)" and "B = int (dec_byte_block_count op)"
  have c: "0 < V" "V \<le> 64" "0 \<le> B" "B \<le> 64" using op_byte_counts [OF assms(1)] by (simp_all add: V_def B_def)
  have as: "as_i32 (dec_byte_value_count op) = V" "as_i32 (dec_byte_block_count op) = B"
    using op_byte_counts [OF assms(1)] by (simp_all add: V_def B_def NO_MORE_DOCS_def)
  define y where "y = B + 8 * V"
  have y: "0 < y" "y < 1000" "V \<le> y" using c by (simp_all add: y_def)
  define it where "it = ram_budget div y"
  have sd: "ram_budget sdiv y = it" using assms(4) y(1) by (cases "ram_budget = 0") (simp_all add: signed_divide_int_def it_def)
  have "0 \<le> it" using assms(4) y(1) by (simp add: it_def pos_imp_zdiv_nonneg_iff)
  moreover have "it * y \<le> ram_budget"
    unfolding it_def using y(1) minus_mod_eq_div_mult [of ram_budget y] pos_mod_sign [of y ram_budget] by linarith
  ultimately have it: "0 \<le> it" "it * y \<le> ram_budget" by simp_all
  have "it * 1 \<le> it * y" "(it - 1) * V \<le> it * y" if "it \<noteq> 0"
    using it y c that by (intro mult_mono; simp)+
  with it assms(5) have small: "it < 2 ^ 31" "it \<noteq> 0 \<longrightarrow> (it - 1) * V < 2 ^ 31"
    by fastforce+
  have neg: "- (2 ^ 31) \<le> (it - 1) * V" if "it \<noteq> 0"
  proof -
    have "0 \<le> (it - 1) * V" by (rule mult_nonneg_nonneg) (use it(1) c(1) that in simp_all)
    then show ?thesis by (rule order_trans [rotated]) simp
  qed
  define ce where "ce = \<lceil>of_int value_count / of_int V :: rat\<rceil>"
  have ce: "compute_iterations op value_count ram_budget =
      Inr (if it = 0 then 1 else if value_count \<le> (it - 1) * V then ce else it)"
    using c y it small neg unfolding compute_iterations_def as Let_def
    by (simp add: i32_checked_def sd flip: y_def ce_def)
  show ?thesis
  proof (cases "it \<noteq> 0 \<and> value_count \<le> (it - 1) * V")
    case True
    note q = ceiling_quotient [OF c(1) assms(2), folded ce_def]
    have "ce * y \<le> it * y" using q(4) [of "it - 1"] True y(1) by (intro mult_right_mono) simp_all
    then show ?thesis using True ce q it(2) by (auto simp flip: V_def B_def y_def)
  next
    case False
    then show ?thesis using ce it assms(2) by (auto simp flip: V_def B_def y_def)
  qed
qed

theorem compute_iterations_bounds_witness:
  "\<exists>it. compute_iterations (Packed3 (bp_of 3)) 20 1000 = Inr it \<and> 1 \<le> it \<and> it * 67 \<le> 1000 \<and> (it - 1) * 8 < 20"
proof -
  from compute_iterations_bounds [OF op_of_3, of 20 1000]
  obtain it where "compute_iterations (Packed3 (bp_of 3)) 20 1000 = Inr it" "1 \<le> it" "it \<le> 1 \<or> it * 67 \<le> 1000"
    "it \<le> 1 \<or> (it - 1) * 8 < 20"
    by (auto simp: bulk_packed_table)
  then show ?thesis by auto
qed

end
