(* ===== verification/Bit_Util.thy ===== *)
theory Bit_Util
  imports Word_Bits
begin

text \<open>
  The integer helpers of \<^verbatim>\<open>util/bit_util.rs\<close>: reading and writing of integers in
  little-endian and big-endian byte order, zig-zag encoding, the next power of two,
  interleaving and swapping of odd and even bits.
\<close>

unbundle bit_operations_syntax

section \<open>Byte order\<close>

text \<open>
  The bytes of a word from the least significant on (\<^verbatim>\<open>to_le_bytes\<close>), and the word of
  such bytes (\<^verbatim>\<open>from_le_bytes\<close>).
\<close>

fun to_le :: "nat \<Rightarrow> 'a::len word \<Rightarrow> u8 list" where
  "to_le 0 v = []"
| "to_le (Suc n) v = ucast v # to_le n (drop_bit 8 v)"

fun from_le :: "u8 list \<Rightarrow> 'a::len word" where
  "from_le [] = 0"
| "from_le (b # bs) = ucast b OR push_bit 8 (from_le bs)"

text \<open>\<^verbatim>\<open>bytes[pos..][..n]\<close>.\<close>

definition bytes_at :: "u8 list \<Rightarrow> nat \<Rightarrow> nat \<Rightarrow> u8 list res" where
  "bytes_at bytes pos n = slice bytes pos n"

definition get_i16_be :: "u8 list \<Rightarrow> nat \<Rightarrow> i16 res" where
  "get_i16_be bytes pos =
     dassert (pos + 2 \<le> length bytes) (rbind (bytes_at bytes pos 2) (\<lambda>bs. Inr (from_le (rev bs))))"

definition set_i16_be_with_len :: "u8 list \<Rightarrow> nat \<Rightarrow> i16 \<Rightarrow> nat \<Rightarrow> u8 list res" where
  "set_i16_be_with_len bytes pos value len =
     dassert (pos + len \<le> length bytes) (dassert (len \<le> 2) (
       splice bytes pos (take len (rev (to_le 2 value)))))"

definition set_i16_be :: "u8 list \<Rightarrow> nat \<Rightarrow> i16 \<Rightarrow> u8 list res" where
  "set_i16_be bytes pos value = set_i16_be_with_len bytes pos value 2"

definition get_i16_le :: "u8 list \<Rightarrow> nat \<Rightarrow> i16 res" where
  "get_i16_le bytes pos = rbind (bytes_at bytes pos 2) (\<lambda>bs. Inr (from_le bs))"

definition set_i16_le_with_len :: "u8 list \<Rightarrow> nat \<Rightarrow> i16 \<Rightarrow> nat \<Rightarrow> u8 list res" where
  "set_i16_le_with_len bytes pos value len =
     dassert (pos + len \<le> length bytes) (dassert (len \<le> 2) (
       splice bytes pos (take len (to_le 2 value))))"

definition set_i16_le :: "u8 list \<Rightarrow> nat \<Rightarrow> i16 \<Rightarrow> u8 list res" where
  "set_i16_le bytes pos value = set_i16_le_with_len bytes pos value 2"

definition get_i32_be :: "u8 list \<Rightarrow> nat \<Rightarrow> i32 res" where
  "get_i32_be bytes pos =
     dassert (4 \<le> length bytes \<and> pos \<le> length bytes - 4) (
       rbind (bytes_at bytes pos 4) (\<lambda>bs. Inr (from_le (rev bs))))"

definition set_i32_be_with_len :: "u8 list \<Rightarrow> nat \<Rightarrow> i32 \<Rightarrow> nat \<Rightarrow> u8 list res" where
  "set_i32_be_with_len bytes pos value len =
     dassert (pos + len \<le> length bytes) (dassert (len \<le> 4) (
       splice bytes pos (take len (rev (to_le 4 value)))))"

definition set_i32_be :: "u8 list \<Rightarrow> nat \<Rightarrow> i32 \<Rightarrow> u8 list res" where
  "set_i32_be bytes pos value = set_i32_be_with_len bytes pos value 4"

definition get_i32_le :: "u8 list \<Rightarrow> nat \<Rightarrow> i32 res" where
  "get_i32_le bytes pos =
     dassert (4 \<le> length bytes \<and> pos \<le> length bytes - 4) (
       rbind (bytes_at bytes pos 4) (\<lambda>bs. Inr (from_le bs)))"

definition set_i32_le_with_len :: "u8 list \<Rightarrow> nat \<Rightarrow> i32 \<Rightarrow> nat \<Rightarrow> u8 list res" where
  "set_i32_le_with_len bytes pos value len =
     dassert (pos + len \<le> length bytes) (dassert (len \<le> 4) (
       splice bytes pos (take len (to_le 4 value))))"

definition set_i32_le :: "u8 list \<Rightarrow> nat \<Rightarrow> i32 \<Rightarrow> u8 list res" where
  "set_i32_le bytes pos value = set_i32_le_with_len bytes pos value 4"

definition get_i64_be :: "u8 list \<Rightarrow> nat \<Rightarrow> i64 res" where
  "get_i64_be bytes pos =
     dassert (pos + 8 \<le> length bytes) (rbind (bytes_at bytes pos 8) (\<lambda>bs. Inr (from_le (rev bs))))"

definition set_i64_be_with_len :: "u8 list \<Rightarrow> nat \<Rightarrow> i64 \<Rightarrow> nat \<Rightarrow> u8 list res" where
  "set_i64_be_with_len bytes pos value len =
     dassert (pos + len \<le> length bytes) (dassert (len \<le> 8) (
       splice bytes pos (take len (rev (to_le 8 value)))))"

definition set_i64_be :: "u8 list \<Rightarrow> nat \<Rightarrow> i64 \<Rightarrow> u8 list res" where
  "set_i64_be bytes pos value = set_i64_be_with_len bytes pos value 8"

definition get_i64_le :: "u8 list \<Rightarrow> nat \<Rightarrow> i64 res" where
  "get_i64_le bytes pos = rbind (bytes_at bytes pos 8) (\<lambda>bs. Inr (from_le bs))"

definition set_i64_le_with_len :: "u8 list \<Rightarrow> nat \<Rightarrow> i64 \<Rightarrow> nat \<Rightarrow> u8 list res" where
  "set_i64_le_with_len bytes pos value len =
     dassert (pos + len \<le> length bytes) (dassert (len \<le> 8) (
       splice bytes pos (take len (to_le 8 value))))"

definition set_i64_le :: "u8 list \<Rightarrow> nat \<Rightarrow> i64 \<Rightarrow> u8 list res" where
  "set_i64_le bytes pos value = set_i64_le_with_len bytes pos value 8"

section \<open>Bit tricks\<close>

text \<open>
  \<open>v -= 1\<close> and \<open>v + 1\<close> panic when they leave the range of the signed type.
\<close>

definition dec_signed :: "'a::len word \<Rightarrow> 'a word res" where
  "dec_signed v = (if sint v = - (2 ^ (LENGTH('a) - 1)) then Inl Panic else Inr (v - 1))"

definition inc_signed :: "'a::len word \<Rightarrow> 'a word res" where
  "inc_signed v = (if sint v = 2 ^ (LENGTH('a) - 1) - 1 then Inl Panic else Inr (v + 1))"

definition next_highest_power_of_two_with_i32 :: "i32 \<Rightarrow> i32 res" where
  "next_highest_power_of_two_with_i32 v =
     rbind (dec_signed v) (\<lambda>v.
       let v = v OR signed_drop_bit 1 v;
           v = v OR signed_drop_bit 2 v;
           v = v OR signed_drop_bit 4 v;
           v = v OR signed_drop_bit 8 v;
           v = v OR signed_drop_bit 16 v
       in inc_signed v)"

definition next_highest_power_of_two_with_i64 :: "i64 \<Rightarrow> i64 res" where
  "next_highest_power_of_two_with_i64 v =
     rbind (dec_signed v) (\<lambda>v.
       let v = v OR signed_drop_bit 1 v;
           v = v OR signed_drop_bit 2 v;
           v = v OR signed_drop_bit 4 v;
           v = v OR signed_drop_bit 8 v;
           v = v OR signed_drop_bit 16 v;
           v = v OR signed_drop_bit 32 v
       in inc_signed v)"

definition MAGIC0 :: i64 where "MAGIC0 = 0x5555555555555555"
definition MAGIC1 :: i64 where "MAGIC1 = 0x3333333333333333"
definition MAGIC2 :: i64 where "MAGIC2 = 0x0F0F0F0F0F0F0F0F"
definition MAGIC3 :: i64 where "MAGIC3 = 0x00FF00FF00FF00FF"
definition MAGIC4 :: i64 where "MAGIC4 = 0x0000FFFF0000FFFF"
definition MAGIC5 :: i64 where "MAGIC5 = 0x00000000FFFFFFFF"
definition MAGIC6 :: i64 where "MAGIC6 = 0xAAAAAAAAAAAAAAAA"

definition spread_bits :: "i64 \<Rightarrow> i64" where
  "spread_bits v =
     (let v = (v OR push_bit 16 v) AND MAGIC4;
          v = (v OR push_bit 8 v) AND MAGIC3;
          v = (v OR push_bit 4 v) AND MAGIC2;
          v = (v OR push_bit 2 v) AND MAGIC1
      in (v OR push_bit 1 v) AND MAGIC0)"

definition interleave :: "i32 \<Rightarrow> i32 \<Rightarrow> i64" where
  "interleave ev od =
     (let v1 = MAGIC5 AND ucast ev; v2 = MAGIC5 AND ucast od
      in push_bit 1 (spread_bits v2) OR spread_bits v1)"

definition flip_flop :: "i64 \<Rightarrow> i64" where
  "flip_flop b = drop_bit 1 (b AND MAGIC6) OR push_bit 1 (b AND MAGIC0)"

definition zig_zag_decode_i32 :: "i32 \<Rightarrow> i32" where
  "zig_zag_decode_i32 i = drop_bit 1 i XOR - (i AND 1)"

definition zig_zag_encode_i32 :: "i32 \<Rightarrow> i32" where
  "zig_zag_encode_i32 i = signed_drop_bit 31 i XOR push_bit 1 i"

definition zig_zag_decode_i64 :: "i64 \<Rightarrow> i64" where
  "zig_zag_decode_i64 l = drop_bit 1 l XOR - (l AND 1)"

definition zig_zag_encode_i64 :: "i64 \<Rightarrow> i64" where
  "zig_zag_encode_i64 l = signed_drop_bit 63 l XOR push_bit 1 l"

definition is_zero_or_power_of_two :: "i32 \<Rightarrow> bool" where
  "is_zero_or_power_of_two x \<longleftrightarrow> x AND (x - 1) = 0"

section \<open>Lemmas\<close>

lemma length_to_le [simp]: "length (to_le n v) = n"
  by (induction n arbitrary: v) simp_all

lemma bit_from_le:
  "bit (from_le bs :: 'a::len word) i \<longleftrightarrow> i < LENGTH('a) \<and> i div 8 < length bs \<and> bit (bs ! (i div 8)) (i mod 8)"
proof (induction bs arbitrary: i)
  case (Cons b bs)
  show ?case
  proof (cases "i < 8")
    case True
    then show ?thesis by (simp add: bit_or_iff bit_push_bit_iff bit_ucast_iff)
  next
    case False
    then obtain j where j: "i = j + 8" by (metis add.commute le_Suc_ex not_less)
    have "\<not> bit b i" using False bit_lt_length [of b i] by auto
    moreover have "(j + 8) div 8 = Suc (j div 8)" by simp
    ultimately show ?thesis using j Cons [of j] by (auto simp: bit_or_iff bit_push_bit_iff bit_ucast_iff)
  qed
qed simp

lemma bit_to_le: "k < n \<Longrightarrow> b < 8 \<Longrightarrow> bit (to_le n v ! k) b \<longleftrightarrow> bit v (8 * k + b)"
proof (induction n arbitrary: v k)
  case (Suc n)
  show ?case
  proof (cases k)
    case 0
    with Suc.prems show ?thesis by (simp add: bit_ucast_iff)
  next
    case (Suc m)
    with Suc.IH [of m "drop_bit 8 v"] Suc.prems show ?thesis by (simp add: bit_drop_bit_eq add.assoc)
  qed
qed simp

lemma from_to_le: "LENGTH('a) \<le> 8 * n \<Longrightarrow> from_le (to_le n v) = (v :: 'a::len word)"
proof (rule bit_word_eqI)
  fix i assume n: "LENGTH('a) \<le> 8 * n" and i: "i < LENGTH('a)"
  then have "i div 8 < n" by (simp add: div_less_iff_less_mult mult.commute)
  then show "bit (from_le (to_le n v) :: 'a word) i \<longleftrightarrow> bit v i"
    using i by (simp add: bit_from_le bit_to_le)
qed

lemma to_from_le:
  assumes "8 * length bs \<le> LENGTH('a)"
  shows "to_le (length bs) (from_le bs :: 'a::len word) = bs"
proof (rule nth_equalityI)
  fix k assume "k < length (to_le (length bs) (from_le bs :: 'a word))"
  then have k: "k < length bs" by simp
  show "to_le (length bs) (from_le bs :: 'a word) ! k = bs ! k"
  proof (rule bit_word_eqI)
    fix b assume "b < LENGTH(8)"
    then have b: "b < 8" by simp
    then have "8 * k + b < LENGTH('a)" "(8 * k + b) div 8 = k" "(8 * k + b) mod 8 = b" using k assms by auto
    then show "bit (to_le (length bs) (from_le bs :: 'a word) ! k) b = bit (bs ! k) b"
      using bit_to_le [OF k b, of "from_le bs :: 'a word"] k by (simp add: bit_from_le)
  qed
qed simp

text \<open>A value written at a position is read back there.\<close>

lemma slice_splice:
  assumes "pos + length ys \<le> length xs" "splice xs pos ys = Inr zs"
  shows "slice zs pos (length ys) = Inr ys \<and> length zs = length xs"
  using assms by (auto simp: splice_def slice_def)

lemma splice_outside:
  assumes "splice xs pos ys = Inr zs" "i < pos \<or> pos + length ys \<le> i"
  shows "zs ! i = xs ! i"
  using assms by (auto simp: splice_def nth_append split: if_splits)

lemma bit_signed_drop_all:
  fixes v :: "'a::len word"
  assumes "n < LENGTH('a)"
  shows "bit (signed_drop_bit (LENGTH('a) - 1) v) n \<longleftrightarrow> bit v (LENGTH('a) - 1)"
  using assms by (cases n) (simp_all add: bit_signed_drop_bit_iff)

lemma zig_zag_bits:
  fixes v :: "'a::len word"
  assumes "n < LENGTH('a)"
  shows "bit (signed_drop_bit (LENGTH('a) - 1) v XOR push_bit 1 v) n
    \<longleftrightarrow> bit v (LENGTH('a) - 1) \<noteq> (0 < n \<and> bit v (n - 1))"
proof -
  have "bit (push_bit 1 v) n \<longleftrightarrow> 0 < n \<and> bit v (n - 1)"
    unfolding bit_push_bit_iff using assms by auto
  then show ?thesis unfolding bit_xor_iff bit_signed_drop_all [OF assms] by blast
qed

lemma unzig_bits:
  fixes u :: "'a::len word"
  assumes "n < LENGTH('a)"
  shows "bit (drop_bit 1 u XOR - (u AND 1)) n \<longleftrightarrow> bit u 0 \<noteq> bit u (n + 1)"
proof -
  have "u AND 1 = (if bit u 0 then 1 else 0)" by (simp add: and_one_eq bit_0 odd_iff_mod_2_eq_one)
  then have "bit (- (u AND 1)) n \<longleftrightarrow> bit u 0" using assms by (simp add: bit_minus_1_iff)
  then show ?thesis by (auto simp: bit_xor_iff bit_drop_bit_eq add.commute)
qed

lemma zig_zag_decode_encode:
  fixes v :: "'a::len word"
  shows "drop_bit 1 (signed_drop_bit (LENGTH('a) - 1) v XOR push_bit 1 v) XOR
    - ((signed_drop_bit (LENGTH('a) - 1) v XOR push_bit 1 v) AND 1) = v"
proof (rule bit_word_eqI)
  fix n assume n: "n < LENGTH('a)"
  let ?z = "signed_drop_bit (LENGTH('a) - 1) v XOR push_bit 1 v"
  have top: "\<not> bit ?z (n + 1)" if "n + 1 \<ge> LENGTH('a)" using that bit_lt_length [of ?z "n + 1"] by auto
  show "bit (drop_bit 1 ?z XOR - (?z AND 1)) n = bit v n"
    unfolding unzig_bits [OF n]
    using zig_zag_bits [of 0 v] zig_zag_bits [of "n + 1" v] top n
    by (cases "n + 1 < LENGTH('a)") (auto simp: not_less le_Suc_eq)
qed

lemma zig_zag_encode_decode:
  fixes u :: "'a::len word"
  shows "signed_drop_bit (LENGTH('a) - 1) (drop_bit 1 u XOR - (u AND 1)) XOR
    push_bit 1 (drop_bit 1 u XOR - (u AND 1)) = u"
proof (rule bit_word_eqI)
  fix n assume n: "n < LENGTH('a)"
  let ?d = "drop_bit 1 u XOR - (u AND 1)"
  have top: "bit ?d (LENGTH('a) - 1) \<longleftrightarrow> bit u 0"
    using unzig_bits [of "LENGTH('a) - 1" u] bit_lt_length [of u "LENGTH('a)"] by auto
  show "bit (signed_drop_bit (LENGTH('a) - 1) ?d XOR push_bit 1 ?d) n = bit u n"
    unfolding zig_zag_bits [OF n] top
    using unzig_bits [of "n - 1" u] n by (cases n) auto
qed

text \<open>The code of \<open>i\<close> is \<open>2 i\<close> for \<open>i \<ge> 0\<close> and \<open>-2 i - 1\<close> for \<open>i < 0\<close>.\<close>

lemma signed_drop_all: "signed_drop_bit (LENGTH('a) - 1) v = (if sint v < 0 then -1 else 0)" for v :: "'a::len word"
proof (rule bit_word_eqI)
  fix n assume n: "n < LENGTH('a)"
  have "sint v < 0 \<longleftrightarrow> bit v (LENGTH('a) - 1)" using bit_last_iff [of v] by simp
  with bit_signed_drop_all [OF n, of v] n
  show "bit (signed_drop_bit (LENGTH('a) - 1) v) n = bit (if sint v < 0 then -1 else 0 :: 'a word) n" by simp
qed

lemma zig_zag_value:
  fixes v :: "'a::len word"
  shows "uint (signed_drop_bit (LENGTH('a) - 1) v XOR push_bit 1 v) = (if sint v < 0 then - 2 * sint v - 1 else 2 * sint v)"
proof -
  have b: "- (2 ^ (LENGTH('a) - 1)) \<le> sint v" "sint v < 2 ^ (LENGTH('a) - 1)"
    using sint_ge [of v] sint_lt [of v] by auto
  have two: "(2::int) * 2 ^ (LENGTH('a) - 1) = 2 ^ LENGTH('a)" by (simp flip: power_Suc)
  have pb: "push_bit 1 v = of_int (2 * sint v)" by (simp add: push_bit_eq_mult)
  show ?thesis
  proof (cases "sint v < 0")
    case False
    then have "uint (of_int (2 * sint v) :: 'a word) = 2 * sint v"
      using b two by (intro word_of_int_inverse [OF refl]) auto
    with False show ?thesis unfolding signed_drop_all pb by simp
  next
    case True
    have "-1 XOR push_bit 1 v = NOT (push_bit 1 v)" by (rule bit_word_eqI) (simp only: bit_xor_iff bit_not_iff bit_minus_1_iff, auto)
    then have "-1 XOR push_bit 1 v = of_int (- 2 * sint v - 1)" by (simp add: not_eq_complement pb)
    moreover have "uint (of_int (- 2 * sint v - 1) :: 'a word) = - 2 * sint v - 1"
      using b two True by (intro word_of_int_inverse [OF refl]) auto
    ultimately show ?thesis using True unfolding signed_drop_all by simp
  qed
qed

section \<open>The next power of two\<close>

text \<open>
  Each step of the smearing doubles the reach: after reach \<open>k\<close>, bit \<open>n\<close> is set iff one
  of the bits \<open>n, \<dots>, n + k - 1\<close> was.
\<close>

definition smeared :: "nat \<Rightarrow> 'a::len word \<Rightarrow> 'a word \<Rightarrow> bool" where
  "smeared k v w \<longleftrightarrow> (\<forall>n<LENGTH('a). bit w n \<longleftrightarrow> (\<exists>m. n \<le> m \<and> m < n + k \<and> bit v m))"

lemma smeared_double:
  fixes v w :: "'a::len word"
  assumes s: "smeared k v w" and pos: "\<not> bit v (LENGTH('a) - 1)" and k: "0 < k"
  shows "smeared (2 * k) v (w OR signed_drop_bit k w)"
  unfolding smeared_def
proof (intro allI impI)
  fix n assume n: "n < LENGTH('a)"
  let ?L = "LENGTH('a)"
  have "\<not> bit w (?L - 1)"
  proof
    assume "bit w (?L - 1)"
    then obtain m where m: "?L - 1 \<le> m" "bit v m" using s by (auto simp: smeared_def)
    then have "m = ?L - 1" using bit_lt_length [of v m] by simp
    with m pos show False by simp
  qed
  then have "bit (signed_drop_bit k w) n \<longleftrightarrow> bit w (k + n)"
    using bit_lt_length [of w "k + n"] n by (auto simp: bit_signed_drop_bit_iff)
  moreover have "bit w (k + n) \<longleftrightarrow> (\<exists>m. n + k \<le> m \<and> m < n + 2 * k \<and> bit v m)"
  proof (cases "k + n < ?L")
    case True
    then show ?thesis using s by (simp add: smeared_def add.commute add.left_commute mult_2)
  next
    case False
    then show ?thesis using bit_lt_length [of v] bit_lt_length [of w "k + n"] by fastforce
  qed
  moreover have "bit w n \<longleftrightarrow> (\<exists>m. n \<le> m \<and> m < n + k \<and> bit v m)" using s n by (simp add: smeared_def)
  moreover have "n \<le> m \<and> m < n + 2 * k \<longleftrightarrow> n \<le> m \<and> m < n + k \<or> n + k \<le> m \<and> m < n + 2 * k" for m
    using k by auto
  ultimately show "bit (w OR signed_drop_bit k w) n \<longleftrightarrow> (\<exists>m. n \<le> m \<and> m < n + 2 * k \<and> bit v m)"
    unfolding bit_or_iff by blast
qed

lemma smeared_full:
  fixes v w :: "'a::len word"
  assumes s: "smeared k v w" and k: "LENGTH('a) \<le> k" and v: "v \<noteq> 0"
  shows "\<exists>t<LENGTH('a). bit v t \<and> (\<forall>m>t. \<not> bit v m) \<and> w = mask (Suc t)"
proof -
  define t where "t = LENGTH('a) - 1 - leading_zeros v"
  have top: "t < LENGTH('a)" "bit v t" "\<forall>m>t. \<not> bit v m"
    using leading_zeros_bit [OF v] leading_zeros_above [of v] by (auto simp: t_def)
  have "w = mask (Suc t)"
  proof (rule bit_word_eqI)
    fix n assume n: "n < LENGTH('a)"
    have "(\<exists>m. n \<le> m \<and> m < n + k \<and> bit v m) \<longleftrightarrow> n \<le> t"
    proof
      assume "\<exists>m. n \<le> m \<and> m < n + k \<and> bit v m"
      then obtain m where "n \<le> m" "bit v m" by blast
      with top(3) show "n \<le> t" by (metis le_trans not_le)
    next
      assume "n \<le> t"
      with top(1,2) k show "\<exists>m. n \<le> m \<and> m < n + k \<and> bit v m" by (intro exI [of _ t]) simp
    qed
    then show "bit w n = bit (mask (Suc t) :: 'a word) n" using s n by (simp add: smeared_def bit_mask_iff less_Suc_eq_le)
  qed
  with top show ?thesis by blast
qed

lemma word_bit_bounds:
  fixes v :: "'a::len word"
  assumes "bit v t" "\<forall>m>t. \<not> bit v m"
  shows "2 ^ t \<le> uint v" "uint v < 2 ^ Suc t"
proof -
  have tl: "t < LENGTH('a)" using assms(1) by (rule bit_lt_length)
  have "v = take_bit (Suc t) v" using assms(2) by (intro bit_word_eqI) (auto simp: bit_take_bit_iff less_Suc_eq not_less_eq)
  then have "uint v = take_bit (Suc t) (uint v)" by (metis unsigned_take_bit_eq)
  then show "uint v < 2 ^ Suc t" by (metis take_bit_int_less_exp)
  have "odd (uint v div 2 ^ t)" using assms(1) tl by (simp add: bit_uint_iff flip: bit_iff_odd)
  then have "uint v div 2 ^ t \<noteq> 0" by auto
  then show "2 ^ t \<le> uint v" by (meson div_pos_pos_trivial not_le uint_ge_0)
qed

lemma sint_nonneg: "0 \<le> sint v \<Longrightarrow> sint v = uint v" for v :: "'a::len word"
proof -
  assume "0 \<le> sint v"
  moreover have "sint v < 2 ^ LENGTH('a)"
    using sint_lt [of v] power_increasing [of "LENGTH('a) - 1" "LENGTH('a)" "2 :: int"] by linarith
  ultimately have "take_bit LENGTH('a) (sint v) = sint v" by (simp add: take_bit_int_eq_self)
  then show ?thesis by (simp add: uint_sint)
qed

text \<open>
  The steps common to both widths, for a positive argument of at most half the range.
\<close>

lemma smear_power:
  fixes v w :: "'a::len word"
  assumes L: "2 < LENGTH('a)" and v: "1 \<le> sint v" "sint v \<le> 2 ^ (LENGTH('a) - 2)"
    and s: "smeared k (v - 1) w" "LENGTH('a) \<le> k"
  shows "\<exists>j\<le>LENGTH('a) - 2. inc_signed w = Inr (2 ^ j) \<and> sint v \<le> 2 ^ j \<and> (j = 0 \<or> 2 ^ (j - 1) < sint v)"
proof -
  define M where "M = LENGTH('a) - 2"
  have M: "LENGTH('a) - Suc 0 = Suc M" "LENGTH('a) = Suc (Suc M)" "0 < M" using L by (auto simp: M_def)
  have sv: "sint v = uint v" using v(1) by (intro sint_nonneg) simp
  have u: "uint (v - 1) = uint v - 1" using v(1) sv by (simp add: uint_sub_if')
  show ?thesis
  proof (cases "v = 1")
    case True
    then have "w = 0" using s(1) by (intro bit_word_eqI) (simp add: smeared_def)
    moreover have "(2 :: int) ^ Suc M - 1 \<noteq> 0" using one_less_power [of "2::int" "Suc M"] by simp
    ultimately have "inc_signed w = Inr 1" by (simp add: inc_signed_def M(1))
    moreover have "sint v = 1" using True sv by simp
    ultimately show ?thesis by (intro exI [of _ 0]) simp
  next
    case False
    then have nz: "v - 1 \<noteq> 0" by simp
    obtain t where t: "t < LENGTH('a)" "bit (v - 1) t" "\<forall>m>t. \<not> bit (v - 1) m" "w = mask (Suc t)"
      using smeared_full [OF s nz] by blast
    note b = word_bit_bounds [OF t(2,3), unfolded u]
    have "(2 :: int) ^ t < 2 ^ M" using b(1) v(2) sv unfolding M_def by linarith
    then have tM: "t < M" by simp
    then have "(2 :: int) ^ Suc t < 2 ^ Suc M" by simp
    moreover have "uint w = 2 ^ Suc t - 1"
    proof -
      have "min LENGTH('a) (Suc t) = Suc t" using tM M(2) by simp
      then show ?thesis unfolding t(4) uint_mask_eq by (simp only: mask_eq_exp_minus_1)
    qed
    moreover have "(2 :: int) ^ (LENGTH('a) - 1) = 2 ^ Suc M" by (simp add: M(1))
    ultimately have "uint w < 2 ^ (LENGTH('a) - 1)" "uint w \<noteq> 2 ^ (LENGTH('a) - 1) - 1" by linarith+
    then have "inc_signed w = Inr (w + 1)" by (simp add: inc_signed_def sint_small)
    also have "w + 1 = 2 ^ Suc t" by (simp only: t(4) inc_mask_eq_exp)
    finally have "inc_signed w = Inr (2 ^ Suc t)" .
    moreover have "sint v \<le> 2 ^ Suc t" "2 ^ t < sint v" using b sv by simp_all
    ultimately show ?thesis using tM by (intro exI [of _ "Suc t"]) (simp add: M_def)
  qed
qed

lemma smeared_one: "smeared 1 v v"
  by (auto simp: smeared_def le_less_Suc_eq)

lemma dec_signed_pos:
  fixes v :: "'a::len word"
  assumes "1 \<le> sint v"
  shows "dec_signed v = Inr (v - 1) \<and> \<not> bit (v - 1) (LENGTH('a) - 1)"
proof -
  have "sint v = uint v" using assms by (intro sint_nonneg) simp
  then have u: "uint (v - 1) = uint v - 1" "uint v < 2 ^ (LENGTH('a) - 1)" "1 \<le> uint v"
    using assms sint_lt [of v] by (simp_all add: uint_sub_if')
  then have "uint (v - 1) < 2 ^ (LENGTH('a) - 1)" by linarith
  from sint_small [OF this] u have "0 \<le> sint (v - 1)" by simp
  moreover have "sint v \<noteq> - (2 ^ (LENGTH('a) - 1))" using assms by (smt (verit) zero_less_power)
  ultimately show ?thesis by (simp add: dec_signed_def bit_last_iff)
qed

text \<open>A larger argument smears to the largest value.\<close>

lemma smear_overflow:
  fixes v w :: "'a::len word"
  assumes L: "2 < LENGTH('a)" and v: "2 ^ (LENGTH('a) - 2) < sint v"
    and s: "smeared k (v - 1) w" "LENGTH('a) \<le> k"
  shows "inc_signed w = Inl Panic"
proof -
  define M where "M = LENGTH('a) - 2"
  have M: "LENGTH('a) - Suc 0 = Suc M" "LENGTH('a) = Suc (Suc M)" using L by (auto simp: M_def)
  have "0 < (2 :: int) ^ M" by simp
  with v have pos: "1 \<le> sint v" unfolding M_def by linarith
  have sv: "sint v = uint v" using pos by (intro sint_nonneg) simp
  have u: "uint (v - 1) = uint v - 1" using pos sv by (simp add: uint_sub_if')
  have nz: "v - 1 \<noteq> 0"
  proof
    assume "v - 1 = 0"
    then have "sint v = 1" using u sv by simp
    with v one_le_power [of "2::int" "LENGTH('a) - 2"] show False by linarith
  qed
  obtain t where t: "t < LENGTH('a)" "bit (v - 1) t" "\<forall>m>t. \<not> bit (v - 1) m" "w = mask (Suc t)"
    using smeared_full [OF s nz] by blast
  have "2 ^ M < (2 :: int) ^ Suc t"
    using word_bit_bounds(2) [OF t(2,3), unfolded u] v sv unfolding M_def by linarith
  then have "M \<le> t" by (subst (asm) power_strict_increasing_iff) simp_all
  moreover have "t \<noteq> Suc M" using t(2) dec_signed_pos [OF pos] M by auto
  ultimately have "t = M" using t(1) M(2) by linarith
  then have w: "uint w = 2 ^ Suc M - 1" unfolding t(4) uint_mask_eq using M(2) by (simp add: mask_eq_exp_minus_1)
  then have "sint w = uint w" by (intro sint_small) (simp add: M(1))
  with w show ?thesis by (simp add: inc_signed_def M(1))
qed

lemma next_highest_power_of_two_i32_smeared:
  assumes v: "1 \<le> sint v"
  shows "\<exists>w. next_highest_power_of_two_with_i32 v = inc_signed w \<and> smeared 32 (v - 1) w"
proof -
  define u where "u = v - 1"
  have d: "dec_signed v = Inr u" "\<not> bit u (LENGTH(32) - 1)" using dec_signed_pos [OF v] by (simp_all add: u_def)
  note sm = smeared_double [OF _ d(2)]
  define w1 where "w1 = u OR signed_drop_bit 1 u"
  define w2 where "w2 = w1 OR signed_drop_bit 2 w1"
  define w3 where "w3 = w2 OR signed_drop_bit 4 w2"
  define w4 where "w4 = w3 OR signed_drop_bit 8 w3"
  define w5 where "w5 = w4 OR signed_drop_bit 16 w4"
  have s1: "smeared 2 u w1" using sm [OF smeared_one [of u]] by (simp add: w1_def)
  have s2: "smeared 4 u w2" using sm [OF s1] by (simp add: w2_def)
  have s3: "smeared 8 u w3" using sm [OF s2] by (simp add: w3_def)
  have s4: "smeared 16 u w4" using sm [OF s3] by (simp add: w4_def)
  have s5: "smeared 32 u w5" using sm [OF s4] by (simp add: w5_def)
  have "next_highest_power_of_two_with_i32 v = inc_signed w5"
    unfolding next_highest_power_of_two_with_i32_def d(1) by (simp only: rbind_simps Let_def w1_def w2_def w3_def w4_def w5_def)
  with s5 show ?thesis by (auto simp: u_def)
qed

lemma next_highest_power_of_two_i64_smeared:
  assumes v: "1 \<le> sint v"
  shows "\<exists>w. next_highest_power_of_two_with_i64 v = inc_signed w \<and> smeared 64 (v - 1) w"
proof -
  define u where "u = v - 1"
  have d: "dec_signed v = Inr u" "\<not> bit u (LENGTH(64) - 1)" using dec_signed_pos [OF v] by (simp_all add: u_def)
  note sm = smeared_double [OF _ d(2)]
  define w1 where "w1 = u OR signed_drop_bit 1 u"
  define w2 where "w2 = w1 OR signed_drop_bit 2 w1"
  define w3 where "w3 = w2 OR signed_drop_bit 4 w2"
  define w4 where "w4 = w3 OR signed_drop_bit 8 w3"
  define w5 where "w5 = w4 OR signed_drop_bit 16 w4"
  define w6 where "w6 = w5 OR signed_drop_bit 32 w5"
  have s1: "smeared 2 u w1" using sm [OF smeared_one [of u]] by (simp add: w1_def)
  have s2: "smeared 4 u w2" using sm [OF s1] by (simp add: w2_def)
  have s3: "smeared 8 u w3" using sm [OF s2] by (simp add: w3_def)
  have s4: "smeared 16 u w4" using sm [OF s3] by (simp add: w4_def)
  have s5: "smeared 32 u w5" using sm [OF s4] by (simp add: w5_def)
  have s6: "smeared 64 u w6" using sm [OF s5] by (simp add: w6_def)
  have "next_highest_power_of_two_with_i64 v = inc_signed w6"
    unfolding next_highest_power_of_two_with_i64_def d(1) by (simp only: rbind_simps Let_def w1_def w2_def w3_def w4_def w5_def w6_def)
  with s6 show ?thesis by (auto simp: u_def)
qed

lemma least_power:
  fixes x :: int
  assumes "x \<le> 2 ^ j" "j = 0 \<or> 2 ^ (j - 1) < x" "1 \<le> x"
  shows "x \<le> 2 ^ k \<longleftrightarrow> j \<le> k"
proof
  assume "x \<le> 2 ^ k"
  show "j \<le> k"
  proof (rule ccontr)
    assume "\<not> j \<le> k"
    then have "(2 :: int) ^ k \<le> 2 ^ (j - 1)" by (intro power_increasing) simp_all
    moreover have "2 ^ (j - 1) < x" using assms(2) \<open>\<not> j \<le> k\<close> by auto
    ultimately show False using \<open>x \<le> 2 ^ k\<close> by linarith
  qed
next
  assume "j \<le> k"
  then have "(2 :: int) ^ j \<le> 2 ^ k" by (intro power_increasing) simp_all
  with assms(1) show "x \<le> 2 ^ k" by linarith
qed

section \<open>Interleaving\<close>

lemma below_64:
  assumes "n < 64"
  shows "n \<in> {0, 1, 2, 3, 4, 5, 6, 7, 8, 9, 10, 11, 12, 13, 14, 15, 16, 17, 18, 19, 20, 21, 22, 23, 24, 25, 26, 27, 28, 29, 30, 31, 32, 33, 34, 35, 36, 37, 38, 39, 40, 41, 42, 43, 44, 45, 46, 47, 48, 49, 50, 51, 52, 53, 54, 55, 56, 57, 58, 59, 60, 61, 62, 63::nat}"
proof -
  have "[0..<64] = [0, 1, 2, 3, 4, 5, 6, 7, 8, 9, 10, 11, 12, 13, 14, 15, 16, 17, 18, 19, 20, 21, 22, 23, 24, 25, 26, 27, 28, 29, 30, 31, 32, 33, 34, 35, 36, 37, 38, 39, 40, 41, 42, 43, 44, 45, 46, 47, 48, 49, 50, 51, 52, 53, 54, 55, 56, 57, 58, 59, 60, 61, 62, 63::nat]" by (simp add: upt_rec)
  then have "{0..<64} = set [0, 1, 2, 3, 4, 5, 6, 7, 8, 9, 10, 11, 12, 13, 14, 15, 16, 17, 18, 19, 20, 21, 22, 23, 24, 25, 26, 27, 28, 29, 30, 31, 32, 33, 34, 35, 36, 37, 38, 39, 40, 41, 42, 43, 44, 45, 46, 47, 48, 49, 50, 51, 52, 53, 54, 55, 56, 57, 58, 59, 60, 61, 62, 63::nat]" by (metis set_upt)
  then have "n \<in> set [0, 1, 2, 3, 4, 5, 6, 7, 8, 9, 10, 11, 12, 13, 14, 15, 16, 17, 18, 19, 20, 21, 22, 23, 24, 25, 26, 27, 28, 29, 30, 31, 32, 33, 34, 35, 36, 37, 38, 39, 40, 41, 42, 43, 44, 45, 46, 47, 48, 49, 50, 51, 52, 53, 54, 55, 56, 57, 58, 59, 60, 61, 62, 63::nat]" using assms by (metis atLeastLessThan_iff le0)
  then show ?thesis by (simp only: list.set)
qed

lemmas magic_defs = MAGIC0_def MAGIC1_def MAGIC2_def MAGIC3_def MAGIC4_def MAGIC5_def MAGIC6_def

lemma bit_spread_bits:
  assumes "n < 64"
  shows "bit (spread_bits (MAGIC5 AND ucast (e :: i32))) n \<longleftrightarrow> even n \<and> bit e (n div 2)"
  using below_64 [OF assms]
  unfolding insert_iff empty_iff spread_bits_def Let_def bit_and_iff bit_or_iff bit_push_bit_iff bit_ucast_iff
  by (elim disjE; (simp add: magic_defs)?)

lemma bit_MAGIC0_MAGIC6:
  assumes "n < 64"
  shows "bit MAGIC0 n \<longleftrightarrow> even n" "bit MAGIC6 n \<longleftrightarrow> odd n"
  using below_64 [OF assms] unfolding insert_iff empty_iff by (elim disjE; simp add: magic_defs)+

lemma bit_interleave:
  assumes "n < 64"
  shows "bit (interleave ev od) n = (if even n then bit ev (n div 2) else bit od (n div 2))"
proof -
  have "bit (interleave ev od) n \<longleftrightarrow>
      1 \<le> n \<and> bit (spread_bits (MAGIC5 AND ucast od)) (n - 1) \<or> bit (spread_bits (MAGIC5 AND ucast ev)) n"
    unfolding interleave_def Let_def bit_or_iff bit_push_bit_iff using assms by simp
  also have "\<dots> \<longleftrightarrow> 1 \<le> n \<and> even (n - 1) \<and> bit od ((n - 1) div 2) \<or> even n \<and> bit ev (n div 2)"
    using assms by (subst (1 2) bit_spread_bits) simp_all
  also have "\<dots> \<longleftrightarrow> (if even n then bit ev (n div 2) else bit od (n div 2))"
    by (cases n) auto
  finally show ?thesis .
qed

lemma bit_flip_flop:
  assumes n: "n < 64"
  shows "bit (flip_flop b) n \<longleftrightarrow> bit b (if even n then n + 1 else n - 1)"
proof -
  have m6: "bit MAGIC6 (1 + n) \<longleftrightarrow> even n"
    using n bit_MAGIC0_MAGIC6 [of "1 + n"] bit_imp_le_length [of MAGIC6 "1 + n"] by (cases "n = 63") auto
  have "bit (flip_flop b) n \<longleftrightarrow> bit b (1 + n) \<and> bit MAGIC6 (1 + n) \<or> 1 \<le> n \<and> bit b (n - 1) \<and> bit MAGIC0 (n - 1)"
    unfolding flip_flop_def bit_or_iff bit_drop_bit_eq bit_push_bit_iff o_apply bit_and_iff using n by simp
  also have "\<dots> \<longleftrightarrow> bit b (1 + n) \<and> even n \<or> 1 \<le> n \<and> bit b (n - 1) \<and> even (n - 1)"
    using n m6 by (simp add: bit_MAGIC0_MAGIC6)
  also have "\<dots> \<longleftrightarrow> bit b (if even n then n + 1 else n - 1)" by (cases n) auto
  finally show ?thesis .
qed

section \<open>Properties\<close>

text \<open>
  C24. \<^verbatim>\<open>interleave\<close> puts bit \<open>i\<close> of its arguments at the bits \<open>2 i\<close> and \<open>2 i + 1\<close>, and \<^verbatim>\<open>flip_flop\<close> swaps
  the even and the odd bits; so it exchanges the arguments of an interleaving, and is its own inverse.
\<close>

theorem interleave_flip_flop:
  "(\<forall>n < 64. bit (interleave ev od) n = (if even n then bit ev (n div 2) else bit od (n div 2)))
   \<and> flip_flop (interleave ev od) = interleave od ev \<and> flip_flop (flip_flop b) = b"
proof -
  have "bit (flip_flop (interleave ev od)) n = bit (interleave od ev) n \<and> bit (flip_flop (flip_flop b)) n = bit b n"
    if n: "n < 64" for n
  proof (cases "even n")
    case True
    then have "n + 1 < 64" "(n + 1) div 2 = n div 2" using n by presburger+
    with True n show ?thesis by (simp add: bit_flip_flop bit_interleave)
  next
    case False
    then have "0 < n" "(n - 1) div 2 = n div 2" "even (n - 1)" by (cases n; auto)+
    with False n show ?thesis by (simp add: bit_flip_flop bit_interleave)
  qed
  then show ?thesis using bit_interleave by (auto intro: bit_word_eqI)
qed

theorem interleave_flip_flop_witness:
  "bit (interleave 5 9) 4 \<and> \<not> bit (interleave 5 9) 5 \<and> flip_flop (interleave 5 9) = interleave 9 5"
proof -
  note t = interleave_flip_flop [of 5 9 0]
  have "bit (interleave 5 9) 4 = bit (5 :: i32) 2" "bit (interleave 5 9) 5 = bit (9 :: i32) 2"
    using t [THEN conjunct1, rule_format, of 4] t [THEN conjunct1, rule_format, of 5] by simp_all
  then show ?thesis using t by simp
qed

text \<open>
  C23. Zig-zag encoding is a bijection on the 32-bit and on the 64-bit integers: \<^verbatim>\<open>zig_zag_decode\<close> and
  \<^verbatim>\<open>zig_zag_encode\<close> invert each other, and the code of \<open>i\<close> is \<open>2 i\<close> for \<open>i \<ge> 0\<close> and \<open>- 2 i - 1\<close> for \<open>i < 0\<close>,
  so small magnitudes have small codes.
\<close>

theorem zig_zag_roundtrip:
  "zig_zag_decode_i32 (zig_zag_encode_i32 i) = i \<and> zig_zag_encode_i32 (zig_zag_decode_i32 u) = u
   \<and> zig_zag_decode_i64 (zig_zag_encode_i64 l) = l \<and> zig_zag_encode_i64 (zig_zag_decode_i64 w) = w
   \<and> uint (zig_zag_encode_i32 i) = (if sint i < 0 then - 2 * sint i - 1 else 2 * sint i)
   \<and> uint (zig_zag_encode_i64 l) = (if sint l < 0 then - 2 * sint l - 1 else 2 * sint l)"
  using zig_zag_decode_encode [of i] zig_zag_encode_decode [of u] zig_zag_decode_encode [of l] zig_zag_encode_decode [of w]
    zig_zag_value [of i] zig_zag_value [of l]
  unfolding zig_zag_decode_i32_def zig_zag_encode_i32_def zig_zag_decode_i64_def zig_zag_encode_i64_def
  by (simp del: push_bit_of_1)

text \<open>
  C25. \<^verbatim>\<open>next_highest_power_of_two\<close> of a positive argument up to \<open>2 ^ 30\<close> (\<open>2 ^ 62\<close>) is the least power of
  two that is not below it, of zero it is zero, and of a larger argument the final increment
  overflows.
\<close>

theorem next_highest_power_of_two_least:
  "(1 \<le> sint v \<and> sint v \<le> 2 ^ 30 \<longrightarrow>
      (\<exists>j\<le>30. next_highest_power_of_two_with_i32 v = Inr (2 ^ j) \<and> (\<forall>k. sint v \<le> 2 ^ k \<longleftrightarrow> j \<le> k)))
   \<and> (1 \<le> sint w \<and> sint w \<le> 2 ^ 62 \<longrightarrow>
      (\<exists>j\<le>62. next_highest_power_of_two_with_i64 w = Inr (2 ^ j) \<and> (\<forall>k. sint w \<le> 2 ^ k \<longleftrightarrow> j \<le> k)))
   \<and> (2 ^ 30 < sint v \<longrightarrow> next_highest_power_of_two_with_i32 v = Inl Panic)
   \<and> (2 ^ 62 < sint w \<longrightarrow> next_highest_power_of_two_with_i64 w = Inl Panic)
   \<and> next_highest_power_of_two_with_i32 0 = Inr 0 \<and> next_highest_power_of_two_with_i64 0 = Inr 0"
proof (intro conjI impI)
  assume v: "1 \<le> sint v \<and> sint v \<le> 2 ^ 30"
  then obtain x where x: "next_highest_power_of_two_with_i32 v = inc_signed x" "smeared 32 (v - 1) x"
    using next_highest_power_of_two_i32_smeared by blast
  then obtain j where "j \<le> 30" "inc_signed x = Inr (2 ^ j)" and j: "sint v \<le> 2 ^ j" "j = 0 \<or> 2 ^ (j - 1) < sint v"
    using smear_power [of v 32 x] v by auto
  with x least_power [OF j] v
  show "\<exists>j\<le>30. next_highest_power_of_two_with_i32 v = Inr (2 ^ j) \<and> (\<forall>k. sint v \<le> 2 ^ k \<longleftrightarrow> j \<le> k)"
    by (intro exI [of _ j]) simp
next
  assume v: "1 \<le> sint w \<and> sint w \<le> 2 ^ 62"
  then obtain x where x: "next_highest_power_of_two_with_i64 w = inc_signed x" "smeared 64 (w - 1) x"
    using next_highest_power_of_two_i64_smeared by blast
  then obtain j where "j \<le> 62" "inc_signed x = Inr (2 ^ j)" and j: "sint w \<le> 2 ^ j" "j = 0 \<or> 2 ^ (j - 1) < sint w"
    using smear_power [of w 64 x] v by auto
  with x least_power [OF j] v
  show "\<exists>j\<le>62. next_highest_power_of_two_with_i64 w = Inr (2 ^ j) \<and> (\<forall>k. sint w \<le> 2 ^ k \<longleftrightarrow> j \<le> k)"
    by (intro exI [of _ j]) simp
next
  assume v: "2 ^ 30 < sint v"
  then obtain x where "next_highest_power_of_two_with_i32 v = inc_signed x" "smeared 32 (v - 1) x"
    using next_highest_power_of_two_i32_smeared [of v] by auto
  with v smear_overflow [of v 32 x] show "next_highest_power_of_two_with_i32 v = Inl Panic" by simp
next
  assume w: "2 ^ 62 < sint w"
  then obtain x where "next_highest_power_of_two_with_i64 w = inc_signed x" "smeared 64 (w - 1) x"
    using next_highest_power_of_two_i64_smeared [of w] by auto
  with w smear_overflow [of w 64 x] show "next_highest_power_of_two_with_i64 w = Inl Panic" by simp
qed (simp_all add: next_highest_power_of_two_with_i32_def next_highest_power_of_two_with_i64_def dec_signed_def inc_signed_def)

theorem next_highest_power_of_two_least_witness:
  "next_highest_power_of_two_with_i32 1000 = Inr 1024"
proof -
  from next_highest_power_of_two_least [of 1000 1]
  obtain j where j: "next_highest_power_of_two_with_i32 1000 = Inr (2 ^ j)" "\<forall>k. 1000 \<le> (2 :: int) ^ k \<longleftrightarrow> j \<le> k" by auto
  have "j \<le> 10" "\<not> j \<le> 9" using j(2) [rule_format, of 10] j(2) [rule_format, of 9] by simp_all
  then have "j = 10" by simp
  with j(1) show ?thesis by simp
qed

section \<open>Values in byte arrays\<close>

text \<open>
  The byte \<open>k\<close> of a value of \<open>n\<close> bytes in memory: in little-endian order the byte of weight \<open>256 ^ k\<close>,
  in big-endian order the one of weight \<open>256 ^ (n - 1 - k)\<close>.
\<close>

definition byte_le :: "'a::len word \<Rightarrow> nat \<Rightarrow> u8" where
  "byte_le v k = ucast (drop_bit (8 * k) v)"

definition byte_be :: "nat \<Rightarrow> 'a::len word \<Rightarrow> nat \<Rightarrow> u8" where
  "byte_be n v k = ucast (drop_bit (8 * (n - 1 - k)) v)"

text \<open>
  What a family of accessors promises for values of \<open>n\<close> bytes with the layout \<open>byte\<close>: \<open>get\<close> returns the value
  whose bytes stand at the position, \<open>put_len\<close> replaces \<open>len\<close> bytes at the position by the first bytes of the value
  and nothing else, \<open>put\<close> does so for all \<open>n\<close> bytes, so that \<open>get\<close> reads the value back; an access that needs bytes
  outside of the array, or more than \<open>n\<close> of them, panics.
\<close>

definition accessor_spec ::
  "('v \<Rightarrow> nat \<Rightarrow> u8) \<Rightarrow> nat \<Rightarrow> (u8 list \<Rightarrow> nat \<Rightarrow> 'v res) \<Rightarrow> (u8 list \<Rightarrow> nat \<Rightarrow> 'v \<Rightarrow> u8 list res) \<Rightarrow>
   (u8 list \<Rightarrow> nat \<Rightarrow> 'v \<Rightarrow> nat \<Rightarrow> u8 list res) \<Rightarrow> bool" where
  "accessor_spec byte n get put put_len \<longleftrightarrow>
     (\<forall>bytes pos v. get bytes pos = Inr v \<longleftrightarrow> pos + n \<le> length bytes \<and> (\<forall>k<n. bytes ! (pos + k) = byte v k))
   \<and> (\<forall>bytes pos. length bytes < pos + n \<longrightarrow> get bytes pos = Inl Panic)
   \<and> (\<forall>bytes pos v len. put_len bytes pos v len =
        (if len \<le> n \<and> pos + len \<le> length bytes
         then Inr (map (\<lambda>i. if pos \<le> i \<and> i < pos + len then byte v (i - pos) else bytes ! i) [0..<length bytes])
         else Inl Panic))
   \<and> (\<forall>bytes pos v. put bytes pos v = put_len bytes pos v n)
   \<and> (\<forall>bytes pos v. pos + n \<le> length bytes \<longrightarrow> rbind (put bytes pos v) (\<lambda>bytes. get bytes pos) = Inr v)"

lemma to_le_byte: "to_le n v = map (byte_le v) [0..<n]"
proof (induction n arbitrary: v)
  case (Suc n)
  have "byte_le v (Suc k) = byte_le (drop_bit 8 v) k" for k by (simp add: byte_le_def add.commute)
  then have "map (byte_le v) [0..<Suc n] = byte_le v 0 # map (byte_le (drop_bit 8 v)) [0..<n]"
    by (simp add: upt_conv_Cons map_Suc_upt [symmetric] del: upt_Suc)
  moreover have "byte_le v 0 = ucast v" by (simp add: byte_le_def)
  ultimately show ?case by (simp only: to_le.simps Suc)
qed simp

lemma rev_to_le_byte: "rev (to_le n v) = map (byte_be n v) [0..<n]"
  by (rule nth_equalityI) (simp_all add: to_le_byte rev_nth byte_le_def byte_be_def)

text \<open>
  The contract of the accessors as the proofs use it: \<open>enc\<close> and \<open>dec\<close> are the code of the values.
\<close>

locale byte_access =
  fixes get :: "u8 list \<Rightarrow> nat \<Rightarrow> 'v res" and put :: "u8 list \<Rightarrow> nat \<Rightarrow> 'v \<Rightarrow> u8 list res"
    and put_len :: "u8 list \<Rightarrow> nat \<Rightarrow> 'v \<Rightarrow> nat \<Rightarrow> u8 list res"
    and n :: nat and enc :: "'v \<Rightarrow> u8 list" and dec :: "u8 list \<Rightarrow> 'v" and byte :: "'v \<Rightarrow> nat \<Rightarrow> u8"
  assumes length_enc: "length (enc v) = n" and dec_enc: "dec (enc v) = v"
    and enc_dec: "length bs = n \<Longrightarrow> enc (dec bs) = bs" and enc_byte: "enc v = map (byte v) [0..<n]"
    and put_len: "put_len bytes pos v len = (if len \<le> n \<and> pos + len \<le> length bytes
      then Inr (take pos bytes @ take len (enc v) @ drop (pos + len) bytes) else Inl Panic)"
    and put_all: "put bytes pos v = put_len bytes pos v n"
    and get: "get bytes pos = (if pos + n \<le> length bytes then Inr (dec (take n (drop pos bytes))) else Inl Panic)"
begin

lemma put: "put bytes pos v = (if pos + n \<le> length bytes
    then Inr (take pos bytes @ enc v @ drop (pos + n) bytes) else Inl Panic)"
  by (simp add: put_all put_len length_enc)

lemma get_put: "pos + n \<le> length bytes \<Longrightarrow> rbind (put bytes pos v) (\<lambda>bytes. get bytes pos) = Inr v"
  by (simp add: put get length_enc dec_enc)

lemma get_iff: "get bytes pos = Inr v \<longleftrightarrow> pos + n \<le> length bytes \<and> (\<forall>k<n. bytes ! (pos + k) = byte v k)"
proof (cases "pos + n \<le> length bytes")
  case True
  then have "dec (take n (drop pos bytes)) = v \<longleftrightarrow> take n (drop pos bytes) = enc v"
    using dec_enc enc_dec [of "take n (drop pos bytes)"] by auto
  also have "\<dots> \<longleftrightarrow> (\<forall>k<n. bytes ! (pos + k) = byte v k)"
    using True by (simp add: list_eq_iff_nth_eq enc_byte)
  finally show ?thesis using True by (simp add: get)
qed (simp add: get)

lemma put_len_nth:
  assumes "len \<le> n" "pos + len \<le> length bytes"
  shows "take pos bytes @ take len (enc v) @ drop (pos + len) bytes =
    map (\<lambda>i. if pos \<le> i \<and> i < pos + len then byte v (i - pos) else bytes ! i) [0..<length bytes]"
proof (rule nth_equalityI)
  show len: "length (take pos bytes @ take len (enc v) @ drop (pos + len) bytes) =
      length (map (\<lambda>i. if pos \<le> i \<and> i < pos + len then byte v (i - pos) else bytes ! i) [0..<length bytes])"
    using assms by (simp add: length_enc)
  fix i assume "i < length (take pos bytes @ take len (enc v) @ drop (pos + len) bytes)"
  then have "i < length bytes" unfolding len by simp
  then show "(take pos bytes @ take len (enc v) @ drop (pos + len) bytes) ! i =
      map (\<lambda>i. if pos \<le> i \<and> i < pos + len then byte v (i - pos) else bytes ! i) [0..<length bytes] ! i"
    using assms by (auto simp: nth_append enc_byte)
qed

lemma accessor: "accessor_spec byte n get put put_len"
  unfolding accessor_spec_def using get_iff get_put put_all by (auto simp: put_len put_len_nth get)

end

lemmas byte_access_defs = bytes_at_def
  get_i16_be_def set_i16_be_def set_i16_be_with_len_def get_i16_le_def set_i16_le_def set_i16_le_with_len_def
  get_i32_be_def set_i32_be_def set_i32_be_with_len_def get_i32_le_def set_i32_le_def set_i32_le_with_len_def
  get_i64_be_def set_i64_be_def set_i64_be_with_len_def get_i64_le_def set_i64_le_def set_i64_le_with_len_def

interpretation i16_be: byte_access get_i16_be set_i16_be set_i16_be_with_len 2 "\<lambda>v. rev (to_le 2 v)" "\<lambda>bs. from_le (rev bs)" "byte_be 2"
proof unfold_locales
  show "rev (to_le 2 (from_le (rev bs) :: i16)) = bs" if "length bs = 2" for bs
    using that to_from_le [where 'a = 16, of "rev bs"] by simp
  show "rev (to_le 2 v) = map (byte_be 2 v) [0..<2]" for v :: i16 by (rule rev_to_le_byte)
qed (auto simp: byte_access_defs dassert_def slice_def from_to_le)

interpretation i16_le: byte_access get_i16_le set_i16_le set_i16_le_with_len 2 "to_le 2" from_le byte_le
proof unfold_locales
  show "to_le 2 (from_le bs :: i16) = bs" if "length bs = 2" for bs
    using that to_from_le [where 'a = 16, of bs] by simp
  show "to_le 2 v = map (byte_le v) [0..<2]" for v :: i16 by (rule to_le_byte)
qed (auto simp: byte_access_defs dassert_def slice_def from_to_le)

interpretation i32_be: byte_access get_i32_be set_i32_be set_i32_be_with_len 4 "\<lambda>v. rev (to_le 4 v)" "\<lambda>bs. from_le (rev bs)" "byte_be 4"
proof unfold_locales
  show "rev (to_le 4 (from_le (rev bs) :: i32)) = bs" if "length bs = 4" for bs
    using that to_from_le [where 'a = 32, of "rev bs"] by simp
  show "rev (to_le 4 v) = map (byte_be 4 v) [0..<4]" for v :: i32 by (rule rev_to_le_byte)
qed (auto simp: byte_access_defs dassert_def slice_def from_to_le)

interpretation i32_le: byte_access get_i32_le set_i32_le set_i32_le_with_len 4 "to_le 4" from_le byte_le
proof unfold_locales
  show "to_le 4 (from_le bs :: i32) = bs" if "length bs = 4" for bs
    using that to_from_le [where 'a = 32, of bs] by simp
  show "to_le 4 v = map (byte_le v) [0..<4]" for v :: i32 by (rule to_le_byte)
qed (auto simp: byte_access_defs dassert_def slice_def from_to_le)

interpretation i64_be: byte_access get_i64_be set_i64_be set_i64_be_with_len 8 "\<lambda>v. rev (to_le 8 v)" "\<lambda>bs. from_le (rev bs)" "byte_be 8"
proof unfold_locales
  show "rev (to_le 8 (from_le (rev bs) :: i64)) = bs" if "length bs = 8" for bs
    using that to_from_le [where 'a = 64, of "rev bs"] by simp
  show "rev (to_le 8 v) = map (byte_be 8 v) [0..<8]" for v :: i64 by (rule rev_to_le_byte)
qed (auto simp: byte_access_defs dassert_def slice_def from_to_le)

interpretation i64_le: byte_access get_i64_le set_i64_le set_i64_le_with_len 8 "to_le 8" from_le byte_le
proof unfold_locales
  show "to_le 8 (from_le bs :: i64) = bs" if "length bs = 8" for bs
    using that to_from_le [where 'a = 64, of bs] by simp
  show "to_le 8 v = map (byte_le v) [0..<8]" for v :: i64 by (rule to_le_byte)
qed (auto simp: byte_access_defs dassert_def slice_def from_to_le)

text \<open>
  C22. The accessors of byte arrays of \<^verbatim>\<open>BitUtil\<close> in both byte orders and all three widths, with debug
  assertions: the getters return exactly the value whose bytes, in the order of the accessor, stand at the
  position; the setters with a length store the first bytes of the value in this order and change no other
  byte; the setters without a length store all of them, and the getter reads the value back. An access needs the
  2, 4 or 8 bytes (or the given length) inside of the array, and a length of at most the width: all others
  panic.
\<close>

theorem byte_access_roundtrip:
  "accessor_spec (byte_be 2) 2 get_i16_be set_i16_be set_i16_be_with_len
   \<and> accessor_spec byte_le 2 get_i16_le set_i16_le set_i16_le_with_len
   \<and> accessor_spec (byte_be 4) 4 get_i32_be set_i32_be set_i32_be_with_len
   \<and> accessor_spec byte_le 4 get_i32_le set_i32_le set_i32_le_with_len
   \<and> accessor_spec (byte_be 8) 8 get_i64_be set_i64_be set_i64_be_with_len
   \<and> accessor_spec byte_le 8 get_i64_le set_i64_le set_i64_le_with_len"
  by (intro conjI i16_be.accessor i16_le.accessor i32_be.accessor i32_le.accessor i64_be.accessor i64_le.accessor)

end
