(* ===== verification/Data_IO.thy ===== *)
theory Data_IO
  imports Bit_Util
begin

text \<open>
  The low-level data types of Lucene's files (\<^verbatim>\<open>store/data_output.rs\<close>, \<^verbatim>\<open>store/data_input.rs\<close>) and
  the output and the input backed by a byte array (\<^verbatim>\<open>store/byte_array_data_output.rs\<close>,
  \<^verbatim>\<open>store/byte_array_data_input.rs\<close>).

  The traits are records of the methods an implementation provides or overrides; the provided
  methods are functions of the record. A failed operation is an error value, its partial
  effect on the stream is dropped. A \<^verbatim>\<open>str\<close> is the list of its UTF-8 bytes, a \<^verbatim>\<open>HashMap\<close> that is written
  the list of its entries in the order of iteration.
\<close>

unbundle bit_operations_syntax

declare wrapping_shl_int [simp]

section \<open>The trait \<open>DataOutput\<close>\<close>

record 's out_ops =
  o_byte :: "'s \<Rightarrow> u8 \<Rightarrow> 's res"
  o_bytes_range :: "'s \<Rightarrow> u8 list \<Rightarrow> nat \<Rightarrow> nat \<Rightarrow> 's res"
  o_short :: "'s \<Rightarrow> i16 \<Rightarrow> 's res"
  o_int :: "'s \<Rightarrow> i32 \<Rightarrow> 's res"
  o_long :: "'s \<Rightarrow> i64 \<Rightarrow> 's res"

text \<open>The default bodies of \<^verbatim>\<open>write_int\<close>, \<^verbatim>\<open>write_short\<close> and \<^verbatim>\<open>write_long\<close>.\<close>

definition default_write_int :: "('s \<Rightarrow> u8 \<Rightarrow> 's res) \<Rightarrow> 's \<Rightarrow> i32 \<Rightarrow> 's res" where
  "default_write_int write_byte s i =
     rbind (write_byte s (ucast i)) (\<lambda>s.
     rbind (write_byte s (ucast (signed_drop_bit 8 i))) (\<lambda>s.
     rbind (write_byte s (ucast (signed_drop_bit 16 i))) (\<lambda>s.
       write_byte s (ucast (signed_drop_bit 24 i)))))"

definition default_write_short :: "('s \<Rightarrow> u8 \<Rightarrow> 's res) \<Rightarrow> 's \<Rightarrow> i16 \<Rightarrow> 's res" where
  "default_write_short write_byte s i =
     rbind (write_byte s (ucast i)) (\<lambda>s. write_byte s (ucast (signed_drop_bit 8 i)))"

definition default_write_long :: "('s \<Rightarrow> i32 \<Rightarrow> 's res) \<Rightarrow> 's \<Rightarrow> i64 \<Rightarrow> 's res" where
  "default_write_long write_int s i =
     rbind (write_int s (ucast i)) (\<lambda>s. write_int s (ucast (signed_drop_bit 32 i)))"

definition write_bytes_with_len :: "'s out_ops \<Rightarrow> 's \<Rightarrow> u8 list \<Rightarrow> nat \<Rightarrow> 's res" where
  "write_bytes_with_len ops s b len = o_bytes_range ops s b 0 len"

definition write_ints :: "'s out_ops \<Rightarrow> 's \<Rightarrow> i32 list \<Rightarrow> 's res" where
  "write_ints ops s vals = for_each vals (\<lambda>v s. o_int ops s v) s"

text \<open>The loop of \<^verbatim>\<open>write_vint\<close> (on \<^verbatim>\<open>u32\<close>) and of \<^verbatim>\<open>write_signed_vlong\<close> (on \<^verbatim>\<open>u64\<close>).\<close>

function write_var :: "'s out_ops \<Rightarrow> 's \<Rightarrow> 'a::len word \<Rightarrow> 's res" where
  "write_var ops s i =
     (if i AND NOT 0x7F \<noteq> 0
      then rbind (o_byte ops s (ucast ((i AND 0x7F) OR 0x80))) (\<lambda>s. write_var ops s (drop_bit 7 i))
      else o_byte ops s (ucast i))"
  by pat_completeness auto

termination
  by (relation "measure (\<lambda>(ops, s, i). unat i)") (auto intro!: unat_drop_bit_less)

declare write_var.simps [simp del]

definition write_vint :: "'s out_ops \<Rightarrow> 's \<Rightarrow> i32 \<Rightarrow> 's res" where
  "write_vint = write_var"

definition write_zint :: "'s out_ops \<Rightarrow> 's \<Rightarrow> i32 \<Rightarrow> 's res" where
  "write_zint ops s i = write_vint ops s (zig_zag_encode_i32 i)"

definition write_signed_vlong :: "'s out_ops \<Rightarrow> 's \<Rightarrow> i64 \<Rightarrow> 's res" where
  "write_signed_vlong = write_var"

definition write_vlong :: "'s out_ops \<Rightarrow> 's \<Rightarrow> i64 \<Rightarrow> 's res" where
  "write_vlong ops s i = (if sint i < 0 then Inl IllegalArgument else write_signed_vlong ops s i)"

definition write_zlong :: "'s out_ops \<Rightarrow> 's \<Rightarrow> i64 \<Rightarrow> 's res" where
  "write_zlong ops s i = write_signed_vlong ops s (zig_zag_encode_i64 i)"

definition write_string :: "'s out_ops \<Rightarrow> 's \<Rightarrow> u8 list \<Rightarrow> 's res" where
  "write_string ops s bytes =
     rbind (write_vint ops s (of_nat (length bytes))) (\<lambda>s. o_bytes_range ops s bytes 0 (length bytes))"

definition write_map_of_strings :: "'s out_ops \<Rightarrow> 's \<Rightarrow> (u8 list \<times> u8 list) list \<Rightarrow> 's res" where
  "write_map_of_strings ops s entries =
     rbind (write_vint ops s (of_nat (length entries))) (for_each entries (\<lambda>(k, v) s.
       rbind (write_string ops s k) (\<lambda>s. write_string ops s v)))"

definition write_set_of_strings :: "'s out_ops \<Rightarrow> 's \<Rightarrow> u8 list list \<Rightarrow> 's res" where
  "write_set_of_strings ops s entries =
     rbind (write_vint ops s (of_nat (length entries))) (for_each entries (\<lambda>v s. write_string ops s v))"

section \<open>The trait \<open>DataInput\<close>\<close>

record 's in_ops =
  i_byte :: "'s \<Rightarrow> (u8 \<times> 's) res"
  i_get_bytes :: "'s \<Rightarrow> nat \<Rightarrow> (u8 list \<times> 's) res"
  i_bytes :: "'s \<Rightarrow> u8 list \<Rightarrow> nat \<Rightarrow> nat \<Rightarrow> (u8 list \<times> 's) res"
  i_short :: "'s \<Rightarrow> (i16 \<times> 's) res"
  i_int :: "'s \<Rightarrow> (i32 \<times> 's) res"
  i_long :: "'s \<Rightarrow> (i64 \<times> 's) res"
  i_skip :: "'s \<Rightarrow> int \<Rightarrow> 's res"

definition default_read_short :: "('s \<Rightarrow> (u8 \<times> 's) res) \<Rightarrow> 's \<Rightarrow> (i16 \<times> 's) res" where
  "default_read_short read_byte s =
     rbind (read_byte s) (\<lambda>(b1, s). rbind (read_byte s) (\<lambda>(b2, s). Inr (from_le [b1, b2], s)))"

definition default_read_int :: "('s \<Rightarrow> (u8 \<times> 's) res) \<Rightarrow> 's \<Rightarrow> (i32 \<times> 's) res" where
  "default_read_int read_byte s =
     rbind (read_byte s) (\<lambda>(b1, s). rbind (read_byte s) (\<lambda>(b2, s).
     rbind (read_byte s) (\<lambda>(b3, s). rbind (read_byte s) (\<lambda>(b4, s).
       Inr (from_le [b1, b2, b3, b4], s)))))"

definition default_read_long :: "('s \<Rightarrow> (i32 \<times> 's) res) \<Rightarrow> 's \<Rightarrow> (i64 \<times> 's) res" where
  "default_read_long read_int s =
     rbind (read_int s) (\<lambda>(x, s). rbind (read_int s) (\<lambda>(y, s).
       let b1 = scast x AND 0xFFFFFFFF; b2 = push_bit 32 (scast y) in Inr (b2 OR b1, s)))"

text \<open>
  The loop of \<^verbatim>\<open>read_vint\<close> and \<^verbatim>\<open>read_vlong\<close>: it ends with the first byte below 128, or with the error
  of the input, at the latest when \<^verbatim>\<open>shift += 7\<close> leaves the range of \<^verbatim>\<open>u32\<close>.
\<close>

function read_var_loop :: "'s in_ops \<Rightarrow> 's \<Rightarrow> 'a::len word \<Rightarrow> 'a word \<Rightarrow> nat \<Rightarrow> ('a word \<times> 's) res" where
  "read_var_loop ops s b i shift =
     (if b AND 0x80 \<noteq> 0
      then rbind (i_byte ops s) (\<lambda>(b, s).
           let b = ucast b; i = i OR wrapping_shl (b AND 0x7F) (int shift) in
           rbind (u32_add shift 7) (\<lambda>shift. read_var_loop ops s b i shift))
      else Inr (i, s))"
  by pat_completeness auto

termination
  by (relation "measure (\<lambda>(ops, s, b, i, shift). 2 ^ 32 - shift)") (auto simp: u32_add_def split: if_splits)

declare read_var_loop.simps [simp del]

definition read_var :: "'s in_ops \<Rightarrow> 's \<Rightarrow> ('a::len word \<times> 's) res" where
  "read_var ops s = rbind (i_byte ops s) (\<lambda>(b, s). read_var_loop ops s (ucast b) (ucast b AND 0x7F) 7)"

definition read_vint :: "'s in_ops \<Rightarrow> 's \<Rightarrow> (i32 \<times> 's) res" where
  "read_vint = read_var"

definition read_zint :: "'s in_ops \<Rightarrow> 's \<Rightarrow> (i32 \<times> 's) res" where
  "read_zint ops s = rbind (read_vint ops s) (\<lambda>(i, s). Inr (zig_zag_decode_i32 i, s))"

definition read_vlong :: "'s in_ops \<Rightarrow> 's \<Rightarrow> (i64 \<times> 's) res" where
  "read_vlong = read_var"

definition read_zlong :: "'s in_ops \<Rightarrow> 's \<Rightarrow> (i64 \<times> 's) res" where
  "read_zlong ops s = rbind (read_vlong ops s) (\<lambda>(i, s). Inr (zig_zag_decode_i64 i, s))"

definition check_from_index_size :: "nat \<Rightarrow> nat \<Rightarrow> nat \<Rightarrow> nat res" where
  "check_from_index_size from_index size_of len =
     (if len < from_index \<or> len - from_index < size_of then Inl ArrayIndexOutOfBounds else Inr from_index)"

definition read_ints :: "'s in_ops \<Rightarrow> 's \<Rightarrow> i32 list \<Rightarrow> nat \<Rightarrow> nat \<Rightarrow> (i32 list \<times> 's) res" where
  "read_ints ops s dst offset len =
     rbind (check_from_index_size offset len (length dst)) (\<lambda>_.
       for_each [0..<len] (\<lambda>i (dst, s).
         rbind (i_int ops s) (\<lambda>(v, s). rbind (upd dst (i + offset) v) (\<lambda>dst. Inr (dst, s)))) (dst, s))"

definition read_longs :: "'s in_ops \<Rightarrow> 's \<Rightarrow> i64 list \<Rightarrow> nat \<Rightarrow> nat \<Rightarrow> (i64 list \<times> 's) res" where
  "read_longs ops s dst offset len =
     dassert (length dst \<le> 2 ^ 31 - 1) (
     rbind (check_from_index_size offset len (length dst)) (\<lambda>_.
       for_each [0..<len] (\<lambda>i (dst, s).
         rbind (i_long ops s) (\<lambda>(v, s). rbind (upd dst (i + offset) v) (\<lambda>dst. Inr (dst, s)))) (dst, s)))"

section \<open>UTF-8\<close>

text \<open>
  The first sequence of a list of bytes: whether it is a well-formed character and how many
  bytes it has; of an ill-formed one, the longest prefix of a character (the maximal subpart
  that \<^verbatim>\<open>from_utf8_lossy\<close> replaces).
\<close>

definition cont :: "u8 \<Rightarrow> bool" where
  "cont b \<longleftrightarrow> 0x80 \<le> b \<and> b \<le> 0xBF"

fun utf8_tail :: "u8 list \<Rightarrow> nat \<Rightarrow> nat \<Rightarrow> bool \<times> nat" where
  "utf8_tail bs 0 k = (True, k)"
| "utf8_tail [] (Suc n) k = (False, k)"
| "utf8_tail (b # bs) (Suc n) k = (if cont b then utf8_tail bs n (k + 1) else (False, k))"

definition utf8_second :: "u8 \<Rightarrow> u8 \<Rightarrow> u8 list \<Rightarrow> nat \<Rightarrow> bool \<times> nat" where
  "utf8_second lo hi bs n = (case bs of [] \<Rightarrow> (False, 1)
     | b # bs \<Rightarrow> if lo \<le> b \<and> b \<le> hi then utf8_tail bs n 2 else (False, 1))"

definition utf8_first :: "u8 \<Rightarrow> u8 list \<Rightarrow> bool \<times> nat" where
  "utf8_first b bs =
     (if b < 0x80 then (True, 1)
      else if 0xC2 \<le> b \<and> b \<le> 0xDF then utf8_second 0x80 0xBF bs 0
      else if b = 0xE0 then utf8_second 0xA0 0xBF bs 1
      else if b = 0xED then utf8_second 0x80 0x9F bs 1
      else if 0xE1 \<le> b \<and> b \<le> 0xEF then utf8_second 0x80 0xBF bs 1
      else if b = 0xF0 then utf8_second 0x90 0xBF bs 2
      else if 0xF1 \<le> b \<and> b \<le> 0xF3 then utf8_second 0x80 0xBF bs 2
      else if b = 0xF4 then utf8_second 0x80 0x8F bs 2
      else (False, 1))"

lemma utf8_tail_ge: "k \<le> snd (utf8_tail bs n k)"
  by (induction bs n k rule: utf8_tail.induct) auto

lemma utf8_second_pos: "0 < snd (utf8_second lo hi bs n)"
  using less_le_trans [OF _ utf8_tail_ge [of 2]] by (cases bs) (simp_all add: utf8_second_def)

lemma utf8_first_pos: "0 < snd (utf8_first b bs)"
  unfolding utf8_first_def by (simp add: utf8_second_pos)

lemma utf8_first_drop: "(ok, n) = utf8_first b bs \<Longrightarrow> Suc (length bs) - n < Suc (length bs)"
  using utf8_first_pos [of b bs] by (metis diff_less snd_conv zero_less_Suc)

text \<open>\<^verbatim>\<open>std::str::from_utf8(bytes).is_ok()\<close>.\<close>

function valid_utf8 :: "u8 list \<Rightarrow> bool" where
  "valid_utf8 [] = True"
| "valid_utf8 (b # bs) = (case utf8_first b bs of (ok, n) \<Rightarrow> ok \<and> valid_utf8 (drop n (b # bs)))"
  by pat_completeness auto

termination
  by (relation "measure length") (auto intro: utf8_first_drop)

text \<open>\<^verbatim>\<open>String::from_utf8_lossy\<close>: an ill-formed sequence becomes U+FFFD.\<close>

function from_utf8_lossy :: "u8 list \<Rightarrow> u8 list" where
  "from_utf8_lossy [] = []"
| "from_utf8_lossy (b # bs) = (case utf8_first b bs of (ok, n) \<Rightarrow>
     (if ok then take n (b # bs) else [0xEF, 0xBF, 0xBD]) @ from_utf8_lossy (drop n (b # bs)))"
  by pat_completeness auto

termination
  by (relation "measure length") (auto intro: utf8_first_drop)

section \<open>Strings and collections of strings\<close>

definition read_string :: "'s in_ops \<Rightarrow> 's \<Rightarrow> (u8 list \<times> 's) res" where
  "read_string ops s =
     rbind (read_vint ops s) (\<lambda>(n, s). rbind (usize_of_i32 (sint n)) (\<lambda>len.
     rbind (i_get_bytes ops s len) (\<lambda>(bytes, s).
       Inr (if valid_utf8 bytes then bytes else from_utf8_lossy bytes, s))))"

definition read_entry :: "'s in_ops \<Rightarrow> (u8 list \<rightharpoonup> u8 list) \<times> 's \<Rightarrow> ((u8 list \<rightharpoonup> u8 list) \<times> 's) res" where
  "read_entry ops = (\<lambda>(m, s).
     rbind (read_string ops s) (\<lambda>(k, s). rbind (read_string ops s) (\<lambda>(v, s). Inr (m(k \<mapsto> v), s))))"

text \<open>The reservations of capacity have no effect on the value.\<close>

definition read_medium_string_map :: "'s in_ops \<Rightarrow> 's \<Rightarrow> int \<Rightarrow> ((u8 list \<rightharpoonup> u8 list) \<times> 's) res" where
  "read_medium_string_map ops s entry_count =
     rbind (for_each [0..<4] (\<lambda>_. read_entry ops) (Map.empty, s)) (for_each [4..<nat entry_count] (\<lambda>_. read_entry ops))"

definition read_map_of_strings :: "'s in_ops \<Rightarrow> 's \<Rightarrow> ((u8 list \<rightharpoonup> u8 list) \<times> 's) res" where
  "read_map_of_strings ops s =
     rbind (read_vint ops s) (\<lambda>(n, s).
     let entry_count = sint n in
     if 8 \<le> entry_count \<and> entry_count \<le> 1024 then read_medium_string_map ops s entry_count
     else if entry_count = 0 then Inr (Map.empty, s)
     else if entry_count = 1 then read_entry ops (Map.empty, s)
     else for_each [0..<nat entry_count] (\<lambda>_. read_entry ops) (Map.empty, s))"

definition read_element :: "'s in_ops \<Rightarrow> u8 list set \<times> 's \<Rightarrow> (u8 list set \<times> 's) res" where
  "read_element ops = (\<lambda>(m, s). rbind (read_string ops s) (\<lambda>(v, s). Inr (insert v m, s)))"

definition read_medium_string_set :: "'s in_ops \<Rightarrow> 's \<Rightarrow> int \<Rightarrow> (u8 list set \<times> 's) res" where
  "read_medium_string_set ops s entry_count =
     rbind (for_each [0..<4] (\<lambda>_. read_element ops) ({}, s)) (for_each [4..<nat entry_count] (\<lambda>_. read_element ops))"

definition read_set_of_strings :: "'s in_ops \<Rightarrow> 's \<Rightarrow> (u8 list set \<times> 's) res" where
  "read_set_of_strings ops s =
     rbind (read_vint ops s) (\<lambda>(n, s).
     let entry_count = sint n in
     if 8 \<le> entry_count \<and> entry_count \<le> 1024 then read_medium_string_set ops s entry_count
     else if entry_count = 0 then Inr ({}, s)
     else if entry_count = 1 then read_element ops ({}, s)
     else for_each [0..<nat entry_count] (\<lambda>_. read_element ops) ({}, s))"

section \<open>Copying\<close>

definition COPY_BUFFER_SIZE :: nat where
  "COPY_BUFFER_SIZE = 16384"

function copy_bytes_impl :: "'o out_ops \<Rightarrow> 'i in_ops \<Rightarrow> 'o \<Rightarrow> 'i \<Rightarrow> nat \<Rightarrow> ('o \<times> 'i) res" where
  "copy_bytes_impl wops rops out input left =
     (if 0 < left
      then let to_copy = min left COPY_BUFFER_SIZE in
           rbind (i_get_bytes rops input to_copy) (\<lambda>(bytes, input).
           rbind (write_bytes_with_len wops out bytes to_copy) (\<lambda>out.
             copy_bytes_impl wops rops out input (left - to_copy)))
      else Inr (out, input))"
  by pat_completeness auto

termination
  by (relation "measure (\<lambda>(wops, rops, out, input, left). left)") (auto simp: COPY_BUFFER_SIZE_def)

declare copy_bytes_impl.simps [simp del]

section \<open>\<open>ByteArrayDataOutput\<close>\<close>

record byte_array_output =
  bo_bytes :: "u8 list"
  bo_pos :: nat
  bo_limit :: nat

definition bo_with_range :: "u8 list \<Rightarrow> nat \<Rightarrow> nat \<Rightarrow> byte_array_output" where
  "bo_with_range bytes offset len = \<lparr>bo_bytes = bytes, bo_pos = offset, bo_limit = offset + len\<rparr>"

definition bo_with_bytes :: "u8 list \<Rightarrow> byte_array_output" where
  "bo_with_bytes bytes = bo_with_range bytes 0 (length bytes)"

definition bo_reset_with_range :: "byte_array_output \<Rightarrow> nat \<Rightarrow> nat \<Rightarrow> byte_array_output res" where
  "bo_reset_with_range s offset len = Inr (s\<lparr>bo_pos := offset, bo_limit := offset + len\<rparr>)"

definition bo_reset :: "byte_array_output \<Rightarrow> byte_array_output res" where
  "bo_reset s = bo_reset_with_range s 0 (length (bo_bytes s))"

definition bo_write_byte :: "byte_array_output \<Rightarrow> u8 \<Rightarrow> byte_array_output res" where
  "bo_write_byte s b =
     dassert (bo_pos s < bo_limit s) (
     rbind (upd (bo_bytes s) (bo_pos s) b) (\<lambda>bs. Inr (s\<lparr>bo_bytes := bs, bo_pos := bo_pos s + 1\<rparr>)))"

definition bo_write_bytes_range :: "byte_array_output \<Rightarrow> u8 list \<Rightarrow> nat \<Rightarrow> nat \<Rightarrow> byte_array_output res" where
  "bo_write_bytes_range s b offset len =
     dassert (bo_pos s + len \<le> bo_limit s) (
     rbind (slice b offset len) (\<lambda>src.
     rbind (splice (bo_bytes s) (bo_pos s) src) (\<lambda>bs.
       Inr (s\<lparr>bo_bytes := bs, bo_pos := bo_pos s + len\<rparr>))))"

definition bo_write_int :: "byte_array_output \<Rightarrow> i32 \<Rightarrow> byte_array_output res" where
  "bo_write_int s i =
     dassert (bo_pos s + 4 \<le> bo_limit s) (
     rbind (set_i32_le (bo_bytes s) (bo_pos s) i) (\<lambda>bs. Inr (s\<lparr>bo_bytes := bs, bo_pos := bo_pos s + 4\<rparr>)))"

definition bo_write_short :: "byte_array_output \<Rightarrow> i16 \<Rightarrow> byte_array_output res" where
  "bo_write_short s i =
     dassert (bo_pos s + 2 \<le> bo_limit s) (
     rbind (set_i16_le (bo_bytes s) (bo_pos s) i) (\<lambda>bs. Inr (s\<lparr>bo_bytes := bs, bo_pos := bo_pos s + 2\<rparr>)))"

definition bo_write_long :: "byte_array_output \<Rightarrow> i64 \<Rightarrow> byte_array_output res" where
  "bo_write_long s i =
     dassert (bo_pos s + 8 \<le> bo_limit s) (
     rbind (set_i64_le (bo_bytes s) (bo_pos s) i) (\<lambda>bs. Inr (s\<lparr>bo_bytes := bs, bo_pos := bo_pos s + 8\<rparr>)))"

definition bo_ops :: "byte_array_output out_ops" where
  "bo_ops = \<lparr>o_byte = bo_write_byte, o_bytes_range = bo_write_bytes_range, o_short = bo_write_short,
     o_int = bo_write_int, o_long = bo_write_long\<rparr>"

section \<open>\<open>ByteArrayDataInput\<close>\<close>

text \<open>The reads are bounded by the array; \<open>limit\<close> only serves \<^verbatim>\<open>length\<close> and \<^verbatim>\<open>eof\<close>.\<close>

record byte_array_input =
  bi_bytes :: "u8 list"
  bi_pos :: nat
  bi_limit :: nat

definition bi_with_range :: "u8 list \<Rightarrow> nat \<Rightarrow> nat \<Rightarrow> byte_array_input" where
  "bi_with_range bytes offset len = \<lparr>bi_bytes = bytes, bi_pos = offset, bi_limit = offset + len\<rparr>"

definition bi_with_bytes :: "u8 list \<Rightarrow> byte_array_input" where
  "bi_with_bytes bytes = bi_with_range bytes 0 (length bytes)"

definition bi_reset_meta :: "byte_array_input \<Rightarrow> nat \<Rightarrow> nat \<Rightarrow> byte_array_input" where
  "bi_reset_meta s offset len = s\<lparr>bi_pos := offset, bi_limit := offset + len\<rparr>"

definition bi_reset_with_range :: "byte_array_input \<Rightarrow> u8 list \<Rightarrow> nat \<Rightarrow> nat \<Rightarrow> byte_array_input" where
  "bi_reset_with_range s bytes offset len = s\<lparr>bi_bytes := bytes, bi_pos := offset, bi_limit := offset + len\<rparr>"

definition bi_rewind :: "byte_array_input \<Rightarrow> byte_array_input" where
  "bi_rewind s = s\<lparr>bi_pos := 0\<rparr>"

definition bi_set_position :: "byte_array_input \<Rightarrow> nat \<Rightarrow> byte_array_input" where
  "bi_set_position s pos = s\<lparr>bi_pos := pos\<rparr>"

definition bi_eof :: "byte_array_input \<Rightarrow> bool" where
  "bi_eof s \<longleftrightarrow> bi_pos s = bi_limit s"

definition bi_read_byte :: "byte_array_input \<Rightarrow> (u8 \<times> byte_array_input) res" where
  "bi_read_byte s = rbind (idx (bi_bytes s) (bi_pos s)) (\<lambda>b. Inr (b, s\<lparr>bi_pos := bi_pos s + 1\<rparr>))"

definition bi_get_bytes :: "byte_array_input \<Rightarrow> nat \<Rightarrow> (u8 list \<times> byte_array_input) res" where
  "bi_get_bytes s len =
     rbind (slice (bi_bytes s) (bi_pos s) len) (\<lambda>bytes. Inr (bytes, s\<lparr>bi_pos := bi_pos s + len\<rparr>))"

definition bi_read_bytes :: "byte_array_input \<Rightarrow> u8 list \<Rightarrow> nat \<Rightarrow> nat \<Rightarrow> (u8 list \<times> byte_array_input) res" where
  "bi_read_bytes s b offset len =
     rbind (slice (bi_bytes s) (bi_pos s) len) (\<lambda>src.
     rbind (splice b offset src) (\<lambda>b. Inr (b, s\<lparr>bi_pos := bi_pos s + len\<rparr>)))"

definition bi_read_short :: "byte_array_input \<Rightarrow> (i16 \<times> byte_array_input) res" where
  "bi_read_short s = rbind (get_i16_le (bi_bytes s) (bi_pos s)) (\<lambda>v. Inr (v, s\<lparr>bi_pos := bi_pos s + 2\<rparr>))"

definition bi_read_int :: "byte_array_input \<Rightarrow> (i32 \<times> byte_array_input) res" where
  "bi_read_int s = rbind (get_i32_le (bi_bytes s) (bi_pos s)) (\<lambda>v. Inr (v, s\<lparr>bi_pos := bi_pos s + 4\<rparr>))"

definition bi_read_long :: "byte_array_input \<Rightarrow> (i64 \<times> byte_array_input) res" where
  "bi_read_long s = rbind (get_i64_le (bi_bytes s) (bi_pos s)) (\<lambda>v. Inr (v, s\<lparr>bi_pos := bi_pos s + 8\<rparr>))"

definition bi_skip_bytes :: "byte_array_input \<Rightarrow> int \<Rightarrow> byte_array_input res" where
  "bi_skip_bytes s num_bytes =
     (if num_bytes < 0 then Inl IllegalState else Inr (s\<lparr>bi_pos := bi_pos s + nat num_bytes\<rparr>))"

definition bi_ops :: "byte_array_input in_ops" where
  "bi_ops = \<lparr>i_byte = bi_read_byte, i_get_bytes = bi_get_bytes, i_bytes = bi_read_bytes, i_short = bi_read_short,
     i_int = bi_read_int, i_long = bi_read_long, i_skip = bi_skip_bytes\<rparr>"

section \<open>The layout of variable-length integers\<close>

function vint_bytes :: "'a::len word \<Rightarrow> u8 list" where
  "vint_bytes i =
     (if i AND NOT 0x7F \<noteq> 0 then ucast ((i AND 0x7F) OR 0x80) # vint_bytes (drop_bit 7 i) else [ucast i])"
  by pat_completeness auto

termination
  by (relation "measure unat") (auto intro!: unat_drop_bit_less)

declare vint_bytes.simps [simp del]

lemma mask_7: "(0x7F :: 'a::len word) = mask 7"
  by (simp add: mask_eq_exp_minus_1)

lemma high_bits: "i AND NOT 0x7F \<noteq> 0 \<longleftrightarrow> drop_bit 7 i \<noteq> (0 :: 'a::len word)"
proof -
  have "i AND NOT 0x7F = push_bit 7 (drop_bit 7 i)"
    by (rule bit_word_eqI) (auto simp: mask_7 bit_simps)
  moreover have "drop_bit 7 (push_bit 7 (drop_bit 7 i)) = drop_bit 7 i"
    by (rule bit_word_eqI) (auto simp: bit_simps dest: bit_imp_le_length)
  ultimately show ?thesis by (metis drop_bit_of_0 push_bit_of_0)
qed

lemma length_vint_bytes: "0 < n \<Longrightarrow> drop_bit (7 * n) i = 0 \<Longrightarrow> length (vint_bytes i) \<le> n"
proof (induction i arbitrary: n rule: vint_bytes.induct)
  case (1 i)
  show ?case
  proof (cases "i AND NOT 0x7F \<noteq> 0")
    case True
    then have "n \<noteq> 1" using 1(3) high_bits [of i] by auto
    then obtain m where m: "n = Suc m" "0 < m" using 1(2) by (metis One_nat_def gr0_conv_Suc neq0_conv)
    then have "drop_bit (7 * m) (drop_bit 7 i) = 0" using 1(3) by (simp add: add.commute)
    with 1(1) True m show ?thesis by (simp add: vint_bytes.simps [of i])
  next
    case False
    with 1(2) show ?thesis by (simp add: vint_bytes.simps [of i])
  qed
qed

section \<open>The contract of an output\<close>

text \<open>
  \<open>written\<close> is what an output holds and \<open>room\<close> how many bytes it still takes; a write of no more than
  that succeeds and appends its bytes.
\<close>

definition appends :: "('s \<Rightarrow> bool) \<Rightarrow> ('s \<Rightarrow> u8 list) \<Rightarrow> ('s \<Rightarrow> nat) \<Rightarrow> 's \<Rightarrow> u8 list \<Rightarrow> 's res \<Rightarrow> bool" where
  "appends ok written room s bs r \<longleftrightarrow>
     (\<exists>s'. r = Inr s' \<and> ok s' \<and> written s' = written s @ bs \<and> room s' + length bs = room s)"

lemma appendsI:
  "r = Inr s' \<Longrightarrow> I s' \<Longrightarrow> w s' = w s @ bs \<Longrightarrow> m s' + length bs = m s \<Longrightarrow> appends I w m s bs r"
  by (auto simp: appends_def)

lemma appends_nil: "I s \<Longrightarrow> appends I w m s [] (Inr s)"
  by (simp add: appends_def)

lemma appends_rbind:
  assumes "appends I w m s bs r" "\<And>s'. I s' \<Longrightarrow> m s' + length bs = m s \<Longrightarrow> appends I w m s' cs (f s')"
  shows "appends I w m s (bs @ cs) (rbind r f)"
proof -
  from assms(1) obtain s' where s': "r = Inr s'" "I s'" "w s' = w s @ bs" "m s' + length bs = m s"
    by (auto simp: appends_def)
  from assms(2) [OF s'(2,4)] s' show ?thesis by (fastforce simp: appends_def)
qed

locale data_sink =
  fixes ops :: "'s out_ops" and ok :: "'s \<Rightarrow> bool" and written :: "'s \<Rightarrow> u8 list" and room :: "'s \<Rightarrow> nat"
  assumes byte: "ok s \<Longrightarrow> 1 \<le> room s \<Longrightarrow> appends ok written room s [b] (o_byte ops s b)"
    and bytes_range: "ok s \<Longrightarrow> len \<le> room s \<Longrightarrow> off + len \<le> length bs \<Longrightarrow>
      appends ok written room s (take len (drop off bs)) (o_bytes_range ops s bs off len)"
    and short: "ok s \<Longrightarrow> 2 \<le> room s \<Longrightarrow> appends ok written room s (to_le 2 h) (o_short ops s h)"
    and int: "ok s \<Longrightarrow> 4 \<le> room s \<Longrightarrow> appends ok written room s (to_le 4 i) (o_int ops s i)"
    and long: "ok s \<Longrightarrow> 8 \<le> room s \<Longrightarrow> appends ok written room s (to_le 8 l) (o_long ops s l)"
begin

lemma var: "ok s \<Longrightarrow> length (vint_bytes i) \<le> room s \<Longrightarrow> appends ok written room s (vint_bytes i) (write_var ops s i)"
proof (induction i arbitrary: s rule: vint_bytes.induct)
  case (1 i)
  show ?case
  proof (cases "i AND NOT 0x7F \<noteq> 0")
    case True
    have "appends ok written room s ([ucast ((i AND 0x7F) OR 0x80)] @ vint_bytes (drop_bit 7 i))
      (rbind (o_byte ops s (ucast ((i AND 0x7F) OR 0x80))) (\<lambda>s. write_var ops s (drop_bit 7 i)))"
      using 1 True by (intro appends_rbind byte) (simp_all add: vint_bytes.simps [of i])
    with True show ?thesis by (simp add: vint_bytes.simps [of i] write_var.simps [of _ _ i])
  next
    case False
    with 1 byte show ?thesis by (simp add: vint_bytes.simps [of i] write_var.simps [of _ _ i])
  qed
qed

lemma bytes_whole: "ok s \<Longrightarrow> length bs \<le> room s \<Longrightarrow> appends ok written room s bs (o_bytes_range ops s bs 0 (length bs))"
  using bytes_range [of s "length bs" 0 bs] by simp

lemma vstring:
  assumes "ok s" "length (vint_bytes (of_nat (length bs) :: i32)) + length bs \<le> room s"
  shows "appends ok written room s (vint_bytes (of_nat (length bs) :: i32) @ bs) (write_string ops s bs)"
  unfolding write_string_def write_vint_def using assms by (intro appends_rbind var bytes_whole) simp_all

end

section \<open>The contract of an input\<close>

text \<open>\<open>rest\<close> is what an input still gives; a read of no more than that succeeds and consumes it.\<close>

definition consumes :: "('s \<Rightarrow> bool) \<Rightarrow> ('s \<Rightarrow> u8 list) \<Rightarrow> u8 list \<Rightarrow> 'v \<Rightarrow> ('v \<times> 's) res \<Rightarrow> bool" where
  "consumes ok rest cs v r \<longleftrightarrow> (\<exists>s'. r = Inr (v, s') \<and> ok s' \<and> rest s' = cs)"

lemma consumes_rbind:
  assumes "consumes I w cs v r" "\<And>s'. I s' \<Longrightarrow> w s' = cs \<Longrightarrow> consumes I w ds u (f (v, s'))"
  shows "consumes I w ds u (rbind r f)"
  using assms by (auto simp: consumes_def)

lemma consumes_Inr: "I s \<Longrightarrow> w s = cs \<Longrightarrow> consumes I w cs v (Inr (v, s))"
  by (simp add: consumes_def)

locale data_source =
  fixes ops :: "'s in_ops" and ok :: "'s \<Rightarrow> bool" and rest :: "'s \<Rightarrow> u8 list"
  assumes byte: "ok s \<Longrightarrow> rest s = b # cs \<Longrightarrow> consumes ok rest cs b (i_byte ops s)"
    and get_bytes: "ok s \<Longrightarrow> rest s = bs @ cs \<Longrightarrow> consumes ok rest cs bs (i_get_bytes ops s (length bs))"
    and short: "ok s \<Longrightarrow> rest s = to_le 2 h @ cs \<Longrightarrow> consumes ok rest cs h (i_short ops s)"
    and int: "ok s \<Longrightarrow> rest s = to_le 4 i @ cs \<Longrightarrow> consumes ok rest cs i (i_int ops s)"
    and long: "ok s \<Longrightarrow> rest s = to_le 8 l @ cs \<Longrightarrow> consumes ok rest cs l (i_long ops s)"

lemma take_bit_step:
  fixes v :: "'a::len word"
  assumes "k < LENGTH('a)"
  shows "take_bit k v OR push_bit k (take_bit 7 (drop_bit k v)) = take_bit (k + 7) v"
  by (rule bit_word_eqI) (auto simp: bit_simps)

text \<open>The byte \<open>b\<close> is the first one of the rest \<open>drop_bit k v\<close>, and \<open>k + 7\<close> bits have been read.\<close>

lemma ucast_low_byte:
  fixes w :: "'a::len word"
  assumes "8 \<le> LENGTH('a)"
  shows "ucast (ucast ((w AND 0x7F) OR 0x80) :: u8) AND (0x7F :: 'a word) = take_bit 7 w"
    and "ucast (ucast ((w AND 0x7F) OR 0x80) :: u8) AND (0x80 :: 'a word) \<noteq> 0"
    and "drop_bit 7 w = 0 \<Longrightarrow> ucast (ucast w :: u8) = w"
    and "drop_bit 7 w = 0 \<Longrightarrow> w AND 0x80 = 0" "drop_bit 7 w = 0 \<Longrightarrow> w AND 0x7F = w"
proof -
  have h: "(0x80 :: 'b::len word) = push_bit 7 1" by simp
  show "ucast (ucast ((w AND 0x7F) OR 0x80) :: u8) AND (0x7F :: 'a word) = take_bit 7 w"
    unfolding mask_7 h using assms by (intro bit_word_eqI) (auto simp: bit_simps simp del: push_bit_of_1)
  have "bit (ucast (ucast ((w AND 0x7F) OR 0x80) :: u8) AND (0x80 :: 'a word)) 7"
    unfolding mask_7 h using assms by (simp add: bit_simps del: push_bit_of_1)
  then show "ucast (ucast ((w AND 0x7F) OR 0x80) :: u8) AND (0x80 :: 'a word) \<noteq> 0" by auto
  assume w: "drop_bit 7 w = 0"
  have b: "n < 7" if "bit w n" for n
  proof (rule ccontr)
    assume "\<not> n < 7"
    with that have "bit (drop_bit 7 w) (n - 7)" by (simp add: bit_drop_bit_eq)
    with w show False by simp
  qed
  show "ucast (ucast w :: u8) = w" "w AND 0x7F = w"
    unfolding mask_7 by (intro bit_word_eqI; use b in \<open>force simp: bit_simps\<close>)+
  show "w AND 0x80 = 0"
    unfolding h by (intro bit_word_eqI) (use b in \<open>force simp: bit_simps simp del: push_bit_of_1\<close>)
qed

lemma hd_vint_bytes:
  fixes w :: "'a::len word"
  assumes "8 \<le> LENGTH('a)"
  shows "ucast (hd (vint_bytes w)) AND 0x7F = take_bit 7 w"
proof (cases "w AND NOT 0x7F \<noteq> 0")
  case True
  then show ?thesis using ucast_low_byte(1) [OF assms, of w] by (simp add: vint_bytes.simps [of w])
next
  case False
  then have z: "drop_bit 7 w = 0" using high_bits [of w] by simp
  then have "ucast (hd (vint_bytes w)) = w" using False ucast_low_byte(3) [OF assms z] by (simp add: vint_bytes.simps [of w])
  then show ?thesis by (simp add: take_bit_eq_mask mask_7)
qed

lemma vint_bytes_cons: "vint_bytes w = hd (vint_bytes w) # tl (vint_bytes w)"
  by (cases "w AND NOT 0x7F \<noteq> 0") (simp_all add: vint_bytes.simps [of w])

lemma drop_bit_0_take: "drop_bit n w = 0 \<Longrightarrow> w = drop_bit k v \<Longrightarrow> take_bit (k + n) v = (v :: 'a::len word)"
proof (rule bit_word_eqI)
  fix m
  assume a: "drop_bit n w = 0" "w = drop_bit k v" and "m < LENGTH('a)"
  have "m < k + n" if "bit v m"
  proof (rule ccontr)
    assume "\<not> m < k + n"
    with that a(2) have "bit (drop_bit n w) (m - (k + n))" by (simp add: bit_drop_bit_eq)
    with a(1) show False by simp
  qed
  then show "bit (take_bit (k + n) v) m = bit v m" by (auto simp: bit_take_bit_iff)
qed

lemma zig_zag_inverse:
  "zig_zag_decode_i32 (zig_zag_encode_i32 i) = i" "zig_zag_decode_i64 (zig_zag_encode_i64 l) = l"
  using zig_zag_decode_encode [of i] zig_zag_decode_encode [of l]
  unfolding zig_zag_decode_i32_def zig_zag_encode_i32_def zig_zag_decode_i64_def zig_zag_encode_i64_def
  by simp_all

definition string_bytes :: "u8 list \<Rightarrow> u8 list" where
  "string_bytes bs = vint_bytes (of_nat (length bs) :: i32) @ bs"

definition entry_bytes :: "u8 list \<times> u8 list \<Rightarrow> u8 list" where
  "entry_bytes = (\<lambda>(k, v). string_bytes k @ string_bytes v)"

lemma sint_length: "n < 2 ^ 31 \<Longrightarrow> sint (of_nat n :: i32) = int n"
  by (simp add: sint_uint unsigned_of_nat take_bit_nat_eq_self signed_take_bit_int_eq_self)

lemma rbind_for_each_Nil [simp]: "rbind r (for_each [] f) = r"
  by (cases r) simp_all

context data_source
begin

lemma var_loop:
  fixes v w :: "'a::len word"
  assumes L: "8 \<le> LENGTH('a)" "LENGTH('a) < 2 ^ 31"
  shows "ok s \<Longrightarrow> rest s = tl (vint_bytes w) @ cs \<Longrightarrow> w = drop_bit k v \<Longrightarrow> k < LENGTH('a) \<Longrightarrow>
    consumes ok rest cs v (read_var_loop ops s (ucast (hd (vint_bytes w))) (take_bit (k + 7) v) (k + 7))"
proof (induction w arbitrary: s k rule: vint_bytes.induct)
  case (1 w)
  note low = ucast_low_byte [OF L(1), of w]
  show ?case
  proof (cases "w AND NOT 0x7F \<noteq> 0")
    case True
    let ?w = "drop_bit 7 w"
    have nz: "?w \<noteq> 0" using True high_bits [of w] by simp
    have hd: "hd (vint_bytes w) = ucast ((w AND 0x7F) OR 0x80)" and tl: "tl (vint_bytes w) = vint_bytes ?w"
      using True by (simp_all add: vint_bytes.simps [of w])
    have w: "?w = drop_bit (k + 7) v" using 1(4) by (simp add: add.commute)
    have k: "k + 7 < LENGTH('a)"
    proof (rule ccontr)
      assume "\<not> k + 7 < LENGTH('a)"
      then have "drop_bit (k + 7) v = 0" by (intro bit_word_eqI) (auto simp: bit_simps dest: bit_imp_le_length)
      with w nz show False by simp
    qed
    have sh: "wrapping_shl (ucast (hd (vint_bytes ?w)) AND 0x7F) (int (k + 7)) = push_bit (k + 7) (take_bit 7 ?w)"
      using k by (simp only: wrapping_shl_int hd_vint_bytes [OF L(1)])
    have acc: "take_bit (k + 7) v OR push_bit (k + 7) (take_bit 7 ?w) = take_bit (k + 7 + 7) v"
      unfolding w using k by (rule take_bit_step)
    have "rest s = hd (vint_bytes ?w) # tl (vint_bytes ?w) @ cs" using 1(3) tl vint_bytes_cons [of ?w] by simp
    note r = this
    have step: "(let b = ucast (hd (vint_bytes ?w)); i = take_bit (k + 7) v OR wrapping_shl (b AND 0x7F) (int (k + 7)) in
        rbind (u32_add (k + 7) 7) (\<lambda>shift. read_var_loop ops s' b i shift)) =
      read_var_loop ops s' (ucast (hd (vint_bytes ?w))) (take_bit (k + 7 + 7) v) (k + 7 + 7)" for s'
      unfolding Let_def sh acc using k L(2) by simp
    have "consumes ok rest cs v (rbind (i_byte ops s) (\<lambda>(b, s).
        let b = ucast b; i = take_bit (k + 7) v OR wrapping_shl (b AND 0x7F) (int (k + 7)) in
        rbind (u32_add (k + 7) 7) (\<lambda>shift. read_var_loop ops s b i shift)))"
      by (rule consumes_rbind [OF byte [OF 1(2) r]]) (simp only: prod.case step 1(1) [OF True _ _ w k])
    then show ?thesis using low(2) by (simp add: read_var_loop.simps [of ops s] hd)
  next
    case False
    then have z: "drop_bit 7 w = 0" using high_bits [of w] by simp
    have v: "take_bit (k + 7) v = v" using z 1(4) by (rule drop_bit_0_take)
    have bs: "vint_bytes w = [ucast w]" using False by (simp add: vint_bytes.simps [of w])
    have "read_var_loop ops s (ucast (hd (vint_bytes w))) v (k + 7) = Inr (v, s)"
      unfolding bs list.sel low(3) [OF z] by (subst read_var_loop.simps) (simp add: low(4) [OF z])
    then show ?thesis using 1(2,3) unfolding v by (simp add: consumes_def bs)
  qed
qed

lemma var:
  fixes v :: "'a::len word"
  assumes "8 \<le> LENGTH('a)" "LENGTH('a) < 2 ^ 31" "ok s" "rest s = vint_bytes v @ cs"
  shows "consumes ok rest cs v (read_var ops s :: ('a word \<times> 's) res)"
proof -
  have r: "rest s = hd (vint_bytes v) # tl (vint_bytes v) @ cs" using assms(4) vint_bytes_cons [of v] by simp
  show ?thesis
    unfolding read_var_def
    by (rule consumes_rbind [OF byte [OF assms(3) r]]) (use assms(1,2) var_loop [of _ v cs 0 v] in \<open>simp add: hd_vint_bytes\<close>)
qed

lemma vint: "ok s \<Longrightarrow> rest s = vint_bytes v @ cs \<Longrightarrow> consumes ok rest cs v (read_vint ops s)"
  unfolding read_vint_def by (rule var) simp_all

lemma vlong: "ok s \<Longrightarrow> rest s = vint_bytes v @ cs \<Longrightarrow> consumes ok rest cs v (read_vlong ops s)"
  unfolding read_vlong_def by (rule var) simp_all

lemma zint: "ok s \<Longrightarrow> rest s = vint_bytes (zig_zag_encode_i32 v) @ cs \<Longrightarrow> consumes ok rest cs v (read_zint ops s)"
  unfolding read_zint_def by (rule consumes_rbind [OF vint]) (auto simp: consumes_def zig_zag_inverse)

lemma zlong: "ok s \<Longrightarrow> rest s = vint_bytes (zig_zag_encode_i64 v) @ cs \<Longrightarrow> consumes ok rest cs v (read_zlong ops s)"
  unfolding read_zlong_def by (rule consumes_rbind [OF vlong]) (auto simp: consumes_def zig_zag_inverse)

lemma vstring:
  assumes "ok s" "rest s = string_bytes bs @ cs" "length bs < 2 ^ 31" "valid_utf8 bs"
  shows "consumes ok rest cs bs (read_string ops s)"
proof -
  have r: "rest s = vint_bytes (of_nat (length bs) :: i32) @ bs @ cs" using assms(2) by (simp add: string_bytes_def)
  show ?thesis
    unfolding read_string_def
    by (rule consumes_rbind [OF vint [OF assms(1) r]])
      (use assms(3,4) in \<open>auto simp: usize_of_i32_def sint_length intro!: consumes_rbind [OF get_bytes] consumes_Inr\<close>)
qed

lemma entries:
  assumes "length is = length es" "ok s" "rest s = concat (map entry_bytes es) @ cs"
    and "\<forall>(k, v) \<in> set es. valid_utf8 k \<and> length k < 2 ^ 31 \<and> valid_utf8 v \<and> length v < 2 ^ 31"
  shows "consumes ok rest cs (m ++ map_of (rev es)) (for_each is (\<lambda>_. read_entry ops) (m, s))"
  using assms
proof (induction "is" es arbitrary: s m rule: list_induct2)
  case (Cons i "is" e es)
  obtain k v where e: "e = (k, v)" by fastforce
  have "consumes ok rest (concat (map entry_bytes es) @ cs) (m(k \<mapsto> v)) (read_entry ops (m, s))"
  proof -
    have r: "rest s = string_bytes k @ string_bytes v @ concat (map entry_bytes es) @ cs"
      and kv: "length k < 2 ^ 31" "valid_utf8 k" "length v < 2 ^ 31" "valid_utf8 v"
      using Cons.prems e by (simp_all add: entry_bytes_def)
    show ?thesis
      unfolding read_entry_def prod.case
      by (rule consumes_rbind [OF vstring [OF Cons.prems(1) r kv(1,2)]])
        (auto intro!: consumes_rbind [OF vstring [OF _ _ kv(3,4)]] consumes_Inr)
  qed
  then show ?case
    using Cons e by (auto intro!: consumes_rbind simp: map_add_upd_left)
qed (simp add: consumes_def)

lemma elements:
  assumes "length is = length es" "ok s" "rest s = concat (map string_bytes es) @ cs"
    and "\<forall>v \<in> set es. valid_utf8 v \<and> length v < 2 ^ 31"
  shows "consumes ok rest cs (m \<union> set es) (for_each is (\<lambda>_. read_element ops) (m, s))"
  using assms
proof (induction "is" es arbitrary: s m rule: list_induct2)
  case (Cons i "is" v es)
  have "consumes ok rest (concat (map string_bytes es) @ cs) (insert v m) (read_element ops (m, s))"
    unfolding read_element_def prod.case
    by (rule consumes_rbind [OF vstring]) (use Cons.prems in \<open>auto intro: consumes_Inr\<close>)
  then have "consumes ok rest cs (insert v m \<union> set es) (for_each (i # is) (\<lambda>_. read_element ops) (m, s))"
    using Cons by (auto intro!: consumes_rbind simp del: Un_insert_left)
  then show ?case by simp
qed (simp add: consumes_def)

lemma map_of_strings:
  assumes "ok s" "rest s = vint_bytes (of_nat (length es) :: i32) @ concat (map entry_bytes es) @ cs" "length es < 2 ^ 31"
    and "\<forall>(k, v) \<in> set es. valid_utf8 k \<and> length k < 2 ^ 31 \<and> valid_utf8 v \<and> length v < 2 ^ 31"
  shows "consumes ok rest cs (map_of (rev es)) (read_map_of_strings ops s)"
  unfolding read_map_of_strings_def
proof (rule consumes_rbind [OF vint [OF assms(1,2)]])
  fix s'
  assume s': "ok s'" "rest s' = concat (map entry_bytes es) @ cs"
  have *: "consumes ok rest cs (map_of (rev es)) (for_each is (\<lambda>_. read_entry ops) (Map.empty, s'))"
    if "length is = length es" for "is" :: "nat list"
    using entries [OF that s' assms(4), of Map.empty] by simp
  have m: "read_medium_string_map ops s' (int (length es)) = for_each [0..<length es] (\<lambda>_. read_entry ops) (Map.empty, s')"
    if "8 \<le> length es"
  proof -
    have "[0..<length es] = [0..<4] @ [4..<length es]" using that upt_add_eq_append [of 0 4 "length es - 4"] by simp
    then show ?thesis by (simp only: read_medium_string_map_def nat_int for_each_append)
  qed
  show "consumes ok rest cs (map_of (rev es)) (case (of_nat (length es) :: i32, s') of (n, s) \<Rightarrow>
     let entry_count = sint n in
     if 8 \<le> entry_count \<and> entry_count \<le> 1024 then read_medium_string_map ops s entry_count
     else if entry_count = 0 then Inr (Map.empty, s)
     else if entry_count = 1 then read_entry ops (Map.empty, s)
     else for_each [0..<nat entry_count] (\<lambda>_. read_entry ops) (Map.empty, s))"
    unfolding prod.case Let_def sint_length [OF assms(3)] using *[of "[0..<length es]"] m
    by (cases "length es = 0"; cases "length es = 1") auto
qed

end

context data_source
begin

lemma set_of_strings:
  assumes "ok s" "rest s = vint_bytes (of_nat (length es) :: i32) @ concat (map string_bytes es) @ cs" "length es < 2 ^ 31"
    and "\<forall>v \<in> set es. valid_utf8 v \<and> length v < 2 ^ 31"
  shows "consumes ok rest cs (set es) (read_set_of_strings ops s)"
  unfolding read_set_of_strings_def
proof (rule consumes_rbind [OF vint [OF assms(1,2)]])
  fix s'
  assume s': "ok s'" "rest s' = concat (map string_bytes es) @ cs"
  have *: "consumes ok rest cs (set es) (for_each is (\<lambda>_. read_element ops) ({}, s'))"
    if "length is = length es" for "is" :: "nat list"
    using elements [OF that s' assms(4), of "{}"] by simp
  have m: "read_medium_string_set ops s' (int (length es)) = for_each [0..<length es] (\<lambda>_. read_element ops) ({}, s')"
    if "8 \<le> length es"
  proof -
    have "[0..<length es] = [0..<4] @ [4..<length es]" using that upt_add_eq_append [of 0 4 "length es - 4"] by simp
    then show ?thesis by (simp only: read_medium_string_set_def nat_int for_each_append)
  qed
  show "consumes ok rest cs (set es) (case (of_nat (length es) :: i32, s') of (n, s) \<Rightarrow>
     let entry_count = sint n in
     if 8 \<le> entry_count \<and> entry_count \<le> 1024 then read_medium_string_set ops s entry_count
     else if entry_count = 0 then Inr ({}, s)
     else if entry_count = 1 then read_element ops ({}, s)
     else for_each [0..<nat entry_count] (\<lambda>_. read_element ops) ({}, s))"
    unfolding prod.case Let_def sint_length [OF assms(3)] using *[of "[0..<length es]"] m
    by (cases "length es = 0"; cases "length es = 1") auto
qed

end

lemma appends_for_each:
  assumes "\<And>e s. e \<in> set es \<Longrightarrow> I s \<Longrightarrow> length (g e) \<le> m s \<Longrightarrow> appends I w m s (g e) (f e s)"
  shows "I s \<Longrightarrow> length (concat (map g es)) \<le> m s \<Longrightarrow> appends I w m s (concat (map g es)) (for_each es f s)"
  using assms
proof (induction es arbitrary: s)
  case (Cons e es)
  have "appends I w m s (g e @ concat (map g es)) (rbind (f e s) (for_each es f))"
    by (rule appends_rbind) (use Cons in auto)
  then show ?case by simp
qed (simp add: appends_nil)

context data_sink
begin

lemma string': "ok s \<Longrightarrow> length (string_bytes bs) \<le> room s \<Longrightarrow> appends ok written room s (string_bytes bs) (write_string ops s bs)"
  using vstring by (simp add: string_bytes_def)

lemma map_of_strings:
  assumes "ok s" "length (vint_bytes (of_nat (length es) :: i32) @ concat (map entry_bytes es)) \<le> room s"
  shows "appends ok written room s (vint_bytes (of_nat (length es) :: i32) @ concat (map entry_bytes es)) (write_map_of_strings ops s es)"
  unfolding write_map_of_strings_def write_vint_def
  by (intro appends_rbind var appends_for_each)
    (use assms in \<open>auto simp: entry_bytes_def split: prod.splits intro!: appends_rbind string'\<close>)

lemma set_of_strings:
  assumes "ok s" "length (vint_bytes (of_nat (length es) :: i32) @ concat (map string_bytes es)) \<le> room s"
  shows "appends ok written room s (vint_bytes (of_nat (length es) :: i32) @ concat (map string_bytes es)) (write_set_of_strings ops s es)"
  unfolding write_set_of_strings_def write_vint_def
  by (intro appends_rbind var appends_for_each) (use assms in \<open>auto intro!: string'\<close>)

end

section \<open>Sequences of values\<close>

text \<open>A value of one of the data types, what it is encoded to, and the calls that write and read it.\<close>

datatype field = F_byte u8 | F_short i16 | F_int i32 | F_long i64 | F_vint i32 | F_zint i32 | F_vlong i64 | F_zlong i64
  | F_string "u8 list"

datatype kind = K_byte | K_short | K_int | K_long | K_vint | K_zint | K_vlong | K_zlong | K_string

fun kind_of :: "field \<Rightarrow> kind" where
  "kind_of (F_byte _) = K_byte" | "kind_of (F_short _) = K_short" | "kind_of (F_int _) = K_int" | "kind_of (F_long _) = K_long"
| "kind_of (F_vint _) = K_vint" | "kind_of (F_zint _) = K_zint" | "kind_of (F_vlong _) = K_vlong" | "kind_of (F_zlong _) = K_zlong"
| "kind_of (F_string _) = K_string"

fun field_bytes :: "field \<Rightarrow> u8 list" where
  "field_bytes (F_byte b) = [b]"
| "field_bytes (F_short h) = to_le 2 h"
| "field_bytes (F_int i) = to_le 4 i"
| "field_bytes (F_long l) = to_le 8 l"
| "field_bytes (F_vint i) = vint_bytes i"
| "field_bytes (F_zint i) = vint_bytes (zig_zag_encode_i32 i)"
| "field_bytes (F_vlong l) = vint_bytes l"
| "field_bytes (F_zlong l) = vint_bytes (zig_zag_encode_i64 l)"
| "field_bytes (F_string bs) = string_bytes bs"

fun field_ok :: "field \<Rightarrow> bool" where
  "field_ok (F_vlong l) \<longleftrightarrow> 0 \<le> sint l"
| "field_ok (F_string bs) \<longleftrightarrow> valid_utf8 bs \<and> length bs < 2 ^ 31"
| "field_ok _ \<longleftrightarrow> True"

fun write_field :: "'s out_ops \<Rightarrow> field \<Rightarrow> 's \<Rightarrow> 's res" where
  "write_field ops (F_byte b) s = o_byte ops s b"
| "write_field ops (F_short h) s = o_short ops s h"
| "write_field ops (F_int i) s = o_int ops s i"
| "write_field ops (F_long l) s = o_long ops s l"
| "write_field ops (F_vint i) s = write_vint ops s i"
| "write_field ops (F_zint i) s = write_zint ops s i"
| "write_field ops (F_vlong l) s = write_vlong ops s l"
| "write_field ops (F_zlong l) s = write_zlong ops s l"
| "write_field ops (F_string bs) s = write_string ops s bs"

definition tag :: "('v \<Rightarrow> field) \<Rightarrow> ('v \<times> 's) res \<Rightarrow> (field \<times> 's) res" where
  "tag f r = rbind r (\<lambda>(v, s). Inr (f v, s))"

fun read_field :: "'s in_ops \<Rightarrow> kind \<Rightarrow> 's \<Rightarrow> (field \<times> 's) res" where
  "read_field ops K_byte s = tag F_byte (i_byte ops s)"
| "read_field ops K_short s = tag F_short (i_short ops s)"
| "read_field ops K_int s = tag F_int (i_int ops s)"
| "read_field ops K_long s = tag F_long (i_long ops s)"
| "read_field ops K_vint s = tag F_vint (read_vint ops s)"
| "read_field ops K_zint s = tag F_zint (read_zint ops s)"
| "read_field ops K_vlong s = tag F_vlong (read_vlong ops s)"
| "read_field ops K_zlong s = tag F_zlong (read_zlong ops s)"
| "read_field ops K_string s = tag F_string (read_string ops s)"

definition write_fields :: "'s out_ops \<Rightarrow> field list \<Rightarrow> 's \<Rightarrow> 's res" where
  "write_fields ops fs s = for_each fs (write_field ops) s"

fun read_fields :: "'s in_ops \<Rightarrow> kind list \<Rightarrow> 's \<Rightarrow> (field list \<times> 's) res" where
  "read_fields ops [] s = Inr ([], s)"
| "read_fields ops (k # ks) s = rbind (read_field ops k s) (\<lambda>(f, s). rbind (read_fields ops ks s) (\<lambda>(fs, s). Inr (f # fs, s)))"

context data_sink
begin

lemma write_field:
  "ok s \<Longrightarrow> field_ok f \<Longrightarrow> length (field_bytes f) \<le> room s \<Longrightarrow> appends ok written room s (field_bytes f) (write_field ops f s)"
  by (cases f) (simp_all add: byte short int long var string' write_vint_def write_zint_def write_vlong_def write_zlong_def
      write_signed_vlong_def)

lemma write_fields:
  "ok s \<Longrightarrow> \<forall>f \<in> set fs. field_ok f \<Longrightarrow> length (concat (map field_bytes fs)) \<le> room s \<Longrightarrow>
   appends ok written room s (concat (map field_bytes fs)) (write_fields ops fs s)"
  unfolding write_fields_def by (rule appends_for_each) (simp_all add: write_field)

end

context data_source
begin

lemma read_field:
  assumes "ok s" "rest s = field_bytes f @ cs" "field_ok f"
  shows "consumes ok rest cs f (read_field ops (kind_of f) s)"
proof -
  have t: "consumes ok rest cs (g v) (tag g r)" if "consumes ok rest cs v r" for g :: "'v \<Rightarrow> field" and v r
    using that by (auto simp: consumes_def tag_def)
  show ?thesis
    using assms by (cases f) (auto intro!: t byte short int long vint zint vlong zlong vstring)
qed

lemma read_fields:
  "ok s \<Longrightarrow> rest s = concat (map field_bytes fs) @ cs \<Longrightarrow> \<forall>f \<in> set fs. field_ok f \<Longrightarrow>
   consumes ok rest cs fs (read_fields ops (map kind_of fs) s)"
proof (induction fs arbitrary: s)
  case (Cons f fs)
  have "consumes ok rest (concat (map field_bytes fs) @ cs) f (read_field ops (kind_of f) s)"
    using Cons.prems by (intro read_field) auto
  then show ?case
    using Cons by (auto intro!: consumes_rbind consumes_Inr)
qed (simp add: consumes_def)

end

section \<open>The byte arrays meet the contracts\<close>

definition bo_ok :: "byte_array_output \<Rightarrow> bool" where
  "bo_ok s \<longleftrightarrow> bo_pos s \<le> bo_limit s \<and> bo_limit s \<le> length (bo_bytes s)"

definition bo_written :: "byte_array_output \<Rightarrow> u8 list" where
  "bo_written s = take (bo_pos s) (bo_bytes s)"

definition bo_room :: "byte_array_output \<Rightarrow> nat" where
  "bo_room s = bo_limit s - bo_pos s"

lemma bo_patch:
  assumes "bo_ok s" "length bs \<le> bo_room s"
  shows "appends bo_ok bo_written bo_room s bs
    (Inr (s\<lparr>bo_bytes := take (bo_pos s) (bo_bytes s) @ bs @ drop (bo_pos s + length bs) (bo_bytes s), bo_pos := bo_pos s + length bs\<rparr>))"
  using assms by (auto simp: appends_def bo_ok_def bo_written_def bo_room_def)

lemma bo_fits:
  assumes "bo_ok s" "n \<le> bo_room s"
  shows "bo_pos s + n \<le> bo_limit s" "bo_pos s + n \<le> length (bo_bytes s)"
  using assms by (auto simp: bo_ok_def bo_room_def)

interpretation bo: data_sink bo_ops bo_ok bo_written bo_room
proof unfold_locales
  fix s :: byte_array_output and b
  assume s: "bo_ok s" "1 \<le> bo_room s"
  then have lt: "bo_pos s < bo_limit s" "bo_pos s < length (bo_bytes s)" by (auto simp: bo_ok_def bo_room_def)
  then have "(bo_bytes s)[bo_pos s := b] = take (bo_pos s) (bo_bytes s) @ [b] @ drop (bo_pos s + length [b]) (bo_bytes s)"
    by (simp add: upd_conv_take_nth_drop)
  with lt s bo_patch [of s "[b]"] show "appends bo_ok bo_written bo_room s [b] (o_byte bo_ops s b)"
    by (simp add: bo_ops_def bo_write_byte_def)
next
  fix s :: byte_array_output and len off and bs :: "u8 list"
  assume "bo_ok s" "len \<le> bo_room s" "off + len \<le> length bs"
  with bo_fits [of s len] bo_patch [of s "take len (drop off bs)"]
  show "appends bo_ok bo_written bo_room s (take len (drop off bs)) (o_bytes_range bo_ops s bs off len)"
    by (simp add: bo_ops_def bo_write_bytes_range_def)
next
  fix s :: byte_array_output and h
  assume "bo_ok s" "2 \<le> bo_room s"
  with bo_fits [of s 2] bo_patch [of s "to_le 2 h"] show "appends bo_ok bo_written bo_room s (to_le 2 h) (o_short bo_ops s h)"
    by (simp add: bo_ops_def bo_write_short_def i16_le.put)
next
  fix s :: byte_array_output and i
  assume "bo_ok s" "4 \<le> bo_room s"
  with bo_fits [of s 4] bo_patch [of s "to_le 4 i"] show "appends bo_ok bo_written bo_room s (to_le 4 i) (o_int bo_ops s i)"
    by (simp add: bo_ops_def bo_write_int_def i32_le.put)
next
  fix s :: byte_array_output and l
  assume "bo_ok s" "8 \<le> bo_room s"
  with bo_fits [of s 8] bo_patch [of s "to_le 8 l"] show "appends bo_ok bo_written bo_room s (to_le 8 l) (o_long bo_ops s l)"
    by (simp add: bo_ops_def bo_write_long_def i64_le.put)
qed

definition bi_ok :: "u8 list \<Rightarrow> byte_array_input \<Rightarrow> bool" where
  "bi_ok bytes s \<longleftrightarrow> bi_bytes s = bytes \<and> bi_pos s \<le> length bytes"

definition bi_rest :: "byte_array_input \<Rightarrow> u8 list" where
  "bi_rest s = drop (bi_pos s) (bi_bytes s)"

lemma bi_move:
  assumes "bi_ok bytes s" "bi_rest s = bs @ cs"
  shows "take (length bs) (drop (bi_pos s) (bi_bytes s)) = bs" "bi_pos s + length bs \<le> length (bi_bytes s)"
    "consumes (bi_ok bytes) bi_rest cs v (Inr (v, s\<lparr>bi_pos := bi_pos s + length bs\<rparr>))"
proof -
  have l: "length (bi_bytes s) = bi_pos s + length (bs @ cs)" using assms by (metis bi_ok_def bi_rest_def le_add_diff_inverse length_drop)
  show "take (length bs) (drop (bi_pos s) (bi_bytes s)) = bs" using assms by (simp add: bi_rest_def)
  show "bi_pos s + length bs \<le> length (bi_bytes s)" using l by simp
  have "drop (bi_pos s + length bs) (bi_bytes s) = cs"
    using arg_cong [OF assms(2), of "drop (length bs)"] by (simp add: bi_rest_def add.commute)
  with l assms(1) show "consumes (bi_ok bytes) bi_rest cs v (Inr (v, s\<lparr>bi_pos := bi_pos s + length bs\<rparr>))"
    by (simp add: consumes_def bi_ok_def bi_rest_def)
qed

interpretation bi: data_source bi_ops "bi_ok bytes" bi_rest for bytes
proof unfold_locales
  fix bytes and s :: byte_array_input and b and cs
  assume s: "bi_ok bytes s" "bi_rest s = b # cs"
  then have "bi_bytes s ! bi_pos s = b" "bi_pos s < length (bi_bytes s)"
    using bi_move(2) [of bytes s "[b]" cs] by (simp_all add: bi_rest_def nth_via_drop)
  then show "consumes (bi_ok bytes) bi_rest cs b (i_byte bi_ops s)"
    using bi_move(3) [of bytes s "[b]" cs] s by (simp add: bi_ops_def bi_read_byte_def)
next
  fix bytes and s :: byte_array_input and bs cs
  assume "bi_ok bytes s" "bi_rest s = bs @ cs"
  note bi_move [OF this]
  then show "consumes (bi_ok bytes) bi_rest cs bs (i_get_bytes bi_ops s (length bs))"
    by (simp add: bi_ops_def bi_get_bytes_def)
next
  fix bytes and s :: byte_array_input and h :: i16 and cs
  assume "bi_ok bytes s" "bi_rest s = to_le 2 h @ cs"
  note bi_move [OF this]
  then show "consumes (bi_ok bytes) bi_rest cs h (i_short bi_ops s)"
    by (simp add: bi_ops_def bi_read_short_def i16_le.get from_to_le)
next
  fix bytes and s :: byte_array_input and i :: i32 and cs
  assume "bi_ok bytes s" "bi_rest s = to_le 4 i @ cs"
  note bi_move [OF this]
  then show "consumes (bi_ok bytes) bi_rest cs i (i_int bi_ops s)"
    by (simp add: bi_ops_def bi_read_int_def i32_le.get from_to_le)
next
  fix bytes and s :: byte_array_input and l :: i64 and cs
  assume "bi_ok bytes s" "bi_rest s = to_le 8 l @ cs"
  note bi_move [OF this]
  then show "consumes (bi_ok bytes) bi_rest cs l (i_long bi_ops s)"
    by (simp add: bi_ops_def bi_read_long_def i64_le.get from_to_le)
qed

section \<open>Copying from an input to an output\<close>

locale data_copy = sink: data_sink wops ook written room + source: data_source rops iok rest
  for wops :: "'o out_ops" and ook and written and room and rops :: "'i in_ops" and iok and rest
begin

lemma copy_bytes:
  "ook out \<Longrightarrow> iok input \<Longrightarrow> rest input = bs @ cs \<Longrightarrow> length bs \<le> room out \<Longrightarrow>
   \<exists>out' input'. copy_bytes_impl wops rops out input (length bs) = Inr (out', input') \<and> ook out' \<and> iok input'
     \<and> written out' = written out @ bs \<and> rest input' = cs"
proof (induction "length bs" arbitrary: bs out input rule: less_induct)
  case less
  show ?case
  proof (cases "bs = []")
    case True
    then show ?thesis using less.prems by (simp add: copy_bytes_impl.simps)
  next
    case False
    define n where "n = min (length bs) COPY_BUFFER_SIZE"
    have n: "0 < n" "n \<le> length bs" using False by (simp_all add: n_def COPY_BUFFER_SIZE_def)
    define xs ys where "xs = take n bs" and "ys = drop n bs"
    have bs: "bs = xs @ ys" "length xs = n" "length ys = length bs - n" using n by (simp_all add: xs_def ys_def)
    have "rest input = xs @ ys @ cs" using less.prems(3) unfolding bs(1) by simp
    then have "consumes iok rest (ys @ cs) xs (i_get_bytes rops input n)"
      using source.get_bytes [OF less.prems(2)] bs(2) by blast
    then obtain input1 where i1: "i_get_bytes rops input n = Inr (xs, input1)" "iok input1" "rest input1 = ys @ cs"
      by (auto simp: consumes_def)
    have "appends ook written room out xs (o_bytes_range wops out xs 0 n)"
      using sink.bytes_whole [OF less.prems(1), of xs] less.prems(4) bs(2) n(2) by simp
    then obtain out1 where o1: "write_bytes_with_len wops out xs n = Inr out1" "ook out1" "written out1 = written out @ xs"
      "room out1 + n = room out"
      using bs(2) by (auto simp: appends_def write_bytes_with_len_def)
    have "length ys < length bs" "length ys \<le> room out1" using n bs(3) less.prems(4) o1(4) by linarith+
    from less.hyps [OF this(1) o1(2) i1(2,3) this(2)] obtain out2 input2 where
      r: "copy_bytes_impl wops rops out1 input1 (length ys) = Inr (out2, input2)" "ook out2" "iok input2"
      "written out2 = written out1 @ ys" "rest input2 = cs"
      by auto
    have "copy_bytes_impl wops rops out input (length bs) = copy_bytes_impl wops rops out1 input1 (length ys)"
      using False i1(1) o1(1) bs(3) by (subst copy_bytes_impl.simps) (simp add: Let_def flip: n_def)
    then show ?thesis using r o1(3) arg_cong [OF bs(1), of "(@) (written out)"] by auto
  qed
qed

end

interpretation bo_bi: data_copy bo_ops bo_ok bo_written bo_room bi_ops "bi_ok bytes" bi_rest for bytes
  by unfold_locales

section \<open>Properties\<close>

text \<open>What an output has appended, an input on the same array that starts there reads.\<close>

lemma read_back:
  assumes "bo_ok out" "appends bo_ok bo_written bo_room out bs r"
  obtains out' where "r = Inr out'" "bo_ok out'" "bo_pos out' = bo_pos out + length bs"
    and "bi_ok (bo_bytes out') (bi_with_range (bo_bytes out') (bo_pos out) n)"
    and "bi_rest (bi_with_range (bo_bytes out') (bo_pos out) n) = bs @ drop (bo_pos out') (bo_bytes out')"
proof -
  obtain out' where o: "r = Inr out'" "bo_ok out'" "bo_written out' = bo_written out @ bs"
    using assms(2) by (auto simp: appends_def)
  have len: "length (bo_written out) = bo_pos out" "length (bo_written out') = bo_pos out'"
    using assms(1) o(2) by (auto simp: bo_written_def bo_ok_def)
  then have pos: "bo_pos out' = bo_pos out + length bs" using o(3) by simp
  have "bo_bytes out' = bo_written out' @ drop (bo_pos out') (bo_bytes out')" by (simp add: bo_written_def)
  then have split: "bo_bytes out' = bo_written out @ bs @ drop (bo_pos out') (bo_bytes out')" unfolding o(3) by simp
  have "drop (bo_pos out) (bo_bytes out') = bs @ drop (bo_pos out') (bo_bytes out')"
    by (subst split) (simp add: len(1))
  then show ?thesis
    using that [of out'] pos o(1,2) by (simp add: bi_rest_def bi_with_range_def bi_ok_def bo_ok_def)
qed

lemma bi_pos_rest:
  assumes "bi_ok bytes s" "bi_rest s = drop p bytes" "p \<le> length bytes"
  shows "bi_pos s = p"
proof -
  have "length bytes - bi_pos s = length bytes - p"
    using arg_cong [OF assms(2), of length] assms(1) by (simp add: bi_rest_def bi_ok_def)
  moreover have "bi_pos s \<le> length bytes" using assms(1) by (simp add: bi_ok_def)
  ultimately show ?thesis using assms(3) by linarith
qed

text \<open>
  C26. Any sequence of bytes, shorts, ints, longs, variable-length and zig-zag ints and longs and strings
  that a \<^verbatim>\<open>ByteArrayDataOutput\<close> has room for is written without an error, and a \<^verbatim>\<open>ByteArrayDataInput\<close> on the
  same array reads the same values back, up to the position after the last byte written. The
  variable-length longs must not be negative and the strings are valid UTF-8 of less than \<open>2 ^ 31\<close> bytes.
\<close>

theorem data_roundtrip:
  assumes "bo_ok out" "\<forall>f \<in> set fs. field_ok f" "length (concat (map field_bytes fs)) \<le> bo_room out"
  shows "\<exists>out' input'. write_fields bo_ops fs out = Inr out' \<and> bo_ok out'
    \<and> read_fields bi_ops (map kind_of fs) (bi_with_range (bo_bytes out') (bo_pos out) n) = Inr (fs, input')
    \<and> bi_pos input' = bo_pos out' \<and> bo_pos out' = bo_pos out + length (concat (map field_bytes fs))"
proof -
  obtain out' where o: "write_fields bo_ops fs out = Inr out'" "bo_ok out'"
      "bo_pos out' = bo_pos out + length (concat (map field_bytes fs))"
    and "bi_ok (bo_bytes out') (bi_with_range (bo_bytes out') (bo_pos out) n)"
      "bi_rest (bi_with_range (bo_bytes out') (bo_pos out) n) = concat (map field_bytes fs) @ drop (bo_pos out') (bo_bytes out')"
    by (rule read_back [OF assms(1) bo.write_fields [OF assms]])
  from bi.read_fields [OF this(4,5) assms(2)] obtain input' where
    i: "read_fields bi_ops (map kind_of fs) (bi_with_range (bo_bytes out') (bo_pos out) n) = Inr (fs, input')"
      "bi_ok (bo_bytes out') input'" "bi_rest input' = drop (bo_pos out') (bo_bytes out')" by (auto simp: consumes_def)
  have "bi_pos input' = bo_pos out'" using i(2,3) by (rule bi_pos_rest) (use o(2) in \<open>simp add: bo_ok_def\<close>)
  with o i show ?thesis by blast
qed

theorem data_roundtrip_witness:
  "\<exists>out' input'. write_fields bo_ops [F_vint 300, F_zlong (-1), F_string [0x41, 0xC3, 0xA9]] (bo_with_bytes (replicate 10 0)) = Inr out'
    \<and> read_fields bi_ops [K_vint, K_zlong, K_string] (bi_with_range (bo_bytes out') 0 10) =
        Inr ([F_vint 300, F_zlong (-1), F_string [0x41, 0xC3, 0xA9]], input')"
proof -
  let ?fs = "[F_vint 300, F_zlong (-1), F_string [0x41, 0xC3, 0xA9]]"
  have b: "concat (map field_bytes ?fs) = [0xAC, 0x02, 0x01, 0x03, 0x41, 0xC3, 0xA9]" by code_simp
  have "bo_ok (bo_with_bytes (replicate 10 0))" "bo_room (bo_with_bytes (replicate 10 0)) = 10"
    by (simp_all add: bo_ok_def bo_room_def bo_with_bytes_def bo_with_range_def)
  moreover have "valid_utf8 [0x41, 0xC3, 0xA9]" by code_simp
  ultimately show ?thesis
    using data_roundtrip [of "bo_with_bytes (replicate 10 0)" ?fs 10] unfolding b
    by (auto simp: bo_with_bytes_def bo_with_range_def)
qed

text \<open>
  C27. A map and a set of strings are read back as written, whatever the order of iteration: for
  every list of entries with distinct keys the reader returns the map of these entries, through
  each of its branches (empty, one entry, medium and other sizes).
\<close>

theorem string_collections_roundtrip:
  assumes "bo_ok out" "distinct (map fst es)" "length es < 2 ^ 31" "length vs < 2 ^ 31"
    and "\<forall>(k, v) \<in> set es. valid_utf8 k \<and> length k < 2 ^ 31 \<and> valid_utf8 v \<and> length v < 2 ^ 31"
    and "\<forall>v \<in> set vs. valid_utf8 v \<and> length v < 2 ^ 31"
    and "length (vint_bytes (of_nat (length es) :: i32) @ concat (map entry_bytes es)) \<le> bo_room out"
    and "length (vint_bytes (of_nat (length vs) :: i32) @ concat (map string_bytes vs)) \<le> bo_room out"
  shows "(\<exists>out' input'. write_map_of_strings bo_ops out es = Inr out' \<and>
      read_map_of_strings bi_ops (bi_with_range (bo_bytes out') (bo_pos out) n) = Inr (map_of es, input'))
    \<and> (\<exists>out' input'. write_set_of_strings bo_ops out vs = Inr out' \<and>
      read_set_of_strings bi_ops (bi_with_range (bo_bytes out') (bo_pos out) n) = Inr (set vs, input'))"
proof
  from read_back [OF assms(1) bo.map_of_strings [OF assms(1,7)], of n]
  obtain out' where o: "write_map_of_strings bo_ops out es = Inr out'"
    and r: "bi_ok (bo_bytes out') (bi_with_range (bo_bytes out') (bo_pos out) n)"
      "bi_rest (bi_with_range (bo_bytes out') (bo_pos out) n) =
        vint_bytes (of_nat (length es) :: i32) @ concat (map entry_bytes es) @ drop (bo_pos out') (bo_bytes out')"
    by (metis append.assoc)
  have "map_of (rev es) = map_of es" using assms(2) by (subst map_of_inject_set) (simp_all flip: rev_map)
  with bi.map_of_strings [OF r assms(3,5)] o
  show "\<exists>out' input'. write_map_of_strings bo_ops out es = Inr out' \<and>
      read_map_of_strings bi_ops (bi_with_range (bo_bytes out') (bo_pos out) n) = Inr (map_of es, input')"
    by (auto simp: consumes_def)
next
  from read_back [OF assms(1) bo.set_of_strings [OF assms(1,8)], of n]
  obtain out' where o: "write_set_of_strings bo_ops out vs = Inr out'"
    and r: "bi_ok (bo_bytes out') (bi_with_range (bo_bytes out') (bo_pos out) n)"
      "bi_rest (bi_with_range (bo_bytes out') (bo_pos out) n) =
        vint_bytes (of_nat (length vs) :: i32) @ concat (map string_bytes vs) @ drop (bo_pos out') (bo_bytes out')"
    by (metis append.assoc)
  from bi.set_of_strings [OF r assms(4,6)] o
  show "\<exists>out' input'. write_set_of_strings bo_ops out vs = Inr out' \<and>
      read_set_of_strings bi_ops (bi_with_range (bo_bytes out') (bo_pos out) n) = Inr (set vs, input')"
    by (auto simp: consumes_def)
qed

theorem string_collections_roundtrip_witness:
  "\<exists>out' input'. write_set_of_strings bo_ops (bo_with_bytes (replicate 10 0)) [[0x41], [0x42]] = Inr out' \<and>
     read_set_of_strings bi_ops (bi_with_range (bo_bytes out') 0 5) = Inr ({[0x41], [0x42]}, input')"
proof -
  have "bo_ok (bo_with_bytes (replicate 10 0))" "bo_room (bo_with_bytes (replicate 10 0)) = 10" "bo_pos (bo_with_bytes (replicate 10 0)) = 0"
    by (simp_all add: bo_ok_def bo_room_def bo_with_bytes_def bo_with_range_def)
  moreover have "valid_utf8 [0x41]" "valid_utf8 [0x42]" by code_simp+
  moreover have "vint_bytes (2 :: i32) @ concat (map string_bytes [[0x41], [0x42]]) = [2, 1, 0x41, 1, 0x42]"
    "vint_bytes (0 :: i32) = [0]" by code_simp+
  ultimately show ?thesis
    using string_collections_roundtrip [of "bo_with_bytes (replicate 10 0)" "[]" "[[0x41], [0x42]]" 5] by simp
qed

text \<open>
  \<open>varint_size m n\<close>: the number \<open>m\<close> has \<open>n\<close> digits of seven bits. \<open>takes_bytes out m r\<close>: the write with result \<open>r\<close> of a
  number of that many digits takes exactly one byte per digit of the output, or panics when it has no room.
\<close>

definition varint_size :: "int \<Rightarrow> nat \<Rightarrow> bool" where
  "varint_size m n \<longleftrightarrow> 0 < n \<and> m < 128 ^ n \<and> (n = 1 \<or> 128 ^ (n - 1) \<le> m)"

definition takes_bytes :: "byte_array_output \<Rightarrow> int \<Rightarrow> nat \<Rightarrow> byte_array_output res \<Rightarrow> bool" where
  "takes_bytes out m most r \<longleftrightarrow> (\<exists>n. varint_size m n \<and> n \<le> most \<and>
     (if n \<le> bo_room out
      then \<exists>out'. r = Inr out' \<and> bo_ok out' \<and> bo_pos out' = bo_pos out + n \<and>
             take (bo_pos out) (bo_bytes out') = take (bo_pos out) (bo_bytes out)
      else r = Inl Panic))"

lemma uint_drop_7: "uint (drop_bit 7 i) = uint i div 128" for i :: "'a::len word"
proof -
  have "unat (drop_bit 7 i) = unat i div 128" by (subst unat_drop_bit_eq) (simp add: drop_bit_eq_div)
  then have "int (unat (drop_bit 7 i)) = int (unat i div 128)" by (rule arg_cong)
  then show ?thesis by (simp only: of_nat_unat zdiv_int of_nat_numeral)
qed

lemma varint_size_step:
  assumes "128 \<le> m" "varint_size (m div 128) n"
  shows "varint_size m (Suc n)"
proof -
  have m: "m = 128 * (m div 128) + m mod 128" "0 \<le> m mod 128" "m mod 128 < 128" by simp_all
  obtain k where k: "n = Suc k" using assms(2) by (cases n) (auto simp: varint_size_def)
  have "128 ^ k \<le> m div 128" using assms k by (cases k) (auto simp: varint_size_def)
  moreover have "m div 128 < 128 ^ n" using assms(2) by (simp add: varint_size_def)
  ultimately have "128 * 128 ^ k \<le> m" "m < 128 * 128 ^ n" using m by linarith+
  then show ?thesis by (simp add: varint_size_def k)
qed

lemma vint_bytes_size: "varint_size (uint i) (length (vint_bytes i))"
proof (induction i rule: vint_bytes.induct)
  case (1 i)
  show ?case
  proof (cases "i AND NOT 0x7F \<noteq> 0")
    case True
    then have "drop_bit 7 i \<noteq> 0" using high_bits [of i] by simp
    then have "uint i div 128 \<noteq> 0" unfolding uint_drop_7 [symmetric] by (simp add: uint_0_iff)
    then have "128 \<le> uint i" by (rule contrapos_np) (simp add: zdiv_eq_0_iff)
    with varint_size_step [of "uint i"] 1 True show ?thesis by (simp add: vint_bytes.simps [of i] uint_drop_7)
  next
    case False
    then have "drop_bit 7 i = 0" using high_bits [of i] by simp
    then have "uint i div 128 = 0" unfolding uint_drop_7 [symmetric] by simp
    then have "uint i < 128" by (auto simp: zdiv_eq_0_iff)
    with False show ?thesis by (simp add: vint_bytes.simps [of i] varint_size_def)
  qed
qed

lemma varint_size_le: "varint_size m n \<Longrightarrow> m < 128 ^ k \<Longrightarrow> 0 < k \<Longrightarrow> n \<le> k"
proof (rule ccontr)
  assume n: "varint_size m n" "m < 128 ^ k" "0 < k" "\<not> n \<le> k"
  then have "(128 :: int) ^ k \<le> 128 ^ (n - 1)" by (intro power_increasing) auto
  moreover have "128 ^ (n - 1) \<le> m" using n by (auto simp: varint_size_def)
  ultimately show False using n(2) by linarith
qed

lemma write_var_no_room:
  "bo_ok out \<Longrightarrow> bo_room out < length (vint_bytes i) \<Longrightarrow> write_var bo_ops out i = Inl Panic"
proof (induction i arbitrary: out rule: vint_bytes.induct)
  case (1 i)
  show ?case
  proof (cases "bo_room out")
    case 0
    then have "o_byte bo_ops out b = Inl Panic" for b by (simp add: bo_ops_def bo_write_byte_def bo_room_def dassert_def)
    then show ?thesis by (simp add: write_var.simps [of _ _ i])
  next
    case (Suc r)
    with 1(3) have True: "i AND NOT 0x7F \<noteq> 0" by (auto simp: vint_bytes.simps [of i] split: if_splits)
    from bo.byte [OF 1(2), of "ucast ((i AND 0x7F) OR 0x80)"] Suc
    obtain out' where o: "o_byte bo_ops out (ucast ((i AND 0x7F) OR 0x80)) = Inr out'" "bo_ok out'" "bo_room out' = r"
      by (auto simp: appends_def)
    with 1(1) [OF True o(2)] 1(3) True Suc show ?thesis by (simp add: vint_bytes.simps [of i] write_var.simps [of _ _ i])
  qed
qed

lemma write_var_takes:
  fixes i :: "'a::len word"
  assumes "bo_ok out" "uint i < 128 ^ k" "0 < k"
  shows "takes_bytes out (uint i) k (write_var bo_ops out i)"
proof -
  let ?n = "length (vint_bytes i)"
  have n: "varint_size (uint i) ?n" "?n \<le> k" using varint_size_le [OF vint_bytes_size assms(2,3)] vint_bytes_size by blast+
  have "\<exists>out'. write_var bo_ops out i = Inr out' \<and> bo_ok out' \<and> bo_pos out' = bo_pos out + ?n \<and>
      take (bo_pos out) (bo_bytes out') = take (bo_pos out) (bo_bytes out)" if room: "?n \<le> bo_room out"
  proof -
    from bo.var [OF assms(1) room] obtain out' where o: "write_var bo_ops out i = Inr out'" "bo_ok out'"
        "bo_written out' = bo_written out @ vint_bytes i" by (auto simp: appends_def)
    have len: "length (bo_written out') = bo_pos out'" "length (bo_written out) = bo_pos out"
      using assms(1) o(2) by (auto simp: bo_written_def bo_ok_def)
    with o(3) have pos: "bo_pos out' = bo_pos out + ?n" by simp
    have "take (bo_pos out) (bo_bytes out') = take (bo_pos out) (bo_written out')" using pos by (simp add: bo_written_def)
    also have "\<dots> = bo_written out" using o(3) len(2) by simp
    finally show ?thesis using o(1,2) pos by (simp add: bo_written_def)
  qed
  moreover have "write_var bo_ops out i = Inl Panic" if "\<not> ?n \<le> bo_room out"
    by (rule write_var_no_room [OF assms(1)]) (use that in simp)
  ultimately show ?thesis using n unfolding takes_bytes_def by auto
qed

text \<open>
  C28. How much a variable-length integer takes of a \<^verbatim>\<open>ByteArrayDataOutput\<close>, with debug assertions:
  \<^verbatim>\<open>write_vint\<close>, \<^verbatim>\<open>write_vlong\<close>, \<^verbatim>\<open>write_zint\<close> and \<^verbatim>\<open>write_zlong\<close> write exactly one byte per digit of seven bits of
  the number (of its two's complement for a negative int, of its zig-zag code \<open>2 i\<close> or \<open>- 2 i - 1\<close>), at least
  one and at most 5 for ints, 9 for longs and 10 for zig-zag longs; they leave what was written before, and
  panic when the bytes do not fit. A negative long is refused by \<^verbatim>\<open>write_vlong\<close> before anything is written.
\<close>

theorem vint_length:
  fixes i :: i32 and l :: i64
  assumes "bo_ok out"
  shows "takes_bytes out (uint i) 5 (write_vint bo_ops out i)
    \<and> (if sint l < 0 then write_vlong bo_ops out l = Inl IllegalArgument
       else takes_bytes out (sint l) 9 (write_vlong bo_ops out l))
    \<and> takes_bytes out (if sint i < 0 then - 2 * sint i - 1 else 2 * sint i) 5 (write_zint bo_ops out i)
    \<and> takes_bytes out (if sint l < 0 then - 2 * sint l - 1 else 2 * sint l) 10 (write_zlong bo_ops out l)"
proof (intro conjI)
  have i: "takes_bytes out (uint i) 5 (write_vint bo_ops out i)" for i :: i32
    using write_var_takes [OF assms, of i 5] uint_bounded [of i] by (simp add: write_vint_def)
  then show "takes_bytes out (uint i) 5 (write_vint bo_ops out i)" .
  show "takes_bytes out (if sint i < 0 then - 2 * sint i - 1 else 2 * sint i) 5 (write_zint bo_ops out i)"
    using i [of "zig_zag_encode_i32 i"] zig_zag_value [of i] by (simp add: write_zint_def zig_zag_encode_i32_def)
  have l: "takes_bytes out (uint l) k (write_signed_vlong bo_ops out l)" if "uint l < 128 ^ k" "0 < k" for l k
    using write_var_takes [OF assms that] by (simp add: write_signed_vlong_def)
  show "takes_bytes out (if sint l < 0 then - 2 * sint l - 1 else 2 * sint l) 10 (write_zlong bo_ops out l)"
    using l [of "zig_zag_encode_i64 l" 10] uint_bounded [of "zig_zag_encode_i64 l"] zig_zag_value [of l]
    by (simp add: write_zlong_def zig_zag_encode_i64_def)
  show "if sint l < 0 then write_vlong bo_ops out l = Inl IllegalArgument
      else takes_bytes out (sint l) 9 (write_vlong bo_ops out l)"
  proof (cases "sint l < 0")
    case False
    then have "uint l = sint l" using sint_lt [of l] by (simp add: uint_sint take_bit_int_eq_self)
    with False l [of l 9] sint_lt [of l] show ?thesis by (simp add: write_vlong_def)
  qed (simp add: write_vlong_def)
qed

theorem vint_length_witness:
  "takes_bytes (bo_with_bytes [0, 0]) 300 5 (write_vint bo_ops (bo_with_bytes [0, 0]) 300)
   \<and> write_vlong bo_ops (bo_with_bytes [0, 0]) (-5) = Inl IllegalArgument
   \<and> takes_bytes (bo_with_bytes [0, 0]) 9 10 (write_zlong bo_ops (bo_with_bytes [0, 0]) (-5))"
  using vint_length [of "bo_with_bytes [0, 0]" 300 "-5"] by (simp add: bo_ok_def bo_with_bytes_def bo_with_range_def)

text \<open>
  C29. \<^verbatim>\<open>copy_bytes\<close> moves exactly the requested bytes, in pieces of the copy buffer: the output has them
  appended and the input stands after them, when the input has that many bytes and the output has
  room for them.
\<close>

theorem copy_bytes_copies:
  assumes "bo_ok out" "bi_ok bytes input" "bi_rest input = bs @ cs" "length bs \<le> bo_room out"
  shows "\<exists>out' input'. copy_bytes_impl bo_ops bi_ops out input (length bs) = Inr (out', input') \<and> bo_ok out'
    \<and> bo_written out' = bo_written out @ bs \<and> bi_rest input' = cs"
  using bo_bi.copy_bytes [OF assms] by blast

theorem copy_bytes_copies_witness:
  "\<exists>out' input'. copy_bytes_impl bo_ops bi_ops (bo_with_bytes [0, 0, 0, 0]) (bi_with_bytes [5, 6, 7]) 2 = Inr (out', input')
    \<and> bo_written out' = [5, 6] \<and> bi_rest input' = [7]"
  using copy_bytes_copies [of "bo_with_bytes [0, 0, 0, 0]" "[5, 6, 7]" "bi_with_bytes [5, 6, 7]" "[5, 6]" "[7]"]
  by (simp add: bo_ok_def bo_room_def bo_with_bytes_def bo_with_range_def bi_ok_def bi_rest_def bi_with_bytes_def
      bi_with_range_def bo_written_def numeral_2_eq_2) blast

end
