(* ===== verification/Group_Vint.thy ===== *)
theory Group_Vint
  imports Data_IO
begin

text \<open>
  Group-varint (\<^verbatim>\<open>util/group_vint_util.rs\<close>): four values share a flag byte that holds the number of bytes
  of each, the tail of the values follows as variable-length ints. The writers of \<^verbatim>\<open>i32\<close> and \<^verbatim>\<open>i64\<close> values, the
  reader that goes through the input byte by byte and the one that loads four bytes at a position.
  \<open>gvint_bytes\<close> is the layout; the writers append it and the readers consume it in the locales
  \<open>data_sink\<close> and \<open>data_source\<close> of the streams.
\<close>

unbundle bit_operations_syntax

section \<open>Writing groups\<close>

definition num_bytes :: "i32 \<Rightarrow> nat" where
  "num_bytes v = 4 - leading_zeros (v OR 1) div 8"

definition to_int :: "i64 \<Rightarrow> i32 res" where
  "to_int v = (if 0xFFFFFFFF < uint v then Inl NumberOverflow else Inr (ucast v))"

definition group_flag :: "nat \<Rightarrow> nat \<Rightarrow> nat \<Rightarrow> nat \<Rightarrow> u8 res" where
  "group_flag n1 n2 n3 n4 =
     rbind (usub n1 1) (\<lambda>a. rbind (usub n2 1) (\<lambda>b. rbind (usub n3 1) (\<lambda>c. rbind (usub n4 1) (\<lambda>d.
       Inr (of_nat (push_bit 6 a OR push_bit 4 b OR push_bit 2 c OR d))))))"

text \<open>
  One group: the flag and the four values, each stored with four bytes of which only
  \<open>num_bytes\<close> are kept. The values are given as \<^verbatim>\<open>i32\<close>.
\<close>

definition write_scalar_group :: "'s out_ops \<Rightarrow> 's \<Rightarrow> u8 list \<Rightarrow> i32 \<Rightarrow> i32 \<Rightarrow> i32 \<Rightarrow> i32 \<Rightarrow> ('s \<times> u8 list) res" where
  "write_scalar_group ops s scratch v1 v2 v3 v4 =
     (let n1 = num_bytes v1; n2 = num_bytes v2; n3 = num_bytes v3; n4 = num_bytes v4 in
      rbind (group_flag n1 n2 n3 n4) (\<lambda>flag.
      rbind (upd scratch 0 flag) (\<lambda>scratch.
      rbind (splice scratch 1 (to_le 4 v1)) (\<lambda>scratch.
      rbind (splice scratch (1 + n1) (to_le 4 v2)) (\<lambda>scratch.
      rbind (splice scratch (1 + n1 + n2) (to_le 4 v3)) (\<lambda>scratch.
      rbind (splice scratch (1 + n1 + n2 + n3) (to_le 4 v4)) (\<lambda>scratch.
      rbind (write_bytes_with_len ops s scratch (1 + n1 + n2 + n3 + n4)) (\<lambda>s. Inr (s, scratch)))))))))"

function write_group_vints_i64 :: "'s out_ops \<Rightarrow> 's \<Rightarrow> u8 list \<Rightarrow> i64 list \<Rightarrow> nat \<Rightarrow> nat \<Rightarrow> 's res" where
  "write_group_vints_i64 ops s scratch vals limit read_pos =
     rbind (usub limit read_pos) (\<lambda>left.
     if 4 \<le> left
     then rbind (idx vals read_pos) (\<lambda>x. rbind (to_int x) (\<lambda>v1.
          rbind (idx vals (read_pos + 1)) (\<lambda>x. rbind (to_int x) (\<lambda>v2.
          rbind (idx vals (read_pos + 2)) (\<lambda>x. rbind (to_int x) (\<lambda>v3.
          rbind (idx vals (read_pos + 3)) (\<lambda>x. rbind (to_int x) (\<lambda>v4.
          rbind (write_scalar_group ops s scratch v1 v2 v3 v4) (\<lambda>(s, scratch).
            write_group_vints_i64 ops s scratch vals limit (read_pos + 4))))))))))
     else for_each [read_pos..<limit] (\<lambda>i s.
            rbind (idx vals i) (\<lambda>x. rbind (to_int x) (write_vint ops s))) s)"
  by pat_completeness auto

termination
  by (relation "measure (\<lambda>(ops, s, scratch, vals, limit, read_pos). limit - read_pos)") (auto simp: usub_def split: if_splits)

declare write_group_vints_i64.simps [simp del]

text \<open>
  The \<^verbatim>\<open>i32\<close> writer first tries to pack four values below 256 with a byte shuffle of the \<^verbatim>\<open>wide\<close>
  crate, \<^verbatim>\<open>u8x16::swizzle_relaxed\<close>: \<open>swizzle bytes order\<close>.
\<close>

definition swizzle_order :: "u8 list" where
  "swizzle_order = [255, 0, 4, 8, 12, 13, 14, 15, 255, 255, 255, 255, 255, 255, 255, 255]"

definition write_group_i32 ::
  "(u8 list \<Rightarrow> u8 list \<Rightarrow> u8 list) \<Rightarrow> 's out_ops \<Rightarrow> 's \<Rightarrow> u8 list \<Rightarrow> i32 \<Rightarrow> i32 \<Rightarrow> i32 \<Rightarrow> i32 \<Rightarrow> ('s \<times> u8 list) res" where
  "write_group_i32 swizzle ops s scratch v1 v2 v3 v4 =
     (let combined = v1 OR v2 OR v3 OR v4 in
      if 8 \<le> length scratch \<and> uint combined \<le> 255
      then let packed = swizzle (concat (map (to_le 4) [v1, v2, v3, v4])) swizzle_order in
           rbind (slice packed 0 8) (\<lambda>packed.
           rbind (splice scratch 0 packed) (\<lambda>scratch.
           rbind (write_bytes_with_len ops s scratch 5) (\<lambda>s. Inr (s, scratch))))
      else write_scalar_group ops s scratch v1 v2 v3 v4)"

function write_group_vints_i32 ::
  "(u8 list \<Rightarrow> u8 list \<Rightarrow> u8 list) \<Rightarrow> 's out_ops \<Rightarrow> 's \<Rightarrow> u8 list \<Rightarrow> i32 list \<Rightarrow> nat \<Rightarrow> nat \<Rightarrow> 's res" where
  "write_group_vints_i32 swizzle ops s scratch vals limit read_pos =
     rbind (usub limit read_pos) (\<lambda>left.
     if 4 \<le> left
     then rbind (idx vals read_pos) (\<lambda>v1. rbind (idx vals (read_pos + 1)) (\<lambda>v2.
          rbind (idx vals (read_pos + 2)) (\<lambda>v3. rbind (idx vals (read_pos + 3)) (\<lambda>v4.
          rbind (write_group_i32 swizzle ops s scratch v1 v2 v3 v4) (\<lambda>(s, scratch).
            write_group_vints_i32 swizzle ops s scratch vals limit (read_pos + 4))))))
     else for_each [read_pos..<limit] (\<lambda>i s. rbind (idx vals i) (write_vint ops s)) s)"
  by pat_completeness auto

termination
  by (relation "measure (\<lambda>(sw, ops, s, scratch, vals, limit, read_pos). limit - read_pos)") (auto simp: usub_def split: if_splits)

declare write_group_vints_i32.simps [simp del]

definition MAX_LENGTH_PER_GROUP :: nat where
  "MAX_LENGTH_PER_GROUP = 17"

text \<open>The entry points of \<^verbatim>\<open>store/data_output.rs\<close>.\<close>

definition out_write_group_vints_i64 :: "'s out_ops \<Rightarrow> 's \<Rightarrow> i64 list \<Rightarrow> nat \<Rightarrow> 's res" where
  "out_write_group_vints_i64 ops s vals limit =
     write_group_vints_i64 ops s (replicate MAX_LENGTH_PER_GROUP 0) vals limit 0"

definition out_write_group_vints_i32 ::
  "(u8 list \<Rightarrow> u8 list \<Rightarrow> u8 list) \<Rightarrow> 's out_ops \<Rightarrow> 's \<Rightarrow> i32 list \<Rightarrow> nat \<Rightarrow> 's res" where
  "out_write_group_vints_i32 swizzle ops s vals limit =
     write_group_vints_i32 swizzle ops s (replicate MAX_LENGTH_PER_GROUP 0) vals limit 0"

section \<open>Reading groups\<close>

definition read_int_in_group :: "'s in_ops \<Rightarrow> 's \<Rightarrow> nat \<Rightarrow> (i32 \<times> 's) res" where
  "read_int_in_group ops s num_bytes_minus1 =
     (if num_bytes_minus1 = 0 then rbind (i_byte ops s) (\<lambda>(b, s). Inr (ucast b, s))
      else if num_bytes_minus1 = 1 then rbind (i_short ops s) (\<lambda>(h, s). Inr (ucast h, s))
      else if num_bytes_minus1 = 2 then rbind (i_short ops s) (\<lambda>(h, s). rbind (i_byte ops s) (\<lambda>(b, s).
        Inr (ucast h OR push_bit 16 (ucast b), s)))
      else i_int ops s)"

definition read_four :: "('s \<Rightarrow> nat \<Rightarrow> (i32 \<times> 's) res) \<Rightarrow> 's \<Rightarrow> nat \<Rightarrow> (i32 \<Rightarrow> 'v) \<Rightarrow> 'v list \<Rightarrow> nat \<Rightarrow> ('v list \<times> 's) res" where
  "read_four rd s flag cast dst offset =
     rbind (rd s (drop_bit 6 flag)) (\<lambda>(v, s). rbind (upd dst offset (cast v)) (\<lambda>dst.
     rbind (rd s (drop_bit 4 flag AND 3)) (\<lambda>(v, s). rbind (upd dst (offset + 1) (cast v)) (\<lambda>dst.
     rbind (rd s (drop_bit 2 flag AND 3)) (\<lambda>(v, s). rbind (upd dst (offset + 2) (cast v)) (\<lambda>dst.
     rbind (rd s (flag AND 3)) (\<lambda>(v, s). rbind (upd dst (offset + 3) (cast v)) (\<lambda>dst.
       Inr (dst, s)))))))))"

definition read_group_vint_i32 :: "'s in_ops \<Rightarrow> 's \<Rightarrow> i32 list \<Rightarrow> nat \<Rightarrow> (i32 list \<times> 's) res" where
  "read_group_vint_i32 ops s dst offset =
     rbind (i_byte ops s) (\<lambda>(flag, s). read_four (read_int_in_group ops) s (unat flag) (\<lambda>v. v) dst offset)"

definition read_group_vint_i64 :: "'s in_ops \<Rightarrow> 's \<Rightarrow> i64 list \<Rightarrow> nat \<Rightarrow> (i64 list \<times> 's) res" where
  "read_group_vint_i64 ops s dst offset =
     rbind (i_byte ops s) (\<lambda>(flag, s). read_four (read_int_in_group ops) s (unat flag) ucast dst offset)"

text \<open>
  The loops over the groups and the tail. \<^verbatim>\<open>read_group_vints_i32\<close> calls the method \<^verbatim>\<open>read_group_vint\<close> of
  the input, which is \<open>read_group_vint_i32\<close> for the byte array.
\<close>

function read_group_vints ::
  "('s \<Rightarrow> 'v list \<Rightarrow> nat \<Rightarrow> ('v list \<times> 's) res) \<Rightarrow> (i32 \<Rightarrow> 'v) \<Rightarrow> 's in_ops \<Rightarrow> 's \<Rightarrow> 'v list \<Rightarrow> nat \<Rightarrow> nat \<Rightarrow> ('v list \<times> 's) res" where
  "read_group_vints read_group cast ops s dst limit i =
     (if i + 4 \<le> limit
      then rbind (read_group s dst i) (\<lambda>(dst, s). read_group_vints read_group cast ops s dst limit (i + 4))
      else for_each [i..<limit] (\<lambda>i (dst, s).
             rbind (read_vint ops s) (\<lambda>(v, s). rbind (upd dst i (cast v)) (\<lambda>dst. Inr (dst, s)))) (dst, s))"
  by pat_completeness auto

termination
  by (relation "measure (\<lambda>(rg, cast, ops, s, dst, limit, i). limit - i)") auto

declare read_group_vints.simps [simp del]

definition read_group_vints_i32 :: "('s \<Rightarrow> i32 list \<Rightarrow> nat \<Rightarrow> (i32 list \<times> 's) res) \<Rightarrow> 's in_ops \<Rightarrow> 's \<Rightarrow> i32 list \<Rightarrow> nat \<Rightarrow> (i32 list \<times> 's) res" where
  "read_group_vints_i32 read_group_vint ops s dst limit = read_group_vints read_group_vint (\<lambda>v. v) ops s dst limit 0"

definition read_group_vints_i64 :: "'s in_ops \<Rightarrow> 's \<Rightarrow> i64 list \<Rightarrow> nat \<Rightarrow> (i64 list \<times> 's) res" where
  "read_group_vints_i64 ops s dst limit = read_group_vints (read_group_vint_i64 ops) ucast ops s dst limit 0"

text \<open>
  The faster readers for inputs with random access: \<open>reader\<close> is \<^verbatim>\<open>IntReader::read\<close>. They return the
  number of bytes after the flag for the caller to skip.
\<close>

definition INT_MASKS :: "i32 list" where
  "INT_MASKS = [0xFF, 0xFFFF, 0xFFFFFF, NOT 0]"

definition LONG_MASKS :: "i64 list" where
  "LONG_MASKS = [0xFF, 0xFFFF, 0xFFFFFF, 0xFFFFFFFF]"

definition read_four_at ::
  "(nat \<Rightarrow> i32 res) \<Rightarrow> (i32 \<Rightarrow> 'v::len word) \<Rightarrow> 'v word list \<Rightarrow> nat \<Rightarrow> nat \<Rightarrow> 'v word list \<Rightarrow> nat \<Rightarrow> ('v word list \<times> nat) res" where
  "read_four_at reader cast masks flag pos dst offset =
     (let get = (\<lambda>pos n dst i. rbind (reader pos) (\<lambda>v. rbind (idx masks n) (\<lambda>m. upd dst i (cast v AND m)))) ;
          n1 = drop_bit 6 flag; n2 = drop_bit 4 flag AND 3; n3 = drop_bit 2 flag AND 3; n4 = flag AND 3 in
      rbind (get pos n1 dst offset) (\<lambda>dst. let pos1 = pos + (1 + n1) in
      rbind (get pos1 n2 dst (offset + 1)) (\<lambda>dst. let pos2 = pos1 + (1 + n2) in
      rbind (get pos2 n3 dst (offset + 2)) (\<lambda>dst. let pos3 = pos2 + (1 + n3) in
      rbind (get pos3 n4 dst (offset + 3)) (\<lambda>dst. let pos4 = pos3 + (1 + n4) in
        rbind (usub pos4 pos) (\<lambda>n. Inr (dst, n)))))))"

definition read_group_vint_i32_with_reader ::
  "'s in_ops \<Rightarrow> ('s \<Rightarrow> nat \<Rightarrow> i32 res) \<Rightarrow> 's \<Rightarrow> nat \<Rightarrow> nat \<Rightarrow> i32 list \<Rightarrow> nat \<Rightarrow> (nat \<times> i32 list \<times> 's) res" where
  "read_group_vint_i32_with_reader ops reader s remaining pos dst offset =
     (if remaining < MAX_LENGTH_PER_GROUP
      then rbind (read_group_vint_i32 ops s dst offset) (\<lambda>(dst, s). Inr (0, dst, s))
      else rbind (i_byte ops s) (\<lambda>(flag, s).
           rbind (read_four_at (reader s) (\<lambda>v. v) INT_MASKS (unat flag) (pos + 1) dst offset) (\<lambda>(dst, n).
             Inr (n, dst, s))))"

definition read_group_vint_i64_with_reader ::
  "'s in_ops \<Rightarrow> ('s \<Rightarrow> nat \<Rightarrow> i32 res) \<Rightarrow> 's \<Rightarrow> nat \<Rightarrow> nat \<Rightarrow> i64 list \<Rightarrow> nat \<Rightarrow> (nat \<times> i64 list \<times> 's) res" where
  "read_group_vint_i64_with_reader ops reader s remaining pos dst offset =
     (if remaining < MAX_LENGTH_PER_GROUP
      then rbind (read_group_vint_i64 ops s dst offset) (\<lambda>(dst, s). Inr (0, dst, s))
      else rbind (i_byte ops s) (\<lambda>(flag, s).
           rbind (read_four_at (reader s) scast LONG_MASKS (unat flag) (pos + 1) dst offset) (\<lambda>(dst, n).
             Inr (n, dst, s))))"

section \<open>The layout of a group\<close>

definition kept :: "i32 \<Rightarrow> u8 list" where
  "kept v = take (num_bytes v) (to_le 4 v)"

lemma num_bytes_bounds: "1 \<le> num_bytes v" "num_bytes v \<le> 4"
proof -
  have "v OR 1 \<noteq> 0"
  proof
    assume "v OR 1 = 0"
    then have "bit (v OR 1) 0 = bit (0 :: i32) 0" by simp
    then show False by (simp add: bit_or_iff)
  qed
  then have "leading_zeros (v OR 1) < 32" using leading_zeros_bit [of "v OR 1"] by auto
  then show "1 \<le> num_bytes v" "num_bytes v \<le> 4" by (auto simp: num_bytes_def)
qed

lemma num_bytes_high: "8 * num_bytes v \<le> n \<Longrightarrow> \<not> bit v n"
proof -
  assume n: "8 * num_bytes v \<le> n"
  have "32 - leading_zeros (v OR 1) \<le> 8 * num_bytes v"
    unfolding num_bytes_def using times_div_less_eq_dividend [of 8 "leading_zeros (v OR 1)"] by simp
  moreover have "leading_zeros (v OR 1) < 32"
  proof -
    have "bit (v OR 1) 0" by (simp add: bit_or_iff)
    then have "v OR 1 \<noteq> 0" by auto
    then show ?thesis using leading_zeros_bit [of "v OR 1"] by simp
  qed
  ultimately have "\<not> bit (v OR 1) n" using n by (intro leading_zeros_above) simp
  then show ?thesis by (simp add: bit_or_iff)
qed

lemma flag_parts:
  assumes "a < 4" "b < 4" "c < 4" "d < (4 :: nat)"
  defines "f \<equiv> unat (of_nat (push_bit 6 a OR push_bit 4 b OR push_bit 2 c OR d) :: u8)"
  shows "drop_bit 6 f = a" "drop_bit 4 f AND 3 = b" "drop_bit 2 f AND 3 = c" "f AND 3 = d"
proof -
  have "a \<in> {0, 1, 2, 3}" "b \<in> {0, 1, 2, 3}" "c \<in> {0, 1, 2, 3}" "d \<in> {0, 1, 2, 3}" using assms by auto
  then show "drop_bit 6 f = a" "drop_bit 4 f AND 3 = b" "drop_bit 2 f AND 3 = c" "f AND 3 = d"
    unfolding f_def insert_iff empty_iff by (elim disjE; simp)+
qed

definition group_flag_of :: "i32 \<Rightarrow> i32 \<Rightarrow> i32 \<Rightarrow> i32 \<Rightarrow> u8" where
  "group_flag_of v1 v2 v3 v4 = of_nat (push_bit 6 (num_bytes v1 - 1) OR push_bit 4 (num_bytes v2 - 1)
     OR push_bit 2 (num_bytes v3 - 1) OR (num_bytes v4 - 1))"

definition group_bytes :: "i32 \<Rightarrow> i32 \<Rightarrow> i32 \<Rightarrow> i32 \<Rightarrow> u8 list" where
  "group_bytes v1 v2 v3 v4 = group_flag_of v1 v2 v3 v4 # kept v1 @ kept v2 @ kept v3 @ kept v4"

lemma length_kept [simp]: "length (kept v) = num_bytes v"
  using num_bytes_bounds [of v] by (simp add: kept_def)

lemma put_kept:
  assumes "p + 4 \<le> length xs"
  shows "\<exists>zs. splice xs p (to_le 4 v) = Inr zs \<and> length zs = length xs \<and> take (p + num_bytes v) zs = take p xs @ kept v"
  using assms num_bytes_bounds(2) [of v] by (simp add: kept_def)

context data_sink
begin

lemma scalar_group:
  assumes "ok s" "length scratch = 17" "length (group_bytes v1 v2 v3 v4) \<le> room s"
  shows "\<exists>s' scratch'. write_scalar_group ops s scratch v1 v2 v3 v4 = Inr (s', scratch') \<and> length scratch' = 17
    \<and> appends ok written room s (group_bytes v1 v2 v3 v4) (Inr s')"
proof -
  let ?n = num_bytes
  note b = num_bytes_bounds
  have flag: "group_flag (?n v1) (?n v2) (?n v3) (?n v4) = Inr (group_flag_of v1 v2 v3 v4)"
    using b by (simp add: group_flag_def group_flag_of_def)
  obtain s0 where s0: "upd scratch 0 (group_flag_of v1 v2 v3 v4) = Inr s0" "length s0 = 17" "take 1 s0 = [group_flag_of v1 v2 v3 v4]"
    using assms(2) by (cases scratch) simp_all
  obtain s1 where s1: "splice s0 1 (to_le 4 v1) = Inr s1" "length s1 = 17" "take (1 + ?n v1) s1 = take 1 s0 @ kept v1"
    using put_kept [of 1 s0 v1] s0(2) by auto
  obtain s2 where s2: "splice s1 (1 + ?n v1) (to_le 4 v2) = Inr s2" "length s2 = 17"
      "take (1 + ?n v1 + ?n v2) s2 = take (1 + ?n v1) s1 @ kept v2"
    using put_kept [of "1 + ?n v1" s1 v2] s1(2) b(2) [of v1] by auto
  obtain s3 where s3: "splice s2 (1 + ?n v1 + ?n v2) (to_le 4 v3) = Inr s3" "length s3 = 17"
      "take (1 + ?n v1 + ?n v2 + ?n v3) s3 = take (1 + ?n v1 + ?n v2) s2 @ kept v3"
    using put_kept [of "1 + ?n v1 + ?n v2" s2 v3] s2(2) b(2) [of v1] b(2) [of v2] by auto
  obtain s4 where s4: "splice s3 (1 + ?n v1 + ?n v2 + ?n v3) (to_le 4 v4) = Inr s4" "length s4 = 17"
      "take (1 + ?n v1 + ?n v2 + ?n v3 + ?n v4) s4 = take (1 + ?n v1 + ?n v2 + ?n v3) s3 @ kept v4"
    using put_kept [of "1 + ?n v1 + ?n v2 + ?n v3" s3 v4] s3(2) b(2) [of v1] b(2) [of v2] b(2) [of v3] by auto
  let ?len = "1 + ?n v1 + ?n v2 + ?n v3 + ?n v4"
  have bytes: "take ?len s4 = group_bytes v1 v2 v3 v4" by (simp only: s4(3) s3(3) s2(3) s1(3) s0(3) group_bytes_def append.simps append.assoc)
  have "?len \<le> length s4" using s4(2) b(2) [of v1] b(2) [of v2] b(2) [of v3] b(2) [of v4] by simp
  moreover have "?len \<le> room s" using assms(3) by (simp add: group_bytes_def)
  ultimately have "appends ok written room s (group_bytes v1 v2 v3 v4) (write_bytes_with_len ops s s4 ?len)"
    unfolding write_bytes_with_len_def using bytes_range [OF assms(1), of ?len 0 s4] bytes by simp
  moreover from this obtain s' where "write_bytes_with_len ops s s4 ?len = Inr s'" by (auto simp: appends_def)
  ultimately show ?thesis
    unfolding write_scalar_group_def Let_def flag rbind_simps s0(1) s1(1) s2(1) s3(1) s4(1) using s4(2) by simp
qed


end

lemma to_le_4: "to_le 4 v = [ucast v, ucast (drop_bit 8 v), ucast (drop_bit 16 v), ucast (drop_bit 24 v)]"
  by (simp add: numeral_eq_Suc)

lemma to_le_2: "to_le 2 v = [ucast v, ucast (drop_bit 8 v)]"
  by (simp add: numeral_eq_Suc)

lemma kept_cases:
  fixes v :: i32
  shows "num_bytes v = 1 \<Longrightarrow> kept v = [ucast v] \<and> ucast (ucast v :: u8) = v"
    and "num_bytes v = 2 \<Longrightarrow> kept v = to_le 2 (ucast v :: i16) \<and> ucast (ucast v :: i16) = v"
    and "num_bytes v = 3 \<Longrightarrow> kept v = to_le 2 (ucast v :: i16) @ [ucast (drop_bit 16 v)]
      \<and> ucast (ucast v :: i16) OR push_bit 16 (ucast (ucast (drop_bit 16 v) :: u8)) = v"
    and "num_bytes v = 4 \<Longrightarrow> kept v = to_le 4 v"
proof -
  have h: "(ucast (drop_bit 8 (ucast v :: i16)) :: u8) = ucast (drop_bit 8 v)" "(ucast (ucast v :: i16) :: u8) = ucast v"
    by (rule bit_word_eqI; auto simp: bit_simps)+
  show "num_bytes v = 1 \<Longrightarrow> kept v = [ucast v] \<and> ucast (ucast v :: u8) = v"
    using num_bytes_high [of v] by (auto simp: kept_def to_le_4 bit_simps not_le [symmetric] intro!: bit_word_eqI)
  show "num_bytes v = 2 \<Longrightarrow> kept v = to_le 2 (ucast v :: i16) \<and> ucast (ucast v :: i16) = v"
    using num_bytes_high [of v] by (auto simp: kept_def to_le_4 to_le_2 h bit_simps not_le [symmetric] intro!: bit_word_eqI)
  show "num_bytes v = 3 \<Longrightarrow> kept v = to_le 2 (ucast v :: i16) @ [ucast (drop_bit 16 v)]
      \<and> ucast (ucast v :: i16) OR push_bit 16 (ucast (ucast (drop_bit 16 v) :: u8)) = v"
    using num_bytes_high [of v] by (auto simp: kept_def to_le_4 to_le_2 h bit_simps not_le [symmetric] numeral_3_eq_3 intro!: bit_word_eqI)
  show "num_bytes v = 4 \<Longrightarrow> kept v = to_le 4 v" by (simp add: kept_def)
qed

context data_source
begin

lemma int_in_group:
  assumes "ok s" "rest s = kept v @ cs"
  shows "consumes ok rest cs v (read_int_in_group ops s (num_bytes v - 1))"
proof -
  consider "num_bytes v = 1" | "num_bytes v = 2" | "num_bytes v = 3" | "num_bytes v = 4"
    using num_bytes_bounds [of v] by linarith
  then show ?thesis
  proof cases
    case 1
    with kept_cases(1) [of v] assms byte [of s "ucast v" cs] show ?thesis
      by (auto simp: read_int_in_group_def consumes_def)
  next
    case 2
    with kept_cases(2) [of v] assms short [of s "ucast v" cs] show ?thesis
      by (auto simp: read_int_in_group_def consumes_def)
  next
    case 3
    with kept_cases(3) assms show ?thesis
      by (auto simp: read_int_in_group_def intro!: consumes_rbind [OF short] consumes_rbind [OF byte] consumes_Inr)
  next
    case 4
    with kept_cases(4) assms int show ?thesis by (auto simp: read_int_in_group_def)
  qed
qed

text \<open>A run of loads of the kept bytes, then the rest of the group.\<close>

lemma four_in_group:
  assumes "ok s" "rest s = kept v1 @ kept v2 @ kept v3 @ kept v4 @ cs" "offset + 4 \<le> length dst"
  shows "consumes ok rest cs (dst[offset := f v1, offset + 1 := f v2, offset + 2 := f v3, offset + 3 := f v4])
    (read_four (read_int_in_group ops) s (unat (group_flag_of v1 v2 v3 v4)) f dst offset)"
proof -
  have b: "num_bytes v - 1 < 4" for v using num_bytes_bounds [of v] by linarith
  note p = flag_parts [OF b [of v1] b [of v2] b [of v3] b [of v4], folded group_flag_of_def]
  from int_in_group [OF assms(1,2)] obtain s1 where
    s1: "read_int_in_group ops s (num_bytes v1 - 1) = Inr (v1, s1)" "ok s1" "rest s1 = kept v2 @ kept v3 @ kept v4 @ cs"
    by (auto simp: consumes_def)
  from int_in_group [OF this(2,3)] obtain s2 where
    s2: "read_int_in_group ops s1 (num_bytes v2 - 1) = Inr (v2, s2)" "ok s2" "rest s2 = kept v3 @ kept v4 @ cs"
    by (auto simp: consumes_def)
  from int_in_group [OF this(2,3)] obtain s3 where
    s3: "read_int_in_group ops s2 (num_bytes v3 - 1) = Inr (v3, s3)" "ok s3" "rest s3 = kept v4 @ cs"
    by (auto simp: consumes_def)
  from int_in_group [OF this(2,3)] obtain s4 where
    s4: "read_int_in_group ops s3 (num_bytes v4 - 1) = Inr (v4, s4)" "ok s4" "rest s4 = cs"
    by (auto simp: consumes_def)
  show ?thesis
    unfolding read_four_def p s1(1) s2(1) s3(1) s4(1) rbind_simps prod.case
    using assms(3) s2(1) s3(1) s4(1,2,3) by (simp add: consumes_def)
qed

lemma group:
  assumes "ok s" "rest s = group_bytes v1 v2 v3 v4 @ cs" "offset + 4 \<le> length dst"
  shows "consumes ok rest cs (dst[offset := f v1, offset + 1 := f v2, offset + 2 := f v3, offset + 3 := f v4])
    (rbind (i_byte ops s) (\<lambda>(flag, s). read_four (read_int_in_group ops) s (unat flag) f dst offset))"
proof -
  have r: "rest s = group_flag_of v1 v2 v3 v4 # kept v1 @ kept v2 @ kept v3 @ kept v4 @ cs"
    using assms(2) by (simp add: group_bytes_def)
  show ?thesis
    by (rule consumes_rbind [OF byte [OF assms(1) r]]) (simp only: prod.case four_in_group [OF _ _ assms(3)])
qed

end

section \<open>Sequences of groups\<close>

function gvint_bytes :: "i32 list \<Rightarrow> u8 list" where
  "gvint_bytes vs =
     (if 4 \<le> length vs then group_bytes (vs ! 0) (vs ! 1) (vs ! 2) (vs ! 3) @ gvint_bytes (drop 4 vs)
      else concat (map vint_bytes vs))"
  by pat_completeness auto

termination
  by (relation "measure length") auto

declare gvint_bytes.simps [simp del]

lemma gvint_bytes_drop:
  "p + 4 \<le> length vs \<Longrightarrow> gvint_bytes (drop p vs) =
     group_bytes (vs ! p) (vs ! (p + 1)) (vs ! (p + 2)) (vs ! (p + 3)) @ gvint_bytes (drop (p + 4) vs)"
proof -
  assume "p + 4 \<le> length vs"
  then have "4 \<le> length (drop p vs)" by simp
  then show ?thesis by (subst gvint_bytes.simps) (simp add: add.commute)
qed

lemma gvint_bytes_short:
  "\<not> p + 4 \<le> length vs \<Longrightarrow> gvint_bytes (drop p vs) = concat (map vint_bytes (drop p vs))"
proof -
  assume "\<not> p + 4 \<le> length vs"
  then have "\<not> 4 \<le> length (drop p vs)" by (simp add: le_diff_conv2)
  then show ?thesis by (subst gvint_bytes.simps) (simp only: if_False)
qed

lemma store_next:
  assumes "p < length vs" "length vs \<le> length dst"
  shows "(map f (take p vs) @ drop p dst)[p := f (vs ! p)] = map f (take (Suc p) vs) @ drop (Suc p) dst"
  using assms by (intro nth_equalityI) (auto simp: nth_list_update nth_append less_Suc_eq)

lemma four_stores:
  assumes "p + 4 \<le> length vs" "length vs \<le> length dst"
  shows "(map f (take p vs) @ drop p dst)[p := f (vs ! p), p + 1 := f (vs ! (p + 1)), p + 2 := f (vs ! (p + 2)),
      p + 3 := f (vs ! (p + 3))] = map f (take (p + 4) vs) @ drop (p + 4) dst"
proof -
  have "p < length vs" "p + 1 < length vs" "p + 2 < length vs" "p + 3 < length vs"
    and "Suc p = p + 1" "Suc (p + 1) = p + 2" "Suc (p + 2) = p + 3" "Suc (p + 3) = p + 4"
    using assms(1) by simp_all
  then show ?thesis using assms(2) by (simp only: store_next)
qed

context data_source
begin

lemma read_group_vints:
  assumes "\<And>s v1 v2 v3 v4 cs dst i. ok s \<Longrightarrow> rest s = group_bytes v1 v2 v3 v4 @ cs \<Longrightarrow> i + 4 \<le> length dst \<Longrightarrow>
      consumes ok rest cs (dst[i := f v1, i + 1 := f v2, i + 2 := f v3, i + 3 := f v4]) (rg s dst i)"
    and "length vs \<le> length dst" "i \<le> length vs" "ok s" "rest s = gvint_bytes (drop i vs) @ cs"
  shows "consumes ok rest cs (map f vs @ drop (length vs) dst)
    (read_group_vints rg f ops s (map f (take i vs) @ drop i dst) (length vs) i)"
  using assms(3-)
proof (induction "length vs - i" arbitrary: i s rule: less_induct)
  case less
  show ?case
  proof (cases "i + 4 \<le> length vs")
    case True
    let ?d = "map f (take i vs) @ drop i dst"
    have "consumes ok rest (gvint_bytes (drop (i + 4) vs) @ cs) (map f (take (i + 4) vs) @ drop (i + 4) dst) (rg s ?d i)"
      using assms(1) [OF less.prems(2), of "vs ! i" "vs ! (i + 1)" "vs ! (i + 2)" "vs ! (i + 3)" _ i ?d] less.prems(3) True assms(2)
      by (simp only: four_stores gvint_bytes_drop append.assoc) simp
    from consumes_rbind [OF this, where f = "\<lambda>(dst, s). read_group_vints rg f ops s dst (length vs) (i + 4)"]
    show ?thesis using True less.hyps [of "i + 4"] by (simp add: read_group_vints.simps [of _ _ _ s])
  next
    case False
    let ?P = "\<lambda>j (d, s). ok s \<and> rest s = concat (map vint_bytes (drop j vs)) @ cs \<and> d = map f (take j vs) @ drop j dst"
    have "\<exists>r. for_each [i..<length vs] (\<lambda>i (dst, s).
        rbind (read_vint ops s) (\<lambda>(v, s). rbind (upd dst i (f v)) (\<lambda>dst. Inr (dst, s)))) (map f (take i vs) @ drop i dst, s) = Inr r
        \<and> ?P (length vs) r"
    proof (rule for_each_upt_rule [where P = ?P])
      show "?P i (map f (take i vs) @ drop i dst, s)" using less.prems False by (simp add: gvint_bytes_short)
    next
      fix j r
      assume j: "i \<le> j" "j < length vs" "?P j r"
      obtain d t where r: "r = (d, t)" by fastforce
      have "rest t = vint_bytes (vs ! j) @ concat (map vint_bytes (drop (Suc j) vs)) @ cs"
        using j r by (simp flip: Cons_nth_drop_Suc)
      then obtain t' where t': "read_vint ops t = Inr (vs ! j, t')" "ok t'" "rest t' = concat (map vint_bytes (drop (Suc j) vs)) @ cs"
        using vint [of t] j(3) unfolding r consumes_def by blast
      have "(map f (take j vs) @ drop j dst)[j := f (vs ! j)] = map f (take (Suc j) vs) @ drop (Suc j) dst"
        using j(2) assms(2) by (rule store_next)
      moreover have "d = map f (take j vs) @ drop j dst" "j < length (map f (take j vs) @ drop j dst)"
        using j r assms(2) by simp_all
      ultimately show "\<exists>s'. (\<lambda>i (dst, s). rbind (read_vint ops s) (\<lambda>(v, s). rbind (upd dst i (f v)) (\<lambda>dst. Inr (dst, s)))) j r = Inr s' \<and> ?P (Suc j) s'"
        using t' by (simp add: r del: length_append length_map)
    qed (rule less.prems)
    then show ?thesis using False by (auto simp: read_group_vints.simps [of _ _ _ s] consumes_def)
  qed
qed

end

text \<open>
  The documented behaviour of \<^verbatim>\<open>u8x16::swizzle_relaxed\<close>: an index below 16 selects that byte, an index with
  the high bit set gives zero.
\<close>

definition swizzle_ok :: "(u8 list \<Rightarrow> u8 list \<Rightarrow> u8 list) \<Rightarrow> bool" where
  "swizzle_ok swizzle \<longleftrightarrow> (\<forall>bs order. length bs = 16 \<longrightarrow> length order = 16 \<longrightarrow>
     length (swizzle bs order) = 16 \<and>
     (\<forall>i < 16. (unat (order ! i) < 16 \<longrightarrow> swizzle bs order ! i = bs ! unat (order ! i)) \<and>
       (bit (order ! i) 7 \<longrightarrow> swizzle bs order ! i = 0)))"

lemma byte_value:
  fixes v :: i32
  assumes "\<And>n. 8 \<le> n \<Longrightarrow> \<not> bit v n"
  shows "num_bytes v = 1" "kept v = [ucast v]"
proof -
  have "v OR 1 \<noteq> 0"
  proof
    assume "v OR 1 = 0"
    then have "bit (v OR 1) 0 = bit (0 :: i32) 0" by simp
    then show False by (simp add: bit_or_iff)
  qed
  then have b: "bit (v OR 1) (31 - leading_zeros (v OR 1))" "leading_zeros (v OR 1) < 32"
    using leading_zeros_bit [of "v OR 1"] by simp_all
  have "\<not> bit (v OR 1) n" if "8 \<le> n" for n
    using assms [OF that] that by (simp add: bit_or_iff bit_1_iff)
  then have "31 - leading_zeros (v OR 1) < 8" using b(1) not_le by blast
  then have "24 \<le> leading_zeros (v OR 1)" by linarith
  then have "leading_zeros (v OR 1) div 8 = 3" using b(2) by (simp add: div_nat_eqI)
  then show n: "num_bytes v = 1" by (simp add: num_bytes_def)
  then show "kept v = [ucast v]" using kept_cases(1) [OF n] by simp
qed

lemma low_byte:
  fixes x :: i32
  assumes "uint x \<le> 255" "8 \<le> n"
  shows "\<not> bit x n"
proof -
  have "take_bit 8 (uint x) = uint x" using assms(1) by (intro take_bit_int_eq_self) simp_all
  then have "\<not> bit (uint x) n" using assms(2) by (metis bit_take_bit_iff not_le)
  then show ?thesis by (auto simp: bit_uint_iff dest: bit_imp_le_length)
qed

lemma swizzled_group:
  assumes "swizzle_ok swizzle" "uint (v1 OR v2 OR v3 OR v4) \<le> 255"
  defines "p \<equiv> swizzle (concat (map (to_le 4) [v1, v2, v3, v4])) swizzle_order"
  shows "length p = 16" "take 5 p = group_bytes v1 v2 v3 v4"
proof -
  have z: "\<not> bit v1 n \<and> \<not> bit v2 n \<and> \<not> bit v3 n \<and> \<not> bit v4 n" if "8 \<le> n" for n
    using low_byte [OF assms(2) that] by (simp add: bit_or_iff)
  have b: "num_bytes v1 = 1" "num_bytes v2 = 1" "num_bytes v3 = 1" "num_bytes v4 = 1"
    "kept v1 = [ucast v1]" "kept v2 = [ucast v2]" "kept v3 = [ucast v3]" "kept v4 = [ucast v4]"
    using byte_value [of v1] byte_value [of v2] byte_value [of v3] byte_value [of v4] z by blast+
  let ?bs = "concat (map (to_le 4) [v1, v2, v3, v4])"
  have l: "length ?bs = 16" "length swizzle_order = 16" by (simp_all add: swizzle_order_def)
  have s: "unat (swizzle_order ! i) < 16 \<longrightarrow> p ! i = ?bs ! unat (swizzle_order ! i)"
      "bit (swizzle_order ! i) 7 \<longrightarrow> p ! i = 0" if "i < 16" for i
    using assms(1) that l unfolding swizzle_ok_def p_def by blast+
  show "length p = 16" using assms(1) l unfolding swizzle_ok_def p_def by blast
  moreover have "p ! 0 = 0" using s(2) [of 0] by (simp add: swizzle_order_def)
  moreover have "p ! 1 = ucast v1" using s(1) [of 1] by (simp add: swizzle_order_def to_le_4)
  moreover have "p ! 2 = ucast v2" using s(1) [of 2] by (simp add: swizzle_order_def to_le_4)
  moreover have "p ! 3 = ucast v3" using s(1) [of 3] by (simp add: swizzle_order_def to_le_4)
  moreover have "p ! 4 = ucast v4" using s(1) [of 4] by (simp add: swizzle_order_def to_le_4)
  ultimately have "take 5 p = [0, ucast v1, ucast v2, ucast v3, ucast v4]"
    by (intro nth_equalityI) (auto simp: less_Suc_eq numeral_eq_Suc)
  then show "take 5 p = group_bytes v1 v2 v3 v4" by (simp add: group_bytes_def group_flag_of_def b)
qed

lemma to_int_ucast: "to_int (ucast (v :: i32)) = Inr v"
proof -
  have "uint v < 2 ^ 32" using uint_bounded [of v] by simp
  moreover have "uint (ucast v :: i64) = uint v" by (rule uint_up_ucast) (simp add: is_up)
  moreover have "ucast (ucast v :: i64) = v" by (rule bit_word_eqI) (simp add: bit_ucast_iff)
  ultimately show ?thesis by (simp add: to_int_def)
qed

context data_sink
begin

lemma group_i32:
  assumes "swizzle_ok swizzle" "ok s" "length scratch = 17" "length (group_bytes v1 v2 v3 v4) \<le> room s"
  shows "\<exists>s' scratch'. write_group_i32 swizzle ops s scratch v1 v2 v3 v4 = Inr (s', scratch') \<and> length scratch' = 17
    \<and> appends ok written room s (group_bytes v1 v2 v3 v4) (Inr s')"
proof (cases "uint (v1 OR v2 OR v3 OR v4) \<le> 255")
  case True
  let ?p = "swizzle (concat (map (to_le 4) [v1, v2, v3, v4])) swizzle_order"
  note p = swizzled_group [OF assms(1) True]
  have sl: "slice ?p 0 8 = Inr (take 8 ?p)" using p(1) by simp
  obtain scr where scr: "splice scratch 0 (take 8 ?p) = Inr scr" "length scr = 17" "take 5 scr = take 5 ?p"
    using p(1) assms(3) by simp
  have "length (group_bytes v1 v2 v3 v4) = 5" unfolding p(2) [symmetric] using p(1) by simp
  then have "appends ok written room s (group_bytes v1 v2 v3 v4) (write_bytes_with_len ops s scr 5)"
    unfolding write_bytes_with_len_def using bytes_range [OF assms(2), of 5 0 scr] assms(4) scr(2,3) p(2) by simp
  moreover from this obtain s' where "write_bytes_with_len ops s scr 5 = Inr s'" by (auto simp: appends_def)
  ultimately show ?thesis
    using True assms(3) scr(2) unfolding write_group_i32_def Let_def sl scr(1) rbind_simps by simp
next
  case False
  then show ?thesis using scalar_group [OF assms(2-4)] by (simp add: write_group_i32_def)
qed

lemma vint_tail:
  assumes "p \<le> length vs" "ok s" "length (concat (map vint_bytes (drop p vs))) \<le> room s"
    and "\<And>i. p \<le> i \<Longrightarrow> i < length vs \<Longrightarrow> g i = Inr (vs ! i)"
  shows "appends ok written room s (concat (map vint_bytes (drop p vs)))
    (for_each [p..<length vs] (\<lambda>i s. rbind (g i) (write_vint ops s)) s)"
proof -
  have d: "drop p vs = map ((!) vs) [p..<length vs]" by (rule nth_equalityI) (use assms(1) in auto)
  show ?thesis
    using assms(3) unfolding d map_map comp_def
    by (intro appends_for_each) (use assms(2,4) var in \<open>auto simp: write_vint_def\<close>)
qed

lemma group_then:
  assumes "\<exists>s' scratch'. r = Inr (s', scratch') \<and> length scratch' = (17 :: nat) \<and> appends ok written room s bs (Inr s')"
    and "length (bs @ cs) \<le> room s"
    and "\<And>s scratch. ok s \<Longrightarrow> length scratch = 17 \<Longrightarrow> length cs \<le> room s \<Longrightarrow> appends ok written room s cs (f (s, scratch))"
  shows "appends ok written room s (bs @ cs) (rbind r f)"
proof -
  from assms(1) obtain s' scr where r: "r = Inr (s', scr)" "length scr = 17" and a: "appends ok written room s bs (Inr s')" by blast
  from a have "ok s'" "length cs \<le> room s'" using assms(2) by (auto simp: appends_def)
  then have "appends ok written room s (bs @ cs) (rbind (Inr s') (\<lambda>s. f (s, scr)))"
    using a by (intro appends_rbind) (use assms(2,3) r(2) in auto)
  then show ?thesis by (simp add: r(1))
qed

lemma group_vints_i32:
  assumes "swizzle_ok swizzle"
  shows "p \<le> length vs \<Longrightarrow> ok s \<Longrightarrow> length scratch = 17 \<Longrightarrow> length (gvint_bytes (drop p vs)) \<le> room s \<Longrightarrow>
    appends ok written room s (gvint_bytes (drop p vs)) (write_group_vints_i32 swizzle ops s scratch (vs @ ws) (length vs) p)"
proof (induction "length vs - p" arbitrary: p s scratch rule: less_induct)
  case less
  show ?case
  proof (cases "p + 4 \<le> length vs")
    case True
    note g = gvint_bytes_drop [OF True]
    have "appends ok written room s (gvint_bytes (drop p vs))
      (rbind (write_group_i32 swizzle ops s scratch (vs ! p) (vs ! (p + 1)) (vs ! (p + 2)) (vs ! (p + 3)))
         (\<lambda>(s, scratch). write_group_vints_i32 swizzle ops s scratch (vs @ ws) (length vs) (p + 4)))"
      unfolding g using less.prems True less.hyps [of "p + 4"] unfolding g
      by (intro group_then group_i32 [OF assms]) auto
    moreover have "4 \<le> length vs - p" using True by simp
    ultimately show ?thesis using True by (simp add: write_group_vints_i32.simps [of _ _ s] nth_append)
  next
    case False
    then have "\<not> 4 \<le> length vs - p" using less.prems(1) by linarith
    with False show ?thesis
      using less.prems vint_tail [of p vs s "idx (vs @ ws)"]
      by (simp add: write_group_vints_i32.simps [of _ _ s] gvint_bytes_short nth_append)
  qed
qed

lemma group_vints_i64:
  "p \<le> length vs \<Longrightarrow> ok s \<Longrightarrow> length scratch = 17 \<Longrightarrow> length (gvint_bytes (drop p vs)) \<le> room s \<Longrightarrow>
    appends ok written room s (gvint_bytes (drop p vs)) (write_group_vints_i64 ops s scratch (map ucast vs @ ws) (length vs) p)"
proof (induction "length vs - p" arbitrary: p s scratch rule: less_induct)
  case less
  show ?case
  proof (cases "p + 4 \<le> length vs")
    case True
    note g = gvint_bytes_drop [OF True]
    have "appends ok written room s (gvint_bytes (drop p vs))
      (rbind (write_scalar_group ops s scratch (vs ! p) (vs ! (p + 1)) (vs ! (p + 2)) (vs ! (p + 3)))
         (\<lambda>(s, scratch). write_group_vints_i64 ops s scratch (map ucast vs @ ws) (length vs) (p + 4)))"
      unfolding g using less.prems True less.hyps [of "p + 4"] unfolding g
      by (intro group_then scalar_group) auto
    moreover have "4 \<le> length vs - p" using True by simp
    ultimately show ?thesis using True by (simp add: write_group_vints_i64.simps [of _ s] nth_append to_int_ucast)
  next
    case False
    then have "\<not> 4 \<le> length vs - p" using less.prems(1) by linarith
    with False show ?thesis
      using less.prems vint_tail [of p vs s "\<lambda>i. rbind (idx (map ucast vs @ ws) i) to_int"]
      by (simp add: write_group_vints_i64.simps [of _ s] gvint_bytes_short nth_append to_int_ucast rbind_assoc)
  qed
qed

end

lemma ucast_from_le:
  "8 * length bs \<le> LENGTH('a) \<Longrightarrow> ucast (from_le bs :: 'a::len word) = (from_le bs :: 'b::len word)"
  by (rule bit_word_eqI) (auto simp: bit_ucast_iff bit_from_le)

lemma take_bit_from_le: "take_bit (8 * n) (from_le bs) = (from_le (take n bs) :: 'a::len word)"
  by (rule bit_word_eqI) (auto simp: bit_take_bit_iff bit_from_le)

lemma and_INT_MASKS:
  assumes "n < 4"
  shows "n < length INT_MASKS" "from_le bs AND INT_MASKS ! n = (from_le (take (Suc n) bs) :: i32)"
proof -
  have "n \<in> {0, 1, 2, 3}" using assms by auto
  then have "INT_MASKS ! n = mask (8 * Suc n)" by (auto simp: INT_MASKS_def mask_eq_exp_minus_1)
  then show "from_le bs AND INT_MASKS ! n = (from_le (take (Suc n) bs) :: i32)"
    using take_bit_from_le [of "Suc n" bs] by (simp add: take_bit_eq_mask)
qed (use assms in \<open>simp add: INT_MASKS_def\<close>)

lemma and_LONG_MASKS:
  assumes "n < 4"
  shows "n < length LONG_MASKS" "scast (from_le bs :: i32) AND LONG_MASKS ! n = (ucast (from_le (take (Suc n) bs) :: i32) :: i64)"
proof -
  have "n \<in> {0, 1, 2, 3}" using assms by auto
  then have m: "LONG_MASKS ! n = mask (8 * Suc n)" by (auto simp: LONG_MASKS_def mask_eq_exp_minus_1)
  have "take_bit (8 * Suc n) (scast (from_le bs :: i32) :: i64) = ucast (take_bit (8 * Suc n) (from_le bs :: i32))"
  proof (rule bit_word_eqI)
    fix i
    show "bit (take_bit (8 * Suc n) (scast (from_le bs :: i32) :: i64)) i \<longleftrightarrow> bit (ucast (take_bit (8 * Suc n) (from_le bs :: i32)) :: i64) i"
      using assms by (cases i "31 :: nat" rule: linorder_cases) (auto simp: bit_take_bit_iff bit_ucast_iff bit_signed_iff min_def)
  qed
  then show "scast (from_le bs :: i32) AND LONG_MASKS ! n = (ucast (from_le (take (Suc n) bs) :: i32) :: i64)"
    unfolding m take_bit_from_le by (simp only: take_bit_eq_mask)
qed (use assms in \<open>simp add: LONG_MASKS_def\<close>)

lemma flag_fields:
  "drop_bit 6 (unat (flag :: u8)) < 4" "(x :: nat) AND 3 < 4"
proof -
  have "unat flag < 2 ^ 8" using unsigned_less [of flag, where 'a = nat] by simp
  then show "drop_bit 6 (unat flag) < 4" by (simp add: drop_bit_eq_div)
  show "x AND 3 < 4" using take_bit_nat_less_exp [of 2 x] by (simp add: take_bit_eq_mask mask_eq_exp_minus_1)
qed

section \<open>Values that do not fit\<close>

lemma to_int_cases: "to_int x = (if uint x \<le> 0xFFFFFFFF then Inr (ucast x) else Inl NumberOverflow)"
  by (simp add: to_int_def)

lemma length_group_bytes: "length (group_bytes v1 v2 v3 v4) \<le> 17"
  using num_bytes_bounds(2) [of v1] num_bytes_bounds(2) [of v2] num_bytes_bounds(2) [of v3] num_bytes_bounds(2) [of v4]
  by (simp add: group_bytes_def)

lemma length_vint_bytes_i32: "length (vint_bytes (i :: i32)) \<le> 5"
  by (rule length_vint_bytes) (simp_all add: drop_bit_word_beyond)

context data_sink
begin

lemma tail_overflow:
  assumes "k < length xs" "0xFFFFFFFF < uint (xs ! k)" "limit \<le> length xs"
  shows "p \<le> k \<Longrightarrow> k < limit \<Longrightarrow> ok s \<Longrightarrow> 5 * (limit - p) \<le> room s \<Longrightarrow>
    for_each [p..<limit] (\<lambda>i s. rbind (idx xs i) (\<lambda>x. rbind (to_int x) (write_vint ops s))) s = Inl NumberOverflow"
proof (induction "k - p" arbitrary: p s)
  case 0
  then show ?case using assms by (simp add: upt_conv_Cons to_int_def)
next
  case (Suc d)
  then have p: "p < limit" "p < length xs" "p < k" using assms(3) by simp_all
  show ?case
  proof (cases "uint (xs ! p) \<le> 0xFFFFFFFF")
    case True
    have "appends ok written room s (vint_bytes (ucast (xs ! p) :: i32)) (write_vint ops s (ucast (xs ! p)))"
      unfolding write_vint_def using Suc.prems p length_vint_bytes_i32 [of "ucast (xs ! p)"] by (intro var) simp_all
    then obtain s' where s': "write_vint ops s (ucast (xs ! p)) = Inr s'" "ok s'"
        "room s' + length (vint_bytes (ucast (xs ! p) :: i32)) = room s"
      by (auto simp: appends_def)
    have "5 * (limit - Suc p) \<le> room s'" using s'(3) Suc.prems(4) p length_vint_bytes_i32 [of "ucast (xs ! p)"] by linarith
    then show ?thesis using Suc.hyps(1) [of "Suc p" s'] Suc.hyps(2) Suc.prems p s' True by (simp add: upt_conv_Cons to_int_cases)
  next
    case False
    then show ?thesis using p by (simp add: upt_conv_Cons to_int_def)
  qed
qed

lemma overflow_i64:
  assumes "k < length xs" "0xFFFFFFFF < uint (xs ! k)" "limit \<le> length xs"
  shows "p \<le> k \<Longrightarrow> k < limit \<Longrightarrow> ok s \<Longrightarrow> length scratch = 17 \<Longrightarrow> 5 * (limit - p) \<le> room s \<Longrightarrow>
    write_group_vints_i64 ops s scratch xs limit p = Inl NumberOverflow"
proof (induction "limit - p" arbitrary: p s scratch rule: less_induct)
  case less
  show ?case
  proof (cases "p + 4 \<le> limit")
    case True
    then have l: "p < length xs" "p + 1 < length xs" "p + 2 < length xs" "p + 3 < length xs" "4 \<le> limit - p" using assms(3) by simp_all
    let ?fits = "\<lambda>i. uint (xs ! i) \<le> 0xFFFFFFFF"
    show ?thesis
    proof (cases "?fits p \<and> ?fits (p + 1) \<and> ?fits (p + 2) \<and> ?fits (p + 3)")
      case fit: True
      have "k \<noteq> p" "k \<noteq> p + 1" "k \<noteq> p + 2" "k \<noteq> p + 3" using fit assms(2) by auto
      then have k: "p + 4 \<le> k" using less.prems(1) by linarith
      let ?v = "\<lambda>i. ucast (xs ! i) :: i32"
      have "length (group_bytes (?v p) (?v (p + 1)) (?v (p + 2)) (?v (p + 3))) \<le> room s"
        using length_group_bytes [of "?v p" "?v (p + 1)" "?v (p + 2)" "?v (p + 3)"] less.prems(5) l(5) by linarith
      from scalar_group [OF less.prems(3,4) this] obtain s' scr where
        g: "write_scalar_group ops s scratch (?v p) (?v (p + 1)) (?v (p + 2)) (?v (p + 3)) = Inr (s', scr)" "length scr = 17"
        "ok s'" "room s' + length (group_bytes (?v p) (?v (p + 1)) (?v (p + 2)) (?v (p + 3))) = room s"
        by (auto simp: appends_def)
      have "5 * (limit - (p + 4)) \<le> room s'"
        using g(4) length_group_bytes [of "?v p" "?v (p + 1)" "?v (p + 2)" "?v (p + 3)"] less.prems(5) True by linarith
      with g l fit k show ?thesis
        using less.hyps [of "p + 4" s' scr] less.prems by (simp add: write_group_vints_i64.simps [of _ s] to_int_cases)
    next
      case False
      with l show ?thesis by (auto simp: write_group_vints_i64.simps [of _ s] to_int_cases)
    qed
  next
    case False
    then have "\<not> 4 \<le> limit - p" "p \<le> limit" using less.prems by simp_all
    then show ?thesis
      using less.prems tail_overflow [OF assms] by (simp add: write_group_vints_i64.simps [of _ s])
  qed
qed

end

lemma bi_group_i32:
  "bi_ok bytes s \<Longrightarrow> bi_rest s = group_bytes v1 v2 v3 v4 @ cs \<Longrightarrow> i + 4 \<le> length dst \<Longrightarrow>
    consumes (bi_ok bytes) bi_rest cs (dst[i := v1, i + 1 := v2, i + 2 := v3, i + 3 := v4]) (read_group_vint_i32 bi_ops s dst i)"
  unfolding read_group_vint_i32_def using bi.group [where f = "\<lambda>v. v"] .

lemma bi_group_i64:
  "bi_ok bytes s \<Longrightarrow> bi_rest s = group_bytes v1 v2 v3 v4 @ cs \<Longrightarrow> i + 4 \<le> length dst \<Longrightarrow>
    consumes (bi_ok bytes) bi_rest cs (dst[i := ucast v1, i + 1 := ucast v2, i + 2 := ucast v3, i + 3 := ucast v4]) (read_group_vint_i64 bi_ops s dst i)"
  unfolding read_group_vint_i64_def using bi.group [where f = ucast] .

text \<open>
  C30. The first \<open>length vs\<close> ints of an array, written in groups of four with the tail as variable-length
  ints, are read back: the groups of bytes that the byte shuffle packs and the ones written value by
  value have the same layout. The rest of the destination is kept and the input stands after the
  last byte written.
\<close>

theorem group_vints_i32_roundtrip:
  assumes "swizzle_ok swizzle" "bo_ok out" "length (gvint_bytes vs) \<le> bo_room out" "length vs \<le> length dst"
  shows "\<exists>out' input'. out_write_group_vints_i32 swizzle bo_ops out (vs @ ws) (length vs) = Inr out'
    \<and> read_group_vints_i32 (read_group_vint_i32 bi_ops) bi_ops (bi_with_range (bo_bytes out') (bo_pos out) n) dst (length vs)
        = Inr (vs @ drop (length vs) dst, input')
    \<and> bi_pos input' = bo_pos out' \<and> bo_pos out' = bo_pos out + length (gvint_bytes vs)"
proof -
  have "appends bo_ok bo_written bo_room out (gvint_bytes vs) (out_write_group_vints_i32 swizzle bo_ops out (vs @ ws) (length vs))"
    using bo.group_vints_i32 [OF assms(1) _ assms(2), of 0 vs] assms(3) by (simp add: out_write_group_vints_i32_def MAX_LENGTH_PER_GROUP_def)
  from read_back [OF assms(2) this] obtain out' where
    o: "out_write_group_vints_i32 swizzle bo_ops out (vs @ ws) (length vs) = Inr out'" "bo_ok out'"
      "bo_pos out' = bo_pos out + length (gvint_bytes vs)"
    and r: "bi_ok (bo_bytes out') (bi_with_range (bo_bytes out') (bo_pos out) n)"
      "bi_rest (bi_with_range (bo_bytes out') (bo_pos out) n) = gvint_bytes vs @ drop (bo_pos out') (bo_bytes out')" .
  have "consumes (bi_ok (bo_bytes out')) bi_rest (drop (bo_pos out') (bo_bytes out')) (vs @ drop (length vs) dst)
    (read_group_vints_i32 (read_group_vint_i32 bi_ops) bi_ops (bi_with_range (bo_bytes out') (bo_pos out) n) dst (length vs))"
    using bi.read_group_vints [where f = "\<lambda>v. v" and i = 0, OF bi_group_i32 assms(4) _ r(1)] r(2)
    by (simp add: read_group_vints_i32_def)
  then obtain input' where i: "read_group_vints_i32 (read_group_vint_i32 bi_ops) bi_ops (bi_with_range (bo_bytes out') (bo_pos out) n) dst (length vs)
      = Inr (vs @ drop (length vs) dst, input')" "bi_ok (bo_bytes out') input'" "bi_rest input' = drop (bo_pos out') (bo_bytes out')"
    by (auto simp: consumes_def)
  have "bi_pos input' = bo_pos out'" using i(2,3) by (rule bi_pos_rest) (use o(2) in \<open>simp add: bo_ok_def\<close>)
  with o i show ?thesis by blast
qed

text \<open>A shuffle with the documented behaviour.\<close>

definition byte_shuffle :: "u8 list \<Rightarrow> u8 list \<Rightarrow> u8 list" where
  "byte_shuffle bs order = map (\<lambda>j. if unat j < 16 then bs ! unat j else 0) order"

lemma byte_shuffle_ok: "swizzle_ok byte_shuffle"
proof -
  have "\<not> bit j 7" if "unat j < 16" for j :: u8
  proof -
    have "uint j < 2 ^ 4" using that by (simp add: unat_eq_nat_uint nat_less_iff del: nat_uint_eq)
    then have "take_bit 4 (uint j) = uint j" by (intro take_bit_int_eq_self) simp_all
    moreover have "\<not> bit (take_bit 4 (uint j)) 7" by (simp add: bit_take_bit_iff)
    ultimately show ?thesis by (simp add: bit_uint_iff)
  qed
  then show ?thesis
    unfolding swizzle_ok_def byte_shuffle_def by (intro allI impI conjI) (simp_all, blast)
qed

theorem group_vints_i32_roundtrip_witness:
  "\<exists>out' input'. out_write_group_vints_i32 byte_shuffle bo_ops (bo_with_bytes (replicate 30 0)) [1, 2, 3, 4, 5, 600, 70000, -1, 9, 10] 9 = Inr out'
    \<and> read_group_vints_i32 (read_group_vint_i32 bi_ops) bi_ops (bi_with_range (bo_bytes out') 0 30) (replicate 12 7) 9
        = Inr ([1, 2, 3, 4, 5, 600, 70000, -1, 9, 7, 7, 7], input') \<and> bi_pos input' = 17"
proof -
  let ?vs = "[1, 2, 3, 4, 5, 600, 70000, -1, 9] :: i32 list"
  have len: "length ?vs = 9" by simp
  have "length (gvint_bytes ?vs) = 17" by code_simp
  moreover have "bo_ok (bo_with_bytes (replicate 30 0))" "bo_room (bo_with_bytes (replicate 30 0)) = 30" "bo_pos (bo_with_bytes (replicate 30 0)) = 0"
    by (simp_all add: bo_ok_def bo_room_def bo_with_bytes_def bo_with_range_def)
  moreover have "drop 9 (replicate 12 7) = [7, 7, 7 :: i32]" by code_simp
  ultimately show ?thesis
    using group_vints_i32_roundtrip [OF byte_shuffle_ok, of "bo_with_bytes (replicate 30 0)" ?vs "replicate 12 7" "[10]" 30] unfolding len by auto
qed

text \<open>
  C31. Longs below \<open>2 ^ 32\<close> are written in the same layout and read back as the same longs, the ones above
  \<open>2 ^ 31\<close> included.
\<close>

theorem group_vints_i64_roundtrip:
  assumes "\<forall>x \<in> set xs. uint x \<le> 0xFFFFFFFF" "bo_ok out" "length (gvint_bytes (map ucast xs)) \<le> bo_room out" "length xs \<le> length dst"
  shows "\<exists>out' input'. out_write_group_vints_i64 bo_ops out (xs @ ws) (length xs) = Inr out'
    \<and> read_group_vints_i64 bi_ops (bi_with_range (bo_bytes out') (bo_pos out) n) dst (length xs) = Inr (xs @ drop (length xs) dst, input')
    \<and> bi_pos input' = bo_pos out' \<and> bo_pos out' = bo_pos out + length (gvint_bytes (map ucast xs))"
proof -
  define vs :: "i32 list" where "vs = map ucast xs"
  have "ucast (ucast x :: i32) = x" if "x \<in> set xs" for x :: i64
  proof -
    have "take_bit 32 (uint x) = uint x" using assms(1) that by (intro take_bit_int_eq_self) fastforce+
    then show ?thesis by (intro word_uint_eqI) (simp add: unsigned_ucast_eq unsigned_take_bit_eq)
  qed
  then have xs: "map ucast vs = xs" "length vs = length xs" unfolding vs_def by (auto simp: map_idI)
  have "appends bo_ok bo_written bo_room out (gvint_bytes vs) (out_write_group_vints_i64 bo_ops out (xs @ ws) (length xs))"
    using bo.group_vints_i64 [of 0 vs out "replicate 17 0" ws] assms(2,3) xs
    by (simp add: out_write_group_vints_i64_def MAX_LENGTH_PER_GROUP_def vs_def)
  from read_back [OF assms(2) this] obtain out' where
    o: "out_write_group_vints_i64 bo_ops out (xs @ ws) (length xs) = Inr out'" "bo_ok out'"
      "bo_pos out' = bo_pos out + length (gvint_bytes vs)"
    and r: "bi_ok (bo_bytes out') (bi_with_range (bo_bytes out') (bo_pos out) n)"
      "bi_rest (bi_with_range (bo_bytes out') (bo_pos out) n) = gvint_bytes vs @ drop (bo_pos out') (bo_bytes out')" .
  have "length vs \<le> length dst" using assms(4) xs(2) by simp
  then have "consumes (bi_ok (bo_bytes out')) bi_rest (drop (bo_pos out') (bo_bytes out')) (xs @ drop (length xs) dst)
    (read_group_vints_i64 bi_ops (bi_with_range (bo_bytes out') (bo_pos out) n) dst (length xs))"
    using bi.read_group_vints [where f = ucast and i = 0 and rg = "read_group_vint_i64 bi_ops" and vs = vs and cs = "drop (bo_pos out') (bo_bytes out')", OF bi_group_i64 _ _ r(1)] r(2) xs
    by (simp add: read_group_vints_i64_def)
  then obtain input' where i: "read_group_vints_i64 bi_ops (bi_with_range (bo_bytes out') (bo_pos out) n) dst (length xs)
      = Inr (xs @ drop (length xs) dst, input')" "bi_ok (bo_bytes out') input'" "bi_rest input' = drop (bo_pos out') (bo_bytes out')"
    by (auto simp: consumes_def)
  have "bi_pos input' = bo_pos out'" using i(2,3) by (rule bi_pos_rest) (use o(2) in \<open>simp add: bo_ok_def\<close>)
  with o i show ?thesis unfolding vs_def by blast
qed

theorem group_vints_i64_roundtrip_witness:
  "\<exists>out' input'. out_write_group_vints_i64 bo_ops (bo_with_bytes (replicate 20 0)) [0xFFFFFFFF, 2, 300, 4, 5] 5 = Inr out'
    \<and> read_group_vints_i64 bi_ops (bi_with_range (bo_bytes out') 0 20) (replicate 5 0) 5
        = Inr ([0xFFFFFFFF, 2, 300, 4, 5], input') \<and> bi_pos input' = 10"
proof -
  let ?xs = "[0xFFFFFFFF, 2, 300, 4, 5] :: i64 list"
  have len: "length ?xs = 5" by simp
  have "length (gvint_bytes (map ucast ?xs)) = 10" by code_simp
  moreover have "bo_ok (bo_with_bytes (replicate 20 0))" "bo_room (bo_with_bytes (replicate 20 0)) = 20" "bo_pos (bo_with_bytes (replicate 20 0)) = 0"
    by (simp_all add: bo_ok_def bo_room_def bo_with_bytes_def bo_with_range_def)
  ultimately show ?thesis
    using group_vints_i64_roundtrip [of ?xs "bo_with_bytes (replicate 20 0)" "replicate 5 0" "[]" 20] unfolding len by auto
qed

text \<open>
  C32. A long that is negative or does not fit 32 bits makes the writer fail with a number overflow,
  wherever it stands among the values to write.
\<close>

theorem group_vints_i64_overflow:
  assumes "bo_ok out" "k < limit" "limit \<le> length xs" "0xFFFFFFFF < uint (xs ! k)" "5 * limit \<le> bo_room out"
  shows "out_write_group_vints_i64 bo_ops out xs limit = Inl NumberOverflow"
  unfolding out_write_group_vints_i64_def MAX_LENGTH_PER_GROUP_def
  by (rule bo.overflow_i64 [of k]) (use assms in simp_all)

theorem group_vints_i64_overflow_witness:
  "out_write_group_vints_i64 bo_ops (bo_with_bytes (replicate 30 0)) [1, 2, 3, 4, 5, -6] 6 = Inl NumberOverflow"
  using group_vints_i64_overflow [of "bo_with_bytes (replicate 30 0)" 5 6 "[1, 2, 3, 4, 5, -6]"]
  by (simp add: bo_ok_def bo_room_def bo_with_bytes_def bo_with_range_def)

end
