(* ===== verification/Byte_Buffers_In.thy ===== *)
theory Byte_Buffers_In
  imports Group_Vint Array_Util
begin

text \<open>
  The input over a list of blocks (\<^verbatim>\<open>store/byte_buffers_data_input.rs\<close>): a position is split into the index of a
  block and an offset in it by a shift and a mask, short reads are taken from one block and others are gathered
  over the blocks. It overrides \<^verbatim>\<open>read_vint\<close> and \<^verbatim>\<open>read_group_vint\<close>, and is an \<^verbatim>\<open>IntReader\<close> for the latter.

  A \<^verbatim>\<open>Cursor\<close> is the pair of its bytes and its position. The capacity of the scratch vector is part of the state,
  since \<^verbatim>\<open>get_bytes\<close> asks for it; what the allocator grants is the parameter \<open>cap\<close> (the old capacity and the
  length that is needed). An operation that fails is an error value, its effect on the position and the scratch
  vector is dropped.
\<close>

unbundle bit_operations_syntax

section \<open>The input\<close>









section \<open>\<open>DataInput\<close>\<close>















section \<open>Random access and groups\<close>



section \<open>The bytes of an input\<close>




















section \<open>It keeps the contract of inputs\<close>






section \<open>The overridden methods\<close>










section \<open>Properties\<close>









end
