(* ===== verification/Heap_Order.thy ===== *)
theory Heap_Order
  imports Array_Util "HOL-Library.Multiset"
begin

text \<open>
  The order of a binary heap in a list that is used from slot 1 on: the parent of slot \<open>c\<close> is slot
  \<open>c div 2\<close>. \<open>le\<close> is the order of the contents. The lemmas say what exchanging a slot with its parent or
  with its smaller child does to a heap in which only that slot is out of place; the heaps of
  \<^verbatim>\<open>util/long_heap.rs\<close> and \<^verbatim>\<open>util/priority_queue.rs\<close> use them for their own loops.
\<close>

definition heap_edge :: "('a \<Rightarrow> 'a \<Rightarrow> bool) \<Rightarrow> 'a list \<Rightarrow> nat \<Rightarrow> bool" where
  "heap_edge le h c \<longleftrightarrow> le (h ! (c div 2)) (h ! c)"

definition heap_order :: "('a \<Rightarrow> 'a \<Rightarrow> bool) \<Rightarrow> nat \<Rightarrow> 'a list \<Rightarrow> nat \<Rightarrow> bool" where
  "heap_order le m h n \<longleftrightarrow> (\<forall>c. 2 \<le> c \<and> c \<le> n \<and> m \<le> c div 2 \<longrightarrow> heap_edge le h c)"

text \<open>
  The order everywhere but at one slot, whose parent is below its children. Both notions leave out the
  edges from slots below \<open>m\<close>, which are not in order yet while a heap is built from its end.
\<close>

definition heap_off :: "('a \<Rightarrow> 'a \<Rightarrow> bool) \<Rightarrow> nat \<Rightarrow> 'a list \<Rightarrow> nat \<Rightarrow> nat \<Rightarrow> bool" where
  "heap_off le m h n s \<longleftrightarrow> (\<forall>c. 2 \<le> c \<and> c \<le> n \<and> m \<le> c div 2 \<longrightarrow> c \<noteq> s \<longrightarrow> c div 2 \<noteq> s \<longrightarrow> heap_edge le h c)
     \<and> (1 < s \<and> m \<le> s div 2 \<longrightarrow> (\<forall>c. c \<le> n \<longrightarrow> c div 2 = s \<longrightarrow> le (h ! (s div 2)) (h ! c)))"

definition below_kids :: "('a \<Rightarrow> 'a \<Rightarrow> bool) \<Rightarrow> 'a list \<Rightarrow> nat \<Rightarrow> nat \<Rightarrow> bool" where
  "below_kids le h n s \<longleftrightarrow> (\<forall>c. c \<le> n \<longrightarrow> c div 2 = s \<longrightarrow> le (h ! s) (h ! c))"

lemma heap_order_mono: "heap_order le m h n \<Longrightarrow> n' \<le> n \<Longrightarrow> heap_order le m h n'"
  by (simp add: heap_order_def)

lemma heap_orderI:
  assumes "heap_off le m h n s" "2 \<le> s \<Longrightarrow> s \<le> n \<Longrightarrow> m \<le> s div 2 \<Longrightarrow> heap_edge le h s" "below_kids le h n s" "1 \<le> s"
  shows "heap_order le m h n"
  unfolding heap_order_def
proof (intro allI impI)
  fix c
  assume c: "2 \<le> c \<and> c \<le> n \<and> m \<le> c div 2"
  show "heap_edge le h c"
    using assms c by (cases "c = s"; cases "c div 2 = s") (auto simp: heap_off_def heap_edge_def below_kids_def)
qed

lemma heap_off_next:
  assumes "heap_order le (Suc m) h n" "1 \<le> m"
  shows "heap_off le m h n m"
  unfolding heap_off_def
proof (intro conjI allI impI)
  fix c
  assume "2 \<le> c \<and> c \<le> n \<and> m \<le> c div 2" "c \<noteq> m" "c div 2 \<noteq> m"
  then show "heap_edge le h c" using assms(1) unfolding heap_order_def by simp
next
  fix c
  assume "1 < m \<and> m \<le> m div 2"
  then have False by linarith
  then show "le (h ! (m div 2)) (h ! c)" ..
qed

lemma heap_order_leaves: "n < 2 * m \<Longrightarrow> heap_order le m h n"
  by (auto simp: heap_order_def)

lemma heap_off_cong:
  assumes "heap_off le m h n s" "\<And>c. 1 \<le> c \<Longrightarrow> c \<le> n \<Longrightarrow> h' ! c = h ! c"
  shows "heap_off le m h' n s"
proof -
  have "h' ! c = h ! c \<and> h' ! (c div 2) = h ! (c div 2)" if "2 \<le> c" "c \<le> n" for c
    using that by (intro conjI assms(2)) auto
  moreover have "h' ! c = h ! c \<and> h' ! (s div 2) = h ! (s div 2)" if "1 < s" "c \<le> n" "c div 2 = s" for c
    using that by (intro conjI assms(2)) auto
  ultimately show ?thesis using assms(1) unfolding heap_off_def heap_edge_def by metis
qed

lemma heap_order_cong:
  assumes "heap_order le m h n" "\<And>c. 1 \<le> c \<Longrightarrow> c \<le> n \<Longrightarrow> h' ! c = h ! c"
  shows "heap_order le m h' n"
proof -
  have "h' ! c = h ! c \<and> h' ! (c div 2) = h ! (c div 2)" if "2 \<le> c" "c \<le> n" for c
    using that by (intro conjI assms(2)) auto
  then show ?thesis using assms(1) unfolding heap_order_def heap_edge_def by metis
qed

section \<open>The values of the slots\<close>

lemma slots_upd: "take n (drop 1 (h[i := v])) = (if i = 0 then take n (drop 1 h) else (take n (drop 1 h))[i - 1 := v])"
  by (cases i) (simp_all add: drop_update_swap take_update_swap)

lemma mset_slots_swap:
  assumes "1 \<le> i" "i \<le> n" "1 \<le> j" "j \<le> n" "n < length h"
  shows "mset (take n (drop 1 (h[i := h ! j, j := h ! i]))) = mset (take n (drop 1 h))"
proof -
  let ?g = "take n (drop 1 h)"
  have nth: "h ! k = ?g ! (k - 1)" if "1 \<le> k" "k \<le> n" for k using that assms(5) by simp
  have "take n (drop 1 (h[i := h ! j, j := h ! i])) = ?g[i - 1 := ?g ! (j - 1), j - 1 := ?g ! (i - 1)]"
    using assms unfolding slots_upd by (simp only: nth [symmetric]) simp
  also have "mset \<dots> = mset ?g" by (rule mset_swap) (use assms in simp_all)
  finally show ?thesis .
qed

lemma slots_snoc:
  assumes "n + 1 < length h"
  shows "take (n + 1) (drop 1 (h[n + 1 := x])) = take n (drop 1 h) @ [x]"
proof -
  have "take (Suc n) (drop 1 h) = take n (drop 1 h) @ [h ! Suc n]"
    using assms by (simp add: take_Suc_conv_app_nth)
  then show ?thesis using assms unfolding slots_upd by (simp add: list_update_append)
qed

lemma in_slots: "n < length h \<Longrightarrow> y \<in> set (take n (drop 1 h)) \<longleftrightarrow> (\<exists>i. 1 \<le> i \<and> i \<le> n \<and> h ! i = y)"
proof -
  assume n: "n < length h"
  have "set (take n (drop 1 h)) = (\<lambda>k. h ! Suc k) ` {..<n}"
    using n by (subst nth_image [symmetric]) auto
  also have "\<dots> = (!) h ` {1..n}"
    by (simp add: image_Suc_lessThan flip: image_image)
  finally show ?thesis by auto
qed

lemma slots_first: "2 \<le> length h \<Longrightarrow> 0 < n \<Longrightarrow> take n (drop 1 h) = h ! 1 # take (n - 1) (drop 2 h)"
proof -
  assume a: "2 \<le> length h" "0 < n"
  then have "drop 1 h = h ! 1 # drop 2 h" by (metis Cons_nth_drop_Suc One_nat_def Suc_1 Suc_le_eq)
  with a(2) show ?thesis by (cases n) simp_all
qed

section \<open>Exchanges\<close>

locale ranked =
  fixes le :: "'a \<Rightarrow> 'a \<Rightarrow> bool"
  assumes total: "le a b \<or> le b a"
    and trans: "le a b \<Longrightarrow> le b c \<Longrightarrow> le a c"
begin

lemma refl: "le a a"
  using total [of a a] by simp

lemma root_least: "heap_order le 1 h n \<Longrightarrow> 1 \<le> i \<Longrightarrow> i \<le> n \<Longrightarrow> le (h ! 1) (h ! i)"
proof (induction i rule: less_induct)
  case (less i)
  show ?case
  proof (cases "i = 1")
    case False
    with less have "le (h ! 1) (h ! (i div 2))" by (intro less.IH) auto
    also have "le (h ! (i div 2)) (h ! i)" using less.prems False by (auto simp: heap_order_def heap_edge_def)
    finally (trans) show ?thesis .
  qed (simp add: refl)
qed

lemma off_up:
  assumes "heap_off le 1 h n s" "1 < s" "s \<le> n" "n < length h" "\<not> le (h ! (s div 2)) (h ! s)"
  defines "h' \<equiv> h[s := h ! (s div 2), s div 2 := h ! s]"
  shows "heap_off le 1 h' n (s div 2)" "below_kids le h' n (s div 2)"
proof -
  let ?p = "s div 2"
  have p: "?p < s" "1 \<le> ?p" using assms(2) by auto
  have len: "s < length h" "?p < length h" using assms(3,4) p by auto
  have v: "h' ! c = (if c = ?p then h ! s else if c = s then h ! ?p else h ! c)" for c
    using len p by (auto simp: h'_def nth_list_update)
  have sp: "le (h ! s) (h ! ?p)" using assms(5) total by blast
  have edge: "le (h ! (c div 2)) (h ! c)" if "2 \<le> c" "c \<le> n" "c \<noteq> s" "c div 2 \<noteq> s" for c
    using assms(1) that by (auto simp: heap_off_def heap_edge_def)
  have below: "le (h ! ?p) (h ! c)" if "c \<le> n" "c div 2 = s" for c
    using assms(1,2) p that by (auto simp: heap_off_def)
  have sib: "le (h ! ?p) (h' ! c)" if "c \<le> n" "c div 2 = ?p" for c
  proof -
    have "2 \<le> c" "c \<noteq> ?p" "c div 2 \<noteq> s" using p that(2) by auto
    then show ?thesis using edge [of c] that refl by (auto simp: v)
  qed
  show "below_kids le h' n ?p"
    using sib sp trans by (auto simp: below_kids_def v)
  show "heap_off le 1 h' n ?p"
    unfolding heap_off_def
  proof (intro conjI allI impI)
    fix c
    assume c: "2 \<le> c \<and> c \<le> n \<and> 1 \<le> c div 2" "c \<noteq> ?p" "c div 2 \<noteq> ?p"
    show "heap_edge le h' c"
      using c edge [of c] below [of c] by (cases "c div 2 = s") (auto simp: heap_edge_def v)
  next
    fix c
    assume c: "1 < ?p \<and> 1 \<le> ?p div 2" "c \<le> n" "c div 2 = ?p"
    have "le (h ! (?p div 2)) (h ! ?p)" using edge [of ?p] c(1) p assms(3) by auto
    moreover have "h' ! (?p div 2) = h ! (?p div 2)" using c(1) p by (auto simp: v)
    ultimately show "le (h' ! (?p div 2)) (h' ! c)" using sib [OF c(2,3)] trans by simp
  qed
qed

lemma off_down:
  assumes "heap_off le m h n i" "1 \<le> i" "j div 2 = i" "j \<le> n" "n < length h" "\<not> le (h ! i) (h ! j)"
    and "\<And>c. c \<le> n \<Longrightarrow> c div 2 = i \<Longrightarrow> le (h ! j) (h ! c)" "m \<le> i"
  defines "h' \<equiv> h[i := h ! j, j := h ! i]"
  shows "heap_off le m h' n j" "heap_edge le h' j"
proof -
  have j: "i < j" "2 \<le> j" using assms(2,3) by auto
  have v: "h' ! c = (if c = j then h ! i else if c = i then h ! j else h ! c)" for c
    using j assms(4,5) by (auto simp: h'_def nth_list_update)
  have edge: "le (h ! (c div 2)) (h ! c)" if "2 \<le> c" "c \<le> n" "m \<le> c div 2" "c \<noteq> i" "c div 2 \<noteq> i" for c
    using assms(1) that by (auto simp: heap_off_def heap_edge_def)
  have "le (h ! j) (h ! i)" using assms(6) total by blast
  then show "heap_edge le h' j" using assms(3) j by (simp add: heap_edge_def v)
  show "heap_off le m h' n j"
    unfolding heap_off_def
  proof (intro conjI allI impI)
    fix c
    assume c: "2 \<le> c \<and> c \<le> n \<and> m \<le> c div 2" "c \<noteq> j" "c div 2 \<noteq> j"
    consider "c = i" | "c \<noteq> i" "c div 2 = i" | "c \<noteq> i" "c div 2 \<noteq> i" by blast
    then show "heap_edge le h' c"
    proof cases
      case 1
      then have "le (h ! (i div 2)) (h ! j)"
        using assms(1,3,4) c by (auto simp: heap_off_def)
      then show ?thesis using 1 c j by (auto simp: heap_edge_def v)
    next
      case 2
      then show ?thesis using assms(7) c by (auto simp: heap_edge_def v)
    next
      case 3
      then show ?thesis using edge [of c] c by (auto simp: heap_edge_def v)
    qed
  next
    fix c
    assume c: "1 < j \<and> m \<le> j div 2" "c \<le> n" "c div 2 = j"
    then have "2 \<le> c" "c \<noteq> i" "c \<noteq> j" "m \<le> c div 2" using j assms(3) by auto
    then show "le (h' ! (j div 2)) (h' ! c)"
      using edge [of c] c j assms(3) by (auto simp: v)
  qed
qed

text \<open>A value put into one slot of a heap.\<close>

lemma off_update:
  assumes "heap_order le 1 h n" "s < length h" "1 \<le> s"
  shows "heap_off le 1 (h[s := v]) n s"
proof -
  have "le (h ! (s div 2)) (h ! c)" if "1 < s" "c \<le> n" "c div 2 = s" for c
  proof -
    have "le (h ! (s div 2)) (h ! s)" "le (h ! s) (h ! c)"
    proof -
      have "2 \<le> s \<and> s \<le> n \<and> 1 \<le> s div 2" "2 \<le> c \<and> c \<le> n \<and> 1 \<le> c div 2" using that by auto
      then show "le (h ! (s div 2)) (h ! s)" "le (h ! s) (h ! c)"
        using assms(1) that(3) unfolding heap_order_def heap_edge_def by blast+
    qed
    then show ?thesis by (rule trans)
  qed
  then show ?thesis
    using assms by (auto simp: heap_off_def heap_order_def heap_edge_def nth_list_update)
qed

end

section \<open>Queues with a bound\<close>

text \<open>
  What inserting into a queue of bounded size promises, whatever its representation: below the bound
  the value is added; at the bound it replaces a least value if it is not below it, and is
  dropped if it is not above any. \<open>ins\<close> is the call, \<open>None\<close> if it does not return.
\<close>

definition least :: "('a \<Rightarrow> 'a \<Rightarrow> bool) \<Rightarrow> 'a \<Rightarrow> 'a multiset \<Rightarrow> bool" where
  "least le t B \<longleftrightarrow> t \<in># B \<and> (\<forall>y. y \<in># B \<longrightarrow> le t y)"

primrec insert_all :: "('s \<Rightarrow> 'a \<Rightarrow> 's res option) \<Rightarrow> 'a list \<Rightarrow> 's \<Rightarrow> 's res option" where
  "insert_all ins [] s = Some (Inr s)"
| "insert_all ins (x # xs) s =
     (case ins s x of None \<Rightarrow> None | Some (Inl e) \<Rightarrow> Some (Inl e) | Some (Inr s) \<Rightarrow> insert_all ins xs s)"

text \<open>\<open>B\<close> holds the \<open>k\<close> greatest of the values \<open>A\<close>.\<close>

definition greatest_of :: "('a \<Rightarrow> 'a \<Rightarrow> bool) \<Rightarrow> nat \<Rightarrow> 'a multiset \<Rightarrow> 'a multiset \<Rightarrow> bool" where
  "greatest_of le k A B \<longleftrightarrow> B \<subseteq># A \<and> size B = min k (size A) \<and> (\<forall>x y. x \<in># B \<longrightarrow> y \<in># A - B \<longrightarrow> le y x)"

locale bounded_queue = ranked le for le :: "'a \<Rightarrow> 'a \<Rightarrow> bool" +
  fixes ins :: "'s \<Rightarrow> 'a \<Rightarrow> 's res option" and good :: "'s \<Rightarrow> bool" and bag :: "'s \<Rightarrow> 'a multiset" and limit :: "'s \<Rightarrow> nat"
  assumes below: "good s \<Longrightarrow> size (bag s) < limit s \<Longrightarrow>
      \<exists>s'. ins s x = Some (Inr s') \<and> good s' \<and> limit s' = limit s \<and> bag s' = add_mset x (bag s)"
    and full: "good s \<Longrightarrow> limit s \<le> size (bag s) \<Longrightarrow>
      \<exists>s'. ins s x = Some (Inr s') \<and> good s' \<and> limit s' = limit s \<and>
        ((bag s' = bag s \<and> (\<forall>t. t \<in># bag s \<longrightarrow> le x t))
         \<or> (\<exists>t. least le t (bag s) \<and> le t x \<and> bag s' = add_mset x (bag s - {#t#})))"
begin

lemma replace_least:
  assumes "greatest_of le k A B" "least le t B" "le t x" "k \<le> size A"
  shows "greatest_of le k (add_mset x A) (add_mset x (B - {#t#}))"
proof -
  have B: "B \<subseteq># A" "size B = k" "\<And>x y. x \<in># B \<Longrightarrow> y \<in># A - B \<Longrightarrow> le y x"
    and t: "t \<in># B" "\<And>y. y \<in># B \<Longrightarrow> le t y"
    using assms by (auto simp: greatest_of_def least_def)
  have "B - {#t#} \<subseteq># A" using B(1) diff_subset_eq_self subset_mset.order_trans by blast
  moreover have "size (add_mset x (B - {#t#})) = k" using t(1) B(2) size_Suc_Diff1 [OF t(1)] by simp
  moreover have "A - (B - {#t#}) = add_mset t (A - B)"
  proof (rule multiset_eqI)
    fix z
    have "count B z \<le> count A z" using B(1) by (rule mset_subset_eq_count)
    moreover have "0 < count B t" using t(1) by simp
    ultimately show "count (A - (B - {#t#})) z = count (add_mset t (A - B)) z" by auto
  qed
  ultimately show ?thesis
  proof -
    assume 1: "B - {#t#} \<subseteq># A" "size (add_mset x (B - {#t#})) = k" "A - (B - {#t#}) = add_mset t (A - B)"
    have "le y z" if "z \<in># add_mset x (B - {#t#})" "y \<in># add_mset t (A - B)" for y z
    proof -
      have "le y t" using that(2) B(3) [OF t(1)] refl by auto
      moreover have "le t z" using that(1) t(2) assms(3) by (auto dest: in_diffD)
      ultimately show ?thesis by (rule trans)
    qed
    then show ?thesis using 1 assms(4) by (simp add: greatest_of_def)
  qed
qed

lemma add_greatest:
  assumes "greatest_of le k A B" "size A < k"
  shows "greatest_of le k (add_mset x A) (add_mset x B)"
proof -
  have "B \<subseteq># A" "size B = size A" using assms by (simp_all add: greatest_of_def)
  then have "B = A" using mset_subset_size subset_mset.less_le by fastforce
  then show ?thesis using assms(2) by (simp add: greatest_of_def)
qed

lemma drop_small:
  assumes "greatest_of le k A B" "\<forall>t. t \<in># B \<longrightarrow> le x t" "k \<le> size A"
  shows "greatest_of le k (add_mset x A) B"
proof -
  have B: "B \<subseteq># A" "size B = k" "\<And>x y. x \<in># B \<Longrightarrow> y \<in># A - B \<Longrightarrow> le y x"
    using assms by (auto simp: greatest_of_def)
  have "add_mset x A - B = add_mset x (A - B)" using B(1) by (simp add: multiset_eq_iff mset_subset_eq_count Suc_diff_le)
  then show ?thesis using B assms(2,3) by (auto simp: greatest_of_def intro: subset_mset.order_trans)
qed

lemma insert_all_greatest:
  assumes "good s" "greatest_of le (limit s) A (bag s)"
  shows "\<exists>s'. insert_all ins xs s = Some (Inr s') \<and> good s' \<and> limit s' = limit s
    \<and> greatest_of le (limit s) (A + mset xs) (bag s')"
  using assms
proof (induction xs arbitrary: s A)
  case (Cons x xs)
  have sz: "size (bag s) = min (limit s) (size A)" using Cons.prems(2) by (simp add: greatest_of_def)
  obtain s' where s': "ins s x = Some (Inr s')" "good s'" "limit s' = limit s"
      "greatest_of le (limit s) (add_mset x A) (bag s')"
  proof (cases "size (bag s) < limit s")
    case True
    then show ?thesis using below [OF Cons.prems(1) True, of x] add_greatest [OF Cons.prems(2)] sz that by fastforce
  next
    case False
    then have "limit s \<le> size (bag s)" "limit s \<le> size A" using sz by simp_all
    then show ?thesis
      using full [OF Cons.prems(1), of x] drop_small [OF Cons.prems(2)] replace_least [OF Cons.prems(2)] that by metis
  qed
  then show ?case using Cons.IH [OF s'(2), of "add_mset x A"] by simp
qed simp

end

end
