(* ===== verification/Long_Heap.thy ===== *)
theory Long_Heap
  imports Heap_Order
begin

text \<open>
  \<^verbatim>\<open>LongHeap\<close> (\<^verbatim>\<open>util/long_heap.rs\<close>): a binary min-heap of \<^verbatim>\<open>i64\<close> values in a vector that is used from slot 1 on. It
  is shown to be a priority queue of the multiset of its values, and to hold the greatest values
  it was given when it is used with a bound.

  The loop of \<^verbatim>\<open>down_heap\<close> does not end for every state (slot 0 is its own child), so it is a partial
  function; \<open>None\<close> stands for a call that does not return.
\<close>

record long_heap =
  lh_max_size :: nat
  lh_heap :: "i64 list"
  lh_size :: nat

section \<open>Operations\<close>

definition lh_new :: "nat \<Rightarrow> long_heap res" where
  "lh_new max_size =
     (if \<not> (1 \<le> max_size \<and> max_size < MAX_ARRAY_LENGTH) then Inl IllegalArgument
      else Inr \<lparr>lh_max_size = max_size, lh_heap = replicate (max_size + 1) 0, lh_size = 0\<rparr>)"

text \<open>
  \<^verbatim>\<open>up_heap\<close>: \<open>slot\<close> is also the number of slots of \<^verbatim>\<open>parents\<close>, the part of the vector before it.
\<close>

function up_loop :: "i64 list \<Rightarrow> nat \<Rightarrow> i64 \<Rightarrow> i64 list" where
  "up_loop h slot v =
     (if 1 < slot
      then let parent = h ! (slot div 2) in
           if sint parent \<le> sint v then h[slot := v] else up_loop (h[slot := parent]) (slot div 2) v
      else h[slot := v])"
  by pat_completeness auto

termination
  by (relation "measure (\<lambda>(h, slot, v). slot)") auto

declare up_loop.simps [simp del]

definition up_heap :: "i64 list \<Rightarrow> nat \<Rightarrow> i64 list res" where
  "up_heap h i = (if i < length h then Inr (up_loop h i (h ! i)) else Inl IllegalState)"

text \<open>The smaller child of a slot, or the left one if there is only that one.\<close>

definition child :: "i64 list \<Rightarrow> nat \<Rightarrow> nat \<Rightarrow> nat res" where
  "child h n i =
     (let j = 2 * i; k = j + 1 in
      if k \<le> n
      then rbind (idx h k) (\<lambda>a. rbind (idx h j) (\<lambda>b. Inr (j + of_bool (sint a < sint b))))
      else Inr j)"

partial_function (option) down_loop :: "i64 list \<Rightarrow> nat \<Rightarrow> i64 \<Rightarrow> nat \<Rightarrow> i64 list res option" where
  "down_loop h n v i =
     (case child h n i of
        Inl e \<Rightarrow> Some (Inl e)
      | Inr j \<Rightarrow>
          if j \<le> n
          then (case idx h j of
                  Inl e \<Rightarrow> Some (Inl e)
                | Inr w \<Rightarrow>
                    if sint w < sint v
                    then (case upd h i w of Inl e \<Rightarrow> Some (Inl e) | Inr h \<Rightarrow> down_loop h n v j)
                    else Some (upd h i v))
          else Some (upd h i v))"

definition down_heap :: "long_heap \<Rightarrow> nat \<Rightarrow> long_heap res option" where
  "down_heap s i =
     (case idx (lh_heap s) i of
        Inl e \<Rightarrow> Some (Inl e)
      | Inr v \<Rightarrow> map_option (\<lambda>r. rbind r (\<lambda>h. Inr (s\<lparr>lh_heap := h\<rparr>))) (down_loop (lh_heap s) (lh_size s) v i))"

definition lh_top :: "long_heap \<Rightarrow> i64 res" where
  "lh_top s = idx (lh_heap s) 1"

definition lh_push :: "long_heap \<Rightarrow> i64 \<Rightarrow> (i64 \<times> long_heap) res" where
  "lh_push s element =
     (let size = lh_size s + 1 in
      rbind (if size = length (lh_heap s)
             then let new_capacity = (size * 3 + 1) div 2 in
                  dassert (new_capacity \<le> 2 ^ 31 - 1) (grow_with 8 (lh_heap s) new_capacity 0)
             else Inr (lh_heap s)) (\<lambda>heap.
      rbind (upd heap size element) (\<lambda>heap.
      rbind (up_heap heap size) (\<lambda>heap.
      rbind (idx heap 1) (\<lambda>top. Inr (top, s\<lparr>lh_heap := heap, lh_size := size\<rparr>))))))"

definition lh_update_top :: "long_heap \<Rightarrow> i64 \<Rightarrow> (i64 \<times> long_heap) res option" where
  "lh_update_top s v =
     (case upd (lh_heap s) 1 v of
        Inl e \<Rightarrow> Some (Inl e)
      | Inr heap \<Rightarrow> map_option (\<lambda>r. rbind r (\<lambda>s. rbind (lh_top s) (\<lambda>top. Inr (top, s)))) (down_heap (s\<lparr>lh_heap := heap\<rparr>) 1))"

definition lh_insert_with_overflow :: "long_heap \<Rightarrow> i64 \<Rightarrow> (bool \<times> long_heap) res option" where
  "lh_insert_with_overflow s v =
     (if lh_max_size s \<le> lh_size s
      then (case lh_top s of
              Inl e \<Rightarrow> Some (Inl e)
            | Inr t \<Rightarrow>
                if sint v < sint t then Some (Inr (False, s))
                else map_option (\<lambda>r. rbind r (\<lambda>(_, s). Inr (True, s))) (lh_update_top s v))
      else Some (rbind (lh_push s v) (\<lambda>(_, s). Inr (True, s))))"

definition lh_pop :: "long_heap \<Rightarrow> (i64 \<times> long_heap) res option" where
  "lh_pop s =
     (if 0 < lh_size s
      then (case rbind (lh_top s) (\<lambda>top. rbind (idx (lh_heap s) (lh_size s)) (\<lambda>bottom.
                 rbind (upd (lh_heap s) 1 bottom) (\<lambda>heap. Inr (top, heap)))) of
              Inl e \<Rightarrow> Some (Inl e)
            | Inr (t, heap) \<Rightarrow>
                map_option (\<lambda>r. rbind r (\<lambda>s. Inr (t, s))) (down_heap (s\<lparr>lh_heap := heap, lh_size := lh_size s - 1\<rparr>) 1))
      else Some (Inl IllegalState))"

definition lh_clear :: "long_heap \<Rightarrow> long_heap" where
  "lh_clear s = s\<lparr>lh_size := 0\<rparr>"

definition lh_push_all :: "long_heap \<Rightarrow> long_heap \<Rightarrow> long_heap res" where
  "lh_push_all s other =
     for_each [1..<lh_size other + 1] (\<lambda>i s. rbind (idx (lh_heap other) i) (\<lambda>x.
       rbind (lh_push s x) (\<lambda>(_, s). Inr s))) s"

section \<open>The heap order\<close>

abbreviation le64 :: "i64 \<Rightarrow> i64 \<Rightarrow> bool" where
  "le64 a b \<equiv> sint a \<le> sint b"

interpretation i64: ranked le64
  by unfold_locales auto

definition lh_bag :: "long_heap \<Rightarrow> i64 multiset" where
  "lh_bag s = mset (take (lh_size s) (drop 1 (lh_heap s)))"

definition lh_wf :: "long_heap \<Rightarrow> bool" where
  "lh_wf s \<longleftrightarrow> lh_size s < length (lh_heap s) \<and> 2 \<le> length (lh_heap s)"

definition lh_inv :: "long_heap \<Rightarrow> bool" where
  "lh_inv s \<longleftrightarrow> lh_wf s \<and> heap_order le64 1 (lh_heap s) (lh_size s)"

lemma up_loop_spec:
  assumes "1 \<le> slot" "slot \<le> n" "n < length h"
    and "heap_off le64 1 (h[slot := v]) n slot" "below_kids le64 (h[slot := v]) n slot"
  shows "heap_order le64 1 (up_loop h slot v) n \<and> length (up_loop h slot v) = length h
    \<and> mset (take n (drop 1 (up_loop h slot v))) = mset (take n (drop 1 (h[slot := v])))"
  using assms
proof (induction h slot v rule: up_loop.induct)
  case (1 h slot v)
  let ?p = "slot div 2" and ?h = "h[slot := v]"
  have nth: "?h ! slot = v" "\<And>k. k \<noteq> slot \<Longrightarrow> ?h ! k = h ! k" using 1(3,4) by simp_all
  show ?case
  proof (cases "1 < slot \<and> \<not> sint (h ! ?p) \<le> sint v")
    case True
    have p: "?p \<noteq> slot" "1 \<le> ?p" "?p \<le> n" using True 1(3) by auto
    let ?h' = "?h[slot := ?h ! ?p, ?p := ?h ! slot]"
    have eq: "h[slot := h ! ?p, ?p := v] = ?h'" using p(1) nth by simp
    have lt: "\<not> le64 (?h ! ?p) (?h ! slot)" and s1: "1 < slot" "n < length ?h" using True nth p(1) 1(4) by simp_all
    note off = i64.off_up [OF 1(5) s1(1) 1(3) s1(2) lt]
    have "mset (take n (drop 1 ?h')) = mset (take n (drop 1 ?h))"
      by (rule mset_slots_swap) (use 1 p in simp_all)
    moreover have "heap_order le64 1 (up_loop (h[slot := h ! ?p]) ?p v) n \<and> length (up_loop (h[slot := h ! ?p]) ?p v) = length (h[slot := h ! ?p])
        \<and> mset (take n (drop 1 (up_loop (h[slot := h ! ?p]) ?p v))) = mset (take n (drop 1 (h[slot := h ! ?p, ?p := v])))"
      by (rule 1(1)) (use True p 1(4) off eq in simp_all)
    moreover have "up_loop h slot v = up_loop (h[slot := h ! ?p]) ?p v"
      using True by (simp add: up_loop.simps [of _ slot])
    ultimately show ?thesis using eq by simp
  next
    case False
    then have "up_loop h slot v = ?h" by (auto simp: up_loop.simps [of _ slot])
    moreover have "heap_order le64 1 ?h n"
      using 1(5) _ 1(6,2)
    proof (rule heap_orderI)
      assume "2 \<le> slot"
      then show "heap_edge le64 ?h slot" using False nth(2) [of ?p] nth(1) by (simp add: heap_edge_def)
    qed
    ultimately show ?thesis by simp
  qed
qed

lemma child_cases:
  assumes "1 \<le> i" "n < length h"
  shows "\<exists>j. child h n i = Inr j \<and> j div 2 = i \<and> i < j
    \<and> (j \<le> n \<longrightarrow> (\<forall>c. c \<le> n \<longrightarrow> c div 2 = i \<longrightarrow> sint (h ! j) \<le> sint (h ! c)))
    \<and> (\<not> j \<le> n \<longrightarrow> (\<forall>c. c div 2 = i \<longrightarrow> n < c))"
proof -
  let ?a = "sint (h ! (2 * i + 1)) < sint (h ! (2 * i))"
  have kids: "c div 2 = i \<longleftrightarrow> c = 2 * i \<or> c = 2 * i + 1" for c by auto
  consider "2 * i + 1 \<le> n" ?a | "2 * i + 1 \<le> n" "\<not> ?a" | "\<not> 2 * i + 1 \<le> n" by blast
  then show ?thesis
  proof cases
    case 1
    then show ?thesis
      using assms unfolding kids by (intro exI [of _ "2 * i + 1"]) (simp add: child_def)
  next
    case 2
    then show ?thesis
      using assms unfolding kids by (intro exI [of _ "2 * i"]) (simp add: child_def)
  next
    case 3
    then show ?thesis
      using assms unfolding kids by (intro exI [of _ "2 * i"]) (auto simp: child_def)
  qed
qed

text \<open>The loop returns whatever the contents, and restores the order where only its slot was out of place.\<close>

lemma down_loop_spec:
  assumes "1 \<le> i" "i < length h" "n < length h"
  shows "\<exists>h'. down_loop h n v i = Some (Inr h') \<and> length h' = length h
    \<and> (i \<le> n \<longrightarrow> mset (take n (drop 1 h')) = mset (take n (drop 1 (h[i := v]))))
    \<and> (heap_off le64 1 (h[i := v]) n i \<longrightarrow> (2 \<le> i \<longrightarrow> heap_edge le64 (h[i := v]) i) \<longrightarrow> heap_order le64 1 h' n)"
  using assms
proof (induction "n - i" arbitrary: i h rule: less_induct)
  case less
  let ?h = "h[i := v]"
  have nth: "?h ! i = v" "\<And>k. k \<noteq> i \<Longrightarrow> ?h ! k = h ! k" using less.prems(2) by simp_all
  obtain j where j: "child h n i = Inr j" "j div 2 = i" "i < j"
    and least: "j \<le> n \<Longrightarrow> \<forall>c. c \<le> n \<longrightarrow> c div 2 = i \<longrightarrow> sint (h ! j) \<le> sint (h ! c)"
    and none: "\<not> j \<le> n \<Longrightarrow> \<forall>c. c div 2 = i \<longrightarrow> n < c"
    using child_cases [OF less.prems(1,3)] by blast
  have kid: "c \<noteq> i" if "c div 2 = i" for c using that less.prems(1) by auto
  show ?case
  proof (cases "j \<le> n \<and> sint (h ! j) < sint v")
    case True
    let ?h1 = "h[i := h ! j]" and ?h' = "?h[i := ?h ! j, j := ?h ! i]"
    have eq: "?h1[j := v] = ?h'" using j(3) nth by simp
    have step: "down_loop h n v i = down_loop ?h1 n v j"
      using True j(1) less.prems by (subst down_loop.simps) simp
    obtain h' where h': "down_loop ?h1 n v j = Some (Inr h')" "length h' = length h"
      "mset (take n (drop 1 h')) = mset (take n (drop 1 (?h1[j := v])))"
      "heap_off le64 1 (?h1[j := v]) n j \<longrightarrow> heap_edge le64 (?h1[j := v]) j \<longrightarrow> heap_order le64 1 h' n"
      using less.hyps [of j ?h1] True j(3) less.prems diff_less_mono2 [of i j n] by auto
    have "mset (take n (drop 1 ?h')) = mset (take n (drop 1 ?h))"
      by (rule mset_slots_swap) (use less.prems True j(3) in simp_all)
    moreover have "heap_off le64 1 ?h' n j \<and> heap_edge le64 ?h' j" if "heap_off le64 1 ?h n i"
    proof -
      have lt: "\<not> le64 (?h ! i) (?h ! j)" using True j(3) nth by simp
      have le: "le64 (?h ! j) (?h ! c)" if "c \<le> n" "c div 2 = i" for c
        using True least that nth(2) [of j] nth(2) [OF kid [OF that(2)]] j(3) by simp
      have jn: "j \<le> n" "n < length ?h" using True less.prems(3) by simp_all
      from i64.off_down [OF that(1) less.prems(1) j(2) jn lt le less.prems(1)] show ?thesis by blast
    qed
    ultimately show ?thesis using step h' eq by simp
  next
    case False
    then have "down_loop h n v i = Some (Inr ?h)"
      using j(1) less.prems by (subst down_loop.simps) auto
    moreover have "heap_order le64 1 ?h n" if "heap_off le64 1 ?h n i" "2 \<le> i \<longrightarrow> heap_edge le64 ?h i"
    proof (rule heap_orderI [OF that(1)])
      show "below_kids le64 ?h n i"
        unfolding below_kids_def
      proof (intro allI impI)
        fix c
        assume c: "c \<le> n" "c div 2 = i"
        then have "j \<le> n" using none by force
        then have "sint v \<le> sint (h ! c)" using False least c by fastforce
        then show "le64 (?h ! i) (?h ! c)" using nth kid [OF c(2)] by simp
      qed
    qed (use that less.prems in auto)
    ultimately show ?thesis by simp
  qed
qed

section \<open>A priority queue of the values\<close>

lemma lh_size_bag: "lh_wf s \<Longrightarrow> size (lh_bag s) = lh_size s"
  by (auto simp: lh_bag_def lh_wf_def)

lemma top_least:
  assumes "lh_inv s" "0 < lh_size s"
  shows "\<exists>t. lh_top s = Inr t \<and> t = lh_heap s ! 1 \<and> least le64 t (lh_bag s)"
proof -
  have wf: "lh_wf s" using assms(1) by (simp add: lh_inv_def)
  have "le64 (lh_heap s ! 1) y" if "1 \<le> i \<and> i \<le> lh_size s \<and> lh_heap s ! i = y" for i y
    using i64.root_least [of "lh_heap s" "lh_size s" i] assms(1) that by (auto simp: lh_inv_def)
  then have "least le64 (lh_heap s ! 1) (lh_bag s)"
    unfolding least_def lh_bag_def set_mset_mset using wf assms(2) in_slots [of "lh_size s" "lh_heap s"]
    by (auto simp: lh_wf_def)
  then show ?thesis using wf by (simp add: lh_top_def lh_wf_def)
qed

lemma bag_first: "lh_wf s \<Longrightarrow> 0 < lh_size s \<Longrightarrow> lh_bag s = add_mset (lh_heap s ! 1) (mset (take (lh_size s - 1) (drop 2 (lh_heap s))))"
  unfolding lh_bag_def lh_wf_def by (subst slots_first) simp_all

lemma down_heap_spec:
  assumes "lh_wf s"
  shows "\<exists>s'. down_heap s 1 = Some (Inr s') \<and> lh_wf s' \<and> lh_size s' = lh_size s \<and> lh_max_size s' = lh_max_size s
    \<and> length (lh_heap s') = length (lh_heap s) \<and> lh_bag s' = lh_bag s \<and> (heap_off le64 1 (lh_heap s) (lh_size s) 1 \<longrightarrow> lh_inv s')"
proof -
  obtain h where h: "down_loop (lh_heap s) (lh_size s) (lh_heap s ! 1) 1 = Some (Inr h)" "length h = length (lh_heap s)"
      "1 \<le> lh_size s \<longrightarrow> mset (take (lh_size s) (drop 1 h)) = mset (take (lh_size s) (drop 1 (lh_heap s)))"
      "heap_off le64 1 (lh_heap s) (lh_size s) 1 \<longrightarrow> heap_order le64 1 h (lh_size s)"
    using down_loop_spec [of 1 "lh_heap s" "lh_size s" "lh_heap s ! 1"] assms by (auto simp: lh_wf_def)
  have "lh_bag (s\<lparr>lh_heap := h\<rparr>) = lh_bag s" using h(3) by (cases "lh_size s") (simp_all add: lh_bag_def)
  then show ?thesis using h assms by (simp add: down_heap_def lh_wf_def lh_inv_def)
qed

lemma push_spec:
  assumes "lh_inv s" "lh_size s + 1 < length (lh_heap s) \<or> lh_size s < 2 ^ 30"
  shows "\<exists>t s'. lh_push s x = Inr (t, s') \<and> lh_inv s' \<and> lh_bag s' = add_mset x (lh_bag s) \<and> least le64 t (lh_bag s')
    \<and> lh_size s' = lh_size s + 1 \<and> lh_max_size s' = lh_max_size s \<and> length (lh_heap s) \<le> length (lh_heap s')"
proof -
  let ?n = "lh_size s + 1"
  have wf: "lh_size s < length (lh_heap s)" "2 \<le> length (lh_heap s)" and ord: "heap_order le64 1 (lh_heap s) (lh_size s)"
    using assms(1) by (simp_all add: lh_inv_def lh_wf_def)
  obtain zs where g: "(if ?n = length (lh_heap s) then let new_capacity = (?n * 3 + 1) div 2 in
      dassert (new_capacity \<le> 2 ^ 31 - 1) (grow_with 8 (lh_heap s) new_capacity 0) else Inr (lh_heap s)) = Inr (lh_heap s @ zs)"
    and n: "?n < length (lh_heap s @ zs)"
  proof (cases "?n = length (lh_heap s)")
    case True
    have "(?n * 3 + 1) div 2 \<le> 2 ^ 31 - 1" "?n < (?n * 3 + 1) div 2" using assms(2) True wf by auto
    then show ?thesis
      using that [of "replicate ((?n * 3 + 1) div 2 - length (lh_heap s)) 0"] True
      by (simp add: grow_with_ok MAX_ARRAY_LENGTH_def Let_def)
  next
    case False
    then show ?thesis using that [of "[]"] wf(1) by simp
  qed
  let ?h = "lh_heap s @ zs" let ?h1 = "?h[?n := x]"
  have "heap_off le64 1 ?h1 ?n ?n"
    using ord wf(1) by (auto simp: heap_off_def heap_order_def heap_edge_def nth_append nth_list_update)
  then have "heap_order le64 1 (up_loop ?h1 ?n x) ?n \<and> length (up_loop ?h1 ?n x) = length ?h1
    \<and> mset (take ?n (drop 1 (up_loop ?h1 ?n x))) = mset (take ?n (drop 1 (?h1[?n := x])))"
    by (intro up_loop_spec) (use n in \<open>auto simp: below_kids_def\<close>)
  then have up: "heap_order le64 1 (up_loop ?h1 ?n x) ?n" "length (up_loop ?h1 ?n x) = length ?h"
    "mset (take ?n (drop 1 (up_loop ?h1 ?n x))) = mset (take ?n (drop 1 ?h1))" by simp_all
  have "take ?n (drop 1 ?h1) = take (lh_size s) (drop 1 ?h) @ [x]"
    using slots_snoc [OF n] .
  also have "take (lh_size s) (drop 1 ?h) = take (lh_size s) (drop 1 (lh_heap s))" using wf by simp
  finally have bag: "mset (take ?n (drop 1 (up_loop ?h1 ?n x))) = add_mset x (lh_bag s)"
    unfolding up(3) by (simp add: lh_bag_def)
  let ?s = "s\<lparr>lh_heap := up_loop ?h1 ?n x, lh_size := ?n\<rparr>"
  have inv: "lh_inv ?s" using up(1,2) n wf by (simp add: lh_inv_def lh_wf_def)
  have "lh_push s x = Inr (lh_heap ?s ! 1, ?s)"
    unfolding lh_push_def Let_def g [unfolded Let_def] rbind_simps using n up(2) wf by (simp add: up_heap_def)
  moreover have "least le64 (lh_heap ?s ! 1) (lh_bag ?s)" using top_least [OF inv] by auto
  moreover have "lh_bag ?s = add_mset x (lh_bag s)" using bag by (simp add: lh_bag_def)
  moreover have "length (lh_heap s) \<le> length (lh_heap ?s)" using up(2) by simp
  ultimately show ?thesis using inv by auto
qed

lemma update_top_spec:
  assumes "lh_inv s" "0 < lh_size s"
  shows "\<exists>t s' b. lh_update_top s v = Some (Inr (t, s')) \<and> lh_inv s' \<and> lh_top s = Inr b \<and> least le64 b (lh_bag s)
    \<and> lh_bag s' = add_mset v (lh_bag s - {#b#}) \<and> least le64 t (lh_bag s') \<and> lh_size s' = lh_size s \<and> lh_max_size s' = lh_max_size s
    \<and> length (lh_heap s') = length (lh_heap s)"
proof -
  have wf: "lh_wf s" and ord: "heap_order le64 1 (lh_heap s) (lh_size s)" using assms(1) by (simp_all add: lh_inv_def)
  let ?s = "s\<lparr>lh_heap := (lh_heap s)[1 := v]\<rparr>"
  have wf': "lh_wf ?s" using wf by (simp add: lh_wf_def)
  obtain s' where s': "down_heap ?s 1 = Some (Inr s')" "lh_inv s'" "lh_size s' = lh_size s" "lh_max_size s' = lh_max_size s"
      "lh_bag s' = lh_bag ?s" "length (lh_heap s') = length (lh_heap s)"
    using down_heap_spec [OF wf'] i64.off_update [OF ord, of 1 v] wf by (auto simp: lh_wf_def)
  obtain b where b: "lh_top s = Inr b" "b = lh_heap s ! 1" "least le64 b (lh_bag s)" using top_least [OF assms] by auto
  obtain t where t: "lh_top s' = Inr t" "least le64 t (lh_bag s')" using top_least [OF s'(2)] s'(3) assms(2) by auto
  have "lh_bag ?s = add_mset v (lh_bag s - {#b#})"
    using bag_first [OF wf assms(2)] bag_first [OF wf'] assms(2) wf b(2) by (simp add: lh_wf_def)
  then show ?thesis
    using s' b t wf by (auto simp: lh_update_top_def lh_wf_def)
qed

lemma pop_spec:
  assumes "lh_inv s" "0 < lh_size s"
  shows "\<exists>t s'. lh_pop s = Some (Inr (t, s')) \<and> lh_inv s' \<and> least le64 t (lh_bag s) \<and> lh_bag s' = lh_bag s - {#t#}
    \<and> lh_size s' = lh_size s - 1 \<and> lh_max_size s' = lh_max_size s"
proof -
  let ?n = "lh_size s" and ?h = "lh_heap s"
  have wf: "lh_wf s" and ord: "heap_order le64 1 ?h ?n" using assms(1) by (simp_all add: lh_inv_def)
  let ?s = "s\<lparr>lh_heap := ?h[1 := ?h ! ?n], lh_size := ?n - 1\<rparr>"
  have wf': "lh_wf ?s" using wf by (auto simp: lh_wf_def)
  have "heap_off le64 1 (lh_heap ?s) (lh_size ?s) 1"
    using i64.off_update [OF heap_order_mono [OF ord, of "?n - 1"], of 1] wf by (simp add: lh_wf_def)
  then obtain s' where s': "down_heap ?s 1 = Some (Inr s')" "lh_inv s'" "lh_size s' = ?n - 1" "lh_max_size s' = lh_max_size s"
      "lh_bag s' = lh_bag ?s"
    using down_heap_spec [OF wf'] by auto
  obtain t where t: "lh_top s = Inr t" "t = ?h ! 1" "least le64 t (lh_bag s)" using top_least [OF assms] by auto
  have "lh_bag ?s = lh_bag s - {#t#}"
  proof (cases "?n = 1")
    case True
    then show ?thesis using bag_first [OF wf] t(2) by (simp add: lh_bag_def)
  next
    case False
    define m where "m = ?n - 2"
    have m: "?n = Suc (Suc m)" using False assms(2) by (simp add: m_def)
    have "take (Suc m) (drop 2 ?h) = take m (drop 2 ?h) @ [?h ! ?n]"
      using wf m take_Suc_conv_app_nth [of m "drop 2 ?h"] by (auto simp: lh_wf_def)
    then have "lh_bag s = add_mset t (mset (take m (drop 2 ?h) @ [?h ! ?n]))"
      using bag_first [OF wf assms(2)] t(2) m by simp
    then show ?thesis using bag_first [OF wf'] m wf by (simp add: lh_wf_def)
  qed
  then show ?thesis using s' t wf assms(2) by (auto simp: lh_pop_def lh_wf_def)
qed

lemma push_all_spec:
  assumes "lh_inv s" "lh_wf other" "lh_size s + lh_size other < 2 ^ 30"
  shows "\<exists>s'. lh_push_all s other = Inr s' \<and> lh_inv s' \<and> lh_bag s' = lh_bag s + lh_bag other"
proof -
  let ?P = "\<lambda>i t. lh_inv t \<and> lh_size t = lh_size s + (i - 1) \<and> lh_bag t = lh_bag s + mset (take (i - 1) (drop 1 (lh_heap other)))"
  have "\<exists>s'. lh_push_all s other = Inr s' \<and> ?P (lh_size other + 1) s'"
    unfolding lh_push_all_def
  proof (rule for_each_upt_rule)
    fix i t
    assume i: "1 \<le> i" "i < lh_size other + 1" and t: "?P i t"
    have len: "i < length (lh_heap other)" using i(2) assms(2) by (simp add: lh_wf_def)
    obtain m where m: "i = Suc m" using i(1) by (cases i) auto
    have "lh_size t < 2 ^ 30" using t i assms(3) by simp
    then obtain r t' where p: "lh_push t (lh_heap other ! i) = Inr (r, t')" "lh_inv t'"
        "lh_bag t' = add_mset (lh_heap other ! i) (lh_bag t)" "lh_size t' = lh_size t + 1"
      using push_spec [of t "lh_heap other ! i"] t by auto
    have "take i (drop 1 (lh_heap other)) = take (i - 1) (drop 1 (lh_heap other)) @ [lh_heap other ! i]"
      using len m by (simp add: take_Suc_conv_app_nth)
    then show "\<exists>s'. rbind (idx (lh_heap other) i) (\<lambda>x. rbind (lh_push t x) (\<lambda>(_, s). Inr s)) = Inr s' \<and> ?P (Suc i) s'"
      using len p t i(1) by simp
  qed (use assms in simp_all)
  then show ?thesis by (auto simp: lh_bag_def)
qed

text \<open>
  C35. A \<^verbatim>\<open>LongHeap\<close> is a priority queue of the multiset of its values: \<^verbatim>\<open>push\<close> adds a value and returns the new
  least one, \<^verbatim>\<open>pop\<close> removes and returns the least one and fails on the empty heap, \<^verbatim>\<open>update_top\<close> replaces the
  least one, \<^verbatim>\<open>push_all\<close> adds the values of another heap and \<^verbatim>\<open>clear\<close> removes all; every operation keeps the heap
  order.
\<close>

theorem long_heap_refines:
  assumes "lh_inv s"
  shows "(lh_size s < 2 ^ 30 \<longrightarrow> (\<exists>t s'. lh_push s x = Inr (t, s') \<and> lh_inv s' \<and> lh_bag s' = add_mset x (lh_bag s) \<and> least le64 t (lh_bag s')))
    \<and> (if lh_bag s = {#} then lh_pop s = Some (Inl IllegalState)
       else (\<exists>t s'. lh_pop s = Some (Inr (t, s')) \<and> lh_inv s' \<and> least le64 t (lh_bag s) \<and> lh_bag s' = lh_bag s - {#t#})
         \<and> (\<exists>t s' b. lh_update_top s x = Some (Inr (t, s')) \<and> lh_inv s' \<and> lh_top s = Inr b \<and> least le64 b (lh_bag s)
              \<and> lh_bag s' = add_mset x (lh_bag s - {#b#}) \<and> least le64 t (lh_bag s')))
    \<and> (lh_inv other \<and> lh_size s + lh_size other < 2 ^ 30 \<longrightarrow>
         (\<exists>s'. lh_push_all s other = Inr s' \<and> lh_inv s' \<and> lh_bag s' = lh_bag s + lh_bag other))
    \<and> lh_inv (lh_clear s) \<and> lh_bag (lh_clear s) = {#}"
proof (intro conjI impI)
  have wf: "lh_wf s" using assms by (simp add: lh_inv_def)
  show "\<exists>t s'. lh_push s x = Inr (t, s') \<and> lh_inv s' \<and> lh_bag s' = add_mset x (lh_bag s) \<and> least le64 t (lh_bag s')"
    if "lh_size s < 2 ^ 30" using push_spec [OF assms, of x] that by blast
  show "if lh_bag s = {#} then lh_pop s = Some (Inl IllegalState)
       else (\<exists>t s'. lh_pop s = Some (Inr (t, s')) \<and> lh_inv s' \<and> least le64 t (lh_bag s) \<and> lh_bag s' = lh_bag s - {#t#})
         \<and> (\<exists>t s' b. lh_update_top s x = Some (Inr (t, s')) \<and> lh_inv s' \<and> lh_top s = Inr b \<and> least le64 b (lh_bag s)
              \<and> lh_bag s' = add_mset x (lh_bag s - {#b#}) \<and> least le64 t (lh_bag s'))"
  proof (cases "lh_size s = 0")
    case True
    then show ?thesis by (simp add: lh_pop_def lh_bag_def)
  next
    case False
    then have "lh_bag s \<noteq> {#}" using lh_size_bag [OF wf] by auto
    then show ?thesis using False pop_spec [OF assms] update_top_spec [OF assms, of x] by auto
  qed
  show "\<exists>s'. lh_push_all s other = Inr s' \<and> lh_inv s' \<and> lh_bag s' = lh_bag s + lh_bag other"
    if "lh_inv other \<and> lh_size s + lh_size other < 2 ^ 30"
    using push_all_spec [OF assms, of other] that by (simp add: lh_inv_def)
  show "lh_inv (lh_clear s)" using assms by (auto simp: lh_clear_def lh_inv_def lh_wf_def heap_order_def)
  show "lh_bag (lh_clear s) = {#}" by (simp add: lh_clear_def lh_bag_def)
qed

text \<open>A heap with one free slot.\<close>

definition lh_sample :: long_heap where
  "lh_sample = \<lparr>lh_max_size = 3, lh_heap = [0, 2, 7, 0], lh_size = 2\<rparr>"

lemma lh_sample_inv: "lh_inv lh_sample" "lh_bag lh_sample = {#2, 7#}"
proof -
  have "c = 2" if "2 \<le> c" "c \<le> 2" for c :: nat using that by simp
  then show "lh_inv lh_sample" by (auto simp: lh_inv_def lh_wf_def lh_sample_def heap_order_def heap_edge_def)
  show "lh_bag lh_sample = {#2, 7#}" by (simp add: lh_bag_def lh_sample_def numeral_2_eq_2)
qed

theorem long_heap_refines_witness:
  "lh_inv lh_sample \<and> (\<exists>t s'. lh_push lh_sample (-5) = Inr (t, s') \<and> lh_bag s' = {#-5, 2, 7#} \<and> least le64 t (lh_bag s'))
   \<and> (\<exists>t s'. lh_pop lh_sample = Some (Inr (t, s')) \<and> lh_bag s' = {#2, 7#} - {#t#})"
  using long_heap_refines [OF lh_sample_inv(1), of "-5" lh_sample] lh_sample_inv
  by (auto simp: lh_sample_def)

text \<open>
  C36. The loops of the heap end and do not panic whatever its slots hold: from every slot from 1 on
  \<^verbatim>\<open>down_heap\<close> returns and only permutes the values, so that \<^verbatim>\<open>pop\<close>, \<^verbatim>\<open>update_top\<close> and
  \<^verbatim>\<open>insert_with_overflow\<close> return for every heap whose size is within its array.
\<close>

theorem long_heap_returns:
  assumes "lh_size s < length (lh_heap s)" "2 \<le> length (lh_heap s)" "1 \<le> i" "i < length (lh_heap s)"
  shows "(\<exists>s'. down_heap s i = Some (Inr s') \<and> lh_size s' = lh_size s \<and> (i \<le> lh_size s \<longrightarrow> lh_bag s' = lh_bag s))
    \<and> (\<exists>r. lh_pop s = Some r) \<and> (\<exists>t s'. lh_update_top s v = Some (Inr (t, s'))) \<and> (\<exists>r. lh_insert_with_overflow s v = Some r)"
proof -
  have loop: "\<exists>s'. down_heap t i = Some (Inr s') \<and> lh_size s' = lh_size t \<and> length (lh_heap s') = length (lh_heap t)
      \<and> (i \<le> lh_size t \<longrightarrow> lh_bag s' = lh_bag t)"
    if "lh_wf t" "1 \<le> i" "i < length (lh_heap t)" for t i
    using down_loop_spec [of i "lh_heap t" "lh_size t" "lh_heap t ! i"] that
    by (auto simp: down_heap_def lh_wf_def lh_bag_def)
  have wf: "lh_wf s" using assms(1,2) by (simp add: lh_wf_def)
  have up: "\<exists>t s'. lh_update_top s v = Some (Inr (t, s'))"
    using loop [of "s\<lparr>lh_heap := (lh_heap s)[1 := v]\<rparr>" 1] wf by (auto simp: lh_update_top_def lh_wf_def lh_top_def)
  have "\<exists>r. lh_pop s = Some r"
  proof (cases "0 < lh_size s")
    case True
    have "lh_size s - 1 < length (lh_heap s)" using wf by (auto simp: lh_wf_def)
    then show ?thesis
      using True loop [of "s\<lparr>lh_heap := (lh_heap s)[1 := lh_heap s ! lh_size s], lh_size := lh_size s - 1\<rparr>" 1] wf
      by (auto simp: lh_pop_def lh_wf_def lh_top_def)
  qed (simp add: lh_pop_def)
  moreover have "\<exists>r. lh_insert_with_overflow s v = Some r"
    using up wf by (auto simp: lh_insert_with_overflow_def lh_top_def lh_wf_def)
  ultimately show ?thesis using loop [OF wf assms(3,4)] up by blast
qed

theorem long_heap_returns_witness:
  "\<exists>s'. down_heap \<lparr>lh_max_size = 3, lh_heap = [0, 9, 8, -7], lh_size = 3\<rparr> 1 = Some (Inr s') \<and> lh_bag s' = {#9, 8, -7#}"
  using long_heap_returns [of "\<lparr>lh_max_size = 3, lh_heap = [0, 9, 8, -7], lh_size = 3\<rparr>" 1]
  by (auto simp: lh_bag_def numeral_3_eq_3)

section \<open>Keeping the greatest values\<close>

definition lh_bounded :: "long_heap \<Rightarrow> bool" where
  "lh_bounded s \<longleftrightarrow> lh_inv s \<and> lh_size s \<le> lh_max_size s \<and> 1 \<le> lh_max_size s \<and> lh_max_size s < length (lh_heap s)"

definition lh_offer :: "long_heap \<Rightarrow> i64 \<Rightarrow> long_heap res option" where
  "lh_offer s x = map_option (\<lambda>r. rbind r (\<lambda>(_, s). Inr s)) (lh_insert_with_overflow s x)"

interpretation long_queue: bounded_queue le64 lh_offer lh_bounded lh_bag lh_max_size
proof unfold_locales
  fix s x
  assume s: "lh_bounded s" "size (lh_bag s) < lh_max_size s"
  have inv: "lh_inv s" and sz: "size (lh_bag s) = lh_size s" using s(1) lh_size_bag by (auto simp: lh_bounded_def lh_inv_def)
  have "lh_size s + 1 < length (lh_heap s)" using s sz by (simp add: lh_bounded_def)
  then show "\<exists>s'. lh_offer s x = Some (Inr s') \<and> lh_bounded s' \<and> lh_max_size s' = lh_max_size s \<and> lh_bag s' = add_mset x (lh_bag s)"
    using push_spec [OF inv, of x] s sz by (auto simp: lh_offer_def lh_insert_with_overflow_def lh_bounded_def)
next
  fix s x
  assume s: "lh_bounded s" "lh_max_size s \<le> size (lh_bag s)"
  have inv: "lh_inv s" and sz: "size (lh_bag s) = lh_size s" using s(1) lh_size_bag by (auto simp: lh_bounded_def lh_inv_def)
  have n: "0 < lh_size s" "lh_size s = lh_max_size s" using s sz by (auto simp: lh_bounded_def)
  obtain t where t: "lh_top s = Inr t" "least le64 t (lh_bag s)" using top_least [OF inv n(1)] by blast
  show "\<exists>s'. lh_offer s x = Some (Inr s') \<and> lh_bounded s' \<and> lh_max_size s' = lh_max_size s \<and>
        ((lh_bag s' = lh_bag s \<and> (\<forall>t. t \<in># lh_bag s \<longrightarrow> le64 x t))
         \<or> (\<exists>t. least le64 t (lh_bag s) \<and> le64 t x \<and> lh_bag s' = add_mset x (lh_bag s - {#t#})))"
  proof (cases "sint x < sint t")
    case True
    then have "\<forall>t. t \<in># lh_bag s \<longrightarrow> le64 x t" using t(2) by (fastforce simp: least_def)
    then show ?thesis using True t s n by (auto simp: lh_offer_def lh_insert_with_overflow_def)
  next
    case False
    obtain u s' where u: "lh_update_top s x = Some (Inr (u, s'))" "lh_inv s'" "lh_bag s' = add_mset x (lh_bag s - {#t#})"
        "lh_size s' = lh_size s" "lh_max_size s' = lh_max_size s" "length (lh_heap s') = length (lh_heap s)"
      using update_top_spec [OF inv n(1), of x] t(1) by auto
    then have "lh_offer s x = Some (Inr s')" "lh_bounded s'"
      using t(1) n s(1) False by (simp_all add: lh_offer_def lh_insert_with_overflow_def lh_bounded_def)
    moreover have "least le64 t (lh_bag s) \<and> le64 t x \<and> lh_bag s' = add_mset x (lh_bag s - {#t#})" using t(2) u(3) False by simp
    ultimately show ?thesis using u(5) by blast
  qed
qed

lemma lh_new_bounded: "lh_new k = Inr s \<Longrightarrow> lh_bounded s \<and> lh_bag s = {#} \<and> lh_max_size s = k"
  by (auto simp: lh_new_def lh_bounded_def lh_inv_def lh_wf_def lh_bag_def heap_order_def split: if_splits)

text \<open>
  A heap of size \<open>k\<close> to which values are given with \<^verbatim>\<open>insert_with_overflow\<close> holds the \<open>k\<close> greatest of them:
  every call returns, and no value that was dropped or pushed out is above one that is held.
\<close>

lemma long_heap_keeps_greatest:
  assumes "lh_new k = Inr s"
  shows "\<exists>s'. insert_all lh_offer xs s = Some (Inr s') \<and> lh_inv s' \<and> greatest_of le64 k (mset xs) (lh_bag s')"
proof -
  have s: "lh_bounded s" "lh_bag s = {#}" "lh_max_size s = k" using lh_new_bounded [OF assms] by auto
  have "greatest_of le64 (lh_max_size s) {#} (lh_bag s)" using s(2) by (simp add: greatest_of_def)
  from long_queue.insert_all_greatest [OF s(1) this, of xs] show ?thesis using s(3) by (auto simp: lh_bounded_def)
qed

lemma long_heap_keeps_greatest_example:
  "\<exists>s'. insert_all lh_offer [5, -3, 9, 1] \<lparr>lh_max_size = 2, lh_heap = [0, 0, 0], lh_size = 0\<rparr> = Some (Inr s')
     \<and> greatest_of le64 2 {#5, -3, 9, 1#} (lh_bag s')"
proof -
  have "lh_new 2 = Inr \<lparr>lh_max_size = 2, lh_heap = [0, 0, 0], lh_size = 0\<rparr>"
    by (simp add: lh_new_def MAX_ARRAY_LENGTH_def numeral_3_eq_3)
  from long_heap_keeps_greatest [OF this, of "[5, -3, 9, 1]"] show ?thesis by auto
qed

end
