(* ===== verification/Priority_Queue.thy ===== *)
theory Priority_Queue
  imports Heap_Order
begin

text \<open>
  \<^verbatim>\<open>PriorityQueue\<close> (\<^verbatim>\<open>util/priority_queue.rs\<close>): a binary heap of bounded size over an arbitrary comparison, with
  an \<^verbatim>\<open>Option\<close> in every slot. \<open>lt\<close> is \<^verbatim>\<open>Compare::less_than\<close>, which may fail. References that the code hands out
  are the values they point to; changing the top through \<^verbatim>\<open>top_mut\<close> and calling \<^verbatim>\<open>update_top\<close> is
  \<^verbatim>\<open>update_top_with_new_top\<close>.
\<close>

record 'a priority_queue =
  pq_size :: nat
  pq_max_size :: nat
  pq_heap :: "'a option list"

section \<open>Operations\<close>

text \<open>\<open>supplier i\<close> is the result of the call number \<open>i\<close> of the supplier of sentinels.\<close>

definition pq_with_sentinel_object :: "nat \<Rightarrow> (nat \<Rightarrow> 'a option) \<Rightarrow> 'a priority_queue res" where
  "pq_with_sentinel_object max_size supplier =
     rbind (if max_size = 0 then Inr 2
            else if \<not> max_size < 2 ^ 31 - 1 then Inl IllegalArgument
            else Inr (max_size + 1)) (\<lambda>heap_size.
     let heap = replicate heap_size None in
     case supplier 0 of
       Some sentinel \<Rightarrow>
         rbind (upd heap 1 (Some sentinel)) (\<lambda>heap.
         rbind (for_each [2..<length heap] (\<lambda>i heap.
             case supplier (i - 1) of None \<Rightarrow> Inl IllegalState | Some x \<Rightarrow> upd heap i (Some x)) heap) (\<lambda>heap.
         Inr \<lparr>pq_size = max_size, pq_max_size = max_size, pq_heap = heap\<rparr>))
     | None \<Rightarrow> Inr \<lparr>pq_size = 0, pq_max_size = max_size, pq_heap = heap\<rparr>)"

definition pq_new :: "nat \<Rightarrow> 'a priority_queue res" where
  "pq_new max_size = pq_with_sentinel_object max_size (\<lambda>_. None)"

definition pq_top :: "'a priority_queue \<Rightarrow> 'a option res" where
  "pq_top q = idx (pq_heap q) 1"

definition pq_take_top :: "'a priority_queue \<Rightarrow> ('a option \<times> 'a priority_queue) res" where
  "pq_take_top q =
     rbind (idx (pq_heap q) 1) (\<lambda>t. rbind (upd (pq_heap q) 1 None) (\<lambda>heap. Inr (t, q\<lparr>pq_heap := heap\<rparr>)))"

definition pq_clear :: "'a priority_queue \<Rightarrow> 'a priority_queue res" where
  "pq_clear q =
     rbind (slice (pq_heap q) 0 (pq_size q + 1)) (\<lambda>_.
     rbind (for_each [1..<pq_size q + 1] (\<lambda>i heap. upd heap i None) (pq_heap q)) (\<lambda>heap.
     Inr (q\<lparr>pq_heap := heap, pq_size := 0\<rparr>)))"

definition heap_value :: "'a option list \<Rightarrow> nat \<Rightarrow> 'a res" where
  "heap_value h i = rbind (idx h i) (\<lambda>v. case v of None \<Rightarrow> Inl IllegalState | Some x \<Rightarrow> Inr x)"

text \<open>\<^verbatim>\<open>Vec::swap\<close>.\<close>

definition swap_slots :: "'b list \<Rightarrow> nat \<Rightarrow> nat \<Rightarrow> 'b list res" where
  "swap_slots h i j = rbind (idx h i) (\<lambda>a. rbind (idx h j) (\<lambda>b. Inr (h[i := b, j := a])))"

lemma swap_slots_ok [simp]: "i < length h \<Longrightarrow> j < length h \<Longrightarrow> swap_slots h i j = Inr (h[i := h ! j, j := h ! i])"
  by (simp add: swap_slots_def)

function pq_up_loop :: "('a \<Rightarrow> 'a \<Rightarrow> bool res) \<Rightarrow> 'a option list \<Rightarrow> nat \<Rightarrow> ('a option list \<times> nat) res" where
  "pq_up_loop lt h i =
     (let j = i div 2 in
      if 0 < j
      then rbind (heap_value h i) (\<lambda>a. rbind (heap_value h j) (\<lambda>b. rbind (lt a b) (\<lambda>less.
           if less then rbind (swap_slots h i j) (\<lambda>h. pq_up_loop lt h j) else Inr (h, i))))
      else Inr (h, i))"
  by pat_completeness auto

termination
  by (relation "measure (\<lambda>(lt, h, i). i)") auto

declare pq_up_loop.simps [simp del]

definition pq_up_heap :: "('a \<Rightarrow> 'a \<Rightarrow> bool res) \<Rightarrow> 'a priority_queue \<Rightarrow> nat \<Rightarrow> (bool \<times> 'a priority_queue) res" where
  "pq_up_heap lt q orig_pos =
     rbind (pq_up_loop lt (pq_heap q) orig_pos) (\<lambda>(h, i). Inr (i \<noteq> orig_pos, q\<lparr>pq_heap := h\<rparr>))"

text \<open>The child to compare with: its slot and its value. The slices are split at the left child.\<close>

definition pq_child :: "('a \<Rightarrow> 'a \<Rightarrow> bool res) \<Rightarrow> 'a option list \<Rightarrow> nat \<Rightarrow> nat \<Rightarrow> (nat \<times> 'a) res" where
  "pq_child lt h n i =
     (let j = i * 2; k = j + 1 in
      if k \<le> n
      then rbind (heap_value h k) (\<lambda>right. rbind (heap_value h j) (\<lambda>left. rbind (lt right left) (\<lambda>less.
           Inr (if less then (k, right) else (j, left)))))
      else rbind (heap_value h j) (\<lambda>left. Inr (j, left)))"

function pq_down_loop :: "('a \<Rightarrow> 'a \<Rightarrow> bool res) \<Rightarrow> 'a option list \<Rightarrow> nat \<Rightarrow> nat \<Rightarrow> 'a option list res" where
  "pq_down_loop lt h n i =
     (if i * 2 \<le> n
      then rbind (pq_child lt h n i) (\<lambda>(j, child).
           rbind (heap_value (take (i * 2) h) i) (\<lambda>node.
           rbind (lt child node) (\<lambda>less.
           if less then rbind (swap_slots h i j) (\<lambda>h. pq_down_loop lt h n j) else Inr h)))
      else Inr h)"
  by pat_completeness auto

termination
  by (relation "measure (\<lambda>(lt, h, n, i). n - i)")
    (auto simp: heap_value_def pq_child_def Let_def res_simps split: if_splits)

declare pq_down_loop.simps [simp del]

definition pq_down_heap :: "('a \<Rightarrow> 'a \<Rightarrow> bool res) \<Rightarrow> 'a priority_queue \<Rightarrow> nat \<Rightarrow> 'a priority_queue res" where
  "pq_down_heap lt q i = rbind (pq_down_loop lt (pq_heap q) (pq_size q) i) (\<lambda>h. Inr (q\<lparr>pq_heap := h\<rparr>))"

definition pq_add_all_exact :: "('a \<Rightarrow> 'a \<Rightarrow> bool res) \<Rightarrow> 'a priority_queue \<Rightarrow> 'a list \<Rightarrow> 'a priority_queue res" where
  "pq_add_all_exact lt q elements =
     (if pq_max_size q < pq_size q + length elements
      then rbind (usub (pq_max_size q) (pq_size q)) (\<lambda>_. Inl ArrayIndexOutOfBounds)
      else
        rbind (for_each elements (\<lambda>e q.
            rbind (upd (pq_heap q) (pq_size q + 1) (Some e)) (\<lambda>heap.
            Inr (q\<lparr>pq_heap := heap, pq_size := pq_size q + 1\<rparr>))) q) (\<lambda>q.
        for_each (rev [1..<pq_size q div 2 + 1]) (\<lambda>i q. pq_down_heap lt q i) q))"

definition pq_add :: "('a \<Rightarrow> 'a \<Rightarrow> bool res) \<Rightarrow> 'a priority_queue \<Rightarrow> 'a \<Rightarrow> ('a \<times> 'a priority_queue) res" where
  "pq_add lt q element =
     (let index = pq_size q + 1 in
      if length (pq_heap q) \<le> index then Inl ArrayIndexOutOfBounds
      else
        rbind (upd (pq_heap q) index (Some element)) (\<lambda>heap.
        rbind (pq_up_heap lt (q\<lparr>pq_heap := heap, pq_size := index\<rparr>) index) (\<lambda>(_, q).
        rbind (heap_value (pq_heap q) 1) (\<lambda>t. Inr (t, q)))))"

definition pq_update_top :: "('a \<Rightarrow> 'a \<Rightarrow> bool res) \<Rightarrow> 'a priority_queue \<Rightarrow> ('a \<times> 'a priority_queue) res" where
  "pq_update_top lt q =
     rbind (pq_down_heap lt q 1) (\<lambda>q. rbind (heap_value (pq_heap q) 1) (\<lambda>t. Inr (t, q)))"

definition pq_update_top_with_new_top ::
  "('a \<Rightarrow> 'a \<Rightarrow> bool res) \<Rightarrow> 'a priority_queue \<Rightarrow> 'a \<Rightarrow> ('a \<times> 'a priority_queue) res" where
  "pq_update_top_with_new_top lt q new_top =
     rbind (upd (pq_heap q) 1 (Some new_top)) (\<lambda>heap. pq_update_top lt (q\<lparr>pq_heap := heap\<rparr>))"

definition pq_insert_with_overflow ::
  "('a \<Rightarrow> 'a \<Rightarrow> bool res) \<Rightarrow> 'a priority_queue \<Rightarrow> 'a \<Rightarrow> ('a option \<times> 'a priority_queue) res" where
  "pq_insert_with_overflow lt q element =
     (if pq_size q < pq_max_size q then rbind (pq_add lt q element) (\<lambda>(_, q). Inr (None, q))
      else if 0 < pq_size q
      then rbind (idx (pq_heap q) 1) (\<lambda>t.
           case t of
             None \<Rightarrow> Inr (Some element, q)
           | Some t \<Rightarrow>
               rbind (lt t element) (\<lambda>less.
               if less
               then rbind (upd (pq_heap q) 1 (Some element)) (\<lambda>heap.
                    rbind (pq_update_top lt (q\<lparr>pq_heap := heap\<rparr>)) (\<lambda>(_, q). Inr (Some t, q)))
               else Inr (Some element, q)))
      else Inr (Some element, q))"

definition pq_pop_unchecked :: "('a \<Rightarrow> 'a \<Rightarrow> bool res) \<Rightarrow> 'a priority_queue \<Rightarrow> ('a \<times> 'a priority_queue) res" where
  "pq_pop_unchecked lt q =
     dassert (0 < pq_size q) (
       rbind (swap_slots (pq_heap q) 1 (pq_size q)) (\<lambda>heap.
       rbind (heap_value heap (pq_size q)) (\<lambda>r.
       rbind (upd heap (pq_size q) None) (\<lambda>heap.
       rbind (pq_down_heap lt (q\<lparr>pq_heap := heap, pq_size := pq_size q - 1\<rparr>) 1) (\<lambda>q. Inr (r, q))))))"

definition pq_pop :: "('a \<Rightarrow> 'a \<Rightarrow> bool res) \<Rightarrow> 'a priority_queue \<Rightarrow> ('a option \<times> 'a priority_queue) res" where
  "pq_pop lt q =
     (if 0 < pq_size q then rbind (pq_pop_unchecked lt q) (\<lambda>(r, q). Inr (Some r, q)) else Inr (None, q))"

text \<open>
  \<^verbatim>\<open>remove\<close>: the first slot with an equal value, if there is one. The \<^verbatim>\<open>PartialEq\<close> of the elements is equality here,
  as for the types that derive it; a queue of elements with another comparison is not covered.
\<close>

fun find_slot :: "'a option list \<Rightarrow> 'a \<Rightarrow> nat list \<Rightarrow> nat option res" where
  "find_slot h x [] = Inr None"
| "find_slot h x (i # is) = rbind (idx h i) (\<lambda>v. if v = Some x then Inr (Some i) else find_slot h x is)"

definition pq_remove :: "('a \<Rightarrow> 'a \<Rightarrow> bool res) \<Rightarrow> 'a priority_queue \<Rightarrow> 'a \<Rightarrow> (bool \<times> 'a priority_queue) res" where
  "pq_remove lt q element =
     rbind (find_slot (pq_heap q) element [1..<pq_size q + 1]) (\<lambda>r.
     case r of
       None \<Rightarrow> Inr (False, q)
     | Some i \<Rightarrow>
         rbind (swap_slots (pq_heap q) i (pq_size q)) (\<lambda>heap.
         rbind (upd heap (pq_size q) None) (\<lambda>heap.
         let q = q\<lparr>pq_heap := heap, pq_size := pq_size q - 1\<rparr> in
         if i \<le> pq_size q
         then rbind (pq_up_heap lt q i) (\<lambda>(moved, q).
              if moved then Inr (True, q) else rbind (pq_down_heap lt q i) (\<lambda>q. Inr (True, q)))
         else Inr (True, q))))"

definition pq_take_heap_array :: "'a priority_queue \<Rightarrow> ('a list \<times> 'a priority_queue) res" where
  "pq_take_heap_array q =
     (if pq_size q = 0 then Inr ([], q)
      else rbind (slice (pq_heap q) 1 (pq_size q)) (\<lambda>vs.
           rbind (splice (pq_heap q) 1 (replicate (pq_size q) None)) (\<lambda>heap.
           Inr (map the (filter (\<lambda>v. v \<noteq> None) vs), q\<lparr>pq_heap := heap, pq_size := 0\<rparr>))))"

text \<open>\<^verbatim>\<open>PriorityQueueIterator::next\<close>; the consuming iterator also empties the slot it returns.\<close>

function pq_iter_next :: "bool \<Rightarrow> 'a priority_queue \<Rightarrow> nat \<Rightarrow> ('a option \<times> 'a priority_queue \<times> nat) res" where
  "pq_iter_next consuming q index =
     (if index < pq_size q
      then rbind (idx (pq_heap q) (index + 1)) (\<lambda>v.
           case v of
             Some x \<Rightarrow> Inr (Some x, if consuming then q\<lparr>pq_heap := (pq_heap q)[index + 1 := None]\<rparr> else q, index + 1)
           | None \<Rightarrow> pq_iter_next consuming q (index + 1))
      else Inr (None, q, index))"
  by pat_completeness auto

termination
  by (relation "measure (\<lambda>(consuming, q, index). pq_size q - index)") auto

declare pq_iter_next.simps [simp del]

lemma pq_iter_next_moves:
  "pq_iter_next consuming q index = Inr (Some x, q', i) \<Longrightarrow> index < i \<and> i \<le> pq_size q' \<and> pq_size q' = pq_size q"
  by (induction consuming q index rule: pq_iter_next.induct, subst (asm) (2) pq_iter_next.simps)
    (fastforce simp: idx_def split: if_splits option.splits)

section \<open>The queue of the values\<close>

abbreviation slot_le :: "('a \<Rightarrow> 'a \<Rightarrow> bool) \<Rightarrow> 'a option \<Rightarrow> 'a option \<Rightarrow> bool" where
  "slot_le ls a b \<equiv> \<not> ls (the b) (the a)"

abbreviation total_lt :: "('a \<Rightarrow> 'a \<Rightarrow> bool) \<Rightarrow> 'a \<Rightarrow> 'a \<Rightarrow> bool res" where
  "total_lt ls a b \<equiv> Inr (ls a b)"

definition pq_bag :: "'a priority_queue \<Rightarrow> 'a multiset" where
  "pq_bag q = mset (map the (take (pq_size q) (drop 1 (pq_heap q))))"

definition pq_wf :: "'a priority_queue \<Rightarrow> bool" where
  "pq_wf q \<longleftrightarrow> pq_size q < length (pq_heap q) \<and> pq_max_size q < length (pq_heap q) \<and> 2 \<le> length (pq_heap q)
     \<and> None \<notin> set (take (pq_size q) (drop 1 (pq_heap q))) \<and> set (drop (pq_size q + 1) (pq_heap q)) \<subseteq> {None}"

definition pq_inv :: "('a \<Rightarrow> 'a \<Rightarrow> bool) \<Rightarrow> 'a priority_queue \<Rightarrow> bool" where
  "pq_inv ls q \<longleftrightarrow> pq_wf q \<and> heap_order (slot_le ls) 1 (pq_heap q) (pq_size q)"

lemma filled: "None \<notin> set (take n (drop 1 h)) \<Longrightarrow> n < length h \<Longrightarrow> 1 \<le> i \<Longrightarrow> i \<le> n \<Longrightarrow> heap_value h i = Inr (the (h ! i)) \<and> h ! i \<noteq> None"
proof -
  assume a: "None \<notin> set (take n (drop 1 h))" "n < length h" "1 \<le> i" "i \<le> n"
  then have "h ! i \<noteq> None" using in_slots [of n h None] by auto
  then show ?thesis using a by (auto simp: heap_value_def)
qed

lemma drop_swap: "i \<le> n \<Longrightarrow> j \<le> n \<Longrightarrow> drop (Suc n) (h[i := a, j := b]) = drop (Suc n) h"
  by simp

text \<open>A comparison that never fails and is a strict weak order.\<close>

locale strict_weak =
  fixes ls :: "'a \<Rightarrow> 'a \<Rightarrow> bool"
  assumes asym: "ls a b \<Longrightarrow> \<not> ls b a"
    and cotrans: "\<not> ls a b \<Longrightarrow> \<not> ls b c \<Longrightarrow> \<not> ls a c"

sublocale strict_weak \<subseteq> val: ranked "\<lambda>a b. \<not> ls b a"
  by unfold_locales (use asym cotrans in blast)+

sublocale strict_weak \<subseteq> slot: ranked "slot_le ls"
  by unfold_locales (use asym cotrans in blast)+

context strict_weak
begin

lemma up_loop:
  assumes "1 \<le> i" "i \<le> n" "n < length h" "None \<notin> set (take n (drop 1 h))" "heap_off (slot_le ls) 1 h n i"
  shows "\<exists>h' i'. pq_up_loop (total_lt ls) h i = Inr (h', i') \<and> length h' = length h
    \<and> mset (take n (drop 1 h')) = mset (take n (drop 1 h)) \<and> drop (Suc n) h' = drop (Suc n) h
    \<and> (if i' = i then h' = h \<and> (2 \<le> i \<longrightarrow> heap_edge (slot_le ls) h i) else heap_order (slot_le ls) 1 h' n)
    \<and> (below_kids (slot_le ls) h n i \<longrightarrow> heap_order (slot_le ls) 1 h' n) \<and> i' \<le> i"
  using assms
proof (induction i arbitrary: h rule: less_induct)
  case (less i)
  let ?p = "i div 2"
  note unfold = pq_up_loop.simps [of _ h i]
  show ?case
  proof (cases "2 \<le> i")
    case True
    have p: "?p < i" "1 \<le> ?p" "?p \<le> n" "0 < ?p" using True less.prems(2) by auto
    have v: "heap_value h i = Inr (the (h ! i))" "heap_value h ?p = Inr (the (h ! ?p))"
      using filled [OF less.prems(4,3)] p less.prems by auto
    show ?thesis
    proof (cases "slot_le ls (h ! ?p) (h ! i)")
      case le: True
      have "pq_up_loop (total_lt ls) h i = Inr (h, i)" using unfold v p(4) le by (simp add: Let_def)
      moreover have "heap_order (slot_le ls) 1 h n" if "below_kids (slot_le ls) h n i"
        using heap_orderI [OF less.prems(5) _ that less.prems(1)] le by (simp add: heap_edge_def)
      ultimately show ?thesis using le by (simp add: heap_edge_def)
    next
      case lt: False
      let ?h = "h[i := h ! ?p, ?p := h ! i]"
      have i1: "1 < i" using True by simp
      note off = slot.off_up [OF less.prems(5) i1 less.prems(2,3) lt]
      have m: "mset (take n (drop 1 ?h)) = mset (take n (drop 1 h))"
        by (rule mset_slots_swap) (use less.prems p in simp_all)
      have "None \<notin> set (take n (drop 1 ?h))" using less.prems(4) arg_cong [OF m, of set_mset] by simp
      then obtain h' i' where ih: "pq_up_loop (total_lt ls) ?h ?p = Inr (h', i')" "length h' = length ?h"
          "mset (take n (drop 1 h')) = mset (take n (drop 1 ?h))" "drop (Suc n) h' = drop (Suc n) ?h" "i' \<le> ?p"
          "heap_order (slot_le ls) 1 h' n"
        using less.IH [OF p(1,2,3) _ _ off(1)] off(2) less.prems(3) by auto
      have "pq_up_loop (total_lt ls) h i = Inr (h', i')"
        using unfold v p lt ih(1) less.prems(2,3) by (simp add: Let_def)
      moreover have "i' \<noteq> i" "i' \<le> i" using ih(5) p(1) by simp_all
      ultimately show ?thesis using ih m p(3) less.prems(2) drop_swap [of i n ?p h] by simp
    qed
  next
    case False
    then have "i = 1" using less.prems(1) by simp
    moreover have "pq_up_loop (total_lt ls) h i = Inr (h, i)" using unfold False by (simp add: Let_def)
    moreover have "heap_order (slot_le ls) 1 h n" if "below_kids (slot_le ls) h n i"
      using heap_orderI [OF less.prems(5) _ that less.prems(1)] False by simp
    ultimately show ?thesis by simp
  qed
qed

lemma child:
  assumes "1 \<le> i" "i * 2 \<le> n" "n < length h" "None \<notin> set (take n (drop 1 h))"
  shows "\<exists>j. pq_child (total_lt ls) h n i = Inr (j, the (h ! j)) \<and> j div 2 = i \<and> i < j \<and> j \<le> n
    \<and> (\<forall>c. c \<le> n \<longrightarrow> c div 2 = i \<longrightarrow> slot_le ls (h ! j) (h ! c))"
proof -
  have kids: "c div 2 = i \<longleftrightarrow> c = i * 2 \<or> c = i * 2 + 1" for c by auto
  have v: "heap_value h (i * 2) = Inr (the (h ! (i * 2)))" "i * 2 + 1 \<le> n \<Longrightarrow> heap_value h (i * 2 + 1) = Inr (the (h ! (i * 2 + 1)))"
    using filled [OF assms(4,3)] assms(1,2) by auto
  let ?a = "ls (the (h ! (i * 2 + 1))) (the (h ! (i * 2)))"
  consider "i * 2 + 1 \<le> n" ?a | "i * 2 + 1 \<le> n" "\<not> ?a" | "\<not> i * 2 + 1 \<le> n" by blast
  then show ?thesis
  proof cases
    case 1
    then show ?thesis
      using assms(1) v asym slot.refl unfolding kids by (intro exI [of _ "i * 2 + 1"]) (simp add: pq_child_def Let_def)
  next
    case 2
    then show ?thesis
      using assms(1) v slot.refl unfolding kids by (intro exI [of _ "i * 2"]) (simp add: pq_child_def Let_def)
  next
    case 3
    then have "i * 2 = n" using assms(2) by simp
    then show ?thesis
      using assms(1) v(1) slot.refl unfolding kids by (intro exI [of _ "i * 2"]) (auto simp: pq_child_def Let_def)
  qed
qed

lemma down_loop:
  assumes "1 \<le> i" "n < length h" "None \<notin> set (take n (drop 1 h))" "heap_off (slot_le ls) m h n i"
    and "2 \<le> i \<Longrightarrow> i \<le> n \<Longrightarrow> m \<le> i div 2 \<Longrightarrow> heap_edge (slot_le ls) h i" "m \<le> i"
  shows "\<exists>h'. pq_down_loop (total_lt ls) h n i = Inr h' \<and> length h' = length h
    \<and> mset (take n (drop 1 h')) = mset (take n (drop 1 h)) \<and> drop (Suc n) h' = drop (Suc n) h \<and> heap_order (slot_le ls) m h' n"
  using assms
proof (induction "n - i" arbitrary: i h rule: less_induct)
  case less
  note unfold = pq_down_loop.simps [of _ h n i]
  show ?case
  proof (cases "i * 2 \<le> n")
    case True
    obtain j where j: "pq_child (total_lt ls) h n i = Inr (j, the (h ! j))" "j div 2 = i" "i < j" "j \<le> n"
      and least: "\<And>c. c \<le> n \<Longrightarrow> c div 2 = i \<Longrightarrow> slot_le ls (h ! j) (h ! c)"
      using child [OF less.prems(1) True less.prems(2,3)] by blast
    have node: "heap_value (take (i * 2) h) i = Inr (the (h ! i))"
      using filled [OF less.prems(3,2,1)] less.prems(1,2) True by (auto simp: heap_value_def)
    show ?thesis
    proof (cases "slot_le ls (h ! i) (h ! j)")
      case le: True
      have "pq_down_loop (total_lt ls) h n i = Inr h" using unfold True j(1) node le by simp
      moreover have "below_kids (slot_le ls) h n i"
        unfolding below_kids_def using slot.trans [OF le least] by blast
      then have "heap_order (slot_le ls) m h n"
        using heap_orderI [OF less.prems(4)] less.prems(1,5) by blast
      ultimately show ?thesis by simp
    next
      case lt: False
      let ?h = "h[i := h ! j, j := h ! i]"
      note off = slot.off_down [OF less.prems(4,1) j(2,4) less.prems(2) lt least less.prems(6)]
      have m: "mset (take n (drop 1 ?h)) = mset (take n (drop 1 h))"
        by (rule mset_slots_swap) (use less.prems j in simp_all)
      have f: "None \<notin> set (take n (drop 1 ?h))" using less.prems(3) arg_cong [OF m, of set_mset] by simp
      have nj: "n - j < n - i" "1 \<le> j" "n < length ?h" "m \<le> j" using j(3,4) less.prems(1,2,6) by simp_all
      obtain h' where ih: "pq_down_loop (total_lt ls) ?h n j = Inr h'" "length h' = length ?h"
          "mset (take n (drop 1 h')) = mset (take n (drop 1 ?h))" "drop (Suc n) h' = drop (Suc n) ?h" "heap_order (slot_le ls) m h' n"
        using less.hyps [OF nj(1-3) f off nj(4)] by blast
      have "pq_down_loop (total_lt ls) h n i = Inr h'"
        using unfold True j node lt ih(1) less.prems(2) by simp
      then show ?thesis using ih m j(3,4) drop_swap [of i n j h] by simp
    qed
  next
    case False
    then have "pq_down_loop (total_lt ls) h n i = Inr h" using unfold by simp
    moreover have "below_kids (slot_le ls) h n i" using False by (auto simp: below_kids_def)
    then have "heap_order (slot_le ls) m h n" using heap_orderI [OF less.prems(4)] less.prems(1,5) by blast
    ultimately show ?thesis by simp
  qed
qed

lemma rearranged:
  assumes "pq_wf q" "length h = length (pq_heap q)" "mset (take (pq_size q) (drop 1 h)) = mset (take (pq_size q) (drop 1 (pq_heap q)))"
    and "drop (Suc (pq_size q)) h = drop (Suc (pq_size q)) (pq_heap q)" "heap_order (slot_le ls) 1 h (pq_size q)"
  shows "pq_inv ls (q\<lparr>pq_heap := h\<rparr>) \<and> pq_bag (q\<lparr>pq_heap := h\<rparr>) = pq_bag q"
  using assms mset_eq_setD [OF assms(3)] by (simp add: pq_inv_def pq_wf_def pq_bag_def)

lemma down_heap:
  assumes "pq_wf q" "1 \<le> i" "heap_off (slot_le ls) 1 (pq_heap q) (pq_size q) i" "2 \<le> i \<longrightarrow> heap_edge (slot_le ls) (pq_heap q) i"
  shows "\<exists>q'. pq_down_heap (total_lt ls) q i = Inr q' \<and> pq_inv ls q' \<and> pq_bag q' = pq_bag q
    \<and> pq_size q' = pq_size q \<and> pq_max_size q' = pq_max_size q"
proof -
  have "pq_size q < length (pq_heap q)" "None \<notin> set (take (pq_size q) (drop 1 (pq_heap q)))" using assms(1) by (simp_all add: pq_wf_def)
  from down_loop [OF assms(2) this assms(3)] obtain h where
    h: "pq_down_loop (total_lt ls) (pq_heap q) (pq_size q) i = Inr h" "length h = length (pq_heap q)"
      "mset (take (pq_size q) (drop 1 h)) = mset (take (pq_size q) (drop 1 (pq_heap q)))"
      "drop (Suc (pq_size q)) h = drop (Suc (pq_size q)) (pq_heap q)" "heap_order (slot_le ls) 1 h (pq_size q)"
    using assms(2,4) by auto
  from rearranged [OF assms(1) h(2-5)] show ?thesis using h(1) by (simp add: pq_down_heap_def)
qed

lemma top_value:
  assumes "pq_inv ls q" "0 < pq_size q"
  shows "\<exists>t. pq_top q = Inr (Some t) \<and> heap_value (pq_heap q) 1 = Inr t \<and> pq_heap q ! 1 = Some t
    \<and> least (\<lambda>a b. \<not> ls b a) t (pq_bag q)"
proof -
  have wf: "pq_wf q" and ord: "heap_order (slot_le ls) 1 (pq_heap q) (pq_size q)" using assms(1) by (simp_all add: pq_inv_def)
  have sz: "pq_size q < length (pq_heap q)" and f: "None \<notin> set (take (pq_size q) (drop 1 (pq_heap q)))" using wf by (simp_all add: pq_wf_def)
  obtain t where t: "pq_heap q ! 1 = Some t" "heap_value (pq_heap q) 1 = Inr t" using filled [OF f sz, of 1] assms(2) by auto
  have mem: "y \<in># pq_bag q \<longleftrightarrow> (\<exists>i. 1 \<le> i \<and> i \<le> pq_size q \<and> the (pq_heap q ! i) = y)" for y
    using in_slots [OF sz] by (auto simp: pq_bag_def simp del: One_nat_def)
  have "\<not> ls y t" if "y \<in># pq_bag q" for y
    using that slot.root_least [OF ord] t(1) unfolding mem by force
  moreover have "t \<in># pq_bag q" using t(1) assms(2) unfolding mem by (intro exI [of _ 1]) simp
  ultimately show ?thesis using t wf by (simp add: pq_top_def pq_wf_def least_def)
qed

lemma size_bag: "pq_inv ls q \<Longrightarrow> size (pq_bag q) = pq_size q"
  by (auto simp: pq_inv_def pq_wf_def pq_bag_def)

lemma add:
  assumes "pq_inv ls q" "pq_size q + 1 < length (pq_heap q)"
  shows "\<exists>t q'. pq_add (total_lt ls) q x = Inr (t, q') \<and> pq_inv ls q' \<and> pq_bag q' = add_mset x (pq_bag q)
    \<and> least (\<lambda>a b. \<not> ls b a) t (pq_bag q') \<and> pq_max_size q' = pq_max_size q \<and> pq_size q' = pq_size q + 1"
proof -
  let ?n = "pq_size q + 1" and ?h = "(pq_heap q)[pq_size q + 1 := Some x]"
  let ?q = "q\<lparr>pq_heap := ?h, pq_size := ?n\<rparr>"
  have wf: "pq_wf q" and ord: "heap_order (slot_le ls) 1 (pq_heap q) (pq_size q)" using assms(1) by (simp_all add: pq_inv_def)
  have slots: "take ?n (drop 1 ?h) = take (pq_size q) (drop 1 (pq_heap q)) @ [Some x]" by (rule slots_snoc) (rule assms(2))
  have "set (drop (?n + 1) (pq_heap q)) \<subseteq> set (drop ?n (pq_heap q))" by (rule set_drop_subset_set_drop) simp
  then have "set (drop (Suc ?n) (pq_heap q)) \<subseteq> {None}" using wf unfolding pq_wf_def by auto
  then have wf': "pq_wf ?q" using wf assms(2) unfolding pq_wf_def by (simp add: slots [simplified])
  have bag: "pq_bag ?q = add_mset x (pq_bag q)" by (simp add: pq_bag_def slots [simplified])
  have "heap_off (slot_le ls) 1 ?h ?n ?n"
    using ord assms(2) by (auto simp: heap_off_def heap_order_def heap_edge_def nth_list_update)
  moreover have "below_kids (slot_le ls) ?h ?n ?n" by (auto simp: below_kids_def)
  moreover have "None \<notin> set (take ?n (drop 1 ?h))" "?n < length ?h" using wf' by (simp_all add: pq_wf_def)
  ultimately obtain h' i' where up: "pq_up_loop (total_lt ls) ?h ?n = Inr (h', i')" "length h' = length ?h"
      "mset (take ?n (drop 1 h')) = mset (take ?n (drop 1 ?h))" "drop (Suc ?n) h' = drop (Suc ?n) ?h"
      "heap_order (slot_le ls) 1 h' ?n"
    using up_loop [of ?n ?n ?h] by auto
  from rearranged [OF wf'] up have inv: "pq_inv ls (?q\<lparr>pq_heap := h'\<rparr>)" "pq_bag (?q\<lparr>pq_heap := h'\<rparr>) = add_mset x (pq_bag q)"
    using bag by simp_all
  from top_value [OF inv(1)] show ?thesis
    using up(1) assms(2) inv by (auto simp: pq_add_def pq_up_heap_def Let_def)
qed

lemma update_top:
  assumes "pq_inv ls q" "0 < pq_size q"
  shows "\<exists>t b q'. pq_update_top_with_new_top (total_lt ls) q x = Inr (t, q') \<and> pq_inv ls q' \<and> pq_top q = Inr (Some b)
    \<and> least (\<lambda>a b. \<not> ls b a) b (pq_bag q) \<and> pq_bag q' = add_mset x (pq_bag q - {#b#}) \<and> least (\<lambda>a b. \<not> ls b a) t (pq_bag q')
    \<and> pq_max_size q' = pq_max_size q \<and> pq_size q' = pq_size q"
proof -
  let ?h = "(pq_heap q)[1 := Some x]" let ?q = "q\<lparr>pq_heap := ?h\<rparr>"
  have wf: "pq_wf q" and ord: "heap_order (slot_le ls) 1 (pq_heap q) (pq_size q)" using assms(1) by (simp_all add: pq_inv_def)
  obtain b where b: "pq_top q = Inr (Some b)" "pq_heap q ! 1 = Some b" "least (\<lambda>a b. \<not> ls b a) b (pq_bag q)"
    using top_value [OF assms] by blast
  have slots: "take (pq_size q) (drop 1 (pq_heap q)) = Some b # take (pq_size q - 1) (drop 2 (pq_heap q))"
    "take (pq_size q) (drop 1 ?h) = Some x # take (pq_size q - 1) (drop 2 (pq_heap q))"
    using slots_first [of "pq_heap q" "pq_size q"] slots_first [of ?h "pq_size q"] wf b(2) assms(2) by (simp_all add: pq_wf_def)
  have wf': "pq_wf ?q" using wf slots assms(2) by (simp add: pq_wf_def)
  have bag: "pq_bag ?q = add_mset x (pq_bag q - {#b#})" using slots by (simp add: pq_bag_def)
  have "heap_off (slot_le ls) 1 ?h (pq_size q) 1" using slot.off_update [OF ord] wf by (simp add: pq_wf_def)
  then obtain q' where q': "pq_down_heap (total_lt ls) ?q 1 = Inr q'" "pq_inv ls q'" "pq_bag q' = pq_bag ?q" "pq_size q' = pq_size q"
      "pq_max_size q' = pq_max_size q"
    using down_heap [OF wf', of 1] by auto
  from top_value [OF q'(2)] q' b bag wf assms(2) show ?thesis
    by (auto simp: pq_update_top_with_new_top_def pq_update_top_def pq_wf_def)
qed

text \<open>Exchanging a slot with the last one and emptying it, as \<^verbatim>\<open>pop\<close> and \<^verbatim>\<open>remove\<close> do.\<close>

lemma removed:
  assumes "pq_inv ls q" "1 \<le> i" "i \<le> pq_size q"
  defines "h \<equiv> (pq_heap q)[i := pq_heap q ! pq_size q, pq_size q := None]"
  defines "q' \<equiv> q\<lparr>pq_heap := h, pq_size := pq_size q - 1\<rparr>"
  shows "pq_wf q'" "pq_bag q' = pq_bag q - {#the (pq_heap q ! i)#}"
    and "i \<le> pq_size q' \<Longrightarrow> heap_off (slot_le ls) 1 (pq_heap q') (pq_size q') i"
    and "\<not> i \<le> pq_size q' \<Longrightarrow> heap_order (slot_le ls) 1 (pq_heap q') (pq_size q')"
proof -
  let ?H = "pq_heap q"
  have wf: "pq_wf q" and ord: "heap_order (slot_le ls) 1 ?H (pq_size q)" using assms(1) by (simp_all add: pq_inv_def)
  have len: "pq_size q < length ?H" and f: "None \<notin> set (take (pq_size q) (drop 1 ?H))" using wf by (simp_all add: pq_wf_def)
  obtain m where m: "pq_size q = m + 1" using assms(2,3) by (cases "pq_size q") auto
  let ?g = "?H[i := ?H ! (m + 1)]"
  have h: "h = ?g[m + 1 := None]" by (simp add: h_def m)
  have slots: "take m (drop 1 h) = take m (drop 1 ?g)" unfolding h slots_upd [of m ?g] using len m by (simp add: list_update_beyond)
  have "mset (take (m + 1) (drop 1 ?H)) = mset (take (m + 1) (drop 1 (?g[m + 1 := ?H ! i])))"
    by (rule mset_slots_swap [symmetric]) (use assms(2,3) len m in simp_all)
  also have "\<dots> = add_mset (?H ! i) (mset (take m (drop 1 ?g)))" using slots_snoc [of m ?g] len m by simp
  finally have mset: "mset (take (pq_size q) (drop 1 ?H)) = add_mset (?H ! i) (mset (take m (drop 1 h)))" by (simp only: m slots)
  have "set (take m (drop 1 h)) \<subseteq> set (take (pq_size q) (drop 1 ?H))" using arg_cong [OF mset, of set_mset] by auto
  moreover have "drop (m + 1) h = None # drop (m + 2) ?H"
  proof -
    have "drop (m + 1) h = h ! (m + 1) # drop (m + 2) h" using len m Cons_nth_drop_Suc [of "m + 1" h] by (simp add: h)
    moreover have "drop (m + 2) h = drop (m + 2) ?H" using assms(3) m by (simp add: h)
    ultimately show ?thesis using len m by (simp add: h)
  qed
  ultimately show "pq_wf q'" using wf f by (auto simp: q'_def pq_wf_def m h_def)
  show "pq_bag q' = pq_bag q - {#the (?H ! i)#}"
    using arg_cong [OF mset, of "image_mset the"] by (simp add: pq_bag_def q'_def m)
  have same: "h ! c = ?g ! c" if "c \<le> m" for c using that by (simp add: h)
  show "heap_off (slot_le ls) 1 (pq_heap q') (pq_size q') i"
    using slot.off_update [OF heap_order_mono [OF ord, of m], of i "?H ! (m + 1)"] assms(2,3) len m
    by (simp add: q'_def) (rule heap_off_cong, use same in auto)
  show "heap_order (slot_le ls) 1 (pq_heap q') (pq_size q')" if "\<not> i \<le> pq_size q'"
  proof -
    have "heap_order (slot_le ls) 1 h m"
      by (rule heap_order_cong [OF heap_order_mono [OF ord]]) (use that m in \<open>simp_all add: q'_def h\<close>)
    then show ?thesis using m by (simp add: q'_def)
  qed
qed

lemma pop:
  assumes "pq_inv ls q" "0 < pq_size q"
  shows "\<exists>t q'. pq_pop (total_lt ls) q = Inr (Some t, q') \<and> pq_inv ls q' \<and> least (\<lambda>a b. \<not> ls b a) t (pq_bag q)
    \<and> pq_bag q' = pq_bag q - {#t#} \<and> pq_max_size q' = pq_max_size q \<and> pq_size q' = pq_size q - 1"
proof -
  let ?H = "pq_heap q" and ?n = "pq_size q"
  have wf: "pq_wf q" using assms(1) by (simp add: pq_inv_def)
  obtain t where t: "?H ! 1 = Some t" "least (\<lambda>a b. \<not> ls b a) t (pq_bag q)" using top_value [OF assms] by blast
  have n: "1 \<le> ?n" using assms(2) by simp
  note r = removed [OF assms(1) le_refl n]
  let ?h = "?H[1 := ?H ! ?n, ?n := None]" let ?q = "q\<lparr>pq_heap := ?h, pq_size := ?n - 1\<rparr>"
  have off: "heap_off (slot_le ls) 1 (pq_heap ?q) (pq_size ?q) 1"
    using r(3) by (cases "1 \<le> pq_size ?q") (auto simp: heap_off_def)
  from down_heap [OF r(1) le_refl off] obtain q' where
    q': "pq_down_heap (total_lt ls) ?q 1 = Inr q'" "pq_inv ls q'" "pq_bag q' = pq_bag ?q" "pq_size q' = ?n - 1" "pq_max_size q' = pq_max_size q"
    by auto
  have "swap_slots ?H 1 ?n = Inr (?H[1 := ?H ! ?n, ?n := ?H ! 1])" using wf by (simp add: pq_wf_def)
  moreover have "heap_value (?H[1 := ?H ! ?n, ?n := ?H ! 1]) ?n = Inr t" using wf t(1) by (simp add: heap_value_def pq_wf_def)
  moreover have "upd (?H[1 := ?H ! ?n, ?n := ?H ! 1]) ?n None = Inr ?h" using wf by (simp add: pq_wf_def)
  ultimately have "pq_pop (total_lt ls) q = Inr (Some t, q')" using assms(2) q'(1) by (simp add: pq_pop_def pq_pop_unchecked_def)
  then show ?thesis using q' t r(2) by auto
qed

lemma find_slot:
  "(\<And>i. i \<in> set is \<Longrightarrow> i < length h) \<Longrightarrow>
   (find_slot h x is = Inr None \<and> (\<forall>i. i \<in> set is \<longrightarrow> h ! i \<noteq> Some x))
   \<or> (\<exists>i. find_slot h x is = Inr (Some i) \<and> i \<in> set is \<and> h ! i = Some x)"
  by (induction "is") auto

lemma in_bag:
  assumes "pq_inv ls q"
  shows "x \<in># pq_bag q \<longleftrightarrow> (\<exists>i. 1 \<le> i \<and> i \<le> pq_size q \<and> pq_heap q ! i = Some x)"
proof -
  have sz: "pq_size q < length (pq_heap q)" and f: "None \<notin> set (take (pq_size q) (drop 1 (pq_heap q)))"
    using assms by (simp_all add: pq_inv_def pq_wf_def)
  have "x \<in># pq_bag q \<longleftrightarrow> (\<exists>i. 1 \<le> i \<and> i \<le> pq_size q \<and> the (pq_heap q ! i) = x)"
    using in_slots [OF sz] by (auto simp: pq_bag_def simp del: One_nat_def)
  then show ?thesis using filled [OF f sz] by force
qed

lemma remove:
  assumes "pq_inv ls q"
  shows "\<exists>q'. pq_remove (total_lt ls) q x = Inr (x \<in># pq_bag q, q') \<and> pq_inv ls q' \<and> pq_bag q' = pq_bag q - {#x#}
    \<and> pq_max_size q' = pq_max_size q"
proof -
  let ?H = "pq_heap q" and ?n = "pq_size q"
  have wf: "pq_wf q" using assms by (simp add: pq_inv_def)
  then have sz: "?n < length ?H" by (simp add: pq_wf_def)
  then have lt: "i < length ?H" if "i \<in> set [1..<?n + 1]" for i using that by auto
  consider (none) "find_slot ?H x [1..<?n + 1] = Inr None" "\<forall>i. i \<in> set [1..<?n + 1] \<longrightarrow> ?H ! i \<noteq> Some x"
    | (found) i where "find_slot ?H x [1..<?n + 1] = Inr (Some i)" "i \<in> set [1..<?n + 1]" "?H ! i = Some x"
    using find_slot [of "[1..<?n + 1]" ?H x] lt by blast
  then show ?thesis
  proof cases
    case none
    then have "x \<notin># pq_bag q" unfolding in_bag [OF assms] by auto
    then show ?thesis using none(1) assms by (simp add: pq_remove_def)
  next
    case found
    have i: "1 \<le> i" "i \<le> ?n" using found(2) by auto
    then have mem: "x \<in># pq_bag q" unfolding in_bag [OF assms] using found(3) by blast
    let ?h = "?H[i := ?H ! ?n, ?n := None]" let ?q = "q\<lparr>pq_heap := ?h, pq_size := ?n - 1\<rparr>"
    note r = removed [OF assms i]
    have go: "pq_remove (total_lt ls) q x =
       (if i \<le> ?n - 1 then rbind (pq_up_heap (total_lt ls) ?q i) (\<lambda>(moved, q).
              if moved then Inr (True, q) else rbind (pq_down_heap (total_lt ls) q i) (\<lambda>q. Inr (True, q)))
         else Inr (True, ?q))"
      using found(1) i sz by (simp add: pq_remove_def Let_def)
    show ?thesis
    proof (cases "i \<le> ?n - 1")
      case True
      have off: "heap_off (slot_le ls) 1 (pq_heap ?q) (pq_size ?q) i" by (rule r(3)) (use True in simp)
      have w: "pq_size ?q < length (pq_heap ?q)" "None \<notin> set (take (pq_size ?q) (drop 1 (pq_heap ?q)))"
        using r(1) unfolding pq_wf_def by blast+
      have "i \<le> pq_size ?q" using True by simp
      from up_loop [OF i(1) this w off] obtain h' i' where
        up: "pq_up_loop (total_lt ls) (pq_heap ?q) i = Inr (h', i')" "length h' = length (pq_heap ?q)"
          "mset (take (pq_size ?q) (drop 1 h')) = mset (take (pq_size ?q) (drop 1 (pq_heap ?q)))"
          "drop (Suc (pq_size ?q)) h' = drop (Suc (pq_size ?q)) (pq_heap ?q)"
          "if i' = i then h' = pq_heap ?q \<and> (2 \<le> i \<longrightarrow> heap_edge (slot_le ls) (pq_heap ?q) i)
           else heap_order (slot_le ls) 1 h' (pq_size ?q)"
        by blast
      show ?thesis
      proof (cases "i' = i")
        case same: True
        from down_heap [OF r(1) i(1) off] up(5) same obtain q' where
          "pq_down_heap (total_lt ls) ?q i = Inr q'" "pq_inv ls q'" "pq_bag q' = pq_bag ?q" "pq_max_size q' = pq_max_size q"
          by auto
        moreover have "pq_up_heap (total_lt ls) ?q i = Inr (False, ?q)" using up(1,5) same by (simp add: pq_up_heap_def)
        ultimately show ?thesis using go True mem r(2) found(3) by auto
      next
        case moved: False
        from up(5) moved have "heap_order (slot_le ls) 1 h' (pq_size ?q)" by simp
        from rearranged [OF r(1) up(2-4) this] show ?thesis
          using go True up(1) moved mem r(2) found(3) by (simp add: pq_up_heap_def)
      qed
    next
      case False
      then have "pq_inv ls ?q" using r(1) r(4) by (simp add: pq_inv_def)
      then show ?thesis using go False mem r(2) found(3) by simp
    qed
  qed
qed

lemma insert_below:
  assumes "pq_inv ls q" "pq_size q < pq_max_size q"
  shows "\<exists>q'. pq_insert_with_overflow (total_lt ls) q x = Inr (None, q') \<and> pq_inv ls q' \<and> pq_bag q' = add_mset x (pq_bag q)
    \<and> pq_max_size q' = pq_max_size q \<and> pq_size q' = pq_size q + 1"
  using add [OF assms(1), of x] assms by (auto simp: pq_insert_with_overflow_def pq_inv_def pq_wf_def)

lemma insert_full:
  assumes "pq_inv ls q" "pq_max_size q \<le> pq_size q" "0 < pq_size q"
  shows "\<exists>t d q'. pq_insert_with_overflow (total_lt ls) q x = Inr (Some d, q') \<and> pq_inv ls q'
    \<and> least (\<lambda>a b. \<not> ls b a) t (pq_bag q) \<and> d = (if ls t x then t else x)
    \<and> pq_bag q' = add_mset x (pq_bag q) - {#d#} \<and> pq_max_size q' = pq_max_size q \<and> pq_size q' = pq_size q"
proof -
  obtain t where t: "pq_heap q ! 1 = Some t" "pq_top q = Inr (Some t)" "least (\<lambda>a b. \<not> ls b a) t (pq_bag q)"
    using top_value [OF assms(1,3)] by blast
  have two: "1 < length (pq_heap q)" using assms(1) by (simp add: pq_inv_def pq_wf_def)
  show ?thesis
  proof (cases "ls t x")
    case True
    from update_top [OF assms(1,3), of x] t(2) obtain u q' where
      "pq_update_top_with_new_top (total_lt ls) q x = Inr (u, q')" "pq_inv ls q'" "pq_bag q' = add_mset x (pq_bag q - {#t#})"
      "pq_max_size q' = pq_max_size q" "pq_size q' = pq_size q" by auto
    moreover have "t \<in># pq_bag q" using t(3) by (simp add: least_def)
    ultimately show ?thesis
      using True t assms(2,3) two by (auto simp: pq_insert_with_overflow_def pq_update_top_with_new_top_def)
  next
    case False
    then show ?thesis using t assms two by (auto simp: pq_insert_with_overflow_def)
  qed
qed

lemma clear:
  assumes "pq_inv ls q"
  shows "\<exists>q'. pq_clear q = Inr q' \<and> pq_inv ls q' \<and> pq_bag q' = {#} \<and> pq_size q' = 0 \<and> pq_max_size q' = pq_max_size q"
proof -
  have wf: "pq_size q < length (pq_heap q)" "pq_max_size q < length (pq_heap q)" "2 \<le> length (pq_heap q)"
      "set (drop (pq_size q + 1) (pq_heap q)) \<subseteq> {None}"
    using assms by (simp_all add: pq_inv_def pq_wf_def)
  let ?P = "\<lambda>i h. length h = length (pq_heap q) \<and> drop (pq_size q + 1) h = drop (pq_size q + 1) (pq_heap q)
     \<and> (\<forall>j. 1 \<le> j \<longrightarrow> j < i \<longrightarrow> h ! j = None)"
  have "\<exists>h. for_each [1..<pq_size q + 1] (\<lambda>i heap. upd heap i None) (pq_heap q) = Inr h \<and> ?P (pq_size q + 1) h"
    by (rule for_each_upt_rule [where P = ?P]) (use wf in \<open>auto simp: nth_list_update less_Suc_eq\<close>)
  then obtain h where h: "for_each [1..<pq_size q + 1] (\<lambda>i heap. upd heap i None) (pq_heap q) = Inr h" "?P (pq_size q + 1) h"
    by blast
  have none: "h ! j = None" if j: "1 \<le> j" "j < length h" for j
  proof (cases "j < pq_size q + 1")
    case True
    then show ?thesis using h(2) j by blast
  next
    case False
    then have "h ! j \<in> set (drop (pq_size q + 1) h)"
      using j in_set_conv_nth [of "h ! j" "drop (pq_size q + 1) h"] by (auto intro!: exI [of _ "j - (pq_size q + 1)"])
    then show ?thesis using h(2) wf(4) by auto
  qed
  have "set (drop 1 h) \<subseteq> {None}" using none by (auto simp: in_set_conv_nth)
  moreover have "pq_heap q \<noteq> []" using wf(3) by auto
  ultimately show ?thesis using h wf
    by (simp add: pq_clear_def slice_def pq_inv_def pq_wf_def pq_bag_def heap_order_def)
qed

text \<open>Elements written behind the last slot, before the heap order is established again.\<close>

lemma fill:
  assumes "pq_wf q" "pq_size q + length xs < length (pq_heap q)"
  shows "\<exists>q'. for_each xs (\<lambda>e q. rbind (upd (pq_heap q) (pq_size q + 1) (Some e)) (\<lambda>heap.
            Inr (q\<lparr>pq_heap := heap, pq_size := pq_size q + 1\<rparr>))) q = Inr q'
    \<and> pq_wf q' \<and> pq_bag q' = mset xs + pq_bag q \<and> pq_max_size q' = pq_max_size q \<and> pq_size q' = pq_size q + length xs"
  using assms
proof (induction xs arbitrary: q)
  case (Cons x xs)
  let ?n = "pq_size q + 1" and ?h = "(pq_heap q)[pq_size q + 1 := Some x]"
  let ?q = "q\<lparr>pq_heap := ?h, pq_size := ?n\<rparr>"
  have len: "?n < length (pq_heap q)" using Cons.prems(2) by simp
  have slots: "take ?n (drop 1 ?h) = take (pq_size q) (drop 1 (pq_heap q)) @ [Some x]" by (rule slots_snoc) (rule len)
  have "set (drop (?n + 1) (pq_heap q)) \<subseteq> set (drop ?n (pq_heap q))" by (rule set_drop_subset_set_drop) simp
  then have "set (drop (Suc ?n) (pq_heap q)) \<subseteq> {None}" using Cons.prems(1) unfolding pq_wf_def by auto
  then have wf: "pq_wf ?q" using Cons.prems(1) len unfolding pq_wf_def by (simp add: slots [simplified])
  have "pq_bag ?q = add_mset x (pq_bag q)" by (simp add: pq_bag_def slots [simplified])
  moreover have "pq_size ?q + length xs < length (pq_heap ?q)" using Cons.prems(2) by simp
  ultimately show ?case using Cons.IH [OF wf] len by auto
qed simp

lemma add_all:
  assumes "pq_inv ls q" "pq_size q + length xs \<le> pq_max_size q"
  shows "\<exists>q'. pq_add_all_exact (total_lt ls) q xs = Inr q' \<and> pq_inv ls q' \<and> pq_bag q' = mset xs + pq_bag q
    \<and> pq_max_size q' = pq_max_size q"
proof -
  have wf: "pq_wf q" and len: "pq_size q + length xs < length (pq_heap q)" using assms by (auto simp: pq_inv_def pq_wf_def)
  from fill [OF wf len] obtain p where p: "for_each xs (\<lambda>e q. rbind (upd (pq_heap q) (pq_size q + 1) (Some e)) (\<lambda>heap.
            Inr (q\<lparr>pq_heap := heap, pq_size := pq_size q + 1\<rparr>))) q = Inr p"
    "pq_wf p" "pq_bag p = mset xs + pq_bag q" "pq_max_size p = pq_max_size q" by blast
  let ?P = "\<lambda>i p'. pq_wf p' \<and> pq_bag p' = pq_bag p \<and> pq_size p' = pq_size p \<and> pq_max_size p' = pq_max_size p
     \<and> heap_order (slot_le ls) i (pq_heap p') (pq_size p)"
  have "\<exists>p'. for_each (rev [1..<pq_size p div 2 + 1]) (\<lambda>i q. pq_down_heap (total_lt ls) q i) p = Inr p' \<and> ?P 1 p'"
  proof (rule for_each_downto_rule [where P = ?P])
    show "?P (pq_size p div 2 + 1) p" using p(2) by (simp add: heap_order_leaves)
    fix i p' assume i: "1 \<le> i" "i < pq_size p div 2 + 1" and P: "?P (Suc i) p'"
    have w: "pq_size p' < length (pq_heap p')" "None \<notin> set (take (pq_size p') (drop 1 (pq_heap p')))"
      using P unfolding pq_wf_def by blast+
    have "heap_off (slot_le ls) i (pq_heap p') (pq_size p') i" using heap_off_next [OF _ i(1)] P by auto
    moreover have "\<not> i \<le> i div 2" using i(1) by simp
    ultimately obtain h where
      h: "pq_down_loop (total_lt ls) (pq_heap p') (pq_size p') i = Inr h" "length h = length (pq_heap p')"
        "mset (take (pq_size p') (drop 1 h)) = mset (take (pq_size p') (drop 1 (pq_heap p')))"
        "drop (Suc (pq_size p')) h = drop (Suc (pq_size p')) (pq_heap p')" "heap_order (slot_le ls) i h (pq_size p')"
      using down_loop [OF i(1) w _ _ le_refl] by blast
    then show "\<exists>p''. pq_down_heap (total_lt ls) p' i = Inr p'' \<and> ?P i p''"
      using P mset_eq_setD [OF h(3)] by (auto simp: pq_down_heap_def pq_wf_def pq_bag_def)
  qed simp
  then show ?thesis using p assms(2) by (auto simp: pq_add_all_exact_def pq_inv_def)
qed

end

lemma new_queue:
  assumes "max_size < 2 ^ 31 - 1"
  shows "\<exists>q. pq_new max_size = Inr q \<and> pq_inv ls q \<and> pq_bag q = {#} \<and> pq_size q = 0 \<and> pq_max_size q = max_size"
  using assms by (auto simp: pq_new_def pq_with_sentinel_object_def pq_inv_def pq_wf_def pq_bag_def heap_order_def dest: in_set_dropD)

text \<open>Inserting with overflow into a queue that is used in no other way: a bounded queue of \<^verbatim>\<open>Heap_Order\<close>.\<close>

definition pq_offer :: "('a \<Rightarrow> 'a \<Rightarrow> bool) \<Rightarrow> 'a priority_queue \<Rightarrow> 'a \<Rightarrow> 'a priority_queue res option" where
  "pq_offer ls q x = Some (rbind (pq_insert_with_overflow (total_lt ls) q x) (\<lambda>(_, q). Inr q))"

definition pq_bounded :: "('a \<Rightarrow> 'a \<Rightarrow> bool) \<Rightarrow> 'a priority_queue \<Rightarrow> bool" where
  "pq_bounded ls q \<longleftrightarrow> pq_inv ls q \<and> 0 < pq_max_size q"

sublocale strict_weak \<subseteq> queue: bounded_queue "\<lambda>a b. \<not> ls b a" "pq_offer ls" "pq_bounded ls" pq_bag pq_max_size
proof unfold_locales
  fix q x assume g: "pq_bounded ls q"
  then have q: "pq_inv ls q" "0 < pq_max_size q" "size (pq_bag q) = pq_size q" by (simp_all add: pq_bounded_def size_bag)
  show "\<exists>q'. pq_offer ls q x = Some (Inr q') \<and> pq_bounded ls q' \<and> pq_max_size q' = pq_max_size q \<and> pq_bag q' = add_mset x (pq_bag q)"
    if "size (pq_bag q) < pq_max_size q"
    using insert_below [OF q(1), of x] that q by (auto simp: pq_offer_def pq_bounded_def)
  show "\<exists>q'. pq_offer ls q x = Some (Inr q') \<and> pq_bounded ls q' \<and> pq_max_size q' = pq_max_size q \<and>
        ((pq_bag q' = pq_bag q \<and> (\<forall>t. t \<in># pq_bag q \<longrightarrow> \<not> ls t x))
         \<or> (\<exists>t. least (\<lambda>a b. \<not> ls b a) t (pq_bag q) \<and> \<not> ls x t \<and> pq_bag q' = add_mset x (pq_bag q - {#t#})))"
    if full: "pq_max_size q \<le> size (pq_bag q)"
  proof -
    from insert_full [OF q(1), of x] full q(2,3) obtain t q' where
      q': "pq_offer ls q x = Some (Inr q')" "pq_inv ls q'" "least (\<lambda>a b. \<not> ls b a) t (pq_bag q)"
        "pq_bag q' = add_mset x (pq_bag q) - {#if ls t x then t else x#}" "pq_max_size q' = pq_max_size q"
      by (auto simp: pq_offer_def)
    have t: "t \<in># pq_bag q" "\<And>y. y \<in># pq_bag q \<Longrightarrow> \<not> ls y t" using q'(3) by (auto simp: least_def)
    show ?thesis
    proof (cases "ls t x")
      case True
      then have "\<not> ls x t" "pq_bag q' = add_mset x (pq_bag q - {#t#})" using asym q'(4) t(1) by simp_all
      then show ?thesis using q' q(2) unfolding pq_bounded_def by metis
    next
      case False
      then have "pq_bag q' = pq_bag q" using q'(4) by simp
      moreover have "\<forall>y. y \<in># pq_bag q \<longrightarrow> \<not> ls y x" using t(2) False cotrans by blast
      ultimately show ?thesis using q' q(2) unfolding pq_bounded_def by metis
    qed
  qed
qed

section \<open>Refinement\<close>

text \<open>C37. \<^verbatim>\<open>PriorityQueue\<close> over a comparison that does not fail and is a strict weak order implements a multiset
  with access to a least element: on a queue that satisfies the invariant, \<^verbatim>\<open>add\<close> adds the element while there is
  a free slot and otherwise reports \<^verbatim>\<open>ArrayIndexOutOfBounds\<close>; \<^verbatim>\<open>pop\<close> removes and returns a least element,
  \<^verbatim>\<open>update_top_with_new_top\<close> replaces one; \<^verbatim>\<open>insert_with_overflow\<close> on a full queue drops the least element if the
  new one is greater and the new one otherwise, and returns what it dropped; \<^verbatim>\<open>remove\<close> removes one occurrence and
  says whether there was one; \<^verbatim>\<open>add_all_exact\<close> adds all elements if they fit; \<^verbatim>\<open>clear\<close> empties the queue. Every
  result satisfies the invariant again.\<close>

theorem priority_queue_refines:
  assumes "strict_weak ls" "pq_inv ls q"
  shows
    "(if pq_size q + 1 < length (pq_heap q)
      then \<exists>t q'. pq_add (total_lt ls) q x = Inr (t, q') \<and> pq_inv ls q' \<and> pq_bag q' = add_mset x (pq_bag q)
             \<and> least (\<lambda>a b. \<not> ls b a) t (pq_bag q')
      else pq_add (total_lt ls) q x = Inl ArrayIndexOutOfBounds)
     \<and> (if pq_size q = 0 then pq_pop (total_lt ls) q = Inr (None, q)
      else \<exists>t q'. pq_pop (total_lt ls) q = Inr (Some t, q') \<and> pq_inv ls q' \<and> least (\<lambda>a b. \<not> ls b a) t (pq_bag q)
             \<and> pq_bag q' = pq_bag q - {#t#})
     \<and> (if pq_size q = 0 then pq_top q = Inr None
      else \<exists>b t q'. pq_top q = Inr (Some b) \<and> least (\<lambda>a b. \<not> ls b a) b (pq_bag q)
             \<and> pq_update_top_with_new_top (total_lt ls) q x = Inr (t, q') \<and> pq_inv ls q'
             \<and> pq_bag q' = add_mset x (pq_bag q - {#b#}) \<and> least (\<lambda>a b. \<not> ls b a) t (pq_bag q'))
     \<and> (if pq_size q < pq_max_size q
      then \<exists>q'. pq_insert_with_overflow (total_lt ls) q x = Inr (None, q') \<and> pq_inv ls q' \<and> pq_bag q' = add_mset x (pq_bag q)
      else if pq_size q = 0 then pq_insert_with_overflow (total_lt ls) q x = Inr (Some x, q)
      else \<exists>b d q'. pq_insert_with_overflow (total_lt ls) q x = Inr (Some d, q') \<and> pq_inv ls q'
             \<and> least (\<lambda>a b. \<not> ls b a) b (pq_bag q) \<and> d = (if ls b x then b else x)
             \<and> pq_bag q' = add_mset x (pq_bag q) - {#d#})
     \<and> (\<exists>q'. pq_remove (total_lt ls) q x = Inr (x \<in># pq_bag q, q') \<and> pq_inv ls q' \<and> pq_bag q' = pq_bag q - {#x#})
     \<and> (if pq_size q + length xs \<le> pq_max_size q
      then \<exists>q'. pq_add_all_exact (total_lt ls) q xs = Inr q' \<and> pq_inv ls q' \<and> pq_bag q' = mset xs + pq_bag q
      else pq_size q \<le> pq_max_size q \<longrightarrow> pq_add_all_exact (total_lt ls) q xs = Inl ArrayIndexOutOfBounds)
     \<and> (\<exists>q'. pq_clear q = Inr q' \<and> pq_inv ls q' \<and> pq_bag q' = {#} \<and> pq_size q' = 0)"
proof (intro conjI, goal_cases)
  case 1 then show ?case using strict_weak.add [OF assms, of x] by (auto simp: pq_add_def)
next
  case 2 then show ?case using strict_weak.pop [OF assms] by (auto simp: pq_pop_def)
next
  case 3
  have "pq_heap q ! 1 = None" if "pq_size q = 0"
    using assms(2) that nth_mem [of 0 "drop 1 (pq_heap q)"] by (auto simp: pq_inv_def pq_wf_def)
  then show ?case
    using strict_weak.update_top [OF assms, of x] assms(2) by (auto simp: pq_top_def pq_inv_def pq_wf_def)
next
  case 4
  show ?case
  proof (cases "pq_size q < pq_max_size q \<or> pq_size q = 0")
    case True
    then show ?thesis using strict_weak.insert_below [OF assms, of x] by (auto simp: pq_insert_with_overflow_def)
  next
    case False
    then have "pq_max_size q \<le> pq_size q" "0 < pq_size q" by simp_all
    from strict_weak.insert_full [OF assms this, of x] False show ?thesis unfolding de_Morgan_disj if_False by metis
  qed
next
  case 5 then show ?case using strict_weak.remove [OF assms, of x] by blast
next
  case 6 then show ?case using strict_weak.add_all [OF assms, of xs] by (auto simp: pq_add_all_exact_def)
next
  case 7 then show ?case using strict_weak.clear [OF assms] by blast
qed


theorem priority_queue_refines_witness:
  defines "q \<equiv> \<lparr>pq_size = 2, pq_max_size = 2, pq_heap = [None, Some 3, Some (5 :: nat)]\<rparr>"
  shows "strict_weak ((<) :: nat \<Rightarrow> nat \<Rightarrow> bool) \<and> pq_inv (<) q
    \<and> (\<exists>b d q'. pq_insert_with_overflow (total_lt (<)) q 4 = Inr (Some d, q') \<and> pq_inv (<) q'
         \<and> least (\<lambda>a b. \<not> b < a) b (pq_bag q) \<and> d = (if b < 4 then b else 4) \<and> pq_bag q' = add_mset 4 (pq_bag q) - {#d#})
    \<and> (\<exists>q'. pq_remove (total_lt (<)) q 5 = Inr (5 \<in># pq_bag q, q') \<and> pq_inv (<) q' \<and> pq_bag q' = pq_bag q - {#5#})
    \<and> pq_add (total_lt (<)) q 4 = Inl ArrayIndexOutOfBounds"
proof -
  have o: "strict_weak ((<) :: nat \<Rightarrow> nat \<Rightarrow> bool)" by unfold_locales auto
  have "c = 2" if "2 \<le> c" "c \<le> 2" for c :: nat using that by simp
  then have i: "pq_inv (<) q" by (auto simp: q_def pq_inv_def pq_wf_def heap_order_def heap_edge_def)
  show ?thesis using o i priority_queue_refines [OF o i, of 4] priority_queue_refines [OF o i, of 5] by (simp add: q_def)
qed


section \<open>Queues of size zero\<close>

text \<open>The heap of a queue of size zero has two slots: a sentinel is stored in the second one, and \<^verbatim>\<open>add\<close> takes one element.\<close>

lemma zero_queue_sentinel:
  "supplier 0 = Some s \<Longrightarrow>
   \<exists>q. pq_with_sentinel_object 0 supplier = Inr q \<and> pq_size q = 0 \<and> pq_top q = Inr (Some s)"
  by (simp add: pq_with_sentinel_object_def pq_top_def numeral_2_eq_2)

lemma zero_queue_takes_one: "\<exists>q q'. pq_new 0 = Inr q \<and> pq_max_size q = 0 \<and> pq_add lt q x = Inr (x, q') \<and> pq_size q' = 1"
  by (simp add: pq_new_def pq_with_sentinel_object_def pq_add_def pq_up_heap_def pq_up_loop.simps heap_value_def numeral_2_eq_2 Let_def)

end
