(* ===== verification/Scorer_Util.thy ===== *)
theory Scorer_Util
  imports Priority_Queue
begin

text \<open>
  \<^verbatim>\<open>ScorerUtil::cost_with_min_should_match\<close> (\<^verbatim>\<open>search/scorer_util.rs\<close>), a client of \<^verbatim>\<open>PriorityQueue\<close>. The costs are
  the values of an iterator, given as the list of its items and the upper bound of its \<^verbatim>\<open>size_hint\<close>. An \<^verbatim>\<open>i64\<close> is
  an \<open>int\<close>, and an addition that leaves the range of the type panics.
\<close>

section \<open>Operations\<close>

definition i64_add :: "int \<Rightarrow> int \<Rightarrow> int res" where
  "i64_add a b = (if - (2 ^ 63) \<le> a + b \<and> a + b < 2 ^ 63 then Inr (a + b) else Inl Panic)"

text \<open>\<^verbatim>\<open>MaxCostCmp::less_than\<close>.\<close>

definition max_cost_less :: "int \<Rightarrow> int \<Rightarrow> bool" where
  "max_cost_less a b \<longleftrightarrow> b < a"

text \<open>The loop over the consuming iterator of the queue.\<close>

function sum_iter :: "int priority_queue \<Rightarrow> nat \<Rightarrow> int \<Rightarrow> int res" where
  "sum_iter q index s =
     rbind (pq_iter_next True q index) (\<lambda>(v, q, index).
     case v of None \<Rightarrow> Inr s | Some v \<Rightarrow> rbind (i64_add s v) (\<lambda>s. sum_iter q index s))"
  by pat_completeness auto

termination
  by (relation "measure (\<lambda>(q, index, s). pq_size q - index)") (use pq_iter_next_moves in fastforce)+

declare sum_iter.simps [simp del]

definition cost_with_min_should_match :: "int list \<Rightarrow> nat option \<Rightarrow> nat \<Rightarrow> nat \<Rightarrow> int res" where
  "cost_with_min_should_match costs hint num_scorers min_should_match =
     rbind (usub num_scorers min_should_match) (\<lambda>d.
     let k = d + 1 in
     if k = 1 then Inr (case costs of [] \<Rightarrow> 0 | c # cs \<Rightarrow> foldl min c cs)
     else if min_should_match \<le> 1 \<and> k < 2 ^ 31 - 1 \<and> (case hint of None \<Rightarrow> False | Some len \<Rightarrow> len \<le> k)
     then for_each costs (\<lambda>c s. i64_add s c) 0
     else
       rbind (pq_new k) (\<lambda>pq.
       rbind (for_each costs (\<lambda>c pq.
           rbind (pq_insert_with_overflow (total_lt max_cost_less) pq c) (\<lambda>(_, pq). Inr pq)) pq) (\<lambda>pq.
       sum_iter pq 0 0)))"

interpretation max_cost: strict_weak max_cost_less
  by unfold_locales (auto simp: max_cost_less_def)

section \<open>The least costs\<close>

lemma i64_sum:
  "\<bar>s\<bar> + sum_list (map abs xs) < 2 ^ 63 \<Longrightarrow> for_each xs (\<lambda>c s. i64_add s c) s = Inr (s + sum_list xs)"
proof (induction xs arbitrary: s)
  case (Cons x xs)
  have "0 \<le> sum_list (map abs xs)" by (rule sum_list_nonneg) auto
  then have "\<bar>s + x\<bar> + sum_list (map abs xs) < 2 ^ 63" "\<bar>s + x\<bar> < 2 ^ 63" using Cons.prems by auto
  then show ?case using Cons.IH [of "s + x"] by (auto simp: i64_add_def)
qed simp

lemma sum_iter_slots:
  assumes "None \<notin> set (drop (index + 1) (take (pq_size q + 1) (pq_heap q)))" "pq_size q < length (pq_heap q)" "index \<le> pq_size q"
  shows "sum_iter q index s = for_each (map the (drop (index + 1) (take (pq_size q + 1) (pq_heap q)))) (\<lambda>c s. i64_add s c) s"
  using assms
proof (induction "pq_size q - index" arbitrary: q index s)
  case 0
  then show ?case by (simp add: sum_iter.simps [of q] pq_iter_next.simps [of _ q])
next
  case (Suc n)
  let ?h = "pq_heap q" let ?q = "q\<lparr>pq_heap := ?h[index + 1 := None]\<rparr>"
  have i: "index < pq_size q" using Suc.hyps(2) by simp
  have slots: "drop (index + 1) (take (pq_size q + 1) ?h) = ?h ! (index + 1) # drop (index + 2) (take (pq_size q + 1) ?h)"
    using Cons_nth_drop_Suc [of "index + 1" "take (pq_size q + 1) ?h"] i Suc.prems(2) by simp
  then obtain x where x: "?h ! (index + 1) = Some x" using Suc.prems(1) by (cases "?h ! (index + 1)") simp_all
  have step: "pq_iter_next True q index = Inr (Some x, ?q, index + 1)"
    using i x Suc.prems(2) by (simp add: pq_iter_next.simps [of _ q])
  have rest: "drop (index + 2) (take (pq_size ?q + 1) (pq_heap ?q)) = drop (index + 2) (take (pq_size q + 1) ?h)"
    by (simp add: take_update_swap)
  have "sum_iter ?q (index + 1) = for_each (map the (drop (index + 1 + 1) (take (pq_size ?q + 1) (pq_heap ?q)))) (\<lambda>c s. i64_add s c)"
    by (rule ext, rule Suc.hyps(1)) (use Suc.hyps(2) Suc.prems i slots rest in simp_all)
  then show ?case using slots x rest by (simp add: sum_iter.simps [of q] step)
qed

lemma least_costs:
  assumes "greatest_of (\<lambda>a b. \<not> max_cost_less b a) k (mset xs) B"
  shows "B = mset (take k (sort xs))"
proof -
  let ?l = "sorted_list_of_multiset B" and ?r = "sorted_list_of_multiset (mset xs - B)"
  have B: "B \<subseteq># mset xs" "size B = min k (length xs)" "\<And>x y. x \<in># B \<Longrightarrow> y \<in># mset xs - B \<Longrightarrow> x \<le> y"
    using assms by (auto simp: greatest_of_def max_cost_less_def not_less)
  have "sorted (?l @ ?r)" using B(3) by (auto simp: sorted_append)
  moreover have "mset (?l @ ?r) = mset xs" using B(1) by simp
  ultimately have sort: "sort xs = ?l @ ?r" by (intro properties_for_sort) simp_all
  have "length ?l = min k (length xs)" using B(2) by (metis mset_sorted_list_of_multiset size_mset)
  moreover have "?r = []" if "length xs < k"
  proof -
    have "length ?l + length ?r = length xs" by (metis sort length_append length_sort)
    then show ?thesis using that calculation by simp
  qed
  ultimately have "take k (sort xs) = ?l" unfolding sort by (cases "length xs < k") (simp_all add: min_def)
  then show ?thesis by simp
qed

lemma offers:
  "insert_all (pq_offer ls) xs q = Some (for_each xs (\<lambda>c pq. rbind (pq_insert_with_overflow (total_lt ls) pq c) (\<lambda>(_, pq). Inr pq)) q)"
  by (induction xs arbitrary: q) (simp_all add: pq_offer_def rbind_def split: sum.split)

lemma sum_queue:
  assumes "pq_inv ls q" "pq_bag q = mset (take k (sort costs))" "sum_list (map abs costs) < 2 ^ 63"
  shows "sum_iter q 0 0 = Inr (sum_list (take k (sort costs)))"
proof -
  let ?vs = "map the (take (pq_size q) (drop 1 (pq_heap q)))"
  have wf: "pq_size q < length (pq_heap q)" "None \<notin> set (take (pq_size q) (drop 1 (pq_heap q)))"
    using assms(1) by (simp_all add: pq_inv_def pq_wf_def)
  have vs: "mset ?vs = mset (take k (sort costs))" using assms(2) by (simp add: pq_bag_def)
  have "sum_list (map abs (take k (sort costs))) \<le> sum_list (map abs (take k (sort costs))) + sum_list (map abs (drop k (sort costs)))"
    using sum_list_nonneg [of "map abs (drop k (sort costs))"] by fastforce
  also have "\<dots> = sum_list (map abs (sort costs))" by (metis append_take_drop_id map_append sum_list_append)
  also have "\<dots> = sum_list (map abs costs)" by (metis mset_map mset_sort sum_mset_sum_list)
  finally have "sum_list (map abs ?vs) < 2 ^ 63"
    using assms(3) vs by (metis (no_types, lifting) mset_map order_le_less_trans sum_mset_sum_list)
  then have "for_each ?vs (\<lambda>c s. i64_add s c) 0 = Inr (sum_list ?vs)" using i64_sum [of 0 ?vs] by simp
  moreover have "sum_list ?vs = sum_list (take k (sort costs))" using vs by (metis sum_mset_sum_list)
  moreover have "drop 1 (take (pq_size q + 1) (pq_heap q)) = take (pq_size q) (drop 1 (pq_heap q))" by (simp add: drop_take)
  ultimately show ?thesis using sum_iter_slots [of 0 q 0] wf by simp
qed

lemma foldl_min: "foldl min c cs = hd (sort (c # cs))" for c :: int
proof -
  have "foldl min c cs = Min (set (c # cs))"
  proof (induction cs arbitrary: c)
    case (Cons x cs)
    have "min c (Min (insert x (set cs))) = Min (insert (min c x) (set cs))" by (cases cs) (simp_all add: min.assoc)
    then show ?case using Cons [of "min c x"] by simp
  qed simp
  also have "\<dots> = Min (set (sort (c # cs)))" by (simp only: set_sort)
  also have "\<dots> = hd (sort (c # cs))"
  proof (cases "sort (c # cs)")
    case Nil
    then have "length (sort (c # cs)) = 0" by (simp only: list.size)
    then show ?thesis by (simp only: length_sort) simp
  next
    case (Cons y ys)
    have "sorted (y # ys)" using sorted_sort [of "c # cs"] unfolding Cons .
    then show ?thesis unfolding Cons by (intro Min_eqI) auto
  qed
  finally show ?thesis .
qed

text \<open>C38. \<^verbatim>\<open>cost_with_min_should_match\<close> returns the sum of the \<open>num_scorers - min_should_match + 1\<close> least costs, on
  each of its three paths (minimum, plain sum, bounded priority queue), if the bound that the iterator gives for
  its length is one and the sum of the magnitudes of the costs is below \<open>2 ^ 63\<close>. A queue of \<open>2 ^ 31 - 1\<close> costs or
  more is refused.\<close>

theorem cost_with_min_should_match_sums_least:
  assumes "min_should_match \<le> num_scorers" "\<And>u. hint = Some u \<Longrightarrow> length costs \<le> u" "sum_list (map abs costs) < 2 ^ 63"
  shows "cost_with_min_should_match costs hint num_scorers min_should_match =
    (if num_scorers - min_should_match + 1 < 2 ^ 31 - 1
     then Inr (sum_list (take (num_scorers - min_should_match + 1) (sort costs))) else Inl IllegalArgument)"
proof -
  let ?k = "num_scorers - min_should_match + 1"
  consider (one) "?k = 1"
    | (all) "?k \<noteq> 1" "min_should_match \<le> 1 \<and> ?k < 2 ^ 31 - 1 \<and> (case hint of None \<Rightarrow> False | Some len \<Rightarrow> len \<le> ?k)"
    | (pq) "?k \<noteq> 1" "\<not> (min_should_match \<le> 1 \<and> ?k < 2 ^ 31 - 1 \<and> (case hint of None \<Rightarrow> False | Some len \<Rightarrow> len \<le> ?k))"
    by blast
  then show ?thesis
  proof cases
    case one
    show ?thesis
    proof (cases costs)
      case (Cons c cs)
      then have "length (sort costs) \<noteq> 0" unfolding length_sort by simp
      then have "take 1 (sort costs) = [hd (sort costs)]" by (cases "sort costs") simp_all
      then show ?thesis using one Cons assms(1) by (simp add: cost_with_min_should_match_def foldl_min del: sort_key_simps foldl.simps)
    qed (use one assms(1) in \<open>simp add: cost_with_min_should_match_def\<close>)
  next
    case all
    then have "length (sort costs) \<le> ?k" using assms(2) by (auto split: option.splits intro: order.trans)
    moreover have "sum_list (sort costs) = sum_list costs" by (metis mset_sort sum_mset_sum_list)
    ultimately show ?thesis
      using all assms(1) i64_sum [of 0 costs] assms(3) by (auto simp: cost_with_min_should_match_def split: option.splits)
  next
    case pq
    show ?thesis
    proof (cases "?k < 2 ^ 31 - 1")
      case True
      obtain q where q: "pq_new ?k = Inr q" "pq_inv max_cost_less q" "pq_bag q = {#}" "pq_max_size q = ?k"
        using new_queue [OF True] by blast
      have "pq_bounded max_cost_less q" "greatest_of (\<lambda>a b. \<not> max_cost_less b a) (pq_max_size q) {#} (pq_bag q)"
        using q by (simp_all add: pq_bounded_def greatest_of_def)
      from max_cost.queue.insert_all_greatest [OF this, of costs] obtain q' where
        q': "for_each costs (\<lambda>c pq. rbind (pq_insert_with_overflow (total_lt max_cost_less) pq c) (\<lambda>(_, pq). Inr pq)) q = Inr q'"
          "pq_inv max_cost_less q'" "greatest_of (\<lambda>a b. \<not> max_cost_less b a) ?k (mset costs) (pq_bag q')"
        using q(4) by (auto simp: offers pq_bounded_def)
      from sum_queue [OF q'(2) least_costs [OF q'(3)] assms(3)] show ?thesis
        using pq True assms(1) q(1) q'(1)
        by (auto simp: cost_with_min_should_match_def Let_def split: option.splits)
    next
      case False
      then show ?thesis using pq assms(1)
        by (simp add: cost_with_min_should_match_def Let_def pq_new_def pq_with_sentinel_object_def)
    qed
  qed
qed


theorem cost_with_min_should_match_sums_least_witness:
  "(2 :: nat) \<le> 3 \<and> sum_list (map abs [5, 1, 4 :: int]) < 2 ^ 63
   \<and> cost_with_min_should_match [5, 1, 4] (Some 3) 3 2 = Inr (sum_list (take (3 - 2 + 1) (sort [5, 1, 4])))
   \<and> sum_list (take (3 - 2 + 1) (sort [5, 1, 4 :: int])) = 5
   \<and> cost_with_min_should_match [5, 1, 4] None (2 ^ 31) 2 = Inl IllegalArgument"
  using cost_with_min_should_match_sums_least [of 2 3 "Some 3" "[5, 1, 4]"]
    cost_with_min_should_match_sums_least [of 2 "2 ^ 31" None "[5, 1, 4]"] by simp

end
