(* ===== verification/Byte_Buffers_Dir.thy ===== *)
theory Byte_Buffers_Dir
  imports Array_Util "HOL-Library.AList" "HOL-Library.List_Lexorder" "HOL-Library.Char_ord"
begin

text \<open>
  \<^verbatim>\<open>ByteBuffersDirectory\<close> (\<^verbatim>\<open>store/byte_buffers_directory.rs\<close>): the directory in memory. A \<^verbatim>\<open>FileEntry\<close> is shared
  between the table of the directory and the output that writes it, so the entries live in a store and the table
  maps names to their addresses. The type \<open>'c\<close> is the content of a closed file. The table is an association list;
  the order of a \<^verbatim>\<open>HashMap\<close> is not observable, since \<^verbatim>\<open>list_all\<close> sorts. Locks are not modelled: every method holds
  the lock of the table for its whole access. \<^verbatim>\<open>create_temp_output\<close> and the streams are not modelled.
\<close>

record 'c file_entry =
  fe_file_name :: string
  fe_content :: "'c option"
  fe_cached_length :: nat
  fe_deleted :: bool

record 'c bb_dir =
  bb_is_open :: bool
  bb_files :: "(string \<times> nat) list"
  bb_entries :: "'c file_entry list"

section \<open>Operations\<close>

definition file_entry_new :: "string \<Rightarrow> 'c file_entry" where
  "file_entry_new name = \<lparr>fe_file_name = name, fe_content = None, fe_cached_length = 0, fe_deleted = False\<rparr>"

definition bb_new :: "'c bb_dir" where
  "bb_new = \<lparr>bb_is_open = True, bb_files = [], bb_entries = []\<rparr>"

definition bb_ensure_open :: "'c bb_dir \<Rightarrow> unit res" where
  "bb_ensure_open d = (if \<not> bb_is_open d then Inl AlreadyClosed else Inr ())"

definition bb_file_exists :: "'c bb_dir \<Rightarrow> string \<Rightarrow> bool res" where
  "bb_file_exists d name = rbind (bb_ensure_open d) (\<lambda>_. Inr (map_of (bb_files d) name \<noteq> None))"

definition bb_list_all :: "'c bb_dir \<Rightarrow> string list res" where
  "bb_list_all d = rbind (bb_ensure_open d) (\<lambda>_. Inr (sort (map fst (bb_files d))))"

definition bb_delete_file :: "'c bb_dir \<Rightarrow> string \<Rightarrow> unit res \<times> 'c bb_dir" where
  "bb_delete_file d name =
     (case bb_ensure_open d of
        Inl e \<Rightarrow> (Inl e, d)
      | Inr _ \<Rightarrow>
          (case map_of (bb_files d) name of
             None \<Rightarrow> (Inl (IoWithPath NotFound), d)
           | Some a \<Rightarrow>
               (Inr (), d\<lparr>bb_files := AList.delete name (bb_files d),
                          bb_entries := (bb_entries d)[a := (bb_entries d ! a)\<lparr>fe_deleted := True\<rparr>]\<rparr>)))"

definition bb_file_length :: "'c bb_dir \<Rightarrow> string \<Rightarrow> nat res" where
  "bb_file_length d name =
     rbind (bb_ensure_open d) (\<lambda>_.
     case map_of (bb_files d) name of
       Some a \<Rightarrow> Inr (fe_cached_length (bb_entries d ! a))
     | None \<Rightarrow> Inl (IoWithPath NotFound))"

text \<open>The free function \<^verbatim>\<open>create_output\<close> refuses an entry that has been written. The output is its entry.\<close>

definition output_of_entry :: "'c bb_dir \<Rightarrow> nat \<Rightarrow> nat res" where
  "output_of_entry d a = (if fe_content (bb_entries d ! a) \<noteq> None then Inl (IoWithPath AlreadyExists) else Inr a)"

definition bb_create_output :: "'c bb_dir \<Rightarrow> string \<Rightarrow> nat res \<times> 'c bb_dir" where
  "bb_create_output d name =
     (case bb_ensure_open d of
        Inl e \<Rightarrow> (Inl e, d)
      | Inr _ \<Rightarrow>
          (case map_of (bb_files d) name of
             Some _ \<Rightarrow> (Inl (IoWithPath AlreadyExists), d)
           | None \<Rightarrow>
               let a = length (bb_entries d);
                   d = d\<lparr>bb_files := AList.update name a (bb_files d), bb_entries := bb_entries d @ [file_entry_new name]\<rparr>
               in (output_of_entry d a, d)))"

text \<open>\<^verbatim>\<open>ByteBuffersDirectoryOutputOnClose::on_close\<close>: \<open>nrt\<close> says whether the strategy is the one of
  \<^verbatim>\<open>NRTCachingDirectory\<close>, \<open>cached_length\<close> and \<open>content\<close> are the size of the output and what the strategy makes of it.\<close>

definition bb_on_close :: "bool \<Rightarrow> nat \<Rightarrow> nat \<Rightarrow> 'c res \<Rightarrow> 'c bb_dir \<Rightarrow> unit res \<times> 'c bb_dir" where
  "bb_on_close nrt a cached_length content d =
     (let entry = bb_entries d ! a in
      if fe_deleted entry \<and> nrt then (Inr (), d)
      else
        (case content of
           Inl e \<Rightarrow> (Inl e, d)
         | Inr c \<Rightarrow>
             (Inr (), d\<lparr>bb_entries := (bb_entries d)[a := entry\<lparr>fe_content := Some c, fe_cached_length := cached_length\<rparr>]\<rparr>)))"

definition bb_rename :: "'c bb_dir \<Rightarrow> string \<Rightarrow> string \<Rightarrow> unit res \<times> 'c bb_dir" where
  "bb_rename d source dest =
     (case bb_ensure_open d of
        Inl e \<Rightarrow> (Inl e, d)
      | Inr _ \<Rightarrow>
          if map_of (bb_files d) dest \<noteq> None
          then (if map_of (bb_files d) source = None then (Inl (IoWithPath NotFound), d) else (Inl (IoWithPath AlreadyExists), d))
          else
            (case map_of (bb_files d) source of
               None \<Rightarrow> (Inl (IoWithPath NotFound), d)
             | Some a \<Rightarrow> (Inr (), d\<lparr>bb_files := AList.update dest a (AList.delete source (bb_files d))\<rparr>)))"

definition bb_open_input :: "'c bb_dir \<Rightarrow> string \<Rightarrow> 'c res" where
  "bb_open_input d name =
     rbind (bb_ensure_open d) (\<lambda>_.
     case map_of (bb_files d) name of
       Some a \<Rightarrow>
         (case fe_content (bb_entries d ! a) of None \<Rightarrow> Inl (IoWithPath PermissionDenied) | Some c \<Rightarrow> Inr c)
     | None \<Rightarrow> Inl (IoWithPath NotFound))"

definition bb_close :: "'c bb_dir \<Rightarrow> 'c bb_dir" where
  "bb_close d = d\<lparr>bb_is_open := False, bb_files := []\<rparr>"

section \<open>The table of the files\<close>

text \<open>Names and addresses are unique, the addresses are allocated, and the entry of a listed file is not deleted.\<close>

definition bb_inv :: "'c bb_dir \<Rightarrow> bool" where
  "bb_inv d \<longleftrightarrow> distinct (map fst (bb_files d))
     \<and> (\<forall>f g a. map_of (bb_files d) f = Some a \<longrightarrow> map_of (bb_files d) g = Some a \<longrightarrow> f = g)
     \<and> (\<forall>f a. map_of (bb_files d) f = Some a \<longrightarrow> a < length (bb_entries d) \<and> \<not> fe_deleted (bb_entries d ! a))"

definition bb_listing :: "'c bb_dir \<Rightarrow> string set" where
  "bb_listing d = dom (map_of (bb_files d))"

lemmas bb_defs = bb_ensure_open_def bb_listing_def

lemma bb_inv_new: "bb_inv bb_new"
  by (simp add: bb_inv_def bb_new_def)

lemma bb_inv_delete: "bb_inv d \<Longrightarrow> bb_inv (snd (bb_delete_file d name))"
  by (simp add: bb_inv_def bb_delete_file_def AList.distinct_delete delete_conv' nth_list_update del: map_of_eq_Some_iff
      split: sum.split option.split) metis

lemma bb_inv_create: "bb_inv d \<Longrightarrow> bb_inv (snd (bb_create_output d name))"
  by (simp add: bb_inv_def bb_create_output_def AList.distinct_update update_conv' nth_append file_entry_new_def
      Let_def del: map_of_eq_Some_iff split: sum.split option.split) (metis less_irrefl less_SucI)

lemma bb_inv_rename: "bb_inv d \<Longrightarrow> bb_inv (snd (bb_rename d source dest))"
  by (simp add: bb_inv_def bb_rename_def AList.distinct_update AList.distinct_delete update_conv' delete_conv'
      del: map_of_eq_Some_iff split: sum.split option.split) (auto simp del: map_of_eq_Some_iff)

lemma bb_inv_on_close: "bb_inv d \<Longrightarrow> bb_inv (snd (bb_on_close nrt a n content d))"
  by (cases "a < length (bb_entries d)")
    (auto simp: bb_inv_def bb_on_close_def nth_list_update list_update_beyond Let_def simp del: map_of_eq_Some_iff split: sum.split)

lemma bb_inv_close: "bb_inv d \<Longrightarrow> bb_inv (bb_close d)"
  by (simp add: bb_inv_def bb_close_def)

text \<open>A file can be opened with what was written once its output is closed, and not before.\<close>

lemma bb_write_read:
  assumes "bb_is_open d" "name \<notin> bb_listing d"
  shows "\<exists>a e. bb_create_output d name = (Inr a, e) \<and> bb_open_input e name = Inl (IoWithPath PermissionDenied)
    \<and> bb_open_input (snd (bb_on_close nrt a n (Inr c) e)) name = Inr c
    \<and> bb_file_length (snd (bb_on_close nrt a n (Inr c) e)) name = Inr n"
  using assms by (auto simp: bb_defs bb_create_output_def bb_open_input_def bb_on_close_def bb_file_length_def output_of_entry_def
      file_entry_new_def update_conv' Let_def domIff)

text \<open>\<^verbatim>\<open>rename\<close> moves an entry to a free name.\<close>

lemma bb_rename_moves:
  assumes "bb_is_open d" "source \<in> bb_listing d" "dest \<notin> bb_listing d"
  shows "\<exists>e. bb_rename d source dest = (Inr (), e) \<and> bb_listing e = insert dest (bb_listing d - {source})
    \<and> bb_open_input e dest = bb_open_input d source"
proof -
  obtain a where "map_of (bb_files d) source = Some a" using assms(2) by (auto simp: bb_defs)
  then have "bb_rename d source dest = (Inr (), d\<lparr>bb_files := AList.update dest a (AList.delete source (bb_files d))\<rparr>)"
    using assms by (simp add: bb_defs bb_rename_def domIff)
  then show ?thesis
    using \<open>map_of (bb_files d) source = Some a\<close> assms by (auto simp: bb_defs bb_open_input_def update_conv' delete_conv')
qed

lemma bb_delete_listing:
  "bb_delete_file d f = (r, e) \<Longrightarrow> bb_listing e = (if r = Inr () then bb_listing d - {f} else bb_listing d)
     \<and> (r = Inl (IoWithPath NotFound) \<longrightarrow> f \<notin> bb_listing d)"
  by (auto simp: bb_defs bb_delete_file_def delete_conv' domIff split: sum.splits option.splits if_splits)

end
