(* ===== verification/File_Deleter.thy ===== *)
theory File_Deleter
  imports Byte_Buffers_Dir "HOL-Library.Multiset"
begin

text \<open>
  \<^verbatim>\<open>FileDeleter\<close> (\<^verbatim>\<open>util/file_deleter.rs\<close>), which counts the references to the files of an index and deletes a file
  when its last reference is released. The directory and the consumer of messages are parameters: functions on a
  world \<open>'w\<close>. A message is the list of the arguments of its format string. An operation returns its result and the
  state it leaves, also after an error or a panic, since \<^verbatim>\<open>dec_ref\<close> goes on after both. The order in which a
  \<^verbatim>\<open>HashSet\<close> or \<^verbatim>\<open>HashMap\<close> is traversed is a parameter as well, and so is whether debug assertions are compiled in.
\<close>

datatype msg_type = Ref | File

datatype message =
    IncRef string nat
  | DecRef string nat
  | Removing string
  | WillDelete string
  | NowDelete nat "string list"

record ref_count =
  rc_init_done :: bool
  rc_count :: nat

record 'w fd_env =
  env_messenger :: "(msg_type \<Rightarrow> message \<Rightarrow> 'w \<Rightarrow> unit res \<times> 'w) option"
  env_delete_file :: "string \<Rightarrow> 'w \<Rightarrow> unit res \<times> 'w"
  env_windows :: bool
  env_debug :: bool
  env_order :: "string list \<Rightarrow> string list"

record 'w file_deleter =
  fd_ref_counts :: "(string \<times> ref_count) list"
  fd_world :: 'w

section \<open>Reference counts\<close>

definition rc_new :: ref_count where
  "rc_new = \<lparr>rc_init_done = False, rc_count = 0\<rparr>"

definition rc_inc_ref :: "bool \<Rightarrow> ref_count \<Rightarrow> ref_count res" where
  "rc_inc_ref debug rc =
     (let inc = rc\<lparr>rc_count := (rc_count rc + 1) mod 2 ^ 64\<rparr> in
      if \<not> debug then Inr inc
      else if \<not> rc_init_done rc then Inr (inc\<lparr>rc_init_done := True\<rparr>)
      else dassert (0 < rc_count rc) (Inr inc))"

definition rc_dec_ref :: "bool \<Rightarrow> ref_count \<Rightarrow> ref_count res" where
  "rc_dec_ref debug rc =
     dassert (debug \<longrightarrow> 0 < rc_count rc) (Inr (rc\<lparr>rc_count := (rc_count rc + (2 ^ 64 - 1)) mod 2 ^ 64\<rparr>))"

section \<open>Operations\<close>

definition sbind :: "'a res \<times> 's \<Rightarrow> ('a \<Rightarrow> 's \<Rightarrow> 'b res \<times> 's) \<Rightarrow> 'b res \<times> 's" where
  "sbind m f = (case m of (Inl e, s) \<Rightarrow> (Inl e, s) | (Inr x, s) \<Rightarrow> f x s)"

definition on_world :: "('w \<Rightarrow> 'a res \<times> 'w) \<Rightarrow> 'w file_deleter \<Rightarrow> 'a res \<times> 'w file_deleter" where
  "on_world g s = (case g (fd_world s) of (r, w) \<Rightarrow> (r, s\<lparr>fd_world := w\<rparr>))"

definition accept :: "'w fd_env \<Rightarrow> msg_type \<Rightarrow> message \<Rightarrow> 'w file_deleter \<Rightarrow> unit res \<times> 'w file_deleter" where
  "accept env t m s = (case env_messenger env of None \<Rightarrow> (Inr (), s) | Some g \<Rightarrow> on_world (g t m) s)"

definition fd_new :: "'w \<Rightarrow> 'w file_deleter" where
  "fd_new w = \<lparr>fd_ref_counts = [], fd_world = w\<rparr>"

definition init_ref_count :: "string \<Rightarrow> 'w file_deleter \<Rightarrow> 'w file_deleter" where
  "init_ref_count f s =
     (if map_of (fd_ref_counts s) f = None then s\<lparr>fd_ref_counts := AList.update f rc_new (fd_ref_counts s)\<rparr> else s)"

text \<open>\<^verbatim>\<open>get_ref_count_internal\<close> creates a missing count and returns a reference to it.\<close>

definition get_ref_count_internal :: "string \<Rightarrow> 'w file_deleter \<Rightarrow> ref_count res \<times> 'w file_deleter" where
  "get_ref_count_internal f s =
     (let s = (if map_of (fd_ref_counts s) f = None then s\<lparr>fd_ref_counts := AList.update f rc_new (fd_ref_counts s)\<rparr> else s) in
      case map_of (fd_ref_counts s) f of None \<Rightarrow> (Inl IllegalState, s) | Some rc \<Rightarrow> (Inr rc, s))"

definition inc_ref_single :: "'w fd_env \<Rightarrow> string \<Rightarrow> 'w file_deleter \<Rightarrow> unit res \<times> 'w file_deleter" where
  "inc_ref_single env f s =
     sbind (get_ref_count_internal f s) (\<lambda>rc s.
     sbind (accept env Ref (IncRef f (rc_count rc)) s) (\<lambda>_ s.
     case rc_inc_ref (env_debug env) rc of
       Inl e \<Rightarrow> (Inl e, s)
     | Inr rc \<Rightarrow> (Inr (), s\<lparr>fd_ref_counts := AList.update f rc (fd_ref_counts s)\<rparr>)))"

primrec inc_ref :: "'w fd_env \<Rightarrow> string list \<Rightarrow> 'w file_deleter \<Rightarrow> unit res \<times> 'w file_deleter" where
  "inc_ref env [] s = (Inr (), s)"
| "inc_ref env (f # fs) s = sbind (inc_ref_single env f s) (\<lambda>_ s. inc_ref env fs s)"

definition dec_ref_single :: "'w fd_env \<Rightarrow> string \<Rightarrow> 'w file_deleter \<Rightarrow> bool res \<times> 'w file_deleter" where
  "dec_ref_single env f s =
     sbind (get_ref_count_internal f s) (\<lambda>rc s.
     sbind (accept env Ref (DecRef f (rc_count rc)) s) (\<lambda>_ s.
     case rc_dec_ref (env_debug env) rc of
       Inl e \<Rightarrow> (Inl e, s)
     | Inr rc \<Rightarrow>
         if rc_count rc = 0 then (Inr True, s\<lparr>fd_ref_counts := AList.delete f (fd_ref_counts s)\<rparr>)
         else (Inr False, s\<lparr>fd_ref_counts := AList.update f rc (fd_ref_counts s)\<rparr>)))"

definition get_ref_count :: "'w file_deleter \<Rightarrow> string \<Rightarrow> nat" where
  "get_ref_count s f = (case map_of (fd_ref_counts s) f of None \<Rightarrow> 0 | Some rc \<Rightarrow> rc_count rc)"

definition get_all_files :: "'w fd_env \<Rightarrow> 'w file_deleter \<Rightarrow> string list" where
  "get_all_files env s = env_order env (map fst (fd_ref_counts s))"

definition exists_ref :: "'w file_deleter \<Rightarrow> string \<Rightarrow> bool" where
  "exists_ref s f = (case map_of (fd_ref_counts s) f of None \<Rightarrow> False | Some rc \<Rightarrow> 0 < rc_count rc)"

definition delete_file :: "'w fd_env \<Rightarrow> string \<Rightarrow> 'w file_deleter \<Rightarrow> unit res \<times> 'w file_deleter" where
  "delete_file env f s =
     (case on_world (env_delete_file env f) s of
        (Inr _, s) \<Rightarrow> (Inr (), s)
      | (Inl e, s) \<Rightarrow> if env_windows env then if e = Io NotFound then (Inr (), s) else (Inl e, s) else (Inl e, s))"

text \<open>One pass of \<^verbatim>\<open>delete_files\<close>.\<close>

primrec delete_pass :: "'w fd_env \<Rightarrow> string list \<Rightarrow> 'w file_deleter \<Rightarrow> unit res \<times> 'w file_deleter" where
  "delete_pass env [] s = (Inr (), s)"
| "delete_pass env (f # fs) s =
     (if env_debug env \<and> exists_ref s f then (Inl Panic, s) else sbind (delete_file env f s) (\<lambda>_ s. delete_pass env fs s))"

definition SEGMENTS :: string where
  "SEGMENTS = ''segments''"

definition is_segments :: "string \<Rightarrow> bool" where
  "is_segments f \<longleftrightarrow> take (length SEGMENTS) f = SEGMENTS"

definition delete_files :: "'w fd_env \<Rightarrow> string list \<Rightarrow> 'w file_deleter \<Rightarrow> unit res \<times> 'w file_deleter" where
  "delete_files env files s =
     sbind (accept env File (NowDelete (length files) files) s) (\<lambda>_ s.
     sbind (delete_pass env (filter is_segments files) s) (\<lambda>_ s.
     delete_pass env (filter (\<lambda>f. \<not> is_segments f) files) s))"

text \<open>\<^verbatim>\<open>IOUtils::close_with\<close>: every object is closed, the first failure is returned.\<close>

definition first_failure :: "'a res \<Rightarrow> unit res \<Rightarrow> 'a res" where
  "first_failure r r' = (case r of Inl e \<Rightarrow> Inl e | Inr x \<Rightarrow> (case r' of Inl e \<Rightarrow> Inl e | Inr _ \<Rightarrow> Inr x))"

primrec close_with :: "('a \<Rightarrow> 's \<Rightarrow> unit res \<times> 's) \<Rightarrow> 'a list \<Rightarrow> 's \<Rightarrow> unit res \<times> 's" where
  "close_with close [] s = (Inr (), s)"
| "close_with close (x # xs) s =
     (case close x s of (r, s) \<Rightarrow> case close_with close xs s of (r', s) \<Rightarrow> (first_failure r r', s))"

definition dec_and_note :: "'w fd_env \<Rightarrow> string \<Rightarrow> 'w file_deleter \<times> string list \<Rightarrow> unit res \<times> 'w file_deleter \<times> string list" where
  "dec_and_note env f = (\<lambda>(s, to_delete).
     case dec_ref_single env f s of
       (Inl e, s) \<Rightarrow> (Inl e, s, to_delete)
     | (Inr b, s) \<Rightarrow> (Inr (), s, if b then List.insert f to_delete else to_delete))"

definition dec_ref :: "'w fd_env \<Rightarrow> string list \<Rightarrow> 'w file_deleter \<Rightarrow> unit res \<times> 'w file_deleter" where
  "dec_ref env fs s =
     (case close_with (dec_and_note env) fs (s, []) of
        (r, s, to_delete) \<Rightarrow>
          (case delete_files env (env_order env to_delete) s of (r', s) \<Rightarrow> (first_failure r r', s)))"

text \<open>The loop of \<^verbatim>\<open>get_unrefed_files\<close>.\<close>

primrec unrefed_loop :: "'w fd_env \<Rightarrow> string list \<Rightarrow> string list \<Rightarrow> 'w file_deleter \<Rightarrow> string list res \<times> 'w file_deleter" where
  "unrefed_loop env [] unrefed s = (Inr unrefed, s)"
| "unrefed_loop env (f # fs) unrefed s =
     (if get_ref_count s f = 0
      then sbind (accept env File (Removing f) s) (\<lambda>_ s. unrefed_loop env fs (List.insert f unrefed) s)
      else unrefed_loop env fs unrefed s)"

definition get_unrefed_files :: "'w fd_env \<Rightarrow> 'w file_deleter \<Rightarrow> string list res \<times> 'w file_deleter" where
  "get_unrefed_files env s = unrefed_loop env (get_all_files env s) [] s"

primrec no_ref_loop :: "'w fd_env \<Rightarrow> string list \<Rightarrow> string list \<Rightarrow> 'w file_deleter \<Rightarrow> string list res \<times> 'w file_deleter" where
  "no_ref_loop env [] to_delete s = (Inr to_delete, s)"
| "no_ref_loop env (f # fs) to_delete s =
     (if \<not> exists_ref s f
      then sbind (accept env File (WillDelete f) s) (\<lambda>_ s. no_ref_loop env fs (List.insert f to_delete) s)
      else no_ref_loop env fs to_delete s)"

definition delete_files_if_no_ref :: "'w fd_env \<Rightarrow> string list \<Rightarrow> 'w file_deleter \<Rightarrow> unit res \<times> 'w file_deleter" where
  "delete_files_if_no_ref env files s =
     sbind (no_ref_loop env files [] s) (\<lambda>to_delete s. delete_files env (env_order env to_delete) s)"

definition force_delete :: "'w fd_env \<Rightarrow> string \<Rightarrow> 'w file_deleter \<Rightarrow> unit res \<times> 'w file_deleter" where
  "force_delete env f s = delete_file env f (s\<lparr>fd_ref_counts := AList.delete f (fd_ref_counts s)\<rparr>)"

definition delete_file_if_no_ref :: "'w fd_env \<Rightarrow> string \<Rightarrow> 'w file_deleter \<Rightarrow> unit res \<times> 'w file_deleter" where
  "delete_file_if_no_ref env f s =
     (if \<not> exists_ref s f then sbind (accept env File (WillDelete f) s) (\<lambda>_ s. delete_file env f s) else (Inr (), s))"

section \<open>Counts\<close>

lemma sbind_simps [simp]: "sbind (Inl e, s) f = (Inl e, s)" "sbind (Inr x, s) f = f x s"
  by (simp_all add: sbind_def)

lemma exists_ref_count: "exists_ref s f \<longleftrightarrow> 0 < get_ref_count s f"
  by (simp add: exists_ref_def get_ref_count_def split: option.split)

lemma count_update: "get_ref_count (s\<lparr>fd_ref_counts := AList.update f rc (fd_ref_counts s)\<rparr>) = (get_ref_count s)(f := rc_count rc)"
  by (auto simp: get_ref_count_def update_conv')

lemma count_delete: "get_ref_count (s\<lparr>fd_ref_counts := AList.delete f (fd_ref_counts s)\<rparr>) = (get_ref_count s)(f := 0)"
  by (auto simp: get_ref_count_def delete_conv')

lemma count_world: "get_ref_count (s\<lparr>fd_world := w\<rparr>) = get_ref_count s"
  by (simp add: get_ref_count_def fun_eq_iff)

lemma get_ref_count_internal_ok:
  "\<exists>rc s'. get_ref_count_internal f s = (Inr rc, s') \<and> rc_count rc = get_ref_count s f \<and> get_ref_count s' = get_ref_count s
    \<and> fd_world s' = fd_world s"
  by (cases "map_of (fd_ref_counts s) f")
    (auto simp: get_ref_count_internal_def get_ref_count_def update_conv' rc_new_def)

lemma init_ref_count_ok: "get_ref_count (init_ref_count f s) = get_ref_count s \<and> fd_world (init_ref_count f s) = fd_world s"
  by (auto simp: init_ref_count_def get_ref_count_def update_conv' rc_new_def)

lemma rc_dec_ref_ok:
  "rc_count rc < 2 ^ 64 \<Longrightarrow> 0 < rc_count rc \<Longrightarrow> rc_dec_ref debug rc = Inr (rc\<lparr>rc_count := rc_count rc - 1\<rparr>)"
  by (cases "rc_count rc") (simp_all add: rc_dec_ref_def)

section \<open>The directory and the messages\<close>

text \<open>What a \<^verbatim>\<open>Directory\<close> and a \<^verbatim>\<open>Messenger\<close> promise: deleting a file touches no other file, a file that was deleted or
  is reported as missing is not there, messages do not change the files. \<open>listing\<close> is the set of the files.\<close>

locale file_world =
  fixes env :: "'w fd_env" and listing :: "'w \<Rightarrow> string set"
  assumes delete_only: "env_delete_file env f w = (r, w') \<Longrightarrow> listing w - {f} \<subseteq> listing w' \<and> listing w' \<subseteq> listing w"
    and deleted: "env_delete_file env f w = (Inr (), w') \<Longrightarrow> f \<notin> listing w'"
    and missing: "env_delete_file env f w = (Inl (Io NotFound), w') \<Longrightarrow> f \<notin> listing w'"
    and messages: "env_messenger env = Some g \<Longrightarrow> g t m w = (q, w') \<Longrightarrow> listing w' = listing w"
    and order: "set (env_order env fs) = set fs"
begin

lemma accepted:
  assumes "accept env t m s = (r, s')"
  shows "fd_ref_counts s' = fd_ref_counts s \<and> get_ref_count s' = get_ref_count s \<and> listing (fd_world s') = listing (fd_world s)"
  using assms messages by (auto simp: accept_def on_world_def count_world split: option.splits prod.splits)

lemma inc_single:
  assumes "inc_ref_single env f s = (r, s')" "get_ref_count s f + 1 < 2 ^ 64"
  shows "get_ref_count s' = (get_ref_count s)(f := get_ref_count s f + (if r = Inr () then 1 else 0))
    \<and> listing (fd_world s') = listing (fd_world s)"
proof -
  obtain rc s1 where 1: "get_ref_count_internal f s = (Inr rc, s1)" "rc_count rc = get_ref_count s f"
      "get_ref_count s1 = get_ref_count s" "fd_world s1 = fd_world s"
    using get_ref_count_internal_ok by blast
  obtain r2 s2 where 2: "accept env Ref (IncRef f (rc_count rc)) s1 = (r2, s2)" by (cases "accept env Ref (IncRef f (rc_count rc)) s1") auto
  note a = accepted [OF 2, THEN conjunct2]
  show ?thesis using assms 1 2 a
    by (cases r2) (auto simp: inc_ref_single_def rc_inc_ref_def dassert_def Let_def count_update fun_eq_iff split: if_splits)
qed

lemma inc_all:
  assumes "inc_ref env fs s = (r, s')" "\<And>g. get_ref_count s g + length fs < 2 ^ 64"
  shows "listing (fd_world s') = listing (fd_world s) \<and> (\<forall>g. get_ref_count s g \<le> get_ref_count s' g
    \<and> get_ref_count s' g \<le> get_ref_count s g + length fs
    \<and> (r = Inr () \<longrightarrow> get_ref_count s' g = get_ref_count s g + count (mset fs) g))"
  using assms
proof (induction fs arbitrary: s)
  case (Cons f fs)
  obtain r1 s1 where 1: "inc_ref_single env f s = (r1, s1)" by (cases "inc_ref_single env f s")
  have "get_ref_count s f + 1 < 2 ^ 64" using Cons.prems(2) [of f] by simp
  note single = inc_single [OF 1 this]
  show ?case
  proof (cases r1)
    case (Inl e)
    then show ?thesis using Cons.prems(1) 1 single by auto
  next
    case (Inr u)
    have "get_ref_count s1 g + length fs < 2 ^ 64" for g using single Inr Cons.prems(2) [of g] by auto
    then have ih: "listing (fd_world s') = listing (fd_world s1) \<and> (\<forall>g. get_ref_count s1 g \<le> get_ref_count s' g
        \<and> get_ref_count s' g \<le> get_ref_count s1 g + length fs
        \<and> (r = Inr () \<longrightarrow> get_ref_count s' g = get_ref_count s1 g + count (mset fs) g))"
      using Cons.IH [of s1] Cons.prems(1) 1 Inr by simp
    have one: "get_ref_count s1 g = get_ref_count s g + (if g = f then 1 else 0)" for g using single Inr by simp
    have "get_ref_count s g \<le> get_ref_count s' g \<and> get_ref_count s' g \<le> get_ref_count s g + length (f # fs)
        \<and> (r = Inr () \<longrightarrow> get_ref_count s' g = get_ref_count s g + count (mset (f # fs)) g)" for g
      using ih one [of g] by (auto dest!: spec [of _ g] split: if_splits)
    then show ?thesis using single ih by simp
  qed
qed simp

lemma dec_single:
  assumes "dec_ref_single env f s = (r, s')" "get_ref_count s f < 2 ^ 64" "0 < get_ref_count s f"
  shows "get_ref_count s' = (get_ref_count s)(f := get_ref_count s f - (case r of Inl _ \<Rightarrow> 0 | Inr _ \<Rightarrow> 1))
    \<and> (r = Inr True \<longrightarrow> get_ref_count s' f = 0) \<and> listing (fd_world s') = listing (fd_world s)"
proof -
  obtain rc s1 where 1: "get_ref_count_internal f s = (Inr rc, s1)" "rc_count rc = get_ref_count s f"
      "get_ref_count s1 = get_ref_count s" "fd_world s1 = fd_world s"
    using get_ref_count_internal_ok by blast
  obtain r2 s2 where 2: "accept env Ref (DecRef f (rc_count rc)) s1 = (r2, s2)" by (cases "accept env Ref (DecRef f (rc_count rc)) s1") auto
  note a = accepted [OF 2, THEN conjunct2]
  show ?thesis using assms 1 2 a
    by (cases r2) (auto simp: dec_ref_single_def rc_dec_ref_ok count_update count_delete fun_eq_iff split: if_splits)
qed

lemma dec_all:
  assumes "close_with (dec_and_note env) fs (s, del) = (r, s', del')" "\<And>g. get_ref_count s g < 2 ^ 64"
    and "\<And>g. count (mset fs) g \<le> get_ref_count s g" "\<And>g. g \<in> set del \<Longrightarrow> get_ref_count s g = 0"
  shows "listing (fd_world s') = listing (fd_world s)
    \<and> (\<forall>g. get_ref_count s' g \<le> get_ref_count s g \<and> get_ref_count s g \<le> get_ref_count s' g + count (mset fs) g)
    \<and> (\<forall>g. g \<in> set del' \<longrightarrow> get_ref_count s' g = 0)"
  using assms
proof (induction fs arbitrary: s del r)
  case (Cons f fs)
  obtain r1 s1 where 1: "dec_ref_single env f s = (r1, s1)" by (cases "dec_ref_single env f s")
  have "0 < get_ref_count s f" using Cons.prems(3) [of f] by simp
  note single = dec_single [OF 1 Cons.prems(2) this]
  let ?del = "if r1 = Inr True then List.insert f del else del"
  have "\<exists>q. dec_and_note env f (s, del) = (q, s1, ?del)" using 1 by (cases r1) (auto simp: dec_and_note_def)
  then obtain r2 where 2: "close_with (dec_and_note env) fs (s1, ?del) = (r2, s', del')"
    using Cons.prems(1) by (auto split: prod.splits)
  have step: "get_ref_count s1 g \<le> get_ref_count s g" "get_ref_count s g \<le> get_ref_count s1 g + (if g = f then 1 else 0)" for g
    using single by (auto split: sum.splits)
  have "count (mset fs) g \<le> get_ref_count s1 g" for g using step(2) [of g] Cons.prems(3) [of g] by (auto split: if_splits)
  moreover
  have "get_ref_count s1 g < 2 ^ 64" for g using step(1) [of g] Cons.prems(2) [of g] by linarith
  moreover have "get_ref_count s1 g = 0" if "g \<in> set ?del" for g
    using that single Cons.prems(4) [of g] step(1) [of g] by (auto split: if_splits)
  ultimately have ih: "listing (fd_world s') = listing (fd_world s1)
    \<and> (\<forall>g. get_ref_count s' g \<le> get_ref_count s1 g \<and> get_ref_count s1 g \<le> get_ref_count s' g + count (mset fs) g)
    \<and> (\<forall>g. g \<in> set del' \<longrightarrow> get_ref_count s' g = 0)"
    by (intro Cons.IH [OF 2])
  have "get_ref_count s' g \<le> get_ref_count s g \<and> get_ref_count s g \<le> get_ref_count s' g + count (mset (f # fs)) g" for g
    using ih step [of g] by (auto split: if_splits dest!: spec [of _ g])
  then show ?case using ih single by simp
qed simp

lemma delete_one:
  assumes "delete_file env f s = (r, s')"
  shows "fd_ref_counts s' = fd_ref_counts s \<and> get_ref_count s' = get_ref_count s
    \<and> listing (fd_world s) - {f} \<subseteq> listing (fd_world s') \<and> listing (fd_world s') \<subseteq> listing (fd_world s)
    \<and> (r = Inr () \<longrightarrow> f \<notin> listing (fd_world s'))"
proof -
  obtain q w where w: "env_delete_file env f (fd_world s) = (q, w)" by (cases "env_delete_file env f (fd_world s)")
  then have "s' = s\<lparr>fd_world := w\<rparr>" "r = q \<or> q = Inl (Io NotFound)"
    using assms by (auto simp: delete_file_def on_world_def split: sum.splits if_splits)
  then show ?thesis using delete_only [OF w] deleted missing w by (auto simp: count_world)
qed

lemma delete_each:
  assumes "delete_pass env fs s = (r, s')"
  shows "fd_ref_counts s' = fd_ref_counts s \<and> get_ref_count s' = get_ref_count s
    \<and> listing (fd_world s) - {f \<in> set fs. env_debug env \<longrightarrow> get_ref_count s f = 0} \<subseteq> listing (fd_world s')
    \<and> listing (fd_world s') \<subseteq> listing (fd_world s)
    \<and> (r = Inr () \<longrightarrow> set fs \<inter> listing (fd_world s') = {})"
  using assms
proof (induction fs arbitrary: s)
  case (Cons f fs)
  show ?case
  proof (cases "env_debug env \<and> exists_ref s f")
    case True
    then show ?thesis using Cons.prems by auto
  next
    case False
    obtain r1 s1 where 1: "delete_file env f s = (r1, s1)" by (cases "delete_file env f s")
    note one = delete_one [OF 1]
    show ?thesis
    proof (cases r1)
      case (Inl e)
      then show ?thesis using Cons.prems False 1 one by (auto simp: exists_ref_count)
    next
      case (Inr u)
      then have "delete_pass env fs s1 = (r, s')" using Cons.prems False 1 by simp
      from Cons.IH [OF this] one Inr False show ?thesis by (auto simp: exists_ref_count)
    qed
  qed
qed simp

lemma delete_split:
  assumes "delete_files env fs s = (r, s')"
  shows "fd_ref_counts s' = fd_ref_counts s \<and> get_ref_count s' = get_ref_count s
    \<and> listing (fd_world s) - {f \<in> set fs. env_debug env \<longrightarrow> get_ref_count s f = 0} \<subseteq> listing (fd_world s')
    \<and> listing (fd_world s') \<subseteq> listing (fd_world s)
    \<and> (r = Inr () \<longrightarrow> set fs \<inter> listing (fd_world s') = {})
    \<and> ((\<exists>f. f \<in> set fs \<and> is_segments f \<and> f \<in> listing (fd_world s')) \<longrightarrow>
        (\<forall>g. \<not> is_segments g \<longrightarrow> g \<in> listing (fd_world s) \<longrightarrow> g \<in> listing (fd_world s')))"
proof -
  obtain r1 s1 where 1: "accept env File (NowDelete (length fs) fs) s = (r1, s1)"
    by (cases "accept env File (NowDelete (length fs) fs) s") auto
  obtain r2 s2 where 2: "delete_pass env (filter is_segments fs) s1 = (r2, s2)"
    by (cases "delete_pass env (filter is_segments fs) s1") auto
  note a = accepted [OF 1] and d = delete_each [OF 2]
  show ?thesis
  proof (cases r1)
    case (Inl e)
    then show ?thesis using assms 1 a by (auto simp: delete_files_def)
  next
    case (Inr u)
    show ?thesis
    proof (cases r2)
      case e: (Inl e)
      then have "r = Inl e" "s' = s2" using assms 1 2 Inr by (simp_all add: delete_files_def)
      then show ?thesis using a d by auto
    next
      case ok: (Inr u')
      then have 3: "delete_pass env (filter (\<lambda>f. \<not> is_segments f) fs) s2 = (r, s')"
        using assms 1 2 Inr by (simp add: delete_files_def)
      from a d delete_each [OF 3] ok show ?thesis by auto
    qed
  qed
qed

lemma dec_ref_ok:
  assumes "dec_ref env fs s = (r, s')" "\<And>g. get_ref_count s g < 2 ^ 64" "\<And>g. count (mset fs) g \<le> get_ref_count s g"
  shows "(\<forall>g. get_ref_count s' g \<le> get_ref_count s g \<and> get_ref_count s g \<le> get_ref_count s' g + count (mset fs) g)
    \<and> (\<forall>g. g \<in> listing (fd_world s) \<longrightarrow> 0 < get_ref_count s' g \<longrightarrow> g \<in> listing (fd_world s'))"
proof -
  obtain r1 s1 del where 1: "close_with (dec_and_note env) fs (s, []) = (r1, s1, del)"
    by (cases "close_with (dec_and_note env) fs (s, [])") auto
  obtain r2 where 2: "delete_files env (env_order env del) s1 = (r2, s')"
    using assms(1) 1 by (auto simp: dec_ref_def split: prod.splits)
  from dec_all [OF 1 assms(2,3)] delete_split [OF 2] order show ?thesis by auto
qed

lemma no_ref_kept:
  assumes "no_ref_loop env fs del s = (r, s')"
  shows "get_ref_count s' = get_ref_count s \<and> listing (fd_world s') = listing (fd_world s)
    \<and> (\<forall>del'. r = Inr del' \<longrightarrow> (\<forall>g \<in> set del'. g \<in> set del \<or> get_ref_count s g = 0))"
  using assms
proof (induction fs arbitrary: s del)
  case (Cons f fs)
  obtain r1 s1 where 1: "accept env File (WillDelete f) s = (r1, s1)" by (cases "accept env File (WillDelete f) s") auto
  note a = accepted [OF 1]
  show ?case
  proof (cases "exists_ref s f")
    case True
    then show ?thesis using Cons.IH [of del s] Cons.prems by simp
  next
    case False
    then have f: "get_ref_count s f = 0" by (simp add: exists_ref_count)
    show ?thesis
    proof (cases r1)
      case (Inl e)
      then show ?thesis using Cons.prems False 1 a by auto
    next
      case (Inr u)
      then have "no_ref_loop env fs (List.insert f del) s1 = (r, s')" using Cons.prems False 1 by simp
      from Cons.IH [OF this] a f show ?thesis by (auto dest!: bspec)
    qed
  qed
qed auto

lemma unrefed_kept:
  assumes "unrefed_loop env fs acc s = (r, s')"
  shows "get_ref_count s' = get_ref_count s \<and> listing (fd_world s') = listing (fd_world s)"
  using assms
proof (induction fs arbitrary: s acc)
  case (Cons f fs)
  obtain r1 s1 where 1: "accept env File (Removing f) s = (r1, s1)" by (cases "accept env File (Removing f) s") auto
  from accepted [OF 1] Cons.IH Cons.prems 1 show ?case by (cases r1) (auto split: if_splits)
qed simp

lemma delete_new_kept:
  assumes "delete_files_if_no_ref env fs s = (r, s')"
  shows "get_ref_count s' = get_ref_count s
    \<and> (\<forall>g. g \<in> listing (fd_world s) \<longrightarrow> 0 < get_ref_count s g \<longrightarrow> g \<in> listing (fd_world s'))"
proof -
  obtain r1 s1 where 1: "no_ref_loop env fs [] s = (r1, s1)" by (cases "no_ref_loop env fs [] s")
  show ?thesis
  proof (cases r1)
    case (Inl e)
    then show ?thesis using assms 1 no_ref_kept [OF 1] by (auto simp: delete_files_if_no_ref_def)
  next
    case (Inr del)
    then have "delete_files env (env_order env del) s1 = (r, s')" using assms 1 by (simp add: delete_files_if_no_ref_def)
    from delete_split [OF this] no_ref_kept [OF 1] Inr order show ?thesis by auto
  qed
qed

lemma delete_one_new_kept:
  assumes "delete_file_if_no_ref env f s = (r, s')"
  shows "get_ref_count s' = get_ref_count s
    \<and> (\<forall>g. g \<in> listing (fd_world s) \<longrightarrow> 0 < get_ref_count s g \<longrightarrow> g \<in> listing (fd_world s'))"
proof -
  obtain r1 s1 where 1: "accept env File (WillDelete f) s = (r1, s1)" by (cases "accept env File (WillDelete f) s") auto
  note a = accepted [OF 1]
  show ?thesis
  proof (cases "exists_ref s f \<or> (\<exists>e. r1 = Inl e)")
    case True
    then show ?thesis using assms 1 a by (auto simp: delete_file_if_no_ref_def split: if_splits)
  next
    case False
    then have "delete_file env f s1 = (r, s')" "get_ref_count s f = 0"
      using assms 1 by (cases r1, auto simp: delete_file_if_no_ref_def exists_ref_count)+
    from delete_one [OF this(1)] this(2) a show ?thesis by auto
  qed
qed

end

section \<open>Clients\<close>

text \<open>
  The clients of a deleter hold references: \<open>held\<close> is the multiset of the files they acquired and have not released,
  \<open>n\<close> bounds the number of increments so far. An acquisition that fails gives no reference; a reference is released
  once, also when the release reports an error. \<^verbatim>\<open>delete_files\<close> has the precondition that no file of the call is
  referenced, which it asserts when debug assertions are compiled in. The file of a forced deletion loses its
  references. The other methods may be called at any time.
\<close>

inductive fd_call :: "'w fd_env \<Rightarrow> 'w file_deleter \<times> string multiset \<times> nat \<Rightarrow> 'w file_deleter \<times> string multiset \<times> nat \<Rightarrow> bool"
  for env :: "'w fd_env" where
  acquire: "n + length fs < 2 ^ 64 \<Longrightarrow> inc_ref env fs s = (r, s') \<Longrightarrow>
    fd_call env (s, held, n) (s', if r = Inr () then held + mset fs else held, n + length fs)"
| release: "mset fs \<subseteq># held \<Longrightarrow> dec_ref env fs s = (r, s') \<Longrightarrow> fd_call env (s, held, n) (s', held - mset fs, n)"
| touch: "fd_call env (s, held, n) (init_ref_count f s, held, n)"
| unrefed: "get_unrefed_files env s = (r, s') \<Longrightarrow> fd_call env (s, held, n) (s', held, n)"
| delete_listed: "env_debug env \<or> (\<forall>f \<in> set fs. \<not> exists_ref s f) \<Longrightarrow> delete_files env fs s = (r, s') \<Longrightarrow>
    fd_call env (s, held, n) (s', held, n)"
| delete_new: "delete_files_if_no_ref env fs s = (r, s') \<Longrightarrow> fd_call env (s, held, n) (s', held, n)"
| delete_one_new: "delete_file_if_no_ref env f s = (r, s') \<Longrightarrow> fd_call env (s, held, n) (s', held, n)"
| force: "force_delete env f s = (r, s') \<Longrightarrow> fd_call env (s, held, n) (s', filter_mset (\<lambda>g. g \<noteq> f) held, n)"

text \<open>Between the calls other parts of the program may change the directory in any way.\<close>

inductive fd_reachable :: "'w fd_env \<Rightarrow> 'w file_deleter \<times> string multiset \<times> nat \<Rightarrow> bool"
  for env :: "'w fd_env" where
  start: "fd_reachable env (fd_new w, {#}, 0)"
| call: "fd_reachable env y \<Longrightarrow> fd_call env y y' \<Longrightarrow> fd_reachable env y'"
| others: "fd_reachable env (s, held, n) \<Longrightarrow> fd_reachable env (s\<lparr>fd_world := w\<rparr>, held, n)"

text \<open>The invariant, and what a call keeps of the directory.\<close>

definition fd_inv :: "'w file_deleter \<times> string multiset \<times> nat \<Rightarrow> bool" where
  "fd_inv = (\<lambda>(s, held, n). n < 2 ^ 64 \<and> (\<forall>f. count held f \<le> get_ref_count s f \<and> get_ref_count s f \<le> n))"

definition fd_safe ::
  "('w \<Rightarrow> string set) \<Rightarrow> 'w file_deleter \<times> string multiset \<times> nat \<Rightarrow> 'w file_deleter \<times> string multiset \<times> nat \<Rightarrow> bool" where
  "fd_safe listing = (\<lambda>(s, _, _) (s', held', n').
     fd_inv (s', held', n') \<and> (\<forall>f. f \<in># held' \<longrightarrow> f \<in> listing (fd_world s) \<longrightarrow> f \<in> listing (fd_world s')))"

lemma fd_invD:
  assumes "fd_inv (s, held, n)"
  shows "n < 2 ^ 64" "\<And>f. count held f \<le> get_ref_count s f" "\<And>f. get_ref_count s f \<le> n"
    and "\<And>f. f \<in># held \<Longrightarrow> 0 < get_ref_count s f" "\<And>f. get_ref_count s f < 2 ^ 64"
proof -
  show *: "n < 2 ^ 64" "\<And>f. count held f \<le> get_ref_count s f" "\<And>f. get_ref_count s f \<le> n"
    using assms by (auto simp: fd_inv_def)
  show "0 < get_ref_count s f" if "f \<in># held" for f using *(2) [of f] that by (meson count_greater_zero_iff less_le_trans)
  show "get_ref_count s f < 2 ^ 64" for f using *(1) *(3) [of f] by linarith
qed

lemma fd_safeI:
  assumes "n' < 2 ^ 64" "\<And>f. count held' f \<le> get_ref_count s' f" "\<And>f. get_ref_count s' f \<le> n'"
    and "\<And>f. f \<in># held' \<Longrightarrow> f \<in> listing (fd_world s) \<Longrightarrow> f \<in> listing (fd_world s')"
  shows "fd_safe listing (s, held, n) (s', held', n')"
  using assms by (auto simp: fd_safe_def fd_inv_def)

context file_world
begin

lemma kept_step:
  assumes "fd_inv (s, held, n)" "get_ref_count s' = get_ref_count s"
    and "\<And>g. g \<in> listing (fd_world s) \<Longrightarrow> 0 < get_ref_count s g \<Longrightarrow> g \<in> listing (fd_world s')"
  shows "fd_safe listing (s, held, n) (s', held, n)"
  using fd_invD [OF assms(1)] assms(2,3) by (intro fd_safeI) auto

lemma acquire_step:
  assumes "fd_inv (s, held, n)" "n + length fs < 2 ^ 64" "inc_ref env fs s = (r, s')"
  shows "fd_safe listing (s, held, n) (s', if r = Inr () then held + mset fs else held, n + length fs)"
proof -
  note i = fd_invD [OF assms(1)]
  have "get_ref_count s g + length fs < 2 ^ 64" for g using i(3) [of g] assms(2) by linarith
  note inc = inc_all [OF assms(3) this]
  show ?thesis
  proof (rule fd_safeI)
    fix f
    show "count (if r = Inr () then held + mset fs else held) f \<le> get_ref_count s' f"
      using i(2) [of f] inc by (auto dest!: spec [of _ f] split: if_splits)
    show "get_ref_count s' f \<le> n + length fs" using i(3) [of f] inc by (auto dest!: spec [of _ f])
    show "f \<in> listing (fd_world s')" if "f \<in> listing (fd_world s)" using that inc by simp
  qed (rule assms(2))
qed

lemma release_step:
  assumes "fd_inv (s, held, n)" "mset fs \<subseteq># held" "dec_ref env fs s = (r, s')"
  shows "fd_safe listing (s, held, n) (s', held - mset fs, n)"
proof -
  note i = fd_invD [OF assms(1)]
  have "count (mset fs) g \<le> get_ref_count s g" for g using i(2) [of g] mset_subset_eq_count [OF assms(2), of g] by linarith
  note dec = dec_ref_ok [OF assms(3) i(5) this]
  have c: "count (held - mset fs) f \<le> get_ref_count s' f" for f using i(2) [of f] dec by (auto dest!: spec [of _ f])
  show ?thesis
  proof (rule fd_safeI)
    fix f
    show "f \<in> listing (fd_world s')" if "f \<in># held - mset fs" "f \<in> listing (fd_world s)"
    proof -
      have "0 < get_ref_count s' f" using c [of f] that(1) by (meson count_greater_zero_iff less_le_trans)
      then show ?thesis using dec that(2) by blast
    qed
    show "get_ref_count s' f \<le> n" using i(3) [of f] dec by (meson le_trans)
  qed (use i(1) c in simp_all)
qed

lemma force_step:
  assumes "fd_inv (s, held, n)" "force_delete env f s = (r, s')"
  shows "fd_safe listing (s, held, n) (s', filter_mset (\<lambda>g. g \<noteq> f) held, n)"
proof -
  note i = fd_invD [OF assms(1)]
  note d = delete_one [OF assms(2) [unfolded force_delete_def]]
  have g: "get_ref_count s' = (get_ref_count s)(f := 0)" using d by (simp add: count_delete)
  show ?thesis
  proof (rule fd_safeI)
    fix h
    show "h \<in> listing (fd_world s')" if "h \<in># filter_mset (\<lambda>g. g \<noteq> f) held" "h \<in> listing (fd_world s)" using that d by auto
    show "count (filter_mset (\<lambda>g. g \<noteq> f) held) h \<le> get_ref_count s' h" unfolding g using i(2) [of h] by simp
    show "get_ref_count s' h \<le> n" unfolding g using i(3) [of h] by simp
  qed (rule i(1))
qed

lemma safe_call: "fd_call env y y' \<Longrightarrow> fd_inv y \<Longrightarrow> fd_safe listing y y'"
proof (induction rule: fd_call.induct)
  case (touch s held n f)
  then show ?case using kept_step init_ref_count_ok by metis
next
  case (unrefed s r s' held n)
  then show ?case using kept_step unrefed_kept unfolding get_unrefed_files_def by metis
next
  case (delete_listed fs s r s' held n)
  from delete_split [OF this(2)] this(1) show ?case by (intro kept_step [OF delete_listed(3)]) (auto simp: exists_ref_count)
qed (use acquire_step release_step force_step kept_step delete_new_kept delete_one_new_kept in metis)+

lemma reachable_inv: "fd_reachable env y \<Longrightarrow> fd_inv y"
proof (induction rule: fd_reachable.induct)
  case (start w)
  show ?case by (simp add: fd_inv_def fd_new_def get_ref_count_def)
next
  case (call y y')
  from safe_call [OF call(2,3)] show ?case by (auto simp: fd_safe_def split: prod.splits)
next
  case (others s held n w)
  then show ?case by (simp add: fd_inv_def count_world)
qed

end

section \<open>Deleting from a directory in memory\<close>

text \<open>The deleter over a \<^verbatim>\<open>ByteBuffersDirectory\<close>, with a consumer of messages that does not touch the directory.\<close>

definition bb_env :: "(msg_type \<Rightarrow> message \<Rightarrow> unit res) \<Rightarrow> bool \<Rightarrow> bool \<Rightarrow> 'c bb_dir fd_env" where
  "bb_env consume windows debug =
     \<lparr>env_messenger = Some (\<lambda>t m d. (consume t m, d)), env_delete_file = (\<lambda>f d. bb_delete_file d f), env_windows = windows,
      env_debug = debug, env_order = (\<lambda>fs. fs)\<rparr>"

interpretation bb: file_world "bb_env consume windows debug" bb_listing for consume windows debug
  by unfold_locales (auto simp: bb_env_def bb_delete_file_def bb_listing_def bb_ensure_open_def delete_conv' split: option.splits if_splits)

text \<open>On Windows \<^verbatim>\<open>delete_file\<close> means to ignore that a file is missing, but the directories report it as
  \<^verbatim>\<open>IoWithPath\<close>, which it does not match.\<close>

lemma windows_missing_file:
  assumes "bb_is_open (fd_world s)" "f \<notin> bb_listing (fd_world s)"
  shows "delete_file (bb_env consume True debug) f s = (Inl (IoWithPath NotFound), s)"
  using assms by (simp add: delete_file_def on_world_def bb_env_def bb_delete_file_def bb_ensure_open_def bb_listing_def domIff)

section \<open>Safety\<close>

text \<open>C39. A file to which a client holds a reference is not deleted by a \<^verbatim>\<open>FileDeleter\<close>, with or without debug assertions.
  Clients that release only references they hold, make less than \<open>2 ^ 64\<close> increments and call \<^verbatim>\<open>delete_files\<close> for files
  without references only (with debug assertions for any files) may call its methods in any order, and others may
  change the directory between the calls; the directory and the consumer of messages may return any errors. In every
  state they reach the count of a file is at least the number of references that are held, and every file that is in
  the directory before a call and held after it is still in the directory after the call, and referenced. The
  references to a file end when its deletion is forced.\<close>

theorem referenced_files_stay:
  assumes "file_world env listing" "fd_reachable env (s, held, n)" "fd_call env (s, held, n) (s', held', n')"
  shows "(\<forall>f. count held f \<le> get_ref_count s f)
    \<and> (\<forall>f. f \<in># held' \<longrightarrow> exists_ref s' f \<and> (f \<in> listing (fd_world s) \<longrightarrow> f \<in> listing (fd_world s')))"
proof -
  note i = file_world.reachable_inv [OF assms(1,2)]
  have "fd_safe listing (s, held, n) (s', held', n')" by (rule file_world.safe_call [OF assms(1,3) i])
  then have "fd_inv (s', held', n')" "\<forall>f. f \<in># held' \<longrightarrow> f \<in> listing (fd_world s) \<longrightarrow> f \<in> listing (fd_world s')"
    by (auto simp: fd_safe_def)
  with fd_invD [OF i] fd_invD(4) [OF this(1)] show ?thesis by (simp add: exists_ref_count)
qed

text \<open>C40. \<^verbatim>\<open>delete_files\<close> removes the \<^verbatim>\<open>segments_N\<close> files first: as long as one of them that it was asked to delete is
  in the directory, no other file has been deleted, so that no commit point is left without its files; if it
  succeeds, all files it was asked to delete are gone.\<close>

theorem segments_deleted_first:
  assumes "file_world env listing" "delete_files env fs s = (r, s')"
  shows "(r = Inr () \<longrightarrow> set fs \<inter> listing (fd_world s') = {})
    \<and> ((\<exists>f. f \<in> set fs \<and> is_segments f \<and> f \<in> listing (fd_world s')) \<longrightarrow>
        (\<forall>g. \<not> is_segments g \<longrightarrow> g \<in> listing (fd_world s) \<longrightarrow> g \<in> listing (fd_world s')))"
  using file_world.delete_split [OF assms] by blast

definition dir_sample :: "nat bb_dir" where
  "dir_sample = \<lparr>bb_is_open = True, bb_files = [(''segments_1'', 0), (''_0.si'', 1)],
     bb_entries = [file_entry_new ''segments_1'', file_entry_new ''_0.si'']\<rparr>"

definition env_sample :: "nat bb_dir fd_env" where
  "env_sample = bb_env (\<lambda>_ _. Inr ()) False False"

theorem referenced_files_stay_witness:
  "\<exists>s s'. file_world env_sample bb_listing \<and> fd_reachable env_sample (s, {#''_0.si''#}, 1)
    \<and> fd_call env_sample (s, {#''_0.si''#}, 1) (s', {#''_0.si''#}, 1)
    \<and> ''segments_1'' \<notin> bb_listing (fd_world s') \<and> ''_0.si'' \<in> bb_listing (fd_world s') \<and> exists_ref s' ''_0.si''"
proof -
  let ?s = "\<lparr>fd_ref_counts = [(''_0.si'', \<lparr>rc_init_done = False, rc_count = 1\<rparr>)], fd_world = dir_sample\<rparr>"
  let ?s' = "snd (delete_files_if_no_ref env_sample [''segments_1'', ''_0.si''] ?s)"
  have w: "file_world env_sample bb_listing" unfolding env_sample_def by (rule bb.file_world_axioms)
  have 1: "inc_ref env_sample [''_0.si''] (fd_new dir_sample) = (Inr (), ?s)"
    by (simp add: inc_ref_single_def get_ref_count_internal_def accept_def on_world_def rc_inc_ref_def rc_new_def
        env_sample_def bb_env_def fd_new_def)
  have "fd_call env_sample (fd_new dir_sample, {#}, 0) (?s, {#''_0.si''#}, 1)"
    using fd_call.acquire [OF _ 1, of 0 "{#}"] by simp
  then have 2: "fd_reachable env_sample (?s, {#''_0.si''#}, 1)" by (rule fd_reachable.call [OF fd_reachable.start])
  have 3: "fd_call env_sample (?s, {#''_0.si''#}, 1) (?s', {#''_0.si''#}, 1)"
    by (rule fd_call.delete_new) (rule prod.collapse [symmetric])
  have "map_of (bb_files (fd_world ?s')) ''segments_1'' = None" by code_simp
  then have "''segments_1'' \<notin> bb_listing (fd_world ?s')" unfolding bb_listing_def by blast
  moreover have "''_0.si'' \<in># {#''_0.si''#}" "''_0.si'' \<in> bb_listing (fd_world ?s)" by (simp_all add: dir_sample_def bb_listing_def)
  with referenced_files_stay [OF w 2 3] have "''_0.si'' \<in> bb_listing (fd_world ?s')" "exists_ref ?s' ''_0.si''" by blast+
  ultimately show ?thesis using w 2 3 by blast
qed

theorem segments_deleted_first_witness:
  "\<exists>r s'. file_world env_sample bb_listing
    \<and> delete_files env_sample [''_0.si'', ''segments_2'', ''segments_1''] (fd_new dir_sample) = (r, s')
    \<and> ''segments_1'' \<in> bb_listing (fd_world s') \<and> ''_0.si'' \<in> bb_listing (fd_world s')"
proof -
  let ?d = "delete_files env_sample [''_0.si'', ''segments_2'', ''segments_1''] (fd_new dir_sample)"
  have w: "file_world env_sample bb_listing" unfolding env_sample_def by (rule bb.file_world_axioms)
  have "map_of (bb_files (fd_world (snd ?d))) ''segments_1'' = Some 0" by code_simp
  then have 1: "''segments_1'' \<in> bb_listing (fd_world (snd ?d))" by (auto simp: bb_listing_def)
  have 2: "is_segments ''segments_1''" "\<not> is_segments ''_0.si''" by code_simp+
  have 3: "''_0.si'' \<in> bb_listing (fd_world (fd_new dir_sample))" by (simp add: fd_new_def dir_sample_def bb_listing_def)
  have d: "?d = (fst ?d, snd ?d)" by simp
  have "''_0.si'' \<in> bb_listing (fd_world (snd ?d))" using segments_deleted_first [OF w d] 1 2 3 by auto
  then show ?thesis using w d 1 by blast
qed

end
