(* ===== verification/Spec2Isabelle.thy ===== *)
theory Spec2Isabelle
  imports Rl_Prelude Word_Bits Array_Util Fixed_Bit_Set Doc_Iter Bit_Sets Doc_Base Disi_Combi Bulk_Ops Bit_Util Data_IO Group_Vint
    Byte_Buffers_In Heap_Order Long_Heap Priority_Queue Scorer_Util Byte_Buffers_Dir File_Deleter
begin

text \<open>
  A verification library for rlucene, the Rust port of Apache Lucene. Paths below are relative to
  \<^verbatim>\<open>src/src/core/\<close>.

  \<^bold>\<open>The program and its parts.\<close> The code modelled here is the ground the search library stands on: bit
  sets of documents and the iterators over them, the packed encodings of integers, the data types
  of the files, the heaps that searches collect and merge with, and the reference counts of the files of an
  index. Iterators run over bit
  sets and over other iterators; bit sets take iterators as arguments of their bulk operations; the
  packed encodings and group-varints are what postings and doc values are stored in, through the
  streams of \<^verbatim>\<open>store\<close>; the deleter of files works on a directory.

  \<^bold>\<open>How Rust is read.\<close> A \<^verbatim>\<open>Result\<close> is \<open>lucene_error + 'a\<close> (\<open>'a res\<close>), with \<open>rbind\<close> for \<^verbatim>\<open>?\<close>. The errors are
  the kinds of \<^verbatim>\<open>LuceneError\<close> without their messages, and \<open>Panic\<close> stands for an index out of range, a
  failed \<^verbatim>\<open>debug_assert!\<close>, or an arithmetic overflow: the model is the build with overflow checks and
  debug assertions (the deleter of files is modelled for both builds). Slices are lists with checked \<open>idx\<close>, \<open>upd\<close>, \<open>slice\<close> and \<open>splice\<close>; \<^verbatim>\<open>usize\<close> is \<open>nat\<close> with a
  checked subtraction \<open>usub\<close> (and a checked addition where a loop could leave the type), the other
  integers are words of their width, or \<open>int\<close> with the range check written out where the code uses an
  \<^verbatim>\<open>i32\<close> as a document number. A trait is the record of its required methods, its provided methods are
  functions of that record, and its contract is a locale, interpreted on the definitions of every
  modelled implementation. \<^verbatim>\<open>&mut self\<close> is a state that is passed and returned; the state after an error
  is only modelled for the deleter of files, whose callers go on after an error. The \<^verbatim>\<open>==\<close> of the elements of a
  priority queue is equality.

  \<^bold>\<open>Theories.\<close>
  \<^item> \<open>Rl_Prelude\<close>: results, checked accesses, counted loops (\<open>for_each\<close>) and their invariant rules, the next
    and the previous element of a set; \<open>Word_Bits\<close>: counting of bits, masks, the bits of a vector of
    words, shifts.
  \<^item> \<open>Array_Util\<close>: the growth policy of \<^verbatim>\<open>util/array_util.rs\<close>.
  \<^item> \<open>Fixed_Bit_Set\<close>: \<^verbatim>\<open>util/fixed_bit_set.rs\<close>. The record is the struct; \<open>fbs_inv\<close> says that the words suffice and
    the ghost bits are clear, \<open>fbs_set\<close> is the set of numbers it stands for. Every operation keeps the one
    and does to the other what its name says (C1 to C6).
  \<^item> \<open>Doc_Iter\<close>: the contract \<open>disi\<close> of \<^verbatim>\<open>DocIdSetIterator\<close> (\<^verbatim>\<open>search/doc_id_set_iterator.rs\<close>) and its basic
    instances; \<open>Bit_Sets\<close>: the trait \<^verbatim>\<open>BitSet\<close>, its contract \<open>bit_set\<close> and \<^verbatim>\<open>BitSetIterator\<close>, an iterator for every
    set that keeps the contract; \<open>Doc_Base\<close>: \<^verbatim>\<open>DocBaseBitSetIterator\<close> and the operations of a bit set with an
    iterator; \<open>Disi_Combi\<close>: sorted arrays, complements and conjunctions (C7 to C13).
  \<^item> \<open>Packed_Bits\<close>, \<open>Packed_Dec_A\<close> to \<open>Packed_Dec_D\<close>, \<open>Bulk_Packed\<close>, \<open>Bulk_Single\<close>, \<open>Bulk_Enum\<close>, \<open>Bulk_Ops\<close>: the bulk
    operations of \<^verbatim>\<open>util/packed\<close>. \<open>unpack\<close> is the layout, most significant bit first; every decoder is shown
    to compute it and every encoder to invert it (C14 to C21). Each of the 24 unrolled decoders interprets the locale
    \<open>bulk_group\<close>.
  \<^item> \<open>Bit_Util\<close>: \<^verbatim>\<open>util/bit_util.rs\<close> (C22 to C25).
  \<^item> \<open>Data_IO\<close>: \<^verbatim>\<open>store/data_output.rs\<close>, \<^verbatim>\<open>store/data_input.rs\<close> and the streams on byte arrays. What a call appends and
    what it consumes are \<open>appends\<close> and \<open>consumes\<close>, the contracts \<open>data_sink\<close> and \<open>data_source\<close> (C26 to C29).
  \<^item> \<open>Group_Vint\<close>: \<^verbatim>\<open>util/group_vint_util.rs\<close> over these contracts (C30 to C32).
  \<^item> \<open>Byte_Buffers_In\<close>: \<^verbatim>\<open>store/byte_buffers_data_input.rs\<close>, the input over blocks. \<open>bbi_rest\<close> is what it still gives; it
    interprets \<open>data_source\<close>, its overriding methods agree with the ones of the trait and of the group-varints, and
    what was written is read back from any split into blocks (C33, C34).
  \<^item> \<open>Heap_Order\<close>: the order of a binary heap in a list; \<open>Long_Heap\<close>: \<^verbatim>\<open>util/long_heap.rs\<close>, \<open>Priority_Queue\<close>:
    \<^verbatim>\<open>util/priority_queue.rs\<close>, both refinements of the multiset of their elements; \<open>Scorer_Util\<close>:
    \<^verbatim>\<open>search/scorer_util.rs\<close>, a client of the queue (C35 to C38).
  \<^item> \<open>Byte_Buffers_Dir\<close>: the table of the files of \<^verbatim>\<open>store/byte_buffers_directory.rs\<close>; \<open>File_Deleter\<close>:
    \<^verbatim>\<open>util/file_deleter.rs\<close> with \<^verbatim>\<open>close_with\<close> of \<^verbatim>\<open>util/io_utils.rs\<close>, over the contract \<open>file_world\<close> of a directory and a
    consumer of messages, which the directory in memory keeps. Sequences of calls are the steps of \<open>fd_call\<close> and
    \<open>fd_reachable\<close> (C39, C40).

  \<^bold>\<open>Bounds and termination.\<close> There is no fuel. The loops that depend on what an iterator returns (\<open>slow_loop\<close>, \<open>doc_loop\<close>,
  \<open>conj_do_next\<close>, \<open>bc_do_next\<close>) and the sifting of \<^verbatim>\<open>LongHeap\<close> (\<open>down_loop\<close>) are partial functions into options; C7, C9, C12, C13 and
  C36 prove that they return. The other loops are recursive functions with a termination proof. Hypotheses on
  sizes (\<open>2 ^ 31\<close> elements, \<open>2 ^ 32\<close> bytes of a single block, the room of a byte array) are the limits the code checks
  or converts by.

  \<^bold>\<open>Code that is not in the repository.\<close> The byte shuffle and the pairs of words of the crate \<^verbatim>\<open>wide\<close> are arguments of the
  definitions that use them, with their documented behaviour (\<open>swizzle_ok\<close>, \<open>u64x2_ok\<close>) as hypotheses. The capacity that the
  allocator grants to a vector is an argument without a hypothesis.

  \<^bold>\<open>Not modelled.\<close> The index writer, readers, merging, codecs, queries and scoring: concurrent code over files,
  trait objects and caches, whose state is the file system and the threads. The other directories, their streams
  and locks are operating-system I/O. Similarities, vectors, geometry and the float encodings are floating-point code, for
  which the libraries used here have no IEEE model. Analysis and the query parsers work on generated tables.
  The automata, FST and BKD trees, the sorters and selectors, the sparse and roaring sets and the byte pools are
  sequential code that could be modelled in the same way and is not yet. Within the modelled files, forwarding
  implementations (enums, boxes, references), \<^verbatim>\<open>Display\<close> and \<^verbatim>\<open>Hash\<close> instances and memory accounting are left out.
\<close>

end
